(* ===== verification/Prelude.thy ===== *)
theory Prelude
  imports Main "HOL-Library.Word" "HOL-Library.Char_ord" "HOL-Library.List_Lexorder"
begin

text \<open>
  Shared vocabulary of the development: the fact collections, the names of the machine
  integer types, Rust's \<open>Result\<close> as a sum (\<open>Inl\<close> the error, \<open>Inr\<close> the value),
  \<open>std::cmp::Ordering\<close> with the lexicographic comparison of slices (what
  \<open>#[derive(Ord)]\<close> generates for sequences), and small lemmas on lists that the
  components share.
\<close>

named_theorems result_simps \<open>unfolding of the result combinators\<close>
named_theorems wf_intros \<open>introduction rules for the well-formedness invariants\<close>

type_synonym u8 = char
type_synonym bytes = "char list"
type_synonym u32 = "32 word"
type_synonym u64 = "64 word"

section \<open>Results\<close>

text \<open>The \<open>?\<close> operator on \<open>Result\<close>: stop at the first error.\<close>

definition result_bind :: "'e + 'a \<Rightarrow> ('a \<Rightarrow> 'e + 'b) \<Rightarrow> 'e + 'b" where
  "result_bind r f = (case r of Inl e \<Rightarrow> Inl e | Inr x \<Rightarrow> f x)"

definition result_map_err :: "('e \<Rightarrow> 'f) \<Rightarrow> 'e + 'a \<Rightarrow> 'f + 'a" where
  "result_map_err g r = (case r of Inl e \<Rightarrow> Inl (g e) | Inr x \<Rightarrow> Inr x)"

definition ok_or :: "'e \<Rightarrow> 'a option \<Rightarrow> 'e + 'a" where
  "ok_or e m = (case m of None \<Rightarrow> Inl e | Some x \<Rightarrow> Inr x)"

fun is_ok :: "'e + 'a \<Rightarrow> bool" where
  "is_ok (Inr _) = True"
| "is_ok (Inl _) = False"

lemma result_bind_simps [simp, result_simps]:
  "result_bind (Inl e) f = Inl e"
  "result_bind (Inr x) f = f x"
  by (simp_all add: result_bind_def)

lemma result_map_err_simps [simp, result_simps]:
  "result_map_err g (Inl e) = Inl (g e)"
  "result_map_err g (Inr x) = Inr x"
  by (simp_all add: result_map_err_def)

lemma ok_or_simps [simp, result_simps]:
  "ok_or e None = Inl e"
  "ok_or e (Some x) = Inr x"
  by (simp_all add: ok_or_def)

lemma result_bind_Inr_iff:
  "result_bind r f = Inr y \<longleftrightarrow> (\<exists>x. r = Inr x \<and> f x = Inr y)"
  by (cases r) auto

lemma result_bind_Inl_iff:
  "result_bind r f = Inl e \<longleftrightarrow> r = Inl e \<or> (\<exists>x. r = Inr x \<and> f x = Inl e)"
  by (cases r) auto

lemma is_ok_iff: "is_ok r \<longleftrightarrow> (\<exists>x. r = Inr x)"
  by (cases r) auto

section \<open>Comparison\<close>

text \<open>
  \<open>std::cmp::Ordering\<close>. A derived \<open>Ord\<close> compares the fields in order and stops at
  the first that differs (\<open>then_with\<close>); slices and iterators compare element by element,
  the shorter one first when it is a prefix of the other.
\<close>

datatype ordering = Less | Equal | Greater

fun reverse_ordering :: "ordering \<Rightarrow> ordering" where
  "reverse_ordering Less = Greater"
| "reverse_ordering Equal = Equal"
| "reverse_ordering Greater = Less"

fun then_with :: "ordering \<Rightarrow> ordering \<Rightarrow> ordering" where
  "then_with Equal o2 = o2"
| "then_with Less _ = Less"
| "then_with Greater _ = Greater"

definition cmp_ord :: "'a::linorder \<Rightarrow> 'a \<Rightarrow> ordering" where
  "cmp_ord x y = (if x < y then Less else if x = y then Equal else Greater)"

fun cmp_list :: "('a \<Rightarrow> 'a \<Rightarrow> ordering) \<Rightarrow> 'a list \<Rightarrow> 'a list \<Rightarrow> ordering" where
  "cmp_list c [] [] = Equal"
| "cmp_list c [] (_ # _) = Less"
| "cmp_list c (_ # _) [] = Greater"
| "cmp_list c (x # xs) (y # ys) = then_with (c x y) (cmp_list c xs ys)"

lemma cmp_list_cong [fundef_cong]:
  assumes "xs = xs'" and "ys = ys'"
    and "\<And>x y. x \<in> set xs' \<Longrightarrow> y \<in> set ys' \<Longrightarrow> c x y = d x y"
  shows "cmp_list c xs ys = cmp_list d xs' ys'"
  using assms(3) unfolding assms(1,2)
  by (induction c xs' ys' rule: cmp_list.induct) auto

text \<open>
  \<open>comparable_at c x\<close>: comparing the value \<open>x\<close> with others behaves as a linear order
  should. Stated for one value at a time, so that it can be the induction hypothesis
  of a nested datatype.
\<close>

definition comparable_at :: "('a \<Rightarrow> 'a \<Rightarrow> ordering) \<Rightarrow> 'a \<Rightarrow> bool" where
  "comparable_at c x \<longleftrightarrow>
     (\<forall>y. (c x y = Equal \<longleftrightarrow> x = y) \<and> c y x = reverse_ordering (c x y)) \<and>
     (\<forall>y z. c x y = Less \<longrightarrow> c y z \<noteq> Greater \<longrightarrow> c x z = Less)"

lemma comparable_atI:
  assumes "\<And>y. c x y = Equal \<longleftrightarrow> x = y" and "\<And>y. c y x = reverse_ordering (c x y)"
    and "\<And>y z. c x y = Less \<Longrightarrow> c y z \<noteq> Greater \<Longrightarrow> c x z = Less"
  shows "comparable_at c x"
  using assms unfolding comparable_at_def by blast

lemma comparable_at_Equal: "comparable_at c x \<Longrightarrow> c x y = Equal \<longleftrightarrow> x = y"
  unfolding comparable_at_def by blast

lemma comparable_at_refl: "comparable_at c x \<Longrightarrow> c x x = Equal"
  by (simp add: comparable_at_Equal)

lemma comparable_at_sym: "comparable_at c x \<Longrightarrow> c y x = reverse_ordering (c x y)"
  unfolding comparable_at_def by blast

lemma comparable_at_trans:
  "comparable_at c x \<Longrightarrow> c x y = Less \<Longrightarrow> c y z \<noteq> Greater \<Longrightarrow> c x z = Less"
  unfolding comparable_at_def by blast

lemma reverse_ordering_iff [simp]:
  "reverse_ordering r = Equal \<longleftrightarrow> r = Equal"
  "reverse_ordering r = Less \<longleftrightarrow> r = Greater"
  "reverse_ordering r = Greater \<longleftrightarrow> r = Less"
  "reverse_ordering (reverse_ordering r) = r"
  by (cases r; simp)+

lemma then_with_iff [simp]:
  "then_with a b = Equal \<longleftrightarrow> a = Equal \<and> b = Equal"
  "then_with a b = Less \<longleftrightarrow> a = Less \<or> (a = Equal \<and> b = Less)"
  "reverse_ordering (then_with a b) = then_with (reverse_ordering a) (reverse_ordering b)"
  by (cases a; simp)+

lemma cmp_ord_comparable: "comparable_at cmp_ord (x :: 'a::linorder)"
  by (intro comparable_atI) (auto simp: cmp_ord_def split: if_splits)

lemma cmp_list_comparable:
  assumes "\<And>x. x \<in> set xs \<Longrightarrow> comparable_at c x"
  shows "comparable_at (cmp_list c) xs"
  using assms
proof (induction xs)
  case Nil
  show ?case
  proof (rule comparable_atI)
    show "cmp_list c [] y = Equal \<longleftrightarrow> [] = y" for y
      by (cases y) auto
    show "cmp_list c y [] = reverse_ordering (cmp_list c [] y)" for y
      by (cases y) auto
    show "cmp_list c [] z = Less" if "cmp_list c [] y = Less" "cmp_list c y z \<noteq> Greater" for y z
      using that by (cases y; cases z) auto
  qed
next
  case (Cons x xs)
  have x: "comparable_at c x" and xs: "comparable_at (cmp_list c) xs"
    using Cons by auto
  show ?case
  proof (rule comparable_atI)
    show "cmp_list c (x # xs) y = Equal \<longleftrightarrow> x # xs = y" for y
      by (cases y) (auto simp: comparable_at_Equal [OF x] comparable_at_Equal [OF xs])
    show "cmp_list c y (x # xs) = reverse_ordering (cmp_list c (x # xs) y)" for y
      by (cases y) (auto simp: comparable_at_sym [OF x] comparable_at_sym [OF xs])
    show "cmp_list c (x # xs) z = Less"
      if yz: "cmp_list c (x # xs) y = Less" "cmp_list c y z \<noteq> Greater" for y z
    proof -
      from yz obtain y1 ys where y: "y = y1 # ys" by (cases y) auto
      with yz obtain z1 zs where z: "z = z1 # zs" by (cases z) auto
      from yz(2) have yz1: "c y1 z1 = Less \<or> c y1 z1 = Equal \<and> cmp_list c ys zs \<noteq> Greater"
        by (cases "c y1 z1") (auto simp: y z)
      show ?thesis
      proof (cases "c x y1 = Less")
        case True
        with yz1 have "c x z1 = Less" by (auto intro: comparable_at_trans [OF x])
        then show ?thesis by (simp add: z)
      next
        case False
        with yz(1) have "x = y1" "cmp_list c xs ys = Less"
          by (auto simp: y comparable_at_Equal [OF x])
        with yz1 show ?thesis by (auto simp: z intro: comparable_at_trans [OF xs])
      qed
    qed
  qed
qed

section \<open>Lists\<close>

lemma takeWhile_dropWhile_span: "takeWhile p xs @ dropWhile p xs = xs"
  by simp

lemma length_dropWhile_less:
  "xs \<noteq> [] \<Longrightarrow> p (hd xs) \<Longrightarrow> length (dropWhile p xs) < length xs"
  by (cases xs) (auto simp: le_imp_less_Suc length_dropWhile_le)

lemma foldl_max_ge_init: "(m::'a::linorder) \<le> foldl max m xs"
  by (induction xs arbitrary: m) (auto intro: order_trans [OF max.cobounded1])

text \<open>A separator-joined list, as the hand-written serializers emit it.\<close>

fun join :: "'a list \<Rightarrow> 'a list list \<Rightarrow> 'a list" where
  "join sep [] = []"
| "join sep [x] = x"
| "join sep (x # y # zs) = x @ sep @ join sep (y # zs)"

lemma join_Cons: "join sep (x # xs) = (if xs = [] then x else x @ sep @ join sep xs)"
  by (cases xs) auto

end
