(* ===== verification/Text_Bytes.thy ===== *)
theory Text_Bytes
  imports Prelude
begin

text \<open>
  Rust's byte and text operations, as far as the program uses them. A \<open>&[u8]\<close> is a
  list of \<open>char\<close>s (an Isabelle \<open>char\<close> is a byte); a \<open>String\<close> or \<open>&str\<close> is such a
  list that is well-formed UTF-8, and a Rust \<open>char\<close> of it is its UTF-8 encoding.
  Here: \<open>String::from_utf8\<close> and \<open>chars()\<close>, \<open>char::encode_utf8\<close>, ASCII classes and case,
  \<open>strip_prefix\<close>, \<open>split_once\<close>, and the decimal texts that \<open>format!\<close> and \<open>parse\<close> use.
\<close>

section \<open>Bytes\<close>

definition byte_val :: "u8 \<Rightarrow> nat" where
  "byte_val c = of_char c"

lemma byte_val_less: "byte_val c < 256"
  by (simp add: byte_val_def)

lemma byte_val_inj [simp]: "byte_val a = byte_val b \<longleftrightarrow> a = b"
  by (simp add: byte_val_def)

definition is_ascii_digit :: "u8 \<Rightarrow> bool" where
  "is_ascii_digit c \<longleftrightarrow> 48 \<le> byte_val c \<and> byte_val c \<le> 57"

definition to_ascii_lower :: "u8 \<Rightarrow> u8" where
  "to_ascii_lower c =
     (if 65 \<le> byte_val c \<and> byte_val c \<le> 90 then char_of (byte_val c + 32) else c)"

definition to_ascii_upper :: "u8 \<Rightarrow> u8" where
  "to_ascii_upper c =
     (if 97 \<le> byte_val c \<and> byte_val c \<le> 122 then char_of (byte_val c - 32) else c)"

definition to_ascii_lowercase :: "bytes \<Rightarrow> bytes" where
  "to_ascii_lowercase s = map to_ascii_lower s"

definition to_ascii_uppercase :: "bytes \<Rightarrow> bytes" where
  "to_ascii_uppercase s = map to_ascii_upper s"

definition eq_ignore_ascii_case :: "bytes \<Rightarrow> bytes \<Rightarrow> bool" where
  "eq_ignore_ascii_case a b \<longleftrightarrow> to_ascii_lowercase a = to_ascii_lowercase b"

lemma length_to_ascii_lowercase [simp]: "length (to_ascii_lowercase s) = length s"
  by (simp add: to_ascii_lowercase_def)

lemma byte_val_char_of: "n < 256 \<Longrightarrow> byte_val (char_of n) = n"
  by (simp add: byte_val_def)

lemma byte_val_to_ascii_lower:
  "byte_val (to_ascii_lower c) =
     (if 65 \<le> byte_val c \<and> byte_val c \<le> 90 then byte_val c + 32 else byte_val c)"
  by (simp add: to_ascii_lower_def byte_val_char_of)

lemma to_ascii_lower_idem [simp]: "to_ascii_lower (to_ascii_lower c) = to_ascii_lower c"
proof -
  have "byte_val (to_ascii_lower (to_ascii_lower c)) = byte_val (to_ascii_lower c)"
    by (simp add: byte_val_to_ascii_lower)
  then show ?thesis by simp
qed

lemma to_ascii_lowercase_idem [simp]:
  "to_ascii_lowercase (to_ascii_lowercase s) = to_ascii_lowercase s"
  by (simp add: to_ascii_lowercase_def)

section \<open>Strings\<close>

fun strip_prefix :: "'a list \<Rightarrow> 'a list \<Rightarrow> 'a list option" where
  "strip_prefix [] s = Some s"
| "strip_prefix (_ # _) [] = None"
| "strip_prefix (p # ps) (c # cs) = (if p = c then strip_prefix ps cs else None)"

lemma strip_prefix_Some_iff: "strip_prefix p s = Some r \<longleftrightarrow> s = p @ r"
  by (induction p s rule: strip_prefix.induct) auto

lemma strip_prefix_append [simp]: "strip_prefix p (p @ r) = Some r"
  by (simp add: strip_prefix_Some_iff)

text \<open>\<open>str::split_once(c)\<close>: the parts before and after the first \<open>c\<close>, if there is one.\<close>

fun split_once :: "'a \<Rightarrow> 'a list \<Rightarrow> ('a list \<times> 'a list) option" where
  "split_once c [] = None"
| "split_once c (x # xs) =
     (if x = c then Some ([], xs)
      else (case split_once c xs of None \<Rightarrow> None | Some (a, b) \<Rightarrow> Some (x # a, b)))"

lemma split_once_append [simp]:
  "c \<notin> set a \<Longrightarrow> split_once c (a @ c # b) = Some (a, b)"
  by (induction a) auto

lemma split_once_Some: "split_once c s = Some (a, b) \<Longrightarrow> s = a @ c # b \<and> c \<notin> set a"
  by (induction s arbitrary: a) (auto split: if_splits option.splits)

section \<open>Decimal and hexadecimal text\<close>

definition digit_char :: "nat \<Rightarrow> u8" where
  "digit_char d = char_of (48 + d)"

definition digit_val :: "u8 \<Rightarrow> nat" where
  "digit_val c = byte_val c - 48"

lemma digit_char_digit [simp]: "d < 10 \<Longrightarrow> is_ascii_digit (digit_char d)"
  by (simp add: digit_char_def is_ascii_digit_def byte_val_char_of)

lemma digit_val_char [simp]: "d < 10 \<Longrightarrow> digit_val (digit_char d) = d"
  by (simp add: digit_char_def digit_val_def byte_val_char_of)

text \<open>The text of an unsigned integer (\<open>{}\<close> in \<open>format!\<close>) and \<open>str::parse\<close> of one.\<close>

fun nat_dec :: "nat \<Rightarrow> bytes" where
  "nat_dec n = (if n < 10 then [digit_char n] else nat_dec (n div 10) @ [digit_char (n mod 10)])"

declare nat_dec.simps [simp del]

definition int_dec :: "int \<Rightarrow> bytes" where
  "int_dec i = (if i < 0 then CHR ''-'' # nat_dec (nat (- i)) else nat_dec (nat i))"

definition dec_val :: "bytes \<Rightarrow> nat" where
  "dec_val s = foldl (\<lambda>a c. a * 10 + digit_val c) 0 s"

definition dec_nat :: "bytes \<Rightarrow> nat option" where
  "dec_nat s = (if s \<noteq> [] \<and> list_all is_ascii_digit s then Some (dec_val s) else None)"

lemma nat_dec_nonempty [simp]: "nat_dec n \<noteq> []"
  by (subst nat_dec.simps) simp

lemma nat_dec_digits: "list_all is_ascii_digit (nat_dec n)"
proof (induction n rule: nat_dec.induct)
  case (1 n)
  then show ?case by (subst nat_dec.simps) auto
qed

lemma dec_val_nat_dec: "dec_val (nat_dec n) = n"
proof (induction n rule: nat_dec.induct)
  case (1 n)
  then show ?case by (subst nat_dec.simps) (auto simp: dec_val_def)
qed

lemma dec_nat_nat_dec [simp]: "dec_nat (nat_dec n) = Some n"
  by (simp add: dec_nat_def nat_dec_digits dec_val_nat_dec)

lemma nat_dec_inj [simp]: "nat_dec a = nat_dec b \<longleftrightarrow> a = b"
  by (metis dec_val_nat_dec)

lemma digit_not_special: "is_ascii_digit c \<Longrightarrow> c \<noteq> CHR '':'' \<and> c \<noteq> CHR ''-'' \<and> c \<noteq> CHR ''/''"
  by (auto simp: is_ascii_digit_def byte_val_def)

lemma nat_dec_no_special:
  "CHR '':'' \<notin> set (nat_dec n)" "CHR ''-'' \<notin> set (nat_dec n)" "CHR ''/'' \<notin> set (nat_dec n)"
  using nat_dec_digits [of n] digit_not_special by (fastforce simp: list_all_iff)+

lemma int_dec_inj [simp]: "int_dec a = int_dec b \<longleftrightarrow> a = b"
proof
  assume *: "int_dec a = int_dec b"
  have "hd (nat_dec n) \<noteq> CHR ''-''" for n
    using nat_dec_no_special(2) [of n] hd_in_set [OF nat_dec_nonempty [of n]] by metis
  then have "nat_dec n \<noteq> CHR ''-'' # s" for n s
    by (metis list.sel(1))
  with * show "a = b"
    by (auto simp: int_dec_def split: if_splits) (metis list.sel(1))+
qed simp

lemma int_dec_no_slash: "CHR ''/'' \<notin> set (int_dec i)"
  using nat_dec_no_special by (auto simp: int_dec_def)

definition dec_int :: "bytes \<Rightarrow> int option" where
  "dec_int s = (case s of
     [] \<Rightarrow> None
   | c # r \<Rightarrow> if c = CHR ''-'' then map_option (\<lambda>n. - int n) (dec_nat r) else map_option int (dec_nat s))"

lemma nat_dec_hd: "nat_dec n = c # r \<Longrightarrow> is_ascii_digit c"
  using nat_dec_digits [of n] by simp

lemma dec_int_int_dec [simp]: "dec_int (int_dec i) = Some i"
proof (cases "i < 0")
  case False
  then obtain c r where n: "nat_dec (nat i) = c # r"
    by (metis nat_dec_nonempty neq_Nil_conv)
  then have "c \<noteq> CHR ''-''" using nat_dec_hd digit_not_special by blast
  then show ?thesis
    using False n dec_nat_nat_dec [of "nat i"] by (simp add: dec_int_def int_dec_def)
qed (simp add: dec_int_def int_dec_def)

definition hex_digit :: "nat \<Rightarrow> u8" where
  "hex_digit d = (if d < 10 then char_of (48 + d) else char_of (87 + d))"

text \<open>\<open>{:04x}\<close>: four lowercase hexadecimal digits (the arguments used are below \<open>0x20\<close>).\<close>

definition hex4 :: "nat \<Rightarrow> bytes" where
  "hex4 n = [hex_digit (n div 4096 mod 16), hex_digit (n div 256 mod 16),
             hex_digit (n div 16 mod 16), hex_digit (n mod 16)]"

lemma byte_val_hex_digit: "d < 16 \<Longrightarrow> byte_val (hex_digit d) = (if d < 10 then 48 + d else 87 + d)"
  by (simp add: hex_digit_def byte_val_char_of)

lemma hex_digit_inj: "a < 16 \<Longrightarrow> b < 16 \<Longrightarrow> hex_digit a = hex_digit b \<longleftrightarrow> a = b"
proof
  assume ab: "a < 16" "b < 16" and "hex_digit a = hex_digit b"
  then have "byte_val (hex_digit a) = byte_val (hex_digit b)" by simp
  with ab show "a = b" by (simp add: byte_val_hex_digit split: if_splits)
qed simp

lemma hex4_inj: "a < 256 \<Longrightarrow> b < 256 \<Longrightarrow> hex4 a = hex4 b \<longleftrightarrow> a = b"
proof
  assume ab: "a < 256" "b < 256" and "hex4 a = hex4 b"
  then have "a div 16 mod 16 = b div 16 mod 16" and m: "a mod 16 = b mod 16"
    by (simp_all add: hex4_def hex_digit_inj)
  with ab have "a div 16 = b div 16" by simp
  with m show "a = b" by (metis div_mult_mod_eq)
qed simp

section \<open>UTF-8\<close>

definition is_cont :: "u8 \<Rightarrow> bool" where
  "is_cont c \<longleftrightarrow> 128 \<le> byte_val c \<and> byte_val c < 192"

text \<open>
  The first character of a byte string and what follows it, by the table of well-formed
  sequences of the Unicode standard (no overlong forms, no surrogates, at most
  \<open>0x10FFFF\<close>), which is what \<open>String::from_utf8\<close> accepts.
\<close>

definition utf8_first :: "bytes \<Rightarrow> (bytes \<times> bytes) option" where
  "utf8_first s = (case s of
     [] \<Rightarrow> None
   | b0 # r \<Rightarrow>
      (let n = byte_val b0 in
       if n < 128 then Some ([b0], r)
       else if 194 \<le> n \<and> n < 224 then
         (case r of b1 # r1 \<Rightarrow> if is_cont b1 then Some ([b0, b1], r1) else None | _ \<Rightarrow> None)
       else if 224 \<le> n \<and> n < 240 then
         (case r of b1 # b2 # r2 \<Rightarrow>
            if is_cont b1 \<and> is_cont b2 \<and> (n = 224 \<longrightarrow> 160 \<le> byte_val b1)
               \<and> (n = 237 \<longrightarrow> byte_val b1 < 160)
            then Some ([b0, b1, b2], r2) else None
          | _ \<Rightarrow> None)
       else if 240 \<le> n \<and> n < 245 then
         (case r of b1 # b2 # b3 # r3 \<Rightarrow>
            if is_cont b1 \<and> is_cont b2 \<and> is_cont b3 \<and> (n = 240 \<longrightarrow> 144 \<le> byte_val b1)
               \<and> (n = 244 \<longrightarrow> byte_val b1 < 144)
            then Some ([b0, b1, b2, b3], r3) else None
          | _ \<Rightarrow> None)
       else None))"

lemma utf8_first_append: "utf8_first s = Some (c, r) \<Longrightarrow> s = c @ r \<and> c \<noteq> []"
  by (auto simp: utf8_first_def Let_def split: list.splits if_splits)

lemma utf8_first_length: "utf8_first s = Some (c, r) \<Longrightarrow> length r < length s"
  using utf8_first_append by fastforce

text \<open>
  A character is one ASCII byte, or its bytes are all at least \<open>0x80\<close>.
\<close>

lemma utf8_first_shape:
  "utf8_first s = Some (c, r) \<Longrightarrow>
     (\<exists>b. c = [b] \<and> byte_val b < 128) \<or> (\<forall>b \<in> set c. 128 \<le> byte_val b)"
  by (auto simp: utf8_first_def Let_def is_cont_def split: list.splits if_splits)

function utf8_chars :: "bytes \<Rightarrow> bytes list option" where
  "utf8_chars s =
     (if s = [] then Some []
      else (case utf8_first s of
          None \<Rightarrow> None
        | Some (c, r) \<Rightarrow> map_option (Cons c) (utf8_chars r)))"
  by pat_completeness auto
termination
  by (relation "measure length") (auto dest: utf8_first_length)

declare utf8_chars.simps [simp del]

lemma utf8_chars_Nil [simp]: "utf8_chars [] = Some []"
  by (simp add: utf8_chars.simps)

definition utf8_valid :: "bytes \<Rightarrow> bool" where
  "utf8_valid s \<longleftrightarrow> utf8_chars s \<noteq> None"

lemma utf8_chars_concat: "utf8_chars s = Some cs \<Longrightarrow> concat cs = s"
proof (induction s arbitrary: cs rule: utf8_chars.induct)
  case (1 s)
  show ?case
  proof (cases "s = []")
    case True
    with 1 show ?thesis by simp
  next
    case False
    with 1 show ?thesis
      by (auto simp: utf8_chars.simps [of s] split: option.splits dest: utf8_first_append)
  qed
qed

lemma utf8_chars_shape:
  "utf8_chars s = Some cs \<Longrightarrow> c \<in> set cs \<Longrightarrow>
     (\<exists>b. c = [b] \<and> byte_val b < 128) \<or> (\<forall>b \<in> set c. 128 \<le> byte_val b)"
proof (induction s arbitrary: cs rule: utf8_chars.induct)
  case (1 s)
  show ?case
  proof (cases "s = []")
    case True
    with 1 show ?thesis by simp
  next
    case False
    with "1.prems"(1) obtain d r ds where d: "utf8_first s = Some (d, r)"
      and ds: "utf8_chars r = Some ds" "cs = d # ds"
      by (auto simp: utf8_chars.simps [of s] split: option.splits)
    show ?thesis
    proof (cases "c = d")
      case True
      with d show ?thesis using utf8_first_shape by simp
    next
      case False
      with "1.prems"(2) ds have "c \<in> set ds" by simp
      then show ?thesis using "1.IH" [OF \<open>s \<noteq> []\<close> d refl] ds(1) by blast
    qed
  qed
qed

text \<open>\<open>char::encode_utf8\<close> of a scalar value.\<close>

definition is_scalar :: "nat \<Rightarrow> bool" where
  "is_scalar n \<longleftrightarrow> n < 55296 \<or> (57344 \<le> n \<and> n < 1114112)"

definition encode_utf8 :: "nat \<Rightarrow> bytes" where
  "encode_utf8 n =
     (if n < 128 then [char_of n]
      else if n < 2048 then [char_of (192 + n div 64), char_of (128 + n mod 64)]
      else if n < 65536 then
        [char_of (224 + n div 4096), char_of (128 + n div 64 mod 64), char_of (128 + n mod 64)]
      else [char_of (240 + n div 262144), char_of (128 + n div 4096 mod 64),
            char_of (128 + n div 64 mod 64), char_of (128 + n mod 64)])"

lemma utf8_first_encode:
  assumes "is_scalar n"
  shows "utf8_first (encode_utf8 n @ r) = Some (encode_utf8 n, r)"
proof -
  have bounds: "n div 64 < 32" if "n < 2048"
    using that by simp
  have b3: "n div 4096 < 16" if "n < 65536"
    using that by simp
  have b4: "n div 262144 < 5" if "n < 1114112"
    using that by simp
  consider "n < 128" | "128 \<le> n" "n < 2048" | "2048 \<le> n" "n < 65536"
    | "65536 \<le> n" "n < 1114112"
    using assms by (fastforce simp: is_scalar_def)
  then show ?thesis
  proof cases
    case 1
    then show ?thesis by (simp add: encode_utf8_def utf8_first_def byte_val_char_of)
  next
    case 2
    then have "2 \<le> n div 64" by simp
    with 2 bounds show ?thesis
      by (simp add: encode_utf8_def utf8_first_def byte_val_char_of is_cont_def Let_def)
  next
    case 3
    have q: "n div 4096 = n div 64 div 64" by (simp add: div_mult2_eq)
    have split: "n div 64 = 64 * (n div 64 div 64) + n div 64 mod 64" by simp
    have e: "n div 4096 = 0 \<Longrightarrow> 32 \<le> n div 64 mod 64"
      using 3 by simp
    have s: "n div 64 mod 64 < 32" if h: "n div 4096 = 13"
    proof -
      have "n < 57344" using h by simp
      with assms have "n < 55296" by (simp add: is_scalar_def)
      then have "n div 64 < 864" by simp
      with split h q show ?thesis by linarith
    qed
    show ?thesis using 3 b3 e s
      by (simp add: encode_utf8_def utf8_first_def byte_val_char_of is_cont_def Let_def)
  next
    case 4
    have q: "n div 262144 = n div 4096 div 64" by (simp add: div_mult2_eq)
    have split: "n div 4096 = 64 * (n div 4096 div 64) + n div 4096 mod 64" by simp
    have range: "16 \<le> n div 4096" "n div 4096 < 272" using 4 by simp_all
    have e: "16 \<le> n div 4096 mod 64" if "n div 262144 = 0"
      using that split range q by linarith
    have s: "n div 4096 mod 64 < 16" if "n div 262144 = 4"
      using that split range q by linarith
    show ?thesis using 4 b4 e s
      by (simp add: encode_utf8_def utf8_first_def byte_val_char_of is_cont_def Let_def)
  qed
qed

end
