(* ===== verification/Ids.thy ===== *)
theory Ids
  imports Text_Bytes
begin

text \<open>
  \<open>deblob-core\<close>: the identifiers (\<open>id.rs\<close>), the error types (\<open>error.rs\<close>) and the source
  coordinates (\<open>envelope.rs\<close>). SHA-256, base32 and the UUID text format come from other
  crates: \<open>sha\<close>, \<open>enc\<close>, \<open>dec\<close>, \<open>uuid_ok\<close> are arguments, and \<open>base32_ok\<close> states what
  RFC 4648 base32 without padding promises (decoding inverts encoding, and the encoded
  text has no lowercase letters).
\<close>

section \<open>Errors\<close>

datatype quarantine_reason =
    DuplicateKey | NonFiniteNumber | DepthExceeded | SizeExceeded
  | FieldCountExceeded | KeyLengthExceeded | ParseError | Utf8Error

datatype core_error =
    RegistryUnavailable bytes | ImmutabilityViolation bytes | NotFound
  | Conflict bytes | PolicyRejected bytes

record source_cursor =
  topic :: bytes
  partition :: int
  offset :: int

section \<open>Digest identifiers\<close>

datatype id_error = WrongPrefix bytes | InvalidBody

text \<open>The two functions the macro \<open>digest_id!\<close> generates for each prefix.\<close>

definition digest_from :: "(bytes \<Rightarrow> bytes) \<Rightarrow> bytes \<Rightarrow> bytes \<Rightarrow> bytes" where
  "digest_from enc prefix d = prefix @ to_ascii_lowercase (enc d)"

definition digest_parse :: "(bytes \<Rightarrow> bytes option) \<Rightarrow> bytes \<Rightarrow> bytes \<Rightarrow> id_error + bytes" where
  "digest_parse dec prefix s =
     result_bind (ok_or (WrongPrefix prefix) (strip_prefix prefix s)) (\<lambda>body.
     result_bind (ok_or InvalidBody (dec (to_ascii_uppercase body))) (\<lambda>bs.
       if length bs \<noteq> 32 then Inl InvalidBody else Inr s))"

datatype schema_id = SchemaId (schema_str: bytes)
datatype candidate_id = CandidateId (candidate_str: bytes)
datatype semantic_id = SemanticId (semantic_str: bytes)
datatype source_id = SourceId (source_str: bytes)
datatype value_profile_id = ValueProfileId (value_profile_str: bytes)

definition schema_id_from_digest :: "(bytes \<Rightarrow> bytes) \<Rightarrow> bytes \<Rightarrow> schema_id" where
  "schema_id_from_digest enc d = SchemaId (digest_from enc ''sch_'' d)"

definition schema_id_parse :: "(bytes \<Rightarrow> bytes option) \<Rightarrow> bytes \<Rightarrow> id_error + schema_id" where
  "schema_id_parse dec s = map_sum id SchemaId (digest_parse dec ''sch_'' s)"

definition candidate_id_from_digest :: "(bytes \<Rightarrow> bytes) \<Rightarrow> bytes \<Rightarrow> candidate_id" where
  "candidate_id_from_digest enc d = CandidateId (digest_from enc ''cand_'' d)"

definition candidate_id_parse ::
  "(bytes \<Rightarrow> bytes option) \<Rightarrow> bytes \<Rightarrow> id_error + candidate_id" where
  "candidate_id_parse dec s = map_sum id CandidateId (digest_parse dec ''cand_'' s)"

definition semantic_id_from_digest :: "(bytes \<Rightarrow> bytes) \<Rightarrow> bytes \<Rightarrow> semantic_id" where
  "semantic_id_from_digest enc d = SemanticId (digest_from enc ''sem_'' d)"

text \<open>\<open>SourceId::from_source\<close>: the digest of the domain tag \<open>s\<close> and the source's name.\<close>

definition source_id_from_source ::
  "(bytes \<Rightarrow> bytes) \<Rightarrow> (bytes \<Rightarrow> bytes) \<Rightarrow> bytes \<Rightarrow> source_id" where
  "source_id_from_source sha enc source =
     SourceId (digest_from enc ''src_'' (sha (''s'' @ source)))"

text \<open>\<open>CandidateId::from_source_and_digest\<close>: source, a zero byte, the shape's digest.\<close>

definition candidate_preimage :: "bytes \<Rightarrow> bytes \<Rightarrow> bytes" where
  "candidate_preimage source d = source @ [CHR 0x00] @ d"

definition candidate_id_from_source_and_digest ::
  "(bytes \<Rightarrow> bytes) \<Rightarrow> (bytes \<Rightarrow> bytes) \<Rightarrow> bytes \<Rightarrow> bytes \<Rightarrow> candidate_id" where
  "candidate_id_from_source_and_digest sha enc source d =
     candidate_id_from_digest enc (sha (candidate_preimage source d))"

section \<open>UUID identifiers\<close>

datatype family_id = FamilyId (family_str: bytes)
datatype revision_id = RevisionId (revision_str: bytes)

definition family_id_new :: "bytes \<Rightarrow> family_id" where
  "family_id_new uuid = FamilyId (''fam_'' @ uuid)"

definition family_id_parse :: "(bytes \<Rightarrow> bool) \<Rightarrow> bytes \<Rightarrow> id_error + family_id" where
  "family_id_parse uuid_ok s =
     result_bind (ok_or (WrongPrefix ''fam_'') (strip_prefix ''fam_'' s)) (\<lambda>body.
       if uuid_ok body then Inr (FamilyId s) else Inl InvalidBody)"

definition revision_id_new :: "bytes \<Rightarrow> revision_id" where
  "revision_id_new uuid = RevisionId (''rev_'' @ uuid)"

definition revision_id_parse :: "(bytes \<Rightarrow> bool) \<Rightarrow> bytes \<Rightarrow> id_error + revision_id" where
  "revision_id_parse uuid_ok s =
     result_bind (ok_or (WrongPrefix ''rev_'') (strip_prefix ''rev_'' s)) (\<lambda>body.
       if uuid_ok body then Inr (RevisionId s) else Inl InvalidBody)"

section \<open>Schema references\<close>

datatype schema_ref =
    Known schema_id | Provisional candidate_id | Unresolved | Malformed | Tombstone

fun header_value :: "schema_ref \<Rightarrow> bytes" where
  "header_value (Known i) = schema_str i"
| "header_value (Provisional i) = candidate_str i"
| "header_value Unresolved = ''unresolved''"
| "header_value Malformed = ''malformed''"
| "header_value Tombstone = ''tombstone''"

section \<open>Facts\<close>

text \<open>What the base32 crate documents of its encoder and decoder.\<close>

definition base32_ok :: "(bytes \<Rightarrow> bytes) \<Rightarrow> (bytes \<Rightarrow> bytes option) \<Rightarrow> bool" where
  "base32_ok enc dec \<longleftrightarrow>
     (\<forall>d. dec (enc d) = Some d) \<and>
     (\<forall>d. to_ascii_uppercase (to_ascii_lowercase (enc d)) = enc d)"

lemma digest_from_parse:
  assumes "base32_ok enc dec" and "length d = 32"
  shows "digest_parse dec prefix (digest_from enc prefix d) = Inr (digest_from enc prefix d)"
  using assms by (simp add: digest_parse_def digest_from_def base32_ok_def)

lemma digest_from_inj:
  assumes "base32_ok enc dec"
  shows "digest_from enc p d = digest_from enc p d' \<longleftrightarrow> d = d'"
proof
  assume "digest_from enc p d = digest_from enc p d'"
  then have "to_ascii_lowercase (enc d) = to_ascii_lowercase (enc d')"
    by (simp add: digest_from_def)
  then have "enc d = enc d'" using assms unfolding base32_ok_def by metis
  then have "dec (enc d) = dec (enc d')" by simp
  then show "d = d'" using assms by (simp add: base32_ok_def)
qed simp

lemma digest_parse_ok_prefix: "digest_parse dec p s = Inr t \<Longrightarrow> t = s \<and> (\<exists>body. s = p @ body)"
  by (auto simp: digest_parse_def result_bind_Inr_iff ok_or_def strip_prefix_Some_iff
    split: if_splits option.splits)

lemma candidate_preimage_inj:
  assumes "length d = 32" and "length d' = 32"
  shows "candidate_preimage s d = candidate_preimage s' d' \<longleftrightarrow> s = s' \<and> d = d'"
  using assms by (auto simp: candidate_preimage_def)

text \<open>
  A concrete codec with the documented laws (two letters per byte), at which the
  hypotheses of the theorems below can be evaluated.
\<close>

definition letter_enc :: "bytes \<Rightarrow> bytes" where
  "letter_enc d =
     concat (map (\<lambda>b. [char_of (65 + byte_val b div 16), char_of (65 + byte_val b mod 16)]) d)"

fun letter_dec :: "bytes \<Rightarrow> bytes option" where
  "letter_dec [] = Some []"
| "letter_dec [_] = None"
| "letter_dec (a # b # r) =
     map_option (Cons (char_of ((byte_val a - 65) * 16 + (byte_val b - 65)))) (letter_dec r)"

lemma letter_codec_ok: "base32_ok letter_enc letter_dec"
proof -
  have upper: "to_ascii_upper (to_ascii_lower (char_of (65 + n))) = (char_of (65 + n) :: char)"
    if "n < 16" for n :: nat
  proof -
    have v: "byte_val (char_of (65 + n)) = 65 + n" using that by (simp add: byte_val_char_of)
    then have "byte_val (to_ascii_upper (to_ascii_lower (char_of (65 + n)))) =
        byte_val (char_of (65 + n))"
      using that by (simp add: to_ascii_upper_def byte_val_to_ascii_lower byte_val_char_of)
    then show ?thesis by simp
  qed
  have half: "byte_val b div 16 < 16" for b using byte_val_less [of b] by simp
  have "letter_dec (letter_enc d) = Some d" for d
  proof (induction d)
    case (Cons b d)
    have "char_of (byte_val b div 16 * 16 + byte_val b mod 16) = b"
      by (simp add: byte_val_def)
    then show ?case
      using Cons half [of b] by (simp add: letter_enc_def byte_val_char_of)
  qed (simp add: letter_enc_def)
  moreover have "to_ascii_uppercase (to_ascii_lowercase (letter_enc d)) = letter_enc d" for d
    using half
    by (induction d)
      (auto simp: letter_enc_def to_ascii_uppercase_def to_ascii_lowercase_def upper)
  ultimately show ?thesis by (simp add: base32_ok_def)
qed

end
