(* ===== verification/BTree.thy ===== *)
theory BTree
  imports Prelude "HOL-Library.Multiset"
begin

text \<open>
  The standard library's \<open>BTreeMap\<close> and \<open>BTreeSet\<close>, as the program observes them: a
  list in strictly ascending key order (what iterating yields), with lookup by key. Two
  interfaces name what the clients rely on: \<open>ordered_map\<close> and \<open>ordered_set\<close>. Both are
  extensional (the contents determine the value), so a container built from a sequence
  of insertions does not depend on their order.
\<close>

section \<open>The interfaces\<close>

locale ordered_map =
  fixes empty :: "'m"
    and get :: "'m \<Rightarrow> 'k \<Rightarrow> 'v option"
    and put :: "'k \<Rightarrow> 'v \<Rightarrow> 'm \<Rightarrow> 'm"
    and invar :: "'m \<Rightarrow> bool"
  assumes invar_empty: "invar empty"
    and invar_put: "invar m \<Longrightarrow> invar (put k v m)"
    and get_empty: "get empty k = None"
    and get_put: "invar m \<Longrightarrow> get (put k v m) = (get m)(k \<mapsto> v)"
    and extensional: "invar m \<Longrightarrow> invar m' \<Longrightarrow> get m = get m' \<Longrightarrow> m = m'"
begin

lemma put_put_same: "invar m \<Longrightarrow> put k v (put k w m) = put k v m"
  by (rule extensional) (auto simp: invar_put get_put)

lemma put_commute:
  "invar m \<Longrightarrow> k \<noteq> k' \<Longrightarrow> put k v (put k' v' m) = put k' v' (put k v m)"
  by (rule extensional) (auto simp: invar_put get_put fun_upd_twist)

lemma invar_puts: "invar m \<Longrightarrow> invar (foldl (\<lambda>m (k, v). put k v m) m kvs)"
  by (induction kvs arbitrary: m) (auto simp: invar_put)

lemma get_puts:
  "invar m \<Longrightarrow> get (foldl (\<lambda>m (k, v). put k v m) m kvs) = get m ++ map_of (rev kvs)"
  by (induction kvs arbitrary: m) (auto simp: invar_put get_put map_add_def
    split: option.splits)

lemma puts_permuted:
  assumes "distinct (map fst kvs)" and "mset kvs = mset kvs'"
  shows "foldl (\<lambda>m (k, v). put k v m) empty kvs = foldl (\<lambda>m (k, v). put k v m) empty kvs'"
proof (rule extensional)
  have "distinct (map fst (rev kvs))" and "distinct (map fst (rev kvs'))"
    using assms by (simp_all add: rev_map [symmetric]) (metis mset_eq_imp_distinct_iff mset_map)
  moreover have "set (rev kvs) = set (rev kvs')"
    using assms(2) by (metis set_rev set_mset_mset)
  ultimately have "map_of (rev kvs) = map_of (rev kvs')"
    by (metis map_of_inject_set)
  then show "get (foldl (\<lambda>m (k, v). put k v m) empty kvs) =
      get (foldl (\<lambda>m (k, v). put k v m) empty kvs')"
    by (simp add: get_puts invar_empty)
qed (simp_all add: invar_puts invar_empty)

end

locale ordered_set =
  fixes empty :: "'s"
    and elems :: "'s \<Rightarrow> 'a set"
    and add :: "'a \<Rightarrow> 's \<Rightarrow> 's"
    and invar :: "'s \<Rightarrow> bool"
  assumes invar_empty: "invar empty"
    and invar_add: "invar s \<Longrightarrow> invar (add x s)"
    and elems_empty: "elems empty = {}"
    and elems_add: "invar s \<Longrightarrow> elems (add x s) = insert x (elems s)"
    and extensional: "invar s \<Longrightarrow> invar s' \<Longrightarrow> elems s = elems s' \<Longrightarrow> s = s'"
begin

lemma invar_adds: "invar s \<Longrightarrow> invar (foldl (\<lambda>s x. add x s) s xs)"
  by (induction xs arbitrary: s) (auto simp: invar_add)

lemma elems_adds: "invar s \<Longrightarrow> elems (foldl (\<lambda>s x. add x s) s xs) = elems s \<union> set xs"
  by (induction xs arbitrary: s) (auto simp: invar_add elems_add)

lemma adds_same_elements:
  "set xs = set ys \<Longrightarrow> foldl (\<lambda>s x. add x s) empty xs = foldl (\<lambda>s x. add x s) empty ys"
  by (rule extensional) (simp_all add: invar_adds elems_adds invar_empty elems_empty)

end

section \<open>BTreeMap\<close>

definition bt_ok :: "('k::linorder \<times> 'v) list \<Rightarrow> bool" where
  "bt_ok m \<longleftrightarrow> sorted_wrt (<) (map fst m)"

fun bt_insert :: "'k::linorder \<Rightarrow> 'v \<Rightarrow> ('k \<times> 'v) list \<Rightarrow> ('k \<times> 'v) list" where
  "bt_insert k v [] = [(k, v)]"
| "bt_insert k v ((k', v') # m) =
     (if k < k' then (k, v) # (k', v') # m
      else if k = k' then (k, v) # m
      else (k', v') # bt_insert k v m)"

text \<open>\<open>entry(k).and_modify(f).or_insert(v)\<close>\<close>

definition bt_entry :: "('v \<Rightarrow> 'v) \<Rightarrow> 'k::linorder \<Rightarrow> 'v \<Rightarrow> ('k \<times> 'v) list \<Rightarrow> ('k \<times> 'v) list" where
  "bt_entry f k v m = bt_insert k (case map_of m k of Some x \<Rightarrow> f x | None \<Rightarrow> v) m"

definition bt_remove :: "'k \<Rightarrow> ('k \<times> 'v) list \<Rightarrow> ('k \<times> 'v) list" where
  "bt_remove k m = filter (\<lambda>e. fst e \<noteq> k) m"

text \<open>\<open>collect()\<close> from an iterator of pairs: each is inserted, a later one wins.\<close>

definition bt_collect :: "('k::linorder \<times> 'v) list \<Rightarrow> ('k \<times> 'v) list" where
  "bt_collect kvs = foldl (\<lambda>m (k, v). bt_insert k v m) [] kvs"

lemma bt_ok_Nil [simp]: "bt_ok []"
  by (simp add: bt_ok_def)

lemma bt_ok_Cons [simp]: "bt_ok ((k, v) # m) \<longleftrightarrow> (\<forall>k' \<in> fst ` set m. k < k') \<and> bt_ok m"
  by (auto simp: bt_ok_def)

lemma bt_ok_distinct: "bt_ok m \<Longrightarrow> distinct (map fst m)"
  by (simp add: bt_ok_def strict_sorted_iff)

lemma keys_bt_insert [simp]: "fst ` set (bt_insert k v m) = insert k (fst ` set m)"
  by (induction k v m rule: bt_insert.induct) auto

lemma bt_ok_insert [intro]: "bt_ok m \<Longrightarrow> bt_ok (bt_insert k v m)"
  by (induction k v m rule: bt_insert.induct) auto

lemma map_of_bt_insert: "bt_ok m \<Longrightarrow> map_of (bt_insert k v m) = (map_of m)(k \<mapsto> v)"
proof (induction k v m rule: bt_insert.induct)
  case (2 k v k' v' m)
  then show ?case
    by (auto simp: fun_eq_iff map_of_eq_None_iff [symmetric])
qed simp

lemma bt_extensional:
  assumes "bt_ok m" and "bt_ok m'" and "map_of m = map_of m'"
  shows "m = m'"
proof -
  have d: "distinct (map fst m)" "distinct (map fst m')"
    using assms bt_ok_distinct by blast+
  then have s: "set m = set m'"
    using assms(3) by (metis map_of_inject_set)
  moreover have "inj_on fst (set m \<union> set m')"
    using d s by (simp add: distinct_map)
  ultimately show ?thesis
    using assms(1,2) d
    by (intro map_sorted_distinct_set_unique [of fst]) (auto simp: bt_ok_def strict_sorted_iff)
qed

interpretation bm: ordered_map "[]" map_of bt_insert bt_ok
  by unfold_locales (auto simp: map_of_bt_insert intro: bt_extensional)

lemma bt_ok_entry [intro]: "bt_ok m \<Longrightarrow> bt_ok (bt_entry f k v m)"
  by (auto simp: bt_entry_def)

lemma map_of_bt_entry:
  "bt_ok m \<Longrightarrow> map_of (bt_entry f k v m) =
     (map_of m)(k \<mapsto> (case map_of m k of Some x \<Rightarrow> f x | None \<Rightarrow> v))"
  by (simp add: bt_entry_def map_of_bt_insert)

lemma keys_bt_entry [simp]: "fst ` set (bt_entry f k v m) = insert k (fst ` set m)"
  by (simp add: bt_entry_def)

lemma bt_ok_remove [intro]: "bt_ok m \<Longrightarrow> bt_ok (bt_remove k m)"
  by (induction m) (auto simp: bt_remove_def)

lemma keys_bt_remove [simp]: "fst ` set (bt_remove k m) = fst ` set m - {k}"
  by (auto simp: bt_remove_def)

lemma map_of_bt_remove: "map_of (bt_remove k m) = (map_of m)(k := None)"
  by (induction m) (auto simp: bt_remove_def fun_eq_iff)

lemma bt_ok_collect [intro, simp]: "bt_ok (bt_collect kvs)"
  unfolding bt_collect_def by (rule bm.invar_puts) simp

lemma map_of_bt_collect: "map_of (bt_collect kvs) = map_of (rev kvs)"
  unfolding bt_collect_def by (subst bm.get_puts) simp_all

lemma keys_bt_collect: "fst ` set (bt_collect kvs) = fst ` set kvs"
  using map_of_bt_collect [of kvs] by (metis dom_map_of_conv_image_fst set_rev)

lemma bt_collect_permuted:
  "distinct (map fst kvs) \<Longrightarrow> mset kvs = mset kvs' \<Longrightarrow> bt_collect kvs = bt_collect kvs'"
  unfolding bt_collect_def by (rule bm.puts_permuted)

text \<open>A map that is already in order is its own collection.\<close>

lemma bt_collect_id: "bt_ok m \<Longrightarrow> bt_collect m = m"
proof (rule bt_extensional)
  assume ok: "bt_ok m"
  then have "distinct (map fst (rev m))"
    by (simp add: bt_ok_distinct rev_map [symmetric])
  then have "map_of (rev m) = map_of m"
    using bt_ok_distinct [OF ok] by (simp add: map_of_inject_set)
  then show "map_of (bt_collect m) = map_of m"
    by (simp add: map_of_bt_collect)
qed simp_all

lemma set_bt_collect_subset: "set (bt_collect kvs) \<subseteq> set kvs"
proof
  fix e assume "e \<in> set (bt_collect kvs)"
  then have "map_of (bt_collect kvs) (fst e) = Some (snd e)"
    by (metis bt_ok_collect bt_ok_distinct map_of_eq_Some_iff prod.collapse)
  then show "e \<in> set kvs"
    by (simp add: map_of_bt_collect) (metis map_of_SomeD prod.collapse set_rev)
qed

text \<open>
  Union of two maps: every entry of the second is inserted into the first, combined by
  \<open>f\<close> where the key is already there.
\<close>

definition bt_union_with ::
  "('v \<Rightarrow> 'v \<Rightarrow> 'v) \<Rightarrow> ('k::linorder \<times> 'v) list \<Rightarrow> ('k \<times> 'v) list \<Rightarrow> ('k \<times> 'v) list" where
  "bt_union_with f a b = foldl (\<lambda>m (k, v). bt_entry (\<lambda>x. f x v) k v m) a b"

lemma bt_union_with_cong [fundef_cong]:
  assumes "a = a'" and "b = b'"
    and "\<And>x k v. (k, v) \<in> set b' \<Longrightarrow> f x v = g x v"
  shows "bt_union_with f a b = bt_union_with g a' b'"
  using assms(3) unfolding assms(1,2) bt_union_with_def
  by (intro foldl_cong) auto

lemma bt_ok_union_with [intro]: "bt_ok a \<Longrightarrow> bt_ok (bt_union_with f a b)"
  unfolding bt_union_with_def by (induction b arbitrary: a) auto

definition combine_option :: "('v \<Rightarrow> 'v \<Rightarrow> 'v) \<Rightarrow> 'v option \<Rightarrow> 'v option \<Rightarrow> 'v option" where
  "combine_option f x y = (case (x, y) of
     (None, None) \<Rightarrow> None
   | (Some a, None) \<Rightarrow> Some a
   | (None, Some b) \<Rightarrow> Some b
   | (Some a, Some b) \<Rightarrow> Some (f a b))"

lemma combine_option_simps [simp]:
  "combine_option f None y = y"
  "combine_option f x None = x"
  "combine_option f (Some a) (Some b) = Some (f a b)"
  by (auto simp: combine_option_def split: option.splits)

lemma combine_option_cong [fundef_cong]:
  assumes "x = x'" and "y = y'" and "\<And>a b. y' = Some b \<Longrightarrow> f a b = g a b"
  shows "combine_option f x y = combine_option g x' y'"
  using assms by (auto simp: combine_option_def split: option.splits)

lemma map_of_bt_union_with:
  assumes "bt_ok a" and "distinct (map fst b)"
  shows "map_of (bt_union_with f a b) k = combine_option f (map_of a k) (map_of b k)"
  using assms
proof (induction b arbitrary: a)
  case Nil
  then show ?case by (simp add: bt_union_with_def)
next
  case (Cons e b)
  obtain k' v' where e: "e = (k', v')" by fastforce
  let ?a = "bt_entry (\<lambda>x. f x v') k' v' a"
  have "map_of (bt_union_with f a (e # b)) k = map_of (bt_union_with f ?a b) k"
    by (simp add: bt_union_with_def e)
  also have "\<dots> = combine_option f (map_of ?a k) (map_of b k)"
    using Cons.prems by (intro Cons.IH) auto
  also have "\<dots> = combine_option f (map_of a k) (map_of (e # b) k)"
    using Cons.prems e
    by (auto simp: map_of_bt_entry map_of_eq_None_iff [symmetric] split: option.splits)
  finally show ?case .
qed

lemma keys_bt_union_with: "fst ` set (bt_union_with f a b) = fst ` set a \<union> fst ` set b"
proof (induction b arbitrary: a)
  case Nil
  then show ?case by (simp add: bt_union_with_def)
next
  case (Cons e b)
  obtain k v where e: "e = (k, v)" by fastforce
  have "bt_union_with f a (e # b) = bt_union_with f (bt_entry (\<lambda>x. f x v) k v a) b"
    by (simp add: bt_union_with_def e)
  then show ?case by (simp add: Cons.IH e insert_commute)
qed

section \<open>BTreeSet\<close>

definition bs_ok :: "'a::linorder list \<Rightarrow> bool" where
  "bs_ok s \<longleftrightarrow> sorted_wrt (<) s"

fun bs_insert :: "'a::linorder \<Rightarrow> 'a list \<Rightarrow> 'a list" where
  "bs_insert x [] = [x]"
| "bs_insert x (y # s) = (if x < y then x # y # s else if x = y then y # s else y # bs_insert x s)"

definition bs_collect :: "'a::linorder list \<Rightarrow> 'a list" where
  "bs_collect xs = foldl (\<lambda>s x. bs_insert x s) [] xs"

lemma bs_ok_simps [simp]: "bs_ok []" "bs_ok (x # s) \<longleftrightarrow> (\<forall>y \<in> set s. x < y) \<and> bs_ok s"
  by (simp_all add: bs_ok_def)

lemma set_bs_insert [simp]: "set (bs_insert x s) = insert x (set s)"
  by (induction x s rule: bs_insert.induct) auto

lemma bs_ok_insert [intro]: "bs_ok s \<Longrightarrow> bs_ok (bs_insert x s)"
  by (induction x s rule: bs_insert.induct) auto

lemma bs_extensional: "bs_ok s \<Longrightarrow> bs_ok s' \<Longrightarrow> set s = set s' \<Longrightarrow> s = s'"
  by (auto simp: bs_ok_def strict_sorted_iff intro: sorted_distinct_set_unique)

interpretation bset: ordered_set "[]" set bs_insert bs_ok
  by unfold_locales (auto intro: bs_extensional)

lemma bs_ok_collect [intro, simp]: "bs_ok (bs_collect xs)"
  unfolding bs_collect_def by (rule bset.invar_adds) simp

lemma set_bs_collect [simp]: "set (bs_collect xs) = set xs"
  unfolding bs_collect_def by (subst bset.elems_adds) simp_all

lemma bs_collect_same_elements: "set xs = set ys \<Longrightarrow> bs_collect xs = bs_collect ys"
  unfolding bs_collect_def by (rule bset.adds_same_elements)

lemma bs_collect_id: "bs_ok s \<Longrightarrow> bs_collect s = s"
  by (rule bs_extensional) simp_all

lemma bs_collect_Nil_iff [simp]: "bs_collect xs = [] \<longleftrightarrow> xs = []"
  by (metis set_bs_collect set_empty)

end
