(* ===== verification/Json_Parse.thy ===== *)
theory Json_Parse
  imports Ids BTree
begin

text \<open>
  \<open>deblob-fingerprint\<close>: the parse limits (\<open>limits.rs\<close>) and the bounded recursive-descent
  JSON parser (\<open>parse.rs\<close>). The parser's position in its input is modelled by the bytes it
  has not read yet, so \<open>peek\<close> looks at the first of them and \<open>bump\<close> drops it. Every
  function returns \<open>Inl\<close> the quarantine reason or \<open>Inr\<close> of the value and the unread bytes.

  The mutually recursive functions carry fuel, and return \<open>None\<close> when it runs out. Each
  call of \<open>parse_value\<close> reads at least a byte before it recurses, so fuel of three times
  the number of unread bytes plus three always suffices (\<open>parse_value_enough\<close>), and
  \<open>parse_bounded\<close> supplies exactly that.
\<close>

record limits =
  max_bytes :: nat
  max_depth :: nat
  max_fields_per_object :: nat
  max_key_len :: nat
  max_string_len :: nat
  max_array_inspect :: nat

definition default_limits :: limits where
  "default_limits = \<lparr> max_bytes = 1024 * 1024, max_depth = 32, max_fields_per_object = 1024,
     max_key_len = 256, max_string_len = 64 * 1024, max_array_inspect = 4096 \<rparr>"

datatype node =
    NodeNull
  | NodeBool bool
  | NodeNumber bytes
  | NodeString bytes
  | NodeArray "node list" bool
  | NodeObject "(bytes \<times> node) list"

section \<open>Reading bytes\<close>

definition peek :: "bytes \<Rightarrow> u8 option" where
  "peek s = (case s of [] \<Rightarrow> None | c # _ \<Rightarrow> Some c)"

definition bump :: "bytes \<Rightarrow> u8 option \<times> bytes" where
  "bump s = (peek s, drop 1 s)"

definition is_ws :: "u8 \<Rightarrow> bool" where
  "is_ws c \<longleftrightarrow> c = CHR '' '' \<or> c = CHR 0x09 \<or> c = CHR 0x0A \<or> c = CHR 0x0D"

definition skip_ws :: "bytes \<Rightarrow> bytes" where
  "skip_ws s = dropWhile is_ws s"

definition skip_digits :: "bytes \<Rightarrow> bytes" where
  "skip_digits s = dropWhile is_ascii_digit s"

definition peek_digit :: "bytes \<Rightarrow> bool" where
  "peek_digit s = (case peek s of Some c \<Rightarrow> is_ascii_digit c | None \<Rightarrow> False)"

section \<open>Strings\<close>

definition hex_val :: "u8 \<Rightarrow> nat option" where
  "hex_val c = (let n = byte_val c in
     if 48 \<le> n \<and> n \<le> 57 then Some (n - 48)
     else if 97 \<le> n \<and> n \<le> 102 then Some (n - 97 + 10)
     else if 65 \<le> n \<and> n \<le> 70 then Some (n - 65 + 10)
     else None)"

text \<open>The loop of \<open>read_hex4\<close>: \<open>n\<close> more digits, the value so far \<open>v\<close>.\<close>

fun read_hex :: "nat \<Rightarrow> nat \<Rightarrow> bytes \<Rightarrow> quarantine_reason + nat \<times> bytes" where
  "read_hex 0 v s = Inr (v, s)"
| "read_hex (Suc n) v [] = Inl ParseError"
| "read_hex (Suc n) v (c # s) =
     (case hex_val c of None \<Rightarrow> Inl ParseError | Some d \<Rightarrow> read_hex n (v * 16 + d) s)"

definition read_hex4 :: "bytes \<Rightarrow> quarantine_reason + nat \<times> bytes" where
  "read_hex4 s = read_hex 4 0 s"

definition from_u32 :: "nat \<Rightarrow> nat option" where
  "from_u32 n = (if is_scalar n then Some n else None)"

definition read_unicode_escape :: "bytes \<Rightarrow> quarantine_reason + nat \<times> bytes" where
  "read_unicode_escape s = result_bind (read_hex4 s) (\<lambda>(hi, s1).
     if 0xD800 \<le> hi \<and> hi \<le> 0xDBFF then
       if fst (bump s1) \<noteq> Some (CHR 0x5C) \<or> fst (bump (snd (bump s1))) \<noteq> Some (CHR ''u'')
       then Inl ParseError
       else result_bind (read_hex4 (drop 2 s1)) (\<lambda>(lo, s2).
         if \<not> (0xDC00 \<le> lo \<and> lo \<le> 0xDFFF) then Inl ParseError
         else (let scalar = 0x10000 + (hi - 0xD800) * 1024 + (lo - 0xDC00) in
           result_bind (ok_or Utf8Error (from_u32 scalar)) (\<lambda>c. Inr (c, s2))))
     else result_bind (ok_or Utf8Error (from_u32 hi)) (\<lambda>c. Inr (c, s1)))"

lemma read_hex_length: "read_hex n v s = Inr (w, r) \<Longrightarrow> length r + n = length s"
  by (induction n v s rule: read_hex.induct) (auto split: option.splits)

lemma read_unicode_escape_length:
  "read_unicode_escape s = Inr (c, r) \<Longrightarrow> length r < length s"
  by (auto simp: read_unicode_escape_def read_hex4_def result_bind_Inr_iff Let_def
      split: if_splits dest!: read_hex_length)

text \<open>What a simple escape (\<open>\n\<close> and the like) stands for.\<close>

definition simple_escape :: "u8 \<Rightarrow> u8 option" where
  "simple_escape c =
     (if c = CHR 0x22 then Some (CHR 0x22)
      else if c = CHR 0x5C then Some (CHR 0x5C)
      else if c = CHR ''/'' then Some (CHR ''/'')
      else if c = CHR ''b'' then Some (CHR 0x08)
      else if c = CHR ''f'' then Some (CHR 0x0C)
      else if c = CHR ''n'' then Some (CHR 0x0A)
      else if c = CHR ''r'' then Some (CHR 0x0D)
      else if c = CHR ''t'' then Some (CHR 0x09)
      else None)"

text \<open>The loop of \<open>scan_raw_string\<close>, after the opening quote; \<open>buf\<close> is what it decoded.\<close>

function scan_string_loop :: "bytes \<Rightarrow> bytes \<Rightarrow> quarantine_reason + bytes \<times> bytes" where
  "scan_string_loop buf s = (case s of
     [] \<Rightarrow> Inl ParseError
   | c # r \<Rightarrow>
      if c = CHR 0x22 then Inr (buf, r)
      else if c = CHR 0x5C then
        (case r of
           [] \<Rightarrow> Inl ParseError
         | e # r' \<Rightarrow>
            (case simple_escape e of
               Some b \<Rightarrow> scan_string_loop (buf @ [b]) r'
             | None \<Rightarrow>
                if e = CHR ''u'' then
                  (case read_unicode_escape r' of
                     Inl err \<Rightarrow> Inl err
                   | Inr (ch, r'') \<Rightarrow> scan_string_loop (buf @ encode_utf8 ch) r'')
                else Inl ParseError))
      else if byte_val c < 0x20 then Inl ParseError
      else scan_string_loop (buf @ [c]) r)"
  by pat_completeness auto
termination
  by (relation "measure (\<lambda>(buf, s). length s)")
    (auto dest!: read_unicode_escape_length)

declare scan_string_loop.simps [simp del]

definition scan_raw_string :: "bytes \<Rightarrow> quarantine_reason + bytes \<times> bytes" where
  "scan_raw_string s = result_bind (scan_string_loop [] (snd (bump s))) (\<lambda>(buf, r).
     if utf8_valid buf then Inr (buf, r) else Inl Utf8Error)"

definition parse_key :: "limits \<Rightarrow> bytes \<Rightarrow> quarantine_reason + bytes \<times> bytes" where
  "parse_key L s = result_bind (scan_raw_string s) (\<lambda>(k, r).
     if length k > max_key_len L then Inl KeyLengthExceeded else Inr (k, r))"

definition parse_string :: "limits \<Rightarrow> bytes \<Rightarrow> quarantine_reason + bytes \<times> bytes" where
  "parse_string L s = result_bind (scan_raw_string s) (\<lambda>(v, r).
     if length v > max_string_len L then Inl SizeExceeded else Inr (v, r))"

section \<open>Numbers and literals\<close>

text \<open>The three parts of the number grammar: sign and integer part, fraction, exponent.\<close>

definition number_int :: "bytes \<Rightarrow> quarantine_reason + bytes" where
  "number_int s =
     (let s1 = (if peek s = Some (CHR ''-'') then snd (bump s) else s) in
      case bump s1 of
        (Some c, r) \<Rightarrow>
          if c = CHR ''0'' then Inr r
          else if is_ascii_digit c then Inr (skip_digits r)
          else Inl ParseError
      | (None, _) \<Rightarrow> Inl ParseError)"

definition number_frac :: "bytes \<Rightarrow> quarantine_reason + bytes" where
  "number_frac s =
     (if peek s = Some (CHR ''.'') then
        (let r = snd (bump s) in if peek_digit r then Inr (skip_digits r) else Inl ParseError)
      else Inr s)"

definition number_exp :: "bytes \<Rightarrow> quarantine_reason + bytes" where
  "number_exp s =
     (if peek s = Some (CHR ''e'') \<or> peek s = Some (CHR ''E'') then
        (let r = snd (bump s);
             r' = (if peek r = Some (CHR ''+'') \<or> peek r = Some (CHR ''-'')
                   then snd (bump r) else r)
         in if peek_digit r' then Inr (skip_digits r') else Inl ParseError)
      else Inr s)"

definition parse_number :: "bytes \<Rightarrow> quarantine_reason + node \<times> bytes" where
  "parse_number s =
     result_bind (number_int s) (\<lambda>s1.
     result_bind (number_frac s1) (\<lambda>s2.
     result_bind (number_exp s2) (\<lambda>r.
       let text = take (length s - length r) s in
       if utf8_valid text then Inr (NodeNumber text, r) else Inl Utf8Error)))"

definition skip_literal :: "bytes \<Rightarrow> bytes \<Rightarrow> quarantine_reason + bytes" where
  "skip_literal kw s = ok_or ParseError (strip_prefix kw s)"

definition parse_literal :: "bytes \<Rightarrow> node \<Rightarrow> bytes \<Rightarrow> quarantine_reason + node \<times> bytes" where
  "parse_literal kw n s = result_bind (skip_literal kw s) (\<lambda>r. Inr (n, r))"

section \<open>Values\<close>

text \<open>Results of the recursive functions: \<open>None\<close> when the fuel ran out.\<close>

type_synonym 'a pres = "(quarantine_reason + 'a \<times> bytes) option"

definition pbind :: "'a pres \<Rightarrow> ('a \<Rightarrow> bytes \<Rightarrow> 'b pres) \<Rightarrow> 'b pres" where
  "pbind m f = (case m of
     None \<Rightarrow> None
   | Some (Inl e) \<Rightarrow> Some (Inl e)
   | Some (Inr (x, s)) \<Rightarrow> f x s)"

definition fail :: "quarantine_reason \<Rightarrow> 'a pres" where
  "fail e = Some (Inl e)"

definition done_with :: "'a \<Rightarrow> bytes \<Rightarrow> 'a pres" where
  "done_with x s = Some (Inr (x, s))"

text \<open>A scanner that needs no fuel, and one whose value is dropped.\<close>

definition plain :: "quarantine_reason + 'a \<times> bytes \<Rightarrow> 'a pres" where
  "plain r = Some r"

definition plain_unit :: "quarantine_reason + 'a \<times> bytes \<Rightarrow> unit pres" where
  "plain_unit r = Some (map_sum id (\<lambda>(_, s). ((), s)) r)"

function (sequential) skip_value :: "nat \<Rightarrow> limits \<Rightarrow> nat \<Rightarrow> bytes \<Rightarrow> unit pres"
and skip_object :: "nat \<Rightarrow> limits \<Rightarrow> nat \<Rightarrow> bytes \<Rightarrow> unit pres"
and skip_fields :: "nat \<Rightarrow> limits \<Rightarrow> nat \<Rightarrow> bytes \<Rightarrow> unit pres"
and skip_array :: "nat \<Rightarrow> limits \<Rightarrow> nat \<Rightarrow> bytes \<Rightarrow> unit pres"
and skip_elems :: "nat \<Rightarrow> limits \<Rightarrow> nat \<Rightarrow> bytes \<Rightarrow> unit pres"
where
  "skip_value 0 L depth s0 = None"
| "skip_value (Suc f) L depth s0 =
     (let s = skip_ws s0 in
      case peek s of
        None \<Rightarrow> fail ParseError
      | Some c \<Rightarrow>
         if c = CHR 0x7B then skip_object f L depth s
         else if c = CHR ''['' then skip_array f L depth s
         else if c = CHR 0x22 then plain_unit (parse_string L s)
         else if c = CHR ''t'' then plain_unit (parse_literal ''true'' (NodeBool True) s)
         else if c = CHR ''f'' then plain_unit (parse_literal ''false'' (NodeBool False) s)
         else if c = CHR ''n'' then plain_unit (parse_literal ''null'' NodeNull s)
         else if c = CHR ''-'' \<or> is_ascii_digit c then plain_unit (parse_number s)
         else fail ParseError)"
| "skip_object 0 L depth s = None"
| "skip_object (Suc f) L depth s =
     (let next_depth = depth + 1 in
      if next_depth > max_depth L then fail DepthExceeded
      else (let s1 = skip_ws (snd (bump s)) in
        if peek s1 = Some (CHR 0x7D) then done_with () (snd (bump s1))
        else skip_fields f L next_depth s1))"
| "skip_fields 0 L next_depth s = None"
| "skip_fields (Suc f) L next_depth s =
     (let s1 = skip_ws s in
      if peek s1 \<noteq> Some (CHR 0x22) then fail ParseError
      else pbind (plain (parse_key L s1)) (\<lambda>key s2.
        let s3 = skip_ws s2 in
        if fst (bump s3) \<noteq> Some (CHR '':'') then fail ParseError
        else pbind (skip_value f L next_depth (snd (bump s3))) (\<lambda>u s4.
          let s5 = skip_ws s4 in
          if fst (bump s5) = Some (CHR '','') then skip_fields f L next_depth (snd (bump s5))
          else if fst (bump s5) = Some (CHR 0x7D) then done_with () (snd (bump s5))
          else fail ParseError)))"
| "skip_array 0 L depth s = None"
| "skip_array (Suc f) L depth s =
     (let next_depth = depth + 1 in
      if next_depth > max_depth L then fail DepthExceeded
      else (let s1 = skip_ws (snd (bump s)) in
        if peek s1 = Some (CHR '']'') then done_with () (snd (bump s1))
        else skip_elems f L next_depth s1))"
| "skip_elems 0 L next_depth s = None"
| "skip_elems (Suc f) L next_depth s =
     pbind (skip_value f L next_depth s) (\<lambda>u s1.
       let s2 = skip_ws s1 in
       if fst (bump s2) = Some (CHR '','') then skip_elems f L next_depth (snd (bump s2))
       else if fst (bump s2) = Some (CHR '']'') then done_with () (snd (bump s2))
       else fail ParseError)"

  by pat_completeness auto
termination
  by (relation "measure (case_sum (case_sum fst fst) (case_sum fst (case_sum fst fst)))") auto

function (sequential) parse_value :: "nat \<Rightarrow> limits \<Rightarrow> nat \<Rightarrow> bytes \<Rightarrow> node pres"
and parse_object :: "nat \<Rightarrow> limits \<Rightarrow> nat \<Rightarrow> bytes \<Rightarrow> node pres"
and parse_fields :: "nat \<Rightarrow> limits \<Rightarrow> nat \<Rightarrow> (bytes \<times> node) list \<Rightarrow> bytes list \<Rightarrow> bytes \<Rightarrow> node pres"
and parse_array :: "nat \<Rightarrow> limits \<Rightarrow> nat \<Rightarrow> bytes \<Rightarrow> node pres"
and parse_elems :: "nat \<Rightarrow> limits \<Rightarrow> nat \<Rightarrow> node list \<Rightarrow> bool \<Rightarrow> nat \<Rightarrow> bytes \<Rightarrow> node pres"
where
  "parse_value 0 L depth s0 = None"
| "parse_value (Suc f) L depth s0 =
     (let s = skip_ws s0 in
      case peek s of
        None \<Rightarrow> fail ParseError
      | Some c \<Rightarrow>
         if c = CHR 0x7B then parse_object f L depth s
         else if c = CHR ''['' then parse_array f L depth s
         else if c = CHR 0x22 then
           plain (result_bind (parse_string L s) (\<lambda>(v, r). Inr (NodeString v, r)))
         else if c = CHR ''t'' then plain (parse_literal ''true'' (NodeBool True) s)
         else if c = CHR ''f'' then plain (parse_literal ''false'' (NodeBool False) s)
         else if c = CHR ''n'' then plain (parse_literal ''null'' NodeNull s)
         else if c = CHR ''-'' \<or> is_ascii_digit c then plain (parse_number s)
         else fail ParseError)"
| "parse_object 0 L depth s = None"
| "parse_object (Suc f) L depth s =
     (let next_depth = depth + 1 in
      if next_depth > max_depth L then fail DepthExceeded
      else (let s1 = skip_ws (snd (bump s)) in
        if peek s1 = Some (CHR 0x7D) then done_with (NodeObject []) (snd (bump s1))
        else parse_fields f L next_depth [] [] s1))"
| "parse_fields 0 L next_depth flds seen_keys s = None"
| "parse_fields (Suc f) L next_depth flds seen_keys s =
     (let s1 = skip_ws s in
      if peek s1 \<noteq> Some (CHR 0x22) then fail ParseError
      else pbind (plain (parse_key L s1)) (\<lambda>key s2.
        if key \<in> set seen_keys then fail DuplicateKey
        else (let s3 = skip_ws s2 in
          if fst (bump s3) \<noteq> Some (CHR '':'') then fail ParseError
          else pbind (parse_value f L next_depth (snd (bump s3))) (\<lambda>value s4.
            let flds' = flds @ [(key, value)] in
            if length flds' > max_fields_per_object L then fail FieldCountExceeded
            else (let s5 = skip_ws s4 in
              if fst (bump s5) = Some (CHR '','') then
                parse_fields f L next_depth flds' (bs_insert key seen_keys) (snd (bump s5))
              else if fst (bump s5) = Some (CHR 0x7D) then
                done_with (NodeObject flds') (snd (bump s5))
              else fail ParseError)))))"
| "parse_array 0 L depth s = None"
| "parse_array (Suc f) L depth s =
     (let next_depth = depth + 1 in
      if next_depth > max_depth L then fail DepthExceeded
      else (let s1 = skip_ws (snd (bump s)) in
        if peek s1 = Some (CHR '']'') then done_with (NodeArray [] False) (snd (bump s1))
        else parse_elems f L next_depth [] False 0 s1))"
| "parse_elems 0 L next_depth items truncated index s = None"
| "parse_elems (Suc f) L next_depth items truncated index s =
     (let s0 = skip_ws s in
      pbind (if index < max_array_inspect L
             then pbind (parse_value f L next_depth s0) (\<lambda>v r. done_with (items @ [v], truncated) r)
             else pbind (skip_value f L next_depth s0) (\<lambda>u r. done_with (items, True) r))
        (\<lambda>(items', truncated') s1.
          let s2 = skip_ws s1 in
          if fst (bump s2) = Some (CHR '','') then
            parse_elems f L next_depth items' truncated' (index + 1) (snd (bump s2))
          else if fst (bump s2) = Some (CHR '']'') then
            done_with (NodeArray items' truncated') (snd (bump s2))
          else fail ParseError))"
  by pat_completeness auto
termination
  by (relation "measure (case_sum (case_sum fst fst) (case_sum fst (case_sum fst fst)))") auto

text \<open>\<open>parse_bounded\<close>: the size check, one value, and nothing but white space after it.\<close>

definition parse_bounded_fuel ::
  "nat \<Rightarrow> bytes \<Rightarrow> limits \<Rightarrow> (quarantine_reason + node) option" where
  "parse_bounded_fuel fuel bs L =
     (if length bs > max_bytes L then Some (Inl SizeExceeded)
      else (case parse_value fuel L 0 bs of
          None \<Rightarrow> None
        | Some (Inl e) \<Rightarrow> Some (Inl e)
        | Some (Inr (n, r)) \<Rightarrow>
            Some (if skip_ws r \<noteq> [] then Inl ParseError else Inr n)))"

definition parse_bounded :: "bytes \<Rightarrow> limits \<Rightarrow> quarantine_reason + node" where
  "parse_bounded bs L =
     (case parse_bounded_fuel (3 * length bs + 3) bs L of
        Some r \<Rightarrow> r | None \<Rightarrow> Inl ParseError)"

end
