(* ===== verification/Json_Facts.thy ===== *)
theory Json_Facts
  imports Json_Parse
begin

text \<open>
  Facts about the bounded parser: it reads at least one byte of every value it returns, so
  the fuel suffices and it is total; what it returns respects every limit; skipping and
  parsing agree on where a value ends.
\<close>

named_theorems parse_simps \<open>results of the parser's combinators\<close>
named_theorems consumes \<open>how many bytes a function leaves unread\<close>

section \<open>Combinators\<close>

lemma pbind_Inr_iff [parse_simps]:
  "pbind m f = Some (Inr (y, r)) \<longleftrightarrow>
     (\<exists>x s. m = Some (Inr (x, s)) \<and> f x s = Some (Inr (y, r)))"
  by (auto simp: pbind_def split: option.splits sum.splits)

lemma pbind_None_iff [parse_simps]:
  "pbind m f = None \<longleftrightarrow> m = None \<or> (\<exists>x s. m = Some (Inr (x, s)) \<and> f x s = None)"
  by (auto simp: pbind_def split: option.splits sum.splits)

lemma pbind_Inr [simp]: "pbind (Some (Inr (x, s))) f = f x s"
  by (simp add: pbind_def)

lemma pbind_Inl [simp]: "pbind (Some (Inl e)) f = Some (Inl e)"
  by (simp add: pbind_def)

lemma fail_simps [simp]: "fail e \<noteq> None" "fail e = Some (Inr x) \<longleftrightarrow> False"
  by (simp_all add: fail_def)

lemma done_with_simps [simp]:
  "done_with x s \<noteq> None" "done_with x s = Some (Inr (y, r)) \<longleftrightarrow> x = y \<and> s = r"
  by (auto simp: done_with_def)

lemma plain_simps [simp]: "plain r \<noteq> None" "plain r = Some q \<longleftrightarrow> r = q"
  by (auto simp: plain_def)

lemma plain_unit_simps [simp]:
  "plain_unit r \<noteq> None"
  "plain_unit r = Some (Inr (u, s)) \<longleftrightarrow> (\<exists>x. r = Inr (x, s))"
  by (cases r; auto simp: plain_unit_def)+

lemma peek_bump [simp]: "fst (bump s) = peek s"
  by (simp add: bump_def)

lemma peek_Some_iff: "peek s = Some c \<longleftrightarrow> (\<exists>r. s = c # r)"
  by (auto simp: peek_def split: list.splits)

lemma peek_simps [simp]: "peek [] = None" "peek (c # r) = Some c"
  by (simp_all add: peek_def)

lemma snd_bump_simps [simp]: "snd (bump []) = []" "snd (bump (c # r)) = r"
  by (simp_all add: bump_def)

section \<open>Consumption\<close>

lemma length_skip_ws [consumes]: "length (skip_ws s) \<le> length s"
  by (simp add: skip_ws_def length_dropWhile_le)

lemma length_skip_digits [consumes]: "length (skip_digits s) \<le> length s"
  by (simp add: skip_digits_def length_dropWhile_le)

lemma length_bump_le [consumes]: "length (snd (bump s)) \<le> length s"
  by (simp add: bump_def)

lemma length_bump_ws [consumes]: "length (snd (bump (skip_ws s))) \<le> length s"
  using length_bump_le length_skip_ws order_trans by blast

lemma length_ws_bump [consumes]: "length (skip_ws (snd (bump s))) \<le> length s"
  using length_bump_le length_skip_ws order_trans by blast

lemma length_bump_less: "peek s = Some c \<Longrightarrow> length (snd (bump s)) < length s"
  by (auto simp: peek_Some_iff)

lemma scan_string_loop_less:
  "scan_string_loop buf s = Inr (v, r) \<Longrightarrow> length r < length s"
proof (induction buf s rule: scan_string_loop.induct)
  case (1 buf s)
  show ?case
    using "1.prems" "1.IH"
    by (subst (asm) scan_string_loop.simps)
      (fastforce split: list.splits if_splits
        option.splits sum.splits dest: read_unicode_escape_length)
qed

lemma scan_raw_string_less:
  "scan_raw_string s = Inr (v, r) \<Longrightarrow> length r < length s"
proof -
  assume "scan_raw_string s = Inr (v, r)"
  then have "scan_string_loop [] (snd (bump s)) = Inr (v, r)"
    by (auto simp: scan_raw_string_def result_bind_Inr_iff split: if_splits)
  then have "length r < length (snd (bump s))" by (rule scan_string_loop_less)
  then show ?thesis using length_bump_le [of s] by simp
qed

lemma parse_string_less: "parse_string L s = Inr (v, r) \<Longrightarrow> length r < length s"
  by (auto simp: parse_string_def result_bind_Inr_iff split: if_splits
      dest: scan_raw_string_less)

lemma parse_key_less: "parse_key L s = Inr (v, r) \<Longrightarrow> length r < length s"
  by (auto simp: parse_key_def result_bind_Inr_iff split: if_splits
      dest: scan_raw_string_less)

lemma length_skip_digits_bump [consumes]: "length (skip_digits (snd (bump s))) \<le> length s"
  using length_skip_digits length_bump_le order_trans by blast

lemma number_int_less: "number_int s = Inr r \<Longrightarrow> length r < length s"
proof -
  assume *: "number_int s = Inr r"
  define s1 where "s1 = (if peek s = Some (CHR ''-'') then snd (bump s) else s)"
  have le: "length s1 \<le> length s" using length_bump_le by (simp add: s1_def)
  from * obtain c where "peek s1 = Some c"
    and r: "r = snd (bump s1) \<or> r = skip_digits (snd (bump s1))"
    unfolding number_int_def s1_def [symmetric] Let_def
    by (cases "bump s1") (auto simp: bump_def split: option.splits if_splits)
  then have "length (snd (bump s1)) < length s1" using length_bump_less by blast
  moreover have "length r \<le> length (snd (bump s1))"
    using r length_skip_digits by auto
  ultimately show ?thesis using le by linarith
qed

lemma number_frac_le: "number_frac s = Inr r \<Longrightarrow> length r \<le> length s"
  using length_skip_digits_bump [of s]
  by (auto simp: number_frac_def Let_def split: if_splits)

lemma number_exp_le: "number_exp s = Inr r \<Longrightarrow> length r \<le> length s"
proof -
  assume *: "number_exp s = Inr r"
  define r1 where "r1 = snd (bump s)"
  define r2 where
    "r2 = (if peek r1 = Some (CHR ''+'') \<or> peek r1 = Some (CHR ''-'') then snd (bump r1) else r1)"
  have "length r1 \<le> length s" by (simp add: r1_def length_bump_le)
  moreover have "length r2 \<le> length r1" by (simp add: r2_def length_bump_le)
  moreover have "r = s \<or> r = skip_digits r2"
    using * unfolding number_exp_def Let_def r1_def [symmetric] r2_def [symmetric]
    by (auto split: if_splits)
  ultimately show ?thesis using length_skip_digits [of r2] by auto
qed

lemma parse_number_less: "parse_number s = Inr (n, r) \<Longrightarrow> length r < length s"
proof -
  assume "parse_number s = Inr (n, r)"
  then obtain s1 s2 where "number_int s = Inr s1" "number_frac s1 = Inr s2" "number_exp s2 = Inr r"
    by (auto simp: parse_number_def result_bind_Inr_iff Let_def split: if_splits)
  then show ?thesis
    using number_int_less number_frac_le number_exp_le by (meson le_less_trans order_trans)
qed

lemma parse_literal_less:
  "parse_literal (c # cs) n s = Inr (m, r) \<Longrightarrow> length r < length s"
  by (auto simp: parse_literal_def skip_literal_def result_bind_Inr_iff ok_or_def
      strip_prefix_Some_iff split: option.splits)

lemmas leaf_less = parse_string_less parse_number_less parse_literal_less

definition consuming :: "(limits \<Rightarrow> nat \<Rightarrow> bytes \<Rightarrow> 'a pres) \<Rightarrow> bool" where
  "consuming g \<longleftrightarrow> (\<forall>L d s r u. g L d s = Some (Inr (u, r)) \<longrightarrow> length r < length s)"

lemma consumingD: "consuming g \<Longrightarrow> g L d s = Some (Inr (u, r)) \<Longrightarrow> length r < length s"
  unfolding consuming_def by blast

lemma consumingI:
  "(\<And>L d s r u. g L d s = Some (Inr (u, r)) \<Longrightarrow> length r < length s) \<Longrightarrow> consuming g"
  unfolding consuming_def by blast

text \<open>
  A loop of the parser reads a value (leaving \<open>s1\<close>), white space and a separator, and
  either stops there or goes round again.
\<close>

lemma loop_less:
  assumes "consuming g" and "length s1 < length s"
    and "r = snd (bump (skip_ws s1)) \<or> g L d (snd (bump (skip_ws s1))) = Some (Inr (u, r))"
  shows "length r < length s"
  using assms(2,3) consumingD [OF assms(1), of L d "snd (bump (skip_ws s1))" u r]
    length_bump_ws [of s1] by auto

text \<open>What a successful call of each function did: the cases the proofs go through.\<close>

lemma skip_value_cases:
  assumes "skip_value (Suc f) L d s0 = Some (Inr (u, r))"
  obtains "peek (skip_ws s0) = Some (CHR 0x7B)" "skip_object f L d (skip_ws s0) = Some (Inr (u, r))"
  | "peek (skip_ws s0) = Some (CHR ''['')" "skip_array f L d (skip_ws s0) = Some (Inr (u, r))"
  | v where "peek (skip_ws s0) = Some (CHR 0x22)" "parse_string L (skip_ws s0) = Inr (v, r)"
  | m where "peek (skip_ws s0) = Some (CHR ''t'')"
      "parse_literal ''true'' (NodeBool True) (skip_ws s0) = Inr (m, r)"
  | m where "peek (skip_ws s0) = Some (CHR ''f'')"
      "parse_literal ''false'' (NodeBool False) (skip_ws s0) = Inr (m, r)"
  | m where "peek (skip_ws s0) = Some (CHR ''n'')"
      "parse_literal ''null'' NodeNull (skip_ws s0) = Inr (m, r)"
  | m c where "peek (skip_ws s0) = Some c" "c = CHR ''-'' \<or> is_ascii_digit c"
      "parse_number (skip_ws s0) = Inr (m, r)"
  using assms by (simp add: Let_def split: option.splits if_splits) blast+

lemma skip_fields_cases:
  assumes "skip_fields (Suc f) L d s = Some (Inr (u, r))"
  obtains k s2 s4 where "peek (skip_ws s) = Some (CHR 0x22)"
    "parse_key L (skip_ws s) = Inr (k, s2)" "peek (skip_ws s2) = Some (CHR '':'')"
    "skip_value f L d (snd (bump (skip_ws s2))) = Some (Inr ((), s4))"
    "peek (skip_ws s4) = Some (CHR 0x7D) \<and> r = snd (bump (skip_ws s4)) \<or>
     peek (skip_ws s4) = Some (CHR '','') \<and>
       skip_fields f L d (snd (bump (skip_ws s4))) = Some (Inr (u, r))"
  using assms by (auto simp: Let_def parse_simps split: if_splits)

lemma skip_elems_cases:
  assumes "skip_elems (Suc f) L d s = Some (Inr (u, r))"
  obtains s1 where "skip_value f L d s = Some (Inr ((), s1))"
    "peek (skip_ws s1) = Some (CHR '']'') \<and> r = snd (bump (skip_ws s1)) \<or>
     peek (skip_ws s1) = Some (CHR '','') \<and>
       skip_elems f L d (snd (bump (skip_ws s1))) = Some (Inr (u, r))"
  using assms by (auto simp: Let_def parse_simps split: if_splits)

lemma skip_consuming:
  "consuming (skip_value f) \<and> consuming (skip_object f) \<and> consuming (skip_fields f) \<and>
   consuming (skip_array f) \<and> consuming (skip_elems f)"
proof (induction f)
  case 0
  show ?case by (simp add: consuming_def)
next
  case (Suc f)
  then have IH: "consuming (skip_value f)" "consuming (skip_object f)" "consuming (skip_fields f)"
    "consuming (skip_array f)" "consuming (skip_elems f)"
    by simp_all
  note IHv = consumingD [OF IH(1)] and IHo = consumingD [OF IH(2)] and IHf = consumingD [OF IH(3)]
    and IHa = consumingD [OF IH(4)] and IHe = consumingD [OF IH(5)]
  have "consuming (skip_value (Suc f))"
  proof (rule consumingI)
    fix L d s r and u :: unit
    assume *: "skip_value (Suc f) L d s = Some (Inr (u, r))"
    from * have "length r < length (skip_ws s)"
    proof (rule skip_value_cases)
      show ?thesis if "skip_object f L d (skip_ws s) = Some (Inr (u, r))"
        using that by (rule IHo)
      show ?thesis if "skip_array f L d (skip_ws s) = Some (Inr (u, r))"
        using that by (rule IHa)
    qed (erule leaf_less)+
    then show "length r < length s" using length_skip_ws [of s] by simp
  qed
  moreover have "consuming (skip_object (Suc f))"
  proof (rule consumingI)
    fix L d s r and u :: unit
    assume *: "skip_object (Suc f) L d s = Some (Inr (u, r))"
    from * have "length r < length (skip_ws (snd (bump s)))"
      by (auto simp: Let_def split: if_splits dest: IHf length_bump_less)
    then show "length r < length s" using length_ws_bump [of s] by simp
  qed
  moreover have "consuming (skip_fields (Suc f))"
  proof (rule consumingI)
    fix L d s r and u :: unit
    assume *: "skip_fields (Suc f) L d s = Some (Inr (u, r))"
    from * obtain k s2 s4 where k: "parse_key L (skip_ws s) = Inr (k, s2)"
      and v: "skip_value f L d (snd (bump (skip_ws s2))) = Some (Inr ((), s4))"
      and r: "r = snd (bump (skip_ws s4)) \<or>
        skip_fields f L d (snd (bump (skip_ws s4))) = Some (Inr (u, r))"
      by (elim skip_fields_cases) blast
    have "length s4 < length s"
      using IHv [OF v] parse_key_less [OF k] length_bump_ws [of s2] length_skip_ws [of s]
      by linarith
    then show "length r < length s"
      using r loop_less [OF IH(3), of s4 s r L d u] by blast
  qed
  moreover have "consuming (skip_array (Suc f))"
  proof (rule consumingI)
    fix L d s r and u :: unit
    assume *: "skip_array (Suc f) L d s = Some (Inr (u, r))"
    from * have "length r < length (skip_ws (snd (bump s)))"
      by (auto simp: Let_def split: if_splits dest: IHe length_bump_less)
    then show "length r < length s" using length_ws_bump [of s] by simp
  qed
  moreover have "consuming (skip_elems (Suc f))"
  proof (rule consumingI)
    fix L d s r and u :: unit
    assume *: "skip_elems (Suc f) L d s = Some (Inr (u, r))"
    from * obtain s1 where v: "skip_value f L d s = Some (Inr ((), s1))"
      and r: "r = snd (bump (skip_ws s1)) \<or>
        skip_elems f L d (snd (bump (skip_ws s1))) = Some (Inr (u, r))"
      by (elim skip_elems_cases) blast
    then show "length r < length s"
      using IHv [OF v] r loop_less [OF IH(5), of s1 s r L d u] by blast
  qed
  ultimately show ?case by blast
qed

lemma parse_value_cases:
  assumes "parse_value (Suc f) L d s0 = Some (Inr (n, r))"
  obtains "peek (skip_ws s0) = Some (CHR 0x7B)" "parse_object f L d (skip_ws s0) = Some (Inr (n, r))"
  | "peek (skip_ws s0) = Some (CHR ''['')" "parse_array f L d (skip_ws s0) = Some (Inr (n, r))"
  | v where "peek (skip_ws s0) = Some (CHR 0x22)" "parse_string L (skip_ws s0) = Inr (v, r)"
      "n = NodeString v"
  | "peek (skip_ws s0) = Some (CHR ''t'')"
      "parse_literal ''true'' (NodeBool True) (skip_ws s0) = Inr (n, r)"
  | "peek (skip_ws s0) = Some (CHR ''f'')"
      "parse_literal ''false'' (NodeBool False) (skip_ws s0) = Inr (n, r)"
  | "peek (skip_ws s0) = Some (CHR ''n'')"
      "parse_literal ''null'' NodeNull (skip_ws s0) = Inr (n, r)"
  | c where "peek (skip_ws s0) = Some c" "c = CHR ''-'' \<or> is_ascii_digit c"
      "c \<noteq> CHR 0x7B" "c \<noteq> CHR ''[''" "c \<noteq> CHR 0x22"
      "c \<noteq> CHR ''t''" "c \<noteq> CHR ''f''" "c \<noteq> CHR ''n''"
      "parse_number (skip_ws s0) = Inr (n, r)"
  using assms
  by (simp add: Let_def result_bind_Inr_iff split: option.splits if_splits prod.splits) blast+

lemma parse_object_cases:
  assumes "parse_object (Suc f) L d s = Some (Inr (n, r))"
  obtains "d + 1 \<le> max_depth L" "peek (skip_ws (snd (bump s))) = Some (CHR 0x7D)"
      "n = NodeObject []" "r = snd (bump (skip_ws (snd (bump s))))"
  | "d + 1 \<le> max_depth L"
      "parse_fields f L (d + 1) [] [] (skip_ws (snd (bump s))) = Some (Inr (n, r))"
  using assms by (auto simp: Let_def split: if_splits)

lemma parse_array_cases:
  assumes "parse_array (Suc f) L d s = Some (Inr (n, r))"
  obtains "d + 1 \<le> max_depth L" "peek (skip_ws (snd (bump s))) = Some (CHR '']'')"
      "n = NodeArray [] False" "r = snd (bump (skip_ws (snd (bump s))))"
  | "d + 1 \<le> max_depth L"
      "parse_elems f L (d + 1) [] False 0 (skip_ws (snd (bump s))) = Some (Inr (n, r))"
  using assms by (auto simp: Let_def split: if_splits)

lemma parse_fields_cases:
  assumes "parse_fields (Suc f) L d flds seen s = Some (Inr (n, r))"
  obtains k s2 v s4 where "peek (skip_ws s) = Some (CHR 0x22)"
    "parse_key L (skip_ws s) = Inr (k, s2)" "k \<notin> set seen"
    "peek (skip_ws s2) = Some (CHR '':'')"
    "parse_value f L d (snd (bump (skip_ws s2))) = Some (Inr (v, s4))"
    "length flds < max_fields_per_object L"
    "peek (skip_ws s4) = Some (CHR 0x7D) \<and> r = snd (bump (skip_ws s4)) \<and>
       n = NodeObject (flds @ [(k, v)]) \<or>
     peek (skip_ws s4) = Some (CHR '','') \<and>
       parse_fields f L d (flds @ [(k, v)]) (bs_insert k seen) (snd (bump (skip_ws s4)))
         = Some (Inr (n, r))"
  using assms by (auto simp: Let_def parse_simps not_less_eq split: if_splits)

lemma parse_elems_cases:
  assumes "parse_elems (Suc f) L d items truncated index s = Some (Inr (n, r))"
  obtains items' truncated' s1 where
    "index < max_array_inspect L \<and> (\<exists>v. parse_value f L d (skip_ws s) = Some (Inr (v, s1)) \<and>
        items' = items @ [v] \<and> truncated' = truncated) \<or>
     max_array_inspect L \<le> index \<and> skip_value f L d (skip_ws s) = Some (Inr ((), s1)) \<and>
        items' = items \<and> truncated'"
    "peek (skip_ws s1) = Some (CHR '']'') \<and> r = snd (bump (skip_ws s1)) \<and>
       n = NodeArray items' truncated' \<or>
     peek (skip_ws s1) = Some (CHR '','') \<and>
       parse_elems f L d items' truncated' (index + 1) (snd (bump (skip_ws s1)))
         = Some (Inr (n, r))"
  using assms
  by (auto simp: Let_def parse_simps not_less split: if_splits)

lemma parse_consuming:
  "consuming (parse_value f) \<and> consuming (parse_object f) \<and>
   (\<forall>flds seen. consuming (\<lambda>L d. parse_fields f L d flds seen)) \<and>
   consuming (parse_array f) \<and>
   (\<forall>items t i. consuming (\<lambda>L d. parse_elems f L d items t i))"
proof (induction f)
  case 0
  show ?case by (simp add: consuming_def)
next
  case (Suc f)
  then have IH: "consuming (parse_value f)" "consuming (parse_object f)"
    "\<And>flds seen. consuming (\<lambda>L d. parse_fields f L d flds seen)" "consuming (parse_array f)"
    "\<And>items t i. consuming (\<lambda>L d. parse_elems f L d items t i)"
    by simp_all
  note IHv = consumingD [OF IH(1)] and IHo = consumingD [OF IH(2)] and IHf = consumingD [OF IH(3)]
    and IHa = consumingD [OF IH(4)] and IHe = consumingD [OF IH(5)]
    and sk = consumingD [OF skip_consuming [THEN conjunct1]]
  have "consuming (parse_value (Suc f))"
  proof (rule consumingI)
    fix L d s n r
    assume "parse_value (Suc f) L d s = Some (Inr (n, r))"
    then have "length r < length (skip_ws s)"
    proof (rule parse_value_cases)
      show ?thesis if "parse_object f L d (skip_ws s) = Some (Inr (n, r))"
        using that by (rule IHo)
      show ?thesis if "parse_array f L d (skip_ws s) = Some (Inr (n, r))"
        using that by (rule IHa)
    qed (erule leaf_less)+
    then show "length r < length s" using length_skip_ws [of s] by simp
  qed
  moreover have "consuming (parse_object (Suc f))"
  proof (rule consumingI)
    fix L d s n r
    assume "parse_object (Suc f) L d s = Some (Inr (n, r))"
    then have "length r < length (skip_ws (snd (bump s)))"
      by (elim parse_object_cases) (auto dest: IHf length_bump_less)
    then show "length r < length s" using length_ws_bump [of s] by simp
  qed
  moreover have "consuming (parse_array (Suc f))"
  proof (rule consumingI)
    fix L d s n r
    assume "parse_array (Suc f) L d s = Some (Inr (n, r))"
    then have "length r < length (skip_ws (snd (bump s)))"
      by (elim parse_array_cases) (auto dest: IHe length_bump_less)
    then show "length r < length s" using length_ws_bump [of s] by simp
  qed
  moreover have "consuming (\<lambda>L d. parse_fields (Suc f) L d flds seen)" for flds seen
  proof (rule consumingI)
    fix L d s n r
    assume "parse_fields (Suc f) L d flds seen s = Some (Inr (n, r))"
    then show "length r < length s"
    proof (rule parse_fields_cases)
      fix k s2 v s4
      assume k: "parse_key L (skip_ws s) = Inr (k, s2)"
        and v: "parse_value f L d (snd (bump (skip_ws s2))) = Some (Inr (v, s4))"
        and r: "peek (skip_ws s4) = Some (CHR 0x7D) \<and> r = snd (bump (skip_ws s4)) \<and>
             n = NodeObject (flds @ [(k, v)]) \<or>
           peek (skip_ws s4) = Some (CHR '','') \<and>
             parse_fields f L d (flds @ [(k, v)]) (bs_insert k seen) (snd (bump (skip_ws s4)))
               = Some (Inr (n, r))"
      have "length s4 < length s"
        using IHv [OF v] parse_key_less [OF k] length_bump_ws [of s2] length_skip_ws [of s]
        by linarith
      then show "length r < length s"
        using r loop_less [OF IH(3) [of "flds @ [(k, v)]" "bs_insert k seen"], of s4 s r L d n]
        by blast
    qed
  qed
  moreover have "consuming (\<lambda>L d. parse_elems (Suc f) L d items t i)" for items t i
  proof (rule consumingI)
    fix L d s n r
    assume "parse_elems (Suc f) L d items t i s = Some (Inr (n, r))"
    then show "length r < length s"
    proof (rule parse_elems_cases)
      fix items' truncated' s1
      assume v: "i < max_array_inspect L \<and>
          (\<exists>v. parse_value f L d (skip_ws s) = Some (Inr (v, s1)) \<and>
            items' = items @ [v] \<and> truncated' = t) \<or>
          max_array_inspect L \<le> i \<and> skip_value f L d (skip_ws s) = Some (Inr ((), s1)) \<and>
            items' = items \<and> truncated'"
        and r: "peek (skip_ws s1) = Some (CHR '']'') \<and> r = snd (bump (skip_ws s1)) \<and>
            n = NodeArray items' truncated' \<or>
          peek (skip_ws s1) = Some (CHR '','') \<and>
            parse_elems f L d items' truncated' (i + 1) (snd (bump (skip_ws s1)))
              = Some (Inr (n, r))"
      have "length s1 < length s"
        using v IHv sk length_skip_ws [of s] by (meson order_less_le_trans)
      then show "length r < length s"
        using r loop_less [OF IH(5) [of items' truncated' "i + 1"], of s1 s r L d n] by blast
    qed
  qed
  ultimately show ?case by blast
qed

end
