(* ===== verification/Json_Total.thy ===== *)
theory Json_Total
  imports Json_Facts
begin

text \<open>
  The bounded parser is total: the fuel that \<open>parse_bounded\<close> supplies always suffices.
\<close>

section \<open>Enough fuel\<close>

lemma skip_value_NoneD:
  assumes "skip_value (Suc f) L d s = None"
  shows "skip_ws s \<noteq> [] \<and>
    (skip_object f L d (skip_ws s) = None \<or> skip_array f L d (skip_ws s) = None)"
  using assms by (cases "skip_ws s") (simp_all add: Let_def split: if_splits)

lemma skip_object_NoneD:
  "skip_object (Suc f) L d s = None \<Longrightarrow>
     skip_fields f L (d + 1) (skip_ws (snd (bump s))) = None"
  by (simp add: Let_def split: if_splits)

lemma skip_array_NoneD:
  "skip_array (Suc f) L d s = None \<Longrightarrow>
     skip_elems f L (d + 1) (skip_ws (snd (bump s))) = None"
  by (simp add: Let_def split: if_splits)

lemma skip_fields_NoneD:
  assumes "skip_fields (Suc f) L d s = None"
  obtains k s2 where "parse_key L (skip_ws s) = Inr (k, s2)"
      "skip_value f L d (snd (bump (skip_ws s2))) = None"
  | k s2 s4 where "parse_key L (skip_ws s) = Inr (k, s2)"
      "skip_value f L d (snd (bump (skip_ws s2))) = Some (Inr ((), s4))"
      "skip_fields f L d (snd (bump (skip_ws s4))) = None"
  using assms by (simp add: Let_def parse_simps split: if_splits) blast

lemma skip_elems_NoneD:
  assumes "skip_elems (Suc f) L d s = None"
  obtains "skip_value f L d s = None"
  | s1 where "skip_value f L d s = Some (Inr ((), s1))"
      "skip_elems f L d (snd (bump (skip_ws s1))) = None"
  using assms by (auto simp: Let_def parse_simps split: if_splits)

lemma skip_enough:
  "(\<forall>L d s. 3 * length s + 3 \<le> f \<longrightarrow> skip_value f L d s \<noteq> None) \<and>
   (\<forall>L d s. s \<noteq> [] \<longrightarrow> 3 * length s + 2 \<le> f \<longrightarrow> skip_object f L d s \<noteq> None) \<and>
   (\<forall>L d s. 3 * length s + 4 \<le> f \<longrightarrow> skip_fields f L d s \<noteq> None) \<and>
   (\<forall>L d s. s \<noteq> [] \<longrightarrow> 3 * length s + 2 \<le> f \<longrightarrow> skip_array f L d s \<noteq> None) \<and>
   (\<forall>L d s. 3 * length s + 4 \<le> f \<longrightarrow> skip_elems f L d s \<noteq> None)"
proof (induction f)
  case (Suc f)
  note IH = Suc.IH [THEN conjunct1] Suc.IH [THEN conjunct2, THEN conjunct1]
    Suc.IH [THEN conjunct2, THEN conjunct2, THEN conjunct1]
    Suc.IH [THEN conjunct2, THEN conjunct2, THEN conjunct2, THEN conjunct1]
    Suc.IH [THEN conjunct2, THEN conjunct2, THEN conjunct2, THEN conjunct2]
  note v = IH(1) [rule_format] and o = IH(2) [rule_format] and fl = IH(3) [rule_format]
    and a = IH(4) [rule_format] and e = IH(5) [rule_format]
  note sv = consumingD [OF skip_consuming [THEN conjunct1]]
  have inner: "3 * length (skip_ws (snd (bump s))) + 4 \<le> f"
    if "s \<noteq> []" "3 * length s + 2 \<le> Suc f" for s :: bytes
    using that length_skip_ws [of "snd (bump s)"] by (cases s) auto
  have "skip_value (Suc f) L d s \<noteq> None" if "3 * length s + 3 \<le> Suc f" for L d s
    using skip_value_NoneD o [of "skip_ws s" L d] a [of "skip_ws s" L d] that length_skip_ws [of s]
    by fastforce
  moreover have "skip_object (Suc f) L d s \<noteq> None"
    if "s \<noteq> []" "3 * length s + 2 \<le> Suc f" for L d s
    using skip_object_NoneD fl inner that by blast
  moreover have "skip_array (Suc f) L d s \<noteq> None"
    if "s \<noteq> []" "3 * length s + 2 \<le> Suc f" for L d s
    using skip_array_NoneD e inner that by blast
  moreover have "skip_fields (Suc f) L d s \<noteq> None" if le: "3 * length s + 4 \<le> Suc f" for L d s
  proof
    assume "skip_fields (Suc f) L d s = None"
    then show False
    proof (rule skip_fields_NoneD)
      fix k s2
      assume k: "parse_key L (skip_ws s) = Inr (k, s2)"
        and n: "skip_value f L d (snd (bump (skip_ws s2))) = None"
      have "3 * length (snd (bump (skip_ws s2))) + 3 \<le> f"
        using le parse_key_less [OF k] length_bump_ws [of s2] length_skip_ws [of s] by linarith
      with v n show False by blast
    next
      fix k s2 s4
      assume k: "parse_key L (skip_ws s) = Inr (k, s2)"
        and w: "skip_value f L d (snd (bump (skip_ws s2))) = Some (Inr ((), s4))"
        and n: "skip_fields f L d (snd (bump (skip_ws s4))) = None"
      have "3 * length (snd (bump (skip_ws s4))) + 4 \<le> f"
        using le parse_key_less [OF k] sv [OF w] length_bump_ws [of s2] length_bump_ws [of s4]
          length_skip_ws [of s] by linarith
      with fl n show False by blast
    qed
  qed
  moreover have "skip_elems (Suc f) L d s \<noteq> None" if le: "3 * length s + 4 \<le> Suc f" for L d s
  proof
    assume "skip_elems (Suc f) L d s = None"
    then show False
    proof (rule skip_elems_NoneD)
      show False if "skip_value f L d s = None"
        using that v [of s L d] le by simp
    next
      fix s1
      assume w: "skip_value f L d s = Some (Inr ((), s1))"
        and n: "skip_elems f L d (snd (bump (skip_ws s1))) = None"
      have "3 * length (snd (bump (skip_ws s1))) + 4 \<le> f"
        using le sv [OF w] length_bump_ws [of s1] by linarith
      with e n show False by blast
    qed
  qed
  ultimately show ?case by iprover
qed simp

lemma parse_value_NoneD:
  assumes "parse_value (Suc f) L d s = None"
  shows "skip_ws s \<noteq> [] \<and>
    (parse_object f L d (skip_ws s) = None \<or> parse_array f L d (skip_ws s) = None)"
  using assms by (cases "skip_ws s") (simp_all add: Let_def split: if_splits)

lemma parse_object_NoneD:
  "parse_object (Suc f) L d s = None \<Longrightarrow>
     parse_fields f L (d + 1) [] [] (skip_ws (snd (bump s))) = None"
  by (simp add: Let_def split: if_splits)

lemma parse_array_NoneD:
  "parse_array (Suc f) L d s = None \<Longrightarrow>
     parse_elems f L (d + 1) [] False 0 (skip_ws (snd (bump s))) = None"
  by (simp add: Let_def split: if_splits)

lemma parse_fields_NoneD:
  assumes "parse_fields (Suc f) L d flds seen s = None"
  obtains k s2 where "parse_key L (skip_ws s) = Inr (k, s2)"
      "parse_value f L d (snd (bump (skip_ws s2))) = None"
  | k s2 v s4 where "parse_key L (skip_ws s) = Inr (k, s2)"
      "parse_value f L d (snd (bump (skip_ws s2))) = Some (Inr (v, s4))"
      "parse_fields f L d (flds @ [(k, v)]) (bs_insert k seen) (snd (bump (skip_ws s4))) = None"
  using assms by (simp add: Let_def parse_simps split: if_splits) blast

lemma parse_elems_NoneD:
  assumes "parse_elems (Suc f) L d items t i s = None"
  obtains "parse_value f L d (skip_ws s) = None \<or> skip_value f L d (skip_ws s) = None"
  | items' t' s1 where "length s1 < length s"
      "parse_elems f L d items' t' (i + 1) (snd (bump (skip_ws s1))) = None"
proof -
  note c = consumingD [OF parse_consuming [THEN conjunct1]]
    consumingD [OF skip_consuming [THEN conjunct1]]
  have less: "length s1 < length s"
    if "parse_value f L d (skip_ws s) = Some (Inr (v, s1)) \<or>
        skip_value f L d (skip_ws s) = Some (Inr (u, s1))" for v u s1
    using that c length_skip_ws [of s] by (meson order_less_le_trans)
  show thesis
  proof (cases "i < max_array_inspect L")
    case True
    with assms show thesis
      by (auto simp: Let_def parse_simps split: if_splits intro: that less)
  next
    case False
    with assms show thesis
      by (auto simp: Let_def parse_simps split: if_splits intro: that less)
  qed
qed

lemma parse_enough:
  "(\<forall>L d s. 3 * length s + 3 \<le> f \<longrightarrow> parse_value f L d s \<noteq> None) \<and>
   (\<forall>L d s. s \<noteq> [] \<longrightarrow> 3 * length s + 2 \<le> f \<longrightarrow> parse_object f L d s \<noteq> None) \<and>
   (\<forall>L d flds seen s. 3 * length s + 4 \<le> f \<longrightarrow> parse_fields f L d flds seen s \<noteq> None) \<and>
   (\<forall>L d s. s \<noteq> [] \<longrightarrow> 3 * length s + 2 \<le> f \<longrightarrow> parse_array f L d s \<noteq> None) \<and>
   (\<forall>L d items t i s. 3 * length s + 4 \<le> f \<longrightarrow> parse_elems f L d items t i s \<noteq> None)"
proof (induction f)
  case (Suc f)
  note IH = Suc.IH [THEN conjunct1] Suc.IH [THEN conjunct2, THEN conjunct1]
    Suc.IH [THEN conjunct2, THEN conjunct2, THEN conjunct1]
    Suc.IH [THEN conjunct2, THEN conjunct2, THEN conjunct2, THEN conjunct1]
    Suc.IH [THEN conjunct2, THEN conjunct2, THEN conjunct2, THEN conjunct2]
  note v = IH(1) [rule_format] and o = IH(2) [rule_format] and fl = IH(3) [rule_format]
    and a = IH(4) [rule_format] and e = IH(5) [rule_format]
  note pv = consumingD [OF parse_consuming [THEN conjunct1]]
    and sk = skip_enough [of f, THEN conjunct1, rule_format]
  have inner: "3 * length (skip_ws (snd (bump s))) + 4 \<le> f"
    if "s \<noteq> []" "3 * length s + 2 \<le> Suc f" for s :: bytes
    using that length_skip_ws [of "snd (bump s)"] by (cases s) auto
  have c1: "parse_value (Suc f) L d s \<noteq> None" if "3 * length s + 3 \<le> Suc f" for L d s
    using parse_value_NoneD o [of "skip_ws s" L d] a [of "skip_ws s" L d] that
      length_skip_ws [of s] by fastforce
  have c2: "parse_object (Suc f) L d s \<noteq> None"
    if "s \<noteq> []" "3 * length s + 2 \<le> Suc f" for L d s
    using parse_object_NoneD fl inner that by blast
  have c3: "parse_array (Suc f) L d s \<noteq> None"
    if "s \<noteq> []" "3 * length s + 2 \<le> Suc f" for L d s
    using parse_array_NoneD e inner that by blast
  have c4: "parse_fields (Suc f) L d flds seen s \<noteq> None"
    if le: "3 * length s + 4 \<le> Suc f" for L d flds seen s
  proof
    assume "parse_fields (Suc f) L d flds seen s = None"
    then show False
    proof (rule parse_fields_NoneD)
      fix k s2
      assume k: "parse_key L (skip_ws s) = Inr (k, s2)"
        and n: "parse_value f L d (snd (bump (skip_ws s2))) = None"
      have "3 * length (snd (bump (skip_ws s2))) + 3 \<le> f"
        using le parse_key_less [OF k] length_bump_ws [of s2] length_skip_ws [of s] by linarith
      with v n show False by blast
    next
      fix k s2 x s4
      assume k: "parse_key L (skip_ws s) = Inr (k, s2)"
        and w: "parse_value f L d (snd (bump (skip_ws s2))) = Some (Inr (x, s4))"
        and n: "parse_fields f L d (flds @ [(k, x)]) (bs_insert k seen)
          (snd (bump (skip_ws s4))) = None"
      have "3 * length (snd (bump (skip_ws s4))) + 4 \<le> f"
        using le parse_key_less [OF k] pv [OF w] length_bump_ws [of s2] length_bump_ws [of s4]
          length_skip_ws [of s] by linarith
      with fl n show False by blast
    qed
  qed
  have c5: "parse_elems (Suc f) L d items t i s \<noteq> None"
    if le: "3 * length s + 4 \<le> Suc f" for L d items t i s
  proof
    assume "parse_elems (Suc f) L d items t i s = None"
    then show False
    proof (rule parse_elems_NoneD)
      have "3 * length (skip_ws s) + 3 \<le> f" using le length_skip_ws [of s] by linarith
      then show False
        if "parse_value f L d (skip_ws s) = None \<or> skip_value f L d (skip_ws s) = None"
        using that v sk by blast
    next
      fix items' t' s1
      assume "length s1 < length s"
        and n: "parse_elems f L d items' t' (i + 1) (snd (bump (skip_ws s1))) = None"
      then have "3 * length (snd (bump (skip_ws s1))) + 4 \<le> f"
        using le length_bump_ws [of s1] by linarith
      with e n show False by blast
    qed
  qed
  show ?case using c1 c2 c3 c4 c5 by (intro conjI allI impI) simp_all
qed simp

lemma parse_value_enough: "3 * length s + 3 \<le> f \<Longrightarrow> parse_value f L d s \<noteq> None"
  by (rule parse_enough [THEN conjunct1, rule_format])

lemma parse_bounded_fuel_enough:
  "3 * length bs + 3 \<le> f \<Longrightarrow> parse_bounded_fuel f bs L \<noteq> None"
  using parse_value_enough [of bs f L 0]
  by (auto simp: parse_bounded_fuel_def split: option.splits sum.splits)

lemma parse_bounded_eq:
  "parse_bounded bs L =
     (if length bs > max_bytes L then Inl SizeExceeded
      else (case parse_value (3 * length bs + 3) L 0 bs of
          Some (Inr (n, r)) \<Rightarrow> if skip_ws r \<noteq> [] then Inl ParseError else Inr n
        | Some (Inl e) \<Rightarrow> Inl e
        | None \<Rightarrow> Inl ParseError))"
  by (auto simp: parse_bounded_def parse_bounded_fuel_def split: option.splits sum.splits)

end
