(* ===== verification/Json_Valid.thy ===== *)
theory Json_Valid
  imports Json_Total
begin

text \<open>
  What the bounded parser promises of the value it returns: every limit holds at every level
  of nesting, keys are unique, texts are UTF-8, numbers follow the JSON grammar, and an array
  is marked truncated only when it holds exactly the inspected prefix.
\<close>

section \<open>Valid values\<close>

definition digits :: "bytes \<Rightarrow> bool" where
  "digits t \<longleftrightarrow> t \<noteq> [] \<and> list_all is_ascii_digit t"

definition int_part :: "bytes \<Rightarrow> bool" where
  "int_part t \<longleftrightarrow> t = ''0'' \<or> (digits t \<and> hd t \<noteq> CHR ''0'')"

definition frac_part :: "bytes \<Rightarrow> bool" where
  "frac_part t \<longleftrightarrow> t = [] \<or> (hd t = CHR ''.'' \<and> digits (tl t))"

definition exp_part :: "bytes \<Rightarrow> bool" where
  "exp_part t \<longleftrightarrow> t = [] \<or> (hd t \<in> {CHR ''e'', CHR ''E''} \<and>
     (digits (tl t) \<or> (hd (tl t) \<in> {CHR ''+'', CHR ''-''} \<and> digits (tl (tl t)))))"

text \<open>The number grammar of RFC 8259.\<close>

definition json_number :: "bytes \<Rightarrow> bool" where
  "json_number t \<longleftrightarrow> (\<exists>m i f e. t = m @ i @ f @ e \<and> m \<in> {[], ''-''} \<and>
     int_part i \<and> frac_part f \<and> exp_part e)"

fun node_ok :: "limits \<Rightarrow> nat \<Rightarrow> node \<Rightarrow> bool" where
  "node_ok L d NodeNull = True"
| "node_ok L d (NodeBool b) = True"
| "node_ok L d (NodeNumber t) = json_number t"
| "node_ok L d (NodeString v) = (length v \<le> max_string_len L \<and> utf8_valid v)"
| "node_ok L d (NodeArray xs t) =
     (d + 1 \<le> max_depth L \<and> length xs \<le> max_array_inspect L \<and>
      (t \<longrightarrow> length xs = max_array_inspect L) \<and> (\<forall>x\<in>set xs. node_ok L (d + 1) x))"
| "node_ok L d (NodeObject fs) =
     (d + 1 \<le> max_depth L \<and> length fs \<le> max_fields_per_object L \<and> distinct (map fst fs) \<and>
      (\<forall>f\<in>set fs. length (fst f) \<le> max_key_len L \<and> utf8_valid (fst f) \<and>
         node_ok L (d + 1) (snd f)))"

section \<open>Leaves\<close>

lemma scan_raw_string_utf8: "scan_raw_string s = Inr (v, r) \<Longrightarrow> utf8_valid v"
  by (auto simp: scan_raw_string_def result_bind_Inr_iff split: if_splits)

lemma parse_string_ok:
  "parse_string L s = Inr (v, r) \<Longrightarrow> length v \<le> max_string_len L \<and> utf8_valid v"
  by (auto simp: parse_string_def result_bind_Inr_iff split: if_splits
      dest: scan_raw_string_utf8)

lemma parse_key_ok:
  "parse_key L s = Inr (v, r) \<Longrightarrow> length v \<le> max_key_len L \<and> utf8_valid v"
  by (auto simp: parse_key_def result_bind_Inr_iff split: if_splits
      dest: scan_raw_string_utf8)

lemma skip_digits_split:
  obtains t where "s = t @ skip_digits s" "list_all is_ascii_digit t"
proof
  show "s = takeWhile is_ascii_digit s @ skip_digits s" by (simp add: skip_digits_def)
  show "list_all is_ascii_digit (takeWhile is_ascii_digit s)"
    by (auto simp: list_all_iff dest: set_takeWhileD)
qed

lemma peek_digit_split:
  assumes "peek_digit s"
  obtains t where "s = t @ skip_digits s" "digits t"
proof -
  from assms obtain c r where s: "s = c # r" "is_ascii_digit c"
    by (cases s) (auto simp: peek_digit_def)
  obtain t where "r = t @ skip_digits r" "list_all is_ascii_digit t"
    by (rule skip_digits_split)
  with s have "s = (c # t) @ skip_digits s" "digits (c # t)"
    by (simp_all add: skip_digits_def digits_def)
  then show thesis by (rule that)
qed

lemma number_int_split:
  assumes "number_int s = Inr r"
  obtains m i where "s = m @ i @ r" "m \<in> {[], ''-''}" "int_part i"
proof -
  define s1 where "s1 = (if peek s = Some (CHR ''-'') then snd (bump s) else s)"
  have "\<exists>m. s = m @ s1 \<and> m \<in> {[], ''-''}"
    by (cases s) (auto simp: s1_def)
  then obtain m where m: "s = m @ s1" "m \<in> {[], ''-''}" by blast
  from assms obtain c r1 where s1: "s1 = c # r1"
    and r: "c = CHR ''0'' \<and> r = r1 \<or> c \<noteq> CHR ''0'' \<and> is_ascii_digit c \<and> r = skip_digits r1"
    unfolding number_int_def s1_def [symmetric] Let_def
    by (cases s1) (auto simp: bump_def split: if_splits)
  have "\<exists>i. s1 = i @ r \<and> int_part i"
  proof (cases "c = CHR ''0''")
    case True
    then show ?thesis using r s1 by (intro exI [of _ "''0''"]) (simp add: int_part_def)
  next
    case False
    obtain t where t: "r1 = t @ skip_digits r1" "list_all is_ascii_digit t"
      by (rule skip_digits_split)
    with False r s1 have "s1 = (c # t) @ r \<and> int_part (c # t)"
      by (simp add: int_part_def digits_def)
    then show ?thesis by blast
  qed
  with m that show thesis by blast
qed

lemma number_frac_split:
  assumes "number_frac s = Inr r"
  obtains f where "s = f @ r" "frac_part f"
proof (cases "peek s = Some (CHR ''.'')")
  case True
  then obtain s1 where s: "s = CHR ''.'' # s1" by (auto simp: peek_Some_iff)
  with assms have "peek_digit s1" and r: "r = skip_digits s1"
    by (auto simp: number_frac_def Let_def split: if_splits)
  then obtain t where "s1 = t @ skip_digits s1" "digits t" by (elim peek_digit_split)
  then have "s = (CHR ''.'' # t) @ r" "frac_part (CHR ''.'' # t)"
    using r s by (simp_all add: frac_part_def)
  then show thesis by (rule that)
next
  case False
  with assms that [of "[]"] show thesis by (simp add: number_frac_def frac_part_def)
qed

lemma number_exp_split:
  assumes "number_exp s = Inr r"
  obtains e where "s = e @ r" "exp_part e"
proof (cases "peek s = Some (CHR ''e'') \<or> peek s = Some (CHR ''E'')")
  case True
  then obtain c s1 where s: "s = c # s1" "c = CHR ''e'' \<or> c = CHR ''E''"
    by (auto simp: peek_Some_iff)
  define s2 where
    "s2 = (if peek s1 = Some (CHR ''+'') \<or> peek s1 = Some (CHR ''-'') then snd (bump s1) else s1)"
  have "\<exists>g. s1 = g @ s2 \<and> g \<in> {[], ''+'', ''-''}"
    by (cases s1) (auto simp: s2_def)
  then obtain g where g: "s1 = g @ s2" "g \<in> {[], ''+'', ''-''}" by blast
  from assms True s have "peek_digit s2" and r: "r = skip_digits s2"
    unfolding number_exp_def Let_def by (auto simp: s2_def split: if_splits)
  then obtain t where "s2 = t @ skip_digits s2" "digits t" by (elim peek_digit_split)
  then have "s = (c # g @ t) @ r" "exp_part (c # g @ t)"
    using r s g by (auto simp: exp_part_def)
  then show thesis by (rule that)
next
  case False
  with assms that [of "[]"] show thesis by (simp add: number_exp_def exp_part_def)
qed

lemma parse_number_ok:
  assumes "parse_number s = Inr (n, r)"
  obtains t where "n = NodeNumber t" "s = t @ r" "json_number t" "utf8_valid t"
proof -
  from assms obtain s1 s2 where "number_int s = Inr s1" "number_frac s1 = Inr s2"
    "number_exp s2 = Inr r" and n: "n = NodeNumber (take (length s - length r) s)"
    and u: "utf8_valid (take (length s - length r) s)"
    by (auto simp: parse_number_def result_bind_Inr_iff Let_def split: if_splits)
  then obtain m i f e where "s = m @ i @ s1" "m \<in> {[], ''-''}" "int_part i"
    "s1 = f @ s2" "frac_part f" "s2 = e @ r" "exp_part e"
    by (metis number_int_split number_frac_split number_exp_split)
  then have "s = (m @ i @ f @ e) @ r" "json_number (m @ i @ f @ e)"
    by (auto simp: json_number_def)
  moreover from this(1) have "take (length s - length r) s = m @ i @ f @ e" by simp
  ultimately show thesis using n u that by simp
qed

lemma parse_literal_value: "parse_literal kw n s = Inr (m, r) \<Longrightarrow> m = n"
  by (auto simp: parse_literal_def result_bind_Inr_iff)

section \<open>Every parsed value is valid\<close>

definition fields_ok :: "limits \<Rightarrow> nat \<Rightarrow> (bytes \<times> node) list \<Rightarrow> bytes list \<Rightarrow> bool" where
  "fields_ok L d flds seen \<longleftrightarrow> length flds \<le> max_fields_per_object L \<and>
     distinct (map fst flds) \<and> fst ` set flds \<subseteq> set seen \<and>
     (\<forall>f\<in>set flds. length (fst f) \<le> max_key_len L \<and> utf8_valid (fst f) \<and> node_ok L d (snd f))"

definition elems_ok :: "limits \<Rightarrow> nat \<Rightarrow> node list \<Rightarrow> bool \<Rightarrow> nat \<Rightarrow> bool" where
  "elems_ok L d items t i \<longleftrightarrow> length items = min i (max_array_inspect L) \<and>
     (t \<longrightarrow> max_array_inspect L \<le> i) \<and> (\<forall>x\<in>set items. node_ok L d x)"

lemma fields_ok_snoc:
  assumes "fields_ok L d flds seen" "k \<notin> set seen" "length flds < max_fields_per_object L"
    "length k \<le> max_key_len L" "utf8_valid k" "node_ok L d v"
  shows "fields_ok L d (flds @ [(k, v)]) (bs_insert k seen)"
  using assms by (auto simp: fields_ok_def)

lemma elems_ok_step:
  assumes "elems_ok L d items t i"
    and "i < max_array_inspect L \<and> (\<exists>v. node_ok L d v \<and> items' = items @ [v] \<and> t' = t) \<or>
      max_array_inspect L \<le> i \<and> items' = items \<and> t'"
  shows "elems_ok L d items' t' (i + 1)"
  using assms by (auto simp: elems_ok_def min_def)

lemma parsed_ok:
  "(\<forall>L d s n r. parse_value f L d s = Some (Inr (n, r)) \<longrightarrow> node_ok L d n) \<and>
   (\<forall>L d s n r. parse_object f L d s = Some (Inr (n, r)) \<longrightarrow> node_ok L d n) \<and>
   (\<forall>L d flds seen s n r. parse_fields f L (d + 1) flds seen s = Some (Inr (n, r)) \<longrightarrow>
      d + 1 \<le> max_depth L \<longrightarrow> fields_ok L (d + 1) flds seen \<longrightarrow> node_ok L d n) \<and>
   (\<forall>L d s n r. parse_array f L d s = Some (Inr (n, r)) \<longrightarrow> node_ok L d n) \<and>
   (\<forall>L d items t i s n r. parse_elems f L (d + 1) items t i s = Some (Inr (n, r)) \<longrightarrow>
      d + 1 \<le> max_depth L \<longrightarrow> elems_ok L (d + 1) items t i \<longrightarrow> node_ok L d n)"
proof (induction f)
  case (Suc f)
  note v = Suc.IH [THEN conjunct1, rule_format]
    and o = Suc.IH [THEN conjunct2, THEN conjunct1, rule_format]
    and fl = Suc.IH [THEN conjunct2, THEN conjunct2, THEN conjunct1, rule_format]
    and a = Suc.IH [THEN conjunct2, THEN conjunct2, THEN conjunct2, THEN conjunct1, rule_format]
    and e = Suc.IH [THEN conjunct2, THEN conjunct2, THEN conjunct2, THEN conjunct2, rule_format]
  have c1: "node_ok L d n" if "parse_value (Suc f) L d s = Some (Inr (n, r))" for L d s n r
    using that
  proof (rule parse_value_cases)
    show ?thesis if "parse_object f L d (skip_ws s) = Some (Inr (n, r))"
      using that by (rule o)
    show ?thesis if "parse_array f L d (skip_ws s) = Some (Inr (n, r))"
      using that by (rule a)
    show ?thesis if "parse_string L (skip_ws s) = Inr (w, r)" "n = NodeString w" for w
      using that parse_string_ok by auto
    show ?thesis if "parse_number (skip_ws s) = Inr (n, r)"
      using that by (rule parse_number_ok) simp
  qed (auto dest: parse_literal_value)
  have c2: "node_ok L d n" if "parse_object (Suc f) L d s = Some (Inr (n, r))" for L d s n r
    using that
  proof (rule parse_object_cases)
    assume "d + 1 \<le> max_depth L"
      and "parse_fields f L (d + 1) [] [] (skip_ws (snd (bump s))) = Some (Inr (n, r))"
    then show ?thesis using fl by (simp add: fields_ok_def)
  qed simp
  have c4: "node_ok L d n" if "parse_array (Suc f) L d s = Some (Inr (n, r))" for L d s n r
    using that
  proof (rule parse_array_cases)
    assume "d + 1 \<le> max_depth L"
      and "parse_elems f L (d + 1) [] False 0 (skip_ws (snd (bump s))) = Some (Inr (n, r))"
    then show ?thesis using e by (simp add: elems_ok_def)
  qed simp
  have c3: "node_ok L d n"
    if p: "parse_fields (Suc f) L (d + 1) flds seen s = Some (Inr (n, r))"
      and d: "d + 1 \<le> max_depth L" and ok: "fields_ok L (d + 1) flds seen" for L d flds seen s n r
    using p
  proof (rule parse_fields_cases)
    fix k s2 x s4
    assume k: "parse_key L (skip_ws s) = Inr (k, s2)" "k \<notin> set seen"
      and x: "parse_value f L (d + 1) (snd (bump (skip_ws s2))) = Some (Inr (x, s4))"
      and len: "length flds < max_fields_per_object L"
      and r: "peek (skip_ws s4) = Some (CHR 0x7D) \<and> r = snd (bump (skip_ws s4)) \<and>
           n = NodeObject (flds @ [(k, x)]) \<or>
         peek (skip_ws s4) = Some (CHR '','') \<and>
           parse_fields f L (d + 1) (flds @ [(k, x)]) (bs_insert k seen)
             (snd (bump (skip_ws s4))) = Some (Inr (n, r))"
    have ok': "fields_ok L (d + 1) (flds @ [(k, x)]) (bs_insert k seen)"
      using fields_ok_snoc [OF ok k(2) len] parse_key_ok [OF k(1)] v [OF x] by blast
    from r show ?thesis
    proof
      assume "peek (skip_ws s4) = Some (CHR 0x7D) \<and> r = snd (bump (skip_ws s4)) \<and>
           n = NodeObject (flds @ [(k, x)])"
      then show ?thesis using ok' d by (simp add: fields_ok_def)
    qed (use fl [OF _ d ok'] in blast)
  qed
  have c5: "node_ok L d n"
    if p: "parse_elems (Suc f) L (d + 1) items t i s = Some (Inr (n, r))"
      and d: "d + 1 \<le> max_depth L" and ok: "elems_ok L (d + 1) items t i" for L d items t i s n r
    using p
  proof (rule parse_elems_cases)
    fix items' t' s1
    assume x: "i < max_array_inspect L \<and>
        (\<exists>v. parse_value f L (d + 1) (skip_ws s) = Some (Inr (v, s1)) \<and>
          items' = items @ [v] \<and> t' = t) \<or>
        max_array_inspect L \<le> i \<and> skip_value f L (d + 1) (skip_ws s) = Some (Inr ((), s1)) \<and>
          items' = items \<and> t'"
      and r: "peek (skip_ws s1) = Some (CHR '']'') \<and> r = snd (bump (skip_ws s1)) \<and>
          n = NodeArray items' t' \<or>
        peek (skip_ws s1) = Some (CHR '','') \<and>
          parse_elems f L (d + 1) items' t' (i + 1) (snd (bump (skip_ws s1))) = Some (Inr (n, r))"
    have ok': "elems_ok L (d + 1) items' t' (i + 1)"
      using elems_ok_step [OF ok] x v by blast
    from r show ?thesis
    proof
      assume "peek (skip_ws s1) = Some (CHR '']'') \<and> r = snd (bump (skip_ws s1)) \<and>
          n = NodeArray items' t'"
      then show ?thesis using ok' d by (auto simp: elems_ok_def)
    qed (use e [OF _ d ok'] in blast)
  qed
  show ?case using c1 c2 c3 c4 c5 by (intro conjI allI impI) simp_all
qed simp

text \<open>
  The parser's result does not depend on its fuel: a call that returns keeps its result with
  more fuel. With \<open>parse_value_enough\<close> this makes \<open>parse_bounded\<close> the value of every
  sufficiently fuelled run, which is what the Rust function, which has no fuel, computes.
\<close>

text \<open>\<open>refines m m'\<close>: the run \<open>m'\<close> has the result of \<open>m\<close>, if \<open>m\<close> has one.\<close>

definition refines :: "'a option \<Rightarrow> 'a option \<Rightarrow> bool" where
  "refines m m' \<longleftrightarrow> m = None \<or> m' = m"

lemma refines_refl [simp]: "refines m m"
  by (simp add: refines_def)

lemma refines_None [simp]: "refines None m"
  by (simp add: refines_def)

lemma refines_Some: "refines m m' \<Longrightarrow> m = Some r \<Longrightarrow> m' = Some r"
  by (auto simp: refines_def)

lemma refines_pbind:
  "refines m m' \<Longrightarrow> (\<And>x s. refines (g x s) (g' x s)) \<Longrightarrow> refines (pbind m g) (pbind m' g')"
  by (auto simp: refines_def pbind_def split: option.splits sum.splits)

lemma refines_if:
  "(b \<Longrightarrow> refines x x') \<Longrightarrow> (\<not> b \<Longrightarrow> refines y y') \<Longrightarrow> refines (if b then x else y) (if b then x' else y')"
  by simp

lemma refines_option:
  "refines x x' \<Longrightarrow> (\<And>c. refines (g c) (g' c)) \<Longrightarrow>
     refines (case m of None \<Rightarrow> x | Some c \<Rightarrow> g c) (case m of None \<Rightarrow> x' | Some c \<Rightarrow> g' c)"
  by (cases m) simp_all

lemmas refines_intros = refines_pbind refines_if refines_option refines_refl

lemma skip_refines:
  "f \<le> g \<Longrightarrow>
   (\<forall>L d s. refines (skip_value f L d s) (skip_value g L d s)) \<and>
   (\<forall>L d s. refines (skip_object f L d s) (skip_object g L d s)) \<and>
   (\<forall>L d s. refines (skip_fields f L d s) (skip_fields g L d s)) \<and>
   (\<forall>L d s. refines (skip_array f L d s) (skip_array g L d s)) \<and>
   (\<forall>L d s. refines (skip_elems f L d s) (skip_elems g L d s))"
proof (induction f arbitrary: g)
  case (Suc f)
  then obtain h where g: "g = Suc h" "f \<le> h" by (cases g) auto
  note IH = Suc.IH [OF g(2)]
  have v: "refines (skip_value f L d s) (skip_value h L d s)"
    and o: "refines (skip_object f L d s) (skip_object h L d s)"
    and fl: "refines (skip_fields f L d s) (skip_fields h L d s)"
    and a: "refines (skip_array f L d s) (skip_array h L d s)"
    and e: "refines (skip_elems f L d s) (skip_elems h L d s)" for L d s
    using IH by blast+
  show ?case
    unfolding g(1) skip_value.simps skip_object.simps skip_fields.simps skip_array.simps
      skip_elems.simps Let_def
    by (intro conjI allI refines_intros v o fl a e)
qed simp

lemma parse_refines:
  "f \<le> g \<Longrightarrow>
   (\<forall>L d s. refines (parse_value f L d s) (parse_value g L d s)) \<and>
   (\<forall>L d s. refines (parse_object f L d s) (parse_object g L d s)) \<and>
   (\<forall>L d fs ks s. refines (parse_fields f L d fs ks s) (parse_fields g L d fs ks s)) \<and>
   (\<forall>L d s. refines (parse_array f L d s) (parse_array g L d s)) \<and>
   (\<forall>L d xs t i s. refines (parse_elems f L d xs t i s) (parse_elems g L d xs t i s))"
proof (induction f arbitrary: g)
  case (Suc f)
  then obtain h where g: "g = Suc h" "f \<le> h" by (cases g) auto
  note IH = Suc.IH [OF g(2)]
  have v: "refines (parse_value f L d s) (parse_value h L d s)"
    and o: "refines (parse_object f L d s) (parse_object h L d s)"
    and fl: "refines (parse_fields f L d fs ks s) (parse_fields h L d fs ks s)"
    and a: "refines (parse_array f L d s) (parse_array h L d s)"
    and e: "refines (parse_elems f L d xs t i s) (parse_elems h L d xs t i s)"
    and sk: "refines (skip_value f L d s) (skip_value h L d s)" for L d s fs ks xs t i
    using IH skip_refines [OF g(2)] by simp_all
  have "refines (parse_value (Suc f) L d s) (parse_value (Suc h) L d s)" for L d s
    unfolding parse_value.simps Let_def by (intro refines_if refines_option refines_refl o a)
  moreover have "refines (parse_object (Suc f) L d s) (parse_object (Suc h) L d s)" for L d s
    unfolding parse_object.simps Let_def by (intro refines_if refines_refl fl)
  moreover have "refines (parse_array (Suc f) L d s) (parse_array (Suc h) L d s)" for L d s
    unfolding parse_array.simps Let_def by (intro refines_if refines_refl e)
  moreover have "refines (parse_fields (Suc f) L d fs ks s) (parse_fields (Suc h) L d fs ks s)"
    for L d fs ks s
    unfolding parse_fields.simps Let_def by (intro refines_pbind refines_if refines_refl v fl)
  moreover have "refines (parse_elems (Suc f) L d xs t i s) (parse_elems (Suc h) L d xs t i s)"
    for L d xs t i s
    unfolding parse_elems.simps Let_def case_prod_beta
    by (intro refines_pbind refines_if refines_refl v sk e)
  ultimately show ?case unfolding g(1) by iprover
qed simp

lemma parse_value_more:
  "parse_value f L d s = Some r \<Longrightarrow> f \<le> g \<Longrightarrow> parse_value g L d s = Some r"
  by (rule refines_Some [OF parse_refines [THEN conjunct1, rule_format]])

lemma parse_bounded_any_fuel:
  assumes "3 * length bs + 3 \<le> f"
  shows "parse_bounded_fuel f bs L = Some (parse_bounded bs L)"
proof -
  obtain r where "parse_value (3 * length bs + 3) L 0 bs = Some r"
    using parse_value_enough [of bs "3 * length bs + 3" L 0] by auto
  moreover from this have "parse_value f L 0 bs = Some r"
    using assms by (rule parse_value_more)
  ultimately show ?thesis
    by (auto simp: parse_bounded_fuel_def parse_bounded_eq split: sum.splits)
qed

text \<open>A parse that succeeds at some fuel is the result of \<open>parse_bounded\<close>.\<close>

lemma parse_boundedI:
  assumes "length bs \<le> max_bytes L" "parse_value f L 0 bs = Some (Inr (n, r))" "skip_ws r = []"
  shows "parse_bounded bs L = Inr n"
proof -
  let ?g = "max f (3 * length bs + 3)"
  have "parse_value ?g L 0 bs = Some (Inr (n, r))"
    using assms(2) by (rule parse_value_more) simp
  then have "parse_bounded_fuel ?g bs L = Some (Inr n)"
    using assms(1,3) by (simp add: parse_bounded_fuel_def)
  then show ?thesis using parse_bounded_any_fuel [of bs ?g L] by simp
qed

lemma parse_bounded_ok:
  assumes "parse_bounded bs L = Inr n"
  shows "length bs \<le> max_bytes L \<and> node_ok L 0 n"
  using assms parsed_ok [THEN conjunct1, rule_format]
  by (auto simp: parse_bounded_eq split: if_splits option.splits sum.splits)

end
