(* ===== verification/Shape_Model.thy ===== *)
theory Shape_Model
  imports Json_Valid
begin

text \<open>
  \<open>shape.rs\<close> of \<open>deblob-fingerprint\<close>: the structural shape of a parsed document, with the
  derived order on shapes that \<open>BTreeSet<Shape>\<close> iterates in, and the summary the structural
  index is keyed by. The theorems: the derived order is linear, a shape is always well formed
  (its containers are in order), and it depends neither on the order of an object's fields nor
  on the order or the multiplicity of an array's elements.
\<close>

section \<open>Shapes and their order\<close>

datatype emptiness = EEmpty | ENonEmpty | EPartial

datatype shape =
    ShNull
  | ShBool
  | ShNumber
  | ShString
  | ShArray "shape list" emptiness
  | ShObject "(bytes \<times> shape) list"

fun emptiness_rank :: "emptiness \<Rightarrow> nat" where
  "emptiness_rank EEmpty = 0"
| "emptiness_rank ENonEmpty = 1"
| "emptiness_rank EPartial = 2"

fun shape_rank :: "shape \<Rightarrow> nat" where
  "shape_rank ShNull = 0"
| "shape_rank ShBool = 1"
| "shape_rank ShNumber = 2"
| "shape_rank ShString = 3"
| "shape_rank (ShArray _ _) = 4"
| "shape_rank (ShObject _) = 5"

text \<open>
  The derived \<open>Ord\<close>: variants by their position, then the fields in order; a \<open>BTreeSet\<close>
  and a \<open>BTreeMap\<close> compare as their sequences of elements and of entries.
\<close>

definition cmp_emptiness :: "emptiness \<Rightarrow> emptiness \<Rightarrow> ordering" where
  "cmp_emptiness a b = cmp_ord (emptiness_rank a) (emptiness_rank b)"

fun cmp_shape :: "shape \<Rightarrow> shape \<Rightarrow> ordering" where
  "cmp_shape (ShArray xs e) (ShArray ys e') =
     then_with (cmp_list cmp_shape xs ys) (cmp_emptiness e e')"
| "cmp_shape (ShObject fs) (ShObject gs) =
     cmp_list (\<lambda>f g. then_with (cmp_ord (fst f) (fst g)) (cmp_shape (snd f) (snd g))) fs gs"
| "cmp_shape a b = cmp_ord (shape_rank a) (shape_rank b)"

lemma emptiness_rank_inj [simp]: "emptiness_rank a = emptiness_rank b \<longleftrightarrow> a = b"
  by (cases a; cases b) auto

lemma cmp_ord_simps [simp]:
  "cmp_ord a b = Equal \<longleftrightarrow> a = b" "cmp_ord a b = Less \<longleftrightarrow> a < b" "cmp_ord a b = Greater \<longleftrightarrow> b < a"
  by (auto simp: cmp_ord_def)

lemma cmp_ord_reverse: "reverse_ordering (cmp_ord a b) = cmp_ord b a"
  by (auto simp: cmp_ord_def)

lemma cmp_emptiness_comparable: "comparable_at cmp_emptiness e"
  by (intro comparable_atI) (auto simp: cmp_emptiness_def cmp_ord_reverse)

lemma comparable_at_then_with:
  assumes "comparable_at c x" "comparable_at d y"
  shows "comparable_at (\<lambda>p q. then_with (c (fst p) (fst q)) (d (snd p) (snd q))) (x, y)"
proof (rule comparable_atI)
  fix q r :: "'a \<times> 'b"
  show "then_with (c (fst (x, y)) (fst q)) (d (snd (x, y)) (snd q)) = Equal \<longleftrightarrow> (x, y) = q"
    using comparable_at_Equal [OF assms(1)] comparable_at_Equal [OF assms(2)] by (cases q) auto
  show "then_with (c (fst q) (fst (x, y))) (d (snd q) (snd (x, y))) =
      reverse_ordering (then_with (c (fst (x, y)) (fst q)) (d (snd (x, y)) (snd q)))"
    using comparable_at_sym [OF assms(1)] comparable_at_sym [OF assms(2)] by simp
  assume 1: "then_with (c (fst (x, y)) (fst q)) (d (snd (x, y)) (snd q)) = Less"
    and 2: "then_with (c (fst q) (fst r)) (d (snd q) (snd r)) \<noteq> Greater"
  from 2 have qr: "c (fst q) (fst r) = Less \<or>
      c (fst q) (fst r) = Equal \<and> d (snd q) (snd r) \<noteq> Greater"
    by (cases "c (fst q) (fst r)") auto
  show "then_with (c (fst (x, y)) (fst r)) (d (snd (x, y)) (snd r)) = Less"
  proof (cases "c x (fst q) = Less")
    case True
    then have "c x (fst r) = Less"
      using qr by (intro comparable_at_trans [OF assms(1) True]) auto
    then show ?thesis by simp
  next
    case False
    with 1 have "x = fst q" "d y (snd q) = Less"
      by (auto simp: comparable_at_Equal [OF assms(1)])
    with qr show ?thesis by (auto intro: comparable_at_trans [OF assms(2)])
  qed
qed

lemma cmp_shape_array: "comparable_at cmp_shape (ShArray xs e)"
  if "\<And>x. x \<in> set xs \<Longrightarrow> comparable_at cmp_shape x"
proof -
  have l: "comparable_at (\<lambda>p q. then_with (cmp_list cmp_shape (fst p) (fst q))
      (cmp_emptiness (snd p) (snd q))) (xs, e)"
    using that by (intro comparable_at_then_with cmp_list_comparable cmp_emptiness_comparable)
  show ?thesis
  proof (rule comparable_atI)
    show "cmp_shape (ShArray xs e) y = Equal \<longleftrightarrow> ShArray xs e = y" for y
      using comparable_at_Equal [OF l, of "(ys, f)" for ys f] by (cases y) simp_all
    show "cmp_shape y (ShArray xs e) = reverse_ordering (cmp_shape (ShArray xs e) y)" for y
      using comparable_at_sym [OF l, of "(ys, f)" for ys f]
      by (cases y) (simp_all add: cmp_ord_reverse)
    show "cmp_shape (ShArray xs e) z = Less"
      if "cmp_shape (ShArray xs e) y = Less" "cmp_shape y z \<noteq> Greater" for y z
      using comparable_at_trans [OF l, of "(ys, f)" "(zs, g)" for ys f zs g] that
      by (cases y; cases z) auto
  qed
qed

lemma cmp_shape_object: "comparable_at cmp_shape (ShObject fs)"
  if "\<And>f. f \<in> set fs \<Longrightarrow> comparable_at cmp_shape (snd f)"
proof -
  have l: "comparable_at (cmp_list (\<lambda>f g. then_with (cmp_ord (fst f) (fst g))
      (cmp_shape (snd f) (snd g)))) fs"
  proof (rule cmp_list_comparable)
    fix f assume "f \<in> set fs"
    then show "comparable_at (\<lambda>f g. then_with (cmp_ord (fst f) (fst g))
      (cmp_shape (snd f) (snd g))) f"
      using comparable_at_then_with [OF cmp_ord_comparable, of cmp_shape "snd f" "fst f"] that
      by simp
  qed
  show ?thesis
  proof (rule comparable_atI)
    show "cmp_shape (ShObject fs) y = Equal \<longleftrightarrow> ShObject fs = y" for y
      using comparable_at_Equal [OF l] by (cases y) auto
    show "cmp_shape y (ShObject fs) = reverse_ordering (cmp_shape (ShObject fs) y)" for y
      using comparable_at_sym [OF l] by (cases y) (auto simp: cmp_ord_reverse)
    show "cmp_shape (ShObject fs) z = Less"
      if "cmp_shape (ShObject fs) y = Less" "cmp_shape y z \<noteq> Greater" for y z
      using comparable_at_trans [OF l] that by (cases y; cases z) auto
  qed
qed

lemma cmp_shape_scalar:
  "comparable_at cmp_shape ShNull" "comparable_at cmp_shape ShBool"
  "comparable_at cmp_shape ShNumber" "comparable_at cmp_shape ShString"
proof -
  have *: "comparable_at cmp_shape x" if x: "x \<in> {ShNull, ShBool, ShNumber, ShString}" for x
  proof (rule comparable_atI)
    show "cmp_shape x y = Equal \<longleftrightarrow> x = y" for y
      using x by (cases y) auto
    show "cmp_shape y x = reverse_ordering (cmp_shape x y)" for y
      using x by (cases y) (auto simp: cmp_ord_reverse)
    show "cmp_shape x z = Less" if "cmp_shape x y = Less" "cmp_shape y z \<noteq> Greater" for y z
      using x that by (cases y; cases z) auto
  qed
  show "comparable_at cmp_shape ShNull" "comparable_at cmp_shape ShBool"
    "comparable_at cmp_shape ShNumber" "comparable_at cmp_shape ShString"
    by (rule *, simp)+
qed

lemma cmp_shape_comparable: "comparable_at cmp_shape a"
proof (induction a)
  case (ShObject fs)
  then show ?case by (intro cmp_shape_object) (metis prod.collapse snds.intros)
qed (simp_all add: cmp_shape_scalar cmp_shape_array)

instantiation shape :: linorder
begin

definition less_shape :: "shape \<Rightarrow> shape \<Rightarrow> bool" where
  "less_shape a b \<longleftrightarrow> cmp_shape a b = Less"

definition less_eq_shape :: "shape \<Rightarrow> shape \<Rightarrow> bool" where
  "less_eq_shape a b \<longleftrightarrow> cmp_shape a b \<noteq> Greater"

instance
proof
  note eq = comparable_at_Equal [OF cmp_shape_comparable]
    and sym = comparable_at_sym [OF cmp_shape_comparable]
    and trans = comparable_at_trans [OF cmp_shape_comparable]
  fix x y z :: shape
  have cases: "cmp_shape x y = Less \<or> x = y \<or> cmp_shape y x = Less" for x y :: shape
    using eq [of x y] sym [of y x] by (cases "cmp_shape x y") auto
  show "x < y \<longleftrightarrow> x \<le> y \<and> \<not> y \<le> x"
    using sym [of y x] by (cases "cmp_shape x y") (auto simp: less_shape_def less_eq_shape_def)
  show "x \<le> x" using eq [of x x] by (simp add: less_eq_shape_def)
  show "x \<le> z" if "x \<le> y" "y \<le> z"
    using that cases [of x y] trans [of x y z] eq [of x y]
    by (cases "cmp_shape x y") (auto simp: less_eq_shape_def)
  show "x = y" if "x \<le> y" "y \<le> x"
    using that cases [of x y] sym [of x y] by (auto simp: less_eq_shape_def)
  show "x \<le> y \<or> y \<le> x"
    using cases [of x y] eq [of x x] by (auto simp: less_eq_shape_def)
qed

end

section \<open>The shape of a document\<close>

definition array_emptiness :: "'a list \<Rightarrow> bool \<Rightarrow> emptiness" where
  "array_emptiness items truncated =
     (if truncated then EPartial else if items = [] then EEmpty else ENonEmpty)"

fun shape_of :: "node \<Rightarrow> shape" where
  "shape_of NodeNull = ShNull"
| "shape_of (NodeBool _) = ShBool"
| "shape_of (NodeNumber _) = ShNumber"
| "shape_of (NodeString _) = ShString"
| "shape_of (NodeArray items truncated) =
     ShArray (bs_collect (map shape_of items)) (array_emptiness items truncated)"
| "shape_of (NodeObject flds) = ShObject (bt_collect (map (\<lambda>(k, v). (k, shape_of v)) flds))"

text \<open>\<open>iter().max().unwrap_or(0)\<close>\<close>

definition max_or_zero :: "nat list \<Rightarrow> nat" where
  "max_or_zero xs = fold max xs 0"

lemma max_or_zero_cong [fundef_cong]: "xs = ys \<Longrightarrow> max_or_zero xs = max_or_zero ys"
  by simp

fun shape_depth :: "shape \<Rightarrow> nat" where
  "shape_depth ShNull = 1"
| "shape_depth ShBool = 1"
| "shape_depth ShNumber = 1"
| "shape_depth ShString = 1"
| "shape_depth (ShArray xs _) = 1 + max_or_zero (map shape_depth xs)"
| "shape_depth (ShObject fs) = 1 + max_or_zero (map (\<lambda>(k, v). shape_depth v) fs)"

record shape_summary =
  top_level_fields :: nat
  depth :: nat
  top_keys_sorted :: "bytes list"

definition summarize :: "shape \<Rightarrow> shape_summary" where
  "summarize sh =
     (let (n, ks) = (case sh of ShObject fs \<Rightarrow> (length fs, map fst fs) | _ \<Rightarrow> (0, []))
      in \<lparr> top_level_fields = n, depth = shape_depth sh, top_keys_sorted = ks \<rparr>)"

section \<open>Well-formed shapes\<close>

text \<open>
  What the types guarantee of a \<open>Shape\<close>: sets and maps in strict order, keys are text. And
  what \<open>shape_of\<close> adds: an array is \<open>EEmpty\<close> only when it has no element shape, and
  \<open>ENonEmpty\<close> only when it has one.
\<close>

fun shape_wf :: "shape \<Rightarrow> bool" where
  "shape_wf (ShArray xs e) =
     (bs_ok xs \<and> (e = EEmpty \<longrightarrow> xs = []) \<and> (e = ENonEmpty \<longrightarrow> xs \<noteq> []) \<and>
      (\<forall>x\<in>set xs. shape_wf x))"
| "shape_wf (ShObject fs) =
     (bt_ok fs \<and> (\<forall>f\<in>set fs. utf8_valid (fst f) \<and> shape_wf (snd f)))"
| "shape_wf _ = True"

lemma max_or_zero_le: "max_or_zero xs \<le> n \<longleftrightarrow> (\<forall>x\<in>set xs. x \<le> n)"
proof -
  have "fold max xs m \<le> n \<longleftrightarrow> m \<le> n \<and> (\<forall>x\<in>set xs. x \<le> n)" for m
    by (induction xs arbitrary: m) auto
  then show ?thesis by (simp add: max_or_zero_def)
qed

lemma set_bt_collect_map:
  "e \<in> set (bt_collect (map (\<lambda>(k, v). (k, g v)) fs)) \<Longrightarrow>
     \<exists>f\<in>set fs. fst e = fst f \<and> snd e = g (snd f)"
  using set_bt_collect_subset [of "map (\<lambda>(k, v). (k, g v)) fs"] by force

lemma shape_wf_shape_of: "node_ok L d n \<Longrightarrow> shape_wf (shape_of n)"
proof (induction n arbitrary: d)
  case (NodeArray items t)
  then show ?case by (auto simp: array_emptiness_def)
next
  case (NodeObject flds)
  have "utf8_valid (fst e) \<and> shape_wf (snd e)"
    if "e \<in> set (bt_collect (map (\<lambda>(k, v). (k, shape_of v)) flds))" for e
    using set_bt_collect_map [OF that] NodeObject by (metis node_ok.simps(6) snds.intros prod.collapse)
  then show ?case by simp
qed simp_all

lemma shape_depth_shape_of: "node_ok L d n \<Longrightarrow> d \<le> max_depth L \<Longrightarrow>
    d + shape_depth (shape_of n) \<le> max_depth L + 1"
proof (induction n arbitrary: d)
  case (NodeArray items t)
  then have "shape_depth x \<le> max_depth L - d" if "x \<in> set (bs_collect (map shape_of items))" for x
    using that by fastforce
  then have "max_or_zero (map shape_depth (bs_collect (map shape_of items))) \<le> max_depth L - d"
    by (auto simp: max_or_zero_le)
  then show ?case using NodeArray.prems by auto
next
  case (NodeObject flds)
  let ?m = "bt_collect (map (\<lambda>(k, v). (k, shape_of v)) flds)"
  have "shape_depth (snd e) \<le> max_depth L - d" if "e \<in> set ?m" for e
  proof -
    from set_bt_collect_map [OF that] obtain f where f: "f \<in> set flds" "snd e = shape_of (snd f)"
      by blast
    have "snd f \<in> Basic_BNFs.snds f" by (rule snds.intros)
    moreover have "node_ok L (d + 1) (snd f)" "d + 1 \<le> max_depth L"
      using NodeObject.prems f by auto
    ultimately have "d + 1 + shape_depth (shape_of (snd f)) \<le> max_depth L + 1"
      using NodeObject.IH f(1) by blast
    with f show ?thesis by simp
  qed
  then have "max_or_zero (map (\<lambda>(k, v). shape_depth v) ?m) \<le> max_depth L - d"
    by (auto simp: max_or_zero_le)
  then show ?case using NodeObject.prems by auto
qed simp_all

section \<open>What a shape does not depend on\<close>

text \<open>
  Two documents are equal up to structure when they agree in type, objects have the same keys
  in any order with structurally equal values, and every element of one array has a
  structural equal in the other, both inspected to the same extent.
\<close>

fun same_structure :: "node \<Rightarrow> node \<Rightarrow> bool" where
  "same_structure NodeNull n = (n = NodeNull)"
| "same_structure (NodeBool _) n = (case n of NodeBool _ \<Rightarrow> True | _ \<Rightarrow> False)"
| "same_structure (NodeNumber _) n = (case n of NodeNumber _ \<Rightarrow> True | _ \<Rightarrow> False)"
| "same_structure (NodeString _) n = (case n of NodeString _ \<Rightarrow> True | _ \<Rightarrow> False)"
| "same_structure (NodeArray xs t) n = (case n of
     NodeArray ys u \<Rightarrow> array_emptiness xs t = array_emptiness ys u \<and>
       (\<forall>x\<in>set xs. list_ex (same_structure x) ys) \<and>
       list_all (\<lambda>y. list_ex (\<lambda>x. same_structure x y) xs) ys
   | _ \<Rightarrow> False)"
| "same_structure (NodeObject fs) n = (case n of
     NodeObject gs \<Rightarrow> set (map fst fs) = set (map fst gs) \<and>
       (\<forall>f\<in>set fs. list_ex (\<lambda>g. fst f = fst g \<and> same_structure (snd f) (snd g)) gs)
   | _ \<Rightarrow> False)"

lemma bs_collect_eq_iff: "bs_collect xs = bs_collect ys \<longleftrightarrow> set xs = set ys"
  by (metis bs_collect_same_elements set_bs_collect)

lemma distinct_keys_map: "map fst (map (\<lambda>(k, v). (k, g v)) fs) = map fst fs"
  by (induction fs) auto

lemma map_of_rev_distinct: "distinct (map fst kvs) \<Longrightarrow> map_of (rev kvs) = map_of kvs"
  by (simp add: map_of_inject_set rev_map [symmetric])

lemma bt_collect_eq_iff:
  assumes "distinct (map fst kvs)" "distinct (map fst kvs')"
  shows "bt_collect kvs = bt_collect kvs' \<longleftrightarrow> set kvs = set kvs'"
proof -
  have "bt_collect kvs = bt_collect kvs' \<longleftrightarrow>
      map_of (bt_collect kvs) = map_of (bt_collect kvs')"
    by (auto intro: bt_extensional)
  then show ?thesis
    using assms by (simp add: map_of_bt_collect map_of_rev_distinct map_of_inject_set)
qed

lemma set_eq_by_keys:
  assumes "distinct (map fst gs)"
  shows "set fs = set gs \<longleftrightarrow>
    set (map fst fs) = set (map fst gs) \<and> (\<forall>f\<in>set fs. f \<in> set gs)"
proof
  assume r: "set (map fst fs) = set (map fst gs) \<and> (\<forall>f\<in>set fs. f \<in> set gs)"
  have "g \<in> set fs" if g: "g \<in> set gs" for g
  proof -
    from r g obtain f where f: "f \<in> set fs" "fst f = fst g" by force
    with r have "f \<in> set gs" by blast
    with f g assms have "f = g" by (metis eq_key_imp_eq_value prod.collapse)
    with f show ?thesis by simp
  qed
  with r show "set fs = set gs" by blast
qed simp

lemma shape_of_object_eq:
  assumes "distinct (map fst fs)" "distinct (map fst gs)"
  shows "shape_of (NodeObject fs) = shape_of (NodeObject gs) \<longleftrightarrow>
    set (map fst fs) = set (map fst gs) \<and>
    (\<forall>f\<in>set fs. \<exists>g\<in>set gs. fst f = fst g \<and> shape_of (snd f) = shape_of (snd g))"
proof -
  let ?h = "\<lambda>(k, v). (k, shape_of v)"
  have d: "distinct (map fst (map ?h fs))" "distinct (map fst (map ?h gs))"
    using assms by (simp_all only: distinct_keys_map)
  have "shape_of (NodeObject fs) = shape_of (NodeObject gs) \<longleftrightarrow> set (map ?h fs) = set (map ?h gs)"
    using bt_collect_eq_iff [OF d] by simp
  also have "\<dots> \<longleftrightarrow> set (map fst (map ?h fs)) = set (map fst (map ?h gs)) \<and>
      (\<forall>f\<in>set (map ?h fs). f \<in> set (map ?h gs))"
    by (rule set_eq_by_keys [OF d(2)])
  also have "\<dots> \<longleftrightarrow> set (map fst fs) = set (map fst gs) \<and>
    (\<forall>f\<in>set fs. \<exists>g\<in>set gs. fst f = fst g \<and> shape_of (snd f) = shape_of (snd g))"
    unfolding distinct_keys_map by (force simp: image_iff case_prod_beta)
  finally show ?thesis .
qed

lemma image_eq_image_iff:
  "f ` A = f ` B \<longleftrightarrow> (\<forall>x\<in>A. \<exists>y\<in>B. f x = f y) \<and> (\<forall>y\<in>B. \<exists>x\<in>A. f x = f y)"
  unfolding set_eq_subset image_subset_iff image_iff by metis

lemma shape_of_eq_iff:
  "node_ok L d a \<Longrightarrow> node_ok L' d' b \<Longrightarrow> shape_of a = shape_of b \<longleftrightarrow> same_structure a b"
proof (induction a arbitrary: d d' b)
  case (NodeArray xs t)
  show ?case
  proof (cases b)
    case b: (NodeArray ys u)
    have iff: "shape_of x = shape_of y \<longleftrightarrow> same_structure x y" if "x \<in> set xs" "y \<in> set ys" for x y
      by (rule NodeArray.IH [OF that(1), of "d + 1" "d' + 1"])
        (use NodeArray.prems b that in simp_all)
    have "shape_of ` set xs = shape_of ` set ys \<longleftrightarrow>
        (\<forall>x\<in>set xs. \<exists>y\<in>set ys. shape_of x = shape_of y) \<and>
        (\<forall>y\<in>set ys. \<exists>x\<in>set xs. shape_of x = shape_of y)"
      by (rule image_eq_image_iff)
    then show ?thesis
      using iff by (auto simp: b bs_collect_eq_iff list_ex_iff list_all_iff)
  qed auto
next
  case (NodeObject fs)
  show ?case
  proof (cases b)
    case b: (NodeObject gs)
    have "shape_of (snd f) = shape_of (snd g) \<longleftrightarrow> same_structure (snd f) (snd g)"
      if "f \<in> set fs" "g \<in> set gs" for f g
    proof (rule NodeObject.IH [OF that(1)])
      show "snd f \<in> Basic_BNFs.snds f" by (rule snds.intros)
      show "node_ok L (d + 1) (snd f)" "node_ok L' (d' + 1) (snd g)"
        using NodeObject.prems that b by auto
    qed
    moreover have "distinct (map fst fs)" "distinct (map fst gs)"
      using NodeObject.prems b by auto
    ultimately show ?thesis
      by (simp add: b shape_of_object_eq list_ex_iff del: shape_of.simps)
  qed auto
qed (case_tac [!] b; simp)+

end
