(* ===== verification/Canon.thy ===== *)
theory Canon
  imports Shape_Model
begin

text \<open>
  \<open>canon.rs\<close> and \<open>bucket.rs\<close> of \<open>deblob-fingerprint\<close>: the canonical bytes of a shape, the
  fingerprint taken over them, and the bucket key of the structural index. The theorems: the
  canonical encoding is injective on the shapes the program builds (so two shapes share a
  fingerprint only through a collision of the hash), and every bucket key lies in the range
  that the prefix scan of its band and depth visits.

  The hash (\<open>sha2\<close>) and the hexadecimal encoder (\<open>data_encoding\<close>) are parameters.
\<close>

section \<open>JSON strings\<close>

text \<open>
  \<open>write_json_string\<close> iterates over the characters of a \<open>&str\<close>; \<open>escape_char\<close> takes the
  bytes of one character. A \<open>&str\<close> is always valid UTF-8, so the \<open>None\<close> branch is never
  taken.
\<close>

definition escape_char :: "bytes \<Rightarrow> bytes" where
  "escape_char ch =
     (if ch = [CHR 0x22] then [CHR 0x5C, CHR 0x22]
      else if ch = [CHR 0x5C] then [CHR 0x5C, CHR 0x5C]
      else if length ch = 1 \<and> byte_val (hd ch) < 0x20 then
        CHR 0x5C # CHR ''u'' # hex4 (byte_val (hd ch))
      else ch)"

definition write_json_string :: "bytes \<Rightarrow> bytes" where
  "write_json_string s = CHR 0x22 #
     (case utf8_chars s of Some cs \<Rightarrow> concat (map escape_char cs) | None \<Rightarrow> []) @ [CHR 0x22]"

lemma escape_bytes:
  assumes "(\<exists>b. c = [b] \<and> byte_val b < 128) \<or> (\<forall>b\<in>set c. 128 \<le> byte_val b)"
  shows "escape_char c = concat (map (\<lambda>b. escape_char [b]) c)"
  using assms
proof
  assume hi: "\<forall>b\<in>set c. 128 \<le> byte_val b"
  have "escape_char [b] = [b]" if "b \<in> set c" for b
  proof -
    have "128 \<le> byte_val b" using hi that by blast
    moreover have "byte_val (CHR 0x22) = 34" "byte_val (CHR 0x5C) = 92"
      by (simp_all add: byte_val_def)
    ultimately show ?thesis by (auto simp: escape_char_def)
  qed
  then have "concat (map (\<lambda>b. escape_char [b]) c) = concat (map (\<lambda>b. [b]) c)"
    by (metis (no_types, lifting) map_eq_conv)
  also have "\<dots> = c" by (induction c) auto
  also have "c = escape_char c"
  proof -
    have "c \<noteq> [CHR 0x22]" "c \<noteq> [CHR 0x5C]"
      using hi by (auto simp: byte_val_def)
    moreover have "\<not> (length c = 1 \<and> byte_val (hd c) < 0x20)"
      using hi by (cases c) auto
    ultimately show ?thesis by (auto simp: escape_char_def)
  qed
  finally show ?thesis by simp
qed auto

text \<open>Only single-byte characters are escaped, so the encoding works byte by byte.\<close>

lemma write_json_string_bytes:
  assumes "utf8_valid s"
  shows "write_json_string s = CHR 0x22 # concat (map (\<lambda>b. escape_char [b]) s) @ [CHR 0x22]"
proof -
  obtain cs where cs: "utf8_chars s = Some cs"
    using assms by (auto simp: utf8_valid_def)
  have "concat (map escape_char cs) = concat (map (\<lambda>b. escape_char [b]) (concat cs))"
    using utf8_chars_shape [OF cs]
  proof (induction cs)
    case (Cons c cs)
    then show ?case using escape_bytes [of c] by simp
  qed simp
  then show ?thesis
    using cs utf8_chars_concat [OF cs] by (simp add: write_json_string_def)
qed

text \<open>An escaped byte is never mistaken for another one, nor for the closing quote.\<close>

lemma escape_byte_cases:
  obtains "escape_char [b] = [CHR 0x5C, b]" "b = CHR 0x22 \<or> b = CHR 0x5C"
  | "escape_char [b] = CHR 0x5C # CHR ''u'' # hex4 (byte_val b)" "byte_val b < 0x20"
  | "escape_char [b] = [b]" "b \<noteq> CHR 0x22" "b \<noteq> CHR 0x5C"
proof -
  consider "b = CHR 0x22" | "b = CHR 0x5C"
    | "b \<noteq> CHR 0x22" "b \<noteq> CHR 0x5C" "byte_val b < 0x20"
    | "b \<noteq> CHR 0x22" "b \<noteq> CHR 0x5C" "\<not> byte_val b < 0x20"
    by blast
  then show thesis by cases (rule that; simp add: escape_char_def)+
qed

lemma escape_byte_read:
  assumes "escape_char [a] @ r = escape_char [b] @ r'"
  shows "a = b \<and> r = r'"
proof (cases a rule: escape_byte_cases)
  case 1
  then show ?thesis using assms by (cases b rule: escape_byte_cases) auto
next
  case 2
  have "byte_val b < 32 \<Longrightarrow> hex4 (byte_val a) = hex4 (byte_val b) \<Longrightarrow> a = b"
    using 2 hex4_inj [of "byte_val a" "byte_val b"] by simp
  then show ?thesis
    using assms 2 by (cases b rule: escape_byte_cases) (auto simp: hex4_def)
next
  case 3
  then show ?thesis using assms by (cases b rule: escape_byte_cases) auto
qed

lemma escape_byte_not_quote: "escape_char [b] @ r \<noteq> CHR 0x22 # r'"
  by (cases b rule: escape_byte_cases) auto

lemma escape_bytes_read:
  "concat (map (\<lambda>b. escape_char [b]) s) @ CHR 0x22 # r =
     concat (map (\<lambda>b. escape_char [b]) t) @ CHR 0x22 # r' \<Longrightarrow> s = t \<and> r = r'"
proof (induction s arbitrary: t)
  case Nil
  then show ?case
    using escape_byte_not_quote [symmetric] by (cases t) auto
next
  case (Cons a s)
  show ?case
  proof (cases t)
    case Nil
    with Cons.prems show ?thesis using escape_byte_not_quote by auto
  next
    case t: (Cons b t')
    with Cons.prems have "a = b \<and> concat (map (\<lambda>b. escape_char [b]) s) @ CHR 0x22 # r =
        concat (map (\<lambda>b. escape_char [b]) t') @ CHR 0x22 # r'"
      by (intro escape_byte_read) simp
    with Cons.IH t show ?thesis by blast
  qed
qed

lemma write_json_string_read:
  assumes "utf8_valid s" "utf8_valid t" "write_json_string s @ r = write_json_string t @ r'"
  shows "s = t \<and> r = r'"
proof (rule escape_bytes_read)
  show "concat (map (\<lambda>b. escape_char [b]) s) @ CHR 0x22 # r =
      concat (map (\<lambda>b. escape_char [b]) t) @ CHR 0x22 # r'"
    using assms(3) by (simp add: write_json_string_bytes assms(1,2))
qed

section \<open>Canonical bytes and the fingerprint\<close>

definition canonicalizer :: bytes where
  "canonicalizer = ''deblob-canon-v1''"

fun emptiness_str :: "emptiness \<Rightarrow> bytes" where
  "emptiness_str EEmpty = ''empty''"
| "emptiness_str ENonEmpty = ''nonempty''"
| "emptiness_str EPartial = ''partial''"

definition tag_of :: "bytes \<Rightarrow> bytes" where
  "tag_of t = [CHR 0x7B, CHR 0x22, CHR ''t'', CHR 0x22, CHR '':'', CHR 0x22] @ t @ [CHR 0x22]"

fun write_shape :: "shape \<Rightarrow> bytes" where
  "write_shape ShNull = tag_of ''null'' @ [CHR 0x7D]"
| "write_shape ShBool = tag_of ''bool'' @ [CHR 0x7D]"
| "write_shape ShNumber = tag_of ''num'' @ [CHR 0x7D]"
| "write_shape ShString = tag_of ''str'' @ [CHR 0x7D]"
| "write_shape (ShArray elems e) =
     tag_of ''arr'' @ [CHR '','', CHR 0x22, CHR ''e'', CHR 0x22, CHR '':'', CHR 0x22] @
     emptiness_str e @
     [CHR 0x22, CHR '','', CHR 0x22, CHR ''o'', CHR ''f'', CHR 0x22, CHR '':'', CHR ''[''] @
     join '','' (map write_shape elems) @ [CHR '']'', CHR 0x7D]"
| "write_shape (ShObject flds) =
     tag_of ''obj'' @ [CHR '','', CHR 0x22, CHR ''f'', CHR 0x22, CHR '':'', CHR 0x7B] @
     join '','' (map (\<lambda>(k, v). write_json_string k @ CHR '':'' # write_shape v) flds) @
     [CHR 0x7D, CHR 0x7D]"

definition canonical_bytes :: "shape \<Rightarrow> bytes" where
  "canonical_bytes sh = write_shape sh"

definition fingerprint_preimage :: "shape \<Rightarrow> bytes" where
  "fingerprint_preimage sh = canonicalizer @ [CHR 0x00] @ canonical_bytes sh"

definition fingerprint :: "(bytes \<Rightarrow> bytes) \<Rightarrow> shape \<Rightarrow> bytes" where
  "fingerprint sha256 sh = sha256 (fingerprint_preimage sh)"

section \<open>The encoding is uniquely readable\<close>

text \<open>
  \<open>readable_at w P x\<close>: from the encoding of \<open>x\<close> followed by anything one reads back \<open>x\<close>
  and what follows. Stated for one value, as the induction hypothesis of a nested datatype.
\<close>

definition readable_at :: "('a \<Rightarrow> 'b list) \<Rightarrow> ('a \<Rightarrow> bool) \<Rightarrow> 'a \<Rightarrow> bool" where
  "readable_at w P x \<longleftrightarrow> (\<forall>y r r'. P y \<longrightarrow> w x @ r = w y @ r' \<longrightarrow> x = y \<and> r = r')"

lemma readable_atD: "readable_at w P x \<Longrightarrow> P y \<Longrightarrow> w x @ r = w y @ r' \<Longrightarrow> x = y \<and> r = r'"
  unfolding readable_at_def by blast

lemma readable_atI:
  "(\<And>y r r'. P y \<Longrightarrow> w x @ r = w y @ r' \<Longrightarrow> x = y \<and> r = r') \<Longrightarrow> readable_at w P x"
  unfolding readable_at_def by blast

text \<open>
  A separated list between brackets: its items are readable and start with a byte that is
  neither the separator nor the closing bracket.
\<close>

lemma joined_readable:
  assumes items: "\<And>x. x \<in> set xs \<Longrightarrow> readable_at w P x"
    and P: "\<forall>y\<in>set ys. P y"
    and first: "\<And>x. \<exists>t. w x = a # t" and ab: "a \<noteq> b" and sep: "b \<noteq> c"
    and eq: "join [c] (map w xs) @ b # r = join [c] (map w ys) @ b # r'"
  shows "xs = ys \<and> r = r'"
  using items P eq
proof (induction xs arbitrary: ys)
  case Nil
  show ?case
  proof (cases ys)
    case (Cons y ys')
    obtain t where "w y = a # t" using first by blast
    with Nil Cons ab show ?thesis by (auto simp: join_Cons split: if_splits)
  qed (use Nil in simp)
next
  case (Cons x xs)
  obtain t where t: "w x = a # t" using first by blast
  show ?case
  proof (cases ys)
    case Nil
    with Cons.prems t ab show ?thesis by (auto simp: join_Cons split: if_splits)
  next
    case ys: (Cons y ys')
    define tl1 where "tl1 = (if xs = [] then b # r else c # join [c] (map w xs) @ b # r)"
    define tl2 where "tl2 = (if ys' = [] then b # r' else c # join [c] (map w ys') @ b # r')"
    have "w x @ tl1 = w y @ tl2"
      using Cons.prems(3) by (auto simp: ys join_Cons tl1_def tl2_def split: if_splits)
    then have xy: "x = y" "tl1 = tl2"
      using readable_atD [OF Cons.prems(1) [of x], of y tl1 tl2] Cons.prems(2) ys by auto
    show ?thesis
    proof (cases "xs = [] \<or> ys' = []")
      case True
      with xy ys sep show ?thesis by (auto simp: tl1_def tl2_def split: if_splits)
    next
      case False
      with xy(2) have "join [c] (map w xs) @ b # r = join [c] (map w ys') @ b # r'"
        by (simp add: tl1_def tl2_def)
      then have "xs = ys' \<and> r = r'"
        using Cons.prems(1,2) ys by (intro Cons.IH) auto
      with xy ys show ?thesis by simp
    qed
  qed
qed

lemma write_shape_first: "\<exists>t. write_shape x = CHR 0x7B # t"
  by (cases x) (auto simp: tag_of_def)

lemma write_json_string_first: "\<exists>t. write_json_string s = CHR 0x22 # t"
  by (simp add: write_json_string_def)

lemma emptiness_str_read:
  "emptiness_str e @ CHR 0x22 # r = emptiness_str e' @ CHR 0x22 # r' \<Longrightarrow> e = e' \<and> r = r'"
  by (cases e; cases e') auto

definition write_field :: "bytes \<times> shape \<Rightarrow> bytes" where
  "write_field f = write_json_string (fst f) @ CHR '':'' # write_shape (snd f)"

lemma write_shape_object:
  "write_shape (ShObject fs) =
     tag_of ''obj'' @ [CHR '','', CHR 0x22, CHR ''f'', CHR 0x22, CHR '':'', CHR 0x7B] @
     join '','' (map write_field fs) @ [CHR 0x7D, CHR 0x7D]"
proof -
  have "(\<lambda>(k, v). write_json_string k @ CHR '':'' # write_shape v) = write_field"
    by (auto simp: fun_eq_iff write_field_def)
  then show ?thesis by simp
qed

lemma write_field_readable:
  assumes "utf8_valid (fst f)" "readable_at write_shape shape_wf (snd f)"
  shows "readable_at write_field (\<lambda>f. utf8_valid (fst f) \<and> shape_wf (snd f)) f"
proof (rule readable_atI)
  fix g :: "bytes \<times> shape" and r r' :: bytes
  assume g: "utf8_valid (fst g) \<and> shape_wf (snd g)" and eq: "write_field f @ r = write_field g @ r'"
  then have "fst f = fst g \<and> CHR '':'' # write_shape (snd f) @ r = CHR '':'' # write_shape (snd g) @ r'"
    using assms(1) by (intro write_json_string_read) (simp_all add: write_field_def)
  with readable_atD [OF assms(2), of "snd g" r r'] g show "f = g \<and> r = r'"
    by (simp add: prod_eq_iff)
qed

lemma write_shape_readable: "shape_wf x \<Longrightarrow> readable_at write_shape shape_wf x"
proof (induction x)
  case (ShArray xs e)
  show ?case
  proof (rule readable_atI)
    fix y and r r' :: bytes
    assume y: "shape_wf y" and eq: "write_shape (ShArray xs e) @ r = write_shape y @ r'"
    from eq obtain ys e' where ys: "y = ShArray ys e'"
      by (cases y) (auto simp: tag_of_def)
    with eq have "e = e' \<and> [CHR '','', CHR 0x22, CHR ''o'', CHR ''f'', CHR 0x22, CHR '':'', CHR ''['']
        @ join '','' (map write_shape xs) @ CHR '']'' # CHR 0x7D # r =
       [CHR '','', CHR 0x22, CHR ''o'', CHR ''f'', CHR 0x22, CHR '':'', CHR ''['']
        @ join '','' (map write_shape ys) @ CHR '']'' # CHR 0x7D # r'"
      by (intro emptiness_str_read) (simp add: tag_of_def)
    moreover from this have "xs = ys \<and> CHR 0x7D # r = CHR 0x7D # r'"
      using ShArray y ys
      by (intro joined_readable [where a = "CHR 0x7B" and b = "CHR '']''" and c = "CHR '',''"
            and w = write_shape and P = shape_wf])
        (auto simp: write_shape_first)
    ultimately show "ShArray xs e = y \<and> r = r'" using ys by simp
  qed
next
  case (ShObject fs)
  show ?case
  proof (rule readable_atI)
    fix y and r r' :: bytes
    assume y: "shape_wf y" and eq: "write_shape (ShObject fs) @ r = write_shape y @ r'"
    from eq obtain gs where gs: "y = ShObject gs"
      by (cases y) (auto simp: tag_of_def)
    have items: "readable_at write_field (\<lambda>f. utf8_valid (fst f) \<and> shape_wf (snd f)) f"
      if "f \<in> set fs" for f
    proof (rule write_field_readable)
      have "snd f \<in> Basic_BNFs.snds f" by (rule snds.intros)
      then show "utf8_valid (fst f)" "readable_at write_shape shape_wf (snd f)"
        using ShObject that by auto
    qed
    have "fs = gs \<and> CHR 0x7D # r = CHR 0x7D # r'"
    proof (rule joined_readable [where a = "CHR 0x22" and b = "CHR 0x7D" and c = "CHR '',''",
          OF items])
      show "\<forall>g\<in>set gs. utf8_valid (fst g) \<and> shape_wf (snd g)" using y gs by simp
      show "\<exists>t. write_field f = CHR 0x22 # t" for f
        using write_json_string_first [of "fst f"] by (auto simp: write_field_def)
      show "join '','' (map write_field fs) @ CHR 0x7D # CHR 0x7D # r =
          join '','' (map write_field gs) @ CHR 0x7D # CHR 0x7D # r'"
        using eq gs by (simp add: write_shape_object tag_of_def del: write_shape.simps)
    qed auto
    then show "ShObject fs = y \<and> r = r'" using gs by simp
  qed
qed (rule readable_atI, case_tac y, simp_all add: tag_of_def)+

lemma canonical_bytes_inj:
  "shape_wf a \<Longrightarrow> shape_wf b \<Longrightarrow> canonical_bytes a = canonical_bytes b \<longleftrightarrow> a = b"
  using readable_atD [OF write_shape_readable, of a b "[]" "[]"]
  by (auto simp: canonical_bytes_def)

lemma fingerprint_preimage_inj:
  "shape_wf a \<Longrightarrow> shape_wf b \<Longrightarrow> fingerprint_preimage a = fingerprint_preimage b \<longleftrightarrow> a = b"
  by (simp add: fingerprint_preimage_def canonical_bytes_inj)

section \<open>Bucket keys\<close>

text \<open>\<open>usize::next_power_of_two\<close>\<close>

fun next_power_of_two :: "nat \<Rightarrow> nat" where
  "next_power_of_two n = (if n \<le> 1 then 1 else 2 * next_power_of_two ((n + 1) div 2))"

declare next_power_of_two.simps [simp del]

definition fieldband :: "nat \<Rightarrow> nat" where
  "fieldband n = (let band = (if n = 0 then 0 else next_power_of_two n) in band mod 2 ^ 32)"

definition bucket_key :: "(bytes \<Rightarrow> bytes) \<Rightarrow> (bytes \<Rightarrow> bytes) \<Rightarrow> shape_summary \<Rightarrow> bytes" where
  "bucket_key sha256 hexlower summary =
     (let band = fieldband (top_level_fields summary);
          joined = join [CHR 0x00] (top_keys_sorted summary);
          hex = hexlower (sha256 joined);
          reqhash8 = take 8 hex
      in ''deblob:index:'' @ nat_dec band @ '':'' @ nat_dec (depth summary) @ '':'' @ reqhash8)"

definition band_depth_prefix :: "nat \<Rightarrow> nat \<Rightarrow> bytes" where
  "band_depth_prefix band d = ''deblob:index:'' @ nat_dec band @ '':'' @ nat_dec d @ '':*''"

lemma next_power_of_two_bounds:
  "0 < n \<Longrightarrow> (\<exists>k. next_power_of_two n = 2 ^ k) \<and> n \<le> next_power_of_two n \<and> next_power_of_two n < 2 * n"
proof (induction n rule: next_power_of_two.induct)
  case (1 n)
  show ?case
  proof (cases "n \<le> 1")
    case True
    with 1 show ?thesis by (simp add: next_power_of_two.simps [of n] exI [of _ 0])
  next
    case False
    let ?m = "(n + 1) div 2"
    from False have IH: "(\<exists>k. next_power_of_two ?m = 2 ^ k) \<and> ?m \<le> next_power_of_two ?m \<and>
        next_power_of_two ?m < 2 * ?m"
      by (intro "1.IH") auto
    then obtain k where k: "next_power_of_two ?m = 2 ^ k" by blast
    have e: "next_power_of_two n = 2 * next_power_of_two ?m"
      using False by (simp add: next_power_of_two.simps [of n])
    have m: "n \<le> 2 * ?m" "?m * 2 \<le> n + 1" by auto
    have "2 \<le> next_power_of_two ?m" if "2 \<le> ?m"
      using IH that by linarith
    then have even: "even (next_power_of_two ?m)" if "2 \<le> ?m"
      using that k by (cases k) auto
    have "next_power_of_two ?m < n"
    proof (cases "2 \<le> ?m")
      case True
      have "next_power_of_two ?m \<noteq> n" if "2 * ?m = n + 1"
        using even [OF True] that by presburger
      then show ?thesis using IH m by linarith
    next
      case False
      with IH m \<open>\<not> n \<le> 1\<close> show ?thesis by linarith
    qed
    moreover have "next_power_of_two n = 2 ^ Suc k" using e k by simp
    ultimately show ?thesis using IH e m by (intro conjI) (blast, linarith, linarith)
  qed
qed

lemma split_nat_dec:
  assumes "nat_dec a @ CHR '':'' # r = nat_dec b @ CHR '':'' # r'"
  shows "a = b \<and> r = r'"
proof -
  have "split_once (CHR '':'') (nat_dec a @ CHR '':'' # r) = Some (nat_dec a, r)"
    "split_once (CHR '':'') (nat_dec b @ CHR '':'' # r') = Some (nat_dec b, r')"
    by (simp_all add: nat_dec_no_special)
  then have "Some (nat_dec a, r) = Some (nat_dec b, r')"
    unfolding assms by simp
  then show ?thesis by simp
qed

end
