(* ===== verification/Json_Print.thy ===== *)
theory Json_Print
  imports Json_Valid Canon
begin

text \<open>
  The string writer of \<open>canon.rs\<close> and the string scanner of \<open>parse.rs\<close> agree: what
  \<open>write_json_string\<close> produces for a valid text, the scanner reads back.
\<close>

lemma hex_val_digit: "d < 16 \<Longrightarrow> hex_val (hex_digit d) = Some d"
  by (simp add: hex_val_def byte_val_hex_digit Let_def)

lemma read_hex4_digits: "read_hex4 s = read_hex (Suc (Suc (Suc (Suc 0)))) 0 s"
  by (simp add: read_hex4_def eval_nat_numeral)

lemma read_hex4_hex4: "n < 256 \<Longrightarrow> read_hex4 (hex4 n @ r) = Inr (n, r)"
  by (simp add: read_hex4_digits hex4_def hex_val_digit)

lemma read_unicode_escape_hex4:
  "n < 128 \<Longrightarrow> read_unicode_escape (hex4 n @ r) = Inr (n, r)"
  by (simp add: read_unicode_escape_def read_hex4_hex4 from_u32_def is_scalar_def)

lemma scan_escaped:
  "scan_string_loop buf (concat (map (\<lambda>b. escape_char [b]) s) @ CHR 0x22 # r) = Inr (buf @ s, r)"
proof (induction s arbitrary: buf)
  case Nil
  show ?case by (simp add: scan_string_loop.simps)
next
  case (Cons b s)
  let ?t = "concat (map (\<lambda>b. escape_char [b]) s) @ CHR 0x22 # r"
  have "scan_string_loop buf (escape_char [b] @ ?t) = scan_string_loop (buf @ [b]) ?t"
  proof (cases b rule: escape_byte_cases)
    case 1
    then have "simple_escape b = Some b" by (auto simp: simple_escape_def)
    with 1 show ?thesis by (simp add: scan_string_loop.simps [of buf])
  next
    case 2
    then have "encode_utf8 (byte_val b) = [b]"
      by (simp add: encode_utf8_def byte_val_def)
    moreover have "simple_escape (CHR ''u'') = None" by (simp add: simple_escape_def)
    ultimately show ?thesis
      using 2 by (simp add: scan_string_loop.simps [of buf] read_unicode_escape_hex4)
  next
    case 3
    have "\<not> byte_val b < 0x20"
    proof
      assume "byte_val b < 0x20"
      with 3 show False by (simp add: escape_char_def)
    qed
    with 3 show ?thesis by (simp add: scan_string_loop.simps [of buf])
  qed
  with Cons show ?case by simp
qed

lemma scan_written:
  assumes "utf8_valid s"
  shows "scan_raw_string (write_json_string s @ r) = Inr (s, r)"
  using assms scan_escaped [of "[]" s r]
  by (simp add: scan_raw_string_def write_json_string_bytes bump_def peek_def)

lemma parse_key_written:
  "utf8_valid s \<Longrightarrow> length s \<le> max_key_len L \<Longrightarrow> parse_key L (write_json_string s @ r) = Inr (s, r)"
  by (simp add: parse_key_def scan_written)

lemma parse_string_written:
  "utf8_valid s \<Longrightarrow> length s \<le> max_string_len L \<Longrightarrow> parse_string L (write_json_string s @ r) = Inr (s, r)"
  by (simp add: parse_string_def scan_written)

text \<open>
  The bounded parser accepts every document within its limits: the compact JSON text of a
  valid value parses to that value (\<open>parse_render\<close>).
\<close>

section \<open>Compact JSON\<close>

fun render :: "node \<Rightarrow> bytes" where
  "render NodeNull = ''null''"
| "render (NodeBool b) = (if b then ''true'' else ''false'')"
| "render (NodeNumber t) = t"
| "render (NodeString v) = write_json_string v"
| "render (NodeArray items t) = CHR ''['' # join '','' (map render items) @ '']''"
| "render (NodeObject flds) =
     CHR 0x7B # join '','' (map (\<lambda>(k, v). write_json_string k @ CHR '':'' # render v) flds) @ [CHR 0x7D]"

fun complete :: "node \<Rightarrow> bool" where
  "complete (NodeArray items t) = (\<not> t \<and> list_all complete items)"
| "complete (NodeObject flds) = list_all (\<lambda>(k, v). complete v) flds"
| "complete _ = True"

section \<open>Numbers\<close>

text \<open>What may follow a number without becoming part of it.\<close>

definition stops :: "bytes \<Rightarrow> bool" where
  "stops r \<longleftrightarrow> (case r of [] \<Rightarrow> True
     | c # _ \<Rightarrow> \<not> is_ascii_digit c \<and> c \<noteq> CHR ''.'' \<and> c \<noteq> CHR ''e'' \<and> c \<noteq> CHR ''E'')"

definition no_digit :: "bytes \<Rightarrow> bool" where
  "no_digit r \<longleftrightarrow> (case r of [] \<Rightarrow> True | c # _ \<Rightarrow> \<not> is_ascii_digit c)"

lemma skip_digits_append:
  "list_all is_ascii_digit t \<Longrightarrow> no_digit r \<Longrightarrow> skip_digits (t @ r) = r"
  by (cases r) (simp_all add: skip_digits_def no_digit_def list_all_iff dropWhile_append)

lemma digits_cons: "digits t \<longleftrightarrow> (\<exists>c u. t = c # u \<and> is_ascii_digit c \<and> list_all is_ascii_digit u)"
  by (cases t) (auto simp: digits_def)

lemma peek_digit_append: "digits t \<Longrightarrow> peek_digit (t @ r)"
  by (auto simp: digits_cons peek_digit_def)

lemma digit_not_minus: "is_ascii_digit c \<Longrightarrow> c \<noteq> CHR ''-''"
  by (auto simp: is_ascii_digit_def byte_val_def)

lemma number_int_append:
  assumes "m \<in> {[], ''-''}" "int_part i" "no_digit r"
  shows "number_int (m @ i @ r) = Inr r"
proof -
  have "is_ascii_digit (CHR ''0'')" by (simp add: is_ascii_digit_def byte_val_def)
  then obtain c u where i: "i = c # u" "is_ascii_digit c" "c = CHR ''0'' \<longrightarrow> u = []" "list_all is_ascii_digit u"
    using assms(2) unfolding int_part_def digits_cons by fastforce
  then have "number_int (i @ r) = Inr r"
    using assms(3) digit_not_minus [of c]
    by (auto simp: number_int_def Let_def bump_def skip_digits_append)
  moreover have "number_int (''-'' @ i @ r) = Inr r"
    using i assms(3) by (auto simp: number_int_def Let_def bump_def skip_digits_append)
  ultimately show ?thesis using assms(1) by auto
qed

lemma number_frac_append:
  assumes "frac_part f" "stops r \<or> (\<exists>c u. r = c # u \<and> (c = CHR ''e'' \<or> c = CHR ''E''))"
  shows "number_frac (f @ r) = Inr r"
proof -
  have n: "no_digit r" using assms(2)
    by (auto simp: no_digit_def stops_def is_ascii_digit_def byte_val_def split: list.splits)
  show ?thesis
  proof (cases "f = []")
    case True
    then show ?thesis using assms(2) by (cases r) (auto simp: number_frac_def stops_def)
  next
    case False
    then obtain t where "f = CHR ''.'' # t" "digits t"
      using assms(1) by (cases f) (auto simp: frac_part_def)
    then show ?thesis using n
      by (simp add: number_frac_def Let_def peek_digit_append skip_digits_append digits_def)
  qed
qed

lemma number_exp_append:
  assumes "exp_part e" "stops r"
  shows "number_exp (e @ r) = Inr r"
proof -
  have n: "no_digit r" using assms(2) by (auto simp: no_digit_def stops_def split: list.splits)
  show ?thesis
  proof (cases e)
    case Nil
    then show ?thesis using assms(2) by (cases r) (auto simp: number_exp_def stops_def)
  next
    case (Cons c t)
    with assms(1) have c: "c = CHR ''e'' \<or> c = CHR ''E''"
      and t: "digits t \<or> (\<exists>g u. t = g # u \<and> (g = CHR ''+'' \<or> g = CHR ''-'') \<and> digits u)"
      by (auto simp: exp_part_def) (metis digits_def hd_Cons_tl list.sel(2))+
    from t show ?thesis
    proof
      assume t: "digits t"
      then obtain x u where x: "t = x # u" "is_ascii_digit x" by (auto simp: digits_cons)
      then have "x \<noteq> CHR ''+''" "x \<noteq> CHR ''-''" by (auto simp: is_ascii_digit_def byte_val_def)
      then show ?thesis
        using c Cons x(1) n peek_digit_append [OF t, of r] skip_digits_append [of t r] t
        by (auto simp: number_exp_def Let_def digits_def)
    next
      assume "\<exists>g u. t = g # u \<and> (g = CHR ''+'' \<or> g = CHR ''-'') \<and> digits u"
      then show ?thesis
        using c Cons n
        by (auto simp: number_exp_def Let_def skip_digits_append digits_def peek_digit_append)
    qed
  qed
qed


lemma utf8_valid_ascii:
  assumes "list_all (\<lambda>b. byte_val b < 128) s"
  shows "utf8_valid s"
proof -
  have "utf8_chars s = Some (map (\<lambda>b. [b]) s)" using assms
  proof (induction s)
    case (Cons b s)
    then have "utf8_first (b # s) = Some ([b], s)" by (simp add: utf8_first_def)
    with Cons show ?case by (simp add: utf8_chars.simps [of "b # s"])
  qed simp
  then show ?thesis by (simp add: utf8_valid_def)
qed

lemma json_number_ascii:
  assumes "json_number t" shows "list_all (\<lambda>b. byte_val b < 128) t"
proof -
  have digit: "byte_val c < 128" if "is_ascii_digit c" for c
    using that by (simp add: is_ascii_digit_def)
  have ds: "list_all (\<lambda>b. byte_val b < 128) u" if "digits u" for u
    using that digit by (auto simp: digits_def list_all_iff)
  have ch: "byte_val (CHR ''-'') < 128" "byte_val (CHR ''+'') < 128" "byte_val (CHR ''.'') < 128"
    "byte_val (CHR ''e'') < 128" "byte_val (CHR ''E'') < 128" "byte_val (CHR ''0'') < 128"
    by (simp_all add: byte_val_def)
  obtain m i f e where t: "t = m @ i @ f @ e" "m \<in> {[], ''-''}" "int_part i" "frac_part f" "exp_part e"
    using assms unfolding json_number_def by blast
  have "list_all (\<lambda>b. byte_val b < 128) i"
    using t(3) ds ch by (auto simp: int_part_def)
  moreover have "list_all (\<lambda>b. byte_val b < 128) f"
    using t(4) ds ch by (cases f) (auto simp: frac_part_def)
  moreover have "list_all (\<lambda>b. byte_val b < 128) e"
  proof (cases e)
    case (Cons c u)
    then show ?thesis
      using t(5) ds [of u] ds [of "tl u"] ch by (cases u) (auto simp: exp_part_def digits_def)
  qed simp
  ultimately show ?thesis using t(1,2) ch by auto
qed

lemma parse_number_append:
  assumes "json_number t" "stops r"
  shows "parse_number (t @ r) = Inr (NodeNumber t, r)"
proof -
  obtain m i f e where t: "t = m @ i @ f @ e" "m \<in> {[], ''-''}" "int_part i" "frac_part f" "exp_part e"
    using assms(1) unfolding json_number_def by blast
  have e: "stops (e @ r) \<or> (\<exists>c u. e @ r = c # u \<and> (c = CHR ''e'' \<or> c = CHR ''E''))"
    using t(5) assms(2) by (cases e) (auto simp: exp_part_def)
  have ne: "no_digit (e @ r)"
    using e by (auto simp: no_digit_def stops_def is_ascii_digit_def byte_val_def split: list.splits)
  have "no_digit (f @ e @ r)"
  proof (cases f)
    case (Cons c u)
    with t(4) have "c = CHR ''.''" by (simp add: frac_part_def)
    with Cons show ?thesis by (simp add: no_digit_def is_ascii_digit_def byte_val_def)
  qed (use ne in simp)
  then have "number_int (t @ r) = Inr (f @ e @ r)"
    using number_int_append [OF t(2,3)] t(1) by simp
  moreover have "number_frac (f @ e @ r) = Inr (e @ r)"
    by (rule number_frac_append [OF t(4) e])
  moreover have "number_exp (e @ r) = Inr r"
    by (rule number_exp_append [OF t(5) assms(2)])
  ultimately show ?thesis
    using utf8_valid_ascii [OF json_number_ascii [OF assms(1)]]
    by (simp add: parse_number_def Let_def)
qed

lemma json_number_first:
  assumes "json_number t"
  obtains c u where "t = c # u" "c = CHR ''-'' \<or> is_ascii_digit c"
proof -
  have "is_ascii_digit (CHR ''0'')" by (simp add: is_ascii_digit_def byte_val_def)
  then show thesis
    using assms that unfolding json_number_def int_part_def digits_cons by fastforce
qed

section \<open>Values\<close>

lemma digit_plain:
  assumes "c = CHR ''-'' \<or> is_ascii_digit c"
  shows "c \<noteq> CHR 0x7B \<and> c \<noteq> CHR ''['' \<and> c \<noteq> CHR 0x22 \<and> c \<noteq> CHR ''t'' \<and> c \<noteq> CHR ''f'' \<and>
    c \<noteq> CHR ''n'' \<and> \<not> is_ws c \<and> c \<noteq> CHR '']''"
  using assms by (auto simp: is_ascii_digit_def byte_val_def is_ws_def)

text \<open>The text of a value starts with a byte that is not white space.\<close>

lemma render_first:
  assumes "node_ok L d n"
  obtains c u where "render n = c # u" "\<not> is_ws c" "c \<noteq> CHR '']''"
proof (cases n)
  case (NodeNumber t)
  with assms obtain c u where "t = c # u" "c = CHR ''-'' \<or> is_ascii_digit c"
    by (auto elim: json_number_first)
  then show thesis
    using that [of c u] NodeNumber digit_plain [of c] by simp
next
  case (NodeBool b)
  then show thesis using that by (cases b) (auto simp: is_ws_def)
qed (use that in \<open>auto simp: is_ws_def write_json_string_def\<close>)

lemma skip_ws_first: "\<not> is_ws c \<Longrightarrow> skip_ws (c # r) = c # r"
  by (simp add: skip_ws_def)

lemma not_ws [simp]: "\<not> is_ws (CHR '','')" "\<not> is_ws (CHR '']'')" "\<not> is_ws (CHR 0x7D)"
  "\<not> is_ws (CHR '':'')" "\<not> is_ws (CHR 0x22)" "\<not> is_ws (CHR ''['')" "\<not> is_ws (CHR 0x7B)"
  by (simp_all add: is_ws_def)

lemma skip_ws_render: "node_ok L d n \<Longrightarrow> skip_ws (render n @ r) = render n @ r"
  by (erule render_first) (simp add: skip_ws_first)

lemma stops_sep [simp]: "stops (CHR '','' # r)" "stops (CHR '']'' # r)" "stops (CHR 0x7D # r)" "stops []"
  by (simp_all add: stops_def is_ascii_digit_def byte_val_def)

lemma pbind_results [simp]:
  "pbind (done_with x s) g = g x s" "pbind (plain (Inr (x, s))) g = g x s"
  by (simp_all add: pbind_def done_with_def plain_def)

definition reads :: "limits \<Rightarrow> nat \<Rightarrow> node \<Rightarrow> bool" where
  "reads L d n \<longleftrightarrow> (\<forall>r. stops r \<longrightarrow> (\<exists>f. parse_value f L d (render n @ r) = Some (Inr (n, r))))"

lemma readsD: "reads L d n \<Longrightarrow> stops r \<Longrightarrow> \<exists>f. parse_value f L d (render n @ r) = Some (Inr (n, r))"
  unfolding reads_def by blast

lemma parse_elems_more:
  "parse_elems f L d xs t i s = Some r \<Longrightarrow> f \<le> g \<Longrightarrow> parse_elems g L d xs t i s = Some r"
  using parse_refines [of f g] unfolding refines_def by (metis option.distinct(1))

lemma parse_fields_more:
  "parse_fields f L d xs t s = Some r \<Longrightarrow> f \<le> g \<Longrightarrow> parse_fields g L d xs t s = Some r"
  using parse_refines [of f g] unfolding refines_def by (metis option.distinct(1))

lemma parse_elems_render:
  assumes "xs \<noteq> []" "\<And>x. x \<in> set xs \<Longrightarrow> node_ok L d x \<and> reads L d x"
    "length items + length xs \<le> max_array_inspect L"
  shows "\<exists>f. parse_elems f L d items False (length items) (join '','' (map render xs) @ CHR '']'' # r) =
    Some (Inr (NodeArray (items @ xs) False, r))"
  using assms
proof (induction xs arbitrary: items)
  case (Cons x xs)
  let ?t = "if xs = [] then CHR '']'' # r else CHR '','' # join '','' (map render xs) @ CHR '']'' # r"
  have eq: "join '','' (map render (x # xs)) @ CHR '']'' # r = render x @ ?t"
    by (simp add: join_Cons)
  have "node_ok L d x" "reads L d x" using Cons.prems(2) by simp_all
  have st: "stops ?t" by simp
  obtain f where f: "parse_value f L d (render x @ ?t) = Some (Inr (x, ?t))"
    using readsD [OF \<open>reads L d x\<close>, of ?t] st by blast
  have ws: "skip_ws (render x @ ?t) = render x @ ?t" by (rule skip_ws_render) fact
  show ?case
  proof (cases "xs = []")
    case True
    with f ws Cons.prems(3) have "parse_elems (Suc f) L d items False (length items) (render x @ ?t) =
        Some (Inr (NodeArray (items @ [x]) False, r))"
      by (simp add: Let_def skip_ws_first bump_def)
    then show ?thesis using True eq by (metis)
  next
    case False
    obtain g where g: "parse_elems g L d (items @ [x]) False (length (items @ [x]))
        (join '','' (map render xs) @ CHR '']'' # r) = Some (Inr (NodeArray ((items @ [x]) @ xs) False, r))"
      using Cons.IH [of "items @ [x]"] False Cons.prems by auto
    let ?h = "max f g"
    have "parse_value ?h L d (render x @ ?t) = Some (Inr (x, ?t))"
      using f by (rule parse_value_more) simp
    moreover have "parse_elems ?h L d (items @ [x]) False (length (items @ [x]))
        (join '','' (map render xs) @ CHR '']'' # r) = Some (Inr (NodeArray ((items @ [x]) @ xs) False, r))"
      using g by (rule parse_elems_more) simp
    ultimately have "parse_elems (Suc ?h) L d items False (length items) (render x @ ?t) =
        Some (Inr (NodeArray (items @ x # xs) False, r))"
      using False ws Cons.prems(3) by (simp add: Let_def skip_ws_first bump_def)
    then show ?thesis using eq by metis
  qed
qed simp

text \<open>The fields of an object; \<open>render_field\<close> is one of them.\<close>

definition render_field :: "bytes \<times> node \<Rightarrow> bytes" where
  "render_field kv = write_json_string (fst kv) @ CHR '':'' # render (snd kv)"

lemma render_object:
  "render (NodeObject flds) = CHR 0x7B # join '','' (map render_field flds) @ [CHR 0x7D]"
proof -
  have "(\<lambda>(k, v). write_json_string k @ CHR '':'' # render v) = render_field"
    by (auto simp: fun_eq_iff render_field_def)
  then show ?thesis by simp
qed

lemma skip_ws_quoted: "skip_ws (write_json_string k @ r) = write_json_string k @ r"
  by (simp add: write_json_string_def skip_ws_first)

lemma peek_quoted: "peek (write_json_string k @ r) = Some (CHR 0x22)"
  by (simp add: write_json_string_def)

lemma parse_fields_render:
  assumes "fs \<noteq> []"
    "\<And>kv. kv \<in> set fs \<Longrightarrow> utf8_valid (fst kv) \<and> length (fst kv) \<le> max_key_len L \<and> reads L d (snd kv)"
    "distinct (map fst (flds @ fs))" "set seen = fst ` set flds"
    "length flds + length fs \<le> max_fields_per_object L"
  shows "\<exists>f. parse_fields f L d flds seen (join '','' (map render_field fs) @ CHR 0x7D # r) =
    Some (Inr (NodeObject (flds @ fs), r))"
  using assms
proof (induction fs arbitrary: flds seen)
  case (Cons kv fs)
  obtain k x where kv: "kv = (k, x)" by (cases kv)
  define t where "t = (if fs = [] then CHR 0x7D # r else CHR '','' # join '','' (map render_field fs) @ CHR 0x7D # r)"
  have eq: "join '','' (map render_field (kv # fs)) @ CHR 0x7D # r =
      write_json_string k @ CHR '':'' # render x @ t"
    by (simp add: join_Cons t_def render_field_def kv)
  have k: "utf8_valid k" "length k \<le> max_key_len L" "k \<notin> set seen" and x: "reads L d x"
    using Cons.prems(2) [of kv] Cons.prems(3,4) by (auto simp: kv)
  have "stops t" by (simp add: t_def)
  then obtain f where f: "parse_value f L d (render x @ t) = Some (Inr (x, t))"
    using readsD [OF x] by blast
  note steps = skip_ws_quoted peek_quoted parse_key_written [OF k(1,2)] k(3) skip_ws_first bump_def
  show ?case
  proof (cases "fs = []")
    case True
    with f Cons.prems(5) have "parse_fields (Suc f) L d flds seen
        (write_json_string k @ CHR '':'' # render x @ t) = Some (Inr (NodeObject (flds @ [(k, x)]), r))"
      by (simp add: Let_def steps t_def)
    then show ?thesis using True eq kv by metis
  next
    case False
    obtain g where g: "parse_fields g L d (flds @ [(k, x)]) (bs_insert k seen)
        (join '','' (map render_field fs) @ CHR 0x7D # r) = Some (Inr (NodeObject ((flds @ [(k, x)]) @ fs), r))"
      using Cons.IH [of "flds @ [(k, x)]" "bs_insert k seen"] False Cons.prems by (auto simp: kv)
    let ?h = "max f g"
    have "parse_value ?h L d (render x @ t) = Some (Inr (x, t))"
      using f by (rule parse_value_more) simp
    moreover have "parse_fields ?h L d (flds @ [(k, x)]) (bs_insert k seen)
        (join '','' (map render_field fs) @ CHR 0x7D # r) = Some (Inr (NodeObject ((flds @ [(k, x)]) @ fs), r))"
      using g by (rule parse_fields_more) simp
    ultimately have "parse_fields (Suc ?h) L d flds seen
        (write_json_string k @ CHR '':'' # render x @ t) = Some (Inr (NodeObject (flds @ kv # fs), r))"
      using False Cons.prems(5) by (simp add: Let_def steps t_def kv)
    then show ?thesis using eq by metis
  qed
qed simp

lemma render_reads: "node_ok L d n \<Longrightarrow> complete n \<Longrightarrow> reads L d n"
proof (induction n arbitrary: d)
  case NodeNull
  have "parse_value 1 L d (''null'' @ r) = Some (Inr (NodeNull, r))" for r
    by (simp add: skip_ws_first is_ws_def parse_literal_def skip_literal_def Let_def)
  then show ?case unfolding reads_def render.simps by blast
next
  case (NodeBool b)
  have "parse_value 1 L d (render (NodeBool b) @ r) = Some (Inr (NodeBool b, r))" for r
    by (cases b) (simp_all add: skip_ws_first is_ws_def parse_literal_def skip_literal_def Let_def)
  then show ?case unfolding reads_def by blast
next
  case (NodeNumber t)
  then obtain c u where c: "t = c # u" "c = CHR ''-'' \<or> is_ascii_digit c"
    by (auto elim: json_number_first)
  have "parse_value 1 L d (t @ r) = Some (Inr (NodeNumber t, r))" if "stops r" for r
    using parse_number_append [of t r] that NodeNumber.prems c(2) digit_plain [OF c(2)]
    by (auto simp: c(1) skip_ws_first Let_def)
  then show ?case unfolding reads_def render.simps by blast
next
  case (NodeString v)
  then have "parse_value 1 L d (write_json_string v @ r) = Some (Inr (NodeString v, r))" for r
    by (simp add: skip_ws_quoted peek_quoted parse_string_written Let_def)
  then show ?case unfolding reads_def render.simps by blast
next
  case (NodeArray xs t)
  have xs: "node_ok L (d + 1) x \<and> reads L (d + 1) x" if "x \<in> set xs" for x
    using NodeArray that by (auto simp: list_all_iff)
  have depth: "d + 1 \<le> max_depth L" "\<not> t" and len: "length xs \<le> max_array_inspect L"
    using NodeArray.prems by auto
  show ?case
    unfolding reads_def
  proof (intro allI impI)
    fix r
    show "\<exists>f. parse_value f L d (render (NodeArray xs t) @ r) = Some (Inr (NodeArray xs t, r))"
    proof (cases "xs = []")
      case True
      with depth have "parse_value (Suc (Suc 0)) L d (render (NodeArray xs t) @ r) = Some (Inr (NodeArray xs t, r))"
        by (simp add: skip_ws_first Let_def)
      then show ?thesis by blast
    next
      case False
      let ?s = "join '','' (map render xs) @ CHR '']'' # r"
      obtain f where f: "parse_elems f L (d + 1) [] False 0 ?s = Some (Inr (NodeArray xs False, r))"
        using parse_elems_render [OF False xs, of "[]" r] len by auto
      obtain x ys where cons: "xs = x # ys" using False by (cases xs) auto
      obtain c u where c: "render x = c # u" "\<not> is_ws c" "c \<noteq> CHR '']''"
        using render_first xs cons by (metis list.set_intros(1))
      then have "skip_ws ?s = ?s" "peek ?s \<noteq> Some (CHR '']'')"
        by (auto simp: cons join_Cons skip_ws_first)
      then have "parse_value (Suc (Suc f)) L d (render (NodeArray xs t) @ r) = Some (Inr (NodeArray xs t, r))"
        using f depth by (simp add: skip_ws_first Let_def)
      then show ?thesis by blast
    qed
  qed
next
  case (NodeObject fs)
  have fs: "utf8_valid (fst kv) \<and> length (fst kv) \<le> max_key_len L \<and> reads L (d + 1) (snd kv)"
    if "kv \<in> set fs" for kv
  proof -
    have "snd kv \<in> Basic_BNFs.snds kv" by (rule snds.intros)
    with NodeObject that show ?thesis by (fastforce simp: list_all_iff)
  qed
  have ok: "d + 1 \<le> max_depth L" "length fs \<le> max_fields_per_object L" "distinct (map fst fs)"
    using NodeObject.prems by auto
  show ?case
    unfolding reads_def render_object
  proof (intro allI impI)
    fix r
    let ?s = "join '','' (map render_field fs) @ CHR 0x7D # r"
    show "\<exists>f. parse_value f L d ((CHR 0x7B # join '','' (map render_field fs) @ [CHR 0x7D]) @ r) =
        Some (Inr (NodeObject fs, r))"
    proof (cases "fs = []")
      case True
      with ok have "parse_value (Suc (Suc 0)) L d ((CHR 0x7B # join '','' (map render_field fs) @ [CHR 0x7D]) @ r) =
          Some (Inr (NodeObject fs, r))"
        by (simp add: skip_ws_first Let_def)
      then show ?thesis by blast
    next
      case False
      obtain f where f: "parse_fields f L (d + 1) [] [] ?s = Some (Inr (NodeObject fs, r))"
        using parse_fields_render [OF False fs, of "[]" "[]" r] ok by auto
      obtain k x gs where "fs = (k, x) # gs" using False by (cases fs) auto
      then have "skip_ws ?s = ?s" "peek ?s = Some (CHR 0x22)"
        by (auto simp: join_Cons render_field_def skip_ws_quoted peek_quoted)
      then have "parse_value (Suc (Suc f)) L d ((CHR 0x7B # join '','' (map render_field fs) @ [CHR 0x7D]) @ r) =
          Some (Inr (NodeObject fs, r))"
        using f ok by (simp add: skip_ws_first Let_def)
      then show ?thesis by blast
    qed
  qed
qed

lemma parse_render_value:
  assumes "node_ok L 0 n" "complete n" "length (render n) \<le> max_bytes L"
  shows "parse_bounded (render n) L = Inr n"
proof -
  obtain f where "parse_value f L 0 (render n @ []) = Some (Inr (n, []))"
    using readsD [OF render_reads [OF assms(1,2)], of "[]"] by auto
  then show ?thesis
    using assms(3) by (intro parse_boundedI [where f = f and r = "[]"]) (simp_all add: skip_ws_def)
qed

end
