(* ===== verification/Fingerprint_Properties.thy ===== *)
theory Fingerprint_Properties
  imports Json_Print
begin

text \<open>
  What \<open>deblob-fingerprint\<close> and the identifiers of \<open>deblob-core\<close> guarantee: the parser
  terminates, enforces its limits and reads back every document within them; a fingerprint
  identifies the structure of a document, up to collisions of the hash; bucket keys and
  identifiers are well formed.
\<close>

text \<open>Limits and documents the witnesses compute with.\<close>

definition small_limits :: limits where
  "small_limits = \<lparr> max_bytes = 16, max_depth = 2, max_fields_per_object = 2, max_key_len = 2,
     max_string_len = 2, max_array_inspect = 2 \<rparr>"

lemma small_documents:
  "parse_bounded ''[1]'' small_limits = Inr (NodeArray [NodeNumber ''1''] False)"
  "parse_bounded ''[ 22]'' small_limits = Inr (NodeArray [NodeNumber ''22''] False)"
  by code_simp+

section \<open>The parser\<close>

text \<open>C1: \<open>parse_bounded\<close> returns on every input: fuel linear in the input always suffices,
  and every run with more fuel has the same result.\<close>

theorem parse_terminates:
  "parse_bounded_fuel (3 * length bs + 3 + extra) bs L = Some (parse_bounded bs L)"
  by (rule parse_bounded_any_fuel) simp



text \<open>C3: the parser accepts every document within its limits: the compact JSON text of a
  value that satisfies them (and has no truncated array) parses back to that value, whatever
  its strings contain.\<close>

theorem parse_render:
  assumes "node_ok L 0 n" "complete n" "length (render n) \<le> max_bytes L"
  shows "parse_bounded (render n) L = Inr n"
  using assms by (rule parse_render_value)

theorem parse_render_witness:
  "parse_bounded (render (NodeObject [(''k'', NodeArray [NodeNull, NodeBool True] False)]))
     (small_limits \<lparr> max_bytes := 20 \<rparr>) =
   Inr (NodeObject [(''k'', NodeArray [NodeNull, NodeBool True] False)])"
proof (rule parse_render)
  have "utf8_valid ''k''" by code_simp
  then show "node_ok (small_limits \<lparr> max_bytes := 20 \<rparr>) 0
      (NodeObject [(''k'', NodeArray [NodeNull, NodeBool True] False)])"
    by (simp add: small_limits_def)
qed code_simp+

section \<open>Fingerprints\<close>

text \<open>C4: two accepted documents have the same fingerprint exactly when they have the same
  structure (values, key order, white space and repeated or reordered array elements do not
  matter, everything else does), provided the hash does not collide on their canonical bytes.\<close>

theorem fingerprint_iff_same_structure:
  assumes "parse_bounded bs L = Inr a" "parse_bounded bs' L' = Inr b"
    and "inj_on sha {fingerprint_preimage (shape_of a), fingerprint_preimage (shape_of b)}"
  shows "fingerprint sha (shape_of a) = fingerprint sha (shape_of b) \<longleftrightarrow> same_structure a b"
proof -
  have ok: "node_ok L 0 a" "node_ok L' 0 b" using assms(1,2) parse_bounded_ok by blast+
  have "fingerprint sha (shape_of a) = fingerprint sha (shape_of b) \<longleftrightarrow>
      fingerprint_preimage (shape_of a) = fingerprint_preimage (shape_of b)"
    unfolding fingerprint_def by (intro inj_on_eq_iff [OF assms(3)]) simp_all
  also have "\<dots> \<longleftrightarrow> shape_of a = shape_of b"
    by (rule fingerprint_preimage_inj [OF shape_wf_shape_of [OF ok(1)] shape_wf_shape_of [OF ok(2)]])
  also have "\<dots> \<longleftrightarrow> same_structure a b" by (rule shape_of_eq_iff) (rule ok)+
  finally show ?thesis .
qed

theorem fingerprint_iff_same_structure_witness:
  "fingerprint rev (shape_of (NodeArray [NodeNumber ''1''] False)) =
     fingerprint rev (shape_of (NodeArray [NodeNumber ''22''] False)) \<longleftrightarrow>
   same_structure (NodeArray [NodeNumber ''1''] False) (NodeArray [NodeNumber ''22''] False)"
  by (rule fingerprint_iff_same_structure [OF small_documents]) (simp add: inj_on_def)

section \<open>Bucket keys\<close>

lemma top_level_fields_shape_of:
  "node_ok L 0 n \<Longrightarrow> top_level_fields (summarize (shape_of n)) \<le> max_fields_per_object L"
proof (cases n)
  case (NodeObject flds)
  let ?kvs = "map (\<lambda>(k, v). (k, shape_of v)) flds"
  have "length (bt_collect ?kvs) = card (fst ` set (bt_collect ?kvs))"
    using bt_ok_distinct [OF bt_ok_collect [of ?kvs]] by (simp add: distinct_card flip: set_map)
  also have "\<dots> \<le> length flds"
    using card_image_le [of "set ?kvs" fst] card_length [of ?kvs] by (simp add: keys_bt_collect)
  finally show "node_ok L 0 n \<Longrightarrow> ?thesis" using NodeObject by (simp add: summarize_def)
qed (simp_all add: summarize_def)

text \<open>C14: the bucket of an accepted document: its depth is at most one more than the depth
  limit, its field band is zero or the least power of two that holds its top-level fields, and
  the prefix scan of its band and depth visits it.\<close>

theorem bucket_of_document:
  assumes "parse_bounded bs L = Inr n" and "max_fields_per_object L \<le> 2 ^ 31"
  shows "let s = summarize (shape_of n); m = top_level_fields s in
    depth s \<le> max_depth L + 1 \<and> m \<le> max_fields_per_object L \<and>
    (if m = 0 then fieldband m = 0
     else (\<exists>k. fieldband m = 2 ^ k) \<and> m \<le> fieldband m \<and> fieldband m < 2 * m) \<and>
    (\<exists>p x. band_depth_prefix (fieldband m) (depth s) = p @ ''*'' \<and>
       bucket_key sha hexlower s = p @ x)"
proof -
  have ok: "node_ok L 0 n" using assms(1) parse_bounded_ok by blast
  define s m where "s = summarize (shape_of n)" and "m = top_level_fields s"
  have m: "m \<le> max_fields_per_object L"
    unfolding m_def s_def by (rule top_level_fields_shape_of [OF ok])
  have "if m = 0 then fieldband m = 0
     else (\<exists>k. fieldband m = 2 ^ k) \<and> m \<le> fieldband m \<and> fieldband m < 2 * m"
    using next_power_of_two_bounds [of m] m assms(2) by (auto simp: fieldband_def)
  moreover have "depth s \<le> max_depth L + 1"
    using shape_depth_shape_of [OF ok] by (simp add: s_def summarize_def split: prod.splits)
  moreover have "band_depth_prefix (fieldband m) (depth s) =
      (''deblob:index:'' @ nat_dec (fieldband m) @ '':'' @ nat_dec (depth s) @ '':'') @ ''*''"
    by (simp add: band_depth_prefix_def)
  moreover have "\<exists>x. bucket_key sha hexlower s =
      (''deblob:index:'' @ nat_dec (fieldband m) @ '':'' @ nat_dec (depth s) @ '':'') @ x"
    by (simp add: bucket_key_def m_def Let_def)
  ultimately show ?thesis using m unfolding Let_def s_def [symmetric] m_def [symmetric] by blast
qed

theorem bucket_of_document_witness:
  "let s = summarize (shape_of (NodeArray [NodeNumber ''1''] False)); m = top_level_fields s in
    depth s \<le> max_depth small_limits + 1 \<and> m \<le> max_fields_per_object small_limits \<and>
    (if m = 0 then fieldband m = 0
     else (\<exists>k. fieldband m = 2 ^ k) \<and> m \<le> fieldband m \<and> fieldband m < 2 * m) \<and>
    (\<exists>p x. band_depth_prefix (fieldband m) (depth s) = p @ ''*'' \<and> bucket_key rev id s = p @ x)"
  by (rule bucket_of_document [OF small_documents(1)]) (simp add: small_limits_def)

text \<open>A bucket key determines the field band and the depth it was built from.\<close>

theorem bucket_key_band_depth:
  assumes "bucket_key sha hexlower s = bucket_key sha' hexlower' s'"
  shows "fieldband (top_level_fields s) = fieldband (top_level_fields s') \<and> depth s = depth s'"
proof -
  have "nat_dec (fieldband (top_level_fields s)) @ CHR '':'' # nat_dec (depth s) @ CHR '':'' #
      take 8 (hexlower (sha (join [CHR 0x00] (top_keys_sorted s)))) =
    nat_dec (fieldband (top_level_fields s')) @ CHR '':'' # nat_dec (depth s') @ CHR '':'' #
      take 8 (hexlower' (sha' (join [CHR 0x00] (top_keys_sorted s'))))"
    using assms by (simp add: bucket_key_def Let_def)
  then show ?thesis using split_nat_dec by metis
qed

theorem bucket_key_band_depth_witness:
  "fieldband (top_level_fields \<lparr> top_level_fields = 3, depth = 1, top_keys_sorted = [''a''] \<rparr>) =
     fieldband (top_level_fields \<lparr> top_level_fields = 4, depth = 1, top_keys_sorted = [''b''] \<rparr>) \<and>
   depth \<lparr> top_level_fields = 3, depth = 1, top_keys_sorted = [''a''] \<rparr> =
     depth \<lparr> top_level_fields = 4, depth = 1, top_keys_sorted = [''b''] \<rparr>"
  by (rule bucket_key_band_depth [where sha = "\<lambda>_. []" and sha' = "\<lambda>_. []" and hexlower = id and hexlower' = id])
    (simp add: bucket_key_def fieldband_def next_power_of_two.simps)

section \<open>Identifiers\<close>

text \<open>The textual form of an identifier parses back to it, and an identifier of another
  kind is refused as having the wrong prefix.\<close>

theorem schema_id_round_trip:
  assumes "base32_ok enc dec" "length d = 32"
  shows "schema_id_parse dec (schema_str (schema_id_from_digest enc d)) = Inr (schema_id_from_digest enc d) \<and>
    candidate_id_parse dec (schema_str (schema_id_from_digest enc d)) = Inl (WrongPrefix ''cand_'')"
proof -
  have "strip_prefix ''cand_'' (digest_from enc ''sch_'' d) = None"
    by (simp add: digest_from_def)
  then show ?thesis
    using digest_from_parse [OF assms]
    by (simp add: schema_id_parse_def candidate_id_parse_def schema_id_from_digest_def digest_parse_def)
qed

theorem schema_id_round_trip_witness:
  "schema_id_parse letter_dec (schema_str (schema_id_from_digest letter_enc (replicate 32 (CHR 0x07)))) =
     Inr (schema_id_from_digest letter_enc (replicate 32 (CHR 0x07))) \<and>
   candidate_id_parse letter_dec (schema_str (schema_id_from_digest letter_enc (replicate 32 (CHR 0x07)))) =
     Inl (WrongPrefix ''cand_'')"
  by (rule schema_id_round_trip [OF letter_codec_ok]) simp

text \<open>Candidate identifiers are scoped to their source: two (source, digest) pairs share
  an identifier only when they are equal, provided the hash does not collide on their
  encodings. (The zero byte between the two cannot be confused with a byte of the source,
  since the digest has a fixed length.)\<close>

theorem candidate_id_scoped:
  assumes "base32_ok enc dec" "length d = 32" "length d' = 32"
    and "inj_on sha {candidate_preimage s d, candidate_preimage s' d'}"
  shows "candidate_id_from_source_and_digest sha enc s d = candidate_id_from_source_and_digest sha enc s' d'
    \<longleftrightarrow> s = s' \<and> d = d'"
proof -
  have "candidate_id_from_source_and_digest sha enc s d = candidate_id_from_source_and_digest sha enc s' d'
      \<longleftrightarrow> sha (candidate_preimage s d) = sha (candidate_preimage s' d')"
    by (simp add: candidate_id_from_source_and_digest_def candidate_id_from_digest_def
        digest_from_inj [OF assms(1)])
  also have "\<dots> \<longleftrightarrow> candidate_preimage s d = candidate_preimage s' d'"
    by (intro inj_on_eq_iff [OF assms(4)]) simp_all
  also have "\<dots> \<longleftrightarrow> s = s' \<and> d = d'" by (rule candidate_preimage_inj [OF assms(2,3)])
  finally show ?thesis .
qed

theorem candidate_id_scoped_witness:
  "candidate_id_from_source_and_digest id letter_enc ''a'' (replicate 32 (CHR 0x01)) =
     candidate_id_from_source_and_digest id letter_enc ''b'' (replicate 32 (CHR 0x01)) \<longleftrightarrow>
   ''a'' = ''b'' \<and> replicate 32 (CHR 0x01) = replicate 32 (CHR 0x01)"
  by (rule candidate_id_scoped [OF letter_codec_ok]) (simp_all add: inj_on_def)

end
