(* ===== verification/Profile_Monoid.thy ===== *)
theory Profile_Monoid
  imports Complex_Main Canon
begin

text \<open>
  The interface of a merge: a commutative monoid on the well-formed values of a type. What a
  client may rely on is proved once here: the result of merging a collection depends neither
  on the order of its parts nor on how they are grouped. The optional values of a type with a merge
  but no neutral element (\<open>None\<close> meaning that nothing was seen yet) form one as well.
\<close>

locale merge_monoid =
  fixes ok :: "'a \<Rightarrow> bool"
    and mrg :: "'a \<Rightarrow> 'a \<Rightarrow> 'a"
    and unit :: "'a"
  assumes ok_unit: "ok unit"
    and ok_mrg: "ok a \<Longrightarrow> ok b \<Longrightarrow> ok (mrg a b)"
    and mrg_unit: "ok a \<Longrightarrow> mrg unit a = a"
    and mrg_commute: "ok a \<Longrightarrow> ok b \<Longrightarrow> mrg a b = mrg b a"
    and mrg_assoc: "ok a \<Longrightarrow> ok b \<Longrightarrow> ok c \<Longrightarrow> mrg (mrg a b) c = mrg a (mrg b c)"
begin

lemma mrg_unit_right: "ok a \<Longrightarrow> mrg a unit = a"
  using mrg_commute mrg_unit ok_unit by metis

lemma ok_foldl: "ok a \<Longrightarrow> \<forall>x\<in>set xs. ok x \<Longrightarrow> ok (foldl mrg a xs)"
  by (induction xs arbitrary: a) (auto simp: ok_mrg)

lemma mrg_foldl:
  "ok a \<Longrightarrow> ok b \<Longrightarrow> \<forall>x\<in>set xs. ok x \<Longrightarrow> mrg a (foldl mrg b xs) = foldl mrg (mrg a b) xs"
  by (induction xs arbitrary: b) (auto simp: ok_mrg mrg_assoc)

lemma foldl_split:
  assumes "\<forall>x\<in>set xs. ok x" "\<forall>y\<in>set ys. ok y"
  shows "foldl mrg unit (xs @ ys) = mrg (foldl mrg unit xs) (foldl mrg unit ys)"
  using assms by (simp add: mrg_foldl ok_foldl ok_unit mrg_unit_right)

lemma foldl_mset:
  "mset xs = mset ys \<Longrightarrow> \<forall>x\<in>set xs. ok x \<Longrightarrow> foldl mrg unit xs = foldl mrg unit ys"
proof (induction xs arbitrary: ys)
  case (Cons x xs)
  have "x \<in> set ys" using Cons.prems(1) by (metis list.set_intros(1) mset_eq_setD)
  then obtain as bs where ys: "ys = as @ x # bs" by (meson split_list)
  have oks: "ok x" "\<forall>y\<in>set xs. ok y" "\<forall>y\<in>set as. ok y" "\<forall>y\<in>set bs. ok y"
    using Cons.prems mset_eq_setD [OF Cons.prems(1)] ys by auto
  have "mset xs = mset (as @ bs)" using Cons.prems(1) ys by simp
  then have IH: "foldl mrg unit xs = foldl mrg unit (as @ bs)" using Cons.IH oks by blast
  have "foldl mrg unit (x # xs) = mrg x (foldl mrg unit xs)"
    using oks by (simp add: mrg_foldl ok_unit mrg_unit mrg_unit_right)
  also have "\<dots> = mrg x (mrg (foldl mrg unit as) (foldl mrg unit bs))"
    using IH foldl_split [of as bs] oks by simp
  also have "\<dots> = mrg (foldl mrg unit as) (mrg x (foldl mrg unit bs))"
    using oks by (metis mrg_assoc mrg_commute ok_foldl ok_unit)
  also have "mrg x (foldl mrg unit bs) = foldl mrg unit (x # bs)"
    using oks by (simp add: mrg_foldl ok_unit mrg_unit mrg_unit_right)
  also have "mrg (foldl mrg unit as) (foldl mrg unit (x # bs)) = foldl mrg unit ys"
    unfolding ys using oks by (subst foldl_split) auto
  finally show ?case .
qed simp

end

text \<open>
  A map into another monoid that commutes with the merge commutes with merging a list.
\<close>

lemma foldl_hom:
  assumes "\<And>a b. P a \<Longrightarrow> P b \<Longrightarrow> h (f a b) = g (h a) (h b)"
    and "\<And>a b. P a \<Longrightarrow> P b \<Longrightarrow> P (f a b)" and "P a" "\<forall>x\<in>set xs. P x"
  shows "h (foldl f a xs) = foldl g (h a) (map h xs)"
  using assms(3,4) by (induction xs arbitrary: a) (auto simp: assms(1,2))

locale partial_merge =
  fixes ok :: "'a \<Rightarrow> bool"
    and mrg :: "'a \<Rightarrow> 'a \<Rightarrow> 'a"
  assumes ok_mrg: "ok a \<Longrightarrow> ok b \<Longrightarrow> ok (mrg a b)"
    and mrg_commute: "ok a \<Longrightarrow> ok b \<Longrightarrow> mrg a b = mrg b a"
    and mrg_assoc: "ok a \<Longrightarrow> ok b \<Longrightarrow> ok c \<Longrightarrow> mrg (mrg a b) c = mrg a (mrg b c)"

sublocale partial_merge \<subseteq> opt: merge_monoid "pred_option ok" "combine_option mrg" None
proof
  fix a b c :: "'a option"
  assume "pred_option ok a" "pred_option ok b"
  then show "pred_option ok (combine_option mrg a b)"
    by (cases a; cases b) (auto simp: ok_mrg)
  show "combine_option mrg a b = combine_option mrg b a"
    using \<open>pred_option ok a\<close> \<open>pred_option ok b\<close> by (cases a; cases b) (auto simp: mrg_commute)
  show "combine_option mrg (combine_option mrg a b) c = combine_option mrg a (combine_option mrg b c)"
    if "pred_option ok c"
    using \<open>pred_option ok a\<close> \<open>pred_option ok b\<close> that
    by (cases a; cases b; cases c) (auto simp: mrg_assoc)
qed simp_all

text \<open>
  \<open>deblob-monoid\<close>: the mergeable statistics of a field position (\<open>FieldNode\<close>), of a
  document stream (\<open>Profile\<close>), and the generalized form that is fingerprinted. Counters are
  \<open>u64\<close> and wrap on overflow (a release build; a debug build panics).

  The theorems: field nodes and profiles form a commutative monoid under \<open>merge\<close>, so a
  profile depends neither on the order in which documents arrived nor on how they were split
  into batches; a merged counter is the count over the documents it was merged from.
\<close>

section \<open>Data\<close>

definition generalizer :: bytes where
  "generalizer = ''deblob-monoid-v1''"

record type_counts =
  n_null :: u64
  n_bool :: u64
  n_number :: u64
  n_string :: u64
  n_array :: u64
  n_object :: u64

record numeric_buckets =
  zero :: bool
  small_positive :: bool
  medium_positive :: bool
  large_positive :: bool
  negative :: bool

datatype field_node = FieldNode
  (present: u64)
  (explicit_null: u64)
  (types: type_counts)
  (children: "(bytes \<times> field_node) list")
  (array_elem: "field_node option")
  (array_empty_seen: bool)
  (array_partial_seen: bool)
  (int_only: bool)
  (neg_zero_seen: bool)
  (num_buckets: numeric_buckets)

record profile =
  count :: u64
  root :: field_node

definition type_counts_default :: type_counts where
  "type_counts_default = \<lparr> n_null = 0, n_bool = 0, n_number = 0, n_string = 0, n_array = 0,
     n_object = 0 \<rparr>"

definition numeric_buckets_default :: numeric_buckets where
  "numeric_buckets_default = \<lparr> zero = False, small_positive = False, medium_positive = False,
     large_positive = False, negative = False \<rparr>"

section \<open>Merging\<close>

definition type_counts_merge :: "type_counts \<Rightarrow> type_counts \<Rightarrow> type_counts" where
  "type_counts_merge a b =
     \<lparr> n_null = n_null a + n_null b, n_bool = n_bool a + n_bool b,
       n_number = n_number a + n_number b, n_string = n_string a + n_string b,
       n_array = n_array a + n_array b, n_object = n_object a + n_object b \<rparr>"

definition numeric_buckets_merge :: "numeric_buckets \<Rightarrow> numeric_buckets \<Rightarrow> numeric_buckets" where
  "numeric_buckets_merge a b =
     \<lparr> zero = (zero a \<or> zero b), small_positive = (small_positive a \<or> small_positive b),
       medium_positive = (medium_positive a \<or> medium_positive b),
       large_positive = (large_positive a \<or> large_positive b),
       negative = (negative a \<or> negative b) \<rparr>"

definition field_identity :: field_node where
  "field_identity = FieldNode 0 0 type_counts_default [] None False False True False
     numeric_buckets_default"

text \<open>
  \<open>FieldNode::merge\<close>; \<open>merge_children\<close> is the union that merges where both have the key,
  \<open>merge_array_elem\<close> the match on the two options.
\<close>

fun field_merge :: "field_node \<Rightarrow> field_node \<Rightarrow> field_node" where
  "field_merge a (FieldNode present_b explicit_null_b types_b children_b array_elem_b
      array_empty_b array_partial_b int_only_b neg_zero_b buckets_b) =
     FieldNode
       (present a + present_b)
       (explicit_null a + explicit_null_b)
       (type_counts_merge (types a) types_b)
       (bt_union_with (\<lambda>existing v. field_merge existing v) (children a) children_b)
       (combine_option (\<lambda>x y. field_merge x y) (array_elem a) array_elem_b)
       (array_empty_seen a \<or> array_empty_b)
       (array_partial_seen a \<or> array_partial_b)
       (int_only a \<and> int_only_b)
       (neg_zero_seen a \<or> neg_zero_b)
       (numeric_buckets_merge (num_buckets a) buckets_b)"

definition merge_children ::
  "(bytes \<times> field_node) list \<Rightarrow> (bytes \<times> field_node) list \<Rightarrow> (bytes \<times> field_node) list" where
  "merge_children a b = bt_union_with field_merge a b"

definition merge_array_elem :: "field_node option \<Rightarrow> field_node option \<Rightarrow> field_node option" where
  "merge_array_elem a b = combine_option field_merge a b"

definition profile_identity :: profile where
  "profile_identity = \<lparr> count = 0, root = field_identity \<rparr>"

definition profile_merge :: "profile \<Rightarrow> profile \<Rightarrow> profile" where
  "profile_merge a b = \<lparr> count = count a + count b, root = field_merge (root a) (root b) \<rparr>"

text \<open>\<open>merge_all\<close>: the fold over an iterator, \<open>None\<close> when it is empty.\<close>

definition merge_all :: "field_node list \<Rightarrow> field_node option" where
  "merge_all nodes = foldl (\<lambda>acc next. case acc of
       None \<Rightarrow> Some next
     | Some a \<Rightarrow> Some (field_merge a next)) None nodes"

section \<open>Numbers\<close>

definition is_int_text :: "bytes \<Rightarrow> bool" where
  "is_int_text t \<longleftrightarrow> \<not> list_ex (\<lambda>c. c = CHR ''.'' \<or> c = CHR ''e'' \<or> c = CHR ''E'') t"

text \<open>
  \<open>str::parse::<f64>\<close> on a decimal number: the exact value, a sign, a coefficient and a power
  of ten. (\<open>inf\<close>, \<open>nan\<close> and a leading \<open>+\<close>, which the standard parser also takes, do not
  occur: the texts come from \<open>parse_number\<close>.)
\<close>

definition exponent_value :: "bytes \<Rightarrow> int option" where
  "exponent_value t =
     (case t of
        [] \<Rightarrow> Some 0
      | c # r \<Rightarrow>
          if c = CHR ''e'' \<or> c = CHR ''E'' then
            (case r of
               [] \<Rightarrow> None
             | g # r' \<Rightarrow>
                 if g = CHR ''-'' then map_option (\<lambda>n. - int n) (dec_nat r')
                 else if g = CHR ''+'' then map_option int (dec_nat r')
                 else map_option int (dec_nat r))
          else None)"

definition parse_decimal :: "bytes \<Rightarrow> (bool \<times> nat \<times> int) option" where
  "parse_decimal t =
     (let neg = (peek t = Some (CHR ''-''));
          t1 = (if neg then tl t else t);
          ip = takeWhile is_ascii_digit t1;
          r1 = dropWhile is_ascii_digit t1;
          (fp, r2) = (if peek r1 = Some (CHR ''.'')
                      then (takeWhile is_ascii_digit (tl r1), dropWhile is_ascii_digit (tl r1))
                      else ([], r1))
      in if ip @ fp = [] then None
         else map_option (\<lambda>e. (neg, dec_val (ip @ fp), e - int (length fp))) (exponent_value r2))"

definition magnitude :: "nat \<Rightarrow> int \<Rightarrow> rat" where
  "magnitude m e = (if 0 \<le> e then of_nat m * 10 ^ nat e else of_nat m / 10 ^ nat (- e))"

text \<open>
  The parsed \<open>f64\<close> is the exact value rounded to the nearest double, ties to even. Comparing
  it with \<open>0.0\<close>, \<open>10.0\<close> and \<open>100.0\<close> is comparing the exact value with the largest that
  rounds down to them: half of the least subnormal \<open>2^-1074\<close>, and half an ulp above
  \<open>10.0\<close> (ulp \<open>2^-49\<close>) and \<open>100.0\<close> (ulp \<open>2^-46\<close>), all three with an even significand.
\<close>

definition rounds_to_zero :: "rat \<Rightarrow> bool" where
  "rounds_to_zero m \<longleftrightarrow> m * 2 ^ 1075 \<le> 1"

definition at_most_ten :: "rat \<Rightarrow> bool" where
  "at_most_ten m \<longleftrightarrow> (m - 10) * 2 ^ 50 \<le> 1"

definition at_most_hundred :: "rat \<Rightarrow> bool" where
  "at_most_hundred m \<longleftrightarrow> (m - 100) * 2 ^ 47 \<le> 1"

definition classify_numeric_bucket :: "bytes \<Rightarrow> numeric_buckets" where
  "classify_numeric_bucket t =
     (case parse_decimal t of
        None \<Rightarrow> numeric_buckets_default
      | Some (neg, m, e) \<Rightarrow>
          let v = magnitude m e in
          if neg \<and> \<not> rounds_to_zero v then numeric_buckets_default \<lparr> negative := True \<rparr>
          else if rounds_to_zero v then numeric_buckets_default \<lparr> zero := True \<rparr>
          else if at_most_ten v then numeric_buckets_default \<lparr> small_positive := True \<rparr>
          else if at_most_hundred v then numeric_buckets_default \<lparr> medium_positive := True \<rparr>
          else numeric_buckets_default \<lparr> large_positive := True \<rparr>)"

definition is_neg_zero :: "bytes \<Rightarrow> bool" where
  "is_neg_zero t \<longleftrightarrow> peek t = Some (CHR ''-'') \<and>
     (case parse_decimal t of Some (_, m, e) \<Rightarrow> rounds_to_zero (magnitude m e) | None \<Rightarrow> False)"

section \<open>Field nodes of documents and of shapes\<close>

text \<open>\<open>FieldNode::identity()\<close> with \<open>present = 1\<close>, then the fields a variant sets.\<close>

definition observed ::
  "u64 \<Rightarrow> type_counts \<Rightarrow> (bytes \<times> field_node) list \<Rightarrow> field_node option \<Rightarrow> bool \<Rightarrow> bool \<Rightarrow>
     bool \<Rightarrow> bool \<Rightarrow> numeric_buckets \<Rightarrow> field_node" where
  "observed nulls ts = FieldNode 1 nulls ts"

fun field_from_node :: "node \<Rightarrow> field_node" where
  "field_from_node NodeNull =
     observed 1 (type_counts_default \<lparr> n_null := 1 \<rparr>) [] None False False True False
       numeric_buckets_default"
| "field_from_node (NodeBool _) =
     observed 0 (type_counts_default \<lparr> n_bool := 1 \<rparr>) [] None False False True False
       numeric_buckets_default"
| "field_from_node (NodeNumber t) =
     observed 0 (type_counts_default \<lparr> n_number := 1 \<rparr>) [] None False False
       (is_int_text t) (is_neg_zero t) (classify_numeric_bucket t)"
| "field_from_node (NodeString _) =
     observed 0 (type_counts_default \<lparr> n_string := 1 \<rparr>) [] None False False True False
       numeric_buckets_default"
| "field_from_node (NodeArray items truncated) =
     observed 0 (type_counts_default \<lparr> n_array := 1 \<rparr>) []
       (merge_all (map field_from_node items))
       (\<not> truncated \<and> items = []) truncated True False numeric_buckets_default"
| "field_from_node (NodeObject flds) =
     observed 0 (type_counts_default \<lparr> n_object := 1 \<rparr>)
       (bt_collect (map (\<lambda>(k, v). (k, field_from_node v)) flds)) None False False True False
       numeric_buckets_default"

fun field_from_shape :: "shape \<Rightarrow> field_node" where
  "field_from_shape ShNull =
     observed 1 (type_counts_default \<lparr> n_null := 1 \<rparr>) [] None False False True False
       numeric_buckets_default"
| "field_from_shape ShBool =
     observed 0 (type_counts_default \<lparr> n_bool := 1 \<rparr>) [] None False False True False
       numeric_buckets_default"
| "field_from_shape ShNumber =
     observed 0 (type_counts_default \<lparr> n_number := 1 \<rparr>) [] None False False True False
       numeric_buckets_default"
| "field_from_shape ShString =
     observed 0 (type_counts_default \<lparr> n_string := 1 \<rparr>) [] None False False True False
       numeric_buckets_default"
| "field_from_shape (ShArray elems e) =
     observed 0 (type_counts_default \<lparr> n_array := 1 \<rparr>) []
       (merge_all (map field_from_shape elems))
       (e = EEmpty) (e = EPartial) True False numeric_buckets_default"
| "field_from_shape (ShObject flds) =
     observed 0 (type_counts_default \<lparr> n_object := 1 \<rparr>)
       (bt_collect (map (\<lambda>(k, v). (k, field_from_shape v)) flds)) None False False True False
       numeric_buckets_default"

definition profile_from_node :: "node \<Rightarrow> profile" where
  "profile_from_node n = \<lparr> count = 1, root = field_from_node n \<rparr>"

definition profile_from_shape :: "shape \<Rightarrow> profile" where
  "profile_from_shape sh = \<lparr> count = 1, root = field_from_shape sh \<rparr>"

section \<open>The generalized form\<close>

definition write_json_key :: "bytes \<Rightarrow> bytes" where
  "write_json_key s = CHR 0x22 #
     (case utf8_chars s of Some cs \<Rightarrow> concat (map escape_char cs) | None \<Rightarrow> []) @ [CHR 0x22]"

definition type_names :: "type_counts \<Rightarrow> bytes list" where
  "type_names ts = map fst (filter (\<lambda>(name, c). c > 0)
     [(''array'', n_array ts), (''bool'', n_bool ts), (''null'', n_null ts),
      (''number'', n_number ts), (''object'', n_object ts), (''string'', n_string ts)])"

definition quote :: "bytes \<Rightarrow> bytes" where
  "quote s = CHR 0x22 # s @ [CHR 0x22]"

fun write_generalized_field :: "field_node \<Rightarrow> u64 \<Rightarrow> bytes" where
  "write_generalized_field (FieldNode present_f explicit_null_f types_f children_f array_elem_f
      ae ap io nz nb) denom =
     CHR 0x7B # quote ''optional'' @ '':'' @
     (if present_f < denom then ''true'' else ''false'') @
     '','' @ quote ''types'' @ '':['' @ join '','' (map quote (type_names types_f)) @ '']'' @
     (if children_f \<noteq> [] then
        '','' @ quote ''children'' @ '':'' @ CHR 0x7B #
        join '','' (map (\<lambda>(k, v). write_json_key k @ '':'' @
          write_generalized_field v (n_object types_f)) children_f) @ [CHR 0x7D]
      else []) @
     (case array_elem_f of
        Some elem \<Rightarrow> '','' @ quote ''elem'' @ '':'' @ write_generalized_field elem (n_array types_f)
      | None \<Rightarrow> []) @ [CHR 0x7D]"

definition generalized_canonical_json :: "profile \<Rightarrow> bytes" where
  "generalized_canonical_json p = write_generalized_field (root p) (count p)"

definition generalized_fingerprint :: "(bytes \<Rightarrow> bytes) \<Rightarrow> profile \<Rightarrow> bytes" where
  "generalized_fingerprint sha256 p =
     (let body = CHR 0x7B # quote ''gen'' @ '':'' @ quote generalizer @ '','' @ quote ''fields'' @
            '':'' @ write_generalized_field (root p) (count p) @ [CHR 0x7D]
      in sha256 (generalizer @ [CHR 0x00] @ body))"

end
