(* ===== verification/Profile_Facts.thy ===== *)
theory Profile_Facts
  imports Profile_Monoid
begin

text \<open>
  The laws of the profile merge: each of its layers is a commutative monoid (interpretations
  of \<open>merge_monoid\<close>), a document's profile is well formed, and merged counters count.
\<close>

section \<open>The layers of a merge\<close>

interpretation tcm: merge_monoid "\<lambda>_. True" type_counts_merge type_counts_default
  by unfold_locales
    (auto simp: type_counts_merge_def type_counts_default_def add.commute add.assoc)

interpretation nbm: merge_monoid "\<lambda>_. True" numeric_buckets_merge numeric_buckets_default
  by unfold_locales (auto simp: numeric_buckets_merge_def numeric_buckets_default_def)

text \<open>Well-formed field nodes: the children, at every level, are in strict key order.\<close>

fun field_wf :: "field_node \<Rightarrow> bool" where
  "field_wf (FieldNode _ _ _ cs el _ _ _ _ _) \<longleftrightarrow>
     bt_ok cs \<and> (\<forall>c\<in>set cs. field_wf (snd c)) \<and> pred_option field_wf el"

lemma field_wf_iff:
  "field_wf a \<longleftrightarrow> bt_ok (children a) \<and> (\<forall>c\<in>set (children a). field_wf (snd c)) \<and>
     pred_option field_wf (array_elem a)"
  by (cases a) simp

lemma field_wf_identity [simp]: "field_wf field_identity"
  by (simp add: field_identity_def)

lemma field_eqI:
  assumes "present a = present b" "explicit_null a = explicit_null b" "types a = types b"
    "children a = children b" "array_elem a = array_elem b"
    "array_empty_seen a = array_empty_seen b" "array_partial_seen a = array_partial_seen b"
    "int_only a = int_only b" "neg_zero_seen a = neg_zero_seen b" "num_buckets a = num_buckets b"
  shows "a = b"
  using assms by (cases a; cases b) simp

lemma field_merge_sel [simp]:
  "present (field_merge a b) = present a + present b"
  "explicit_null (field_merge a b) = explicit_null a + explicit_null b"
  "types (field_merge a b) = type_counts_merge (types a) (types b)"
  "children (field_merge a b) = merge_children (children a) (children b)"
  "array_elem (field_merge a b) = merge_array_elem (array_elem a) (array_elem b)"
  "array_empty_seen (field_merge a b) \<longleftrightarrow> array_empty_seen a \<or> array_empty_seen b"
  "array_partial_seen (field_merge a b) \<longleftrightarrow> array_partial_seen a \<or> array_partial_seen b"
  "int_only (field_merge a b) \<longleftrightarrow> int_only a \<and> int_only b"
  "neg_zero_seen (field_merge a b) \<longleftrightarrow> neg_zero_seen a \<or> neg_zero_seen b"
  "num_buckets (field_merge a b) = numeric_buckets_merge (num_buckets a) (num_buckets b)"
  by (cases b; simp add: merge_children_def merge_array_elem_def)+

declare field_merge.simps [simp del]

lemma map_of_merge_children:
  "bt_ok a \<Longrightarrow> bt_ok b \<Longrightarrow>
     map_of (merge_children a b) k = combine_option field_merge (map_of a k) (map_of b k)"
  by (simp add: merge_children_def map_of_bt_union_with bt_ok_distinct)

lemma bt_ok_merge_children [simp]: "bt_ok a \<Longrightarrow> bt_ok (merge_children a b)"
  by (auto simp: merge_children_def)

lemma merge_children_eqI:
  assumes "bt_ok a" "bt_ok b" "bt_ok c" "bt_ok d"
    and "\<And>k. combine_option field_merge (map_of a k) (map_of b k) =
      combine_option field_merge (map_of c k) (map_of d k)"
  shows "merge_children a b = merge_children c d"
  using assms by (intro bt_extensional) (auto simp: map_of_merge_children fun_eq_iff)

lemma bt_ok_map_of_iff: "bt_ok m \<Longrightarrow> map_of m k = Some v \<longleftrightarrow> (k, v) \<in> set m"
  by (simp add: bt_ok_distinct)

lemma combine_option_cases:
  "combine_option f x y = Some z \<longleftrightarrow>
     (x = Some z \<and> y = None) \<or> (x = None \<and> y = Some z) \<or>
     (\<exists>a b. x = Some a \<and> y = Some b \<and> z = f a b)"
  by (cases x; cases y) auto

lemma field_wf_child: "field_wf a \<Longrightarrow> map_of (children a) k = Some v \<Longrightarrow> field_wf v"
  using iffD1 [OF field_wf_iff, of a] map_of_SomeD [of "children a" k v] by fastforce

lemma field_wf_elem: "field_wf a \<Longrightarrow> array_elem a = Some v \<Longrightarrow> field_wf v"
  using iffD1 [OF field_wf_iff, of a] by simp

lemma field_wf_children: "field_wf a \<Longrightarrow> bt_ok (children a)"
  using iffD1 [OF field_wf_iff, of a] by simp

text \<open>
  To show a property of merging with \<open>b\<close> it is enough to show it where it holds of merging
  with every child and with the element of \<open>b\<close>.
\<close>

lemma field_node_induct:
  assumes step: "\<And>b. (\<And>k v. map_of (children b) k = Some v \<Longrightarrow> P v) \<Longrightarrow>
    (\<And>v. array_elem b = Some v \<Longrightarrow> P v) \<Longrightarrow> P b"
  shows "P b"
proof (induction b)
  case (FieldNode p en ts cs el ae ap io nz nb)
  show ?case
  proof (rule step)
    fix k v assume "map_of (children (FieldNode p en ts cs el ae ap io nz nb)) k = Some v"
    then have "(k, v) \<in> set cs" by (auto dest: map_of_SomeD)
    then show "P v" using FieldNode.IH(1) [of "(k, v)" v] snds.intros [of "(k, v)"] by simp
  next
    fix v assume "array_elem (FieldNode p en ts cs el ae ap io nz nb) = Some v"
    then show "P v" using FieldNode.IH(2) by simp
  qed
qed

lemma field_wf_merge: "field_wf a \<Longrightarrow> field_wf b \<Longrightarrow> field_wf (field_merge a b)"
proof (induction b arbitrary: a rule: field_node_induct)
  case (1 b)
  have "field_wf v" if "(k, v) \<in> set (merge_children (children a) (children b))" for k v
  proof -
    have "map_of (merge_children (children a) (children b)) k = Some v"
      using that 1 by (simp add: bt_ok_map_of_iff field_wf_children)
    then have "combine_option field_merge (map_of (children a) k) (map_of (children b) k) = Some v"
      using "1.prems" by (simp add: map_of_merge_children field_wf_children)
    then show ?thesis
      unfolding combine_option_cases
      using "1.IH"(1) "1.prems" field_wf_child by blast
  qed
  moreover have "pred_option field_wf (merge_array_elem (array_elem a) (array_elem b))"
    using "1.IH"(2) "1.prems" unfolding merge_array_elem_def
    by (cases "array_elem a"; cases "array_elem b") (auto dest: field_wf_elem)
  ultimately show ?case
    using "1.prems" by (intro iffD2 [OF field_wf_iff]) (auto simp: field_wf_children)
qed

lemma field_merge_commute: "field_wf a \<Longrightarrow> field_wf b \<Longrightarrow> field_merge a b = field_merge b a"
proof (induction b arbitrary: a rule: field_node_induct)
  case (1 b)
  have "combine_option field_merge (map_of (children a) k) (map_of (children b) k) =
      combine_option field_merge (map_of (children b) k) (map_of (children a) k)" for k
    using "1.prems" by (cases "map_of (children a) k"; cases "map_of (children b) k")
      (auto intro!: "1.IH"(1) dest: field_wf_child)
  then have "merge_children (children a) (children b) = merge_children (children b) (children a)"
    using "1.prems" by (intro merge_children_eqI) (auto simp: field_wf_children)
  moreover have "merge_array_elem (array_elem a) (array_elem b) =
      merge_array_elem (array_elem b) (array_elem a)"
    using "1.IH"(2) "1.prems" unfolding merge_array_elem_def
    by (cases "array_elem a"; cases "array_elem b") (auto dest: field_wf_elem)
  ultimately show ?case
    by (intro field_eqI) (auto simp: tcm.mrg_commute nbm.mrg_commute)
qed

lemma field_merge_assoc:
  "field_wf a \<Longrightarrow> field_wf b \<Longrightarrow> field_wf c \<Longrightarrow>
     field_merge (field_merge a b) c = field_merge a (field_merge b c)"
proof (induction c arbitrary: a b rule: field_node_induct)
  case (1 c)
  have ch: "combine_option field_merge
        (combine_option field_merge (map_of (children a) k) (map_of (children b) k))
        (map_of (children c) k) =
      combine_option field_merge (map_of (children a) k)
        (combine_option field_merge (map_of (children b) k) (map_of (children c) k))" for k
    using "1.prems" by (cases "map_of (children a) k"; cases "map_of (children b) k";
        cases "map_of (children c) k") (auto intro!: "1.IH"(1) dest: field_wf_child)
  have "merge_children (merge_children (children a) (children b)) (children c) =
      merge_children (children a) (merge_children (children b) (children c))"
    using "1.prems" by (intro merge_children_eqI)
      (auto simp: field_wf_children map_of_merge_children ch)
  moreover have "merge_array_elem (merge_array_elem (array_elem a) (array_elem b)) (array_elem c) =
      merge_array_elem (array_elem a) (merge_array_elem (array_elem b) (array_elem c))"
    using "1.prems" unfolding merge_array_elem_def
    by (cases "array_elem a"; cases "array_elem b"; cases "array_elem c")
      (auto intro!: "1.IH"(2) dest: field_wf_elem)
  ultimately show ?case
    by (intro field_eqI) (auto simp: tcm.mrg_assoc nbm.mrg_assoc add.assoc)
qed

lemma field_merge_identity: "field_wf a \<Longrightarrow> field_merge field_identity a = a"
proof (rule field_eqI)
  assume ok: "field_wf a"
  have "merge_children [] (children a) = children a"
    using ok by (intro bt_extensional) (auto simp: field_wf_children map_of_merge_children)
  then show "children (field_merge field_identity a) = children a"
    by (simp add: field_identity_def)
qed (simp_all add: field_identity_def merge_array_elem_def tcm.mrg_unit nbm.mrg_unit)

interpretation fm: merge_monoid field_wf field_merge field_identity
  by unfold_locales (auto intro: field_wf_merge field_merge_identity field_merge_commute
      field_merge_assoc)

interpretation fmo: partial_merge field_wf field_merge
  by unfold_locales (auto intro: field_wf_merge field_merge_commute field_merge_assoc)

definition profile_wf :: "profile \<Rightarrow> bool" where
  "profile_wf p \<longleftrightarrow> field_wf (root p)"

interpretation pm: merge_monoid profile_wf profile_merge profile_identity
proof
  fix a b c :: profile
  assume a: "profile_wf a"
  show "profile_merge profile_identity a = a"
    using a fm.mrg_unit [of "root a"]
    by (simp add: profile_wf_def profile_merge_def profile_identity_def)
  assume b: "profile_wf b"
  show "profile_wf (profile_merge a b)"
    using a b fm.ok_mrg by (simp add: profile_wf_def profile_merge_def)
  show "profile_merge a b = profile_merge b a"
    using a b fm.mrg_commute [of "root a" "root b"]
    by (simp add: profile_wf_def profile_merge_def add.commute)
  assume "profile_wf c"
  then show "profile_merge (profile_merge a b) c = profile_merge a (profile_merge b c)"
    using a b fm.mrg_assoc [of "root a" "root b" "root c"]
    by (simp add: profile_wf_def profile_merge_def add.assoc)
qed (simp add: profile_wf_def profile_identity_def)

section \<open>Documents\<close>

lemma merge_all_eq: "merge_all nodes = foldl (combine_option field_merge) None (map Some nodes)"
proof -
  have "foldl (\<lambda>acc next. case acc of None \<Rightarrow> Some next | Some a \<Rightarrow> Some (field_merge a next)) acc nodes
      = foldl (combine_option field_merge) acc (map Some nodes)" for acc
    by (induction nodes arbitrary: acc) (auto split: option.splits)
  then show ?thesis by (simp add: merge_all_def)
qed

lemma merge_all_wf: "\<forall>x\<in>set xs. field_wf x \<Longrightarrow> pred_option field_wf (merge_all xs)"
  unfolding merge_all_eq by (rule fmo.opt.ok_foldl) auto

lemma merge_all_mset:
  "mset xs = mset ys \<Longrightarrow> \<forall>x\<in>set xs. field_wf x \<Longrightarrow> merge_all xs = merge_all ys"
  unfolding merge_all_eq by (rule fmo.opt.foldl_mset) auto

lemma merge_all_append:
  "\<forall>x\<in>set xs. field_wf x \<Longrightarrow> \<forall>x\<in>set ys. field_wf x \<Longrightarrow>
     merge_all (xs @ ys) = combine_option field_merge (merge_all xs) (merge_all ys)"
  unfolding merge_all_eq map_append by (rule fmo.opt.foldl_split) auto

lemma field_wf_from_node: "field_wf (field_from_node n)"
proof (induction n)
  case (NodeArray items t)
  then show ?case using merge_all_wf [of "map field_from_node items"] by (simp add: observed_def)
next
  case (NodeObject flds)
  have "field_wf (snd e)" if "e \<in> set (bt_collect (map (\<lambda>(k, v). (k, field_from_node v)) flds))" for e
    using set_bt_collect_map [OF that] NodeObject snds.intros by fastforce
  then show ?case by (simp add: observed_def)
qed (simp_all add: observed_def)

lemma field_wf_from_shape: "field_wf (field_from_shape sh)"
proof (induction sh)
  case (ShArray xs e)
  then show ?case using merge_all_wf [of "map field_from_shape xs"] by (simp add: observed_def)
next
  case (ShObject flds)
  have "field_wf (snd e)" if "e \<in> set (bt_collect (map (\<lambda>(k, v). (k, field_from_shape v)) flds))" for e
    using set_bt_collect_map [OF that] ShObject snds.intros by fastforce
  then show ?case by (simp add: observed_def)
qed (simp_all add: observed_def)

lemma profile_wf_from_node [simp]: "profile_wf (profile_from_node n)"
  by (simp add: profile_wf_def profile_from_node_def field_wf_from_node)

lemma profile_wf_from_shape [simp]: "profile_wf (profile_from_shape n)"
  by (simp add: profile_wf_def profile_from_shape_def field_wf_from_shape)

text \<open>The profile of a stream of documents: each one's profile merged in, as it arrives.\<close>

definition profile_of :: "node list \<Rightarrow> profile" where
  "profile_of docs = foldl profile_merge profile_identity (map profile_from_node docs)"

lemma profile_of_wf: "profile_wf (profile_of docs)"
  unfolding profile_of_def by (rule pm.ok_foldl) (auto simp: pm.ok_unit)

lemma profile_of_mset: "mset ds = mset es \<Longrightarrow> profile_of ds = profile_of es"
  unfolding profile_of_def by (rule pm.foldl_mset) auto

lemma profile_of_append: "profile_of (ds @ es) = profile_merge (profile_of ds) (profile_of es)"
  unfolding profile_of_def map_append by (rule pm.foldl_split) auto

section \<open>What a merged profile counts\<close>

text \<open>The values that the documents which are objects have under a key.\<close>

fun value_at :: "bytes \<Rightarrow> node \<Rightarrow> node option" where
  "value_at k (NodeObject flds) = map_of flds k"
| "value_at k _ = None"

definition values_at :: "bytes \<Rightarrow> node list \<Rightarrow> node list" where
  "values_at k docs = List.map_filter (value_at k) docs"

definition is_object :: "node \<Rightarrow> bool" where
  "is_object n \<longleftrightarrow> (case n of NodeObject _ \<Rightarrow> True | _ \<Rightarrow> False)"

fun keys_distinct :: "node \<Rightarrow> bool" where
  "keys_distinct (NodeObject flds) = distinct (map fst flds)"
| "keys_distinct _ = True"

lemma child_from_node:
  assumes "keys_distinct n"
  shows "map_of (children (field_from_node n)) k = map_option field_from_node (value_at k n)"
proof (cases n)
  case (NodeObject flds)
  let ?h = "\<lambda>(k, v). (k, field_from_node v)"
  have "distinct (map fst (map ?h flds))"
    using assms NodeObject by (simp only: distinct_keys_map) simp
  then have "map_of (bt_collect (map ?h flds)) k = map_of (map ?h flds) k"
    by (simp add: map_of_bt_collect map_of_rev_distinct)
  also have "\<dots> = map_option field_from_node (map_of flds k)"
    by (induction flds) auto
  finally show ?thesis using NodeObject by (simp add: observed_def)
qed (simp_all add: observed_def)

text \<open>Selectors that turn a merge into an operation of their own.\<close>

lemma root_profile_of: "root (profile_of docs) = foldl field_merge field_identity (map field_from_node docs)"
proof -
  have "root (foldl profile_merge p (map profile_from_node docs)) =
      foldl field_merge (root p) (map field_from_node docs)" for p
    by (induction docs arbitrary: p) (auto simp: profile_merge_def profile_from_node_def)
  then show ?thesis by (simp add: profile_of_def profile_identity_def)
qed

lemma count_profile_of: "count (profile_of docs) = of_nat (length docs)"
proof -
  have "count (foldl profile_merge p (map profile_from_node docs)) = count p + of_nat (length docs)" for p
    by (induction docs arbitrary: p) (auto simp: profile_merge_def profile_from_node_def)
  then show ?thesis by (simp add: profile_of_def profile_identity_def)
qed

lemma present_from_node: "present (field_from_node n) = 1"
  by (cases n) (simp_all add: observed_def)

lemma present_profile_of: "present (root (profile_of docs)) = of_nat (length docs)"
proof -
  have "present (foldl field_merge a (map field_from_node docs)) = present a + of_nat (length docs)" for a
    by (induction docs arbitrary: a) (auto simp: present_from_node)
  then show ?thesis by (simp add: root_profile_of field_identity_def)
qed

lemma n_object_from_node: "n_object (types (field_from_node n)) = (if is_object n then 1 else 0)"
  by (cases n) (simp_all add: observed_def is_object_def type_counts_default_def)

lemma objects_profile_of:
  "n_object (types (root (profile_of docs))) = of_nat (length (filter is_object docs))"
proof -
  have "n_object (types (foldl field_merge a (map field_from_node docs))) =
      n_object (types a) + of_nat (length (filter is_object docs))" for a
    by (induction docs arbitrary: a) (auto simp: n_object_from_node type_counts_merge_def)
  then show ?thesis by (simp add: root_profile_of field_identity_def type_counts_default_def)
qed

lemma child_profile_of:
  assumes "\<forall>d\<in>set docs. keys_distinct d"
  shows "map_of (children (root (profile_of docs))) k = merge_all (map field_from_node (values_at k docs))"
proof -
  have "map_of (children (foldl field_merge a (map field_from_node docs))) k =
      foldl (combine_option field_merge) (map_of (children a) k)
        (map Some (map field_from_node (values_at k docs)))" if "field_wf a" for a
    using assms that
  proof (induction docs arbitrary: a)
    case (Cons d docs)
    have "map_of (children (field_merge a (field_from_node d))) k =
        combine_option field_merge (map_of (children a) k)
          (map_option field_from_node (value_at k d))"
      using Cons.prems child_from_node [of d k]
      by (simp add: map_of_merge_children field_wf_children field_wf_from_node)
    then show ?case
      using Cons.IH [of "field_merge a (field_from_node d)"] Cons.prems
      by (cases "value_at k d")
        (simp_all add: values_at_def map_filter_def field_wf_merge field_wf_from_node)
  qed (simp add: values_at_def map_filter_def)
  from this [of field_identity] show ?thesis
    by (simp add: merge_all_eq root_profile_of field_identity_def)
qed

lemma present_merge_all:
  "merge_all (map field_from_node ns) = Some f \<Longrightarrow> present f = of_nat (length ns)"
proof -
  have "map_option present (foldl (combine_option field_merge) acc (map Some (map field_from_node ns))) =
      (if acc = None \<and> ns = [] then None
       else Some ((case acc of None \<Rightarrow> 0 | Some a \<Rightarrow> present a) + of_nat (length ns)))" for acc
    by (induction ns arbitrary: acc) (auto simp: present_from_node combine_option_def split: option.splits)
  from this [of None] show "merge_all (map field_from_node ns) = Some f \<Longrightarrow> present f = of_nat (length ns)"
    by (auto simp: merge_all_eq split: if_splits)
qed

end
