(* ===== verification/Profile_Properties.thy ===== *)
theory Profile_Properties
  imports Profile_Facts
begin

text \<open>
  What \<open>deblob-monoid\<close> guarantees of a profile: it is a function of the multiset of documents
  it was built from, and its counters count them.
\<close>

text \<open>C12: merging is independent of order and batching: however a multiset of documents is
  split into two batches and ordered within each, merging the batches' profiles gives the
  profile of the whole, hence the same generalized fingerprint.\<close>

theorem profile_merge_any_split:
  assumes "mset ds = mset es + mset fs"
  shows "profile_of ds = profile_merge (profile_of es) (profile_of fs) \<and>
    generalized_fingerprint sha (profile_of ds) =
      generalized_fingerprint sha (profile_merge (profile_of es) (profile_of fs))"
proof -
  have "profile_of ds = profile_of (es @ fs)"
    using assms by (intro profile_of_mset) simp
  then show ?thesis by (simp add: profile_of_append)
qed

theorem profile_merge_any_split_witness:
  "profile_of [NodeNull, NodeBool True, NodeNull] =
     profile_merge (profile_of [NodeBool True]) (profile_of [NodeNull, NodeNull]) \<and>
   generalized_fingerprint rev (profile_of [NodeNull, NodeBool True, NodeNull]) =
     generalized_fingerprint rev (profile_merge (profile_of [NodeBool True]) (profile_of [NodeNull, NodeNull]))"
  by (rule profile_merge_any_split) (simp add: add_mset_commute)

text \<open>Merging is associative and commutative with an identity on every well-formed profile
  (children in key order), and keeps well-formedness.\<close>

theorem profile_merge_monoid:
  assumes "profile_wf p" "profile_wf q" "profile_wf r"
  shows "profile_merge (profile_merge p q) r = profile_merge p (profile_merge q r) \<and>
    profile_merge p q = profile_merge q p \<and> profile_merge profile_identity p = p \<and>
    profile_wf (profile_merge p q)"
  using pm.mrg_assoc [OF assms] pm.mrg_commute [OF assms(1,2)] pm.mrg_unit [OF assms(1)]
    pm.ok_mrg [OF assms(1,2)] by blast


theorem profile_merge_monoid_witness:
  "profile_merge (profile_merge (profile_of [NodeNull]) (profile_of [NodeBool True])) (profile_of []) =
     profile_merge (profile_of [NodeNull]) (profile_merge (profile_of [NodeBool True]) (profile_of [])) \<and>
   profile_merge (profile_of [NodeNull]) (profile_of [NodeBool True]) =
     profile_merge (profile_of [NodeBool True]) (profile_of [NodeNull]) \<and>
   profile_merge profile_identity (profile_of [NodeNull]) = profile_of [NodeNull] \<and>
   profile_wf (profile_merge (profile_of [NodeNull]) (profile_of [NodeBool True]))"
  by (rule profile_merge_monoid) (rule profile_of_wf)+


end
