(* ===== verification/Records.thy ===== *)
theory Records
  imports Ids "HOL-Library.Word"
begin

text \<open>
  The records of \<open>deblob-core\<close> that the stores keep: JSON values, the semantic metadata of a
  schema (\<open>semantic.rs\<close>), schemas, value profiles, candidates, samples and sources
  (\<open>ports.rs\<close>). Serialization is \<open>serde\<close>'s: a \<open>codec\<close> is an encoder with its decoder, and
  \<open>codec_ok\<close> states that decoding inverts encoding.
\<close>

section \<open>Serialization\<close>

record 'a codec =
  enc :: "'a \<Rightarrow> bytes"
  dec :: "bytes \<Rightarrow> 'a option"

definition codec_ok :: "'a codec \<Rightarrow> bool" where
  "codec_ok c \<longleftrightarrow> (\<forall>x. dec c (enc c x) = Some x)"

lemma codec_okD [simp]: "codec_ok c \<Longrightarrow> dec c (enc c x) = Some x"
  by (simp add: codec_ok_def)

lemma codec_ok_inj: "codec_ok c \<Longrightarrow> enc c x = enc c y \<longleftrightarrow> x = y"
  unfolding codec_ok_def by (metis option.inject)

text \<open>\<open>serde_json::Value\<close>; an object is a map, kept in key order.\<close>

datatype json =
    JNull
  | JBool bool
  | JNumber bytes
  | JString bytes
  | JArray "json list"
  | JObject "(bytes \<times> json) list"

fun as_str :: "json \<Rightarrow> bytes option" where
  "as_str (JString s) = Some s"
| "as_str _ = None"

fun as_array :: "json \<Rightarrow> json list option" where
  "as_array (JArray xs) = Some xs"
| "as_array _ = None"

fun as_object :: "json \<Rightarrow> (bytes \<times> json) list option" where
  "as_object (JObject m) = Some m"
| "as_object _ = None"

definition json_get :: "bytes \<Rightarrow> json \<Rightarrow> json option" where
  "json_get k v = (case as_object v of Some m \<Rightarrow> map_of m k | None \<Rightarrow> None)"

section \<open>Semantic metadata\<close>

datatype privacy_class = PublicClass | InternalClass | Pii | SecretClass

datatype unit_system = Ucum | Iso4217 | Registered

record unit_code =
  system :: unit_system
  code :: bytes

record meaning_code =
  vocabulary :: bytes
  meaning :: bytes

datatype enum_value = EnumNull | EnumBool bool | EnumNumber bytes | EnumString bytes

datatype enum_mapping = EnumMapping (mapped_value: enum_value) (mapped_meaning: meaning_code)

datatype path_segment = Key bytes | Wildcard

datatype temporal_kind = Instant | LocalDatetime | Date | Duration

datatype temporal_resolution = S | Ms | Us | Ns

datatype epoch_base = Unix | RegisteredEpoch bytes

record temporal =
  temporal_kind :: "temporal_kind option"
  epoch :: "epoch_base option"
  resolution :: "temporal_resolution option"

record field_semantics =
  canonical_field_id :: "bytes option"
  identifier_namespace :: "bytes option"
  field_unit :: "unit_code option"
  numeric_scale :: "int option"
  field_temporal :: "temporal option"
  enum_semantics :: "enum_mapping list option"

record field_entry =
  path :: "path_segment list"
  semantics :: field_semantics

record semantic_metadata =
  event_type :: "bytes option"
  field_entries :: "field_entry list"

section \<open>Schemas and value profiles\<close>

type_synonym family_version = u32

record value_profile_summary =
  vps_profile_id :: value_profile_id
  vps_leaf_count :: u32
  vps_observation_count :: u64
  vps_captured_at_ms :: int

record schema_record =
  rec_schema_id :: schema_id
  rec_family_id :: family_id
  rec_version :: family_version
  rec_canonical :: bytes
  rec_canonicalizer :: bytes
  rec_provenance :: json
  rec_semantic :: "semantic_metadata option"
  rec_semantic_fingerprint :: "semantic_id option"
  rec_privacy_class :: "privacy_class option"
  rec_value_profile_ref :: "value_profile_id option"
  rec_value_profile_summary :: "value_profile_summary option"
  rec_structural_simhash :: "u64 option"

record leaf_type_counts =
  l_null :: u64
  l_bool :: u64
  l_number :: u64
  l_string :: u64
  l_array :: u64
  l_object :: u64

record leaf_value_profile =
  leaf_path :: bytes
  present_count :: u64
  explicit_null_count :: u64
  leaf_types :: leaf_type_counts
  numeric_bucket_mask :: "8 word"
  leaf_int_only :: bool
  leaf_neg_zero_seen :: bool

record value_profile_snapshot =
  vp_profile_id :: value_profile_id
  vp_profile_version :: u32
  vp_bucket_boundaries_version :: u32
  vp_canonicalizer :: bytes
  vp_schema_canonical_digest :: bytes
  vp_candidate_id :: candidate_id
  vp_candidate_profile_digest :: bytes
  vp_observation_count :: u64
  vp_captured_at_ms :: int
  vp_leaves :: "leaf_value_profile list"

definition snapshot_summary :: "value_profile_snapshot \<Rightarrow> value_profile_summary" where
  "snapshot_summary s =
     \<lparr> vps_profile_id = vp_profile_id s, vps_leaf_count = of_nat (length (vp_leaves s)),
       vps_observation_count = vp_observation_count s,
       vps_captured_at_ms = vp_captured_at_ms s \<rparr>"

section \<open>Candidates, families, names\<close>

datatype candidate_state = ProvisionalState | StagedState | RejectedState

record candidate_record =
  cand_id :: candidate_id
  cand_profile :: json
  sample_count :: u64
  first_seen_ms :: int
  last_seen_ms :: int
  cand_state :: candidate_state
  cand_source :: "bytes option"

record family_ref =
  fr_family_id :: family_id
  fr_schema_id :: schema_id
  fr_version :: family_version
  fr_canonical :: bytes

record family_record =
  fam_id :: family_id
  current_version :: family_version

datatype name_write_outcome = NameApplied | SkippedHumanProtected | NameNotFound

end
