(* ===== verification/Redis_Service.thy ===== *)
theory Redis_Service
  imports Text_Bytes "HOL-Library.Word"
begin

text \<open>
  The Redis server as the stores use it. It is a service, not code of this repository: every
  definition that talks to it takes the record \<open>redis\<close> of its commands as an argument, over
  an abstract server state. The locale \<open>redis_service\<close> states what the documentation of the
  commands promises, through a view of the state as a keyspace. \<open>mem_redis\<close> is an
  implementation of that interface on association lists, on which witnesses compute.

  A command itself fails only where its documentation says so (\<open>HINCRBY\<close> on a value that is not
  an integer). A round trip may also fail as a whole: \<open>r_link\<close> says, for each kind of request and
  state, whether the server answers, refuses the request unexecuted (out of memory, read-only, not
  connected), or executes it and the reply is lost. Nothing is assumed of \<open>r_link\<close>, so what is proved
  holds for every pattern of failures. A script or transaction is executed as a whole or not at all.
  One key holds one type in Redis; the key families of this program are disjoint, so the view keeps
  one space per type.
\<close>

section \<open>Commands\<close>

datatype link = Answers | Refuses bytes | LosesReply bytes

record 'st redis =
  r_get :: "bytes \<Rightarrow> 'st \<Rightarrow> bytes option"
  r_set :: "bytes \<Rightarrow> bytes \<Rightarrow> 'st \<Rightarrow> 'st"
  r_del :: "bytes \<Rightarrow> 'st \<Rightarrow> 'st"
  r_expire :: "bytes \<Rightarrow> nat \<Rightarrow> 'st \<Rightarrow> 'st"
  r_exists :: "bytes \<Rightarrow> 'st \<Rightarrow> bool"
  r_hget :: "bytes \<Rightarrow> bytes \<Rightarrow> 'st \<Rightarrow> bytes option"
  r_hset :: "bytes \<Rightarrow> bytes \<Rightarrow> bytes \<Rightarrow> 'st \<Rightarrow> 'st"
  r_hdel :: "bytes \<Rightarrow> bytes \<Rightarrow> 'st \<Rightarrow> 'st"
  r_hincrby :: "bytes \<Rightarrow> bytes \<Rightarrow> int \<Rightarrow> 'st \<Rightarrow> (int \<times> 'st) option"
  r_sadd :: "bytes \<Rightarrow> bytes \<Rightarrow> 'st \<Rightarrow> 'st"
  r_srem :: "bytes \<Rightarrow> bytes \<Rightarrow> 'st \<Rightarrow> 'st"
  r_sismember :: "bytes \<Rightarrow> bytes \<Rightarrow> 'st \<Rightarrow> bool"
  r_smembers :: "bytes \<Rightarrow> 'st \<Rightarrow> bytes list"
  r_sscan :: "bytes \<Rightarrow> bytes \<Rightarrow> 'st \<Rightarrow> bytes list list"
  r_scan :: "bytes \<Rightarrow> 'st \<Rightarrow> bytes list list"
  r_xadd :: "bytes \<Rightarrow> (bytes \<times> bytes) list \<Rightarrow> 'st \<Rightarrow> 'st"
  r_xadd_maxlen :: "bytes \<Rightarrow> nat \<Rightarrow> (bytes \<times> bytes) list \<Rightarrow> 'st \<Rightarrow> 'st"
  r_link :: "bytes \<Rightarrow> 'st \<Rightarrow> link"

text \<open>
  \<open>r_sscan key pattern\<close> and \<open>r_scan pattern\<close> are the pages a complete iteration of
  \<open>SSCAN\<close> and \<open>SCAN\<close> returns. The patterns used are a literal prefix and a star.
\<close>

text \<open>One round trip: a request that changes the state, and one that only reads.\<close>

definition round_trip ::
  "'st redis \<Rightarrow> (bytes \<Rightarrow> 'e) \<Rightarrow> bytes \<Rightarrow> ('st \<Rightarrow> ('e + 'a) \<times> 'st) \<Rightarrow> 'st \<Rightarrow> ('e + 'a) \<times> 'st" where
  "round_trip R err request f st =
     (case r_link R request st of
        Answers \<Rightarrow> f st
      | Refuses msg \<Rightarrow> (Inl (err msg), st)
      | LosesReply msg \<Rightarrow> (Inl (err msg), snd (f st)))"

definition read_trip :: "'st redis \<Rightarrow> (bytes \<Rightarrow> 'e) \<Rightarrow> bytes \<Rightarrow> 'e + 'a \<Rightarrow> 'st \<Rightarrow> 'e + 'a" where
  "read_trip R err request x st =
     (case r_link R request st of Answers \<Rightarrow> x | Refuses msg \<Rightarrow> Inl (err msg) | LosesReply msg \<Rightarrow> Inl (err msg))"

text \<open>The same server over a connection that never fails.\<close>

definition answering :: "'st redis \<Rightarrow> 'st redis" where
  "answering R = R\<lparr> r_link := \<lambda>_ _. Answers \<rparr>"

lemma round_trip_cases:
  assumes "round_trip R err q f st = (res, st')"
  obtains (answers) "f st = (res, st')"
  | (refused) m where "r_link R q st = Refuses m" "res = Inl (err m)" "st' = st"
  | (lost) m r where "r_link R q st = LosesReply m" "res = Inl (err m)" "f st = (r, st')"
  using assms by (cases "f st") (auto simp: round_trip_def split: link.splits)

lemma round_trip_Inr: "round_trip R err q f st = (Inr x, st') \<Longrightarrow> f st = (Inr x, st')"
  by (auto simp: round_trip_def split: link.splits)

lemma round_trip_answers [simp]: "r_link R q st = Answers \<Longrightarrow> round_trip R err q f st = f st"
  by (simp add: round_trip_def)

lemma read_trip_answers [simp]: "r_link R q st = Answers \<Longrightarrow> read_trip R err q x st = x"
  by (simp add: read_trip_def)

lemma read_trip_Inr: "read_trip R err q x st = Inr y \<Longrightarrow> x = Inr y"
  by (simp add: read_trip_def split: link.splits)

text \<open>A connection that answers every request, and the messages of one that does not.\<close>

definition always_answers :: "'st redis \<Rightarrow> bool" where
  "always_answers R \<longleftrightarrow> (\<forall>q st. r_link R q st = Answers)"

definition link_fails :: "'st redis \<Rightarrow> bytes \<Rightarrow> bool" where
  "link_fails R m \<longleftrightarrow> (\<exists>q st. r_link R q st = Refuses m \<or> r_link R q st = LosesReply m)"

lemma link_failsI [intro]:
  "r_link R q st = Refuses m \<Longrightarrow> link_fails R m" "r_link R q st = LosesReply m \<Longrightarrow> link_fails R m"
  by (auto simp: link_fails_def)

lemma always_answersD [simp]:
  "always_answers R \<Longrightarrow> r_link R q st = Answers" "always_answers R \<Longrightarrow> \<not> link_fails R m"
  by (auto simp: always_answers_def link_fails_def)

lemma round_trip_outcome:
  assumes "round_trip R err q f st = (res, st')"
  shows "(res = fst (f st) \<and> st' = snd (f st)) \<or>
    (\<exists>m. link_fails R m \<and> res = Inl (err m) \<and> (st' = st \<or> st' = snd (f st)))"
  using assms by (cases rule: round_trip_cases) auto

lemma read_trip_outcome:
  "read_trip R err q x st = x \<or> (\<exists>m. link_fails R m \<and> read_trip R err q x st = Inl (err m))"
  by (auto simp: read_trip_def split: link.splits)

lemma link_answering [simp]: "r_link (answering R) q st = Answers"
  by (simp add: answering_def)

section \<open>The keyspace\<close>

record keyspace =
  strs :: "bytes \<Rightarrow> bytes option"
  hashes :: "bytes \<Rightarrow> bytes \<Rightarrow> bytes option"
  sets :: "bytes \<Rightarrow> bytes set"
  streams :: "bytes \<Rightarrow> (bytes \<times> bytes) list list"
  ttl :: "bytes \<Rightarrow> nat option"

definition key_exists :: "keyspace \<Rightarrow> bytes \<Rightarrow> bool" where
  "key_exists ks k \<longleftrightarrow> strs ks k \<noteq> None \<or> (\<exists>f. hashes ks k f \<noteq> None) \<or> sets ks k \<noteq> {} \<or>
     streams ks k \<noteq> []"

definition glob_free :: "bytes \<Rightarrow> bool" where
  "glob_free p \<longleftrightarrow> list_all (\<lambda>c. c \<notin> {CHR ''*'', CHR ''?'', CHR ''['', CHR '']'', CHR 0x5C, CHR ''^''}) p"

text \<open>\<open>HINCRBY\<close> on a field: the new value, or no result when it is not a 64-bit integer.\<close>

definition int64 :: "int \<Rightarrow> bool" where
  "int64 i \<longleftrightarrow> - (2 ^ 63) \<le> i \<and> i < 2 ^ 63"

definition incremented :: "bytes option \<Rightarrow> int \<Rightarrow> int option" where
  "incremented v n =
     (let cur = (case v of None \<Rightarrow> Some 0
                 | Some s \<Rightarrow> (case dec_int s of
                     Some i \<Rightarrow> if int_dec i = s \<and> int64 i then Some i else None
                   | None \<Rightarrow> None))
      in case cur of None \<Rightarrow> None | Some i \<Rightarrow> if int64 (i + n) then Some (i + n) else None)"

definition ks_hset :: "bytes \<Rightarrow> bytes \<Rightarrow> bytes option \<Rightarrow> keyspace \<Rightarrow> keyspace" where
  "ks_hset k f v ks = ks \<lparr> hashes := (hashes ks)(k := (hashes ks k)(f := v)) \<rparr>"

locale redis_service =
  fixes R :: "'st redis"
    and view :: "'st \<Rightarrow> keyspace"
  assumes get: "r_get R k st = strs (view st) k"
    and set: "view (r_set R k v st) =
      view st \<lparr> strs := (strs (view st))(k \<mapsto> v), ttl := (ttl (view st))(k := None) \<rparr>"
    and del: "view (r_del R k st) =
      view st \<lparr> strs := (strs (view st))(k := None), hashes := (hashes (view st))(k := \<lambda>_. None),
        sets := (sets (view st))(k := {}), streams := (streams (view st))(k := []),
        ttl := (ttl (view st))(k := None) \<rparr>"
    and expire: "key_exists (view st) k \<Longrightarrow>
      view (r_expire R k secs st) = view st \<lparr> ttl := (ttl (view st))(k \<mapsto> secs) \<rparr>"
    and expire_missing: "\<not> key_exists (view st) k \<Longrightarrow> view (r_expire R k secs st) = view st"
    and exists: "r_exists R k st \<longleftrightarrow> key_exists (view st) k"
    and hget: "r_hget R k f st = hashes (view st) k f"
    and hset: "view (r_hset R k f v st) = ks_hset k f (Some v) (view st)"
    and hdel: "view (r_hdel R k f st) = ks_hset k f None (view st)"
    and hincrby_None: "r_hincrby R k f n st = None \<longleftrightarrow> incremented (hashes (view st) k f) n = None"
    and hincrby_Some: "r_hincrby R k f n st = Some (i, st') \<Longrightarrow>
      incremented (hashes (view st) k f) n = Some i \<and>
      view st' = ks_hset k f (Some (int_dec i)) (view st)"
    and sadd: "view (r_sadd R k m st) =
      view st \<lparr> sets := (sets (view st))(k := insert m (sets (view st) k)) \<rparr>"
    and srem: "view (r_srem R k m st) =
      view st \<lparr> sets := (sets (view st))(k := sets (view st) k - {m}) \<rparr>"
    and sismember: "r_sismember R k m st \<longleftrightarrow> m \<in> sets (view st) k"
    and smembers: "List.set (r_smembers R k st) = sets (view st) k"
    and sscan: "glob_free p \<Longrightarrow> List.set (concat (r_sscan R k (p @ ''*'') st)) =
      {m \<in> sets (view st) k. \<exists>x. m = p @ x}"
    and scan: "glob_free p \<Longrightarrow> List.set (concat (r_scan R (p @ ''*'') st)) =
      {k. key_exists (view st) k \<and> (\<exists>x. k = p @ x)}"
    and xadd: "view (r_xadd R k e st) =
      view st \<lparr> streams := (streams (view st))(k := streams (view st) k @ [e]) \<rparr>"
    and xadd_maxlen: "\<exists>d. view (r_xadd_maxlen R k len e st) =
      view st \<lparr> streams := (streams (view st))(k := drop d (streams (view st) k @ [e])) \<rparr> \<and>
      (0 < d \<longrightarrow> len \<le> length (streams (view st) k @ [e]) - d)"
begin

lemmas reads = get hget exists sismember
lemmas writes = set del hset hdel sadd srem xadd

end

text \<open>The laws do not speak of the connection.\<close>

lemma redis_service_link: "redis_service R view \<Longrightarrow> redis_service (R\<lparr> r_link := l \<rparr>) view"
  unfolding redis_service_def by simp

section \<open>An implementation in memory\<close>

record mem =
  m_strs :: "(bytes \<times> bytes) list"
  m_hashes :: "(bytes \<times> (bytes \<times> bytes) list) list"
  m_sets :: "(bytes \<times> bytes list) list"
  m_streams :: "(bytes \<times> (bytes \<times> bytes) list list) list"
  m_ttl :: "(bytes \<times> nat) list"

definition mem_empty :: mem where
  "mem_empty = \<lparr> m_strs = [], m_hashes = [], m_sets = [], m_streams = [], m_ttl = [] \<rparr>"

definition lookup_list :: "bytes \<Rightarrow> (bytes \<times> 'a list) list \<Rightarrow> 'a list" where
  "lookup_list k m = (case map_of m k of Some xs \<Rightarrow> xs | None \<Rightarrow> [])"

definition without :: "bytes \<Rightarrow> (bytes \<times> 'a) list \<Rightarrow> (bytes \<times> 'a) list" where
  "without k m = filter (\<lambda>e. fst e \<noteq> k) m"

definition put :: "bytes \<Rightarrow> 'a \<Rightarrow> (bytes \<times> 'a) list \<Rightarrow> (bytes \<times> 'a) list" where
  "put k v m = (k, v) # without k m"

definition mem_view :: "mem \<Rightarrow> keyspace" where
  "mem_view m =
     \<lparr> strs = map_of (m_strs m),
       hashes = (\<lambda>k. map_of (lookup_list k (m_hashes m))),
       sets = (\<lambda>k. set (lookup_list k (m_sets m))),
       streams = (\<lambda>k. lookup_list k (m_streams m)),
       ttl = map_of (m_ttl m) \<rparr>"

definition mem_keys :: "mem \<Rightarrow> bytes list" where
  "mem_keys m = map fst (m_strs m) @
     filter (\<lambda>k. lookup_list k (m_hashes m) \<noteq> []) (map fst (m_hashes m)) @
     filter (\<lambda>k. lookup_list k (m_sets m) \<noteq> []) (map fst (m_sets m)) @
     filter (\<lambda>k. lookup_list k (m_streams m) \<noteq> []) (map fst (m_streams m))"

definition glob_match :: "bytes \<Rightarrow> bytes \<Rightarrow> bool" where
  "glob_match pat s \<longleftrightarrow> strip_prefix (butlast pat) s \<noteq> None"

definition mem_hset :: "bytes \<Rightarrow> bytes \<Rightarrow> bytes \<Rightarrow> mem \<Rightarrow> mem" where
  "mem_hset k f v m =
     m \<lparr> m_hashes := put k (put f v (lookup_list k (m_hashes m))) (m_hashes m) \<rparr>"

definition mem_redis :: "mem redis" where
  "mem_redis =
     \<lparr> r_get = (\<lambda>k m. map_of (m_strs m) k),
       r_set = (\<lambda>k v m. m \<lparr> m_strs := put k v (m_strs m), m_ttl := without k (m_ttl m) \<rparr>),
       r_del = (\<lambda>k m. m \<lparr> m_strs := without k (m_strs m), m_hashes := without k (m_hashes m),
         m_sets := without k (m_sets m), m_streams := without k (m_streams m),
         m_ttl := without k (m_ttl m) \<rparr>),
       r_expire = (\<lambda>k n m. if k \<in> set (mem_keys m) then m \<lparr> m_ttl := put k n (m_ttl m) \<rparr> else m),
       r_exists = (\<lambda>k m. k \<in> set (mem_keys m)),
       r_hget = (\<lambda>k f m. map_of (lookup_list k (m_hashes m)) f),
       r_hset = mem_hset,
       r_hdel = (\<lambda>k f m. m \<lparr> m_hashes := put k (without f (lookup_list k (m_hashes m))) (m_hashes m) \<rparr>),
       r_hincrby = (\<lambda>k f n m.
         (case incremented (map_of (lookup_list k (m_hashes m)) f) n of
            None \<Rightarrow> None
          | Some i \<Rightarrow> Some (i, mem_hset k f (int_dec i) m))),
       r_sadd = (\<lambda>k x m. m \<lparr> m_sets := put k (List.insert x (lookup_list k (m_sets m))) (m_sets m) \<rparr>),
       r_srem = (\<lambda>k x m. m \<lparr> m_sets := put k (removeAll x (lookup_list k (m_sets m))) (m_sets m) \<rparr>),
       r_sismember = (\<lambda>k x m. x \<in> set (lookup_list k (m_sets m))),
       r_smembers = (\<lambda>k m. lookup_list k (m_sets m)),
       r_sscan = (\<lambda>k pat m. [filter (glob_match pat) (lookup_list k (m_sets m))]),
       r_scan = (\<lambda>pat m. [filter (glob_match pat) (remdups (mem_keys m))]),
       r_xadd = (\<lambda>k e m. m \<lparr> m_streams := put k (lookup_list k (m_streams m) @ [e]) (m_streams m) \<rparr>),
       r_xadd_maxlen = (\<lambda>k len e m.
         let es = lookup_list k (m_streams m) @ [e]
         in m \<lparr> m_streams := put k (drop (length es - len) es) (m_streams m) \<rparr>),
       r_link = (\<lambda>_ _. Answers) \<rparr>"

lemma mem_link [simp]: "r_link mem_redis q m = Answers"
  by (simp add: mem_redis_def)

lemma mem_answers [simp]: "always_answers mem_redis"
  by (simp add: always_answers_def)

lemma map_of_without: "map_of (without k m) = (map_of m)(k := None)"
  by (induction m) (auto simp: without_def fun_eq_iff)

lemma map_of_put: "map_of (put k v m) = (map_of m)(k \<mapsto> v)"
  by (simp add: put_def map_of_without)

lemma lookup_put: "lookup_list k (put k' v m) = (if k = k' then v else lookup_list k m)"
  by (simp add: lookup_list_def map_of_put)

lemma lookup_without: "lookup_list k (without k' m) = (if k = k' then [] else lookup_list k m)"
  by (simp add: lookup_list_def map_of_without)

lemma lookup_list_key: "lookup_list k m \<noteq> [] \<Longrightarrow> k \<in> fst ` set m"
  by (metis lookup_list_def map_of_eq_None_iff option.simps(4))

lemma some_in_map_of: "(\<exists>f. map_of m f \<noteq> None) \<longleftrightarrow> m \<noteq> []"
  by (cases m) auto

lemma key_exists_mem: "key_exists (mem_view m) k \<longleftrightarrow> k \<in> set (mem_keys m)"
proof -
  have "map_of (m_strs m) k \<noteq> None \<longleftrightarrow> k \<in> fst ` set (m_strs m)"
    by (simp add: map_of_eq_None_iff)
  then show ?thesis
    unfolding key_exists_def mem_view_def mem_keys_def
    by (auto simp: some_in_map_of [unfolded not_None_eq] dest: lookup_list_key)
qed

lemma glob_match_star: "glob_match (p @ ''*'') s \<longleftrightarrow> (\<exists>x. s = p @ x)"
  by (auto simp: glob_match_def strip_prefix_Some_iff)

lemma mem_view_sel [simp]:
  "strs (mem_view m) = map_of (m_strs m)"
  "hashes (mem_view m) k = map_of (lookup_list k (m_hashes m))"
  "sets (mem_view m) k = set (lookup_list k (m_sets m))"
  "streams (mem_view m) k = lookup_list k (m_streams m)"
  "ttl (mem_view m) = map_of (m_ttl m)"
  by (simp_all add: mem_view_def)

interpretation memory: redis_service mem_redis mem_view
proof
  fix k f v e x and n :: nat and i j :: int and m m' :: mem
  show "r_get mem_redis k m = strs (mem_view m) k"
    by (simp add: mem_redis_def)
  show "r_hget mem_redis k f m = hashes (mem_view m) k f"
    by (simp add: mem_redis_def)
  show "r_exists mem_redis k m \<longleftrightarrow> key_exists (mem_view m) k"
    by (simp add: mem_redis_def key_exists_mem)
  show "mem_view (r_set mem_redis k v m) =
      mem_view m \<lparr> strs := (strs (mem_view m))(k \<mapsto> v), ttl := (ttl (mem_view m))(k := None) \<rparr>"
    by (simp add: mem_redis_def mem_view_def map_of_put map_of_without)
  show "mem_view (r_del mem_redis k m) =
      mem_view m \<lparr> strs := (strs (mem_view m))(k := None),
        hashes := (hashes (mem_view m))(k := \<lambda>_. None),
        sets := (sets (mem_view m))(k := {}), streams := (streams (mem_view m))(k := []),
        ttl := (ttl (mem_view m))(k := None) \<rparr>"
    by (auto simp: mem_redis_def mem_view_def map_of_without lookup_without fun_eq_iff)
  show "mem_view (r_expire mem_redis k n m) = mem_view m \<lparr> ttl := (ttl (mem_view m))(k \<mapsto> n) \<rparr>"
    if "key_exists (mem_view m) k"
    using that by (simp add: mem_redis_def mem_view_def map_of_put key_exists_mem [unfolded mem_view_def])
  show "mem_view (r_expire mem_redis k n m) = mem_view m" if "\<not> key_exists (mem_view m) k"
    using that by (simp add: mem_redis_def key_exists_mem)
  show "mem_view (r_hset mem_redis k f v m) = ks_hset k f (Some v) (mem_view m)"
    by (auto simp: mem_redis_def mem_view_def mem_hset_def ks_hset_def map_of_put lookup_put fun_eq_iff)
  show "mem_view (r_hdel mem_redis k f m) = ks_hset k f None (mem_view m)"
    by (auto simp: mem_redis_def mem_view_def ks_hset_def map_of_without lookup_put fun_eq_iff)
  show "r_hincrby mem_redis k f i m = None \<longleftrightarrow> incremented (hashes (mem_view m) k f) i = None"
    by (simp add: mem_redis_def split: option.splits)
  show "incremented (hashes (mem_view m) k f) i = Some j \<and>
      mem_view m' = ks_hset k f (Some (int_dec j)) (mem_view m)"
    if "r_hincrby mem_redis k f i m = Some (j, m')"
    using that
    by (auto simp: mem_redis_def mem_view_def mem_hset_def ks_hset_def map_of_put lookup_put fun_eq_iff
        split: option.splits)
  show "mem_view (r_sadd mem_redis k x m) =
      mem_view m \<lparr> sets := (sets (mem_view m))(k := insert x (sets (mem_view m) k)) \<rparr>"
    by (auto simp: mem_redis_def mem_view_def lookup_put fun_eq_iff)
  show "mem_view (r_srem mem_redis k x m) =
      mem_view m \<lparr> sets := (sets (mem_view m))(k := sets (mem_view m) k - {x}) \<rparr>"
    by (auto simp: mem_redis_def mem_view_def lookup_put fun_eq_iff)
  show "r_sismember mem_redis k x m \<longleftrightarrow> x \<in> sets (mem_view m) k"
    by (simp add: mem_redis_def)
  show "set (r_smembers mem_redis k m) = sets (mem_view m) k"
    by (simp add: mem_redis_def)
  show "set (concat (r_sscan mem_redis k (f @ ''*'') m)) = {x \<in> sets (mem_view m) k. \<exists>y. x = f @ y}"
    by (auto simp: mem_redis_def glob_match_star)
  show "set (concat (r_scan mem_redis (f @ ''*'') m)) = {k. key_exists (mem_view m) k \<and> (\<exists>x. k = f @ x)}"
    by (auto simp: mem_redis_def glob_match_star key_exists_mem)
  show "mem_view (r_xadd mem_redis k e m) =
      mem_view m \<lparr> streams := (streams (mem_view m))(k := streams (mem_view m) k @ [e]) \<rparr>"
    by (auto simp: mem_redis_def mem_view_def lookup_put fun_eq_iff)
  show "\<exists>d. mem_view (r_xadd_maxlen mem_redis k n e m) =
      mem_view m \<lparr> streams := (streams (mem_view m))(k := drop d (streams (mem_view m) k @ [e])) \<rparr> \<and>
      (0 < d \<longrightarrow> n \<le> length (streams (mem_view m) k @ [e]) - d)"
    by (rule exI [of _ "length (lookup_list k (m_streams m) @ [e]) - n"])
      (auto simp: mem_redis_def mem_view_def lookup_put fun_eq_iff Let_def)
qed

end
