(* ===== verification/Vault.thy ===== *)
theory Vault
  imports Records Redis_Service Canon
begin

text \<open>
  The permanent vault of \<open>deblob-redis\<close>: the publish and naming scripts (\<open>lua.rs\<close>), the
  registry over them (\<open>registry.rs\<close>) and the structural index (\<open>index.rs\<close>). A script runs
  atomically on the server, so it is a function of the server's state. A registry operation
  returns its result with the state it leaves. A call that writes may be refused or lose its reply
  (\<open>round_trip\<close>); the read-only calls and the rebuild of the index are modelled on a connection that
  answers.
\<close>

section \<open>Keys\<close>

definition schema_key :: "schema_id \<Rightarrow> bytes" where
  "schema_key i = ''deblob:schema:'' @ schema_str i"

definition family_key :: "family_id \<Rightarrow> bytes" where
  "family_key i = ''deblob:family:'' @ family_str i"

definition alias_key :: "candidate_id \<Rightarrow> bytes" where
  "alias_key i = ''deblob:alias:'' @ candidate_str i"

definition published_key :: "schema_id \<Rightarrow> bytes" where
  "published_key i = ''deblob:published:'' @ schema_str i"

definition audit_key :: bytes where
  "audit_key = ''deblob:audit:log''"

definition schema_index_key :: bytes where
  "schema_index_key = ''deblob:schemas''"

definition index_key_pattern :: bytes where
  "index_key_pattern = ''deblob:index:*''"

section \<open>Index members\<close>

definition id_body :: "schema_id \<Rightarrow> bytes" where
  "id_body i = (case strip_prefix ''sch_'' (schema_str i) of Some b \<Rightarrow> b | None \<Rightarrow> schema_str i)"

definition bucket_member :: "schema_id \<Rightarrow> bytes" where
  "bucket_member i = id_body i @ ''='' @ schema_str i"

definition variant_member :: "bytes \<Rightarrow> schema_id \<Rightarrow> bytes" where
  "variant_member fp_b32 i = fp_b32 @ ''='' @ schema_str i"

definition encode_variants_field :: "bytes list codec \<Rightarrow> (bytes \<times> bytes) list \<Rightarrow> bytes" where
  "encode_variants_field C variants = enc C (map (\<lambda>(bucket, fp). bucket @ ''='' @ fp) variants)"

definition decode_variants_field :: "bytes list codec \<Rightarrow> bytes \<Rightarrow> (bytes \<times> bytes) list" where
  "decode_variants_field C json =
     List.map_filter (split_once (CHR ''='')) (case dec C json of Some es \<Rightarrow> es | None \<Rightarrow> [])"

definition fp_match_pattern :: "schema_id \<Rightarrow> bytes" where
  "fp_match_pattern i = (id_body i @ ''='') @ ''*''"

definition split_member :: "bytes \<Rightarrow> (bytes \<times> bytes) option" where
  "split_member m = split_once (CHR ''='') m"

section \<open>The publish script\<close>

datatype script_error = Immutability | AliasConflict | ScriptNotFound | TerminalState | ServerError bytes

text \<open>\<open>KEYS\<close> and \<open>ARGV\<close> of one call, in their order.\<close>

record publish_call =
  k_schema :: bytes
  k_family :: bytes
  k_alias :: bytes
  k_index :: bytes
  k_audit :: bytes
  k_published :: bytes
  k_schema_index :: bytes
  k_variants :: "bytes list"
  a_schema_json :: bytes
  a_canonical :: bytes
  a_canonicalizer :: bytes
  a_family_id :: bytes
  a_schema_id :: bytes
  a_bucket_member :: bytes
  a_actor :: bytes
  a_reason :: bytes
  a_now_ms :: bytes
  a_variants_json :: bytes
  a_variant_members :: "bytes list"

text \<open>\<open>tostring\<close> of a Lua number that may be \<open>nil\<close>.\<close>

fun lua_tostring :: "int option \<Rightarrow> bytes" where
  "lua_tostring (Some i) = int_dec i"
| "lua_tostring None = ''nil''"

text \<open>The two checks, made before anything is written.\<close>

definition publish_guard :: "'st redis \<Rightarrow> publish_call \<Rightarrow> 'st \<Rightarrow> script_error option" where
  "publish_guard R c st =
     (let existing_canonical = r_hget R (k_schema c) ''canonical'' st;
          existing_canonicalizer = r_hget R (k_schema c) ''canonicalizer'' st;
          existing_alias = r_get R (k_alias c) st
      in if existing_canonical \<noteq> None \<and>
            (existing_canonical \<noteq> Some (a_canonical c) \<or>
             existing_canonicalizer \<noteq> Some (a_canonicalizer c))
         then Some Immutability
         else if existing_alias \<noteq> None \<and> existing_alias \<noteq> Some (a_schema_id c)
         then Some AliasConflict
         else None)"

text \<open>
  The version: the one recorded on the first publish, or the next of the family. The outer
  \<open>None\<close> is the abort of a failing \<open>HINCRBY\<close>, the inner one Lua's \<open>nil\<close>.
\<close>

definition publish_version :: "'st redis \<Rightarrow> publish_call \<Rightarrow> 'st \<Rightarrow> (int option \<times> 'st) option" where
  "publish_version R c st =
     (case r_get R (k_published c) st of
        Some published \<Rightarrow> Some (dec_int published, st)
      | None \<Rightarrow>
          (case r_hincrby R (k_family c) ''next_version'' 1 st of
             None \<Rightarrow> None
           | Some (version, st1) \<Rightarrow>
               let st2 = r_hset R (k_family c) (''v:'' @ int_dec version) (a_schema_id c) st1;
                   st3 = r_hset R (k_family c) ''family_id'' (a_family_id c) st2;
                   st4 = r_set R (k_published c) (int_dec version) st3
               in Some (Some version, st4)))"

definition hset_all :: "'st redis \<Rightarrow> bytes \<Rightarrow> (bytes \<times> bytes) list \<Rightarrow> 'st \<Rightarrow> 'st" where
  "hset_all R k fvs st = foldl (\<lambda>st (f, v). r_hset R k f v st) st fvs"

definition sadd_all :: "'st redis \<Rightarrow> (bytes \<times> bytes) list \<Rightarrow> 'st \<Rightarrow> 'st" where
  "sadd_all R kms st = foldl (\<lambda>st (k, m). r_sadd R k m st) st kms"

definition publish_record :: "'st redis \<Rightarrow> publish_call \<Rightarrow> int option \<Rightarrow> 'st \<Rightarrow> 'st" where
  "publish_record R c version st =
     hset_all R (k_schema c)
       [(''record'', a_schema_json c), (''canonical'', a_canonical c),
        (''canonicalizer'', a_canonicalizer c), (''family'', a_family_id c),
        (''version'', lua_tostring version), (''bucket'', k_index c)] st"

definition publish_script ::
  "'st redis \<Rightarrow> publish_call \<Rightarrow> 'st \<Rightarrow> (script_error + int) \<times> 'st" where
  "publish_script R c st0 =
     (case publish_guard R c st0 of
        Some e \<Rightarrow> (Inl e, st0)
      | None \<Rightarrow>
          let existing_canonical = r_hget R (k_schema c) ''canonical'' st0;
              existing_alias = r_get R (k_alias c) st0
          in
          (case publish_version R c st0 of
             None \<Rightarrow> (Inl (ServerError ''ERR hash value is not an integer''), st0)
           | Some (version, st1) \<Rightarrow>
               let st2 = (if existing_canonical = None then publish_record R c version st1 else st1);
                   st3 = (if existing_alias = None then r_set R (k_alias c) (a_schema_id c) st2 else st2);
                   st4 = r_sadd R (k_index c) (a_bucket_member c) st3;
                   st5 = r_sadd R (k_schema_index c) (a_schema_id c) st4;
                   st6 = r_hset R (k_schema c) ''variants'' (a_variants_json c) st5;
                   st7 = sadd_all R (zip (k_variants c) (a_variant_members c)) st6;
                   st8 = r_xadd R (k_audit c)
                     [(''actor'', a_actor c), (''reason'', a_reason c),
                      (''schema'', a_schema_id c), (''ts'', a_now_ms c)] st7
               in ((case version of Some v \<Rightarrow> Inr v
                    | None \<Rightarrow> Inl (ServerError ''TypeError'')), st8)))"

section \<open>The naming script\<close>

definition set_name_script ::
  "'st redis \<Rightarrow> bytes \<Rightarrow> bytes \<Rightarrow> bytes \<Rightarrow> bytes \<Rightarrow> bytes \<Rightarrow> 'st \<Rightarrow> bytes \<times> 'st" where
  "set_name_script R key label source meta_json now_ms st =
     (if r_hget R key ''record'' st = None then (''not_found'', st)
      else if source \<noteq> ''human'' \<and> r_hget R key ''name_source'' st = Some ''human''
      then (''skipped_human'', st)
      else
        let st1 = hset_all R key
              [(''name_label'', label), (''name_source'', source), (''name_updated_ms'', now_ms)] st;
            st2 = (if meta_json = [] then r_hdel R key ''name_meta'' st1
                   else r_hset R key ''name_meta'' meta_json st1)
        in (''applied'', st2))"

section \<open>The registry\<close>

fun map_script_error :: "script_error \<Rightarrow> core_error" where
  "map_script_error Immutability =
     ImmutabilityViolation ''canonical identity differs from stored record: IMMUTABILITY''"
| "map_script_error AliasConflict =
     Conflict ''alias already points at a different schema: ALIAS_CONFLICT''"
| "map_script_error ScriptNotFound = RegistryUnavailable ''NOT_FOUND''"
| "map_script_error TerminalState = RegistryUnavailable ''TERMINAL_STATE''"
| "map_script_error (ServerError msg) = RegistryUnavailable msg"

text \<open>\<open>health\<close> is the gate's flag, when a gate is attached.\<close>

definition gate_ok :: "bool option \<Rightarrow> bool" where
  "gate_ok health \<longleftrightarrow> health \<noteq> Some False"

definition publish_call_of ::
  "schema_record codec \<Rightarrow> bytes list codec \<Rightarrow> schema_record \<Rightarrow> candidate_id \<Rightarrow> bytes \<Rightarrow>
     (bytes \<times> bytes) list \<Rightarrow> bytes \<Rightarrow> bytes \<Rightarrow> nat \<Rightarrow> publish_call" where
  "publish_call_of C V rec alias_from bkey variant_members actor reason now =
     \<lparr> k_schema = schema_key (rec_schema_id rec),
       k_family = family_key (rec_family_id rec),
       k_alias = alias_key alias_from,
       k_index = bkey,
       k_audit = audit_key,
       k_published = published_key (rec_schema_id rec),
       k_schema_index = schema_index_key,
       k_variants = map fst variant_members,
       a_schema_json = enc C rec,
       a_canonical = rec_canonical rec,
       a_canonicalizer = rec_canonicalizer rec,
       a_family_id = family_str (rec_family_id rec),
       a_schema_id = schema_str (rec_schema_id rec),
       a_bucket_member = bucket_member (rec_schema_id rec),
       a_actor = actor,
       a_reason = reason,
       a_now_ms = nat_dec now,
       a_variants_json = encode_variants_field V variant_members,
       a_variant_members = map (\<lambda>(_, fp). variant_member fp (rec_schema_id rec)) variant_members \<rparr>"

definition publish ::
  "'st redis \<Rightarrow> schema_record codec \<Rightarrow> bytes list codec \<Rightarrow> bool option \<Rightarrow> schema_record \<Rightarrow>
     candidate_id \<Rightarrow> bytes \<Rightarrow> (bytes \<times> bytes) list \<Rightarrow> bytes \<Rightarrow> bytes \<Rightarrow> nat \<Rightarrow> 'st \<Rightarrow>
     (core_error + family_version) \<times> 'st" where
  "publish R C V health rec alias_from bkey variant_members actor reason now st =
     (if \<not> gate_ok health then (Inl (RegistryUnavailable ''persistence degraded''), st)
      else
        let (res, st') = round_trip R ServerError ''schema_publish''
              (publish_script R (publish_call_of C V rec alias_from bkey variant_members actor reason now)) st
        in (map_sum map_script_error of_int res, st'))"

definition set_schema_name ::
  "'st redis \<Rightarrow> json codec \<Rightarrow> bool option \<Rightarrow> schema_id \<Rightarrow> bytes \<Rightarrow> bytes \<Rightarrow> json option \<Rightarrow>
     nat \<Rightarrow> 'st \<Rightarrow> (core_error + name_write_outcome) \<times> 'st" where
  "set_schema_name R J health i label source meta now st =
     (if \<not> gate_ok health then (Inl (RegistryUnavailable ''persistence degraded''), st)
      else
        let meta_str = (case meta of Some v \<Rightarrow> enc J v | None \<Rightarrow> []);
            (reply, st') = round_trip R RegistryUnavailable ''set_name''
              (\<lambda>st. map_prod Inr id (set_name_script R (schema_key i) label source meta_str (nat_dec now) st)) st
        in (result_bind reply (\<lambda>outcome.
              if outcome = ''applied'' then Inr NameApplied
              else if outcome = ''skipped_human'' then Inr SkippedHumanProtected
              else if outcome = ''not_found'' then Inr NameNotFound
              else Inl (RegistryUnavailable (''unexpected set_name reply: '' @ outcome))), st'))"

text \<open>Reading a stored record: the hash's version wins over the one inside the JSON.\<close>

definition parse_u32 :: "bytes \<Rightarrow> u32 option" where
  "parse_u32 s = (case dec_nat s of Some n \<Rightarrow> if n < 2 ^ 32 then Some (of_nat n) else None | None \<Rightarrow> None)"

definition record_from_hash ::
  "schema_record codec \<Rightarrow> bytes \<Rightarrow> bytes option \<Rightarrow> core_error + schema_record" where
  "record_from_hash C record_json version =
     result_bind (ok_or (RegistryUnavailable ''corrupt schema record'') (dec C record_json)) (\<lambda>rec.
       case version of
         None \<Rightarrow> Inr rec
       | Some v \<Rightarrow>
           result_bind (ok_or (RegistryUnavailable ''corrupt schema version'') (parse_u32 v)) (\<lambda>n.
             Inr (rec \<lparr> rec_version := n \<rparr>)))"

definition insert_some :: "bytes \<Rightarrow> json option \<Rightarrow> (bytes \<times> json) list \<Rightarrow> (bytes \<times> json) list" where
  "insert_some k v m = (case v of Some x \<Rightarrow> bt_insert k x m | None \<Rightarrow> m)"

definition overlay_name ::
  "json codec \<Rightarrow> bytes option \<Rightarrow> bytes option \<Rightarrow> bytes option \<Rightarrow> schema_record \<Rightarrow> schema_record" where
  "overlay_name J label source meta rec =
     (if label = None \<and> source = None \<and> meta = None then rec
      else
        let obj = (case as_object (rec_provenance rec) of Some m \<Rightarrow> m | None \<Rightarrow> []);
            obj1 = insert_some ''label'' (map_option JString label) obj;
            obj2 = insert_some ''name_source'' (map_option JString source) obj1;
            obj3 = insert_some ''name_meta''
              (map_option (\<lambda>m. case dec J m of Some v \<Rightarrow> v | None \<Rightarrow> JString m) meta) obj2
        in rec \<lparr> rec_provenance := JObject obj3 \<rparr>)"

definition get_schema_at ::
  "'st redis \<Rightarrow> schema_record codec \<Rightarrow> json codec \<Rightarrow> bytes \<Rightarrow> 'st \<Rightarrow> core_error + schema_record option" where
  "get_schema_at R C J key st =
     (case r_hget R key ''record'' st of
        None \<Rightarrow> Inr None
      | Some json \<Rightarrow>
          result_bind (record_from_hash C json (r_hget R key ''version'' st)) (\<lambda>rec.
            Inr (Some (overlay_name J (r_hget R key ''name_label'' st)
              (r_hget R key ''name_source'' st) (r_hget R key ''name_meta'' st) rec))))"

definition get_schema ::
  "'st redis \<Rightarrow> schema_record codec \<Rightarrow> json codec \<Rightarrow> schema_id \<Rightarrow> 'st \<Rightarrow> core_error + schema_record option" where
  "get_schema R C J i st = get_schema_at R C J (schema_key i) st"

definition transpose_parse ::
  "core_error \<Rightarrow> (bytes \<Rightarrow> id_error + 'a) \<Rightarrow> bytes option \<Rightarrow> core_error + 'a option" where
  "transpose_parse e parse raw =
     (case raw of None \<Rightarrow> Inr None | Some s \<Rightarrow> map_sum (\<lambda>_. e) Some (parse s))"

definition get_alias ::
  "'st redis \<Rightarrow> (bytes \<Rightarrow> bytes option) \<Rightarrow> candidate_id \<Rightarrow> 'st \<Rightarrow> core_error + schema_id option" where
  "get_alias R b32 i st =
     transpose_parse (RegistryUnavailable ''corrupt alias target'') (schema_id_parse b32)
       (r_get R (alias_key i) st)"

definition family_version_schema ::
  "'st redis \<Rightarrow> (bytes \<Rightarrow> bytes option) \<Rightarrow> family_id \<Rightarrow> family_version \<Rightarrow> 'st \<Rightarrow>
     core_error + schema_id option" where
  "family_version_schema R b32 fam version st =
     transpose_parse (RegistryUnavailable ''corrupt family version entry'') (schema_id_parse b32)
       (r_hget R (family_key fam) (''v:'' @ nat_dec (unat version)) st)"

definition get_family :: "'st redis \<Rightarrow> family_id \<Rightarrow> 'st \<Rightarrow> core_error + family_record option" where
  "get_family R fam st =
     (case r_hget R (family_key fam) ''next_version'' st of
        None \<Rightarrow> Inr None
      | Some v \<Rightarrow>
          (case parse_u32 v of
             Some n \<Rightarrow> Inr (Some \<lparr> fam_id = fam, current_version = n \<rparr>)
           | None \<Rightarrow> Inl (RegistryUnavailable ''corrupt family version counter'')))"

definition list_family_versions ::
  "'st redis \<Rightarrow> family_id \<Rightarrow> 'st \<Rightarrow> core_error + family_version list" where
  "list_family_versions R fam st =
     result_bind (get_family R fam st) (\<lambda>f.
       Inr (case f of None \<Rightarrow> []
            | Some r \<Rightarrow> map of_nat [1..<Suc (unat (current_version r))]))"

section \<open>The structural index\<close>

text \<open>The loop of \<open>resolve_structural_bucketed\<close>: the first well-formed member decides.\<close>

fun first_member :: "(bytes \<Rightarrow> bytes option) \<Rightarrow> bytes list \<Rightarrow> core_error + schema_id option" where
  "first_member b32 [] = Inr None"
| "first_member b32 (m # ms) =
     (case split_member m of
        Some (_, sch) \<Rightarrow>
          map_sum (\<lambda>_. RegistryUnavailable ''corrupt index member'') Some (schema_id_parse b32 sch)
      | None \<Rightarrow> first_member b32 ms)"

definition resolve_structural_bucketed ::
  "'st redis \<Rightarrow> (bytes \<Rightarrow> bytes option) \<Rightarrow> bytes \<Rightarrow> schema_id \<Rightarrow> 'st \<Rightarrow> core_error + schema_id option" where
  "resolve_structural_bucketed R b32 bkey fp st =
     first_member b32 (concat (r_sscan R bkey (fp_match_pattern fp) st))"

fun delete_pages :: "'st redis \<Rightarrow> bytes list list \<Rightarrow> 'st \<Rightarrow> 'st" where
  "delete_pages R [] st = st"
| "delete_pages R (ks # pages) st = delete_pages R pages (foldl (\<lambda>st k. r_del R k st) st ks)"

definition delete_matching :: "'st redis \<Rightarrow> bytes \<Rightarrow> 'st \<Rightarrow> 'st" where
  "delete_matching R pattern st = delete_pages R (r_scan R pattern st) st"

definition sch_id_str :: "bytes \<Rightarrow> bytes" where
  "sch_id_str key = (case strip_prefix ''deblob:schema:'' key of Some s \<Rightarrow> s | None \<Rightarrow> key)"

fun rebuild_keys ::
  "'st redis \<Rightarrow> (bytes \<Rightarrow> bytes option) \<Rightarrow> bytes list codec \<Rightarrow> bytes list \<Rightarrow> nat \<Rightarrow> 'st \<Rightarrow>
     (core_error + nat) \<times> 'st" where
  "rebuild_keys R b32 V [] n st = (Inr n, st)"
| "rebuild_keys R b32 V (key # keys) n st =
     (let sid = sch_id_str key;
          st1 = r_sadd R schema_index_key sid st
      in case r_hget R key ''bucket'' st1 of
           None \<Rightarrow> rebuild_keys R b32 V keys n st1
         | Some bucket \<Rightarrow>
             (case schema_id_parse b32 sid of
                Inl _ \<Rightarrow> (Inl (RegistryUnavailable ''corrupt schema key''), st1)
              | Inr schema_id \<Rightarrow>
                  let st2 = r_sadd R bucket (bucket_member schema_id) st1;
                      st3 = (case r_hget R key ''variants'' st2 of
                          None \<Rightarrow> st2
                        | Some vj \<Rightarrow> sadd_all R (map (\<lambda>(vb, fp). (vb, variant_member fp schema_id))
                            (decode_variants_field V vj)) st2)
                  in rebuild_keys R b32 V keys (n + 1) st3))"

definition rebuild_index ::
  "'st redis \<Rightarrow> (bytes \<Rightarrow> bytes option) \<Rightarrow> bytes list codec \<Rightarrow> 'st \<Rightarrow> (core_error + nat) \<times> 'st" where
  "rebuild_index R b32 V st =
     (let st1 = delete_matching R index_key_pattern st;
          st2 = r_del R schema_index_key st1
      in rebuild_keys R b32 V (concat (r_scan R (''deblob:schema:'' @ ''*'') st2)) 0 st2)"

datatype index_problem =
    MalformedMember bytes bytes
  | MissingSchema bytes bytes bytes
  | NoRecordedBucket bytes
  | InvalidSchemaKey bytes id_error
  | MissingFromBucket bytes bytes

definition member_problems :: "'st redis \<Rightarrow> 'st \<Rightarrow> bytes \<Rightarrow> bytes \<Rightarrow> index_problem list" where
  "member_problems R st bucket member =
     (case split_member member of
        None \<Rightarrow> [MalformedMember bucket member]
      | Some (_, sch) \<Rightarrow>
          if r_exists R (''deblob:schema:'' @ sch) st then [] else [MissingSchema bucket member sch])"

definition key_problems ::
  "'st redis \<Rightarrow> (bytes \<Rightarrow> bytes option) \<Rightarrow> 'st \<Rightarrow> bytes \<Rightarrow> index_problem list" where
  "key_problems R b32 st key =
     (case r_hget R key ''bucket'' st of
        None \<Rightarrow> [NoRecordedBucket (sch_id_str key)]
      | Some bucket \<Rightarrow>
          (case schema_id_parse b32 (sch_id_str key) of
             Inl e \<Rightarrow> [InvalidSchemaKey key e]
           | Inr schema_id \<Rightarrow>
               if r_sismember R bucket (bucket_member schema_id) st then []
               else [MissingFromBucket (sch_id_str key) bucket]))"

definition verify_index ::
  "'st redis \<Rightarrow> (bytes \<Rightarrow> bytes option) \<Rightarrow> 'st \<Rightarrow> index_problem list" where
  "verify_index R b32 st =
     concat (map (\<lambda>bucket. concat (map (member_problems R st bucket) (r_smembers R bucket st)))
       (concat (r_scan R index_key_pattern st))) @
     concat (map (key_problems R b32 st) (concat (r_scan R (''deblob:schema:'' @ ''*'') st)))"

end
