(* ===== verification/Vault_Facts.thy ===== *)
theory Vault_Facts
  imports Vault
begin

text \<open>
  What the scripts of the vault do to the keyspace: the effect of one publish and of one
  naming call, read through the view of the server's state.
\<close>

section \<open>Keys are told apart\<close>

lemma vault_key_eqs [simp]:
  "schema_key a = schema_key b \<longleftrightarrow> a = b"
  "family_key f = family_key g \<longleftrightarrow> f = g"
  "alias_key x = alias_key y \<longleftrightarrow> x = y"
  "published_key a = published_key b \<longleftrightarrow> a = b"
  "schema_key a \<noteq> family_key f" "family_key f \<noteq> schema_key a"
  "alias_key x \<noteq> published_key a" "published_key a \<noteq> alias_key x"
  by (auto simp: schema_key_def family_key_def alias_key_def published_key_def
      schema_id.expand family_id.expand candidate_id.expand)

definition index_key :: "bytes \<Rightarrow> bool" where
  "index_key k \<longleftrightarrow> (\<exists>x. k = ''deblob:index:'' @ x) \<and> CHR ''='' \<notin> set k"

lemma index_key_neq: "index_key k \<Longrightarrow> k \<noteq> schema_index_key"
  by (auto simp: index_key_def schema_index_key_def)

lemma field_names [simp]: "''v:'' @ x \<noteq> ''next_version''" "''v:'' @ x \<noteq> ''family_id''"
  by simp_all

text \<open>A publish is either not executed at all, or is one run of the script whose reply may be lost.\<close>

lemma publish_cases:
  assumes "publish R C V health rec al bkey vs ac re now st = (res, st')"
  obtains (unexecuted) m where "res = Inl (RegistryUnavailable m)" "st' = st"
      "health = Some False \<and> m = ''persistence degraded'' \<or> r_link R ''schema_publish'' st = Refuses m"
    | (executed) r where "publish_script R (publish_call_of C V rec al bkey vs ac re now) st = (r, st')"
      "gate_ok health" "res = map_sum map_script_error of_int r \<or>
        (\<exists>m. r_link R ''schema_publish'' st = LosesReply m \<and> res = Inl (RegistryUnavailable m))"
proof (cases "gate_ok health")
  case True
  obtain r st1 where r: "round_trip R ServerError ''schema_publish''
      (publish_script R (publish_call_of C V rec al bkey vs ac re now)) st = (r, st1)" by fastforce
  with True assms have s: "st1 = st'" "res = map_sum map_script_error of_int r" by (simp_all add: publish_def)
  from r show thesis
  proof (cases rule: round_trip_cases)
    case (refused m)
    then show thesis using s by (intro unexecuted [of m]) auto
  next
    case (lost m r')
    then show thesis using s True by (intro executed [of r']) auto
  qed (use s True executed in auto)
qed (use assms unexecuted [of "''persistence degraded''"] in \<open>simp add: publish_def gate_ok_def\<close>)

lemma publish_answering:
  "publish (answering R) C V health rec al bkey vs ac re now st =
     (if \<not> gate_ok health then (Inl (RegistryUnavailable ''persistence degraded''), st)
      else let (res, st') = publish_script R (publish_call_of C V rec al bkey vs ac re now) st
        in (map_sum map_script_error of_int res, st'))"
proof -
  have sel: "r_get (answering R) = r_get R" "r_set (answering R) = r_set R" "r_hget (answering R) = r_hget R"
    "r_hset (answering R) = r_hset R" "r_hincrby (answering R) = r_hincrby R" "r_sadd (answering R) = r_sadd R"
    "r_xadd (answering R) = r_xadd R"
    by (simp_all add: answering_def)
  have "publish_script (answering R) c st = publish_script R c st" for c
    unfolding publish_script_def publish_guard_def publish_version_def publish_record_def hset_all_def sadd_all_def sel
    by (rule refl)
  then show ?thesis by (simp add: publish_def)
qed

lemma publish_Inr:
  assumes "publish R C V health rec al bkey vs ac re now st = (Inr v, st')"
  obtains i where "publish_script R (publish_call_of C V rec al bkey vs ac re now) st = (Inr i, st')" "v = of_int i"
  using assms
proof (cases rule: publish_cases)
  case (executed r)
  then show thesis using that by (cases r) auto
qed simp

lemma set_schema_name_cases:
  assumes "set_schema_name R J health i label source meta now st = (out, st')"
  obtains "st' = st" "\<not> gate_ok health \<or> (\<exists>m. r_link R ''set_name'' st = Refuses m)"
    | m o' where "set_name_script R (schema_key i) label source m (nat_dec now) st = (o', st')"
      "m = (case meta of Some v \<Rightarrow> enc J v | None \<Rightarrow> [])" "gate_ok health"
proof (cases "gate_ok health")
  case True
  let ?m = "case meta of Some v \<Rightarrow> enc J v | None \<Rightarrow> []"
  obtain r st1 where r: "round_trip R RegistryUnavailable ''set_name''
      (\<lambda>st. map_prod Inr id (set_name_script R (schema_key i) label source ?m (nat_dec now) st)) st = (r, st1)"
    by fastforce
  with True assms have s: "st1 = st'" "out = result_bind r (\<lambda>outcome.
        if outcome = ''applied'' then Inr NameApplied
        else if outcome = ''skipped_human'' then Inr SkippedHumanProtected
        else if outcome = ''not_found'' then Inr NameNotFound
        else Inl (RegistryUnavailable (''unexpected set_name reply: '' @ outcome)))"
    by (simp_all add: set_schema_name_def Let_def)
  from r show thesis
  proof (cases rule: round_trip_cases)
    case answers
    then obtain o' where "set_name_script R (schema_key i) label source ?m (nat_dec now) st = (o', st')" "r = Inr o'"
      using s(1) by (cases "set_name_script R (schema_key i) label source ?m (nat_dec now) st") auto
    then show thesis using True by (intro that(2) [of ?m o']) simp_all
  next
    case (lost m r')
    then obtain o' where "set_name_script R (schema_key i) label source ?m (nat_dec now) st = (o', st')"
      using s(1) by (cases "set_name_script R (schema_key i) label source ?m (nat_dec now) st") auto
    then show thesis using True by (intro that(2) [of ?m o']) simp_all
  qed (use s that(1) in auto)
qed (use assms that(1) in \<open>auto simp: set_schema_name_def\<close>)

text \<open>The fields that the first publish of a schema writes.\<close>

definition record_fields :: "publish_call \<Rightarrow> int option \<Rightarrow> (bytes \<times> bytes) list" where
  "record_fields c version =
     [(''record'', a_schema_json c), (''canonical'', a_canonical c),
      (''canonicalizer'', a_canonicalizer c), (''family'', a_family_id c),
      (''version'', lua_tostring version), (''bucket'', k_index c)]"

context redis_service
begin

section \<open>Writing many fields and members\<close>

lemma hashes_hset_all:
  "hashes (view (hset_all R k fvs st)) k' f =
     (if k' = k then (case map_of (rev fvs) f of Some v \<Rightarrow> Some v | None \<Rightarrow> hashes (view st) k f)
      else hashes (view st) k' f)"
  by (induction fvs arbitrary: st)
    (auto simp: hset_all_def hset ks_hset_def map_add_def split: option.splits)

lemma hset_all_frame:
  "strs (view (hset_all R k fvs st)) = strs (view st)"
  "sets (view (hset_all R k fvs st)) = sets (view st)"
  "streams (view (hset_all R k fvs st)) = streams (view st)"
  "ttl (view (hset_all R k fvs st)) = ttl (view st)"
  by (induction fvs arbitrary: st; auto simp: hset_all_def hset ks_hset_def)+

lemma sets_sadd_all:
  "sets (view (sadd_all R kms st)) k = sets (view st) k \<union> {m. (k, m) \<in> set kms}"
  by (induction kms arbitrary: st) (auto simp: sadd_all_def sadd split: if_splits)

lemma sadd_all_frame:
  "strs (view (sadd_all R kms st)) = strs (view st)"
  "hashes (view (sadd_all R kms st)) = hashes (view st)"
  "streams (view (sadd_all R kms st)) = streams (view st)"
  "ttl (view (sadd_all R kms st)) = ttl (view st)"
  by (induction kms arbitrary: st; auto simp: sadd_all_def sadd)+

lemmas frames = hset_all_frame sadd_all_frame

section \<open>Version allocation\<close>

lemma publish_version_published:
  assumes "strs (view st) (k_published c) = Some p"
  shows "publish_version R c st = Some (dec_int p, st)"
  using assms by (simp add: publish_version_def get)

lemma publish_version_fresh:
  assumes "strs (view st) (k_published c) = None"
    and "incremented (hashes (view st) (k_family c) ''next_version'') 1 = Some i"
  obtains st1 where "publish_version R c st = Some (Some i, st1)"
    "\<And>k f. hashes (view st1) k f =
      (if k = k_family c \<and> f = ''next_version'' then Some (int_dec i)
       else if k = k_family c \<and> f = ''v:'' @ int_dec i then Some (a_schema_id c)
       else if k = k_family c \<and> f = ''family_id'' then Some (a_family_id c)
       else hashes (view st) k f)"
    "strs (view st1) = (strs (view st))(k_published c \<mapsto> int_dec i)"
    "sets (view st1) = sets (view st)" "streams (view st1) = streams (view st)"
proof -
  from assms(2) have "r_hincrby R (k_family c) ''next_version'' 1 st \<noteq> None"
    by (simp add: hincrby_None)
  then obtain j st0 where h: "r_hincrby R (k_family c) ''next_version'' 1 st = Some (j, st0)"
    by auto
  with hincrby_Some [OF h] assms(2) have j: "j = i"
    and v: "view st0 = ks_hset (k_family c) ''next_version'' (Some (int_dec i)) (view st)"
    by auto
  show thesis
    by (rule that, simp add: publish_version_def get assms(1) h j Let_def)
      (auto simp: hset set v ks_hset_def)
qed

lemma publish_version_overflow:
  "strs (view st) (k_published c) = None \<Longrightarrow>
   incremented (hashes (view st) (k_family c) ''next_version'') 1 = None \<Longrightarrow>
     publish_version R c st = None"
  by (simp add: publish_version_def get hincrby_None [THEN iffD2])

section \<open>The effect of a publish\<close>

lemma hashes_publish_record:
  "hashes (view (publish_record R c version st)) k f =
     (if k = k_schema c then
        (case map_of (record_fields c version) f of Some v \<Rightarrow> Some v | None \<Rightarrow> hashes (view st) k f)
      else hashes (view st) k f)"
  by (simp add: publish_record_def hashes_hset_all record_fields_def)

lemma publish_script_rejected:
  "publish_guard R c st = Some e \<Longrightarrow> publish_script R c st = (Inl e, st)"
  by (simp add: publish_script_def)

lemma publish_script_aborted:
  "publish_guard R c st = None \<Longrightarrow> publish_version R c st = None \<Longrightarrow>
     publish_script R c st = (Inl (ServerError ''ERR hash value is not an integer''), st)"
  by (simp add: publish_script_def)

lemma publish_script_effect:
  assumes guard: "publish_guard R c st = None"
    and version: "publish_version R c st = Some (v, st1)"
  obtains st' where "publish_script R c st =
      ((case v of Some i \<Rightarrow> Inr i | None \<Rightarrow> Inl (ServerError ''TypeError'')), st')"
    "\<And>k f. hashes (view st') k f =
      (if k = k_schema c \<and> f = ''variants'' then Some (a_variants_json c)
       else if k = k_schema c \<and> hashes (view st) (k_schema c) ''canonical'' = None then
         (case map_of (record_fields c v) f of Some x \<Rightarrow> Some x | None \<Rightarrow> hashes (view st1) k f)
       else hashes (view st1) k f)"
    "\<And>k. strs (view st') k =
      (if k = k_alias c \<and> strs (view st) k = None then Some (a_schema_id c) else strs (view st1) k)"
    "\<And>k. sets (view st') k = sets (view st1) k \<union>
      {m. k = k_index c \<and> m = a_bucket_member c \<or> k = k_schema_index c \<and> m = a_schema_id c \<or>
          (k, m) \<in> set (zip (k_variants c) (a_variant_members c))}"
    "\<And>k. k \<noteq> k_audit c \<Longrightarrow> streams (view st') k = streams (view st1) k"
proof -
  define st2 where "st2 = (if hashes (view st) (k_schema c) ''canonical'' = None
    then publish_record R c v st1 else st1)"
  define st3 where "st3 = (if strs (view st) (k_alias c) = None
    then r_set R (k_alias c) (a_schema_id c) st2 else st2)"
  define st6 where "st6 = r_hset R (k_schema c) ''variants'' (a_variants_json c)
    (r_sadd R (k_schema_index c) (a_schema_id c) (r_sadd R (k_index c) (a_bucket_member c) st3))"
  define st' where "st' = r_xadd R (k_audit c)
    [(''actor'', a_actor c), (''reason'', a_reason c), (''schema'', a_schema_id c),
     (''ts'', a_now_ms c)] (sadd_all R (zip (k_variants c) (a_variant_members c)) st6)"
  have st2_frame: "strs (view st2) = strs (view st1)" "sets (view st2) = sets (view st1)"
    "streams (view st2) = streams (view st1)"
    by (simp_all add: st2_def publish_record_def frames)
  have st3_frame: "hashes (view st3) = hashes (view st2)" "sets (view st3) = sets (view st2)"
    "streams (view st3) = streams (view st2)"
    by (simp_all add: st3_def set)
  show thesis
  proof (rule that [of st'])
    show "publish_script R c st =
        ((case v of Some i \<Rightarrow> Inr i | None \<Rightarrow> Inl (ServerError ''TypeError'')), st')"
      by (simp add: publish_script_def guard version reads st'_def st6_def st3_def st2_def Let_def)
    show "hashes (view st') k f =
      (if k = k_schema c \<and> f = ''variants'' then Some (a_variants_json c)
       else if k = k_schema c \<and> hashes (view st) (k_schema c) ''canonical'' = None then
         (case map_of (record_fields c v) f of Some x \<Rightarrow> Some x | None \<Rightarrow> hashes (view st1) k f)
       else hashes (view st1) k f)" for k f
      by (simp add: st'_def st6_def st3_frame writes frames ks_hset_def)
        (auto simp: st2_def hashes_publish_record)
    show "strs (view st') k =
      (if k = k_alias c \<and> strs (view st) k = None then Some (a_schema_id c) else strs (view st1) k)" for k
      by (auto simp: st'_def st6_def writes frames ks_hset_def st2_frame st3_def)
    show "sets (view st') k = sets (view st1) k \<union>
      {m. k = k_index c \<and> m = a_bucket_member c \<or> k = k_schema_index c \<and> m = a_schema_id c \<or>
          (k, m) \<in> set (zip (k_variants c) (a_variant_members c))}" for k
      by (auto simp: st'_def st6_def writes frames ks_hset_def sets_sadd_all st3_frame st2_frame)
    show "streams (view st') k = streams (view st1) k" if "k \<noteq> k_audit c" for k
      using that by (simp add: st'_def st6_def writes frames ks_hset_def st3_frame st2_frame)
  qed
qed

section \<open>The effect of naming\<close>

lemma set_name_script_effect:
  assumes "set_name_script R key label source meta now st = (outcome, st')"
  shows "(outcome = ''not_found'' \<and> st' = st \<and> hashes (view st) key ''record'' = None) \<or>
    (outcome = ''skipped_human'' \<and> st' = st \<and> source \<noteq> ''human'' \<and>
      hashes (view st) key ''name_source'' = Some ''human'') \<or>
    (outcome = ''applied'' \<and> hashes (view st) key ''record'' \<noteq> None \<and>
      (source = ''human'' \<or> hashes (view st) key ''name_source'' \<noteq> Some ''human'') \<and>
      (\<forall>k f. hashes (view st') k f =
        (if k = key \<and> f = ''name_label'' then Some label
         else if k = key \<and> f = ''name_source'' then Some source
         else if k = key \<and> f = ''name_updated_ms'' then Some now
         else if k = key \<and> f = ''name_meta'' then (if meta = [] then None else Some meta)
         else hashes (view st) k f)) \<and>
      strs (view st') = strs (view st) \<and> sets (view st') = sets (view st) \<and>
      streams (view st') = streams (view st))"
proof -
  consider "hashes (view st) key ''record'' = None"
    | "hashes (view st) key ''record'' \<noteq> None" "source \<noteq> ''human''"
      "hashes (view st) key ''name_source'' = Some ''human''"
    | "hashes (view st) key ''record'' \<noteq> None"
      "source = ''human'' \<or> hashes (view st) key ''name_source'' \<noteq> Some ''human''"
    by blast
  then show ?thesis
  proof cases
    case 1
    then show ?thesis using assms by (simp add: set_name_script_def hget)
  next
    case 2
    then show ?thesis using assms by (auto simp: set_name_script_def hget)
  next
    case 3
    define st1 where "st1 = hset_all R key
      [(''name_label'', label), (''name_source'', source), (''name_updated_ms'', now)] st"
    have "outcome = ''applied''"
      and st': "st' = (if meta = [] then r_hdel R key ''name_meta'' st1
        else r_hset R key ''name_meta'' meta st1)"
      using assms 3 by (auto simp: set_name_script_def hget st1_def Let_def split: if_splits)
    moreover have "strs (view st') = strs (view st)" "sets (view st') = sets (view st)"
      "streams (view st') = streams (view st)"
      by (simp_all add: st' writes ks_hset_def st1_def frames)
    moreover have "\<forall>k f. hashes (view st') k f =
        (if k = key \<and> f = ''name_label'' then Some label
         else if k = key \<and> f = ''name_source'' then Some source
         else if k = key \<and> f = ''name_updated_ms'' then Some now
         else if k = key \<and> f = ''name_meta'' then (if meta = [] then None else Some meta)
         else hashes (view st) k f)"
      by (simp add: st' writes ks_hset_def st1_def hashes_hset_all)
    ultimately show ?thesis using 3 by simp
  qed
qed

end

end
