(* ===== verification/Vault_Inv.thy ===== *)
theory Vault_Inv
  imports Vault_Facts
begin

text \<open>
  The invariant of the vault: every family's versions are allocated without gaps, each to one
  schema; a schema hash is written once and completely; the structural index points at
  existing schemas only. Every operation of the registry preserves it, whatever the other
  components do to their own keys in between.
\<close>

section \<open>The invariant\<close>

definition counter :: "keyspace \<Rightarrow> family_id \<Rightarrow> int" where
  "counter ks f = (case hashes ks (family_key f) ''next_version'' of
     Some s \<Rightarrow> (case dec_int s of Some i \<Rightarrow> i | None \<Rightarrow> 0) | None \<Rightarrow> 0)"

definition version_at :: "keyspace \<Rightarrow> family_id \<Rightarrow> int \<Rightarrow> bytes option" where
  "version_at ks f i = hashes ks (family_key f) (''v:'' @ int_dec i)"

definition published_at :: "keyspace \<Rightarrow> schema_id \<Rightarrow> bytes option" where
  "published_at ks s = strs ks (published_key s)"

definition schema_field :: "keyspace \<Rightarrow> schema_id \<Rightarrow> bytes \<Rightarrow> bytes option" where
  "schema_field ks s f = hashes ks (schema_key s) f"

definition stored :: "keyspace \<Rightarrow> schema_id \<Rightarrow> bool" where
  "stored ks s \<longleftrightarrow> schema_field ks s ''canonical'' \<noteq> None"

definition counters_ok :: "keyspace \<Rightarrow> bool" where
  "counters_ok ks \<longleftrightarrow> (\<forall>f s. hashes ks (family_key f) ''next_version'' = Some s \<longrightarrow>
     s = int_dec (counter ks f) \<and> 1 \<le> counter ks f \<and> int64 (counter ks f)) \<and>
   (\<forall>f i. version_at ks f i \<noteq> None \<longleftrightarrow> 1 \<le> i \<and> i \<le> counter ks f)"

definition versions_ok :: "keyspace \<Rightarrow> bool" where
  "versions_ok ks \<longleftrightarrow>
     (\<forall>f i t. version_at ks f i = Some t \<longrightarrow>
        (\<exists>s. t = schema_str s \<and> published_at ks s = Some (int_dec i))) \<and>
     (\<forall>f g i j t. version_at ks f i = Some t \<longrightarrow> version_at ks g j = Some t \<longrightarrow> f = g \<and> i = j) \<and>
     (\<forall>s p. published_at ks s = Some p \<longrightarrow>
        (\<exists>f i. p = int_dec i \<and> version_at ks f i = Some (schema_str s)))"

definition schema_id_ok :: "(bytes \<Rightarrow> bytes option) \<Rightarrow> schema_id \<Rightarrow> bool" where
  "schema_id_ok b32 s \<longleftrightarrow> schema_id_parse b32 (schema_str s) = Inr s \<and> CHR ''='' \<notin> set (id_body s)"

definition variants_ok :: "(bytes \<times> bytes) list \<Rightarrow> bool" where
  "variants_ok vs \<longleftrightarrow> (\<forall>(b, fp)\<in>set vs. index_key b \<and> CHR ''='' \<notin> set fp)"

definition hash_ok :: "(bytes \<Rightarrow> bytes option) \<Rightarrow> schema_record codec \<Rightarrow> bytes list codec \<Rightarrow> keyspace \<Rightarrow> schema_id \<Rightarrow> bool" where
  "hash_ok b32 C V ks s \<longleftrightarrow> schema_id_ok b32 s \<and> (\<exists>r. schema_field ks s ''record'' = Some (enc C r) \<and> rec_schema_id r = s \<and>
        schema_field ks s ''canonical'' = Some (rec_canonical r) \<and>
        schema_field ks s ''canonicalizer'' = Some (rec_canonicalizer r)) \<and>
     schema_field ks s ''version'' = published_at ks s \<and> published_at ks s \<noteq> None \<and>
     (\<exists>b. schema_field ks s ''bucket'' = Some b \<and> index_key b) \<and>
     (\<exists>vs. schema_field ks s ''variants'' = Some (encode_variants_field V vs) \<and> variants_ok vs)"

definition records_ok :: "(bytes \<Rightarrow> bytes option) \<Rightarrow> schema_record codec \<Rightarrow> bytes list codec \<Rightarrow> keyspace \<Rightarrow> bool" where
  "records_ok b32 C V ks \<longleftrightarrow>
     (\<forall>s. stored ks s \<longrightarrow> hash_ok b32 C V ks s) \<and>
     (\<forall>s. \<not> stored ks s \<longrightarrow> published_at ks s = None \<and> (\<forall>f. schema_field ks s f = None)) \<and>
     (\<forall>s. strs ks (schema_key s) = None \<and> sets ks (schema_key s) = {} \<and>
        streams ks (schema_key s) = [])"

definition index_ok :: "keyspace \<Rightarrow> bool" where
  "index_ok ks \<longleftrightarrow>
     (\<forall>x m. m \<in> sets ks (''deblob:index:'' @ x) \<longrightarrow>
        (\<exists>fp s. m = variant_member fp s \<and> CHR ''='' \<notin> set fp \<and> stored ks s)) \<and>
     (\<forall>s b. stored ks s \<longrightarrow> schema_field ks s ''bucket'' = Some b \<longrightarrow> bucket_member s \<in> sets ks b) \<and>
     sets ks schema_index_key = {schema_str s |s. stored ks s}"

definition vault_inv :: "(bytes \<Rightarrow> bytes option) \<Rightarrow> schema_record codec \<Rightarrow> bytes list codec \<Rightarrow> keyspace \<Rightarrow> bool" where
  "vault_inv b32 C V ks \<longleftrightarrow> counters_ok ks \<and> versions_ok ks \<and> records_ok b32 C V ks \<and> index_ok ks"

section \<open>Versions\<close>

lemma schema_str_eq [simp]: "schema_str a = schema_str b \<longleftrightarrow> a = b"
  by (cases a; cases b) simp

lemma incremented_counter:
  assumes "counters_ok ks" "incremented (hashes ks (family_key f) ''next_version'') 1 = Some i"
  shows "i = counter ks f + 1 \<and> int64 i"
proof (cases "hashes ks (family_key f) ''next_version''")
  case None
  then show ?thesis using assms(2) by (simp add: incremented_def counter_def split: if_splits)
next
  case (Some s)
  then have "s = int_dec (counter ks f)" using assms(1) by (auto simp: counters_ok_def)
  then show ?thesis using Some assms(2) by (simp add: incremented_def split: if_splits)
qed

lemma counter_nonneg: "counters_ok ks \<Longrightarrow> 0 \<le> counter ks f"
proof (cases "hashes ks (family_key f) ''next_version''")
  case (Some s)
  then show "counters_ok ks \<Longrightarrow> 0 \<le> counter ks f"
    unfolding counters_ok_def by (meson order_trans zero_le_one)
qed (simp add: counter_def)

text \<open>Allocating the next version of a family to a schema that has none.\<close>

lemma allocate_ok:
  assumes c: "counters_ok ks" and v: "versions_ok ks"
    and inc: "incremented (hashes ks (family_key f) ''next_version'') 1 = Some i"
    and fresh: "published_at ks s = None"
    and h: "\<And>g x. hashes ks' (family_key g) x =
      (if g = f \<and> x = ''next_version'' then Some (int_dec i)
       else if g = f \<and> x = ''v:'' @ int_dec i then Some (schema_str s)
       else if g = f \<and> x = ''family_id'' then Some fam
       else hashes ks (family_key g) x)"
    and p: "\<And>t. published_at ks' t = (if t = s then Some (int_dec i) else published_at ks t)"
  shows "counters_ok ks' \<and> versions_ok ks'"
proof -
  have i: "i = counter ks f + 1" "int64 i" "0 \<le> counter ks f"
    using incremented_counter [OF c inc] counter_nonneg [OF c] by auto
  have counter': "counter ks' g = (if g = f then i else counter ks g)" for g
    by (simp add: counter_def h)
  have version': "version_at ks' g j = (if g = f \<and> j = i then Some (schema_str s) else version_at ks g j)"
    for g j
    by (simp add: version_at_def h)
  have "counters_ok ks'"
    unfolding counters_ok_def
  proof (intro conjI allI impI)
    fix g x assume "hashes ks' (family_key g) ''next_version'' = Some x"
    then have x: "(if g = f then Some (int_dec i) else hashes ks (family_key g) ''next_version'') = Some x"
      by (simp add: h split: if_splits)
    show "x = int_dec (counter ks' g)" "1 \<le> counter ks' g" "int64 (counter ks' g)"
      using x c i by (auto simp: counter' counters_ok_def split: if_splits)
  next
    fix g j
    show "version_at ks' g j \<noteq> None \<longleftrightarrow> 1 \<le> j \<and> j \<le> counter ks' g"
      using c i by (auto simp: counter' version' counters_ok_def)
  qed
  moreover have "versions_ok ks'"
    unfolding versions_ok_def
  proof (intro conjI allI impI)
    have other: "t \<noteq> schema_str s" if "version_at ks g j = Some t" for g j t
      using v that fresh unfolding versions_ok_def by (metis option.distinct(1) schema_str_eq)
    fix g j t assume 1: "version_at ks' g j = Some t"
    show "\<exists>s. t = schema_str s \<and> published_at ks' s = Some (int_dec j)"
    proof (cases "g = f \<and> j = i")
      case False
      with 1 have old: "version_at ks g j = Some t" by (simp add: version')
      then obtain s' where "t = schema_str s'" "published_at ks s' = Some (int_dec j)"
        using v unfolding versions_ok_def by blast
      with other [OF old] show ?thesis by (auto simp: p)
    qed (use 1 in \<open>auto simp: version' p\<close>)
    fix g' j' assume 2: "version_at ks' g' j' = Some t"
    have "g = g' \<and> j = j'"
      using 1 2 v other [of g j t] other [of g' j' t]
      unfolding versions_ok_def by (auto simp: version' split: if_splits)
    then show "g = g'" "j = j'" by simp_all
  next
    fix t q assume q: "published_at ks' t = Some q"
    show "\<exists>f' j. q = int_dec j \<and> version_at ks' f' j = Some (schema_str t)"
    proof (cases "t = s")
      case True
      with q show ?thesis by (intro exI [of _ f] exI [of _ i]) (simp add: p version')
    next
      case False
      with q have "published_at ks t = Some q" by (simp add: p)
      then obtain f' j where "q = int_dec j" "version_at ks f' j = Some (schema_str t)"
        using v unfolding versions_ok_def by blast
      moreover have "version_at ks f i = None"
      proof -
        have "\<not> (1 \<le> i \<and> i \<le> counter ks f)" using i by simp
        then show ?thesis using c unfolding counters_ok_def by blast
      qed
      then have "\<not> (f' = f \<and> j = i)"
        using \<open>version_at ks f' j = Some (schema_str t)\<close> by auto
      ultimately show ?thesis
        by (intro exI [of _ f'] exI [of _ j]) (auto simp: version')
    qed
  qed
  ultimately show ?thesis by blast
qed

lemma versions_cong:
  assumes "\<And>g x. hashes ks' (family_key g) x = hashes ks (family_key g) x"
    and "\<And>t. published_at ks' t = published_at ks t"
    and "counters_ok ks" "versions_ok ks"
  shows "counters_ok ks' \<and> versions_ok ks'"
proof -
  have "counter ks' = counter ks" "version_at ks' = version_at ks"
    "published_at ks' = published_at ks"
    by (auto simp: fun_eq_iff counter_def version_at_def assms(1,2))
  then show ?thesis using assms(1,3,4) by (simp add: counters_ok_def versions_ok_def)
qed

section \<open>One publish\<close>

definition publish_ok :: "(bytes \<Rightarrow> bytes option) \<Rightarrow> schema_record \<Rightarrow> bytes \<Rightarrow> (bytes \<times> bytes) list \<Rightarrow> bool" where
  "publish_ok b32 rec bkey vs \<longleftrightarrow>
     schema_id_ok b32 (rec_schema_id rec) \<and> index_key bkey \<and> variants_ok vs"

lemma publish_call_sel [simp]:
  "k_schema (publish_call_of C V rec al bkey vs ac re now) = schema_key (rec_schema_id rec)"
  "k_family (publish_call_of C V rec al bkey vs ac re now) = family_key (rec_family_id rec)"
  "k_alias (publish_call_of C V rec al bkey vs ac re now) = alias_key al"
  "k_index (publish_call_of C V rec al bkey vs ac re now) = bkey"
  "k_audit (publish_call_of C V rec al bkey vs ac re now) = audit_key"
  "k_published (publish_call_of C V rec al bkey vs ac re now) = published_key (rec_schema_id rec)"
  "k_schema_index (publish_call_of C V rec al bkey vs ac re now) = schema_index_key"
  "a_schema_json (publish_call_of C V rec al bkey vs ac re now) = enc C rec"
  "a_canonical (publish_call_of C V rec al bkey vs ac re now) = rec_canonical rec"
  "a_canonicalizer (publish_call_of C V rec al bkey vs ac re now) = rec_canonicalizer rec"
  "a_family_id (publish_call_of C V rec al bkey vs ac re now) = family_str (rec_family_id rec)"
  "a_schema_id (publish_call_of C V rec al bkey vs ac re now) = schema_str (rec_schema_id rec)"
  "a_bucket_member (publish_call_of C V rec al bkey vs ac re now) = bucket_member (rec_schema_id rec)"
  "a_variants_json (publish_call_of C V rec al bkey vs ac re now) = encode_variants_field V vs"
  by (simp_all add: publish_call_of_def)

lemma publish_call_variants [simp]:
  "set (zip (k_variants (publish_call_of C V rec al bkey vs ac re now))
     (a_variant_members (publish_call_of C V rec al bkey vs ac re now))) =
   (\<lambda>(b, fp). (b, variant_member fp (rec_schema_id rec))) ` set vs"
proof -
  have "zip (map fst vs) (map (\<lambda>(_, fp). variant_member fp i) vs) =
      map (\<lambda>(b, fp). (b, variant_member fp i)) vs" for i
    by (induction vs) auto
  then show ?thesis by (simp add: publish_call_of_def)
qed

lemma other_keys [simp]:
  "schema_key s \<noteq> audit_key" "schema_key s \<noteq> alias_key a" "schema_key s \<noteq> published_key t"
  "schema_key s \<noteq> schema_index_key" "published_key t \<noteq> alias_key a"
  by (auto simp: schema_key_def audit_key_def alias_key_def published_key_def schema_index_key_def)

lemma index_key_not_schema: "index_key k \<Longrightarrow> k \<noteq> schema_key s"
  by (auto simp: index_key_def schema_key_def)

lemma bucket_member_variant: "bucket_member s = variant_member (id_body s) s"
  by (simp add: bucket_member_def variant_member_def)

context redis_service
begin

text \<open>
  A publish on a vault that satisfies the invariant either changes nothing and fails, or
  succeeds with the version recorded for the schema, one past the family's last when the
  schema had none.
\<close>

lemma publish_script_cases:
  assumes s: "s = rec_schema_id rec" and f: "f = rec_family_id rec"
    and c: "c = publish_call_of C V rec al bkey vs ac re now"
    and inv: "vault_inv b32 C V (view st)"
  obtains e where "publish_script R c st = (Inl e, st)" "publish_guard R c st = Some e"
  | "publish_script R c st = (Inl (ServerError ''ERR hash value is not an integer''), st)"
    "publish_guard R c st = None" "published_at (view st) s = None"
    "incremented (hashes (view st) (family_key f) ''next_version'') 1 = None"
  | i st' where "publish_script R c st = (Inr i, st')" "publish_guard R c st = None"
    "published_at (view st) s = Some (int_dec i)" "stored (view st) s"
    "\<And>k x. hashes (view st') k x = (if k = schema_key s \<and> x = ''variants''
       then Some (encode_variants_field V vs) else hashes (view st) k x)"
    "\<And>k. strs (view st') k = (if k = alias_key al \<and> strs (view st) k = None
       then Some (schema_str s) else strs (view st) k)"
    "\<And>k. sets (view st') k = sets (view st) k \<union>
      {m. k = bkey \<and> m = bucket_member s \<or> k = schema_index_key \<and> m = schema_str s \<or>
          (\<exists>fp. (k, fp) \<in> set vs \<and> m = variant_member fp s)}"
    "\<And>k. k \<noteq> audit_key \<Longrightarrow> streams (view st') k = streams (view st) k"
  | i st' where "publish_script R c st = (Inr i, st')" "publish_guard R c st = None"
    "published_at (view st) s = None" "\<not> stored (view st) s"
    "incremented (hashes (view st) (family_key f) ''next_version'') 1 = Some i"
    "\<And>g x. hashes (view st') (family_key g) x =
      (if g = f \<and> x = ''next_version'' then Some (int_dec i)
       else if g = f \<and> x = ''v:'' @ int_dec i then Some (schema_str s)
       else if g = f \<and> x = ''family_id'' then Some (family_str f)
       else hashes (view st) (family_key g) x)"
    "\<And>t x. schema_field (view st') t x =
      (if t = s then (if x = ''variants'' then Some (encode_variants_field V vs)
                      else map_of (record_fields c (Some i)) x)
       else schema_field (view st) t x)"
    "\<And>k. strs (view st') k = (if k = alias_key al \<and> strs (view st) k = None
       then Some (schema_str s) else if k = published_key s then Some (int_dec i)
       else strs (view st) k)"
    "\<And>k. sets (view st') k = sets (view st) k \<union>
      {m. k = bkey \<and> m = bucket_member s \<or> k = schema_index_key \<and> m = schema_str s \<or>
          (\<exists>fp. (k, fp) \<in> set vs \<and> m = variant_member fp s)}"
    "\<And>k. k \<noteq> audit_key \<Longrightarrow> streams (view st') k = streams (view st) k"
proof (cases "publish_guard R c st")
  case (Some e)
  then show thesis using that(1) publish_script_rejected by blast
next
  case guard: None
  have sel: "k_schema c = schema_key s" "k_family c = family_key f" "k_alias c = alias_key al"
    "k_published c = published_key s" "k_index c = bkey" "a_schema_id c = schema_str s"
    "a_variants_json c = encode_variants_field V vs" "k_schema_index c = schema_index_key"
    "a_bucket_member c = bucket_member s" "k_audit c = audit_key"
    "a_family_id c = family_str f"
    by (simp_all add: c s f)
  have zips: "set (zip (k_variants c) (a_variant_members c)) = (\<lambda>(b, fp). (b, variant_member fp s)) ` set vs"
    unfolding c s by (rule publish_call_variants)
  have zip_mem: "(k, m) \<in> set (zip (k_variants c) (a_variant_members c)) \<longleftrightarrow>
      (\<exists>fp. (k, fp) \<in> set vs \<and> m = variant_member fp s)" for k m
    unfolding zips by force
  have stored: "stored (view st) s \<longleftrightarrow> published_at (view st) s \<noteq> None"
    using inv by (auto simp: vault_inv_def records_ok_def hash_ok_def)
  have unstored: "schema_field (view st) s x = None" if "\<not> stored (view st) s" for x
    using inv that by (auto simp: vault_inv_def records_ok_def)
  show thesis
  proof (cases "published_at (view st) s")
    case (Some p)
    then obtain i where p: "p = int_dec i"
      using inv unfolding vault_inv_def versions_ok_def by blast
    have "publish_version R c st = Some (Some i, st)"
      using publish_version_published [of st c p] Some p by (simp add: published_at_def sel)
    note eff = publish_script_effect [OF guard this, unfolded sel option.case]
    obtain st' where st': "publish_script R c st = (Inr i, st')"
      "\<And>k x. hashes (view st') k x =
        (if k = schema_key s \<and> x = ''variants'' then Some (encode_variants_field V vs)
         else if k = schema_key s \<and> hashes (view st) (schema_key s) ''canonical'' = None then
           (case map_of (record_fields c (Some i)) x of Some y \<Rightarrow> Some y | None \<Rightarrow> hashes (view st) k x)
         else hashes (view st) k x)"
      "\<And>k. strs (view st') k =
        (if k = alias_key al \<and> strs (view st) k = None then Some (schema_str s) else strs (view st) k)"
      "\<And>k. sets (view st') k = sets (view st) k \<union>
        {m. k = bkey \<and> m = bucket_member s \<or> k = schema_index_key \<and> m = schema_str s \<or>
            (k, m) \<in> set (zip (k_variants c) (a_variant_members c))}"
      "\<And>k. k \<noteq> audit_key \<Longrightarrow> streams (view st') k = streams (view st) k"
      by (rule eff, rule that)
    have old: "stored (view st) s" using stored Some by simp
    then have canon: "hashes (view st) (schema_key s) ''canonical'' \<noteq> None"
      by (simp add: stored_def schema_field_def)
    show thesis
    proof (rule that(3) [OF st'(1) guard])
      show "published_at (view st) s = Some (int_dec i)" using Some p by simp
      show "hashes (view st') k x = (if k = schema_key s \<and> x = ''variants''
         then Some (encode_variants_field V vs) else hashes (view st) k x)" for k x
        using canon by (auto simp: st'(2))
      show "sets (view st') k = sets (view st) k \<union>
        {m. k = bkey \<and> m = bucket_member s \<or> k = schema_index_key \<and> m = schema_str s \<or>
            (\<exists>fp. (k, fp) \<in> set vs \<and> m = variant_member fp s)}" for k
        by (simp only: st'(4) zip_mem)
    qed (fact old st'(3,5))+
  next
    case fresh: None
    show thesis
    proof (cases "incremented (hashes (view st) (family_key f) ''next_version'') 1")
      case None
      then show thesis
        using that(2) guard fresh publish_script_aborted publish_version_overflow [of st c]
        by (simp add: published_at_def sel)
    next
      case (Some i)
      note eff = publish_version_fresh [of st c i, unfolded sel,
          OF fresh [unfolded published_at_def] Some]
      obtain st1 where v: "publish_version R c st = Some (Some i, st1)"
        and h1: "\<And>k x. hashes (view st1) k x =
          (if k = family_key f \<and> x = ''next_version'' then Some (int_dec i)
           else if k = family_key f \<and> x = ''v:'' @ int_dec i then Some (schema_str s)
           else if k = family_key f \<and> x = ''family_id'' then Some (family_str f)
           else hashes (view st) k x)"
        and s1: "strs (view st1) = (strs (view st))(published_key s \<mapsto> int_dec i)"
        and e1: "sets (view st1) = sets (view st)" "streams (view st1) = streams (view st)"
        by (rule eff, rule that)
      note eff = publish_script_effect [OF guard v, unfolded sel option.case]
      obtain st' where st': "publish_script R c st = (Inr i, st')"
        "\<And>k x. hashes (view st') k x =
          (if k = schema_key s \<and> x = ''variants'' then Some (encode_variants_field V vs)
           else if k = schema_key s \<and> hashes (view st) (schema_key s) ''canonical'' = None then
             (case map_of (record_fields c (Some i)) x of Some y \<Rightarrow> Some y | None \<Rightarrow> hashes (view st1) k x)
           else hashes (view st1) k x)"
        "\<And>k. strs (view st') k =
          (if k = alias_key al \<and> strs (view st) k = None then Some (schema_str s) else strs (view st1) k)"
        "\<And>k. sets (view st') k = sets (view st1) k \<union>
          {m. k = bkey \<and> m = bucket_member s \<or> k = schema_index_key \<and> m = schema_str s \<or>
              (k, m) \<in> set (zip (k_variants c) (a_variant_members c))}"
        "\<And>k. k \<noteq> audit_key \<Longrightarrow> streams (view st') k = streams (view st1) k"
        by (rule eff, rule that)
      have ns: "\<not> stored (view st) s" using stored fresh by simp
      then have none: "hashes (view st) (schema_key s) x = None" for x
        using unstored by (simp add: schema_field_def)
      show thesis
      proof (rule that(4) [OF st'(1) guard fresh ns Some])
        show "hashes (view st') (family_key g) x =
          (if g = f \<and> x = ''next_version'' then Some (int_dec i)
           else if g = f \<and> x = ''v:'' @ int_dec i then Some (schema_str s)
           else if g = f \<and> x = ''family_id'' then Some (family_str f)
           else hashes (view st) (family_key g) x)" for g x
          by (simp add: st'(2) h1)
        show "schema_field (view st') t x =
          (if t = s then (if x = ''variants'' then Some (encode_variants_field V vs)
                          else map_of (record_fields c (Some i)) x)
           else schema_field (view st) t x)" for t x
          by (simp add: schema_field_def st'(2) h1 none split: option.splits)
        show "strs (view st') k = (if k = alias_key al \<and> strs (view st) k = None
           then Some (schema_str s) else if k = published_key s then Some (int_dec i)
           else strs (view st) k)" for k
          by (auto simp: st'(3) s1)
        show "sets (view st') k = sets (view st) k \<union>
          {m. k = bkey \<and> m = bucket_member s \<or> k = schema_index_key \<and> m = schema_str s \<or>
              (\<exists>fp. (k, fp) \<in> set vs \<and> m = variant_member fp s)}" for k
          by (simp only: st'(4) e1 zip_mem)
        show "streams (view st') k = streams (view st) k" if "k \<noteq> audit_key" for k
          using st'(5) [OF that] e1 by simp
      qed
    qed
  qed
qed

text \<open>The parts of the invariant after a publish that succeeded.\<close>

lemma index_ok_grow:
  assumes ix: "index_ok ks" and ok: "index_key bkey" "variants_ok vs" "CHR ''='' \<notin> set (id_body s)"
    and stored': "\<And>t. stored ks' t \<longleftrightarrow> t = s \<or> stored ks t"
    and bucket: "\<And>t b. t \<noteq> s \<Longrightarrow> schema_field ks' t ''bucket'' = Some b \<Longrightarrow> schema_field ks t ''bucket'' = Some b"
    and bucket_s: "\<And>b. schema_field ks' s ''bucket'' = Some b \<Longrightarrow>
      b = bkey \<or> stored ks s \<and> schema_field ks s ''bucket'' = Some b"
    and sets: "\<And>k. sets ks' k = sets ks k \<union>
      {m. k = bkey \<and> m = bucket_member s \<or> k = schema_index_key \<and> m = schema_str s \<or>
          (\<exists>fp. (k, fp) \<in> set vs \<and> m = variant_member fp s)}"
  shows "index_ok ks'"
  unfolding index_ok_def
proof (intro conjI allI impI)
  fix x m assume m: "m \<in> sets ks' (''deblob:index:'' @ x)"
  have neq: "''deblob:index:'' @ x \<noteq> schema_index_key" by (simp add: schema_index_key_def)
  from m consider "m \<in> sets ks (''deblob:index:'' @ x)" | "m = bucket_member s"
    | fp b where "(b, fp) \<in> set vs" "m = variant_member fp s"
    using neq by (auto simp: sets)
  then show "\<exists>fp s'. m = variant_member fp s' \<and> CHR ''='' \<notin> set fp \<and> stored ks' s'"
  proof cases
    case 1
    then show ?thesis using ix stored' unfolding index_ok_def by blast
  next
    case 2
    then show ?thesis using ok(3) stored' bucket_member_variant by blast
  next
    case 3
    then show ?thesis using ok(2) stored' unfolding variants_ok_def by fastforce
  qed
next
  fix t b assume t: "stored ks' t" and b: "schema_field ks' t ''bucket'' = Some b"
  show "bucket_member t \<in> sets ks' b"
  proof (cases "t = s")
    case True
    with b bucket_s [of b] ix show ?thesis by (auto simp: sets index_ok_def)
  next
    case False
    with t b bucket [of t b] stored' have "stored ks t" "schema_field ks t ''bucket'' = Some b" by auto
    then show ?thesis using ix by (auto simp: sets index_ok_def)
  qed
next
  have "schema_index_key \<noteq> bkey" using index_key_neq [OF ok(1)] by blast
  moreover have "(schema_index_key, fp) \<notin> set vs" for fp
    using ok(2) index_key_neq unfolding variants_ok_def by fastforce
  ultimately have "sets ks' schema_index_key = sets ks schema_index_key \<union> {schema_str s}"
    by (auto simp: sets)
  then show "sets ks' schema_index_key = {schema_str s |s. stored ks' s}"
    using ix by (auto simp: index_ok_def stored')
qed

lemma publish_script_inv:
  assumes inv: "vault_inv b32 C V (view st)" and ok: "publish_ok b32 rec bkey vs"
    and run: "publish_script R (publish_call_of C V rec al bkey vs ac re now) st = (r, st')"
  shows "vault_inv b32 C V (view st')"
proof -
  let ?s = "rec_schema_id rec" and ?f = "rec_family_id rec" and ?ks = "view st" and ?ks' = "view st'"
  have idx: "index_key bkey" "variants_ok vs" "schema_id_ok b32 ?s" "CHR ''='' \<notin> set (id_body ?s)"
    using ok by (auto simp: publish_ok_def schema_id_ok_def)
  have kinv: "counters_ok ?ks" "versions_ok ?ks" "records_ok b32 C V ?ks" "index_ok ?ks"
    using inv by (auto simp: vault_inv_def)
  have no_sets: "\<not> (schema_key t = bkey \<or> (\<exists>fp. (schema_key t, fp) \<in> set vs))" for t
    using index_key_not_schema idx unfolding variants_ok_def by blast
  show ?thesis
    using inv
  proof (rule publish_script_cases [OF refl refl refl, where C = C and V = V and rec = rec and al = al
        and bkey = bkey and vs = vs and ac = ac and re = re and now = now])
    fix i st1
    assume *: "publish_script R (publish_call_of C V rec al bkey vs ac re now) st = (Inr i, st1)"
      and p: "published_at ?ks ?s = Some (int_dec i)" and old: "stored ?ks ?s"
      and h: "\<And>k x. hashes (view st1) k x = (if k = schema_key ?s \<and> x = ''variants''
        then Some (encode_variants_field V vs) else hashes ?ks k x)"
      and strs: "\<And>k. strs (view st1) k = (if k = alias_key al \<and> strs ?ks k = None
        then Some (schema_str ?s) else strs ?ks k)"
      and sets: "\<And>k. sets (view st1) k = sets ?ks k \<union>
        {m. k = bkey \<and> m = bucket_member ?s \<or> k = schema_index_key \<and> m = schema_str ?s \<or>
            (\<exists>fp. (k, fp) \<in> set vs \<and> m = variant_member fp ?s)}"
      and streams: "\<And>k. k \<noteq> audit_key \<Longrightarrow> streams (view st1) k = streams ?ks k"
    from * run have st1: "st1 = st'" by simp
    note eff = h [unfolded st1] strs [unfolded st1] sets [unfolded st1] streams [unfolded st1]
    have pub: "published_at ?ks' t = published_at ?ks t" for t
      by (simp add: published_at_def eff)
    have field: "schema_field ?ks' t x = (if t = ?s \<and> x = ''variants''
        then Some (encode_variants_field V vs) else schema_field ?ks t x)" for t x
      by (simp add: schema_field_def eff)
    have stored': "stored ?ks' t \<longleftrightarrow> t = ?s \<or> stored ?ks t" for t
      using old by (auto simp: stored_def field)
    have "counters_ok ?ks' \<and> versions_ok ?ks'"
      using versions_cong [of ?ks' ?ks] kinv pub by (simp add: eff)
    moreover have "records_ok b32 C V ?ks'"
      unfolding records_ok_def
    proof (intro conjI allI impI)
      fix t
      show "hash_ok b32 C V ?ks' t" if "stored ?ks' t"
      proof -
        have "stored ?ks t" using that stored' [of t] old by auto
        then have "hash_ok b32 C V ?ks t" using kinv(3) by (simp add: records_ok_def)
        then show ?thesis using idx(2) by (auto simp: hash_ok_def field pub)
      qed
      assume "\<not> stored ?ks' t"
      then have "\<not> stored ?ks t" "t \<noteq> ?s" using stored' by auto
      then show "published_at ?ks' t = None" "schema_field ?ks' t x = None" for x
        using kinv(3) by (auto simp: records_ok_def field pub)
    next
      fix t
      show "strs ?ks' (schema_key t) = None" "sets ?ks' (schema_key t) = {}"
        "streams ?ks' (schema_key t) = []"
        using kinv(3) no_sets [of t] by (auto simp: records_ok_def eff)
    qed
    moreover have "index_ok ?ks'"
      by (rule index_ok_grow [OF kinv(4) idx(1,2,4) stored']) (auto simp: field old eff)
    ultimately show ?thesis by (simp add: vault_inv_def)
  next
    fix i st1
    assume *: "publish_script R (publish_call_of C V rec al bkey vs ac re now) st = (Inr i, st1)"
      and fresh: "published_at ?ks ?s = None" "\<not> stored ?ks ?s"
      and inc: "incremented (hashes ?ks (family_key ?f) ''next_version'') 1 = Some i"
      and fam: "\<And>g x. hashes (view st1) (family_key g) x =
        (if g = ?f \<and> x = ''next_version'' then Some (int_dec i)
         else if g = ?f \<and> x = ''v:'' @ int_dec i then Some (schema_str ?s)
         else if g = ?f \<and> x = ''family_id'' then Some (family_str ?f)
         else hashes ?ks (family_key g) x)"
      and field: "\<And>t x. schema_field (view st1) t x =
        (if t = ?s then (if x = ''variants'' then Some (encode_variants_field V vs)
           else map_of (record_fields (publish_call_of C V rec al bkey vs ac re now) (Some i)) x)
         else schema_field ?ks t x)"
      and strs: "\<And>k. strs (view st1) k = (if k = alias_key al \<and> strs ?ks k = None
         then Some (schema_str ?s) else if k = published_key ?s then Some (int_dec i)
         else strs ?ks k)"
      and sets: "\<And>k. sets (view st1) k = sets ?ks k \<union>
        {m. k = bkey \<and> m = bucket_member ?s \<or> k = schema_index_key \<and> m = schema_str ?s \<or>
            (\<exists>fp. (k, fp) \<in> set vs \<and> m = variant_member fp ?s)}"
      and streams: "\<And>k. k \<noteq> audit_key \<Longrightarrow> streams (view st1) k = streams ?ks k"
    from * run have st1: "st1 = st'" by simp
    note eff = field [unfolded st1] strs [unfolded st1] sets [unfolded st1] streams [unfolded st1]
    have pub: "published_at ?ks' t = (if t = ?s then Some (int_dec i) else published_at ?ks t)" for t
      by (simp add: published_at_def eff)
    have stored': "stored ?ks' t \<longleftrightarrow> t = ?s \<or> stored ?ks t" for t
      by (simp add: stored_def eff(1) record_fields_def)
    have "counters_ok ?ks' \<and> versions_ok ?ks'"
      by (rule allocate_ok [OF kinv(1,2) inc fresh(1) fam [unfolded st1] pub])
    moreover have "records_ok b32 C V ?ks'"
      unfolding records_ok_def
    proof (intro conjI allI impI)
      fix t
      show "hash_ok b32 C V ?ks' t" if "stored ?ks' t"
      proof (cases "t = ?s")
        case True
        then show ?thesis using idx by (auto simp: hash_ok_def eff(1) pub record_fields_def)
      next
        case False
        then have "hash_ok b32 C V ?ks t" using that stored' kinv(3) by (simp add: records_ok_def)
        then show ?thesis using False by (simp add: hash_ok_def eff(1) pub)
      qed
      assume "\<not> stored ?ks' t"
      then have "\<not> stored ?ks t" "t \<noteq> ?s" using stored' by auto
      then show "published_at ?ks' t = None" "schema_field ?ks' t x = None" for x
        using kinv(3) by (auto simp: records_ok_def eff(1) pub)
    next
      fix t
      show "strs ?ks' (schema_key t) = None" "sets ?ks' (schema_key t) = {}"
        "streams ?ks' (schema_key t) = []"
        using kinv(3) no_sets [of t] by (auto simp: records_ok_def eff(2-))
    qed
    moreover have "index_ok ?ks'"
      by (rule index_ok_grow [OF kinv(4) idx(1,2,4) stored'])
        (auto simp: eff(1) record_fields_def fresh eff(3))
    ultimately show ?thesis by (simp add: vault_inv_def)
  qed (use run inv in auto)
qed

end

end
