(* ===== verification/Vault_Rebuild.thy ===== *)
theory Vault_Rebuild
  imports Vault_Inv
begin

text \<open>
  Rebuilding the structural index from the schema hashes: it deletes the index and writes it
  again from what the hashes record. On a vault that satisfies the invariant it succeeds and
  the invariant holds afterwards.
\<close>

lemma schema_key_prefix: "(\<exists>x. k = ''deblob:schema:'' @ x) \<longleftrightarrow> (\<exists>s. k = schema_key s)"
proof
  assume "\<exists>x. k = ''deblob:schema:'' @ x"
  then obtain x where "k = schema_key (SchemaId x)" by (auto simp: schema_key_def)
  then show "\<exists>s. k = schema_key s" by blast
qed (auto simp: schema_key_def)

lemma sch_id_str_key [simp]: "sch_id_str (schema_key s) = schema_str s"
  by (simp add: sch_id_str_def schema_key_def del: append.simps)

lemma glob_free_prefixes [simp]: "glob_free ''deblob:index:''" "glob_free ''deblob:schema:''"
  by (simp_all add: glob_free_def)

lemma index_key_pattern_star: "index_key_pattern = ''deblob:index:'' @ ''*''"
  by (simp add: index_key_pattern_def)

lemma decode_encode_variants:
  assumes "codec_ok V" "variants_ok vs"
  shows "decode_variants_field V (encode_variants_field V vs) = vs"
proof -
  have "List.map_filter (split_once (CHR ''='')) (map (\<lambda>(b, fp). b @ ''='' @ fp) vs) = vs"
    using assms(2)
    by (induction vs) (auto simp: map_filter_simps variants_ok_def index_key_def)
  then show ?thesis using assms(1) by (simp add: decode_variants_field_def encode_variants_field_def)
qed

lemma variants_okD: "variants_ok vs \<Longrightarrow> (b, fp) \<in> set vs \<Longrightarrow> index_key b \<and> CHR ''='' \<notin> set fp"
  by (auto simp: variants_ok_def)

text \<open>What one schema contributes to the sets of the index.\<close>

definition indexed_by :: "bytes list codec \<Rightarrow> keyspace \<Rightarrow> schema_id \<Rightarrow> bytes \<Rightarrow> bytes \<Rightarrow> bool" where
  "indexed_by V ks s k m \<longleftrightarrow>
     (k = schema_index_key \<and> m = schema_str s) \<or>
     (schema_field ks s ''bucket'' = Some k \<and> m = bucket_member s) \<or>
     (\<exists>vs fp. schema_field ks s ''variants'' = Some (encode_variants_field V vs) \<and> variants_ok vs \<and>
        (k, fp) \<in> set vs \<and> m = variant_member fp s)"

context redis_service
begin

lemma del_frames:
  "strs (view (foldl (\<lambda>st k. r_del R k st) st ks)) k = (if k \<in> set ks then None else strs (view st) k) \<and>
   hashes (view (foldl (\<lambda>st k. r_del R k st) st ks)) k = (if k \<in> set ks then \<lambda>_. None else hashes (view st) k) \<and>
   sets (view (foldl (\<lambda>st k. r_del R k st) st ks)) k = (if k \<in> set ks then {} else sets (view st) k) \<and>
   streams (view (foldl (\<lambda>st k. r_del R k st) st ks)) k = (if k \<in> set ks then [] else streams (view st) k)"
proof (induction ks arbitrary: st)
  case (Cons a ks)
  show ?case
    using Cons.IH [of "r_del R a st"] by (auto simp: del)
qed simp

lemma delete_pages_frames:
  "strs (view (delete_pages R pages st)) k = (if k \<in> set (concat pages) then None else strs (view st) k)"
  "hashes (view (delete_pages R pages st)) k = (if k \<in> set (concat pages) then \<lambda>_. None else hashes (view st) k)"
  "sets (view (delete_pages R pages st)) k = (if k \<in> set (concat pages) then {} else sets (view st) k)"
  "streams (view (delete_pages R pages st)) k = (if k \<in> set (concat pages) then [] else streams (view st) k)"
proof (induction pages arbitrary: st)
  case (Cons ks pages)
  case 1 show ?case using Cons(1) del_frames [of st ks k] by simp
  case 2 show ?case using Cons(2) del_frames [of st ks k] by simp
  case 3 show ?case using Cons(3) del_frames [of st ks k] by simp
  case 4 show ?case using Cons(4) del_frames [of st ks k] by simp
qed simp_all

lemma not_existing:
  assumes "\<not> key_exists ks k"
  shows "strs ks k = None" "hashes ks k = (\<lambda>_. None)" "sets ks k = {}" "streams ks k = []"
  using assms by (auto simp: key_exists_def)

lemma delete_matching_frames:
  assumes "glob_free p"
  shows "strs (view (delete_matching R (p @ ''*'') st)) k =
      (if \<exists>x. k = p @ x then None else strs (view st) k)"
    "hashes (view (delete_matching R (p @ ''*'') st)) k =
      (if \<exists>x. k = p @ x then \<lambda>_. None else hashes (view st) k)"
    "sets (view (delete_matching R (p @ ''*'') st)) k =
      (if \<exists>x. k = p @ x then {} else sets (view st) k)"
    "streams (view (delete_matching R (p @ ''*'') st)) k =
      (if \<exists>x. k = p @ x then [] else streams (view st) k)"
  using not_existing [of "view st" k]
  by (auto simp: delete_matching_def delete_pages_frames scan [OF assms] simp del: set_concat)

lemma rebuild_keys_effect:
  assumes V: "codec_ok V" and ok: "\<forall>s. stored (view st) s \<longrightarrow> hash_ok b32 C V (view st) s"
    and keys: "\<forall>k\<in>set keys. \<exists>s. k = schema_key s \<and> stored (view st) s"
  shows "\<exists>st'. rebuild_keys R b32 V keys n st = (Inr (n + length keys), st') \<and>
     strs (view st') = strs (view st) \<and> hashes (view st') = hashes (view st) \<and>
     streams (view st') = streams (view st) \<and>
     (\<forall>k. sets (view st') k = sets (view st) k \<union>
        {m. \<exists>s. schema_key s \<in> set keys \<and> indexed_by V (view st) s k m})"
  using ok keys
proof (induction keys arbitrary: n st)
  case (Cons key keys)
  obtain s where s: "key = schema_key s" "stored (view st) s" using Cons.prems(2) by auto
  then have h: "hash_ok b32 C V (view st) s" using Cons.prems(1) by blast
  then obtain b vs where b: "schema_field (view st) s ''bucket'' = Some b"
    and vs: "schema_field (view st) s ''variants'' = Some (encode_variants_field V vs)" "variants_ok vs"
    and parse: "schema_id_parse b32 (schema_str s) = Inr s"
    by (auto simp: hash_ok_def schema_id_ok_def)
  define st1 where "st1 = r_sadd R b (bucket_member s) (r_sadd R schema_index_key (schema_str s) st)"
  define st2 where "st2 = sadd_all R (map (\<lambda>(vb, fp). (vb, variant_member fp s)) vs) st1"
  have run: "rebuild_keys R b32 V (key # keys) n st = rebuild_keys R b32 V keys (n + 1) st2"
    using b vs
    by (simp add: s(1) hget sadd parse schema_field_def decode_encode_variants [OF V vs(2)]
        st1_def st2_def Let_def)
  have frame: "strs (view st2) = strs (view st)" "hashes (view st2) = hashes (view st)"
    "streams (view st2) = streams (view st)"
    by (simp_all add: st2_def frames st1_def sadd)
  have same: "stored (view st2) = stored (view st)" "hash_ok b32 C V (view st2) = hash_ok b32 C V (view st)"
    "indexed_by V (view st2) = indexed_by V (view st)"
    by (simp_all add: fun_eq_iff stored_def hash_ok_def indexed_by_def schema_field_def
        published_at_def frame)
  have uniq: "vs' = vs" if "schema_field (view st) s ''variants'' = Some (encode_variants_field V vs')"
    "variants_ok vs'" for vs'
    using that vs decode_encode_variants [OF V] by (metis option.inject)
  have sets: "sets (view st2) k = sets (view st) k \<union> {m. indexed_by V (view st) s k m}" for k
  proof -
    have "indexed_by V (view st) s k m \<longleftrightarrow> (k = schema_index_key \<and> m = schema_str s) \<or>
        (b = k \<and> m = bucket_member s) \<or> (\<exists>fp. (k, fp) \<in> set vs \<and> m = variant_member fp s)" for m
      unfolding indexed_by_def b using vs uniq by blast
    then show ?thesis
      by (auto simp: st2_def sets_sadd_all st1_def sadd split: if_splits)
  qed
  obtain st' where "rebuild_keys R b32 V keys (n + 1) st2 = (Inr (n + 1 + length keys), st')"
    "strs (view st') = strs (view st2)" "hashes (view st') = hashes (view st2)"
    "streams (view st') = streams (view st2)"
    "\<forall>k. sets (view st') k = sets (view st2) k \<union>
      {m. \<exists>s. schema_key s \<in> set keys \<and> indexed_by V (view st2) s k m}"
    using Cons.IH [of st2 "n + 1"] Cons.prems same by auto
  then show ?case
    unfolding run by (intro exI [of _ st']) (auto simp: frame sets same s(1))
qed simp

text \<open>Whatever state the index was in: the records alone determine it.\<close>

lemma rebuild_index_restores:
  assumes V: "codec_ok V" and rec: "records_ok b32 C V (view st)"
    and kinv: "counters_ok (view st)" "versions_ok (view st)"
  shows "\<exists>n st'. rebuild_index R b32 V st = (Inr n, st') \<and> vault_inv b32 C V (view st') \<and>
    (\<forall>k. (\<nexists>x. k = ''deblob:index:'' @ x) \<longrightarrow> k \<noteq> schema_index_key \<longrightarrow> strs (view st') k = strs (view st) k \<and>
       hashes (view st') k = hashes (view st) k \<and> sets (view st') k = sets (view st) k \<and>
       streams (view st') k = streams (view st) k) \<and>
    (\<forall>x m. m \<in> sets (view st') (''deblob:index:'' @ x) \<longleftrightarrow>
       (\<exists>s. stored (view st) s \<and> indexed_by V (view st) s (''deblob:index:'' @ x) m))"
proof -
  let ?ks = "view st"
  define st1 where "st1 = delete_matching R (''deblob:index:'' @ ''*'') st"
  define st2 where "st2 = r_del R schema_index_key st1"
  define keys where "keys = concat (r_scan R (''deblob:schema:'' @ ''*'') st2)"
  note f1 = delete_matching_frames [OF glob_free_prefixes(1), of st, folded st1_def]
  have idx: "(\<exists>x. schema_index_key = ''deblob:index:'' @ x) \<longleftrightarrow> False"
    by (simp add: schema_index_key_def)
  have outside: "(\<nexists>x. schema_key s = ''deblob:index:'' @ x)" "(\<nexists>x. family_key f = ''deblob:index:'' @ x)"
    "(\<nexists>x. published_key s = ''deblob:index:'' @ x)" for s f
    by (simp_all add: schema_key_def family_key_def published_key_def)
  have empty: "sets (view st2) k = {}" if k: "k = ''deblob:index:'' @ x" for k x
  proof -
    have "k \<noteq> schema_index_key" using idx k by blast
    moreover have "\<exists>y. k = ''deblob:index:'' @ y" using k by blast
    ultimately show ?thesis by (simp add: st2_def del f1(3))
  qed
  have h2: "hashes (view st2) k = hashes ?ks k" "strs (view st2) k = strs ?ks k"
    if "\<nexists>x. k = ''deblob:index:'' @ x" "k \<noteq> schema_index_key" for k
    using that by (simp_all add: st2_def del f1)
  have field: "schema_field (view st2) s x = schema_field ?ks s x" for s x
    using h2(1) [of "schema_key s"] outside by (simp add: schema_field_def)
  have pub: "published_at (view st2) s = published_at ?ks s" for s
    using h2(2) [of "published_key s"] outside(3)
    by (simp add: published_at_def published_key_def schema_index_key_def)
  have fam: "hashes (view st2) (family_key f) x = hashes ?ks (family_key f) x" for f x
    using h2(1) [of "family_key f"] outside(2) by (simp add: family_key_def schema_index_key_def)
  have stored: "stored (view st2) = stored ?ks"
    by (simp add: fun_eq_iff stored_def field)
  have schema_spaces: "strs (view st2) (schema_key s) = None" "sets (view st2) (schema_key s) = {}"
    "streams (view st2) (schema_key s) = []" for s
    using rec outside(1) [of s] by (simp_all add: st2_def del f1 records_ok_def)
  have hash2: "hash_ok b32 C V (view st2) s" if "stored ?ks s" for s
    using rec that by (auto simp: records_ok_def hash_ok_def field pub)
  have exists: "key_exists (view st2) (schema_key s) \<longleftrightarrow> stored ?ks s" for s
  proof -
    have "(\<exists>f. schema_field ?ks s f \<noteq> None) \<longleftrightarrow> stored ?ks s"
      using rec by (auto simp: records_ok_def stored_def)
    then show ?thesis
      using schema_spaces [of s] field [of s] by (simp add: key_exists_def schema_field_def)
  qed
  have keys: "set keys = {k. \<exists>s. k = schema_key s \<and> stored ?ks s}"
    unfolding keys_def scan [OF glob_free_prefixes(2)] schema_key_prefix using exists by blast
  obtain st' where run: "rebuild_keys R b32 V keys 0 st2 = (Inr (0 + length keys), st')"
    and f': "strs (view st') = strs (view st2)" "hashes (view st') = hashes (view st2)"
      "streams (view st') = streams (view st2)"
    and sets': "\<forall>k. sets (view st') k = sets (view st2) k \<union>
      {m. \<exists>s. schema_key s \<in> set keys \<and> indexed_by V (view st2) s k m}"
    using rebuild_keys_effect [OF V, of st2 b32 C keys 0] hash2 stored keys by auto
  have ind: "indexed_by V (view st2) = indexed_by V ?ks"
    by (simp add: fun_eq_iff indexed_by_def field)
  have sets: "sets (view st') k = sets (view st2) k \<union> {m. \<exists>s. stored ?ks s \<and> indexed_by V ?ks s k m}" for k
    using sets' keys by (auto simp: ind)
  have field': "schema_field (view st') s x = schema_field ?ks s x" for s x
    by (simp add: schema_field_def f') (simp add: field [unfolded schema_field_def])
  have pub': "published_at (view st') s = published_at ?ks s" for s
    using pub by (simp add: published_at_def f')
  have stored': "stored (view st') = stored ?ks" by (simp add: fun_eq_iff stored_def field')
  have bucket: "\<exists>x. k = ''deblob:index:'' @ x" if "stored ?ks s" "schema_field ?ks s ''bucket'' = Some k" for s k
  proof -
    have "hash_ok b32 C V ?ks s" using rec that(1) by (simp add: records_ok_def)
    then show ?thesis using that(2) by (auto simp: hash_ok_def index_key_def)
  qed
  have "counters_ok (view st') \<and> versions_ok (view st')"
    by (rule versions_cong [OF _ pub' kinv(1,2)]) (simp add: f' fam)
  moreover have "records_ok b32 C V (view st')"
    unfolding records_ok_def
  proof (intro conjI allI impI)
    fix s
    have not_ix: "\<not> indexed_by V ?ks t (schema_key s) m" if "stored ?ks t" for t m
      using bucket [OF that] outside(1) [of s] index_key_not_schema
      by (fastforce simp: indexed_by_def variants_ok_def)
    show "strs (view st') (schema_key s) = None" "streams (view st') (schema_key s) = []"
      using schema_spaces by (simp_all add: f')
    show "sets (view st') (schema_key s) = {}"
      using schema_spaces not_ix by (auto simp: sets)
  qed (use rec in \<open>auto simp: records_ok_def hash_ok_def field' pub' stored'\<close>)
  moreover have "index_ok (view st')"
    unfolding index_ok_def stored'
  proof (intro conjI allI impI)
    fix x m assume "m \<in> sets (view st') (''deblob:index:'' @ x)"
    then obtain s where s: "stored ?ks s" "indexed_by V ?ks s (''deblob:index:'' @ x) m"
      using empty [OF refl] by (auto simp: sets)
    have "CHR ''='' \<notin> set (id_body s)" using rec s(1) by (auto simp: records_ok_def hash_ok_def schema_id_ok_def)
    with s show "\<exists>fp s. m = variant_member fp s \<and> CHR ''='' \<notin> set fp \<and> stored ?ks s"
      using idx [symmetric] variants_okD unfolding indexed_by_def bucket_member_variant by metis
  next
    fix s b assume "stored ?ks s" "schema_field (view st') s ''bucket'' = Some b"
    then show "bucket_member s \<in> sets (view st') b"
      by (auto simp: sets indexed_by_def field')
  next
    have "(\<exists>s. stored ?ks s \<and> indexed_by V ?ks s schema_index_key m) \<longleftrightarrow>
        (\<exists>s. m = schema_str s \<and> stored ?ks s)" for m
    proof -
      have "\<not> (\<exists>fp. (schema_index_key, fp) \<in> set vs)" if "variants_ok vs" for vs
        using that index_key_neq unfolding variants_ok_def by fastforce
      moreover have "schema_field ?ks s ''bucket'' \<noteq> Some schema_index_key" if "stored ?ks s" for s
        using bucket [OF that] idx by blast
      ultimately show ?thesis unfolding indexed_by_def by blast
    qed
    then show "sets (view st') schema_index_key = {schema_str s |s. stored ?ks s}"
      by (simp add: sets st2_def del)
  qed
  ultimately have "vault_inv b32 C V (view st')" by (simp add: vault_inv_def)
  moreover have "rebuild_index R b32 V st = (Inr (length keys), st')"
    using run by (simp add: rebuild_index_def Let_def index_key_pattern_star keys_def st2_def st1_def)
  moreover have "m \<in> sets (view st') (''deblob:index:'' @ x) \<longleftrightarrow>
      (\<exists>s. stored ?ks s \<and> indexed_by V ?ks s (''deblob:index:'' @ x) m)" for x m
    using empty [OF refl, of x] sets [of "''deblob:index:'' @ x"] by blast
  moreover have "\<forall>k. (\<nexists>x. k = ''deblob:index:'' @ x) \<longrightarrow> k \<noteq> schema_index_key \<longrightarrow>
      strs (view st') k = strs ?ks k \<and> hashes (view st') k = hashes ?ks k \<and> sets (view st') k = sets ?ks k \<and>
      streams (view st') k = streams ?ks k"
  proof (intro allI impI)
    fix k assume k: "\<nexists>x. k = ''deblob:index:'' @ x" "k \<noteq> schema_index_key"
    have "\<not> index_key k" using k(1) by (simp add: index_key_def)
    moreover have "schema_field ?ks s ''bucket'' \<noteq> Some k" if "stored ?ks s" for s
      using bucket [OF that] k(1) by blast
    ultimately have "\<not> indexed_by V ?ks s k m" if "stored ?ks s" for s m
      using that k(2) variants_okD unfolding indexed_by_def by blast
    then have "sets (view st') k = sets (view st2) k" by (auto simp: sets)
    moreover have "sets (view st2) k = sets ?ks k" "streams (view st2) k = streams ?ks k"
      using k by (simp_all add: st2_def del f1)
    ultimately show "strs (view st') k = strs ?ks k \<and> hashes (view st') k = hashes ?ks k \<and> sets (view st') k = sets ?ks k \<and>
      streams (view st') k = streams ?ks k" using f' h2 [OF k] by simp
  qed
  ultimately show ?thesis by blast
qed

lemma rebuild_index_inv:
  assumes V: "codec_ok V" and inv: "vault_inv b32 C V (view st)"
  shows "\<exists>n st'. rebuild_index R b32 V st = (Inr n, st') \<and> vault_inv b32 C V (view st') \<and>
    (\<forall>k. (\<nexists>x. k = ''deblob:index:'' @ x) \<longrightarrow> k \<noteq> schema_index_key \<longrightarrow> strs (view st') k = strs (view st) k \<and>
       hashes (view st') k = hashes (view st) k)"
proof -
  have "records_ok b32 C V (view st)" "counters_ok (view st)" "versions_ok (view st)"
    using inv by (auto simp: vault_inv_def)
  from rebuild_index_restores [OF V this] show ?thesis by blast
qed

end

end
