(* ===== verification/Vault_Theorems.thy ===== *)
theory Vault_Theorems
  imports Vault_Rebuild
begin

text \<open>
  The vault as a transition system. A step is a call of the registry (publishing, naming,
  rebuilding the index) or anything another component does to keys that are not the vault's.
  The theorems hold along every run: what was published stays as it was, versions are
  allocated consecutively, and the index never points at a schema that is not there.
\<close>

section \<open>Steps\<close>

definition vault_key :: "bytes \<Rightarrow> bool" where
  "vault_key k \<longleftrightarrow> k = schema_index_key \<or>
     (\<exists>p\<in>{''deblob:schema:'', ''deblob:family:'', ''deblob:alias:'', ''deblob:published:'', ''deblob:index:''}.
        \<exists>x. k = p @ x)"

definition same_vault :: "keyspace \<Rightarrow> keyspace \<Rightarrow> bool" where
  "same_vault ks ks' \<longleftrightarrow> (\<forall>k. vault_key k \<longrightarrow>
     strs ks k = strs ks' k \<and> hashes ks k = hashes ks' k \<and> sets ks k = sets ks' k \<and>
     streams ks k = streams ks' k)"

text \<open>The parameters of a deployment: the codecs and the base32 decoder.\<close>

record codecs =
  schema_codec :: "schema_record codec"
  strings_codec :: "bytes list codec"
  json_codec :: "json codec"
  base32_dec :: "bytes \<Rightarrow> bytes option"

inductive vault_step :: "'st redis \<Rightarrow> ('st \<Rightarrow> keyspace) \<Rightarrow> codecs \<Rightarrow> 'st \<Rightarrow> 'st \<Rightarrow> bool"
  for R view D
where
  step_publish: "publish_ok (base32_dec D) rec bkey variants \<Longrightarrow>
    publish R (schema_codec D) (strings_codec D) health rec alias_from bkey variants actor reason now st
      = (res, st') \<Longrightarrow> vault_step R view D st st'"
| step_name: "set_schema_name R (json_codec D) health i label source meta now st = (out, st') \<Longrightarrow>
    vault_step R view D st st'"
| step_rebuild: "rebuild_index R (base32_dec D) (strings_codec D) st = (n, st') \<Longrightarrow>
    vault_step R view D st st'"
| step_other: "same_vault (view st) (view st') \<Longrightarrow> vault_step R view D st st'"

definition vault_run :: "'st redis \<Rightarrow> ('st \<Rightarrow> keyspace) \<Rightarrow> codecs \<Rightarrow> 'st \<Rightarrow> 'st \<Rightarrow> bool" where
  "vault_run R view D = (vault_step R view D)\<^sup>*\<^sup>*"

abbreviation vault_ok :: "codecs \<Rightarrow> keyspace \<Rightarrow> bool" where
  "vault_ok D \<equiv> vault_inv (base32_dec D) (schema_codec D) (strings_codec D)"

text \<open>A vault nothing was ever written to.\<close>

definition vault_empty :: "keyspace \<Rightarrow> bool" where
  "vault_empty ks \<longleftrightarrow> (\<forall>k. vault_key k \<longrightarrow> \<not> key_exists ks k)"

lemma vault_key_intros [simp]:
  "vault_key (schema_key s)" "vault_key (family_key f)" "vault_key (alias_key a)"
  "vault_key (published_key s)" "vault_key schema_index_key"
  by (auto simp: vault_key_def schema_key_def family_key_def alias_key_def published_key_def)

lemma vault_key_index: "vault_key (''deblob:index:'' @ x)"
  unfolding vault_key_def by (rule disjI2, rule bexI [of _ "''deblob:index:''"]) (rule exI, rule refl, simp)

lemma same_vaultD:
  assumes "same_vault ks ks'"
  shows "schema_field ks' s x = schema_field ks s x" "stored ks' s = stored ks s"
    "published_at ks' s = published_at ks s" "version_at ks' f i = version_at ks f i"
    "counter ks' f = counter ks f" "strs ks' (alias_key a) = strs ks (alias_key a)"
  using assms
  by (simp_all add: same_vault_def schema_field_def stored_def published_at_def version_at_def
      counter_def)

lemma vault_ok_same:
  assumes same: "same_vault ks ks'" and inv: "vault_inv b32 C V ks"
  shows "vault_inv b32 C V ks'"
proof -
  note eqs = same_vaultD [OF same]
  have fam: "hashes ks' (family_key f) x = hashes ks (family_key f) x" for f x
    using same by (simp add: same_vault_def)
  have "counters_ok ks' \<and> versions_ok ks'"
    using inv by (intro versions_cong [OF fam eqs(3)]) (auto simp: vault_inv_def)
  moreover have "strs ks' (schema_key s) = strs ks (schema_key s)"
    "sets ks' (schema_key s) = sets ks (schema_key s)"
    "streams ks' (schema_key s) = streams ks (schema_key s)" for s
    using same by (simp_all add: same_vault_def)
  then have "records_ok b32 C V ks'"
    using inv by (simp add: vault_inv_def records_ok_def hash_ok_def eqs)
  moreover have "sets ks' (''deblob:index:'' @ x) = sets ks (''deblob:index:'' @ x)" for x
    using same vault_key_index unfolding same_vault_def by metis
  moreover have "sets ks' b = sets ks b"
    if "stored ks s" "schema_field ks s ''bucket'' = Some b" for s b
  proof -
    have "index_key b" using inv that by (auto simp: vault_inv_def records_ok_def hash_ok_def)
    then obtain x where "b = ''deblob:index:'' @ x" by (auto simp: index_key_def)
    then show ?thesis using same vault_key_index unfolding same_vault_def by metis
  qed
  moreover have "sets ks' schema_index_key = sets ks schema_index_key"
    using same by (simp add: same_vault_def)
  ultimately show ?thesis
    using inv by (simp add: vault_inv_def index_ok_def eqs del: append.simps)
qed

lemma vault_ok_empty:
  assumes "vault_empty ks" shows "vault_inv b32 C V ks"
proof -
  have none: "strs ks k = None" "hashes ks k = (\<lambda>_. None)" "sets ks k = {}" "streams ks k = []"
    if "vault_key k" for k
    using assms that by (auto simp: vault_empty_def key_exists_def)
  have c: "counter ks f = 0" "version_at ks f i = None" "published_at ks s = None"
    "schema_field ks s x = None" "\<not> stored ks s" for f i s x
    by (simp_all add: none counter_def version_at_def published_at_def schema_field_def stored_def)
  show ?thesis
    using none vault_key_index
    by (simp add: vault_inv_def counters_ok_def versions_ok_def records_ok_def index_ok_def c
        del: append.simps)
qed

section \<open>What every step keeps\<close>

text \<open>Facts of the vault that no step takes back.\<close>

definition vault_keeps :: "keyspace \<Rightarrow> keyspace \<Rightarrow> bool" where
  "vault_keeps ks ks' \<longleftrightarrow>
     (\<forall>s f x. f \<in> {''record'', ''canonical'', ''canonicalizer'', ''family'', ''version'', ''bucket''} \<longrightarrow>
        schema_field ks s f = Some x \<longrightarrow> schema_field ks' s f = Some x) \<and>
     (\<forall>a x. strs ks (alias_key a) = Some x \<longrightarrow> strs ks' (alias_key a) = Some x) \<and>
     (\<forall>s p. published_at ks s = Some p \<longrightarrow> published_at ks' s = Some p) \<and>
     (\<forall>f i t. version_at ks f i = Some t \<longrightarrow> version_at ks' f i = Some t) \<and>
     (\<forall>f. counter ks f \<le> counter ks' f)"

lemma vault_keeps_refl: "vault_keeps ks ks"
  by (simp add: vault_keeps_def)

lemma vault_keeps_trans: "vault_keeps ks ks' \<Longrightarrow> vault_keeps ks' ks'' \<Longrightarrow> vault_keeps ks ks''"
  unfolding vault_keeps_def by (meson order_trans)

lemma vault_keeps_same: "same_vault ks ks' \<Longrightarrow> vault_keeps ks ks'"
  by (simp add: vault_keeps_def same_vaultD)

lemma vault_keepsI:
  assumes "\<And>s f. f \<noteq> ''variants'' \<Longrightarrow> f \<notin> {''name_label'', ''name_source'', ''name_updated_ms'', ''name_meta''} \<Longrightarrow>
      schema_field ks s f \<noteq> None \<Longrightarrow> schema_field ks' s f = schema_field ks s f"
    and "\<And>a. strs ks (alias_key a) \<noteq> None \<Longrightarrow> strs ks' (alias_key a) = strs ks (alias_key a)"
    and "\<And>s. published_at ks s \<noteq> None \<Longrightarrow> published_at ks' s = published_at ks s"
    and "\<And>f i. version_at ks f i \<noteq> None \<Longrightarrow> version_at ks' f i = version_at ks f i"
    and "\<And>f. counter ks f \<le> counter ks' f"
  shows "vault_keeps ks ks'"
  using assms unfolding vault_keeps_def by auto

context redis_service
begin

lemma publish_script_keeps:
  assumes inv: "vault_inv b32 C V (view st)"
    and run: "publish_script R (publish_call_of C V rec al bkey vs ac re now) st = (r, st')"
  shows "vault_keeps (view st) (view st')"
  using inv
proof (rule publish_script_cases [OF refl refl refl, where C = C and V = V and rec = rec and al = al
      and bkey = bkey and vs = vs and ac = ac and re = re and now = now])
  let ?s = "rec_schema_id rec" and ?f = "rec_family_id rec"
  fix i st1
  assume "publish_script R (publish_call_of C V rec al bkey vs ac re now) st = (Inr i, st1)"
    and h: "\<And>k x. hashes (view st1) k x = (if k = schema_key ?s \<and> x = ''variants''
        then Some (encode_variants_field V vs) else hashes (view st) k x)"
    and s: "\<And>k. strs (view st1) k = (if k = alias_key al \<and> strs (view st) k = None
        then Some (schema_str ?s) else strs (view st) k)"
  with run have st1: "st1 = st'" by simp
  show ?thesis
    by (rule vault_keepsI)
      (auto simp: schema_field_def published_at_def version_at_def counter_def h [unfolded st1] s [unfolded st1])
next
  let ?s = "rec_schema_id rec" and ?f = "rec_family_id rec"
  fix i st1
  assume "publish_script R (publish_call_of C V rec al bkey vs ac re now) st = (Inr i, st1)"
    and fresh: "published_at (view st) ?s = None" "\<not> stored (view st) ?s"
    and inc: "incremented (hashes (view st) (family_key ?f) ''next_version'') 1 = Some i"
    and fam: "\<And>g x. hashes (view st1) (family_key g) x =
        (if g = ?f \<and> x = ''next_version'' then Some (int_dec i)
         else if g = ?f \<and> x = ''v:'' @ int_dec i then Some (schema_str ?s)
         else if g = ?f \<and> x = ''family_id'' then Some (family_str ?f)
         else hashes (view st) (family_key g) x)"
    and field: "\<And>t x. schema_field (view st1) t x =
        (if t = ?s then (if x = ''variants'' then Some (encode_variants_field V vs)
           else map_of (record_fields (publish_call_of C V rec al bkey vs ac re now) (Some i)) x)
         else schema_field (view st) t x)"
    and s: "\<And>k. strs (view st1) k = (if k = alias_key al \<and> strs (view st) k = None
         then Some (schema_str ?s) else if k = published_key ?s then Some (int_dec i)
         else strs (view st) k)"
  with run have st1: "st1 = st'" by simp
  have c: "counters_ok (view st)" using inv by (simp add: vault_inv_def)
  have i: "i = counter (view st) ?f + 1" using incremented_counter [OF c inc] by simp
  have none: "schema_field (view st) ?s x = None" for x
    using inv fresh by (simp add: vault_inv_def records_ok_def)
  have v: "version_at (view st) ?f i = None"
  proof -
    have "\<not> (1 \<le> i \<and> i \<le> counter (view st) ?f)" using i by simp
    then show ?thesis using c unfolding counters_ok_def by blast
  qed
  show ?thesis
  proof (rule vault_keepsI)
    show "schema_field (view st') t x = schema_field (view st) t x"
      if "schema_field (view st) t x \<noteq> None" for t x
      using that none by (auto simp: field [unfolded st1])
    show "version_at (view st') g j = version_at (view st) g j"
      if "version_at (view st) g j \<noteq> None" for g j
      using that v by (auto simp: version_at_def fam [unfolded st1])
    show "counter (view st) g \<le> counter (view st') g" for g
      using i by (simp add: counter_def fam [unfolded st1])
  qed (use fresh in \<open>auto simp: s [unfolded st1] published_at_def\<close>)
qed (use run in \<open>auto intro: vault_keeps_refl\<close>)

lemma set_name_inv:
  assumes inv: "vault_inv b32 C V (view st)"
    and run: "set_name_script R (schema_key i) label source meta now st = (out, st')"
  shows "vault_inv b32 C V (view st') \<and> vault_keeps (view st) (view st')"
proof -
  consider "st' = st" | "hashes (view st) (schema_key i) ''record'' \<noteq> None"
      "\<forall>k f. hashes (view st') k f =
          (if k = schema_key i \<and> f = ''name_label'' then Some label
           else if k = schema_key i \<and> f = ''name_source'' then Some source
           else if k = schema_key i \<and> f = ''name_updated_ms'' then Some now
           else if k = schema_key i \<and> f = ''name_meta'' then (if meta = [] then None else Some meta)
           else hashes (view st) k f)"
      "strs (view st') = strs (view st)" "sets (view st') = sets (view st)"
      "streams (view st') = streams (view st)"
    using set_name_script_effect [OF run] by blast
  then show ?thesis
  proof cases
    case 2
    have field: "schema_field (view st') t x = schema_field (view st) t x"
      if "x \<notin> {''name_label'', ''name_source'', ''name_updated_ms'', ''name_meta''} \<or> t \<noteq> i" for t x
      using that by (auto simp: schema_field_def 2(2))
    have fam: "hashes (view st') (family_key f) x = hashes (view st) (family_key f) x" for f x
      by (simp add: 2(2))
    have pub: "published_at (view st') t = published_at (view st) t" for t
      by (simp add: published_at_def 2)
    have stored: "stored (view st') t = stored (view st) t" for t
      by (simp add: stored_def field)
    have i: "stored (view st) i"
      using inv 2(1) by (auto simp: vault_inv_def records_ok_def schema_field_def)
    have unstored: "schema_field (view st') t x = schema_field (view st) t x" if "\<not> stored (view st) t" for t x
      using i that by (intro field) auto
    have "counters_ok (view st') \<and> versions_ok (view st')"
      using inv by (intro versions_cong [OF fam pub]) (auto simp: vault_inv_def)
    moreover have "records_ok b32 C V (view st')"
      using inv
      by (simp add: vault_inv_def records_ok_def hash_ok_def field pub stored 2(3-5) unstored)
    moreover have "index_ok (view st')"
      using inv by (simp add: vault_inv_def index_ok_def stored field 2(3-5))
    moreover have "vault_keeps (view st) (view st')"
    proof (rule vault_keepsI)
      show "version_at (view st') f j = version_at (view st) f j" for f j
        by (simp add: version_at_def fam)
      show "counter (view st) f \<le> counter (view st') f" for f
        by (simp add: counter_def fam)
    qed (simp_all add: field pub 2(3))
    ultimately show ?thesis by (simp add: vault_inv_def)
  qed (use inv vault_keeps_refl in auto)
qed

lemma rebuild_index_keeps:
  assumes "codec_ok V" "vault_inv b32 C V (view st)" "rebuild_index R b32 V st = (res, st')"
  shows "vault_inv b32 C V (view st') \<and> vault_keeps (view st) (view st')"
proof -
  have same: "strs (view st') k = strs (view st) k \<and> hashes (view st') k = hashes (view st) k"
    if "(\<nexists>x. k = ''deblob:index:'' @ x) \<and> k \<noteq> schema_index_key" for k
    using rebuild_index_inv [OF assms(1,2)] assms(3) that by auto
  have "hashes (view st') (schema_key s) = hashes (view st) (schema_key s)"
    "hashes (view st') (family_key f) = hashes (view st) (family_key f)"
    "strs (view st') (alias_key a) = strs (view st) (alias_key a)"
    "strs (view st') (published_key s) = strs (view st) (published_key s)" for s f a
    using same [of "schema_key s"] same [of "family_key f"] same [of "alias_key a"]
      same [of "published_key s"]
    by (simp_all add: schema_key_def family_key_def alias_key_def published_key_def schema_index_key_def)
  then have "vault_keeps (view st) (view st')"
    by (intro vault_keepsI) (simp_all add: schema_field_def published_at_def version_at_def counter_def)
  then show ?thesis using rebuild_index_inv [OF assms(1,2)] assms(3) by auto
qed

lemma vault_step_keeps:
  assumes "vault_step R view D st st'" "codec_ok (strings_codec D)" "vault_ok D (view st)"
  shows "vault_ok D (view st') \<and> vault_keeps (view st) (view st')"
  using assms
proof (induction rule: vault_step.induct)
  case (step_publish rec bkey variants health alias_from actor reason now st res st')
  from step_publish.hyps(2) show ?case
  proof (cases rule: publish_cases)
    case (executed r)
    then show ?thesis
      using publish_script_inv [OF step_publish.prems(2) step_publish.hyps(1) executed(1)]
        publish_script_keeps [OF step_publish.prems(2) executed(1)] by blast
  qed (use step_publish.prems vault_keeps_refl in auto)
next
  case (step_name health i label source meta now st out st')
  from step_name.hyps show ?case
    by (cases rule: set_schema_name_cases) (use set_name_inv step_name.prems vault_keeps_refl in blast)+
next
  case (step_rebuild st n st')
  then show ?case using rebuild_index_keeps by blast
next
  case (step_other st st')
  then show ?case using vault_ok_same vault_keeps_same by blast
qed

lemma vault_run_keeps:
  assumes "vault_run R view D st st'" "codec_ok (strings_codec D)" "vault_ok D (view st)"
  shows "vault_ok D (view st') \<and> vault_keeps (view st) (view st')"
  using assms(1) unfolding vault_run_def
proof (induction rule: rtranclp_induct)
  case (step st1 st2)
  then show ?case using vault_step_keeps [OF step.hyps(2) assms(2)] vault_keeps_trans by blast
qed (use assms(3) vault_keeps_refl in blast)

end

end
