(* ===== verification/Vault_Spec.thy ===== *)
theory Vault_Spec
  imports Vault_Theorems
begin

text \<open>
  The registry's contract, read off the invariant: what a caller of \<open>publish\<close>,
  \<open>get_schema\<close>, \<open>get_alias\<close>, \<open>resolve_structural\<close>, the version queries and
  \<open>verify_index\<close> observes.
\<close>

lemma upto_upt: "[1..int m] = map int [1..<Suc m]"
proof (induction m)
  case (Suc m)
  have "[1..int (Suc m)] = [1..int (Suc m) - 1] @ [int (Suc m)]"
    by (rule upto_rec2) simp
  then show ?case using Suc by simp
qed simp

context redis_service
begin

section \<open>Publishing\<close>

lemma publish_script_failure:
  assumes inv: "vault_inv b32 C V (view st)"
    and ps: "publish_script R (publish_call_of C V rec al bkey vs ac re now) st = (Inl e', st')" "e = map_script_error e'"
  shows "st' = st \<and>
    ((\<exists>x y. schema_field (view st) (rec_schema_id rec) ''canonical'' = Some x \<and>
        schema_field (view st) (rec_schema_id rec) ''canonicalizer'' = Some y \<and>
        (x, y) \<noteq> (rec_canonical rec, rec_canonicalizer rec) \<and> e = map_script_error Immutability) \<or>
     (\<exists>x. strs (view st) (alias_key al) = Some x \<and> x \<noteq> schema_str (rec_schema_id rec) \<and>
        e = map_script_error AliasConflict) \<or>
     (counter (view st) (rec_family_id rec) = 2 ^ 63 - 1 \<and> \<not> stored (view st) (rec_schema_id rec)))"
proof -
  let ?c = "publish_call_of C V rec al bkey vs ac re now" and ?s = "rec_schema_id rec"
  show ?thesis
    using inv
  proof (rule publish_script_cases [OF refl refl refl, where C = C and V = V and rec = rec and al = al
        and bkey = bkey and vs = vs and ac = ac and re = re and now = now])
    fix g assume g: "publish_script R ?c st = (Inl g, st)" "publish_guard R ?c st = Some g"
    have canon: "\<exists>y. schema_field (view st) ?s ''canonicalizer'' = Some y"
      if "schema_field (view st) ?s ''canonical'' = Some x" for x
      using inv that by (auto simp: vault_inv_def records_ok_def hash_ok_def stored_def)
    from g(2) consider "g = Immutability" "\<exists>x. schema_field (view st) ?s ''canonical'' = Some x \<and>
        (x \<noteq> rec_canonical rec \<or>
         schema_field (view st) ?s ''canonicalizer'' \<noteq> Some (rec_canonicalizer rec))"
      | "g = AliasConflict" "\<exists>x. strs (view st) (alias_key al) = Some x \<and> x \<noteq> schema_str ?s"
      by (auto simp: publish_guard_def Let_def reads schema_field_def split: if_splits)
    then show ?thesis
    proof cases
      case 1
      then show ?thesis using canon g ps by fastforce
    qed (use g ps in auto)
  next
    assume "publish_script R ?c st = (Inl (ServerError ''ERR hash value is not an integer''), st)"
      and "published_at (view st) ?s = None"
      and inc: "incremented (hashes (view st) (family_key (rec_family_id rec)) ''next_version'') 1 = None"
    moreover have c: "counters_ok (view st)" using inv by (simp add: vault_inv_def)
    have "counter (view st) (rec_family_id rec) = 2 ^ 63 - 1"
    proof (cases "hashes (view st) (family_key (rec_family_id rec)) ''next_version''")
      case None
      with inc show ?thesis by (simp add: incremented_def int64_def)
    next
      case (Some n)
      then have n: "n = int_dec (counter (view st) (rec_family_id rec))"
        "int64 (counter (view st) (rec_family_id rec))"
        "1 \<le> counter (view st) (rec_family_id rec)"
        using c unfolding counters_ok_def by blast+
      have "\<not> int64 (counter (view st) (rec_family_id rec) + 1)"
        using inc unfolding Some n(1) incremented_def using n(2) by (simp split: if_splits)
      with n(2,3) show ?thesis by (auto simp: int64_def)
    qed
    moreover have "\<not> stored (view st) ?s"
      using inv \<open>published_at (view st) ?s = None\<close> by (auto simp: vault_inv_def records_ok_def hash_ok_def)
    ultimately show ?thesis using ps by simp
  qed (use ps in auto)
qed

text \<open>Why a publish returns an error, and what it leaves behind.\<close>

lemma publish_failure:
  assumes inv: "vault_inv b32 C V (view st)"
    and run: "publish R C V health rec al bkey vs ac re now st = (Inl e, st')"
  shows "st' = st \<and>
    (health = Some False \<and> e = RegistryUnavailable ''persistence degraded'' \<or>
     (\<exists>m. r_link R ''schema_publish'' st = Refuses m \<and> e = RegistryUnavailable m) \<or>
     (\<exists>x y. schema_field (view st) (rec_schema_id rec) ''canonical'' = Some x \<and>
        schema_field (view st) (rec_schema_id rec) ''canonicalizer'' = Some y \<and>
        (x, y) \<noteq> (rec_canonical rec, rec_canonicalizer rec) \<and> e = map_script_error Immutability) \<or>
     (\<exists>x. strs (view st) (alias_key al) = Some x \<and> x \<noteq> schema_str (rec_schema_id rec) \<and>
        e = map_script_error AliasConflict) \<or>
     (counter (view st) (rec_family_id rec) = 2 ^ 63 - 1 \<and> \<not> stored (view st) (rec_schema_id rec))) \<or>
   (\<exists>m v. r_link R ''schema_publish'' st = LosesReply m \<and> e = RegistryUnavailable m \<and>
      publish (answering R) C V health rec al bkey vs ac re now st = (v, st'))"
  using run
proof (cases rule: publish_cases)
  case (executed r)
  show ?thesis
  proof (cases "r_link R ''schema_publish'' st")
    case (LosesReply m)
    have "publish (answering R) C V health rec al bkey vs ac re now st = (map_sum map_script_error of_int r, st')"
      using executed(1,2) by (simp add: publish_answering)
    moreover have "e = RegistryUnavailable m"
      using run executed(2) LosesReply by (auto simp: publish_def round_trip_def split: prod.splits)
    ultimately show ?thesis using LosesReply by blast
  qed (use executed publish_script_failure [OF inv] in \<open>cases r; force\<close>)+
qed auto

lemma publish_success:
  assumes inv: "vault_inv b32 C V (view st)"
    and run: "publish R C V health rec al bkey vs ac re now st = (Inr v, st')"
  obtains i where "v = of_int i" "published_at (view st') (rec_schema_id rec) = Some (int_dec i)"
    "strs (view st') (alias_key al) = Some (schema_str (rec_schema_id rec))"
    "bucket_member (rec_schema_id rec) \<in> sets (view st') bkey"
    "\<forall>(b, fp)\<in>set vs. variant_member fp (rec_schema_id rec) \<in> sets (view st') b"
    "schema_field (view st') (rec_schema_id rec) ''canonical'' = Some (rec_canonical rec)"
    "schema_field (view st') (rec_schema_id rec) ''canonicalizer'' = Some (rec_canonicalizer rec)"
    "stored (view st) (rec_schema_id rec) \<and>
       published_at (view st) (rec_schema_id rec) = Some (int_dec i) \<and>
       (\<forall>f. counter (view st') f = counter (view st) f) \<or>
     \<not> stored (view st) (rec_schema_id rec) \<and> i = counter (view st) (rec_family_id rec) + 1 \<and>
       (\<forall>f. counter (view st') f = (if f = rec_family_id rec then i else counter (view st) f)) \<and>
       schema_field (view st') (rec_schema_id rec) ''record'' = Some (enc C rec)"
proof -
  let ?c = "publish_call_of C V rec al bkey vs ac re now" and ?s = "rec_schema_id rec"
  from run obtain i0 where ps: "publish_script R ?c st = (Inr i0, st')" "v = of_int i0" by (rule publish_Inr)
  have guard: "publish_guard R ?c st = None \<Longrightarrow>
      (strs (view st) (alias_key al) \<noteq> None \<longrightarrow> strs (view st) (alias_key al) = Some (schema_str ?s)) \<and>
      (schema_field (view st) ?s ''canonical'' \<noteq> None \<longrightarrow>
        schema_field (view st) ?s ''canonical'' = Some (rec_canonical rec) \<and>
        schema_field (view st) ?s ''canonicalizer'' = Some (rec_canonicalizer rec))"
    by (auto simp: publish_guard_def Let_def reads schema_field_def split: if_splits)
  show thesis
    using inv
  proof (rule publish_script_cases [OF refl refl refl, where C = C and V = V and rec = rec and al = al
        and bkey = bkey and vs = vs and ac = ac and re = re and now = now])
    fix i st1
    assume *: "publish_script R ?c st = (Inr i, st1)" and g: "publish_guard R ?c st = None"
      and p: "published_at (view st) ?s = Some (int_dec i)" and old: "stored (view st) ?s"
      and h: "\<And>k x. hashes (view st1) k x = (if k = schema_key ?s \<and> x = ''variants''
        then Some (encode_variants_field V vs) else hashes (view st) k x)"
      and s: "\<And>k. strs (view st1) k = (if k = alias_key al \<and> strs (view st) k = None
        then Some (schema_str ?s) else strs (view st) k)"
      and sets: "\<And>k. sets (view st1) k = sets (view st) k \<union>
        {m. k = bkey \<and> m = bucket_member ?s \<or> k = schema_index_key \<and> m = schema_str ?s \<or>
            (\<exists>fp. (k, fp) \<in> set vs \<and> m = variant_member fp ?s)}"
    from * ps have st1: "st1 = st'" "i = i0" by simp_all
    note eff = h [unfolded st1] s [unfolded st1] sets [unfolded st1]
    note gd = guard [OF g]
    show thesis
    proof (rule that [of i0])
      show "schema_field (view st') ?s ''canonical'' = Some (rec_canonical rec)"
        "schema_field (view st') ?s ''canonicalizer'' = Some (rec_canonicalizer rec)"
        using gd old by (simp_all add: schema_field_def eff stored_def)
      show "strs (view st') (alias_key al) = Some (schema_str ?s)"
        using gd by (auto simp: eff)
    qed (use ps p old st1 in \<open>auto simp: published_at_def eff counter_def\<close>)
  next
    fix i st1
    assume *: "publish_script R ?c st = (Inr i, st1)" and g: "publish_guard R ?c st = None"
      and fresh: "\<not> stored (view st) ?s"
      and inc: "incremented (hashes (view st) (family_key (rec_family_id rec)) ''next_version'') 1 = Some i"
      and fam: "\<And>g x. hashes (view st1) (family_key g) x =
        (if g = rec_family_id rec \<and> x = ''next_version'' then Some (int_dec i)
         else if g = rec_family_id rec \<and> x = ''v:'' @ int_dec i then Some (schema_str ?s)
         else if g = rec_family_id rec \<and> x = ''family_id'' then Some (family_str (rec_family_id rec))
         else hashes (view st) (family_key g) x)"
      and field: "\<And>t x. schema_field (view st1) t x =
        (if t = ?s then (if x = ''variants'' then Some (encode_variants_field V vs)
           else map_of (record_fields ?c (Some i)) x)
         else schema_field (view st) t x)"
      and s: "\<And>k. strs (view st1) k = (if k = alias_key al \<and> strs (view st) k = None
         then Some (schema_str ?s) else if k = published_key ?s then Some (int_dec i)
         else strs (view st) k)"
      and sets: "\<And>k. sets (view st1) k = sets (view st) k \<union>
        {m. k = bkey \<and> m = bucket_member ?s \<or> k = schema_index_key \<and> m = schema_str ?s \<or>
            (\<exists>fp. (k, fp) \<in> set vs \<and> m = variant_member fp ?s)}"
    from * ps have st1: "st1 = st'" "i = i0" by simp_all
    note eff = fam [unfolded st1] field [unfolded st1] s [unfolded st1] sets [unfolded st1]
    note gd = guard [OF g]
    have i: "i0 = counter (view st) (rec_family_id rec) + 1"
      using incremented_counter [OF _ inc] inv st1 by (simp add: vault_inv_def)
    show thesis
    proof (rule that [of i0])
      show "strs (view st') (alias_key al) = Some (schema_str ?s)"
        using gd by (auto simp: eff(3))
      show "stored (view st) ?s \<and> published_at (view st) ?s = Some (int_dec i0) \<and>
           (\<forall>f. counter (view st') f = counter (view st) f) \<or>
         \<not> stored (view st) ?s \<and> i0 = counter (view st) (rec_family_id rec) + 1 \<and>
           (\<forall>f. counter (view st') f = (if f = rec_family_id rec then i0 else counter (view st) f)) \<and>
           schema_field (view st') ?s ''record'' = Some (enc C rec)"
        using fresh i st1(2) by (auto simp: counter_def eff(1) eff(2) record_fields_def)
    qed (use ps st1(2) in \<open>auto simp: published_at_def eff(2-) record_fields_def\<close>)
  qed (use ps in auto)
qed

section \<open>Reading\<close>

lemma stored_parse:
  "vault_inv b32 C V ks \<Longrightarrow> stored ks s \<Longrightarrow> schema_id_parse b32 (schema_str s) = Inr s"
  by (simp add: vault_inv_def records_ok_def hash_ok_def schema_id_ok_def)

lemma get_alias_reads:
  assumes "strs (view st) (alias_key al) = Some (schema_str s)"
    "schema_id_parse b32 (schema_str s) = Inr s"
  shows "get_alias R b32 al st = Inr (Some s)"
  using assms by (simp add: get_alias_def transpose_parse_def get)

lemma parse_u32_int_dec: "0 \<le> i \<Longrightarrow> i < 2 ^ 32 \<Longrightarrow> parse_u32 (int_dec i) = Some (of_int i)"
  by (simp add: parse_u32_def int_dec_def nat_less_iff)

lemma rec_fields_overlay:
  "rec_schema_id (overlay_name J l s m r) = rec_schema_id r"
  "rec_family_id (overlay_name J l s m r) = rec_family_id r"
  "rec_version (overlay_name J l s m r) = rec_version r"
  "rec_canonical (overlay_name J l s m r) = rec_canonical r"
  "rec_canonicalizer (overlay_name J l s m r) = rec_canonicalizer r"
  by (simp_all add: overlay_name_def Let_def)

lemma get_schema_reads:
  assumes C: "codec_ok C" and inv: "vault_inv b32 C V (view st)"
    and p: "published_at (view st) s = Some (int_dec i)" "0 \<le> i" "i < 2 ^ 32"
  obtains r where "get_schema R C J s st = Inr (Some r)" "rec_schema_id r = s"
    "rec_version r = of_int i"
    "schema_field (view st) s ''canonical'' = Some (rec_canonical r)"
    "schema_field (view st) s ''canonicalizer'' = Some (rec_canonicalizer r)"
proof -
  have st: "stored (view st) s"
    using inv p by (auto simp: vault_inv_def records_ok_def)
  then have "hash_ok b32 C V (view st) s"
    using inv by (simp add: vault_inv_def records_ok_def)
  then obtain r where r: "schema_field (view st) s ''record'' = Some (enc C r)" "rec_schema_id r = s"
    "schema_field (view st) s ''canonical'' = Some (rec_canonical r)"
    "schema_field (view st) s ''canonicalizer'' = Some (rec_canonicalizer r)"
    and v: "schema_field (view st) s ''version'' = Some (int_dec i)"
    using p by (auto simp: hash_ok_def)
  then have "get_schema R C J s st = Inr (Some (overlay_name J
      (r_hget R (schema_key s) ''name_label'' st) (r_hget R (schema_key s) ''name_source'' st)
      (r_hget R (schema_key s) ''name_meta'' st) (r \<lparr> rec_version := of_int i \<rparr>)))"
    using C parse_u32_int_dec [OF p(2,3)]
    by (simp add: get_schema_def get_schema_at_def hget schema_field_def record_from_hash_def)
  then show thesis by (rule that) (simp_all add: rec_fields_overlay r)
qed

lemma split_member_variant: "CHR ''='' \<notin> set fp \<Longrightarrow> split_member (variant_member fp s) = Some (fp, schema_str s)"
  by (simp add: split_member_def variant_member_def)

lemma variant_member_eq:
  assumes "variant_member fp s = variant_member fp' s'" "CHR ''='' \<notin> set fp" "CHR ''='' \<notin> set fp'"
  shows "fp = fp' \<and> s = s'"
proof -
  have "Some (fp, schema_str s) = Some (fp', schema_str s')"
    using assms split_member_variant by metis
  then show ?thesis by simp
qed

text \<open>What resolving a fingerprint in a bucket returns.\<close>

lemma resolve_result:
  assumes inv: "vault_inv b32 C V (view st)" and ok: "CHR ''='' \<notin> set (id_body fp)" "glob_free (id_body fp @ ''='')"
    and k: "k = ''deblob:index:'' @ x"
  shows "(resolve_structural_bucketed R b32 k fp st = Inr None \<and>
      (\<forall>t. stored (view st) t \<longrightarrow> variant_member (id_body fp) t \<notin> sets (view st) k)) \<or>
    (\<exists>t. resolve_structural_bucketed R b32 k fp st = Inr (Some t) \<and>
      stored (view st) t \<and> variant_member (id_body fp) t \<in> sets (view st) k)"
proof -
  define ms where "ms = concat (r_sscan R k (fp_match_pattern fp) st)"
  have set: "set ms = {m \<in> sets (view st) k. \<exists>y. m = (id_body fp @ ''='') @ y}"
    unfolding ms_def fp_match_pattern_def by (rule sscan [OF ok(2)])
  have mem: "\<exists>t. m = variant_member (id_body fp) t \<and> stored (view st) t" if "m \<in> set ms" for m
  proof -
    from that set obtain y where m: "m \<in> sets (view st) k" "m = (id_body fp @ ''='') @ y"
      by blast
    then obtain f t where f: "m = variant_member f t" "CHR ''='' \<notin> set f" "stored (view st) t"
      using inv unfolding vault_inv_def index_ok_def k by blast
    have "split_member m = Some (id_body fp, y)"
      using ok(1) m(2) by (simp add: split_member_def)
    moreover have "split_member m = Some (f, schema_str t)"
      using f(1,2) split_member_variant by simp
    ultimately show ?thesis using f by auto
  qed
  show ?thesis
  proof (cases ms)
    case Nil
    have "variant_member (id_body fp) t \<notin> sets (view st) k" for t
    proof
      assume "variant_member (id_body fp) t \<in> sets (view st) k"
      then have "variant_member (id_body fp) t \<in> set ms"
        unfolding set by (simp add: variant_member_def)
      then show False using Nil by simp
    qed
    then show ?thesis
      using Nil by (simp add: resolve_structural_bucketed_def ms_def [symmetric])
  next
    case (Cons m ms')
    then obtain t where t: "m = variant_member (id_body fp) t" "stored (view st) t"
      using mem by auto
    then have "first_member b32 ms = Inr (Some t)"
      using Cons ok(1) stored_parse [OF inv t(2)] by (simp add: split_member_variant)
    moreover have "m \<in> sets (view st) k" using set Cons by auto
    ultimately show ?thesis
      using t by (auto simp: resolve_structural_bucketed_def ms_def [symmetric])
  qed
qed

section \<open>Verification\<close>

lemma verify_index_clean:
  assumes inv: "vault_inv b32 C V (view st)"
  shows "verify_index R b32 st = []"
proof -
  have members: "member_problems R st (''deblob:index:'' @ x) m = []"
    if "m \<in> set (r_smembers R (''deblob:index:'' @ x) st)" for x m
  proof -
    from that obtain fp s where m: "m = variant_member fp s" "CHR ''='' \<notin> set fp" "stored (view st) s"
      using inv unfolding vault_inv_def index_ok_def smembers by blast
    have "key_exists (view st) (schema_key s)"
      using m(3) by (auto simp: key_exists_def stored_def schema_field_def)
    then show ?thesis
      using m by (simp add: member_problems_def split_member_variant exists schema_key_def)
  qed
  have buckets: "concat (map (member_problems R st b) (r_smembers R b st)) = []"
    if "b \<in> set (concat (r_scan R index_key_pattern st))" for b
  proof -
    from that obtain x where "b = ''deblob:index:'' @ x"
      unfolding index_key_pattern_star scan [OF glob_free_prefixes(1)] by blast
    then show ?thesis using members by auto
  qed
  have keys: "key_problems R b32 st k = []"
    if "k \<in> set (concat (r_scan R (''deblob:schema:'' @ ''*'') st))" for k
  proof -
    from that obtain s where k: "k = schema_key s" "key_exists (view st) (schema_key s)"
      unfolding scan [OF glob_free_prefixes(2)] schema_key_prefix by blast
    have s: "stored (view st) s"
      using k(2) inv by (auto simp: key_exists_def vault_inv_def records_ok_def schema_field_def)
    then obtain b where b: "schema_field (view st) s ''bucket'' = Some b"
      using inv by (auto simp: vault_inv_def records_ok_def hash_ok_def)
    then have "bucket_member s \<in> sets (view st) b"
      using inv s by (auto simp: vault_inv_def index_ok_def)
    then show ?thesis
      using b k(1) stored_parse [OF inv s]
      by (simp add: key_problems_def hget sismember schema_field_def)
  qed
  have "concat (map (\<lambda>b. concat (map (member_problems R st b) (r_smembers R b st)))
      (concat (r_scan R index_key_pattern st))) = []"
    using buckets by (simp only: concat_eq_Nil_conv) auto
  moreover have "concat (map (key_problems R b32 st) (concat (r_scan R (''deblob:schema:'' @ ''*'') st))) = []"
    using keys by (simp only: concat_eq_Nil_conv) auto
  ultimately show ?thesis by (simp add: verify_index_def)
qed

section \<open>Family versions\<close>

lemma family_versions:
  assumes inv: "vault_inv b32 C V (view st)" and n: "counter (view st) f < 2 ^ 32"
  shows "list_family_versions R f st = Inr (map of_int [1..counter (view st) f]) \<and>
    (\<forall>i\<in>{1..counter (view st) f}. \<exists>s. family_version_schema R b32 f (of_int i) st = Inr (Some s) \<and>
       published_at (view st) s = Some (int_dec i))"
proof
  have c: "counters_ok (view st)" using inv by (simp add: vault_inv_def)
  have pos: "0 \<le> counter (view st) f" using counter_nonneg [OF c] .
  show "list_family_versions R f st = Inr (map of_int [1..counter (view st) f])"
  proof (cases "hashes (view st) (family_key f) ''next_version''")
    case None
    then show ?thesis by (simp add: list_family_versions_def get_family_def hget counter_def)
  next
    case (Some v)
    let ?n = "counter (view st) f"
    have v: "v = int_dec ?n" using c Some by (simp add: counters_ok_def)
    have "map of_nat [1..<Suc (unat (of_int ?n :: u32))] = (map of_int [1..?n] :: u32 list)"
    proof -
      have "unat (of_int ?n :: u32) = nat ?n"
        using pos n by (simp add: unat_eq_nat_uint take_bit_int_eq_self word_of_int_inverse uint_word_of_int_eq)
      moreover have "[1..?n] = map int [1..<Suc (nat ?n)]"
        using pos upto_upt [of "nat ?n"] by simp
      ultimately show ?thesis by simp
    qed
    then show ?thesis
      using Some pos n parse_u32_int_dec [of ?n]
      by (simp add: list_family_versions_def get_family_def hget v)
  qed
  show "\<forall>i\<in>{1..counter (view st) f}. \<exists>s. family_version_schema R b32 f (of_int i) st = Inr (Some s) \<and>
       published_at (view st) s = Some (int_dec i)"
  proof
    fix i assume i: "i \<in> {1..counter (view st) f}"
    then have "version_at (view st) f i \<noteq> None" using c by (simp add: counters_ok_def)
    then obtain t where t: "version_at (view st) f i = Some t" by auto
    then obtain s where s: "version_at (view st) f i = Some (schema_str s)" "published_at (view st) s = Some (int_dec i)"
      using inv unfolding vault_inv_def versions_ok_def by blast
    then have "stored (view st) s" using inv by (auto simp: vault_inv_def records_ok_def)
    have "nat_dec (unat (of_int i :: u32)) = int_dec i"
      using i n by (simp add: int_dec_def unat_eq_nat_uint uint_word_of_int_eq take_bit_int_eq_self)
    then have "family_version_schema R b32 f (of_int i) st = Inr (Some s)"
      using s(1) stored_parse [OF inv \<open>stored (view st) s\<close>]
      by (simp add: family_version_schema_def transpose_parse_def hget version_at_def)
    with s(2) show "\<exists>s. family_version_schema R b32 f (of_int i) st = Inr (Some s) \<and>
       published_at (view st) s = Some (int_dec i)" by blast
  qed
qed

end

end
