(* ===== verification/Match_Metrics.thy ===== *)
theory Match_Metrics
  imports Ids
begin

text \<open>
  The counters of \<open>deblob-match/src/metrics.rs\<close>. A counter vector of the Prometheus client is a
  map from label values to counts: \<open>with_label_values\<close> creates the series at zero when it is
  new, \<open>inc\<close> adds one. Of a histogram the number of observations is kept (durations are not
  modelled). The text exposition is the client library's.
\<close>

type_synonym counter_vec = "bytes \<Rightarrow> nat option"

definition with_label_values :: "bytes \<Rightarrow> counter_vec \<Rightarrow> counter_vec" where
  "with_label_values l v = (case v l of None \<Rightarrow> v(l \<mapsto> 0) | Some _ \<Rightarrow> v)"

definition inc_label :: "bytes \<Rightarrow> counter_vec \<Rightarrow> counter_vec" where
  "inc_label l v = (case v l of None \<Rightarrow> v(l \<mapsto> 1) | Some n \<Rightarrow> v(l \<mapsto> Suc n))"

definition fates :: "bytes list" where
  "fates = [''known'', ''provisional'', ''unresolved'', ''malformed'', ''tombstone'']"

definition match_results :: "bytes list" where
  "match_results = [''known'', ''provisional'', ''unresolved'']"

definition quarantine_reasons :: "bytes list" where
  "quarantine_reasons =
     [''duplicate_key'', ''non_finite_number'', ''depth_exceeded'', ''size_exceeded'',
      ''field_count_exceeded'', ''key_length_exceeded'', ''parse_error'', ''utf8_error'']"

definition registry_operations :: "bytes list" where
  "registry_operations = [''resolve_structural'']"

definition collision_strengths :: "bytes list" where
  "collision_strengths = [''strong'', ''medium'', ''weak'']"

definition redis_write_operations :: "bytes list" where
  "redis_write_operations =
     [''schema_publish'', ''set_name'', ''evidence_append'', ''candidate_state'',
      ''state_index'', ''sample'', ''value_profile'']"

definition ollama_outcomes :: "bytes list" where
  "ollama_outcomes = [''ok'', ''timeout'', ''error'']"

fun fate_label :: "schema_ref \<Rightarrow> bytes" where
  "fate_label (Known _) = ''known''"
| "fate_label (Provisional _) = ''provisional''"
| "fate_label Unresolved = ''unresolved''"
| "fate_label Malformed = ''malformed''"
| "fate_label Tombstone = ''tombstone''"

fun quarantine_reason_label :: "quarantine_reason \<Rightarrow> bytes" where
  "quarantine_reason_label DuplicateKey = ''duplicate_key''"
| "quarantine_reason_label NonFiniteNumber = ''non_finite_number''"
| "quarantine_reason_label DepthExceeded = ''depth_exceeded''"
| "quarantine_reason_label SizeExceeded = ''size_exceeded''"
| "quarantine_reason_label FieldCountExceeded = ''field_count_exceeded''"
| "quarantine_reason_label KeyLengthExceeded = ''key_length_exceeded''"
| "quarantine_reason_label ParseError = ''parse_error''"
| "quarantine_reason_label Utf8Error = ''utf8_error''"

record metrics =
  messages_total :: counter_vec
  schema_matches_total :: counter_vec
  cache_hits_total :: nat
  quarantine_records_total :: counter_vec
  tag_latency_count :: nat
  registry_operation_count :: counter_vec
  candidates_active :: int
  candidate_promotions_total :: counter_vec
  relay_records_total :: nat
  relay_transactions_total :: counter_vec
  semantic_drift_total :: nat
  semantic_collision_total :: counter_vec
  redis_write_refusals_total :: counter_vec
  ollama_inflight :: int
  ollama_requests_total :: counter_vec

definition preregister :: "bytes list \<Rightarrow> counter_vec" where
  "preregister ls = fold with_label_values ls Map.empty"

definition metrics_new :: metrics where
  "metrics_new =
     \<lparr> messages_total = preregister fates,
       schema_matches_total = preregister match_results,
       cache_hits_total = 0,
       quarantine_records_total = preregister quarantine_reasons,
       tag_latency_count = 0,
       registry_operation_count = preregister registry_operations,
       candidates_active = 0,
       candidate_promotions_total = Map.empty,
       relay_records_total = 0,
       relay_transactions_total = Map.empty,
       semantic_drift_total = 0,
       semantic_collision_total = preregister collision_strengths,
       redis_write_refusals_total = preregister redis_write_operations,
       ollama_inflight = 0,
       ollama_requests_total = preregister ollama_outcomes \<rparr>"

definition record_classification :: "schema_ref \<Rightarrow> metrics \<Rightarrow> metrics" where
  "record_classification r m =
     (let fate = fate_label r;
          m1 = m\<lparr> messages_total := inc_label fate (messages_total m) \<rparr>
      in if fate \<in> set match_results
         then m1\<lparr> schema_matches_total := inc_label fate (schema_matches_total m1) \<rparr> else m1)"

definition record_quarantine :: "quarantine_reason \<Rightarrow> metrics \<Rightarrow> metrics" where
  "record_quarantine r m =
     m\<lparr> quarantine_records_total := inc_label (quarantine_reason_label r) (quarantine_records_total m) \<rparr>"

definition record_cache_hit :: "metrics \<Rightarrow> metrics" where
  "record_cache_hit m = m\<lparr> cache_hits_total := Suc (cache_hits_total m) \<rparr>"

definition observe_tag_latency :: "metrics \<Rightarrow> metrics" where
  "observe_tag_latency m = m\<lparr> tag_latency_count := Suc (tag_latency_count m) \<rparr>"

definition observe_registry_op :: "bytes \<Rightarrow> metrics \<Rightarrow> metrics" where
  "observe_registry_op operation m =
     m\<lparr> registry_operation_count := inc_label operation (registry_operation_count m) \<rparr>"

definition inc_candidates_active :: "metrics \<Rightarrow> metrics" where
  "inc_candidates_active m = m\<lparr> candidates_active := candidates_active m + 1 \<rparr>"

definition record_promotion :: "bytes \<Rightarrow> metrics \<Rightarrow> metrics" where
  "record_promotion r m =
     m\<lparr> candidate_promotions_total := inc_label r (candidate_promotions_total m) \<rparr>"

definition inc_relay_records :: "metrics \<Rightarrow> metrics" where
  "inc_relay_records m = m\<lparr> relay_records_total := Suc (relay_records_total m) \<rparr>"

definition record_relay_transaction :: "bytes \<Rightarrow> metrics \<Rightarrow> metrics" where
  "record_relay_transaction r m =
     m\<lparr> relay_transactions_total := inc_label r (relay_transactions_total m) \<rparr>"

definition record_semantic_drift :: "metrics \<Rightarrow> metrics" where
  "record_semantic_drift m = m\<lparr> semantic_drift_total := Suc (semantic_drift_total m) \<rparr>"

definition record_semantic_collision :: "bytes \<Rightarrow> metrics \<Rightarrow> metrics" where
  "record_semantic_collision s m =
     m\<lparr> semantic_collision_total := inc_label s (semantic_collision_total m) \<rparr>"

definition inc_redis_write_refusal :: "bytes \<Rightarrow> metrics \<Rightarrow> metrics" where
  "inc_redis_write_refusal operation m =
     m\<lparr> redis_write_refusals_total := inc_label operation (redis_write_refusals_total m) \<rparr>"

definition inc_ollama_inflight :: "metrics \<Rightarrow> metrics" where
  "inc_ollama_inflight m = m\<lparr> ollama_inflight := ollama_inflight m + 1 \<rparr>"

definition dec_ollama_inflight :: "metrics \<Rightarrow> metrics" where
  "dec_ollama_inflight m = m\<lparr> ollama_inflight := ollama_inflight m - 1 \<rparr>"

definition record_ollama_request :: "bytes \<Rightarrow> metrics \<Rightarrow> metrics" where
  "record_ollama_request s m =
     m\<lparr> ollama_requests_total := inc_label s (ollama_requests_total m) \<rparr>"

section \<open>Facts\<close>

text \<open>The count of a label, and the sum over the labels of a list.\<close>

definition count_of :: "bytes \<Rightarrow> counter_vec \<Rightarrow> nat" where
  "count_of l v = (case v l of None \<Rightarrow> 0 | Some n \<Rightarrow> n)"

definition total :: "bytes list \<Rightarrow> counter_vec \<Rightarrow> nat" where
  "total ls v = sum_list (map (\<lambda>l. count_of l v) ls)"

lemma count_inc [simp]: "count_of l (inc_label k v) = count_of l v + (if l = k then 1 else 0)"
  by (auto simp: count_of_def inc_label_def split: option.split)

lemma dom_inc [simp]: "dom (inc_label k v) = insert k (dom v)"
  by (auto simp: inc_label_def split: option.splits)

lemma total_inc:
  "distinct ls \<Longrightarrow> total ls (inc_label k v) = total ls v + (if k \<in> set ls then 1 else 0)"
  by (induction ls) (auto simp: total_def)

lemma dom_with_label [simp]: "dom (with_label_values l v) = insert l (dom v)"
  by (auto simp: with_label_values_def split: option.splits)

lemma dom_fold_labels: "dom (fold with_label_values ls v) = set ls \<union> dom v"
  by (induction ls arbitrary: v) auto

lemma dom_preregister [simp]: "dom (preregister ls) = set ls"
  by (simp add: preregister_def dom_fold_labels)

lemma count_fold_labels: "count_of l (fold with_label_values ls v) = count_of l v"
  by (induction ls arbitrary: v)
    (auto simp: with_label_values_def count_of_def split: option.split)

lemma count_preregister [simp]: "count_of l (preregister ls) = 0"
  by (simp add: preregister_def count_fold_labels) (simp add: count_of_def)

lemma total_preregister [simp]: "total ks (preregister ls) = 0"
  by (simp add: total_def)

lemma fate_label_fates: "fate_label r \<in> set fates"
  by (cases r) (simp_all add: fates_def)

lemma quarantine_reason_label_reasons: "quarantine_reason_label r \<in> set quarantine_reasons"
  by (cases r) (simp_all add: quarantine_reasons_def)

lemma distinct_fates: "distinct fates"
  by (simp add: fates_def)

text \<open>The labels the hot path may use.\<close>

definition labels_bounded :: "metrics \<Rightarrow> bool" where
  "labels_bounded m \<longleftrightarrow>
     dom (messages_total m) = set fates \<and>
     dom (schema_matches_total m) = set match_results \<and>
     dom (quarantine_records_total m) = set quarantine_reasons \<and>
     dom (registry_operation_count m) = set registry_operations"

lemma labels_bounded_new: "labels_bounded metrics_new"
  by (simp add: labels_bounded_def metrics_new_def)

lemma labels_bounded_steps [simp]:
  "labels_bounded m \<Longrightarrow> labels_bounded (record_classification r m)"
  "labels_bounded m \<Longrightarrow> labels_bounded (record_quarantine q m)"
  "labels_bounded m \<Longrightarrow> labels_bounded (observe_registry_op ''resolve_structural'' m)"
  "labels_bounded (record_cache_hit m) = labels_bounded m"
  "labels_bounded (observe_tag_latency m) = labels_bounded m"
  "labels_bounded (inc_relay_records m) = labels_bounded m"
  "labels_bounded (record_relay_transaction t m) = labels_bounded m"
  using fate_label_fates [of r] quarantine_reason_label_reasons [of q]
  by (auto simp: labels_bounded_def record_classification_def record_quarantine_def
      observe_registry_op_def record_cache_hit_def observe_tag_latency_def inc_relay_records_def
      record_relay_transaction_def registry_operations_def Let_def insert_absorb)

lemma messages_total_steps [simp]:
  "messages_total (record_classification r m) = inc_label (fate_label r) (messages_total m)"
  "messages_total (record_quarantine q m) = messages_total m"
  "messages_total (record_cache_hit m) = messages_total m"
  "messages_total (observe_tag_latency m) = messages_total m"
  "messages_total (observe_registry_op p m) = messages_total m"
  by (simp_all add: record_classification_def record_quarantine_def record_cache_hit_def
      observe_tag_latency_def observe_registry_op_def Let_def)

lemma latency_steps [simp]:
  "tag_latency_count (record_classification r m) = tag_latency_count m"
  "tag_latency_count (record_quarantine q m) = tag_latency_count m"
  "tag_latency_count (record_cache_hit m) = tag_latency_count m"
  "tag_latency_count (observe_tag_latency m) = Suc (tag_latency_count m)"
  "tag_latency_count (observe_registry_op p m) = tag_latency_count m"
  by (simp_all add: record_classification_def record_quarantine_def record_cache_hit_def
      observe_tag_latency_def observe_registry_op_def Let_def)

lemma quarantine_steps [simp]:
  "quarantine_records_total (record_classification r m) = quarantine_records_total m"
  "quarantine_records_total (record_quarantine q m) =
     inc_label (quarantine_reason_label q) (quarantine_records_total m)"
  "quarantine_records_total (record_cache_hit m) = quarantine_records_total m"
  "quarantine_records_total (observe_tag_latency m) = quarantine_records_total m"
  "quarantine_records_total (observe_registry_op p m) = quarantine_records_total m"
  by (simp_all add: record_classification_def record_quarantine_def record_cache_hit_def
      observe_tag_latency_def observe_registry_op_def Let_def)

end
