(* ===== verification/Hot_Matcher.thy ===== *)
theory Hot_Matcher
  imports Canon Json_Parse Match_Metrics Records
begin

text \<open>
  The hot path's decision for one payload (\<open>deblob-match/src/matcher.rs\<close>). The registry is the
  trait object the matcher is built with: its \<open>resolve_structural\<close> at the moment of the call is
  an argument. The exact-match cache is the \<open>lru\<close> crate's: the record \<open>lru\<close> of the calls made
  to it, with the locale \<open>lru_cache\<close> for what its documentation promises; \<open>list_lru\<close> is a small
  implementation of it. The digest functions are arguments.
\<close>

section \<open>Digests and the cache\<close>

record digests =
  d_sha256 :: "bytes \<Rightarrow> bytes"
  d_hex :: "bytes \<Rightarrow> bytes"
  d_base32 :: "bytes \<Rightarrow> bytes"

record 'c lru =
  lru_new :: "nat \<Rightarrow> 'c"
  lru_get :: "bytes \<Rightarrow> 'c \<Rightarrow> schema_id option \<times> 'c"
  lru_put :: "bytes \<Rightarrow> schema_id \<Rightarrow> 'c \<Rightarrow> 'c"

locale lru_cache =
  fixes C :: "'c lru"
    and entries :: "'c \<Rightarrow> bytes \<Rightarrow> schema_id option"
  assumes new: "0 < n \<Longrightarrow> entries (lru_new C n) = Map.empty"
    and get: "lru_get C k c = (r, c') \<Longrightarrow> r = entries c k \<and> entries c' = entries c"
    and put: "entries (lru_put C k v c) \<subseteq>\<^sub>m (entries c)(k \<mapsto> v)"
    and put_self: "entries (lru_put C k v c) k = Some v"

section \<open>The matcher\<close>

record classification =
  c_schema_ref :: schema_ref
  c_quarantine :: "quarantine_reason option"
  c_raw_fp :: "bytes option"
  c_bucket :: "bytes option"
  c_fields_count :: u32

text \<open>The state a matcher keeps: the cache and the metrics it shares.\<close>

record 'c matcher =
  m_lru :: 'c
  m_metrics :: metrics

definition matcher_new :: "'c lru \<Rightarrow> nat \<Rightarrow> metrics \<Rightarrow> 'c matcher" where
  "matcher_new C lru_capacity m =
     (let capacity = (if lru_capacity = 0 then 1 else lru_capacity)
      in \<lparr> m_lru = lru_new C capacity, m_metrics = m \<rparr>)"

text \<open>The part of \<open>classify\<close> after a payload has parsed.\<close>

definition classify_shape ::
  "digests \<Rightarrow> 'c lru \<Rightarrow> (bytes \<Rightarrow> schema_id \<Rightarrow> core_error + schema_id option) \<Rightarrow> bytes \<Rightarrow> shape \<Rightarrow>
     'c matcher \<Rightarrow> classification \<times> 'c matcher" where
  "classify_shape D C resolve source sh M =
     (let raw_fp = fingerprint (d_sha256 D) sh;
          summary = summarize sh;
          fields_count = of_nat (top_level_fields summary);
          bucket = bucket_key (d_sha256 D) (d_hex D) summary;
          done = (\<lambda>r. \<lparr> c_schema_ref = r, c_quarantine = None, c_raw_fp = Some raw_fp,
                       c_bucket = Some bucket, c_fields_count = fields_count \<rparr>);
          (hit, cache) = lru_get C raw_fp (m_lru M)
      in case hit of
           Some k \<Rightarrow>
             (done (Known k),
              \<lparr> m_lru = cache,
                m_metrics = observe_tag_latency (record_classification (Known k)
                              (record_cache_hit (m_metrics M))) \<rparr>)
         | None \<Rightarrow>
             (let fp_id = schema_id_from_digest (d_base32 D) raw_fp;
                  resolved = resolve bucket fp_id;
                  m1 = observe_registry_op ''resolve_structural'' (m_metrics M);
                  (r, cache1) =
                    (case resolved of
                       Inr (Some k) \<Rightarrow> (Known k, lru_put C raw_fp k cache)
                     | Inr None \<Rightarrow>
                         (Provisional (candidate_id_from_source_and_digest (d_sha256 D) (d_base32 D)
                            source raw_fp), cache)
                     | Inl _ \<Rightarrow> (Unresolved, cache))
              in (done r,
                  \<lparr> m_lru = cache1,
                    m_metrics = observe_tag_latency (record_classification r m1) \<rparr>)))"

definition classify ::
  "digests \<Rightarrow> 'c lru \<Rightarrow> (bytes \<Rightarrow> schema_id \<Rightarrow> core_error + schema_id option) \<Rightarrow> bytes \<Rightarrow> bytes \<Rightarrow>
     limits \<Rightarrow> 'c matcher \<Rightarrow> classification \<times> 'c matcher" where
  "classify D C resolve source payload L M =
     (case parse_bounded payload L of
        Inl reason \<Rightarrow>
          (\<lparr> c_schema_ref = Malformed, c_quarantine = Some reason, c_raw_fp = None,
             c_bucket = None, c_fields_count = 0 \<rparr>,
           M\<lparr> m_metrics := observe_tag_latency (record_classification Malformed
                             (record_quarantine reason (m_metrics M))) \<rparr>)
      | Inr nd \<Rightarrow> classify_shape D C resolve source (shape_of nd) M)"

text \<open>What the cold lane receives of a record whose shape is new.\<close>

record discovery_msg =
  dm_cand_id :: bytes
  dm_payload :: bytes
  dm_source :: bytes
  dm_cursor :: source_cursor

section \<open>Facts\<close>

lemma classify_malformed:
  "parse_bounded payload L = Inl reason \<Longrightarrow>
     c_schema_ref (fst (classify D C resolve source payload L M)) = Malformed \<and>
     c_quarantine (fst (classify D C resolve source payload L M)) = Some reason \<and>
     m_lru (snd (classify D C resolve source payload L M)) = m_lru M"
  by (simp add: classify_def)

text \<open>The four outcomes for a payload that parses.\<close>

lemma classify_shape_cases:
  fixes D sh
  defines "fp \<equiv> fingerprint (d_sha256 D) sh"
    and "bk \<equiv> bucket_key (d_sha256 D) (d_hex D) (summarize sh)"
  assumes run: "classify_shape D C resolve source sh M = (c, M')"
    and get: "lru_get C fp (m_lru M) = (hit, cache)"
  obtains
    (cached) k where "hit = Some k" "c_schema_ref c = Known k" "m_lru M' = cache"
      "m_metrics M' = observe_tag_latency (record_classification (Known k) (record_cache_hit (m_metrics M)))"
  | (indexed) k where "hit = None" "resolve bk (schema_id_from_digest (d_base32 D) fp) = Inr (Some k)"
      "c_schema_ref c = Known k" "m_lru M' = lru_put C fp k cache"
      "m_metrics M' = observe_tag_latency (record_classification (Known k)
         (observe_registry_op ''resolve_structural'' (m_metrics M)))"
  | (fresh) i where "hit = None" "resolve bk (schema_id_from_digest (d_base32 D) fp) = Inr None"
      "i = candidate_id_from_source_and_digest (d_sha256 D) (d_base32 D) source fp"
      "c_schema_ref c = Provisional i" "m_lru M' = cache"
      "m_metrics M' = observe_tag_latency (record_classification (Provisional i)
         (observe_registry_op ''resolve_structural'' (m_metrics M)))"
  | (down) e where "hit = None" "resolve bk (schema_id_from_digest (d_base32 D) fp) = Inl e"
      "c_schema_ref c = Unresolved" "m_lru M' = cache"
      "m_metrics M' = observe_tag_latency (record_classification Unresolved
         (observe_registry_op ''resolve_structural'' (m_metrics M)))"
proof (cases hit)
  case (Some k)
  then show ?thesis
    using run get cached by (auto simp: classify_shape_def Let_def fp_def)
next
  case None
  show ?thesis
  proof (cases "resolve bk (schema_id_from_digest (d_base32 D) fp)")
    case (Inl e)
    then show ?thesis
      using run get None down by (auto simp: classify_shape_def Let_def fp_def bk_def)
  next
    case (Inr r)
    then show ?thesis
      using run get None indexed fresh
      by (cases r) (auto simp: classify_shape_def Let_def fp_def bk_def)
  qed
qed

lemma classify_shape_fields:
  assumes "classify_shape D C resolve source sh M = (c, M')"
  shows "c_quarantine c = None \<and> c_raw_fp c = Some (fingerprint (d_sha256 D) sh) \<and>
    c_schema_ref c \<noteq> Malformed \<and> c_schema_ref c \<noteq> Tombstone"
  using assms
  by (auto simp: classify_shape_def Let_def split: prod.splits option.splits sum.splits)

lemma classify_metrics:
  assumes "classify D C resolve source payload L M = (c, M')"
  shows "tag_latency_count (m_metrics M') = Suc (tag_latency_count (m_metrics M)) \<and>
    messages_total (m_metrics M') =
      inc_label (fate_label (c_schema_ref c)) (messages_total (m_metrics M)) \<and>
    (labels_bounded (m_metrics M) \<longrightarrow> labels_bounded (m_metrics M'))"
proof (cases "parse_bounded payload L")
  case (Inl reason)
  with assms show ?thesis by (auto simp: classify_def)
next
  case (Inr nd)
  obtain hit cache where g:
    "lru_get C (fingerprint (d_sha256 D) (shape_of nd)) (m_lru M) = (hit, cache)" by force
  have run: "classify_shape D C resolve source (shape_of nd) M = (c, M')"
    using assms Inr by (simp add: classify_def)
  show ?thesis by (cases rule: classify_shape_cases [OF run g]) auto
qed

context lru_cache
begin

text \<open>
  The matcher keeps any property of schema ids that its cache has and its registry promises.
\<close>

lemma classify_known:
  assumes run: "classify D C resolve source payload L M = (c, M')"
    and cache: "\<And>k i. entries (m_lru M) k = Some i \<Longrightarrow> P i"
    and reg: "\<And>sm d i. resolve (bucket_key (d_sha256 D) (d_hex D) sm)
      (schema_id_from_digest (d_base32 D) d) = Inr (Some i) \<Longrightarrow> P i"
  shows "(\<forall>i. c_schema_ref c = Known i \<longrightarrow> P i) \<and> (\<forall>k i. entries (m_lru M') k = Some i \<longrightarrow> P i)"
proof (cases "parse_bounded payload L")
  case (Inl reason)
  with run cache show ?thesis by (auto simp: classify_def)
next
  case (Inr nd)
  let ?fp = "fingerprint (d_sha256 D) (shape_of nd)"
  obtain hit c1 where g: "lru_get C ?fp (m_lru M) = (hit, c1)" by force
  note e = get [OF g]
  have put_P: "P i" if "entries (lru_put C ?fp k c1) j = Some i" "P k" for i j k
  proof -
    have "((entries c1)(?fp \<mapsto> k)) j = Some i"
      using put [of ?fp k c1] that(1) by (force simp: map_le_def dom_def)
    then show ?thesis using that(2) cache e by (auto split: if_splits)
  qed
  have run': "classify_shape D C resolve source (shape_of nd) M = (c, M')"
    using run Inr by (simp add: classify_def)
  show ?thesis
    by (rule classify_shape_cases [OF run' g]) (use e cache put_P reg in auto)
qed

text \<open>A hit in the registry is remembered: the same shape is then known without asking again.\<close>

lemma classify_again:
  assumes run: "classify D C resolve source payload L M = (c, M')" and k: "c_schema_ref c = Known i"
    and run2: "classify D C resolve2 source2 payload L M' = (c2, M2)"
  shows "c_schema_ref c2 = Known i \<and> c2 = c"
proof (cases "parse_bounded payload L")
  case (Inl reason)
  with run k show ?thesis by (auto simp: classify_def)
next
  case (Inr nd)
  let ?fp = "fingerprint (d_sha256 D) (shape_of nd)"
  obtain hit c1 where g: "lru_get C ?fp (m_lru M) = (hit, c1)" by force
  have run': "classify_shape D C resolve source (shape_of nd) M = (c, M')"
    "classify_shape D C resolve2 source2 (shape_of nd) M' = (c2, M2)"
    using run run2 Inr by (simp_all add: classify_def)
  have "entries (m_lru M') ?fp = Some i"
    by (cases rule: classify_shape_cases [OF run'(1) g]) (use k get [OF g] put_self in auto)
  then obtain c3 where g2: "lru_get C ?fp (m_lru M') = (Some i, c3)"
    by (metis get surj_pair)
  have "c_schema_ref c2 = Known i"
    by (cases rule: classify_shape_cases [OF run'(2) g2]) auto
  moreover have "c2 = c"
    using run' calculation k
    by (auto simp: classify_shape_def Let_def split: prod.splits option.splits sum.splits)
  ultimately show ?thesis by simp
qed

end

section \<open>A cache\<close>

text \<open>The least recently used entry is last; an insertion drops what exceeds the capacity.\<close>

record list_cache =
  capacity :: nat
  items :: "(bytes \<times> schema_id) list"

definition drop_key :: "bytes \<Rightarrow> (bytes \<times> schema_id) list \<Rightarrow> (bytes \<times> schema_id) list" where
  "drop_key k l = filter (\<lambda>e. fst e \<noteq> k) l"

definition list_lru :: "list_cache lru" where
  "list_lru =
     \<lparr> lru_new = (\<lambda>n. \<lparr> capacity = max 1 n, items = [] \<rparr>),
       lru_get = (\<lambda>k c. (case map_of (items c) k of
           None \<Rightarrow> (None, c)
         | Some v \<Rightarrow> (Some v, c\<lparr> items := (k, v) # drop_key k (items c) \<rparr>))),
       lru_put = (\<lambda>k v c. c\<lparr> items := (k, v) # take (capacity c - 1) (drop_key k (items c)) \<rparr>) \<rparr>"

definition list_entries :: "list_cache \<Rightarrow> bytes \<Rightarrow> schema_id option" where
  "list_entries c = map_of (items c)"

lemma map_of_drop_key: "map_of (drop_key k l) = (map_of l)(k := None)"
  by (induction l) (auto simp: drop_key_def)

lemma map_of_take: "map_of (take n l) \<subseteq>\<^sub>m map_of l"
  by (metis append_take_drop_id map_add_le_mapE map_le_map_add map_of_append map_add_comm
      map_le_def map_add_find_right domIff map_add_dom_app_simps(1))

interpretation list_cache: lru_cache list_lru list_entries
proof
  fix n :: nat and k r and v :: schema_id and c c' :: list_cache
  show "list_entries (lru_new list_lru n) = Map.empty"
    by (simp add: list_lru_def list_entries_def)
  show "r = list_entries c k \<and> list_entries c' = list_entries c"
    if "lru_get list_lru k c = (r, c')"
    using that by (auto simp: list_lru_def list_entries_def map_of_drop_key split: option.splits)
  show "list_entries (lru_put list_lru k v c) \<subseteq>\<^sub>m (list_entries c)(k \<mapsto> v)"
    using map_of_take [of "capacity c - 1" "drop_key k (items c)"]
    by (auto simp: list_lru_def list_entries_def map_of_drop_key map_le_def)
  show "list_entries (lru_put list_lru k v c) k = Some v"
    by (simp add: list_lru_def list_entries_def)
qed

end
