(* ===== verification/Vault_Contract.thy ===== *)
theory Vault_Contract
  imports Vault_Spec Hot_Matcher
begin

text \<open>
  Further facts of the registry's contract: what a first publish stores, what republishing
  leaves alone, and how far the recorded variants determine the index.
\<close>

lemma vault_keeps_field:
  assumes "vault_keeps ks ks'" "schema_field ks s f = Some x"
    "f \<in> {''record'', ''canonical'', ''canonicalizer'', ''family'', ''version'', ''bucket''}"
  shows "schema_field ks' s f = Some x"
  using assms(1) [unfolded vault_keeps_def, THEN conjunct1] assms(2,3) by blast

lemma vault_keeps_stored: "vault_keeps ks ks' \<Longrightarrow> stored ks s \<Longrightarrow> stored ks' s"
  unfolding stored_def using vault_keeps_field by fastforce

context redis_service
begin

text \<open>A stored schema keeps every field of its hash but \<open>variants\<close>.\<close>

lemma publish_keeps_fields:
  assumes inv: "vault_inv b32 C V (view st)" and s: "stored (view st) s" and x: "x \<noteq> ''variants''"
    and run: "publish R C V health rec al bkey vs ac re now st = (res, st')"
  shows "schema_field (view st') s x = schema_field (view st) s x"
  using run
proof (cases rule: publish_cases)
  case (executed r)
  note 2 = executed(1)
  show ?thesis
    using inv
  proof (rule publish_script_cases [OF refl refl refl, where C = C and V = V and rec = rec and al = al
        and bkey = bkey and vs = vs and ac = ac and re = re and now = now])
    fix i st1
    assume "publish_script R (publish_call_of C V rec al bkey vs ac re now) st = (Inr i, st1)"
      and h: "\<And>k y. hashes (view st1) k y = (if k = schema_key (rec_schema_id rec) \<and> y = ''variants''
        then Some (encode_variants_field V vs) else hashes (view st) k y)"
    with 2 x show ?thesis by (simp add: schema_field_def h)
  next
    fix i st1
    assume "publish_script R (publish_call_of C V rec al bkey vs ac re now) st = (Inr i, st1)"
      and "\<not> stored (view st) (rec_schema_id rec)"
      and h: "\<And>t y. schema_field (view st1) t y =
        (if t = rec_schema_id rec then (if y = ''variants'' then Some (encode_variants_field V vs)
           else map_of (record_fields (publish_call_of C V rec al bkey vs ac re now) (Some i)) y)
         else schema_field (view st) t y)"
    with 2 s show ?thesis by (auto simp: h)
  qed (use 2 in auto)
qed simp

text \<open>The first publish of a schema.\<close>

lemma publish_first:
  assumes inv: "vault_inv b32 C V (view st)" and fresh: "\<not> stored (view st) (rec_schema_id rec)"
    and run: "publish R C V health rec al bkey vs ac re now st = (Inr v, st')"
  obtains i where "v = of_int i" "i = counter (view st) (rec_family_id rec) + 1"
    "version_at (view st') (rec_family_id rec) i = Some (schema_str (rec_schema_id rec))"
    "\<And>x. x \<noteq> ''variants'' \<Longrightarrow> schema_field (view st') (rec_schema_id rec) x =
       map_of (record_fields (publish_call_of C V rec al bkey vs ac re now) (Some i)) x"
proof -
  obtain i0 where 2: "publish_script R (publish_call_of C V rec al bkey vs ac re now) st = (Inr i0, st')" "v = of_int i0"
    using run by (rule publish_Inr)
  have c: "counters_ok (view st)" using inv by (simp add: vault_inv_def)
  show thesis
    using inv
  proof (rule publish_script_cases [OF refl refl refl, where C = C and V = V and rec = rec and al = al
        and bkey = bkey and vs = vs and ac = ac and re = re and now = now])
    fix i st1
    assume *: "publish_script R (publish_call_of C V rec al bkey vs ac re now) st = (Inr i, st1)"
      and inc: "incremented (hashes (view st) (family_key (rec_family_id rec)) ''next_version'') 1 = Some i"
      and fam: "\<And>g x. hashes (view st1) (family_key g) x =
        (if g = rec_family_id rec \<and> x = ''next_version'' then Some (int_dec i)
         else if g = rec_family_id rec \<and> x = ''v:'' @ int_dec i then Some (schema_str (rec_schema_id rec))
         else if g = rec_family_id rec \<and> x = ''family_id'' then Some (family_str (rec_family_id rec))
         else hashes (view st) (family_key g) x)"
      and h: "\<And>t y. schema_field (view st1) t y =
        (if t = rec_schema_id rec then (if y = ''variants'' then Some (encode_variants_field V vs)
           else map_of (record_fields (publish_call_of C V rec al bkey vs ac re now) (Some i)) y)
         else schema_field (view st) t y)"
    have st1: "st1 = st'" "i0 = i" using * 2 by simp_all
    show thesis
    proof (rule that [of i])
      show "v = of_int i" using 2 st1 by simp
      show "i = counter (view st) (rec_family_id rec) + 1" using incremented_counter [OF c inc] by simp
    qed (simp_all add: version_at_def fam [unfolded st1(1)] h [unfolded st1(1)])
  qed (use 2 fresh in auto)
qed

lemma publish_first_reads:
  assumes inv: "vault_inv b32 C V (view st)" and fresh: "\<not> stored (view st) (rec_schema_id rec)"
    and run: "publish R C V health rec al bkey vs ac re now st = (Inr v, st')"
    and small: "counter (view st) (rec_family_id rec) + 1 < 2 ^ 32"
    and codec: "dec C (enc C rec) = Some rec"
    and parse: "schema_id_parse b32 (schema_str (rec_schema_id rec)) = Inr (rec_schema_id rec)"
  shows "get_schema R C J (rec_schema_id rec) st' = Inr (Some (rec \<lparr> rec_version := v \<rparr>)) \<and>
    get_alias R b32 al st' = Inr (Some (rec_schema_id rec)) \<and>
    family_version_schema R b32 (rec_family_id rec) v st' = Inr (Some (rec_schema_id rec))"
proof -
  let ?s = "rec_schema_id rec" and ?f = "rec_family_id rec"
  obtain i where i: "v = of_int i" "i = counter (view st) ?f + 1"
    "version_at (view st') ?f i = Some (schema_str ?s)"
    and h: "\<And>x. x \<noteq> ''variants'' \<Longrightarrow> schema_field (view st') ?s x =
       map_of (record_fields (publish_call_of C V rec al bkey vs ac re now) (Some i)) x"
    by (rule publish_first [OF inv fresh run]) blast
  have "0 \<le> counter (view st) ?f" using inv counter_nonneg by (auto simp: vault_inv_def)
  then have pos: "0 \<le> i" "i < 2 ^ 32" using i(2) small by simp_all
  have "strs (view st') (alias_key al) = Some (schema_str ?s)"
    by (rule publish_success [OF inv run]) blast
  then have target: "get_alias R b32 al st' = Inr (Some ?s)" using parse by (rule get_alias_reads)
  have "nat_dec (unat v) = int_dec i"
    using pos by (simp add: i(1) int_dec_def unat_eq_nat_uint uint_word_of_int_eq take_bit_int_eq_self)
  then have fam: "family_version_schema R b32 ?f v st' = Inr (Some ?s)"
    using i(3) parse by (simp add: family_version_schema_def transpose_parse_def hget version_at_def)
  have "get_schema R C J ?s st' = Inr (Some (rec \<lparr> rec_version := v \<rparr>))"
    using codec parse_u32_int_dec [OF pos]
    by (simp add: get_schema_def get_schema_at_def hget schema_field_def [symmetric] h
        record_fields_def record_from_hash_def overlay_name_def i(1))
  with target fam show ?thesis by blast
qed

text \<open>
  The \<open>variants\<close> field holds what the last publish was given, so rebuilding the index drops
  the variants of earlier ones.
\<close>

lemma rebuild_after_publish:
  assumes V: "codec_ok V" and inv: "vault_inv b32 C V (view st)" and ok: "publish_ok b32 rec bkey vs"
    and run: "publish R C V health rec al bkey vs ac re now st = (Inr v, st1)"
    and rb: "rebuild_index R b32 V st1 = (res, st2)"
    and fp: "fp \<noteq> id_body (rec_schema_id rec)" "CHR ''='' \<notin> set fp"
    and k: "k = ''deblob:index:'' @ x" and out: "(k, fp) \<notin> set vs"
  shows "variant_member fp (rec_schema_id rec) \<notin> sets (view st2) k"
proof
  let ?s = "rec_schema_id rec"
  obtain i where "publish_script R (publish_call_of C V rec al bkey vs ac re now) st = (Inr i, st1)"
    using run by (rule publish_Inr)
  then have inv1: "vault_inv b32 C V (view st1)"
    using publish_script_inv [OF inv ok] by blast
  have field: "schema_field (view st1) ?s ''variants'' = Some (encode_variants_field V vs)"
  proof -
    obtain i where r: "publish_script R (publish_call_of C V rec al bkey vs ac re now) st = (Inr i, st1)"
      using run by (rule publish_Inr)
    show ?thesis
      using inv
      by (rule publish_script_cases [OF refl refl refl, where C = C and V = V and rec = rec and al = al
            and bkey = bkey and vs = vs and ac = ac and re = re and now = now])
        (use r in \<open>auto simp: schema_field_def\<close>)
  qed
  assume m: "variant_member fp ?s \<in> sets (view st2) k"
  have parts: "records_ok b32 C V (view st1)" "counters_ok (view st1)" "versions_ok (view st1)"
    using inv1 by (auto simp: vault_inv_def)
  obtain t where t: "stored (view st1) t" "indexed_by V (view st1) t k (variant_member fp ?s)"
    using rebuild_index_restores [OF V parts] rb m unfolding k by auto
  have id: "CHR ''='' \<notin> set (id_body t)"
    using t(1) inv1 by (auto simp: vault_inv_def records_ok_def hash_ok_def schema_id_ok_def)
  have "k \<noteq> schema_index_key" by (simp add: k schema_index_key_def)
  then consider "variant_member fp ?s = bucket_member t"
    | us f where "schema_field (view st1) t ''variants'' = Some (encode_variants_field V us)"
        "variants_ok us" "(k, f) \<in> set us" "variant_member fp ?s = variant_member f t"
    using t(2) by (auto simp: indexed_by_def)
  then show False
  proof cases
    case 1
    then show False using variant_member_eq [of fp ?s "id_body t" t] fp id
      by (auto simp: bucket_member_variant)
  next
    case 2
    then have "fp = f \<and> ?s = t"
      using variant_member_eq fp(2) variants_okD by blast
    moreover have "us = vs"
      using 2(1,2) field calculation decode_encode_variants [OF V] ok
      by (metis option.inject publish_ok_def)
    ultimately show False using 2 out by simp
  qed
qed

end

text \<open>
  The hot path over the registry in Redis: \<open>Registry::resolve_structural\<close> of the store answers
  the matcher. A schema the matcher reports is stored; a shape whose bucket and fingerprint a
  publication indexed is recognised.
\<close>

definition store_resolve ::
  "'st redis \<Rightarrow> (bytes \<Rightarrow> bytes option) \<Rightarrow> 'st \<Rightarrow> bytes \<Rightarrow> schema_id \<Rightarrow> core_error + schema_id option" where
  "store_resolve R b32 st bucket fp = resolve_structural_bucketed R b32 bucket fp st"

text \<open>
  The text of a digest identifier: what is documented of the base32 alphabet, in lower case.
\<close>

definition id_char :: "u8 \<Rightarrow> bool" where
  "id_char c \<longleftrightarrow> (97 \<le> byte_val c \<and> byte_val c \<le> 122) \<or> (50 \<le> byte_val c \<and> byte_val c \<le> 55)"

definition id_text :: "digests \<Rightarrow> bool" where
  "id_text D \<longleftrightarrow> (\<forall>d. list_all id_char (to_ascii_lowercase (d_base32 D d)))"

lemma id_char_plain: "id_char c \<Longrightarrow>
    c \<notin> {CHR ''='', CHR ''*'', CHR ''?'', CHR ''['', CHR '']'', CHR 0x5C, CHR ''^''}"
  by (auto simp: id_char_def byte_val_def)

lemma id_body_from_digest: "id_body (schema_id_from_digest b d) = to_ascii_lowercase (b d)"
  by (simp add: id_body_def schema_id_from_digest_def digest_from_def)

lemma fp_text:
  assumes "id_text D"
  shows "CHR ''='' \<notin> set (id_body (schema_id_from_digest (d_base32 D) d))"
    "glob_free (id_body (schema_id_from_digest (d_base32 D) d) @ ''='')"
proof -
  have "list_all id_char (to_ascii_lowercase (d_base32 D d))" using assms by (simp add: id_text_def)
  then have "\<forall>c\<in>set (to_ascii_lowercase (d_base32 D d)). id_char c" by (simp add: list_all_iff)
  then show "CHR ''='' \<notin> set (id_body (schema_id_from_digest (d_base32 D) d))"
    "glob_free (id_body (schema_id_from_digest (d_base32 D) d) @ ''='')"
    using id_char_plain unfolding id_body_from_digest glob_free_def list_all_iff by fastforce+
qed

lemma bucket_key_prefix: "\<exists>x. bucket_key s h sm = ''deblob:index:'' @ x"
  by (simp add: bucket_key_def Let_def)

lemma nat_dec_no_eq: "CHR ''='' \<notin> set (nat_dec n)"
proof -
  have "\<not> is_ascii_digit (CHR ''='')" by (simp add: is_ascii_digit_def byte_val_def)
  then show ?thesis using nat_dec_digits [of n] by (auto simp: list_all_iff)
qed

lemma bucket_key_index_key:
  assumes "\<And>x. CHR ''='' \<notin> set (h x)"
  shows "index_key (bucket_key s h sm)"
proof -
  have "CHR ''='' \<notin> set (take 8 (h x))" for x
    using assms in_set_takeD by metis
  then show ?thesis
    using bucket_key_prefix nat_dec_no_eq by (simp add: index_key_def bucket_key_def Let_def)
qed

context redis_service
begin

lemma store_resolve_stored:
  assumes "vault_inv b32 C V (view st)" "id_text D"
    and "store_resolve R b32 st (bucket_key s h sm) (schema_id_from_digest (d_base32 D) d) = Inr (Some i)"
  shows "stored (view st) i"
proof -
  obtain x where x: "bucket_key s h sm = ''deblob:index:'' @ x" using bucket_key_prefix by blast
  show ?thesis
    using resolve_result [OF assms(1) fp_text [OF assms(2), of d] x] assms(3)
    by (auto simp: store_resolve_def)
qed

text \<open>A publication makes the shapes it indexes known.\<close>

lemma publish_then_resolve:
  assumes inv: "vault_inv b32 C V (view st)" and inv': "vault_inv b32 C V (view st')" and D: "id_text D"
    and pub: "publish R C V health rec al bkey vs ac re now st = (Inr v, st')"
    and sm: "sm = summarize sh" and fp: "fp = schema_id_from_digest (d_base32 D) (fingerprint (d_sha256 D) sh)"
    and member: "(bucket_key (d_sha256 D) (d_hex D) sm, id_body fp) \<in>
      insert (bkey, id_body (rec_schema_id rec)) (set vs)"
  obtains t where "store_resolve R b32 st' (bucket_key (d_sha256 D) (d_hex D) sm) fp = Inr (Some t)"
    "stored (view st') t"
proof -
  let ?b = "bucket_key (d_sha256 D) (d_hex D) sm" and ?s = "rec_schema_id rec"
  obtain x where x: "?b = ''deblob:index:'' @ x" using bucket_key_prefix by blast
  obtain i where eff: "schema_field (view st') ?s ''canonical'' = Some (rec_canonical rec)"
    "bucket_member ?s \<in> sets (view st') bkey"
    "\<forall>(b, f)\<in>set vs. variant_member f ?s \<in> sets (view st') b"
    using publish_success [OF inv pub] by metis
  have st': "stored (view st') ?s"
    using eff(1) by (simp add: stored_def)
  have "variant_member (id_body fp) ?s \<in> sets (view st') ?b"
    using member eff(2,3) by (auto simp: bucket_member_variant)
  then show ?thesis
    using resolve_result [OF inv' fp_text [OF D, of "fingerprint (d_sha256 D) sh"] x] st' that by (auto simp: store_resolve_def fp)
qed

end

end
