(* ===== verification/Vault_Log.thy ===== *)
theory Vault_Log
  imports Vault_Contract
begin

text \<open>
  Runs of the vault with a log of what took effect: which schemas were published into which buckets
  with which variants, which names were written, and when the index was rebuilt. From the log alone
  one can compute what the structural index must hold and who named a schema last.
\<close>

section \<open>The log\<close>

datatype vault_event =
    Published schema_id bytes "(bytes \<times> bytes) list"
  | Named schema_id bytes bytes bytes
  | Rebuilt

text \<open>Whether a call is executed to its end, whatever its reply.\<close>

definition executes :: "'st redis \<Rightarrow> bytes \<Rightarrow> 'st \<Rightarrow> bool" where
  "executes R request st = (case r_link R request st of Refuses _ \<Rightarrow> False | _ \<Rightarrow> True)"

definition publish_takes_effect ::
  "'st redis \<Rightarrow> codecs \<Rightarrow> bool option \<Rightarrow> schema_record \<Rightarrow> candidate_id \<Rightarrow> bytes \<Rightarrow> (bytes \<times> bytes) list \<Rightarrow>
     bytes \<Rightarrow> bytes \<Rightarrow> nat \<Rightarrow> 'st \<Rightarrow> bool" where
  "publish_takes_effect R D health rec al bkey vs ac re now st \<longleftrightarrow>
     gate_ok health \<and> executes R ''schema_publish'' st \<and>
     is_ok (fst (publish_script R (publish_call_of (schema_codec D) (strings_codec D) rec al bkey vs ac re now) st))"

definition naming_takes_effect ::
  "'st redis \<Rightarrow> codecs \<Rightarrow> bool option \<Rightarrow> schema_id \<Rightarrow> bytes \<Rightarrow> bytes \<Rightarrow> json option \<Rightarrow> nat \<Rightarrow> 'st \<Rightarrow> bool" where
  "naming_takes_effect R D health i label source meta now st \<longleftrightarrow>
     gate_ok health \<and> executes R ''set_name'' st \<and>
     fst (set_name_script R (schema_key i) label source
       (case meta of Some v \<Rightarrow> enc (json_codec D) v | None \<Rightarrow> []) (nat_dec now) st) = ''applied''"

inductive vault_log_step ::
  "'st redis \<Rightarrow> ('st \<Rightarrow> keyspace) \<Rightarrow> codecs \<Rightarrow> 'st \<times> vault_event list \<Rightarrow> 'st \<times> vault_event list \<Rightarrow> bool"
  for R view D
where
  log_publish: "publish_ok (base32_dec D) rec bkey vs \<Longrightarrow>
    publish R (schema_codec D) (strings_codec D) health rec al bkey vs ac re now st = (res, st') \<Longrightarrow>
    vault_log_step R view D (st, hist)
      (st', hist @ (if publish_takes_effect R D health rec al bkey vs ac re now st
                    then [Published (rec_schema_id rec) bkey vs] else []))"
| log_name: "set_schema_name R (json_codec D) health i label source meta now st = (out, st') \<Longrightarrow>
    vault_log_step R view D (st, hist)
      (st', hist @ (if naming_takes_effect R D health i label source meta now st
                    then [Named i label source (case meta of Some v \<Rightarrow> enc (json_codec D) v | None \<Rightarrow> [])] else []))"
| log_rebuild: "rebuild_index R (base32_dec D) (strings_codec D) st = (n, st') \<Longrightarrow>
    vault_log_step R view D (st, hist) (st', hist @ [Rebuilt])"
| log_other: "same_vault (view st) (view st') \<Longrightarrow> vault_log_step R view D (st, hist) (st', hist)"

definition vault_log_run ::
  "'st redis \<Rightarrow> ('st \<Rightarrow> keyspace) \<Rightarrow> codecs \<Rightarrow> 'st \<times> vault_event list \<Rightarrow> 'st \<times> vault_event list \<Rightarrow> bool" where
  "vault_log_run R view D = (vault_log_step R view D)\<^sup>*\<^sup>*"

lemma log_step_step: "vault_log_step R view D (st, h) (st', h') \<Longrightarrow> vault_step R view D st st'"
  by (erule vault_log_step.cases) (auto intro: vault_step.intros)

lemma log_run_run: "vault_log_run R view D x y \<Longrightarrow> vault_run R view D (fst x) (fst y)"
  unfolding vault_log_run_def vault_run_def
proof (induction rule: rtranclp_induct)
  case (step y z)
  have "vault_step R view D (fst y) (fst z)" using step.hyps(2) log_step_step by (metis prod.collapse)
  with step.IH show ?case by (rule rtranclp.rtrancl_into_rtrancl)
qed simp

section \<open>The index a log describes\<close>

text \<open>
  Per schema: the bucket of its first publication, the variants of the latest one, and the entries of
  the index. A publication adds entries; a rebuild reduces them to the recorded ones.
\<close>

record index_entry =
  first_bucket :: "bytes option"
  latest_variants :: "(bytes \<times> bytes) list"
  entries_of :: "(bytes \<times> bytes) set"

definition no_entry :: index_entry where
  "no_entry = \<lparr> first_bucket = None, latest_variants = [], entries_of = {} \<rparr>"

fun index_after :: "(schema_id \<Rightarrow> index_entry) \<Rightarrow> vault_event \<Rightarrow> schema_id \<Rightarrow> index_entry" where
  "index_after I (Published s b vs) =
     I(s := \<lparr> first_bucket = (case first_bucket (I s) of None \<Rightarrow> Some b | Some b0 \<Rightarrow> Some b0),
              latest_variants = vs, entries_of = entries_of (I s) \<union> {(b, id_body s)} \<union> set vs \<rparr>)"
| "index_after I (Named s label source meta) = I"
| "index_after I Rebuilt =
     (\<lambda>s. (I s)\<lparr> entries_of := (case first_bucket (I s) of None \<Rightarrow> {}
        | Some b \<Rightarrow> {(b, id_body s)} \<union> set (latest_variants (I s))) \<rparr>)"

definition index_of :: "vault_event list \<Rightarrow> schema_id \<Rightarrow> index_entry" where
  "index_of hist = foldl index_after (\<lambda>_. no_entry) hist"

lemma index_of_Nil [simp]: "index_of [] = (\<lambda>_. no_entry)"
  by (simp add: index_of_def)

lemma index_of_snoc [simp]: "index_of (hist @ [e]) = index_after (index_of hist) e"
  by (simp add: index_of_def)

definition entry_recorded :: "bytes list codec \<Rightarrow> keyspace \<Rightarrow> schema_id \<Rightarrow> index_entry \<Rightarrow> bool" where
  "entry_recorded V ks s e \<longleftrightarrow>
     (case first_bucket e of
        None \<Rightarrow> \<not> stored ks s \<and> entries_of e = {}
      | Some b \<Rightarrow> stored ks s \<and> schema_field ks s ''bucket'' = Some b \<and>
          schema_field ks s ''variants'' = Some (encode_variants_field V (latest_variants e)) \<and>
          variants_ok (latest_variants e)) \<and>
     (\<forall>v\<in>entries_of e. index_key (fst v))"

definition index_holds :: "keyspace \<Rightarrow> (schema_id \<Rightarrow> index_entry) \<Rightarrow> bool" where
  "index_holds ks I \<longleftrightarrow> (\<forall>x. sets ks (''deblob:index:'' @ x) =
     {variant_member fp s |s fp. (''deblob:index:'' @ x, fp) \<in> entries_of (I s)})"

definition log_ok :: "codecs \<Rightarrow> keyspace \<Rightarrow> vault_event list \<Rightarrow> bool" where
  "log_ok D ks hist \<longleftrightarrow> vault_ok D ks \<and> index_holds ks (index_of hist) \<and>
     (\<forall>s. entry_recorded (strings_codec D) ks s (index_of hist s))"

lemma log_okD:
  assumes "log_ok D ks hist"
  shows "vault_ok D ks" "index_holds ks (index_of hist)"
    "entry_recorded (strings_codec D) ks s (index_of hist s)"
  using assms by (auto simp: log_ok_def)

lemma entry_recorded_cong:
  assumes "\<And>x. x \<in> {''canonical'', ''bucket'', ''variants''} \<Longrightarrow> schema_field ks' s x = schema_field ks s x"
  shows "entry_recorded V ks' s e = entry_recorded V ks s e"
  by (simp add: entry_recorded_def stored_def assms split: option.split)

lemma log_ok_frame:
  assumes "log_ok D ks hist" "vault_ok D ks'"
    and "\<And>s x. x \<in> {''canonical'', ''bucket'', ''variants''} \<Longrightarrow> schema_field ks' s x = schema_field ks s x"
    and "\<And>x. sets ks' (''deblob:index:'' @ x) = sets ks (''deblob:index:'' @ x)"
    and "index_of hist' = index_of hist"
  shows "log_ok D ks' hist'"
proof -
  have "entry_recorded V ks' s e = entry_recorded V ks s e" for V s e
    by (rule entry_recorded_cong [OF assms(3)])
  then show ?thesis using assms(1,2,5) by (simp add: log_ok_def index_holds_def assms(4) del: append.simps)
qed

section \<open>Every step keeps the log true\<close>

lemma added_members:
  "{f fp s |s fp. (k, fp) \<in> E s \<union> (if s = t then N else {})} =
     {f fp s |s fp. (k, fp) \<in> E s} \<union> {f fp t |fp. (k, fp) \<in> N}"
proof -
  have cond: "x \<in> (if s = t then N else {}) \<longleftrightarrow> s = t \<and> x \<in> N" for x s by simp
  show ?thesis unfolding Un_iff cond by blast
qed

context redis_service
begin

text \<open>What an executed publication leaves in the index and in the record.\<close>

lemma publish_script_indexes:
  assumes inv: "vault_inv b32 C V (view st)"
    and run: "publish_script R (publish_call_of C V rec al bkey vs ac re now) st = (Inr i, st')"
  shows "(\<forall>k. sets (view st') k = sets (view st) k \<union>
      {m. k = bkey \<and> m = bucket_member (rec_schema_id rec) \<or> k = schema_index_key \<and> m = schema_str (rec_schema_id rec) \<or>
          (\<exists>fp. (k, fp) \<in> set vs \<and> m = variant_member fp (rec_schema_id rec))}) \<and>
    (\<forall>t x. t \<noteq> rec_schema_id rec \<longrightarrow> schema_field (view st') t x = schema_field (view st) t x) \<and>
    stored (view st') (rec_schema_id rec) \<and>
    schema_field (view st') (rec_schema_id rec) ''variants'' = Some (encode_variants_field V vs) \<and>
    schema_field (view st') (rec_schema_id rec) ''bucket'' =
      (if stored (view st) (rec_schema_id rec) then schema_field (view st) (rec_schema_id rec) ''bucket'' else Some bkey)"
  using inv
proof (rule publish_script_cases [OF refl refl refl, where C = C and V = V and rec = rec and al = al
      and bkey = bkey and vs = vs and ac = ac and re = re and now = now], goal_cases)
  case (3 i' st1)
  then have "st1 = st'" using run by simp
  with 3 show ?case by (auto simp: schema_field_def stored_def)
next
  case (4 i' st1)
  then have "st1 = st'" using run by simp
  with 4 show ?case by (auto simp: stored_def record_fields_def)
qed (use run in auto)

lemma log_published:
  assumes ok: "log_ok D (view st) hist" and p: "publish_ok (base32_dec D) rec bkey vs"
    and run: "publish_script R (publish_call_of (schema_codec D) (strings_codec D) rec al bkey vs ac re now) st = (Inr i, st')"
  shows "log_ok D (view st') (hist @ [Published (rec_schema_id rec) bkey vs])"
proof -
  let ?s = "rec_schema_id rec" and ?I = "index_of hist"
  note v = log_okD [OF ok]
  note e = publish_script_indexes [OF v(1) run]
  have idx: "index_key bkey" "variants_ok vs" using p by (auto simp: publish_ok_def)
  have "index_holds (view st') (index_after ?I (Published ?s bkey vs))"
    unfolding index_holds_def
  proof
    fix x
    have ne: "''deblob:index:'' @ x \<noteq> schema_index_key" by (simp add: schema_index_key_def)
    define k where "k = ''deblob:index:'' @ x"
    have e1: "sets (view st') k = sets (view st) k \<union>
        {m. k = bkey \<and> m = bucket_member ?s \<or> k = schema_index_key \<and> m = schema_str ?s \<or>
          (\<exists>fp. (k, fp) \<in> set vs \<and> m = variant_member fp ?s)}"
      using e by blast
    have old: "sets (view st) k = {variant_member fp s |s fp. (k, fp) \<in> entries_of (?I s)}"
      using v(2) unfolding index_holds_def k_def by blast
    have ents: "entries_of (index_after ?I (Published ?s bkey vs) s) =
        entries_of (?I s) \<union> (if s = ?s then {(bkey, id_body ?s)} \<union> set vs else {})" for s by auto
    have "sets (view st') k = {variant_member fp s |s fp. (k, fp) \<in> entries_of (?I s)} \<union>
        {variant_member fp ?s |fp. (k, fp) \<in> {(bkey, id_body ?s)} \<union> set vs}"
    proof -
      have kne: "k \<noteq> schema_index_key" using ne k_def by simp
      have "{m. k = bkey \<and> m = bucket_member ?s \<or> k = schema_index_key \<and> m = schema_str ?s \<or>
          (\<exists>fp. (k, fp) \<in> set vs \<and> m = variant_member fp ?s)} =
          {variant_member fp ?s |fp. (k, fp) \<in> {(bkey, id_body ?s)} \<union> set vs}"
        unfolding bucket_member_variant using kne by auto
      then show ?thesis unfolding e1 old by simp
    qed
    also have "\<dots> = {variant_member fp s |s fp. (k, fp) \<in> entries_of (index_after ?I (Published ?s bkey vs) s)}"
      unfolding ents added_members by simp
    finally show "sets (view st') (''deblob:index:'' @ x) = {variant_member fp s |s fp.
        (''deblob:index:'' @ x, fp) \<in> entries_of (index_after ?I (Published ?s bkey vs) s)}"
      unfolding k_def .
  qed
  moreover have "entry_recorded (strings_codec D) (view st') t (index_after ?I (Published ?s bkey vs) t)" for t
  proof (cases "t = ?s")
    case True
    have "\<forall>v\<in>set vs. index_key (fst v)" using idx(2) by (auto simp: variants_ok_def)
    then show ?thesis
      using True e idx v(3) [of ?s] by (auto simp: entry_recorded_def split: option.splits)
  next
    case False
    then have "entry_recorded (strings_codec D) (view st') t (?I t) = entry_recorded (strings_codec D) (view st) t (?I t)"
      by (intro entry_recorded_cong) (use e in blast)
    then show ?thesis using False v(3) by simp
  qed
  ultimately show ?thesis using publish_script_inv [OF v(1) p run] by (simp add: log_ok_def)
qed

lemma schema_index_no_index: "''deblob:index:'' @ x \<noteq> schema_index_key"
  by (simp add: schema_index_key_def)

lemma log_rebuilt:
  assumes V: "codec_ok (strings_codec D)" and ok: "log_ok D (view st) hist"
    and run: "rebuild_index R (base32_dec D) (strings_codec D) st = (n, st')"
  shows "log_ok D (view st') (hist @ [Rebuilt])"
proof -
  let ?ks = "view st" and ?I = "index_of hist" and ?V = "strings_codec D"
  note v = log_okD [OF ok]
  have "records_ok (base32_dec D) (schema_codec D) ?V ?ks" "counters_ok ?ks" "versions_ok ?ks"
    using v(1) by (auto simp: vault_inv_def)
  from rebuild_index_restores [OF V this] run have inv': "vault_ok D (view st')"
    and same: "\<And>k. (\<nexists>x. k = ''deblob:index:'' @ x) \<Longrightarrow> k \<noteq> schema_index_key \<Longrightarrow> hashes (view st') k = hashes ?ks k"
    and ix: "\<And>x m. m \<in> sets (view st') (''deblob:index:'' @ x) \<longleftrightarrow>
       (\<exists>s. stored ?ks s \<and> indexed_by ?V ?ks s (''deblob:index:'' @ x) m)"
    by auto
  have field: "schema_field (view st') s x = schema_field ?ks s x" for s x
    using same [of "schema_key s"] by (simp add: schema_field_def schema_key_def schema_index_key_def)
  have mem: "stored ?ks s \<and> indexed_by ?V ?ks s k m \<longleftrightarrow>
      (\<exists>fp. (k, fp) \<in> entries_of (index_after ?I Rebuilt s) \<and> m = variant_member fp s)"
    if k: "k \<noteq> schema_index_key" for s k m
  proof (cases "first_bucket (?I s)")
    case None
    then show ?thesis using v(3) [of s] by (simp add: entry_recorded_def)
  next
    case (Some b)
    then have r: "stored ?ks s" "schema_field ?ks s ''bucket'' = Some b"
      "schema_field ?ks s ''variants'' = Some (encode_variants_field ?V (latest_variants (?I s)))"
      "variants_ok (latest_variants (?I s))" using v(3) [of s] by (simp_all add: entry_recorded_def)
    have uniq: "vs' = latest_variants (?I s)" if "schema_field ?ks s ''variants'' = Some (encode_variants_field ?V vs')"
      "variants_ok vs'" for vs'
      using that r(3,4) decode_encode_variants [OF V] by (metis option.inject)
    have "indexed_by ?V ?ks s k m \<longleftrightarrow> b = k \<and> m = variant_member (id_body s) s \<or>
        (\<exists>fp. (k, fp) \<in> set (latest_variants (?I s)) \<and> m = variant_member fp s)"
      unfolding indexed_by_def bucket_member_variant r(2) using k r(3,4) uniq by blast
    then show ?thesis using r(1) Some by auto
  qed
  have "index_holds (view st') (index_after ?I Rebuilt)"
    unfolding index_holds_def
  proof
    fix x show "sets (view st') (''deblob:index:'' @ x) =
      {variant_member fp s |s fp. (''deblob:index:'' @ x, fp) \<in> entries_of (index_after ?I Rebuilt s)}"
      using ix [of _ x] mem [of "''deblob:index:'' @ x"] unfolding set_eq_iff mem_Collect_eq
      by (metis schema_index_no_index)
  qed
  moreover have "entry_recorded ?V (view st') s (index_after ?I Rebuilt s)" for s
  proof -
    have "entry_recorded ?V (view st') s (?I s)"
      using entry_recorded_cong [of "view st'" s ?ks ?V "?I s"] field v(3) by simp
    moreover have "index_key b" if "stored ?ks s" "schema_field ?ks s ''bucket'' = Some b" for b
      using that v(1) by (auto simp: vault_inv_def records_ok_def hash_ok_def)
    ultimately show ?thesis
      using v(3) [of s] by (auto simp: entry_recorded_def variants_ok_def split: option.splits)
  qed
  ultimately show ?thesis using inv' by (simp add: log_ok_def)
qed

lemma log_step_ok:
  assumes "vault_log_step R view D (st, hist) (st', hist')" "codec_ok (strings_codec D)" "log_ok D (view st) hist"
  shows "log_ok D (view st') hist'"
  using assms(1)
proof cases
  case (log_publish rec bkey vs health al ac re now res)
  have ok': "vault_ok D (view st')"
    using vault_step_keeps [OF log_step_step [OF assms(1)] assms(2) log_okD(1) [OF assms(3)]] by blast
  from log_publish(3) show ?thesis
  proof (cases rule: publish_cases)
    case (unexecuted m)
    then have "\<not> publish_takes_effect R D health rec al bkey vs ac re now st"
      by (auto simp: publish_takes_effect_def executes_def gate_ok_def)
    then show ?thesis using unexecuted assms(3) by (simp add: log_publish(1))
  next
    case (executed r)
    show ?thesis
    proof (cases "executes R ''schema_publish'' st")
      case True
      show ?thesis
      proof (cases r)
        case (Inl e)
        then have "st' = st" using publish_script_failure [OF log_okD(1) [OF assms(3)]] executed(1) by blast
        then show ?thesis using assms(3) executed(1) Inl by (simp add: log_publish(1) publish_takes_effect_def)
      next
        case (Inr i)
        then show ?thesis
          using log_published [OF assms(3) log_publish(2)] executed(1,2) True
          by (simp add: log_publish(1) publish_takes_effect_def)
      qed
    next
      case False
      then obtain m where "r_link R ''schema_publish'' st = Refuses m" by (auto simp: executes_def split: link.splits)
      then have "st' = st" using log_publish(3) by (auto simp: publish_def round_trip_def split: if_splits)
      then show ?thesis using False assms(3) by (simp add: log_publish(1) publish_takes_effect_def)
    qed
  qed
next
  case (log_name health i label source meta now out)
  have ok': "vault_ok D (view st')"
    using vault_step_keeps [OF log_step_step [OF assms(1)] assms(2) log_okD(1) [OF assms(3)]] by blast
  have same: "(\<forall>s x. x \<in> {''canonical'', ''bucket'', ''variants''} \<longrightarrow> schema_field (view st') s x = schema_field (view st) s x) \<and>
      sets (view st') = sets (view st)"
    using log_name(2)
  proof (cases rule: set_schema_name_cases)
    case (2 m o')
    from set_name_script_effect [OF 2(1)] show ?thesis by (auto simp: schema_field_def)
  qed simp
  have "index_of hist' = index_of hist" by (simp add: log_name(1))
  then show ?thesis using log_ok_frame [OF assms(3) ok'] same by auto
next
  case (log_rebuild n)
  then show ?thesis using log_rebuilt [OF assms(2,3)] by simp
next
  case log_other
  have ok': "vault_ok D (view st')" using vault_ok_same [OF log_other(2) log_okD(1) [OF assms(3)]] .
  have "sets (view st') (''deblob:index:'' @ x) = sets (view st) (''deblob:index:'' @ x)" for x
    using log_other(2) vault_key_index unfolding same_vault_def by metis
  then show ?thesis using log_ok_frame [OF assms(3) ok'] log_other by (auto simp: same_vaultD)
qed

lemma log_run_ok:
  assumes "vault_log_run R view D (st, hist) (st', hist')" "codec_ok (strings_codec D)" "log_ok D (view st) hist"
  shows "log_ok D (view st') hist'"
proof -
  have "log_ok D (view (fst y)) (snd y)" if "vault_log_run R view D (st, hist) y" for y
    using that unfolding vault_log_run_def
  proof (induction rule: rtranclp_induct)
    case (step y z)
    then show ?case using log_step_ok [OF _ assms(2)] by (metis prod.collapse)
  qed (use assms(3) in simp)
  from this [OF assms(1)] show ?thesis by simp
qed

end

lemma log_ok_empty:
  assumes "vault_empty ks" shows "log_ok D ks []"
proof -
  have none: "sets ks (''deblob:index:'' @ x) = {}" "\<not> stored ks s" for x s
    using assms vault_key_index [of x] vault_key_intros(1) [of s]
    by (auto simp: vault_empty_def key_exists_def stored_def schema_field_def simp del: append.simps vault_key_intros)
  then show ?thesis
    using vault_ok_empty [OF assms]
    by (simp add: log_ok_def index_holds_def entry_recorded_def no_entry_def del: append.simps)
qed

section \<open>Who named a schema\<close>

text \<open>The names written to a schema, in order.\<close>

fun names_of :: "schema_id \<Rightarrow> vault_event list \<Rightarrow> (bytes \<times> bytes \<times> bytes) list" where
  "names_of s [] = []"
| "names_of s (Named i label source meta # hist) =
     (if i = s then [(label, source, meta)] else []) @ names_of s hist"
| "names_of s (Published i b vs # hist) = names_of s hist"
| "names_of s (Rebuilt # hist) = names_of s hist"

lemma names_of_append: "names_of s (h @ h') = names_of s h @ names_of s h'"
  by (induction s h rule: names_of.induct) auto

definition name_fields :: "keyspace \<Rightarrow> schema_id \<Rightarrow> bytes option \<times> bytes option \<times> bytes option" where
  "name_fields ks s = (schema_field ks s ''name_label'', schema_field ks s ''name_source'', schema_field ks s ''name_meta'')"

definition written_name :: "bytes \<times> bytes \<times> bytes \<Rightarrow> bytes option \<times> bytes option \<times> bytes option" where
  "written_name n = (case n of (label, source, meta) \<Rightarrow> (Some label, Some source, if meta = [] then None else Some meta))"

text \<open>The name a schema has: the last one written, or the one it had before.\<close>

definition human_named :: "keyspace \<Rightarrow> schema_id \<Rightarrow> vault_event list \<Rightarrow> keyspace \<Rightarrow> bool" where
  "human_named ks s hist ks' \<longleftrightarrow> stored ks' s \<and>
     (\<forall>n\<in>set (names_of s hist). fst (snd n) = ''human'') \<and>
     name_fields ks' s = (if names_of s hist = [] then name_fields ks s else written_name (last (names_of s hist)))"

lemma human_named_source:
  assumes "human_named ks s hist ks'" "schema_field ks s ''name_source'' = Some ''human''"
  shows "schema_field ks' s ''name_source'' = Some ''human''"
proof (cases "names_of s hist = []")
  case False
  then have "fst (snd (last (names_of s hist))) = ''human''"
    using assms(1) last_in_set by (simp add: human_named_def)
  then show ?thesis
    using assms(1) False by (cases "last (names_of s hist)") (simp add: human_named_def name_fields_def written_name_def)
qed (use assms in \<open>simp add: human_named_def name_fields_def\<close>)

lemma human_named_frame:
  assumes "human_named ks s hist ks'" "stored ks'' s" "name_fields ks'' s = name_fields ks' s"
    "names_of s hist' = names_of s hist"
  shows "human_named ks s hist' ks''"
  using assms by (simp add: human_named_def)

context redis_service
begin

lemma log_step_human:
  assumes "vault_log_step R view D (st, hist) (st', hist')" "codec_ok (strings_codec D)" "vault_ok D (view st)"
    and h: "human_named ks s hist (view st)" "schema_field ks s ''name_source'' = Some ''human''"
  shows "human_named ks s hist' (view st')"
proof -
  have st: "stored (view st) s" using h(1) by (simp add: human_named_def)
  then have st': "stored (view st') s"
    using vault_step_keeps [OF log_step_step [OF assms(1)] assms(2,3)] vault_keeps_stored by blast
  note frame = human_named_frame [OF h(1) st']
  from assms(1) show ?thesis
  proof cases
    case (log_publish rec bkey vs health al ac re now res)
    have "schema_field (view st') s x = schema_field (view st) s x" if "x \<noteq> ''variants''" for x
      using publish_keeps_fields [OF assms(3) st that log_publish(3)] .
    then show ?thesis by (intro frame) (simp_all add: name_fields_def log_publish(1) names_of_append)
  next
    case (log_name health i label source meta now out)
    let ?m = "case meta of Some v \<Rightarrow> enc (json_codec D) v | None \<Rightarrow> []"
    from log_name(2) show ?thesis
    proof (cases rule: set_schema_name_cases)
      case 1
      have "\<not> naming_takes_effect R D health i label source meta now st"
        using 1(2) by (auto simp: naming_takes_effect_def executes_def)
      then show ?thesis using h(1) 1 by (simp add: log_name(1))
    next
      case (2 m o')
      have src: "schema_field (view st) s ''name_source'' = Some ''human''" using human_named_source [OF h] .
      show ?thesis
      proof (cases "naming_takes_effect R D health i label source meta now st")
        case True
        then have o': "o' = ''applied''" using 2 by (simp add: naming_takes_effect_def)
        note eff = set_name_script_effect [OF 2(1), unfolded o', simplified]
        show ?thesis
        proof (cases "i = s")
          case same: True
          have "source = ''human''" using eff src same by (auto simp: schema_field_def)
          then show ?thesis
            using eff h(1) st' same True 2(2)
            by (auto simp: log_name(1) human_named_def names_of_append name_fields_def written_name_def schema_field_def)
        next
          case False
          then have "name_fields (view st') s = name_fields (view st) s"
            using eff by (simp add: name_fields_def schema_field_def)
          then show ?thesis using False by (intro frame) (auto simp: log_name(1) names_of_append)
        qed
      next
        case False
        then have "executes R ''set_name'' st \<longrightarrow> o' \<noteq> ''applied''" using 2 by (simp add: naming_takes_effect_def)
        moreover have "\<not> executes R ''set_name'' st \<Longrightarrow> st' = st"
          using log_name(2) by (auto simp: set_schema_name_def executes_def round_trip_def Let_def split: link.splits if_splits)
        moreover have "o' \<noteq> ''applied'' \<Longrightarrow> st' = st" using set_name_script_effect [OF 2(1)] by blast
        ultimately have "st' = st" by blast
        then show ?thesis using h(1) False by (simp add: log_name(1))
      qed
    qed
  next
    case (log_rebuild n)
    have "hashes (view st') (schema_key s) = hashes (view st) (schema_key s)"
      using rebuild_index_inv [OF assms(2,3)] log_rebuild
      by (auto simp: schema_key_def schema_index_key_def)
    then show ?thesis by (intro frame) (simp_all add: name_fields_def schema_field_def log_rebuild(1) names_of_append)
  next
    case log_other
    then show ?thesis by (intro frame) (simp_all add: name_fields_def same_vaultD)
  qed
qed

lemma log_run_human:
  assumes "vault_log_run R view D (st, []) (st', hist)" "codec_ok (strings_codec D)" "vault_ok D (view st)"
    and "stored (view st) s" "schema_field (view st) s ''name_source'' = Some ''human''"
  shows "human_named (view st) s hist (view st')"
proof -
  have "vault_ok D (view (fst y)) \<and> human_named (view st) s (snd y) (view (fst y))"
    if "vault_log_run R view D (st, []) y" for y
    using that unfolding vault_log_run_def
  proof (induction rule: rtranclp_induct)
    case (step y z)
    obtain a ha b hb where yz: "y = (a, ha)" "z = (b, hb)" by (cases y, cases z)
    have "vault_ok D (view b)"
      using vault_step_keeps [OF log_step_step [OF step.hyps(2) [unfolded yz]] assms(2)] step.IH yz by simp
    moreover have "human_named (view st) s hb (view b)"
      using log_step_human [OF step.hyps(2) [unfolded yz] assms(2) _ _ assms(5)] step.IH yz by simp
    ultimately show ?case by (simp add: yz)
  qed (use assms in \<open>simp add: human_named_def\<close>)
  from this [OF assms(1)] show ?thesis by simp
qed

end

end
