(* ===== verification/Vault_Demo.thy ===== *)
theory Vault_Demo
  imports Vault_Spec
begin

text \<open>
  A small deployment at which the theorems about the vault are instantiated: the in-memory
  server, computable codecs, and the vault after publishing one schema.
\<close>

section \<open>Codecs\<close>

text \<open>A list of strings: the letters of each, ended by a dot.\<close>

definition lines_enc :: "bytes list \<Rightarrow> bytes" where
  "lines_enc ss = concat (map (\<lambda>s. letter_enc s @ ''.'') ss)"

fun lines_dec :: "bytes \<Rightarrow> bytes \<Rightarrow> bytes list option" where
  "lines_dec acc [] = (if acc = [] then Some [] else None)"
| "lines_dec acc (c # s) =
     (if c = CHR ''.'' then
        (case letter_dec acc of None \<Rightarrow> None | Some x \<Rightarrow> map_option (Cons x) (lines_dec [] s))
      else lines_dec (acc @ [c]) s)"

definition lines_codec :: "bytes list codec" where
  "lines_codec = \<lparr> enc = lines_enc, dec = lines_dec [] \<rparr>"

lemma letter_no_dot: "CHR ''.'' \<notin> set (letter_enc s)"
proof -
  have "CHR ''.'' \<noteq> (char_of (65 + n) :: char)" if "n < 16" for n :: nat
  proof
    assume "CHR ''.'' = (char_of (65 + n) :: char)"
    then have "byte_val (CHR ''.'') = byte_val (char_of (65 + n))" by simp
    with that show False by (simp add: byte_val_char_of) (simp add: byte_val_def)
  qed
  moreover have "byte_val b div 16 < 16" "byte_val b mod 16 < 16" for b
    using byte_val_less [of b] by simp_all
  ultimately show ?thesis by (auto simp: letter_enc_def)
qed

lemma lines_dec_line:
  "CHR ''.'' \<notin> set t \<Longrightarrow> lines_dec acc (t @ s) = lines_dec (acc @ t) s"
  by (induction t arbitrary: acc) auto

lemma lines_codec_ok: "codec_ok lines_codec"
proof -
  have "lines_dec [] (lines_enc ss) = Some ss" for ss
  proof (induction ss)
    case (Cons s ss)
    have "letter_dec (letter_enc s) = Some s" using letter_codec_ok by (simp add: base32_ok_def)
    with Cons show ?case by (simp add: lines_enc_def lines_dec_line letter_no_dot)
  qed (simp add: lines_enc_def)
  then show ?thesis by (simp add: codec_ok_def lines_codec_def)
qed

section \<open>A schema\<close>

text \<open>Identifiers of one letter: the decoder pads it to the 32 bytes of a digest.\<close>

definition demo_dec :: "bytes \<Rightarrow> bytes option" where
  "demo_dec s = (if length s = 1 then Some (replicate 32 (hd s)) else None)"

definition demo_id :: "u8 \<Rightarrow> schema_id" where
  "demo_id c = SchemaId (''sch_'' @ [c])"

definition demo_record :: "u8 \<Rightarrow> schema_record" where
  "demo_record c =
     \<lparr> rec_schema_id = demo_id c, rec_family_id = FamilyId ''fam_1'', rec_version = 0,
       rec_canonical = [c], rec_canonicalizer = canonicalizer, rec_provenance = JNull,
       rec_semantic = None, rec_semantic_fingerprint = None, rec_privacy_class = None,
       rec_value_profile_ref = None, rec_value_profile_summary = None,
       rec_structural_simhash = None \<rparr>"

text \<open>A codec that is right on the demo records: it stores the canonical byte.\<close>

definition demo_codec :: "schema_record codec" where
  "demo_codec = \<lparr> enc = rec_canonical, dec = (\<lambda>s. case s of [c] \<Rightarrow> Some (demo_record c) | _ \<Rightarrow> None) \<rparr>"

definition demo_json :: "json codec" where
  "demo_json = \<lparr> enc = (\<lambda>_. ''j''), dec = (\<lambda>_. Some JNull) \<rparr>"

definition demo :: codecs where
  "demo = \<lparr> schema_codec = demo_codec, strings_codec = lines_codec, json_codec = demo_json,
     base32_dec = demo_dec \<rparr>"

definition demo_bucket :: bytes where
  "demo_bucket = ''deblob:index:1:1:aa''"

definition demo_alias :: candidate_id where
  "demo_alias = CandidateId ''cand_x''"

text \<open>Publishing a demo record with the given variants.\<close>

definition demo_publish :: "u8 \<Rightarrow> (bytes \<times> bytes) list \<Rightarrow> mem \<Rightarrow> (core_error + family_version) \<times> mem" where
  "demo_publish c vs m = publish mem_redis demo_codec lines_codec None (demo_record c) demo_alias
     demo_bucket vs ''me'' ''why'' 5 m"

definition demo_vault :: mem where
  "demo_vault = snd (demo_publish (CHR ''q'') [] mem_empty)"

lemma demo_empty_ok: "vault_inv demo_dec C V (mem_view mem_empty)"
  by (rule vault_ok_empty) (simp add: vault_empty_def key_exists_mem mem_keys_def mem_empty_def)

lemma empty_spaces [simp]:
  "lookup_list k (m_hashes mem_empty) = []" "m_strs mem_empty = []" "lookup_list k (m_sets mem_empty) = []"
  by (simp_all add: mem_empty_def lookup_list_def)

lemma demo_published: "demo_publish c vs mem_empty = (Inr 1, snd (demo_publish c vs mem_empty))"
proof -
  note ok = demo_empty_ok [of demo_codec lines_codec]
  have none: "counter (mem_view mem_empty) f = 0" "schema_field (mem_view mem_empty) s x = None"
    "\<not> stored (mem_view mem_empty) s" for f s x
    by (simp_all add: counter_def schema_field_def stored_def)
  obtain res st' where run: "demo_publish c vs mem_empty = (res, st')" by force
  show ?thesis
  proof (cases res)
    case (Inl e)
    with memory.publish_failure [OF ok run [unfolded demo_publish_def Inl]] show ?thesis
      by (simp add: none)
  next
    case (Inr v)
    from memory.publish_success [OF ok run [unfolded demo_publish_def Inr]] show ?thesis
      using run Inr by (auto simp: none)
  qed
qed

lemma demo_id_ok: "c \<noteq> CHR ''='' \<Longrightarrow> schema_id_ok demo_dec (demo_id c)"
  by (simp add: schema_id_ok_def demo_id_def schema_id_parse_def digest_parse_def demo_dec_def
      to_ascii_uppercase_def id_body_def)

lemma demo_base32: "base32_dec demo = demo_dec"
  by (simp add: demo_def)

lemma demo_publish_ok: "variants_ok vs \<Longrightarrow> publish_ok demo_dec (demo_record (CHR ''q'')) demo_bucket vs"
  using demo_id_ok by (simp add: publish_ok_def demo_record_def index_key_def demo_bucket_def)

lemma demo_step:
  assumes "variants_ok vs" "demo_publish (CHR ''q'') vs m = (r, m')"
  shows "vault_step mem_redis mem_view demo m m'"
  by (rule step_publish [where rec = "demo_record (CHR ''q'')" and variants = vs])
    (use assms demo_publish_ok in \<open>simp_all add: demo_def demo_publish_def\<close>)

lemma demo_run: "vault_run mem_redis mem_view demo mem_empty demo_vault"
  unfolding vault_run_def
  by (rule r_into_rtranclp, rule demo_step [OF _ demo_published [of "CHR ''q''" "[]", folded demo_vault_def]]) (simp add: variants_ok_def)

lemma demo_vault_ok: "vault_ok demo (mem_view demo_vault)"
  using memory.vault_run_keeps [OF demo_run] demo_empty_ok lines_codec_ok by (simp add: demo_def)

end
