(* ===== verification/Vault_Properties.thy ===== *)
theory Vault_Properties
  imports Vault_Log Vault_Demo
begin

text \<open>
  What the registry guarantees to its callers, over every server that satisfies the documented
  behaviour of the commands (\<open>redis_service\<close>). Each theorem is instantiated at the in-memory
  server by its witness.
\<close>

section \<open>Along every run\<close>


lemma demo_strings_ok: "codec_ok (strings_codec demo)"
  by (simp add: demo_def lines_codec_ok)



text \<open>C6: what was published is immutable: no later operation changes the record, canonical
  form, canonicalizer, family, version or bucket of a schema, the target of an alias, the
  version of a schema or the schema of a family version, and version counters never decrease.\<close>

theorem vault_immutable:
  assumes "redis_service R view" "codec_ok (strings_codec D)" "vault_ok D (view st)"
    and "vault_run R view D st st'"
  shows "(f \<in> {''record'', ''canonical'', ''canonicalizer'', ''family'', ''version'', ''bucket''} \<longrightarrow>
      schema_field (view st) s f = Some x \<longrightarrow> schema_field (view st') s f = Some x) \<and>
    (strs (view st) (alias_key a) = Some x \<longrightarrow> strs (view st') (alias_key a) = Some x) \<and>
    (published_at (view st) s = Some x \<longrightarrow> published_at (view st') s = Some x) \<and>
    (version_at (view st) fam i = Some x \<longrightarrow> version_at (view st') fam i = Some x) \<and>
    counter (view st) fam \<le> counter (view st') fam"
  using redis_service.vault_run_keeps [OF assms(1,4,2,3)] unfolding vault_keeps_def by blast

lemma demo_republish_run:
  "vault_run mem_redis mem_view demo demo_vault (snd (demo_publish (CHR ''q'') [] demo_vault))"
  unfolding vault_run_def
  by (rule r_into_rtranclp, rule demo_step [OF _ surjective_pairing]) (simp add: variants_ok_def)

lemma demo_version: "published_at (mem_view demo_vault) (demo_id (CHR ''q'')) = Some (int_dec 1)"
  by (rule memory.publish_success [OF demo_empty_ok
        demo_published [of "CHR ''q''" "[]", folded demo_vault_def, unfolded demo_publish_def]])
    (auto simp: demo_record_def stored_def schema_field_def counter_def [of "mem_view mem_empty"])

theorem vault_immutable_witness:
  "published_at (mem_view (snd (demo_publish (CHR ''q'') [] demo_vault))) (demo_id (CHR ''q'')) = Some (int_dec 1)"
  using vault_immutable [OF memory.redis_service_axioms demo_strings_ok demo_vault_ok demo_republish_run]
    demo_version by blast

text \<open>C11: a name given by a human is never replaced by a machine's: along every run, all names written
  to the schema after it are a human's, and label, source and metadata of the name are those that the
  last of these writes gave, or still the first ones when there was none.\<close>

theorem human_name_protected:
  assumes "redis_service R view" "codec_ok (strings_codec D)" "vault_ok D (view st)"
    and "vault_log_run R view D (st, []) (st', hist)" "stored (view st) s"
    and "schema_field (view st) s ''name_source'' = Some ''human''"
  shows "(\<forall>(label, source, meta)\<in>set (names_of s hist). source = ''human'') \<and>
    (if names_of s hist = []
     then schema_field (view st') s ''name_label'' = schema_field (view st) s ''name_label'' \<and>
       schema_field (view st') s ''name_source'' = Some ''human'' \<and>
       schema_field (view st') s ''name_meta'' = schema_field (view st) s ''name_meta''
     else case last (names_of s hist) of (label, source, meta) \<Rightarrow>
       schema_field (view st') s ''name_label'' = Some label \<and>
       schema_field (view st') s ''name_source'' = Some ''human'' \<and>
       schema_field (view st') s ''name_meta'' = (if meta = [] then None else Some meta))"
proof -
  have h: "human_named (view st) s hist (view st')"
    by (rule redis_service.log_run_human [OF assms(1,4,2,3,5,6)])
  then have all: "\<forall>(label, source, meta)\<in>set (names_of s hist). source = ''human''"
    by (auto simp: human_named_def)
  show ?thesis
  proof (cases "names_of s hist = []")
    case False
    obtain label source meta where l: "last (names_of s hist) = (label, source, meta)" by (cases "last (names_of s hist)") auto
    then have "source = ''human''" using last_in_set [OF False] all by auto
    then show ?thesis
      using all h l False by (simp add: human_named_def name_fields_def written_name_def)
  qed (use h assms(6) in \<open>simp add: human_named_def name_fields_def\<close>)
qed

definition demo_named :: mem where
  "demo_named = snd (set_schema_name mem_redis demo_json None (demo_id (CHR ''q'')) ''Orders'' ''human'' None 9 demo_vault)"

lemma demo_stored: "stored (mem_view demo_vault) (demo_id (CHR ''q''))"
  using memory.publish_success [OF demo_empty_ok
      demo_published [of "CHR ''q''" "[]", folded demo_vault_def, unfolded demo_publish_def]]
  by (auto simp: demo_record_def stored_def)

lemma demo_named_facts:
  "vault_ok demo (mem_view demo_named)" "stored (mem_view demo_named) (demo_id (CHR ''q''))"
  "schema_field (mem_view demo_named) (demo_id (CHR ''q'')) ''name_source'' = Some ''human''"
proof -
  let ?i = "demo_id (CHR ''q'')"
  obtain out st' where run: "set_schema_name mem_redis (json_codec demo) None ?i ''Orders'' ''human'' None 9 demo_vault = (out, st')"
    by force
  then have st': "st' = demo_named" by (simp add: demo_named_def demo_def)
  note step = step_name [OF run, where view = mem_view, unfolded st']
  have "vault_ok demo (mem_view demo_named) \<and> vault_keeps (mem_view demo_vault) (mem_view demo_named)"
    by (rule memory.vault_step_keeps [OF step demo_strings_ok demo_vault_ok])
  then show "vault_ok demo (mem_view demo_named)" "stored (mem_view demo_named) ?i"
    using vault_keeps_stored demo_stored by blast+
  obtain o' where "set_name_script mem_redis (schema_key ?i) ''Orders'' ''human'' [] (nat_dec 9) demo_vault = (o', demo_named)"
    using run unfolding st' by (rule set_schema_name_cases) (auto simp: gate_ok_def)
  moreover have "hashes (mem_view demo_vault) (schema_key ?i) ''record'' \<noteq> None"
    using demo_stored demo_vault_ok
    by (auto simp: vault_inv_def records_ok_def hash_ok_def schema_field_def)
  ultimately show "schema_field (mem_view demo_named) ?i ''name_source'' = Some ''human''"
    using memory.set_name_script_effect unfolding schema_field_def by fastforce
qed

theorem human_name_protected_witness:
  "schema_field (mem_view (snd (set_schema_name mem_redis (json_codec demo) None (demo_id (CHR ''q'')) ''x''
     ''machine'' None 10 demo_named))) (demo_id (CHR ''q'')) ''name_source'' = Some ''human''"
proof -
  let ?i = "demo_id (CHR ''q'')"
  obtain out st' where run: "set_schema_name mem_redis (json_codec demo) None ?i ''x'' ''machine'' None 10 demo_named = (out, st')"
    by force
  obtain hist where "vault_log_run mem_redis mem_view demo (demo_named, []) (st', hist)"
    using log_name [OF run, where view = mem_view and hist = "[]"] unfolding vault_log_run_def by blast
  from human_name_protected [OF memory.redis_service_axioms demo_strings_ok demo_named_facts(1) this demo_named_facts(2,3)] run
  show ?thesis by (auto split: if_splits prod.splits)
qed

section \<open>Publishing\<close>




text \<open>C8: a successful publish of a schema returns the version recorded for it (a republish the
  same one as before, without touching any counter; a first publish the next one of its
  family and of no other), and leaves the schema's canonical identity stored, the alias
  pointing at it, and the schema and each of its variants indexed.\<close>

theorem publish_allocates:
  assumes "redis_service R view" "vault_inv b32 C V (view st)"
    and "publish R C V health rec al bkey vs ac re now st = (Inr v, st')"
  shows "\<exists>i. v = of_int i \<and> published_at (view st') (rec_schema_id rec) = Some (int_dec i) \<and>
    strs (view st') (alias_key al) = Some (schema_str (rec_schema_id rec)) \<and>
    bucket_member (rec_schema_id rec) \<in> sets (view st') bkey \<and>
    (\<forall>(b, fp)\<in>set vs. variant_member fp (rec_schema_id rec) \<in> sets (view st') b) \<and>
    schema_field (view st') (rec_schema_id rec) ''canonical'' = Some (rec_canonical rec) \<and>
    schema_field (view st') (rec_schema_id rec) ''canonicalizer'' = Some (rec_canonicalizer rec) \<and>
    (if stored (view st) (rec_schema_id rec)
     then published_at (view st) (rec_schema_id rec) = Some (int_dec i) \<and>
       (\<forall>f. counter (view st') f = counter (view st) f)
     else i = counter (view st) (rec_family_id rec) + 1 \<and>
       (\<forall>f. counter (view st') f = (if f = rec_family_id rec then i else counter (view st) f)))"
  by (rule redis_service.publish_success [OF assms]) (auto intro!: exI)

theorem publish_allocates_witness:
  "\<exists>i. (1 :: u32) = of_int i \<and> published_at (mem_view demo_vault) (demo_id (CHR ''q'')) = Some (int_dec i)"
  using publish_allocates [OF memory.redis_service_axioms demo_empty_ok
      demo_published [of "CHR ''q''" "[]", folded demo_vault_def, unfolded demo_publish_def]]
  by (auto simp: demo_record_def)

text \<open>What is published can be read back: after the first publish of a schema, fetching it
  returns the record with the allocated version in place of the caller's, its alias resolves
  to it, and so does its family's version.\<close>

theorem publish_read_back:
  assumes "redis_service R view" "vault_inv b32 C V (view st)" "\<not> stored (view st) (rec_schema_id rec)"
    and "publish R C V health rec al bkey vs ac re now st = (Inr v, st')"
    and "counter (view st) (rec_family_id rec) + 1 < 2 ^ 32" "dec C (enc C rec) = Some rec"
    and "schema_id_parse b32 (schema_str (rec_schema_id rec)) = Inr (rec_schema_id rec)"
  shows "get_schema R C J (rec_schema_id rec) st' = Inr (Some (rec \<lparr> rec_version := v \<rparr>)) \<and>
    get_alias R b32 al st' = Inr (Some (rec_schema_id rec)) \<and>
    family_version_schema R b32 (rec_family_id rec) v st' = Inr (Some (rec_schema_id rec))"
  by (rule redis_service.publish_first_reads [OF assms])

theorem publish_read_back_witness:
  "get_schema mem_redis demo_codec demo_json (demo_id (CHR ''q'')) demo_vault =
     Inr (Some (demo_record (CHR ''q'') \<lparr> rec_version := 1 \<rparr>)) \<and>
   get_alias mem_redis demo_dec demo_alias demo_vault = Inr (Some (demo_id (CHR ''q''))) \<and>
   family_version_schema mem_redis demo_dec (FamilyId ''fam_1'') 1 demo_vault = Inr (Some (demo_id (CHR ''q'')))"
proof -
  let ?r = "demo_record (CHR ''q'')"
  have r: "rec_schema_id ?r = demo_id (CHR ''q'')" "rec_family_id ?r = FamilyId ''fam_1''"
    by (simp_all add: demo_record_def)
  have "counter (mem_view mem_empty) (rec_family_id ?r) + 1 < 2 ^ 32" "\<not> stored (mem_view mem_empty) (rec_schema_id ?r)"
    by (simp_all add: counter_def stored_def schema_field_def)
  moreover have "dec demo_codec (enc demo_codec ?r) = Some ?r"
    by (simp add: demo_codec_def demo_record_def)
  moreover have "schema_id_parse demo_dec (schema_str (rec_schema_id ?r)) = Inr (rec_schema_id ?r)"
    using demo_id_ok [of "CHR ''q''"] by (simp add: r schema_id_ok_def)
  ultimately show ?thesis
    using publish_read_back [OF memory.redis_service_axioms demo_empty_ok _
        demo_published [of "CHR ''q''" "[]", folded demo_vault_def, unfolded demo_publish_def]]
    by (simp add: r)
qed

section \<open>Versions\<close>

text \<open>A family's versions are listed in order from one without gaps, and each resolves to
  the schema that was published as that version.\<close>

theorem family_versions_gapless:
  assumes "redis_service R view" "vault_inv b32 C V (view st)" "counter (view st) f < 2 ^ 32"
  shows "list_family_versions R f st = Inr (map of_int [1..counter (view st) f]) \<and>
    (\<forall>i\<in>{1..counter (view st) f}. \<exists>s. family_version_schema R b32 f (of_int i) st = Inr (Some s) \<and>
       published_at (view st) s = Some (int_dec i))"
  by (rule redis_service.family_versions [OF assms])

lemma demo_counter: "counter (mem_view demo_vault) (FamilyId ''fam_1'') = 1"
  by (rule memory.publish_success [OF demo_empty_ok
        demo_published [of "CHR ''q''" "[]", folded demo_vault_def, unfolded demo_publish_def]])
    (auto simp: demo_record_def stored_def schema_field_def counter_def [of "mem_view mem_empty"])

theorem family_versions_gapless_witness:
  "list_family_versions mem_redis (FamilyId ''fam_1'') demo_vault = Inr [1] \<and>
   (\<exists>s. family_version_schema mem_redis demo_dec (FamilyId ''fam_1'') (of_int 1) demo_vault = Inr (Some s) \<and>
      published_at (mem_view demo_vault) s = Some (int_dec 1))"
  using family_versions_gapless [OF memory.redis_service_axioms demo_vault_ok, of "FamilyId ''fam_1''"]
  by (simp add: demo_counter demo_def)

section \<open>The structural index\<close>

text \<open>C10: resolving a fingerprint in a bucket is sound and complete for the index: it returns a
  stored schema indexed there under that fingerprint, or nothing when there is none; it never
  fails.\<close>

theorem resolve_sound_complete:
  assumes "redis_service R view" "vault_inv b32 C V (view st)"
    and "CHR ''='' \<notin> set (id_body fp)" "glob_free (id_body fp @ ''='')" "k = ''deblob:index:'' @ x"
  shows "(resolve_structural_bucketed R b32 k fp st = Inr None \<and>
      (\<forall>t. stored (view st) t \<longrightarrow> variant_member (id_body fp) t \<notin> sets (view st) k)) \<or>
    (\<exists>t. resolve_structural_bucketed R b32 k fp st = Inr (Some t) \<and>
      stored (view st) t \<and> variant_member (id_body fp) t \<in> sets (view st) k)"
  by (rule redis_service.resolve_result [OF assms])

lemma demo_indexed: "bucket_member (demo_id (CHR ''q'')) \<in> sets (mem_view demo_vault) demo_bucket"
  by (rule memory.publish_success [OF demo_empty_ok
        demo_published [of "CHR ''q''" "[]", folded demo_vault_def, unfolded demo_publish_def]])
    (simp add: demo_record_def)

theorem resolve_sound_complete_witness:
  "\<exists>t. resolve_structural_bucketed mem_redis demo_dec demo_bucket (demo_id (CHR ''q'')) demo_vault = Inr (Some t) \<and>
     stored (mem_view demo_vault) t \<and>
     variant_member (id_body (demo_id (CHR ''q''))) t \<in> sets (mem_view demo_vault) demo_bucket"
proof -
  have "variant_member (id_body (demo_id (CHR ''q''))) (demo_id (CHR ''q'')) \<in> sets (mem_view demo_vault) demo_bucket"
    using demo_indexed by (simp add: bucket_member_variant)
  moreover have "CHR ''='' \<notin> set (id_body (demo_id (CHR ''q'')))"
    "glob_free (id_body (demo_id (CHR ''q'')) @ ''='')" "demo_bucket = ''deblob:index:'' @ ''1:1:aa''"
    by (simp_all add: demo_id_def id_body_def glob_free_def demo_bucket_def)
  ultimately show ?thesis
    using resolve_sound_complete [OF memory.redis_service_axioms demo_vault_ok [unfolded demo_def, simplified]]
      demo_stored by blast
qed

text \<open>C9: the index is disposable: from intact records and any index whatsoever, rebuilding it over a
  connection that answers succeeds and restores the full invariant; the index then holds exactly, for
  each stored schema, its entry in its recorded bucket and one entry for each recorded variant, and no
  string, hash, set or stream under any other key has changed.\<close>

theorem rebuild_restores_index:
  assumes "redis_service R view" "codec_ok V" "records_ok b32 C V (view st)"
    and "counters_ok (view st)" "versions_ok (view st)"
  shows "\<exists>n st'. rebuild_index R b32 V st = (Inr n, st') \<and> vault_inv b32 C V (view st') \<and>
    (\<forall>k. (\<nexists>x. k = ''deblob:index:'' @ x) \<longrightarrow> k \<noteq> schema_index_key \<longrightarrow>
       strs (view st') k = strs (view st) k \<and> hashes (view st') k = hashes (view st) k \<and>
       sets (view st') k = sets (view st) k \<and> streams (view st') k = streams (view st) k) \<and>
    (\<forall>x m. m \<in> sets (view st') (''deblob:index:'' @ x) \<longleftrightarrow>
       (\<exists>s. stored (view st) s \<and> indexed_by V (view st) s (''deblob:index:'' @ x) m))"
  by (rule redis_service.rebuild_index_restores [OF assms])

theorem rebuild_restores_index_witness:
  "\<exists>n st'. rebuild_index mem_redis demo_dec lines_codec demo_vault = (Inr n, st') \<and>
    vault_inv demo_dec demo_codec lines_codec (mem_view st')"
proof -
  have "records_ok demo_dec demo_codec lines_codec (mem_view demo_vault)"
    "counters_ok (mem_view demo_vault)" "versions_ok (mem_view demo_vault)"
    using demo_vault_ok by (simp_all add: vault_inv_def demo_def)
  from rebuild_restores_index [OF memory.redis_service_axioms lines_codec_ok this] show ?thesis by blast
qed

text \<open>The verifier reports no problem on a consistent vault.\<close>

theorem verify_reports_nothing:
  assumes "redis_service R view" "vault_inv b32 C V (view st)"
  shows "verify_index R b32 st = []"
  by (rule redis_service.verify_index_clean [OF assms])

theorem verify_reports_nothing_witness: "verify_index mem_redis demo_dec demo_vault = []"
  using verify_reports_nothing [OF memory.redis_service_axioms demo_vault_ok] by (simp add: demo_def)

text \<open>Rebuilding the index forgets variants: a variant that the last publish of a schema was
  not given is gone from its bucket after a rebuild, also when an earlier publish had
  indexed it.\<close>

theorem rebuild_forgets_variants:
  assumes "redis_service R view" "codec_ok V" "vault_inv b32 C V (view st)" "publish_ok b32 rec bkey vs"
    and "publish R C V health rec al bkey vs ac re now st = (Inr v, st1)"
    and "rebuild_index R b32 V st1 = (res, st2)"
    and "fp \<noteq> id_body (rec_schema_id rec)" "CHR ''='' \<notin> set fp"
    and "k = ''deblob:index:'' @ x" "(k, fp) \<notin> set vs"
  shows "variant_member fp (rec_schema_id rec) \<notin> sets (view st2) k"
  by (rule redis_service.rebuild_after_publish [OF assms])

text \<open>The first publish indexes the variant, the second one is not given it.\<close>

theorem rebuild_forgets_variants_witness:
  "let v = (demo_bucket, ''z''); m1 = snd (demo_publish (CHR ''q'') [v] mem_empty);
       m2 = snd (demo_publish (CHR ''q'') [] m1); m3 = snd (rebuild_index mem_redis demo_dec lines_codec m2)
   in variant_member ''z'' (demo_id (CHR ''q'')) \<in> sets (mem_view m1) demo_bucket \<and>
      variant_member ''z'' (demo_id (CHR ''q'')) \<notin> sets (mem_view m3) demo_bucket"
proof -
  let ?c = "CHR ''q''" and ?v = "(demo_bucket, ''z'')"
  define m1 where "m1 = snd (demo_publish ?c [?v] mem_empty)"
  have vok: "variants_ok [?v]" "variants_ok []"
    by (simp_all add: variants_ok_def index_key_def demo_bucket_def)
  have r: "rec_schema_id (demo_record ?c) = demo_id ?c" "rec_family_id (demo_record ?c) = FamilyId ''fam_1''"
    "rec_canonical (demo_record ?c) = [?c]" "rec_canonicalizer (demo_record ?c) = canonicalizer"
    by (simp_all add: demo_record_def)
  note p1 = demo_published [of ?c "[?v]", folded m1_def, unfolded demo_publish_def]
  have ok1: "vault_inv demo_dec demo_codec lines_codec (mem_view m1)"
    using memory.vault_step_keeps [OF demo_step [OF vok(1) demo_published [of ?c "[?v]", folded m1_def]]
        demo_strings_ok] demo_empty_ok by (simp add: demo_def)
  obtain i where i: "variant_member ''z'' (demo_id ?c) \<in> sets (mem_view m1) demo_bucket"
    "strs (mem_view m1) (alias_key demo_alias) = Some (schema_str (demo_id ?c))"
    "schema_field (mem_view m1) (demo_id ?c) ''canonical'' = Some [?c]"
    "schema_field (mem_view m1) (demo_id ?c) ''canonicalizer'' = Some canonicalizer"
    by (rule memory.publish_success [OF demo_empty_ok p1]) (simp add: r)
  have st1: "stored (mem_view m1) (demo_id ?c)" using i(3) by (simp add: stored_def)
  obtain res m2 where p2: "demo_publish ?c [] m1 = (res, m2)" by force
  obtain w where w: "res = Inr w"
  proof (cases res)
    case (Inl e)
    with memory.publish_failure [OF ok1 p2 [unfolded demo_publish_def Inl]] show thesis
      using i st1 by (simp add: r)
  qed
  obtain out m3 where rb: "rebuild_index mem_redis demo_dec lines_codec m2 = (out, m3)" by force
  have "variant_member ''z'' (rec_schema_id (demo_record ?c)) \<notin> sets (mem_view m3) demo_bucket"
  proof (rule rebuild_forgets_variants [OF memory.redis_service_axioms lines_codec_ok ok1
        demo_publish_ok [OF vok(2)] p2 [unfolded demo_publish_def w] rb])
    show "''z'' \<noteq> id_body (rec_schema_id (demo_record ?c))" by (simp add: r id_body_def demo_id_def)
    show "demo_bucket = ''deblob:index:'' @ ''1:1:aa''" by (simp add: demo_bucket_def)
  qed simp_all
  then show ?thesis using i(1) p2 rb by (simp add: Let_def m1_def r)
qed

end
