(* ===== verification/Evidence.thy ===== *)
theory Evidence
  imports Vault_Theorems
begin

text \<open>
  The evidence store of \<open>deblob-redis\<close> (\<open>evidence.rs\<close>, with the state script of \<open>lua.rs\<close>):
  candidates under a time to live, their audit stubs, the index of candidates by state, the
  cluster of a generalized fingerprint, and the concrete variants seen of a candidate.

  An operation of one round trip is given as what the server does when it executes it; the round
  trip, which may fail, is put around it in \<open>Evidence_Port\<close>. \<open>set_state\<close> and the listing take several
  round trips, so theirs are in the definitions here. \<open>rebuild_candidate_index\<close> is given for a server
  that answers.
\<close>

section \<open>Keys and states\<close>

definition default_candidate_ttl_secs :: nat where
  "default_candidate_ttl_secs = 7 * 24 * 60 * 60"

definition evidence_stream_maxlen :: nat where
  "evidence_stream_maxlen = 1000"

definition candidate_key :: "candidate_id \<Rightarrow> bytes" where
  "candidate_key i = ''deblob:candidate:'' @ candidate_str i"

definition candidate_audit_key :: "candidate_id \<Rightarrow> bytes" where
  "candidate_audit_key i = ''deblob:candidate-audit:'' @ candidate_str i"

definition evidence_key :: "candidate_id \<Rightarrow> bytes" where
  "evidence_key i = ''deblob:evidence:'' @ candidate_str i"

definition cluster_key :: "bytes \<Rightarrow> bytes" where
  "cluster_key gen_fp = ''deblob:cluster:'' @ gen_fp"

definition variant_key :: "candidate_id \<Rightarrow> bytes" where
  "variant_key i = ''deblob:candidate-variants:'' @ candidate_str i"

fun state_str :: "candidate_state \<Rightarrow> bytes" where
  "state_str ProvisionalState = ''provisional''"
| "state_str StagedState = ''staged''"
| "state_str RejectedState = ''rejected''"

definition parse_state :: "bytes \<Rightarrow> candidate_state option" where
  "parse_state s =
     (if s = ''provisional'' then Some ProvisionalState
      else if s = ''staged'' then Some StagedState
      else if s = ''rejected'' then Some RejectedState
      else None)"

definition candidate_state_index_key :: "candidate_state \<Rightarrow> bytes" where
  "candidate_state_index_key s = ''deblob:candidates:'' @ state_str s"

definition all_candidate_states :: "candidate_state list" where
  "all_candidate_states = [ProvisionalState, StagedState, RejectedState]"

section \<open>The state script\<close>

definition set_state_script ::
  "'st redis \<Rightarrow> bytes \<Rightarrow> bytes \<Rightarrow> 'st \<Rightarrow> (script_error + int) \<times> 'st" where
  "set_state_script R candidate new_state st =
     (if \<not> r_exists R candidate st then (Inl ScriptNotFound, st)
      else if r_hget R candidate ''state'' st = Some ''rejected'' then (Inl TerminalState, st)
      else (Inr 1, r_hset R candidate ''state'' new_state st))"

fun map_set_state_error :: "script_error \<Rightarrow> core_error" where
  "map_set_state_error ScriptNotFound = NotFound"
| "map_set_state_error TerminalState = Conflict
     ''candidate is in the terminal Rejected state and cannot transition: TERMINAL_STATE''"
| "map_set_state_error Immutability = RegistryUnavailable ''IMMUTABILITY''"
| "map_set_state_error AliasConflict = RegistryUnavailable ''ALIAS_CONFLICT''"
| "map_set_state_error (ServerError msg) = RegistryUnavailable msg"

section \<open>Candidates\<close>

record audit_stub =
  stub_first_seen_ms :: int
  stub_generalized_fp :: bytes
  stub_source :: bytes

text \<open>The stored state wins over the one inside the JSON.\<close>

definition candidate_from_hash ::
  "candidate_record codec \<Rightarrow> bytes \<Rightarrow> bytes option \<Rightarrow> core_error + candidate_record" where
  "candidate_from_hash C record_json state =
     result_bind (ok_or (RegistryUnavailable ''corrupt candidate record'') (dec C record_json)) (\<lambda>rec.
       case state of
         None \<Rightarrow> Inr rec
       | Some s \<Rightarrow>
           result_bind (ok_or (RegistryUnavailable ''corrupt candidate record'') (parse_state s)) (\<lambda>x.
             Inr (rec \<lparr> cand_state := x \<rparr>)))"

definition audit_stub_of :: "candidate_record \<Rightarrow> audit_stub" where
  "audit_stub_of rec =
     \<lparr> stub_first_seen_ms = first_seen_ms rec,
       stub_generalized_fp =
         (case strip_prefix ''cand_'' (candidate_str (cand_id rec)) of
            Some b \<Rightarrow> b | None \<Rightarrow> candidate_str (cand_id rec)),
       stub_source =
         (case json_get ''source'' (cand_profile rec) of
            Some v \<Rightarrow> (case as_str v of Some s \<Rightarrow> s | None \<Rightarrow> ''unknown'')
          | None \<Rightarrow> ''unknown'') \<rparr>"

text \<open>\<open>SET key value NX\<close>\<close>

definition set_nx :: "'st redis \<Rightarrow> bytes \<Rightarrow> bytes \<Rightarrow> 'st \<Rightarrow> 'st" where
  "set_nx R k v st = (if r_exists R k st then st else r_set R k v st)"

definition upsert_candidate ::
  "'st redis \<Rightarrow> candidate_record codec \<Rightarrow> audit_stub codec \<Rightarrow> nat \<Rightarrow> candidate_record \<Rightarrow> 'st \<Rightarrow> 'st" where
  "upsert_candidate R C A candidate_ttl_secs rec st =
     (let key = candidate_key (cand_id rec);
          st1 = hset_all R key [(''record'', enc C rec), (''state'', state_str (cand_state rec))] st;
          st2 = r_expire R key candidate_ttl_secs st1;
          st3 = set_nx R (candidate_audit_key (cand_id rec)) (enc A (audit_stub_of rec)) st2
      in r_sadd R (candidate_state_index_key (cand_state rec)) (candidate_str (cand_id rec)) st3)"

definition get_candidate ::
  "'st redis \<Rightarrow> candidate_record codec \<Rightarrow> candidate_id \<Rightarrow> 'st \<Rightarrow> core_error + candidate_record option" where
  "get_candidate R C i st =
     (case r_hget R (candidate_key i) ''record'' st of
        None \<Rightarrow> Inr None
      | Some json \<Rightarrow>
          map_sum id Some (candidate_from_hash C json (r_hget R (candidate_key i) ''state'' st)))"

text \<open>
  The page of ids is what one \<open>SSCAN\<close> call returned, with the next cursor. For each id the record
  is read, and the id of an expired candidate is removed from the index.
\<close>

fun list_page ::
  "'st redis \<Rightarrow> candidate_record codec \<Rightarrow> bytes \<Rightarrow> bytes list \<Rightarrow> candidate_record list \<Rightarrow> 'st \<Rightarrow>
     (core_error + candidate_record list) \<times> 'st" where
  "list_page R C index [] records st = (Inr records, st)"
| "list_page R C index (i # ids) records st =
     (let key = ''deblob:candidate:'' @ i in
      case read_trip R RegistryUnavailable ''candidate_get''
          (Inr (r_hget R key ''record'' st, r_hget R key ''state'' st)) st of
        Inl e \<Rightarrow> (Inl e, st)
      | Inr (Some json, state) \<Rightarrow>
          (case candidate_from_hash C json state of
             Inl e \<Rightarrow> (Inl e, st)
           | Inr rec \<Rightarrow> list_page R C index ids (records @ [rec]) st)
      | Inr (None, _) \<Rightarrow>
          (case round_trip R RegistryUnavailable ''index_prune'' (\<lambda>st. (Inr (), r_srem R index i st)) st of
             (Inl e, st1) \<Rightarrow> (Inl e, st1)
           | (Inr _, st1) \<Rightarrow> list_page R C index ids records st1))"

definition list_candidates ::
  "'st redis \<Rightarrow> candidate_record codec \<Rightarrow> candidate_state \<Rightarrow> bytes \<times> bytes list \<Rightarrow> 'st \<Rightarrow>
     (core_error + candidate_record list \<times> bytes option) \<times> 'st" where
  "list_candidates R C state page st =
     (case read_trip R RegistryUnavailable ''candidate_list'' (Inr page) st of
        Inl e \<Rightarrow> (Inl e, st)
      | Inr (next_cursor, ids) \<Rightarrow>
          (let (res, st') = list_page R C (candidate_state_index_key state) ids [] st
           in (map_sum id (\<lambda>records. (records, if next_cursor = ''0'' then None else Some next_cursor)) res, st')))"

definition append_evidence :: "'st redis \<Rightarrow> json codec \<Rightarrow> candidate_id \<Rightarrow> json \<Rightarrow> 'st \<Rightarrow> 'st" where
  "append_evidence R J i stats st =
     r_xadd_maxlen R (evidence_key i) evidence_stream_maxlen [(''data'', enc J stats)] st"

text \<open>
  The script decides the transition; then, in a second round trip that may fail on its own, the
  index by state is brought in line.
\<close>

definition reindex :: "'st redis \<Rightarrow> candidate_id \<Rightarrow> candidate_state \<Rightarrow> 'st \<Rightarrow> 'st" where
  "reindex R i state st =
     foldl (\<lambda>st s. if s = state then r_sadd R (candidate_state_index_key s) (candidate_str i) st
                   else r_srem R (candidate_state_index_key s) (candidate_str i) st)
       st all_candidate_states"

definition set_state ::
  "'st redis \<Rightarrow> candidate_id \<Rightarrow> candidate_state \<Rightarrow> 'st \<Rightarrow> (core_error + unit) \<times> 'st" where
  "set_state R i state st =
     (let (result, st1) = round_trip R ServerError ''candidate_state''
            (set_state_script R (candidate_key i) (state_str state)) st
      in case result of
           Inl e \<Rightarrow> (Inl (map_set_state_error e), st1)
         | Inr _ \<Rightarrow> round_trip R RegistryUnavailable ''state_index'' (\<lambda>st. (Inr (), reindex R i state st)) st1)"

section \<open>Clusters and variants\<close>

definition get_cluster ::
  "'st redis \<Rightarrow> (bytes \<Rightarrow> bytes option) \<Rightarrow> bytes \<Rightarrow> 'st \<Rightarrow> core_error + candidate_id option" where
  "get_cluster R b32 gen_fp st =
     transpose_parse (RegistryUnavailable ''corrupt cluster target'') (candidate_id_parse b32)
       (r_get R (cluster_key gen_fp) st)"

definition set_cluster :: "'st redis \<Rightarrow> nat \<Rightarrow> bytes \<Rightarrow> candidate_id \<Rightarrow> 'st \<Rightarrow> 'st" where
  "set_cluster R candidate_ttl_secs gen_fp i st =
     r_expire R (cluster_key gen_fp) candidate_ttl_secs
       (r_set R (cluster_key gen_fp) (candidate_str i) st)"

definition add_variant :: "'st redis \<Rightarrow> nat \<Rightarrow> candidate_id \<Rightarrow> bytes \<Rightarrow> bytes \<Rightarrow> 'st \<Rightarrow> 'st" where
  "add_variant R candidate_ttl_secs i bkey fp_b32 st =
     r_expire R (variant_key i) candidate_ttl_secs
       (r_sadd R (variant_key i) (bkey @ ''='' @ fp_b32) st)"

definition get_variants :: "'st redis \<Rightarrow> candidate_id \<Rightarrow> 'st \<Rightarrow> (bytes \<times> bytes) list" where
  "get_variants R i st = List.map_filter (split_once (CHR ''='')) (r_smembers R (variant_key i) st)"

section \<open>Rebuilding the index by state\<close>

definition id_of_candidate_key :: "bytes \<Rightarrow> bytes" where
  "id_of_candidate_key key =
     (case strip_prefix ''deblob:candidate:'' key of Some s \<Rightarrow> s | None \<Rightarrow> key)"

fun rebuild_candidate_keys :: "'st redis \<Rightarrow> bytes list \<Rightarrow> nat \<Rightarrow> 'st \<Rightarrow> nat \<times> 'st" where
  "rebuild_candidate_keys R [] n st = (n, st)"
| "rebuild_candidate_keys R (key # keys) n st =
     (case r_hget R key ''state'' st of
        None \<Rightarrow> rebuild_candidate_keys R keys n st
      | Some state \<Rightarrow> rebuild_candidate_keys R keys (n + 1)
          (r_sadd R (''deblob:candidates:'' @ state) (id_of_candidate_key key) st))"

definition rebuild_candidate_index :: "'st redis \<Rightarrow> 'st \<Rightarrow> nat \<times> 'st" where
  "rebuild_candidate_index R st =
     (let st1 = foldl (\<lambda>st s. r_del R (candidate_state_index_key s) st) st all_candidate_states
      in rebuild_candidate_keys R (concat (r_scan R (''deblob:candidate:'' @ ''*'') st1)) 0 st1)"

end
