(* ===== verification/Evidence_Facts.thy ===== *)
theory Evidence_Facts
  imports Evidence
begin

text \<open>
  What the evidence store's operations do to the keyspace, the invariant of its index by
  state, and that none of them touches the vault.
\<close>

lemma evidence_key_eqs [simp]:
  "candidate_key i = candidate_key j \<longleftrightarrow> i = j"
  "candidate_audit_key i = candidate_audit_key j \<longleftrightarrow> i = j"
  "candidate_key i \<noteq> candidate_audit_key j" "candidate_audit_key j \<noteq> candidate_key i"
  "candidate_key i \<noteq> candidate_state_index_key s" "candidate_state_index_key s \<noteq> candidate_key i"
  "candidate_audit_key i \<noteq> candidate_state_index_key s"
  by (auto simp: candidate_key_def candidate_audit_key_def candidate_state_index_key_def
      intro: candidate_id.expand)

lemma state_str_eq [simp]: "state_str s = state_str t \<longleftrightarrow> s = t"
  by (cases s; cases t) auto

lemma state_index_eq [simp]: "candidate_state_index_key s = candidate_state_index_key t \<longleftrightarrow> s = t"
  by (simp add: candidate_state_index_key_def)

lemma parse_state_str [simp]: "parse_state (state_str s) = Some s"
  by (cases s) (simp_all add: parse_state_def)

lemma candidate_str_eq [simp]: "candidate_str i = candidate_str j \<longleftrightarrow> i = j"
  by (cases i; cases j) simp

lemma evidence_not_vault:
  "\<not> vault_key (candidate_key i)" "\<not> vault_key (candidate_audit_key i)"
  "\<not> vault_key (evidence_key i)" "\<not> vault_key (cluster_key g)" "\<not> vault_key (variant_key i)"
  "\<not> vault_key (''deblob:candidates:'' @ x)" "\<not> vault_key (''deblob:candidate:'' @ x)"
  by (auto simp: vault_key_def candidate_key_def candidate_audit_key_def evidence_key_def
      cluster_key_def variant_key_def schema_index_key_def)

lemma index_not_vault: "\<not> vault_key (candidate_state_index_key s)"
  by (simp add: candidate_state_index_key_def evidence_not_vault del: append.simps)

lemma same_vault_refl: "same_vault ks ks"
  by (simp add: same_vault_def)

lemma same_vault_trans: "same_vault a b \<Longrightarrow> same_vault b c \<Longrightarrow> same_vault a c"
  by (simp add: same_vault_def)

text \<open>The listings after a completed change of state.\<close>

definition moved_listings ::
  "candidate_id \<Rightarrow> candidate_state \<Rightarrow> (bytes \<Rightarrow> bytes set) \<Rightarrow> bytes \<Rightarrow> bytes set" where
  "moved_listings i s ks k =
     (if k = candidate_state_index_key s then insert (candidate_str i) (ks k)
      else if \<exists>t. k = candidate_state_index_key t then ks k - {candidate_str i}
      else ks k)"

lemma moved_listings_index [simp]:
  "x \<in> moved_listings i s ks (candidate_state_index_key t) \<longleftrightarrow>
     (if x = candidate_str i then t = s else x \<in> ks (candidate_state_index_key t))"
  by (auto simp: moved_listings_def)

context redis_service
begin

section \<open>Writes outside the vault\<close>

lemma same_vault_writes:
  assumes "\<not> vault_key k"
  shows "same_vault (view st) (view (r_hset R k f v st))"
    "same_vault (view st) (view (r_hdel R k f st))"
    "same_vault (view st) (view (r_sadd R k m st))"
    "same_vault (view st) (view (r_srem R k m st))"
    "same_vault (view st) (view (r_set R k v st))"
    "same_vault (view st) (view (r_del R k st))"
    "same_vault (view st) (view (r_expire R k n st))"
    "same_vault (view st) (view (r_xadd_maxlen R k n e st))"
proof -
  have ne: "k' \<noteq> k" if "vault_key k'" for k' using assms that by blast
  show "same_vault (view st) (view (r_hset R k f v st))"
    "same_vault (view st) (view (r_hdel R k f st))"
    "same_vault (view st) (view (r_sadd R k m st))"
    "same_vault (view st) (view (r_srem R k m st))"
    "same_vault (view st) (view (r_set R k v st))"
    "same_vault (view st) (view (r_del R k st))"
    using ne by (auto simp: same_vault_def writes ks_hset_def)
  show "same_vault (view st) (view (r_expire R k n st))"
    by (cases "key_exists (view st) k") (simp_all add: expire expire_missing same_vault_def)
  show "same_vault (view st) (view (r_xadd_maxlen R k n e st))"
    using xadd_maxlen [of k n e st] ne by (auto simp: same_vault_def)
qed

lemma same_vault_foldl:
  "(\<And>st x. same_vault (view st) (view (g st x))) \<Longrightarrow> same_vault (view st) (view (foldl g st xs))"
proof (induction xs arbitrary: st)
  case (Cons x xs)
  then show ?case using same_vault_trans [of "view st" "view (g st x)"] by simp
qed (simp add: same_vault_refl)

lemma hset_all_same_vault:
  "\<not> vault_key k \<Longrightarrow> same_vault (view st) (view (hset_all R k fvs st))"
  unfolding hset_all_def by (rule same_vault_foldl) (simp add: same_vault_writes split: prod.splits)

lemma set_nx_same_vault: "\<not> vault_key k \<Longrightarrow> same_vault (view st) (view (set_nx R k v st))"
  by (simp add: set_nx_def same_vault_writes same_vault_refl)

lemma upsert_same_vault: "same_vault (view st) (view (upsert_candidate R C A n rec st))"
proof -
  let ?k = "candidate_key (cand_id rec)"
  define st1 where "st1 = hset_all R ?k [(''record'', enc C rec), (''state'', state_str (cand_state rec))] st"
  define st2 where "st2 = r_expire R ?k n st1"
  define st3 where "st3 = set_nx R (candidate_audit_key (cand_id rec)) (enc A (audit_stub_of rec)) st2"
  define st4 where "st4 = r_sadd R (candidate_state_index_key (cand_state rec)) (candidate_str (cand_id rec)) st3"
  have "same_vault (view st) (view st1)" "same_vault (view st1) (view st2)"
    "same_vault (view st2) (view st3)" "same_vault (view st3) (view st4)"
    unfolding st1_def st2_def st3_def st4_def
    by (intro hset_all_same_vault set_nx_same_vault same_vault_writes evidence_not_vault index_not_vault)+
  then have "same_vault (view st) (view st4)" using same_vault_trans by blast
  then show ?thesis
    by (simp add: upsert_candidate_def Let_def st4_def st3_def st2_def st1_def)
qed

lemma reindex_same_vault: "same_vault (view st) (view (reindex R i s st))"
  unfolding reindex_def
  by (rule same_vault_foldl) (simp add: same_vault_writes index_not_vault)

lemma set_state_same_vault:
  assumes "set_state R i s st = (res, st')" shows "same_vault (view st) (view st')"
proof -
  let ?script = "set_state_script R (candidate_key i) (state_str s)"
    and ?index = "\<lambda>st. (Inr (), reindex R i s st) :: (core_error + unit) \<times> 'st"
  obtain r st1 where r: "round_trip R ServerError ''candidate_state'' ?script st = (r, st1)" by fastforce
  have "same_vault (view st) (view (snd (?script st)))"
    by (simp add: set_state_script_def same_vault_writes evidence_not_vault same_vault_refl)
  then have 1: "same_vault (view st) (view st1)"
    using round_trip_outcome [OF r] same_vault_refl by auto
  have 2: "same_vault (view st1) (view (snd (round_trip R RegistryUnavailable ''state_index'' ?index st1)))"
    using round_trip_outcome [OF surjective_pairing, of R RegistryUnavailable "''state_index''" ?index st1]
      reindex_same_vault [of st1 i s] same_vault_refl by auto
  show ?thesis
    using assms r 1 same_vault_trans [OF 1 2] by (auto simp: set_state_def split: sum.splits)
qed

text \<open>A listing either stops with an error, or drops the id of an expired candidate and goes on.\<close>

lemma list_page_cases:
  assumes "list_page R C index (i # ids) acc st = (res, st')"
  obtains (failed) e where "res = Inl e" "st' = st \<or>
      r_hget R (''deblob:candidate:'' @ i) ''record'' st = None \<and> st' = r_srem R index i st"
    | (pruned) "r_hget R (''deblob:candidate:'' @ i) ''record'' st = None"
        "list_page R C index ids acc (r_srem R index i st) = (res, st')"
    | (listed) json rec where "r_hget R (''deblob:candidate:'' @ i) ''record'' st = Some json"
        "candidate_from_hash C json (r_hget R (''deblob:candidate:'' @ i) ''state'' st) = Inr rec"
        "list_page R C index ids (acc @ [rec]) st = (res, st')"
proof -
  define key where "key = ''deblob:candidate:'' @ i"
  define x where "x = (r_hget R key ''record'' st, r_hget R key ''state'' st)"
  define t where "t = read_trip R RegistryUnavailable ''candidate_get'' (Inr x) st"
  have run: "(res, st') = (case t of
        Inl e \<Rightarrow> (Inl e, st)
      | Inr (Some json, state) \<Rightarrow>
          (case candidate_from_hash C json state of
             Inl e \<Rightarrow> (Inl e, st)
           | Inr rec \<Rightarrow> list_page R C index ids (acc @ [rec]) st)
      | Inr (None, _) \<Rightarrow>
          (case round_trip R RegistryUnavailable ''index_prune'' (\<lambda>st. (Inr (), r_srem R index i st)) st of
             (Inl e, st1) \<Rightarrow> (Inl e, st1)
           | (Inr _, st1) \<Rightarrow> list_page R C index ids acc st1))"
    using assms by (simp add: Let_def t_def x_def key_def del: append.simps)
  have tx: "t = Inr x \<or> (\<exists>e. t = Inl e)" using read_trip_outcome [of R RegistryUnavailable "''candidate_get''" "Inr x" st] unfolding t_def by auto
  show thesis
  proof (cases t)
    case (Inl e)
    then show thesis using run failed by simp
  next
    case (Inr y)
    then have y: "y = x" using tx by simp
    show thesis
    proof (cases "r_hget R key ''record'' st")
      case None
      obtain r st1 where rt: "round_trip R RegistryUnavailable ''index_prune'' (\<lambda>st. (Inr (), r_srem R index i st)) st = (r, st1)"
        by fastforce
      have s1: "st1 = st \<or> st1 = r_srem R index i st" "r = Inr () \<Longrightarrow> st1 = r_srem R index i st"
        using round_trip_outcome [OF rt] by auto
      show thesis
      proof (cases r)
        case (Inl e)
        have "res = Inl e" "st' = st1" using run Inr y x_def None rt Inl by simp_all
        then show thesis using failed [of e] s1(1) None by (simp add: key_def del: append.simps)
      next
        case (Inr u)
        then have "st1 = r_srem R index i st" using s1(2) by simp
        then have "list_page R C index ids acc (r_srem R index i st) = (res, st')"
          using run \<open>t = Inr y\<close> y x_def None rt Inr by simp
        then show thesis using pruned None by (simp add: key_def del: append.simps)
      qed
    next
      case (Some json)
      then show thesis
        using run Inr y x_def failed listed
        by (cases "candidate_from_hash C json (r_hget R key ''state'' st)") (auto simp: key_def simp del: append.simps)
    qed
  qed
qed

lemma list_page_same_vault:
  "list_page R C (candidate_state_index_key s) ids acc st = (res, st') \<Longrightarrow>
     same_vault (view st) (view st')"
proof (induction ids arbitrary: acc st)
  case (Cons i ids)
  have drop: "same_vault (view st) (view (r_srem R (candidate_state_index_key s) i st))"
    by (rule same_vault_writes(4) [OF index_not_vault])
  from Cons.prems show ?case
    by (cases rule: list_page_cases) (use Cons.IH drop same_vault_trans same_vault_refl in blast)+
qed (simp add: same_vault_refl)

lemma list_candidates_cases:
  assumes "list_candidates R C s page st = (out, st')"
  obtains (failed) e where "out = Inl e" "st' = st"
    | (listed) r where "list_page R C (candidate_state_index_key s) (snd page) [] st = (r, st')"
        "out = map_sum id (\<lambda>records. (records, if fst page = ''0'' then None else Some (fst page))) r"
proof (cases "read_trip R RegistryUnavailable ''candidate_list'' (Inr page) st")
  case (Inl e)
  then show thesis using assms by (intro failed [of e]) (auto simp: list_candidates_def)
next
  case (Inr x)
  then have "x = page" using read_trip_Inr by fastforce
  with Inr assms listed show thesis by (auto simp: list_candidates_def split: prod.splits)
qed

section \<open>Changing the state\<close>

lemma index_after_reindex:
  "sets (view (reindex R i s st)) k =
     (if k = candidate_state_index_key s then insert (candidate_str i) (sets (view st) k)
      else if \<exists>t. k = candidate_state_index_key t then sets (view st) k - {candidate_str i}
      else sets (view st) k)"
proof -
  have "(\<exists>t. k = candidate_state_index_key t) \<longleftrightarrow> k = candidate_state_index_key ProvisionalState \<or>
      k = candidate_state_index_key StagedState \<or> k = candidate_state_index_key RejectedState"
    by (metis candidate_state.exhaust)
  then show ?thesis
    by (cases s) (auto simp: reindex_def all_candidate_states_def sadd srem)
qed

lemma reindex_frame:
  "hashes (view (reindex R i s st)) = hashes (view st)"
  "strs (view (reindex R i s st)) = strs (view st)"
  "ttl (view (reindex R i s st)) = ttl (view st)"
  "streams (view (reindex R i s st)) = streams (view st)"
  by (cases s; simp add: reindex_def all_candidate_states_def sadd srem)+

text \<open>
  A change of state is not executed, or executed; the listings follow unless the second round trip
  fails.
\<close>

lemma set_state_cases:
  assumes run: "set_state R i s st = (res, st')"
  obtains (kept) e where "res = Inl e" "st' = st"
      "e = NotFound \<and> \<not> key_exists (view st) (candidate_key i) \<or>
       e = map_set_state_error TerminalState \<and> hashes (view st) (candidate_key i) ''state'' = Some ''rejected'' \<or>
       (\<exists>m. e = RegistryUnavailable m \<and> link_fails R m \<and> r_link R ''candidate_state'' st \<noteq> Answers)"
  | (moved) "key_exists (view st) (candidate_key i)"
      "hashes (view st) (candidate_key i) ''state'' \<noteq> Some ''rejected''"
      "\<And>k f. hashes (view st') k f = (if k = candidate_key i \<and> f = ''state'' then Some (state_str s)
         else hashes (view st) k f)"
      "strs (view st') = strs (view st)" "ttl (view st') = ttl (view st)"
      "streams (view st') = streams (view st)"
      "sets (view st') = moved_listings i s (sets (view st)) \<and> res = Inr () \<or>
       (sets (view st') = moved_listings i s (sets (view st)) \<or> sets (view st') = sets (view st)) \<and>
       (\<exists>m. res = Inl (RegistryUnavailable m) \<and> link_fails R m \<and>
          (r_link R ''candidate_state'' st \<noteq> Answers \<or> (\<exists>st1. r_link R ''state_index'' st1 \<noteq> Answers)))"
proof -
  let ?script = "set_state_script R (candidate_key i) (state_str s)"
    and ?index = "\<lambda>st. (Inr (), reindex R i s st) :: (core_error + unit) \<times> 'st"
  obtain r st1 where r: "round_trip R ServerError ''candidate_state'' ?script st = (r, st1)" by fastforce
  have run': "(res, st') = (case r of Inl e \<Rightarrow> (Inl (map_set_state_error e), st1)
      | Inr _ \<Rightarrow> round_trip R RegistryUnavailable ''state_index'' ?index st1)"
    using run r by (simp add: set_state_def)
  define st2 where "st2 = r_hset R (candidate_key i) ''state'' (state_str s) st"
  have h2: "hashes (view st2) k f = (if k = candidate_key i \<and> f = ''state'' then Some (state_str s)
         else hashes (view st) k f)" for k f
    by (simp add: st2_def hset ks_hset_def)
  have f2: "strs (view st2) = strs (view st)" "ttl (view st2) = ttl (view st)"
    "streams (view st2) = streams (view st)" "sets (view st2) = sets (view st)"
    by (simp_all add: st2_def hset ks_hset_def)
  show thesis
  proof (cases "key_exists (view st) (candidate_key i) \<and> hashes (view st) (candidate_key i) ''state'' \<noteq> Some ''rejected''")
    case False
    then have sc: "?script st = (Inl (if key_exists (view st) (candidate_key i) then TerminalState else ScriptNotFound), st)"
      by (auto simp: set_state_script_def reads)
    from r show thesis
    proof (cases rule: round_trip_cases)
      case answers
      then show thesis using sc run' False kept by (auto split: if_splits)
    next
      case (refused m)
      then show thesis using run' kept [of "RegistryUnavailable m"] by auto
    next
      case (lost m r')
      then show thesis using sc run' kept [of "RegistryUnavailable m"] by auto
    qed
  next
    case True
    then have sc: "?script st = (Inr 1, st2)" by (simp add: set_state_script_def reads st2_def)
    from r show thesis
    proof (cases rule: round_trip_cases)
      case answers
      then have st1: "st1 = st2" "r = Inr 1" using sc by simp_all
      then have "round_trip R RegistryUnavailable ''state_index'' ?index st2 = (res, st')" using run' by simp
      then show thesis
      proof (cases rule: round_trip_cases)
        case answers
        then have "res = Inr ()" "st' = reindex R i s st2" by simp_all
        then show thesis using True h2 f2
          by (intro moved) (simp_all add: reindex_frame index_after_reindex moved_listings_def fun_eq_iff)
      next
        case (refused m)
        then show thesis using True h2 f2 by (intro moved) (auto intro: exI [of _ st2])
      next
        case (lost m r')
        then have "st' = reindex R i s st2" by simp
        then have v: "hashes (view st') = hashes (view st2)" "strs (view st') = strs (view st2)"
          "ttl (view st') = ttl (view st2)" "streams (view st') = streams (view st2)"
          "sets (view st') = moved_listings i s (sets (view st2))"
          by (simp_all add: reindex_frame index_after_reindex moved_listings_def fun_eq_iff)
        show thesis
          by (rule moved) (use True h2 f2 lost(1,2) in \<open>auto simp: v intro: exI [of _ st2]\<close>)
      qed
    next
      case (refused m)
      then show thesis using run' kept [of "RegistryUnavailable m"] by auto
    next
      case (lost m r')
      then have "st' = st2" "res = Inl (RegistryUnavailable m)" using sc run' by simp_all
      then show thesis using True h2 f2 lost(1) by (intro moved) auto
    qed
  qed
qed

section \<open>Storing a candidate\<close>

lemma upsert_effect:
  fixes rec :: candidate_record
  assumes "st' = upsert_candidate R C A n rec st"
  shows "hashes (view st') k f =
      (if k = candidate_key (cand_id rec) \<and> f = ''record'' then Some (enc C rec)
       else if k = candidate_key (cand_id rec) \<and> f = ''state'' then Some (state_str (cand_state rec))
       else hashes (view st) k f)"
    "sets (view st') k =
      (if k = candidate_state_index_key (cand_state rec)
       then insert (candidate_str (cand_id rec)) (sets (view st) k) else sets (view st) k)"
    "ttl (view st') (candidate_key (cand_id rec)) = Some n"
    "strs (view st) (candidate_audit_key (cand_id rec)) = Some x \<Longrightarrow>
      strs (view st') (candidate_audit_key (cand_id rec)) = Some x"
    "k \<noteq> candidate_audit_key (cand_id rec) \<Longrightarrow> strs (view st') k = strs (view st) k"
    "streams (view st') = streams (view st)"
proof -
  let ?k = "candidate_key (cand_id rec)"
  define st1 where "st1 = hset_all R ?k [(''record'', enc C rec), (''state'', state_str (cand_state rec))] st"
  define st2 where "st2 = r_expire R ?k n st1"
  define st3 where "st3 = set_nx R (candidate_audit_key (cand_id rec)) (enc A (audit_stub_of rec)) st2"
  have st': "st' = r_sadd R (candidate_state_index_key (cand_state rec)) (candidate_str (cand_id rec)) st3"
    using assms by (simp add: upsert_candidate_def Let_def st1_def st2_def st3_def)
  have h1: "hashes (view st1) k f =
      (if k = ?k \<and> f = ''record'' then Some (enc C rec)
       else if k = ?k \<and> f = ''state'' then Some (state_str (cand_state rec))
       else hashes (view st) k f)" for k f
    by (simp add: st1_def hashes_hset_all)
  have "hashes (view st1) ?k ''record'' \<noteq> None" by (simp add: h1)
  then have "key_exists (view st1) ?k" unfolding key_exists_def by blast
  then have v2: "view st2 = view st1 \<lparr> ttl := (ttl (view st1))(?k \<mapsto> n) \<rparr>"
    by (simp add: st2_def expire)
  have v3: "hashes (view st3) = hashes (view st2)" "sets (view st3) = sets (view st2)"
    "ttl (view st3) ?k = ttl (view st2) ?k"
    by (simp_all add: st3_def set_nx_def set)
  show "hashes (view st') k f =
      (if k = ?k \<and> f = ''record'' then Some (enc C rec)
       else if k = ?k \<and> f = ''state'' then Some (state_str (cand_state rec))
       else hashes (view st) k f)"
    by (simp add: st' sadd v3 v2 h1)
  show "sets (view st') k =
      (if k = candidate_state_index_key (cand_state rec)
       then insert (candidate_str (cand_id rec)) (sets (view st) k) else sets (view st) k)"
    by (simp add: st' sadd v3 v2 st1_def frames)
  show "ttl (view st') ?k = Some n"
    by (simp add: st' sadd v3 v2)
  show "strs (view st') k = strs (view st) k" if "k \<noteq> candidate_audit_key (cand_id rec)"
    using that by (simp add: st' sadd st3_def set_nx_def set v2 st1_def frames)
  show "streams (view st') = streams (view st)"
    by (simp add: st' sadd st3_def set_nx_def set v2 st1_def frames)
  assume x: "strs (view st) (candidate_audit_key (cand_id rec)) = Some x"
  then have "key_exists (view st2) (candidate_audit_key (cand_id rec))"
    by (simp add: v2 st1_def frames key_exists_def)
  then show "strs (view st') (candidate_audit_key (cand_id rec)) = Some x"
    using x by (simp add: st' sadd st3_def set_nx_def exists v2 st1_def frames)
qed

lemma get_after_upsert:
  assumes "codec_ok C"
  shows "get_candidate R C (cand_id rec) (upsert_candidate R C A n rec st) = Inr (Some rec)"
  using assms
  by (simp add: get_candidate_def hget upsert_effect [OF refl] candidate_from_hash_def)

end

section \<open>The index by state\<close>

text \<open>
  Every stored candidate is in the listing of its state, except those of a given set. (A listing
  may hold more: ids whose candidate expired, or moved on by an \<open>upsert\<close>, until they are cleaned up.)
\<close>

definition listed :: "candidate_id set \<Rightarrow> keyspace \<Rightarrow> bool" where
  "listed U ks \<longleftrightarrow>
     (\<forall>i s. hashes ks (candidate_key i) ''state'' = Some (state_str s) \<longrightarrow> i \<notin> U \<longrightarrow>
        candidate_str i \<in> sets ks (candidate_state_index_key s)) \<and>
     (\<forall>i f. hashes ks (candidate_key i) f \<noteq> None \<longrightarrow>
        hashes ks (candidate_key i) ''record'' \<noteq> None \<and>
        (\<exists>s. hashes ks (candidate_key i) ''state'' = Some (state_str s))) \<and>
     (\<forall>i. strs ks (candidate_key i) = None \<and> sets ks (candidate_key i) = {} \<and>
        streams ks (candidate_key i) = [])"

lemma listedD:
  assumes "listed U ks"
  shows "hashes ks (candidate_key i) ''state'' = Some (state_str s) \<Longrightarrow> i \<notin> U \<Longrightarrow>
      candidate_str i \<in> sets ks (candidate_state_index_key s)"
    "hashes ks (candidate_key i) f \<noteq> None \<Longrightarrow> hashes ks (candidate_key i) ''record'' \<noteq> None"
    "hashes ks (candidate_key i) f \<noteq> None \<Longrightarrow>
      \<exists>s. hashes ks (candidate_key i) ''state'' = Some (state_str s)"
    "strs ks (candidate_key i) = None" "sets ks (candidate_key i) = {}"
    "streams ks (candidate_key i) = []"
  using assms unfolding listed_def by blast+

lemma listedI:
  assumes "\<And>i s. hashes ks (candidate_key i) ''state'' = Some (state_str s) \<Longrightarrow> i \<notin> U \<Longrightarrow>
      candidate_str i \<in> sets ks (candidate_state_index_key s)"
    and "\<And>i f. hashes ks (candidate_key i) f \<noteq> None \<Longrightarrow>
      hashes ks (candidate_key i) ''record'' \<noteq> None \<and>
      (\<exists>s. hashes ks (candidate_key i) ''state'' = Some (state_str s))"
    and "\<And>i. strs ks (candidate_key i) = None \<and> sets ks (candidate_key i) = {} \<and>
        streams ks (candidate_key i) = []"
  shows "listed U ks"
  using assms unfolding listed_def by blast

lemma listed_mono: "listed U ks \<Longrightarrow> U \<subseteq> U' \<Longrightarrow> listed U' ks"
  unfolding listed_def by blast

text \<open>
  A step: an operation of the store, which may fail, the expiry of a candidate, or anything
  elsewhere. The set collects the candidates whose last change of state was executed but reported
  as failed: their listing may not have followed.
\<close>

inductive evidence_step ::
  "'st redis \<Rightarrow> ('st \<Rightarrow> keyspace) \<Rightarrow> candidate_record codec \<Rightarrow> audit_stub codec \<Rightarrow> nat \<Rightarrow>
     'st \<times> candidate_id set \<Rightarrow> 'st \<times> candidate_id set \<Rightarrow> bool"
  for R view C A secs
where
  ev_upsert: "round_trip R RegistryUnavailable ''candidate_upsert'' (\<lambda>st. (Inr (), upsert_candidate R C A secs rec st)) st =
      (res, st') \<Longrightarrow>
    evidence_step R view C A secs (st, U) (st', if res = Inr () then U - {cand_id rec} else U)"
| ev_set_state: "set_state R i s st = (res, st') \<Longrightarrow>
    evidence_step R view C A secs (st, U)
      (st', if res = Inr () then U - {i} else if st' = st then U else insert i U)"
| ev_list: "list_candidates R C s page st = (out, st') \<Longrightarrow> evidence_step R view C A secs (st, U) (st', U)"
| ev_rebuild: "rebuild_candidate_index R st = (n, st') \<Longrightarrow> evidence_step R view C A secs (st, U) (st', {})"
| ev_expire: "view st' = view st \<lparr> hashes := (hashes (view st))(candidate_key i := \<lambda>_. None) \<rparr> \<Longrightarrow>
    evidence_step R view C A secs (st, U) (st', U)"
| ev_other: "\<forall>i. hashes (view st') (candidate_key i) = hashes (view st) (candidate_key i) \<and>
      strs (view st') (candidate_key i) = strs (view st) (candidate_key i) \<and>
      sets (view st') (candidate_key i) = sets (view st) (candidate_key i) \<and>
      streams (view st') (candidate_key i) = streams (view st) (candidate_key i) \<Longrightarrow>
    \<forall>s. sets (view st') (candidate_state_index_key s) = sets (view st) (candidate_state_index_key s) \<Longrightarrow>
    evidence_step R view C A secs (st, U) (st', U)"

lemma candidate_key_prefix: "(\<exists>x. k = ''deblob:candidate:'' @ x) \<longleftrightarrow> (\<exists>i. k = candidate_key i)"
proof
  assume "\<exists>x. k = ''deblob:candidate:'' @ x"
  then obtain x where "k = candidate_key (CandidateId x)" by (auto simp: candidate_key_def)
  then show "\<exists>i. k = candidate_key i" by blast
qed (auto simp: candidate_key_def)

lemma glob_free_candidate: "glob_free ''deblob:candidate:''"
  by (simp add: glob_free_def)

lemma id_of_candidate_key [simp]: "id_of_candidate_key (candidate_key i) = candidate_str i"
  by (simp add: id_of_candidate_key_def candidate_key_def del: append.simps)

context redis_service
begin

lemma list_page_effect:
  assumes "list_page R C index ids acc st = (res, st')"
  shows "hashes (view st') = hashes (view st) \<and> strs (view st') = strs (view st) \<and>
    streams (view st') = streams (view st) \<and>
    (\<forall>k. sets (view st') k \<subseteq> sets (view st) k) \<and>
    (\<forall>k m. m \<in> sets (view st) k \<longrightarrow> hashes (view st) (''deblob:candidate:'' @ m) ''record'' \<noteq> None \<longrightarrow>
       m \<in> sets (view st') k)"
  using assms
proof (induction ids arbitrary: acc st)
  case (Cons i ids)
  have same: "hashes (view (r_srem R index i st)) = hashes (view st)"
    "strs (view (r_srem R index i st)) = strs (view st)"
    "streams (view (r_srem R index i st)) = streams (view st)"
    by (simp_all add: srem)
  have sub: "sets (view (r_srem R index i st)) k \<subseteq> sets (view st) k" for k
    by (simp add: srem)
  have keep: "m \<in> sets (view (r_srem R index i st)) k"
    if "r_hget R (''deblob:candidate:'' @ i) ''record'' st = None"
      "m \<in> sets (view st) k" "hashes (view st) (''deblob:candidate:'' @ m) ''record'' \<noteq> None" for k m
  proof -
    have "m \<noteq> i" using that(1,3) by (metis hget)
    then show ?thesis using that(2) by (auto simp: srem)
  qed
  from Cons.prems show ?case
  proof (cases rule: list_page_cases)
    case (failed e)
    then show ?thesis
    proof (elim disjE conjE)
      assume "r_hget R (''deblob:candidate:'' @ i) ''record'' st = None" "st' = r_srem R index i st"
      then show ?thesis using same sub keep by blast
    qed simp
  next
    case pruned
    show ?thesis using Cons.IH [OF pruned(2)] sub keep [OF pruned(1)] unfolding same by blast
  next
    case (listed json rec)
    show ?thesis by (rule Cons.IH [OF listed(3)])
  qed
qed simp

lemma rebuild_candidate_keys_effect:
  assumes "rebuild_candidate_keys R keys n st = (n', st')"
  shows "hashes (view st') = hashes (view st) \<and> strs (view st') = strs (view st) \<and>
    streams (view st') = streams (view st) \<and>
    (\<forall>k. sets (view st) k \<subseteq> sets (view st') k) \<and>
    (\<forall>k. (\<nexists>x. k = ''deblob:candidates:'' @ x) \<longrightarrow> sets (view st') k = sets (view st) k) \<and>
    (\<forall>key\<in>set keys. \<forall>x. hashes (view st) key ''state'' = Some x \<longrightarrow>
       id_of_candidate_key key \<in> sets (view st') (''deblob:candidates:'' @ x))"
  using assms
proof (induction keys arbitrary: n st)
  case (Cons key keys)
  show ?case
  proof (cases "hashes (view st) key ''state''")
    case None
    with Cons show ?thesis by (simp add: hget)
  next
    case (Some x)
    define k where "k = ''deblob:candidates:'' @ x"
    let ?st = "r_sadd R k (id_of_candidate_key key) st"
    from Some Cons.prems have run: "rebuild_candidate_keys R keys (n + 1) ?st = (n', st')"
      by (simp add: hget k_def)
    have same: "hashes (view ?st) = hashes (view st)" "strs (view ?st) = strs (view st)"
      "streams (view ?st) = streams (view st)" "sets (view ?st) k = insert (id_of_candidate_key key) (sets (view st) k)"
      "\<And>k'. k' \<noteq> k \<Longrightarrow> sets (view ?st) k' = sets (view st) k'"
      "\<And>k'. sets (view st) k' \<subseteq> sets (view ?st) k'"
      by (auto simp: sadd)
    note IH = Cons.IH [OF run, unfolded same(1-3)]
    have "id_of_candidate_key key \<in> sets (view st') k" using IH same(4) by blast
    then have "\<forall>y. hashes (view st) key ''state'' = Some y \<longrightarrow>
        id_of_candidate_key key \<in> sets (view st') (''deblob:candidates:'' @ y)"
      using Some by (simp add: k_def)
    moreover have "(\<nexists>x. k' = ''deblob:candidates:'' @ x) \<longrightarrow> sets (view st') k' = sets (view st) k'" for k'
      using IH same(5) [of k'] k_def by metis
    moreover have "sets (view st) k' \<subseteq> sets (view st') k'" for k'
      using IH same(6) [of k'] by blast
    moreover have "\<forall>key'\<in>set keys. \<forall>x. hashes (view st) key' ''state'' = Some x \<longrightarrow>
        id_of_candidate_key key' \<in> sets (view st') (''deblob:candidates:'' @ x)"
      using IH by blast
    ultimately show ?thesis using IH by (simp only: list.set ball_simps simp_thms) blast
  qed
qed simp

lemma rebuild_candidate_index_listed:
  assumes l: "listed U (view st)" and run: "rebuild_candidate_index R st = (n, st')"
  shows "listed {} (view st')"
proof -
  define st1 where "st1 = foldl (\<lambda>st s. r_del R (candidate_state_index_key s) st) st all_candidate_states"
  define keys where "keys = concat (r_scan R (''deblob:candidate:'' @ ''*'') st1)"
  have same: "hashes (view st1) (candidate_key i) = hashes (view st) (candidate_key i)"
    "strs (view st1) (candidate_key i) = strs (view st) (candidate_key i)"
    "sets (view st1) (candidate_key i) = sets (view st) (candidate_key i)"
    "streams (view st1) (candidate_key i) = streams (view st) (candidate_key i)" for i
    by (simp_all add: st1_def all_candidate_states_def del)
  have "rebuild_candidate_keys R keys 0 st1 = (n, st')"
    using run by (simp add: rebuild_candidate_index_def Let_def st1_def keys_def)
  note eff = rebuild_candidate_keys_effect [OF this]
  have h: "hashes (view st') (candidate_key i) = hashes (view st) (candidate_key i)" for i
    using eff same by simp
  have not_index: "(\<nexists>x. candidate_key i = ''deblob:candidates:'' @ x)" for i
    by (simp add: candidate_key_def)
  show ?thesis
  proof (rule listedI)
    fix i s assume "hashes (view st') (candidate_key i) ''state'' = Some (state_str s)"
    then have x: "hashes (view st1) (candidate_key i) ''state'' = Some (state_str s)" using eff by simp
    then have "key_exists (view st1) (candidate_key i)" unfolding key_exists_def by auto
    then have "candidate_key i \<in> set keys"
      unfolding keys_def scan [OF glob_free_candidate] candidate_key_prefix by blast
    with eff x show "candidate_str i \<in> sets (view st') (candidate_state_index_key s)"
      unfolding candidate_state_index_key_def by (metis id_of_candidate_key)
  next
    fix i
    show "hashes (view st') (candidate_key i) ''record'' \<noteq> None \<and>
        (\<exists>s. hashes (view st') (candidate_key i) ''state'' = Some (state_str s))"
      if "hashes (view st') (candidate_key i) f \<noteq> None" for f
      using that listedD(2,3) [OF l] unfolding h by blast
    show "strs (view st') (candidate_key i) = None \<and> sets (view st') (candidate_key i) = {} \<and>
        streams (view st') (candidate_key i) = []"
      using eff not_index [of i] listedD(4-6) [OF l, of i] by (simp add: same)
  qed
qed

lemma set_state_listed:
  assumes l: "listed U (view st)" and run: "set_state R i s st = (res, st')"
  shows "listed (if res = Inr () then U - {i} else if st' = st then U else insert i U) (view st')"
  using run
proof (cases rule: set_state_cases)
  case moved
  note l' = listedD [OF l]
  have i: "hashes (view st) (candidate_key i) ''record'' \<noteq> None"
    using moved(1) l'(2) [of i] l'(4) [of i] l'(5) [of i] l'(6) [of i] unfolding key_exists_def by (metis empty_iff)
  have ne: "candidate_key j \<noteq> candidate_state_index_key t" for j t by simp
  have sets_j: "candidate_str j \<in> sets (view st) (candidate_state_index_key t) \<Longrightarrow> j \<noteq> i \<Longrightarrow>
      candidate_str j \<in> sets (view st') (candidate_state_index_key t)" for j t
    using moved(7) by (auto simp: moved_listings_def)
  have sets_k: "sets (view st') (candidate_key j) = sets (view st) (candidate_key j)" for j
    using moved(7) by (auto simp: moved_listings_def)
  have all: "listed (if res = Inr () then U - {i} else insert i U) (view st')"
  proof (rule listedI)
    fix j t assume j: "hashes (view st') (candidate_key j) ''state'' = Some (state_str t)"
      "j \<notin> (if res = Inr () then U - {i} else insert i U)"
    show "candidate_str j \<in> sets (view st') (candidate_state_index_key t)"
    proof (cases "j = i")
      case True
      then have "res = Inr ()" using j(2) by (auto split: if_splits)
      then show ?thesis using j(1) True moved(7) by (auto simp: moved(3) moved_listings_def)
    next
      case False
      then have "j \<notin> U" using j(2) by (auto split: if_splits)
      then show ?thesis using False j(1) l'(1) sets_j by (simp add: moved(3))
    qed
  next
    fix j
    show "hashes (view st') (candidate_key j) ''record'' \<noteq> None \<and>
        (\<exists>s. hashes (view st') (candidate_key j) ''state'' = Some (state_str s))"
      if "hashes (view st') (candidate_key j) f \<noteq> None" for f
      using that l'(2,3) [of j f] i by (auto simp: moved(3) split: if_splits)
    show "strs (view st') (candidate_key j) = None \<and> sets (view st') (candidate_key j) = {} \<and>
        streams (view st') (candidate_key j) = []"
      using l'(4-6) by (simp add: moved(4,6) sets_k)
  qed
  show ?thesis
  proof (cases "res \<noteq> Inr () \<and> st' = st")
    case True
    then show ?thesis using l by simp
  next
    case False
    then show ?thesis using all by (auto split: if_splits)
  qed
qed (use l in simp)

lemma upsert_listed:
  "listed U (view st) \<Longrightarrow> listed (U - {cand_id rec}) (view (upsert_candidate R C A secs rec st))"
  by (rule listedI) (auto simp: upsert_effect [OF refl] dest: listedD split: if_splits)

lemma evidence_step_listed:
  "evidence_step R view C A secs x y \<Longrightarrow> listed (snd x) (view (fst x)) \<Longrightarrow> listed (snd y) (view (fst y))"
proof (induction rule: evidence_step.induct)
  case (ev_upsert rec st res st' U)
  note u = upsert_listed [of U st rec C A secs]
  then have u': "listed U (view st) \<Longrightarrow> listed U (view (upsert_candidate R C A secs rec st))"
    using listed_mono by blast
  show ?case
    using round_trip_outcome [OF ev_upsert.hyps] ev_upsert.prems u u' by auto
next
  case (ev_set_state i s st res st' U)
  then show ?case using set_state_listed by simp
next
  case (ev_list s page st out st' U)
  note l = listedD [OF ev_list.prems]
  from ev_list.hyps show ?case
  proof (cases rule: list_candidates_cases)
    case (listed r)
    note eff = list_page_effect [OF listed(1)]
    show ?thesis
    proof (rule listedI)
      fix i t assume "hashes (view (fst (st', U))) (candidate_key i) ''state'' = Some (state_str t)" "i \<notin> snd (st', U)"
      then have h: "hashes (view st) (candidate_key i) ''state'' = Some (state_str t)" "i \<notin> U" using eff by simp_all
      then have "hashes (view st) (candidate_key i) ''record'' \<noteq> None" using l(2) by auto
      with l(1) [of i t] h eff show "candidate_str i \<in> sets (view (fst (st', U))) (candidate_state_index_key t)"
        by (simp add: candidate_key_def del: append.simps)
    next
      fix i
      show "hashes (view (fst (st', U))) (candidate_key i) ''record'' \<noteq> None \<and>
          (\<exists>s. hashes (view (fst (st', U))) (candidate_key i) ''state'' = Some (state_str s))"
        if "hashes (view (fst (st', U))) (candidate_key i) f \<noteq> None" for f
        using that l(2,3) eff by auto
      show "strs (view (fst (st', U))) (candidate_key i) = None \<and> sets (view (fst (st', U))) (candidate_key i) = {} \<and>
          streams (view (fst (st', U))) (candidate_key i) = []"
        using eff l(4-6) [of i] by auto
    qed
  qed (use ev_list.prems in simp)
next
  case (ev_rebuild st n st' U)
  then show ?case using rebuild_candidate_index_listed by simp
next
  case (ev_expire st' st i U)
  show ?case
    by (rule listedI) (use ev_expire listedD [OF ev_expire.prems] in \<open>auto split: if_splits\<close>)
next
  case (ev_other st' st U)
  then show ?case by (simp add: listed_def)
qed

end

end
