(* ===== verification/Evidence_Properties.thy ===== *)
theory Evidence_Properties
  imports Evidence_Facts Vault_Demo
begin


section \<open>Witness data\<close>

definition demo_candidate :: "candidate_state \<Rightarrow> candidate_record" where
  "demo_candidate s =
     \<lparr> cand_id = CandidateId ''cand_a'', cand_profile = JNull, sample_count = 1, first_seen_ms = 0,
       last_seen_ms = 0, cand_state = s, cand_source = None \<rparr>"

definition demo_candidate_codec :: "candidate_record codec" where
  "demo_candidate_codec = \<lparr> enc = (\<lambda>r. state_str (cand_state r)),
     dec = (\<lambda>s. map_option demo_candidate (parse_state s)) \<rparr>"

definition demo_stub_codec :: "audit_stub codec" where
  "demo_stub_codec = \<lparr> enc = stub_generalized_fp, dec = (\<lambda>_. None) \<rparr>"

abbreviation demo_upsert :: "candidate_state \<Rightarrow> mem \<Rightarrow> mem" where
  "demo_upsert s \<equiv> upsert_candidate mem_redis demo_candidate_codec demo_stub_codec 60 (demo_candidate s)"

section \<open>The listing by state\<close>



text \<open>C16: \<open>set_state\<close> moves a candidate that exists and is not rejected into exactly the listing
  of its new state; it refuses a missing candidate and a rejected one, changing nothing. When a round
  trip fails it reports that: then a missing or rejected candidate is untouched as well, and the state
  of any other is the old or the new one, without a change to the listings of other candidates.\<close>

theorem set_state_moves:
  assumes "redis_service R view" "set_state R i s st = (res, st')"
    and "unreachable \<longleftrightarrow> (\<exists>m. res = Inl (RegistryUnavailable m) \<and> link_fails R m)"
  shows "if \<not> key_exists (view st) (candidate_key i) then (res = Inl NotFound \<or> unreachable) \<and> st' = st
    else if hashes (view st) (candidate_key i) ''state'' = Some ''rejected''
    then (res = Inl (Conflict ''candidate is in the terminal Rejected state and cannot transition: TERMINAL_STATE'') \<or>
        unreachable) \<and> st' = st
    else (if res = Inr () then hashes (view st') (candidate_key i) ''state'' = Some (state_str s) \<and>
        (\<forall>t. candidate_str i \<in> sets (view st') (candidate_state_index_key t) \<longleftrightarrow> t = s)
      else unreachable \<and> (st' = st \<or> hashes (view st') (candidate_key i) ''state'' = Some (state_str s))) \<and>
      (\<forall>j t. j \<noteq> i \<longrightarrow> (candidate_str j \<in> sets (view st') (candidate_state_index_key t) \<longleftrightarrow>
         candidate_str j \<in> sets (view st) (candidate_state_index_key t)))"
proof (cases rule: redis_service.set_state_cases [OF assms(1,2)])
  case (1 e)
  have ex: "key_exists (view st) (candidate_key i)" if "hashes (view st) (candidate_key i) ''state'' = Some ''rejected''"
    using that unfolding key_exists_def by blast
  from 1(3) show ?thesis
  proof (elim disjE)
    assume "e = NotFound \<and> \<not> key_exists (view st) (candidate_key i)"
    then show ?thesis using 1(1,2) by simp
  next
    assume "e = map_set_state_error TerminalState \<and> hashes (view st) (candidate_key i) ''state'' = Some ''rejected''"
    then show ?thesis using 1(1,2) ex by simp
  next
    assume "\<exists>m. e = RegistryUnavailable m \<and> link_fails R m \<and> r_link R ''candidate_state'' st \<noteq> Answers"
    then show ?thesis using 1(1,2) assms(3) by auto
  qed
next
  case 2
  have same: "candidate_str j \<in> sets (view st') (candidate_state_index_key t) \<longleftrightarrow>
      candidate_str j \<in> sets (view st) (candidate_state_index_key t)" if "j \<noteq> i" for j t
    using 2(7) that by auto
  have "(if res = Inr () then \<forall>t. candidate_str i \<in> sets (view st') (candidate_state_index_key t) \<longleftrightarrow> t = s else unreachable)"
    using 2(7) assms(3) by auto
  then show ?thesis using 2(1,2) same by (simp add: 2(3) split: if_splits)
qed

theorem set_state_moves_witness:
  "let st = demo_upsert ProvisionalState mem_empty; r = set_state mem_redis (CandidateId ''cand_a'') StagedState st
   in fst r = Inr () \<and>
     candidate_str (CandidateId ''cand_a'') \<in> sets (mem_view (snd r)) (candidate_state_index_key StagedState) \<and>
     candidate_str (CandidateId ''cand_a'') \<notin> sets (mem_view (snd r)) (candidate_state_index_key ProvisionalState)"
proof -
  define st where "st = demo_upsert ProvisionalState mem_empty"
  have h: "hashes (mem_view st) (candidate_key (CandidateId ''cand_a'')) ''state'' = Some ''provisional''"
    unfolding st_def by (simp only: memory.upsert_effect [OF refl]) (simp add: demo_candidate_def)
  then have "key_exists (mem_view st) (candidate_key (CandidateId ''cand_a''))"
    unfolding key_exists_def by blast
  with h set_state_moves [OF memory.redis_service_axioms surjective_pairing
        [of "set_state mem_redis (CandidateId ''cand_a'') StagedState st"] refl]
  show ?thesis by (auto simp: Let_def st_def [symmetric] mem_answers split: if_splits)
qed

section \<open>Storing a candidate\<close>

text \<open>A candidate that was stored is read back as it was, it expires after the time to live,
  it is listed under its state, and the audit stub of an earlier sighting is not
  overwritten.\<close>

theorem upsert_read_back:
  assumes "redis_service R view" "dec C (enc C rec) = Some rec"
    and "st' = upsert_candidate R C A secs rec st"
  shows "get_candidate R C (cand_id rec) st' = Inr (Some rec) \<and>
    ttl (view st') (candidate_key (cand_id rec)) = Some secs \<and>
    candidate_str (cand_id rec) \<in> sets (view st') (candidate_state_index_key (cand_state rec)) \<and>
    (strs (view st) (candidate_audit_key (cand_id rec)) = Some x \<longrightarrow>
       strs (view st') (candidate_audit_key (cand_id rec)) = Some x)"
  using assms(2) redis_service.upsert_effect [OF assms(1,3)] redis_service.hget [OF assms(1)]
  by (simp add: get_candidate_def candidate_from_hash_def)

theorem upsert_read_back_witness:
  "get_candidate mem_redis demo_candidate_codec (cand_id (demo_candidate StagedState)) (demo_upsert StagedState mem_empty)
     = Inr (Some (demo_candidate StagedState)) \<and>
   ttl (mem_view (demo_upsert StagedState mem_empty)) (candidate_key (cand_id (demo_candidate StagedState))) = Some 60"
proof -
  have "dec demo_candidate_codec (enc demo_candidate_codec (demo_candidate StagedState)) = Some (demo_candidate StagedState)"
    by (simp add: demo_candidate_codec_def demo_candidate_def parse_state_def)
  from upsert_read_back [OF memory.redis_service_axioms this refl] show ?thesis by blast
qed

text \<open>Storing a candidate does not respect the terminal state: an \<open>upsert\<close> of a rejected
  candidate brings it back in the state of the record, and it is then in two listings.\<close>

theorem upsert_resurrects:
  assumes "redis_service R view" "listed {} (view st)" "always_answers R" "dec C (enc C rec) = Some rec"
    and "hashes (view st) (candidate_key (cand_id rec)) ''state'' = Some ''rejected''"
    and "cand_state rec = ProvisionalState"
  shows "let st' = upsert_candidate R C A secs rec st in
    get_candidate R C (cand_id rec) st' = Inr (Some rec) \<and>
    fst (set_state R (cand_id rec) StagedState st') = Inr () \<and>
    candidate_str (cand_id rec) \<in> sets (view st') (candidate_state_index_key RejectedState) \<and>
    candidate_str (cand_id rec) \<in> sets (view st') (candidate_state_index_key ProvisionalState)"
proof -
  define st' where "st' = upsert_candidate R C A secs rec st"
  note eff = redis_service.upsert_effect [OF assms(1) st'_def]
  have "candidate_str (cand_id rec) \<in> sets (view st) (candidate_state_index_key RejectedState)"
    using listedD(1) [OF assms(2), of "cand_id rec" RejectedState] assms(5) by simp
  then have sets: "candidate_str (cand_id rec) \<in> sets (view st') (candidate_state_index_key RejectedState)"
    "candidate_str (cand_id rec) \<in> sets (view st') (candidate_state_index_key ProvisionalState)"
    using assms(6) by (simp_all add: eff)
  have h: "hashes (view st') (candidate_key (cand_id rec)) ''state'' = Some ''provisional''"
    using assms(6) by (simp add: eff)
  then have "key_exists (view st') (candidate_key (cand_id rec))" unfolding key_exists_def by blast
  with h have "fst (set_state R (cand_id rec) StagedState st') = Inr ()"
    by (cases rule: redis_service.set_state_cases [OF assms(1) surjective_pairing, of "cand_id rec" StagedState st'])
      (use assms(3) in auto)
  moreover have "get_candidate R C (cand_id rec) st' = Inr (Some rec)"
    using assms(4) by (simp add: eff get_candidate_def candidate_from_hash_def redis_service.hget [OF assms(1)])
  ultimately show ?thesis using sets by (simp add: Let_def st'_def [symmetric])
qed

theorem upsert_resurrects_witness:
  "let st = demo_upsert RejectedState mem_empty; st' = demo_upsert ProvisionalState st; i = CandidateId ''cand_a'' in
    get_candidate mem_redis demo_candidate_codec i st' = Inr (Some (demo_candidate ProvisionalState)) \<and>
    fst (set_state mem_redis i StagedState st') = Inr () \<and>
    candidate_str i \<in> sets (mem_view st') (candidate_state_index_key RejectedState) \<and>
    candidate_str i \<in> sets (mem_view st') (candidate_state_index_key ProvisionalState)"
proof -
  let ?r = "demo_candidate ProvisionalState"
  have id: "cand_id (demo_candidate s) = CandidateId ''cand_a''" "cand_state (demo_candidate s) = s" for s
    by (simp_all add: demo_candidate_def)
  have "listed {} (mem_view mem_empty)"
    by (simp add: listed_def mem_empty_def lookup_list_def)
  from memory.upsert_listed [OF this] have l: "listed {} (mem_view (demo_upsert RejectedState mem_empty))"
    by (rule listed_mono) simp
  have c: "dec demo_candidate_codec (enc demo_candidate_codec ?r) = Some ?r"
    by (simp add: demo_candidate_codec_def demo_candidate_def parse_state_def)
  have s: "hashes (mem_view (demo_upsert RejectedState mem_empty)) (candidate_key (cand_id ?r)) ''state'' = Some ''rejected''"
    by (simp only: memory.upsert_effect [OF refl]) (simp add: id)
  show ?thesis
    using upsert_resurrects [OF memory.redis_service_axioms l mem_answers c s id(2), of demo_stub_codec 60]
    by (simp add: id Let_def)
qed

section \<open>Isolation\<close>

context redis_service
begin

lemma evidence_operations_same_vault:
  "same_vault (view st) (view (upsert_candidate R C A secs rec st))"
  "same_vault (view st) (view (snd (set_state R i s st)))"
  "same_vault (view st) (view (snd (list_candidates R C s page st)))"
  "same_vault (view st) (view (append_evidence R J i stats st))"
  "same_vault (view st) (view (set_cluster R secs g i st))"
  "same_vault (view st) (view (add_variant R secs i b fp st))"
  "same_vault (view st) (view (snd (rebuild_candidate_index R st)))"
proof -
  show "same_vault (view st) (view (upsert_candidate R C A secs rec st))" by (rule upsert_same_vault)
  show "same_vault (view st) (view (snd (set_state R i s st)))"
    by (rule set_state_same_vault, rule surjective_pairing)
  show "same_vault (view st) (view (snd (list_candidates R C s page st)))"
    by (cases rule: list_candidates_cases [OF surjective_pairing, of C s page st])
      (auto simp: same_vault_refl dest: list_page_same_vault)
  show "same_vault (view st) (view (append_evidence R J i stats st))"
    by (simp add: append_evidence_def same_vault_writes evidence_not_vault)
  show "same_vault (view st) (view (set_cluster R secs g i st))"
    "same_vault (view st) (view (add_variant R secs i b fp st))"
    by (auto simp: set_cluster_def add_variant_def
        intro!: same_vault_trans [OF same_vault_writes(5) same_vault_writes(7)]
          same_vault_trans [OF same_vault_writes(3) same_vault_writes(7)] evidence_not_vault)
  have keys: "same_vault (view st) (view (snd (rebuild_candidate_keys R ks n st)))" for ks n st
  proof (induction ks arbitrary: n st)
    case (Cons k ks)
    show ?case
    proof (cases "r_hget R k ''state'' st")
      case (Some x)
      have "same_vault (view st) (view (r_sadd R (''deblob:candidates:'' @ x) (id_of_candidate_key k) st))"
        by (rule same_vault_writes(3) [OF evidence_not_vault(6)])
      then show ?thesis using Cons.IH same_vault_trans Some by (simp del: append.simps)
    qed (use Cons in simp)
  qed (simp add: same_vault_refl)
  have "same_vault (view st) (view (foldl (\<lambda>st s. r_del R (candidate_state_index_key s) st) st ss))" for ss
    by (rule same_vault_foldl) (rule same_vault_writes(6) [OF index_not_vault])
  then show "same_vault (view st) (view (snd (rebuild_candidate_index R st)))"
    using keys same_vault_trans unfolding rebuild_candidate_index_def Let_def by blast
qed

end

text \<open>No operation of the evidence store can damage the permanent vault: each preserves its
  invariant and everything published in it.\<close>

theorem evidence_preserves_vault:
  assumes "redis_service R view" "vault_ok D (view st)"
    and "st' \<in> {upsert_candidate R C A secs rec st, snd (set_state R i s st),
      snd (list_candidates R C s page st), append_evidence R J i stats st, set_cluster R secs g i st,
      add_variant R secs i b fp st, snd (rebuild_candidate_index R st)}"
  shows "vault_ok D (view st') \<and> vault_keeps (view st) (view st')"
proof -
  have "same_vault (view st) (view st')"
    using assms(3) redis_service.evidence_operations_same_vault [OF assms(1), of st] by blast
  then show ?thesis using assms(2) vault_ok_same vault_keeps_same by blast
qed

theorem evidence_preserves_vault_witness:
  "vault_ok demo (mem_view (demo_upsert StagedState demo_vault)) \<and>
   vault_keeps (mem_view demo_vault) (mem_view (demo_upsert StagedState demo_vault))"
  by (rule evidence_preserves_vault [OF memory.redis_service_axioms demo_vault_ok]) blast

end
