(* ===== verification/Kafka_Service.thy ===== *)
theory Kafka_Service
  imports Ids
begin

text \<open>
  The reserved headers of a relayed record (\<open>deblob-kafka/src/headers.rs\<close>). Kafka headers are
  an ordered list of a key with an optional value, in which a key may occur twice;
  \<open>OwnedHeaders::insert\<close> appends. A producer may send headers under the names the relay
  reserves, so they are stripped before the relay's own are added.
\<close>

section \<open>Headers\<close>

type_synonym header = "bytes \<times> bytes option"
type_synonym headers = "header list"

definition header_insert :: "header \<Rightarrow> headers \<Rightarrow> headers" where
  "header_insert h hs = hs @ [h]"

definition reserved_prefix :: bytes where
  "reserved_prefix = ''deblob-''"

definition schema_id_header :: bytes where
  "schema_id_header = ''deblob-schema-id''"

definition origin_header :: bytes where
  "origin_header = ''deblob-origin''"

definition quarantine_reason_header :: bytes where
  "quarantine_reason_header = ''deblob-quarantine-reason''"

definition is_reserved :: "bytes \<Rightarrow> bool" where
  "is_reserved key \<longleftrightarrow>
     length reserved_prefix \<le> length key \<and>
     eq_ignore_ascii_case (take (length reserved_prefix) key) reserved_prefix"

fun strip_loop :: "headers \<Rightarrow> headers \<Rightarrow> headers" where
  "strip_loop [] out = out"
| "strip_loop ((k, v) # hs) out =
     (if is_reserved k then strip_loop hs out else strip_loop hs (header_insert (k, v) out))"

definition strip_reserved :: "headers option \<Rightarrow> headers" where
  "strip_reserved hs = (case hs of Some l \<Rightarrow> strip_loop l [] | None \<Rightarrow> [])"

definition origin_value :: "source_cursor \<Rightarrow> bytes" where
  "origin_value c = topic c @ ''/'' @ int_dec (partition c) @ ''/'' @ int_dec (offset c)"

fun quarantine_reason_value :: "quarantine_reason \<Rightarrow> bytes" where
  "quarantine_reason_value DuplicateKey = ''duplicate_key''"
| "quarantine_reason_value NonFiniteNumber = ''non_finite_number''"
| "quarantine_reason_value DepthExceeded = ''depth_exceeded''"
| "quarantine_reason_value SizeExceeded = ''size_exceeded''"
| "quarantine_reason_value FieldCountExceeded = ''field_count_exceeded''"
| "quarantine_reason_value KeyLengthExceeded = ''key_length_exceeded''"
| "quarantine_reason_value ParseError = ''parse_error''"
| "quarantine_reason_value Utf8Error = ''utf8_error''"

definition with_tag :: "headers \<Rightarrow> schema_ref \<Rightarrow> source_cursor \<Rightarrow> headers" where
  "with_tag hs r c =
     (let schema_id_value = header_value r;
          origin = origin_value c
      in header_insert (origin_header, Some origin)
           (header_insert (schema_id_header, Some schema_id_value) hs))"

definition with_quarantine_reason :: "headers \<Rightarrow> quarantine_reason \<Rightarrow> headers" where
  "with_quarantine_reason hs r =
     header_insert (quarantine_reason_header, Some (quarantine_reason_value r)) hs"

section \<open>Facts\<close>

text \<open>The headers of a list under the reserved names, and the others.\<close>

definition reserved_of :: "headers \<Rightarrow> headers" where
  "reserved_of hs = filter (\<lambda>h. is_reserved (fst h)) hs"

definition unreserved_of :: "headers \<Rightarrow> headers" where
  "unreserved_of hs = filter (\<lambda>h. \<not> is_reserved (fst h)) hs"

lemma strip_loop_eq: "strip_loop hs out = out @ unreserved_of hs"
  by (induction hs out rule: strip_loop.induct) (auto simp: unreserved_of_def header_insert_def)

lemma strip_reserved_eq [simp]:
  "strip_reserved None = []"
  "strip_reserved (Some hs) = unreserved_of hs"
  by (simp_all add: strip_reserved_def strip_loop_eq)

lemma reserved_of_simps [simp]:
  "reserved_of [] = []"
  "reserved_of (a @ b) = reserved_of a @ reserved_of b"
  "reserved_of (h # hs) = (if is_reserved (fst h) then h # reserved_of hs else reserved_of hs)"
  "unreserved_of [] = []"
  "unreserved_of (a @ b) = unreserved_of a @ unreserved_of b"
  "unreserved_of (h # hs) = (if is_reserved (fst h) then unreserved_of hs else h # unreserved_of hs)"
  by (simp_all add: reserved_of_def unreserved_of_def)

lemma reserved_unreserved [simp]:
  "reserved_of (unreserved_of hs) = []" "unreserved_of (unreserved_of hs) = unreserved_of hs"
  by (simp_all add: reserved_of_def unreserved_of_def)

lemma is_reserved_prefix:
  "is_reserved key \<longleftrightarrow> (\<exists>p r. key = p @ r \<and> eq_ignore_ascii_case p reserved_prefix)"
proof
  assume "is_reserved key"
  then show "\<exists>p r. key = p @ r \<and> eq_ignore_ascii_case p reserved_prefix"
    unfolding is_reserved_def by (metis append_take_drop_id)
next
  assume "\<exists>p r. key = p @ r \<and> eq_ignore_ascii_case p reserved_prefix"
  then obtain p r where k: "key = p @ r" and e: "eq_ignore_ascii_case p reserved_prefix" by blast
  from e have "length p = length reserved_prefix"
    unfolding eq_ignore_ascii_case_def by (metis length_to_ascii_lowercase)
  with k e show "is_reserved key" by (simp add: is_reserved_def)
qed

lemma relay_headers_reserved [simp]:
  "is_reserved schema_id_header" "is_reserved origin_header" "is_reserved quarantine_reason_header"
  unfolding is_reserved_def schema_id_header_def origin_header_def quarantine_reason_header_def
    reserved_prefix_def eq_ignore_ascii_case_def by simp_all

lemma with_tag_eq:
  "with_tag hs r c = hs @ [(schema_id_header, Some (header_value r)), (origin_header, Some (origin_value c))]"
  by (simp add: with_tag_def header_insert_def)

lemma with_quarantine_reason_eq:
  "with_quarantine_reason hs r = hs @ [(quarantine_reason_header, Some (quarantine_reason_value r))]"
  by (simp add: with_quarantine_reason_def header_insert_def)

text \<open>
  What the relay writes under the reserved names, and what it forwards: whatever the producer
  sent, the reserved headers of the output are the relay's.
\<close>

definition reserved_for :: "schema_ref \<Rightarrow> quarantine_reason option \<Rightarrow> source_cursor \<Rightarrow> headers" where
  "reserved_for r q c =
     [(schema_id_header, Some (header_value r)), (origin_header, Some (origin_value c))] @
     (case q of None \<Rightarrow> [] | Some x \<Rightarrow> [(quarantine_reason_header, Some (quarantine_reason_value x))])"

lemma reserved_tagged:
  "reserved_of (with_tag (strip_reserved hs) r c) = reserved_for r None c"
  by (cases hs) (simp_all add: with_tag_eq reserved_for_def)

lemma reserved_quarantined:
  "reserved_of (with_quarantine_reason (with_tag (strip_reserved hs) r c) q) =
     reserved_for r (Some q) c"
  by (cases hs) (simp_all add: with_tag_eq with_quarantine_reason_eq reserved_for_def)

lemma unreserved_tagged:
  "unreserved_of (with_tag hs r c) = unreserved_of hs"
  "unreserved_of (with_quarantine_reason hs q) = unreserved_of hs"
  by (simp_all add: with_tag_eq with_quarantine_reason_eq)

lemma quarantine_reason_value_inj [simp]:
  "quarantine_reason_value a = quarantine_reason_value b \<longleftrightarrow> a = b"
  by (cases a; cases b; simp)

text \<open>The two numbers of an origin have no slash, so the origin determines the cursor.\<close>

lemma append_slash_cancel:
  assumes "CHR ''/'' \<notin> set b" and "CHR ''/'' \<notin> set d"
    and "a @ CHR ''/'' # b = c @ CHR ''/'' # d"
  shows "a = c \<and> b = d"
proof -
  have "rev b @ CHR ''/'' # rev a = rev d @ CHR ''/'' # rev c"
    using arg_cong [OF assms(3), of rev] by simp
  then have "split_once CHR ''/'' (rev b @ CHR ''/'' # rev a) =
      split_once CHR ''/'' (rev d @ CHR ''/'' # rev c)" by (rule arg_cong)
  then show ?thesis using assms(1,2) by simp
qed

lemma origin_value_inj: "origin_value c = origin_value d \<Longrightarrow> c = d"
proof -
  assume eq: "origin_value c = origin_value d"
  have "(topic c @ CHR ''/'' # int_dec (partition c)) @ CHR ''/'' # int_dec (offset c) =
      (topic d @ CHR ''/'' # int_dec (partition d)) @ CHR ''/'' # int_dec (offset d)"
    using eq by (simp add: origin_value_def)
  note 1 = append_slash_cancel [OF int_dec_no_slash int_dec_no_slash this]
  note 2 = append_slash_cancel [OF int_dec_no_slash int_dec_no_slash conjunct1 [OF 1]]
  show "c = d" using 1 2 by simp
qed

text \<open>
  The transactional producer and the consumer group of the Kafka client, as the relay uses
  them. They are a service: the record \<open>kafka\<close> has the calls of \<open>rdkafka\<close> over an abstract
  state, with their result as a flag, and the locale \<open>kafka_service\<close> states what the
  documentation of transactions promises. The view of the state is what a \<open>read_committed\<close>
  consumer can see (the committed records and the group's offsets) and the open transaction.
  \<open>mem_kafka\<close> is an implementation whose calls fail as a given plan says.
\<close>

section \<open>Calls\<close>

record out_record =
  o_topic :: bytes
  o_partition :: "int option"
  o_key :: "bytes option"
  o_payload :: "bytes option"
  o_headers :: headers

type_synonym offsets = "(bytes \<times> int) \<Rightarrow> int option"

record broker_view =
  committed :: "out_record list"
  group_offsets :: offsets
  txn :: "(out_record list \<times> offsets) option"

text \<open>\<open>k_send\<close> gives the token of the delivery that \<open>k_await\<close> later reports on.\<close>

record 'b kafka =
  k_begin :: "'b \<Rightarrow> bool \<times> 'b"
  k_send :: "out_record \<Rightarrow> 'b \<Rightarrow> nat option \<times> 'b"
  k_await :: "nat \<Rightarrow> 'b \<Rightarrow> bool \<times> 'b"
  k_group_metadata :: "'b \<Rightarrow> bool"
  k_send_offsets :: "((bytes \<times> int) \<times> int) list \<Rightarrow> 'b \<Rightarrow> bool \<times> 'b"
  k_commit :: "'b \<Rightarrow> bool \<times> 'b"
  k_abort :: "'b \<Rightarrow> bool \<times> 'b"

definition durable :: "broker_view \<Rightarrow> out_record list \<times> offsets" where
  "durable v = (committed v, group_offsets v)"

definition applied :: "broker_view \<Rightarrow> broker_view" where
  "applied v = (case txn v of
      None \<Rightarrow> v
    | Some (rs, os) \<Rightarrow> \<lparr> committed = committed v @ rs, group_offsets = group_offsets v ++ os, txn = None \<rparr>)"

locale kafka_service =
  fixes K :: "'b kafka"
    and seen :: "'b \<Rightarrow> broker_view"
  assumes begin_ok: "k_begin K b = (True, b') \<Longrightarrow> seen b' = seen b\<lparr> txn := Some ([], Map.empty) \<rparr>"
    and begin_fails: "k_begin K b = (False, b') \<Longrightarrow> durable (seen b') = durable (seen b)"
    and send_ok: "k_send K r b = (Some d, b') \<Longrightarrow> txn (seen b) = Some (rs, os) \<Longrightarrow>
      seen b' = seen b\<lparr> txn := Some (rs @ [r], os) \<rparr>"
    and send_durable: "k_send K r b = (d', b') \<Longrightarrow> durable (seen b') = durable (seen b)"
    and await_ok: "k_await K d b = (True, b') \<Longrightarrow> seen b' = seen b"
    and await_durable: "k_await K d b = (ok, b') \<Longrightarrow> durable (seen b') = durable (seen b)"
    and offsets_ok: "k_send_offsets K l b = (True, b') \<Longrightarrow> txn (seen b) = Some (rs, os) \<Longrightarrow>
      seen b' = seen b\<lparr> txn := Some (rs, os ++ map_of l) \<rparr>"
    and offsets_durable: "k_send_offsets K l b = (ok, b') \<Longrightarrow> durable (seen b') = durable (seen b)"
    and commit_ok: "k_commit K b = (True, b') \<Longrightarrow> seen b' = applied (seen b)"
    and commit_fails: "k_commit K b = (False, b') \<Longrightarrow>
      durable (seen b') = durable (seen b) \<or> durable (seen b') = durable (applied (seen b))"
    and abort_ok: "k_abort K b = (True, b') \<Longrightarrow> seen b' = seen b\<lparr> txn := None \<rparr>"
    and abort_durable: "k_abort K b = (ok, b') \<Longrightarrow> durable (seen b') = durable (seen b)"

lemma durable_txn [simp]: "durable (v\<lparr> txn := t \<rparr>) = durable v"
  by (simp add: durable_def)

section \<open>An implementation in memory\<close>

text \<open>Each fallible call takes its outcome from the plan; an exhausted plan means success.\<close>

record mem_kafka_state =
  mk_view :: broker_view
  mk_plan :: "bool list"

definition next_ok :: "mem_kafka_state \<Rightarrow> bool \<times> mem_kafka_state" where
  "next_ok s = (case mk_plan s of [] \<Rightarrow> (True, s) | p # ps \<Rightarrow> (p, s\<lparr> mk_plan := ps \<rparr>))"

definition planned :: "(broker_view \<Rightarrow> broker_view) \<Rightarrow> mem_kafka_state \<Rightarrow> bool \<times> mem_kafka_state" where
  "planned f s = (let (ok, s1) = next_ok s in (ok, if ok then s1\<lparr> mk_view := f (mk_view s1) \<rparr> else s1))"

definition add_pending :: "out_record \<Rightarrow> broker_view \<Rightarrow> broker_view" where
  "add_pending r v = (case txn v of None \<Rightarrow> v | Some (rs, os) \<Rightarrow> v\<lparr> txn := Some (rs @ [r], os) \<rparr>)"

definition add_offsets :: "((bytes \<times> int) \<times> int) list \<Rightarrow> broker_view \<Rightarrow> broker_view" where
  "add_offsets l v = (case txn v of None \<Rightarrow> v | Some (rs, os) \<Rightarrow> v\<lparr> txn := Some (rs, os ++ map_of l) \<rparr>)"

definition mem_kafka :: "mem_kafka_state kafka" where
  "mem_kafka =
     \<lparr> k_begin = planned (\<lambda>v. v\<lparr> txn := Some ([], Map.empty) \<rparr>),
       k_send = (\<lambda>r s. let (ok, s1) = planned (add_pending r) s in (if ok then Some 0 else None, s1)),
       k_await = (\<lambda>_. planned id),
       k_group_metadata = (\<lambda>_. True),
       k_send_offsets = (\<lambda>l. planned (add_offsets l)),
       k_commit = planned applied,
       k_abort = planned (\<lambda>v. v\<lparr> txn := None \<rparr>) \<rparr>"

definition mem_kafka_empty :: "bool list \<Rightarrow> mem_kafka_state" where
  "mem_kafka_empty plan =
     \<lparr> mk_view = \<lparr> committed = [], group_offsets = Map.empty, txn = None \<rparr>, mk_plan = plan \<rparr>"

lemma planned_view:
  "planned f s = (ok, s') \<Longrightarrow> mk_view s' = (if ok then f (mk_view s) else mk_view s)"
  by (auto simp: planned_def next_ok_def Let_def split: list.splits if_splits prod.splits)

lemma durable_adds [simp]:
  "durable (add_pending r v) = durable v" "durable (add_offsets l v) = durable v"
  by (auto simp: add_pending_def add_offsets_def split: option.split)

interpretation mem_kafka: kafka_service mem_kafka mk_view
  by unfold_locales
    (auto simp: mem_kafka_def Let_def add_pending_def add_offsets_def dest!: planned_view
      split: prod.splits if_splits option.split)

end
