(* ===== verification/Settle.thy ===== *)
theory Settle
  imports Ids
begin

text \<open>
  Settle-and-sample (\<open>SettleState\<close> in \<open>deblob-kafka/src/relay.rs\<close>): once a source has been
  classified the same \<open>settle_after\<close> times in a row, its records are tagged without
  classification, save one in \<open>sample_rate\<close>, which is classified to notice drift. The counters
  are \<open>u32\<close>; additions wrap except where the code saturates.
\<close>

record settle_cfg =
  enabled :: bool
  settle_after :: u32
  sample_rate :: u32
  settle_sources :: "bytes list"

definition default_settle_cfg :: settle_cfg where
  "default_settle_cfg =
     \<lparr> enabled = False, settle_after = 1000, sample_rate = 1000, settle_sources = [] \<rparr>"

record source_settle =
  known :: "schema_id option"
  consecutive :: u32
  settled :: bool
  since_sample :: u32

definition source_settle_default :: source_settle where
  "source_settle_default = \<lparr> known = None, consecutive = 0, settled = False, since_sample = 0 \<rparr>"

datatype settle_decision =
    FastPath schema_id
  | Classify (drift_check: bool)

record settle_state =
  st_cfg :: settle_cfg
  allow :: "bytes set"
  per_source :: "bytes \<Rightarrow> source_settle option"

definition settle_new :: "settle_cfg \<Rightarrow> settle_state" where
  "settle_new cfg = \<lparr> st_cfg = cfg, allow = set (settle_sources cfg), per_source = Map.empty \<rparr>"

definition settle_active :: "settle_state \<Rightarrow> bytes \<Rightarrow> bool" where
  "settle_active S source \<longleftrightarrow>
     enabled (st_cfg S) \<and> 1 < sample_rate (st_cfg S) \<and> source \<in> allow S"

definition entry_or_default :: "settle_state \<Rightarrow> bytes \<Rightarrow> source_settle" where
  "entry_or_default S source =
     (case per_source S source of Some s \<Rightarrow> s | None \<Rightarrow> source_settle_default)"

definition put_source :: "bytes \<Rightarrow> source_settle \<Rightarrow> settle_state \<Rightarrow> settle_state" where
  "put_source source s S = S\<lparr> per_source := (per_source S)(source \<mapsto> s) \<rparr>"

definition saturating_inc :: "u32 \<Rightarrow> u32" where
  "saturating_inc x = (if x = - 1 then x else x + 1)"

definition settle_before :: "settle_state \<Rightarrow> bytes \<Rightarrow> settle_decision \<times> settle_state" where
  "settle_before S source =
     (if \<not> settle_active S source then (Classify False, S)
      else
        (let s = entry_or_default S source in
         if settled s then
           (let s1 = s\<lparr> since_sample := since_sample s + 1 \<rparr> in
            if sample_rate (st_cfg S) \<le> since_sample s1
            then (Classify True, put_source source (s1\<lparr> since_sample := 0 \<rparr>) S)
            else (case known s1 of
                Some i \<Rightarrow> (FastPath i, put_source source s1 S)
              | None \<Rightarrow> (Classify False, put_source source s1 S)))
         else (Classify False, put_source source s S)))"

definition settle_note :: "settle_cfg \<Rightarrow> schema_id option \<Rightarrow> bool \<Rightarrow> source_settle \<Rightarrow> source_settle" where
  "settle_note cfg k drift s =
     (case k of
        Some i \<Rightarrow>
          if known s = Some i then
            if drift then s\<lparr> consecutive := saturating_inc (consecutive s) \<rparr>
            else (let s1 = s\<lparr> consecutive := consecutive s + 1 \<rparr> in
                  if settle_after cfg \<le> consecutive s1 then s1\<lparr> settled := True \<rparr> else s1)
          else \<lparr> known = Some i, consecutive = 1, settled = False, since_sample = 0 \<rparr>
      | None \<Rightarrow> \<lparr> known = None, consecutive = 0, settled = False, since_sample = 0 \<rparr>)"

definition settle_after_record ::
  "settle_state \<Rightarrow> bytes \<Rightarrow> schema_id option \<Rightarrow> bool \<Rightarrow> settle_state" where
  "settle_after_record S source k drift =
     (if \<not> settle_active S source then S
      else put_source source (settle_note (st_cfg S) k drift (entry_or_default S source)) S)"

section \<open>A stream of records\<close>

text \<open>
  What happens to one record of a source: it takes the fast path, or it is classified with the
  given verdict (the schema it resolved to, if any) and the verdict is fed back.
\<close>

datatype settle_event = TookFast schema_id | Verdict "schema_id option"

definition settle_step ::
  "settle_state \<Rightarrow> bytes \<Rightarrow> schema_id option \<Rightarrow> settle_event \<times> settle_state" where
  "settle_step S source k =
     (case settle_before S source of
        (FastPath i, S1) \<Rightarrow> (TookFast i, S1)
      | (Classify d, S1) \<Rightarrow> (Verdict k, settle_after_record S1 source k d))"

fun settle_run ::
  "settle_state \<Rightarrow> (bytes \<times> schema_id option) list \<Rightarrow> (bytes \<times> settle_event) list \<times> settle_state" where
  "settle_run S [] = ([], S)"
| "settle_run S ((source, k) # rs) =
     (let (e, S1) = settle_step S source k;
          (es, S2) = settle_run S1 rs
      in ((source, e) # es, S2))"

text \<open>The events of one source, and the verdicts among them, in the order given.\<close>

fun events_of :: "bytes \<Rightarrow> (bytes \<times> settle_event) list \<Rightarrow> settle_event list" where
  "events_of source [] = []"
| "events_of source ((s, e) # es) = (if s = source then e # events_of source es else events_of source es)"

fun verdicts :: "settle_event list \<Rightarrow> schema_id option list" where
  "verdicts [] = []"
| "verdicts (Verdict k # es) = k # verdicts es"
| "verdicts (TookFast _ # es) = verdicts es"

fun took_fast :: "settle_event \<Rightarrow> bool" where
  "took_fast (TookFast _) = True"
| "took_fast (Verdict _) = False"

text \<open>
  \<open>fast_ok cfg\<close>: in a history with the latest event first, every fast-path event is for the
  schema that the latest \<open>settle_after\<close> verdicts (at least two) agree on, and fewer than
  \<open>sample_rate\<close> events follow the latest verdict.
\<close>

definition agreed :: "nat \<Rightarrow> schema_id \<Rightarrow> settle_event list \<Rightarrow> bool" where
  "agreed n i es \<longleftrightarrow> n \<le> length (verdicts es) \<and> take n (verdicts es) = replicate n (Some i)"

fun fast_ok :: "settle_cfg \<Rightarrow> settle_event list \<Rightarrow> bool" where
  "fast_ok cfg [] = True"
| "fast_ok cfg (Verdict _ # es) = fast_ok cfg es"
| "fast_ok cfg (TookFast i # es) =
     (agreed (max 2 (unat (settle_after cfg))) i es \<and>
      Suc (length (takeWhile took_fast es)) < unat (sample_rate cfg) \<and> fast_ok cfg es)"

text \<open>The state of a source against its history.\<close>

definition source_ok :: "settle_cfg \<Rightarrow> source_settle \<Rightarrow> settle_event list \<Rightarrow> bool" where
  "source_ok cfg s es \<longleftrightarrow>
     unat (since_sample s) = length (takeWhile took_fast es) \<and>
     unat (since_sample s) < unat (sample_rate cfg) \<and>
     (case known s of
        Some i \<Rightarrow> 1 \<le> unat (consecutive s) \<and> agreed (unat (consecutive s)) i es
      | None \<Rightarrow> consecutive s = 0 \<and> \<not> settled s) \<and>
     (if settled s then max 2 (unat (settle_after cfg)) \<le> unat (consecutive s)
      else (unat (consecutive s) < unat (settle_after cfg) \<or> unat (consecutive s) \<le> 1) \<and>
        since_sample s = 0)"

text \<open>
  Settle-and-sample keeps every source's counters in step with the verdicts it has seen, so the
  fast path repeats an established verdict and the sampling is never suspended.
\<close>

section \<open>Counters\<close>

lemma unat_inc: "unat x < unat y \<Longrightarrow> unat (x + 1) = Suc (unat x)" for x y :: "'a::len word"
proof -
  assume "unat x < unat y"
  then have "x < y" by (simp add: word_less_nat_alt)
  then have "x + 1 \<noteq> 0" using word_n1_ge [of y] by (metis add.commute add_eq_0_iff2 leD)
  then show ?thesis by (metis add.commute unatSuc)
qed

lemma unat_inc_one: "unat x \<le> 1 \<Longrightarrow> unat (x + 1) = Suc (unat x)" for x :: u32
  by (rule unat_inc [of x "2"]) simp

lemma unat_saturating_inc: "unat x \<le> unat (saturating_inc x) \<and> unat (saturating_inc x) \<le> Suc (unat x)"
proof (cases "x = - 1")
  case False
  then have "1 + x \<noteq> 0" by (metis add.commute add_eq_0_iff2)
  from unatSuc [OF this] False show ?thesis by (simp add: saturating_inc_def add.commute)
qed (simp add: saturating_inc_def)

lemma agreed_mono: "agreed n i es \<Longrightarrow> m \<le> n \<Longrightarrow> agreed m i es"
  unfolding agreed_def by (metis take_replicate min_def take_take le_trans)

lemma agreed_simps [simp]:
  "agreed 0 i es"
  "agreed n i (TookFast j # es) \<longleftrightarrow> agreed n i es"
  "agreed (Suc n) i (Verdict k # es) \<longleftrightarrow> k = Some i \<and> agreed n i es"
  by (auto simp: agreed_def)

section \<open>One source\<close>

text \<open>\<open>settle_step\<close> on the entry of the record's source.\<close>

definition source_step ::
  "settle_cfg \<Rightarrow> source_settle \<Rightarrow> schema_id option \<Rightarrow> settle_event \<times> source_settle" where
  "source_step cfg s k =
     (if settled s then
        (if sample_rate cfg \<le> since_sample s + 1
         then (Verdict k, settle_note cfg k True (s\<lparr> since_sample := 0 \<rparr>))
         else (case known s of
             Some i \<Rightarrow> (TookFast i, s\<lparr> since_sample := since_sample s + 1 \<rparr>)
           | None \<Rightarrow> (Verdict k, settle_note cfg k False (s\<lparr> since_sample := since_sample s + 1 \<rparr>))))
      else (Verdict k, settle_note cfg k False s))"

lemma entry_put [simp]:
  "entry_or_default (put_source a s S) b = (if a = b then s else entry_or_default S b)"
  "st_cfg (put_source a s S) = st_cfg S" "allow (put_source a s S) = allow S"
  "settle_active (put_source a s S) b = settle_active S b"
  "put_source a t (put_source a s S) = put_source a t S"
  by (simp_all add: entry_or_default_def put_source_def settle_active_def)

lemma settle_step_active:
  "settle_active S source \<Longrightarrow>
     settle_step S source k =
       map_prod id (\<lambda>s. put_source source s S)
         (source_step (st_cfg S) (entry_or_default S source) k)"
  by (auto simp: settle_step_def settle_before_def settle_after_record_def source_step_def Let_def
      split: option.split)

lemma settle_step_inactive:
  "\<not> settle_active S source \<Longrightarrow> settle_step S source k = (Verdict k, S)"
  by (simp add: settle_step_def settle_before_def settle_after_record_def)

lemma source_ok_default: "1 < sample_rate cfg \<Longrightarrow> source_ok cfg source_settle_default []"
  by (auto simp: source_ok_def source_settle_default_def word_less_nat_alt)

lemma source_ok_sample_rate: "source_ok cfg s es \<Longrightarrow> 0 < unat (sample_rate cfg)"
  by (auto simp: source_ok_def)

lemma source_ok_restart:
  "0 < unat (sample_rate cfg) \<Longrightarrow>
     source_ok cfg \<lparr> known = Some i, consecutive = 1, settled = False, since_sample = 0 \<rparr>
       (Verdict (Some i) # es)"
  "0 < unat (sample_rate cfg) \<Longrightarrow>
     source_ok cfg \<lparr> known = None, consecutive = 0, settled = False, since_sample = 0 \<rparr>
       (Verdict k # es)"
  using agreed_simps(3) [of 0] by (auto simp: source_ok_def simp del: agreed_simps(3))

text \<open>A verdict fed back to an unsettled source, and to a settled one on a drift check.\<close>

lemma source_ok_unsettled:
  assumes ok: "source_ok cfg s es" and u: "\<not> settled s"
  shows "source_ok cfg (settle_note cfg k False s) (Verdict k # es)"
proof (cases "k \<noteq> None \<and> known s = k")
  case True
  then obtain i where k: "k = Some i" "known s = Some i" by auto
  have "unat (consecutive s + 1) = Suc (unat (consecutive s))"
    using ok u unat_inc unat_inc_one unfolding source_ok_def by auto
  then show ?thesis
    using ok u k
    by (auto simp: source_ok_def settle_note_def Let_def word_le_nat_alt)
next
  case False
  then show ?thesis
    using source_ok_restart [OF source_ok_sample_rate [OF ok]]
    by (auto simp: settle_note_def split: option.split)
qed

lemma source_ok_sampled:
  assumes ok: "source_ok cfg s es" and u: "settled s"
  shows "source_ok cfg (settle_note cfg k True (s\<lparr> since_sample := 0 \<rparr>)) (Verdict k # es)"
proof (cases "k \<noteq> None \<and> known s = k")
  case True
  then obtain i where k: "k = Some i" "known s = Some i" by auto
  have "agreed (Suc (unat (consecutive s))) i (Verdict k # es)"
    using ok k by (simp add: source_ok_def)
  then have "agreed (unat (saturating_inc (consecutive s))) i (Verdict k # es)"
    using agreed_mono unat_saturating_inc by blast
  then show ?thesis
    using ok u k source_ok_sample_rate [OF ok] unat_saturating_inc [of "consecutive s"]
    by (auto simp: source_ok_def settle_note_def)
next
  case False
  then show ?thesis
    using source_ok_restart [OF source_ok_sample_rate [OF ok]]
    by (auto simp: settle_note_def split: option.split)
qed

lemma source_step_ok:
  assumes ok: "source_ok cfg s es" and f: "fast_ok cfg es" and st: "source_step cfg s k = (e, s')"
  shows "source_ok cfg s' (e # es) \<and> fast_ok cfg (e # es)"
proof (cases "settled s")
  case False
  with st have "e = Verdict k" "s' = settle_note cfg k False s" by (auto simp: source_step_def)
  then show ?thesis using source_ok_unsettled [OF ok False] f by simp
next
  case True
  then obtain i where i: "known s = Some i" using ok by (auto simp: source_ok_def split: option.splits)
  have inc: "unat (since_sample s + 1) = Suc (unat (since_sample s))"
    using ok unat_inc [of "since_sample s" "sample_rate cfg"] by (simp add: source_ok_def)
  show ?thesis
  proof (cases "sample_rate cfg \<le> since_sample s + 1")
    case sample: True
    with st True have "e = Verdict k" "s' = settle_note cfg k True (s\<lparr> since_sample := 0 \<rparr>)"
      by (auto simp: source_step_def)
    then show ?thesis using source_ok_sampled [OF ok True] f by simp
  next
    case fast: False
    with st True i have e: "e = TookFast i" "s' = s\<lparr> since_sample := since_sample s + 1 \<rparr>"
      by (auto simp: source_step_def)
    have "agreed (max 2 (unat (settle_after cfg))) i es"
      using ok True i by (auto simp: source_ok_def intro: agreed_mono)
    then show ?thesis
      using ok True i e fast f inc by (auto simp: source_ok_def word_le_nat_alt)
  qed
qed

section \<open>All sources\<close>

text \<open>
  \<open>settle_inv S h\<close>: the entry of every active source agrees with its history \<open>h\<close> (latest event
  first), and the history of every source obeys \<open>fast_ok\<close>.
\<close>

definition settle_inv :: "settle_state \<Rightarrow> (bytes \<times> settle_event) list \<Rightarrow> bool" where
  "settle_inv S h \<longleftrightarrow>
     (\<forall>source. fast_ok (st_cfg S) (events_of source h) \<and>
        (settle_active S source \<longrightarrow>
           source_ok (st_cfg S) (entry_or_default S source) (events_of source h)))"

lemma settle_inv_new: "settle_inv (settle_new cfg) []"
  by (auto simp: settle_inv_def settle_active_def settle_new_def entry_or_default_def
      intro: source_ok_default)

lemma settle_inv_step:
  assumes inv: "settle_inv S h" and st: "settle_step S source k = (e, S')"
  shows "settle_inv S' ((source, e) # h) \<and> st_cfg S' = st_cfg S \<and> allow S' = allow S"
proof (cases "settle_active S source")
  case False
  then show ?thesis
    using inv st settle_step_inactive [OF False] by (auto simp: settle_inv_def)
next
  case True
  obtain s' where s': "source_step (st_cfg S) (entry_or_default S source) k = (e, s')"
    "S' = put_source source s' S"
    using st settle_step_active [OF True] by (cases "source_step (st_cfg S) (entry_or_default S source) k") auto
  have "source_ok (st_cfg S) s' (e # events_of source h) \<and>
      fast_ok (st_cfg S) (e # events_of source h)"
    using inv True s'(1) unfolding settle_inv_def by (intro source_step_ok) auto
  then show ?thesis
    using inv s'(2) by (auto simp: settle_inv_def)
qed

lemma settle_inv_run:
  "settle_inv S h \<Longrightarrow> settle_run S rs = (es, S') \<Longrightarrow> settle_inv S' (rev es @ h) \<and> st_cfg S' = st_cfg S"
proof (induction rs arbitrary: S h es)
  case (Cons r rs)
  obtain source k where r: "r = (source, k)" by (cases r)
  obtain e S1 where 1: "settle_step S source k = (e, S1)" by (cases "settle_step S source k")
  obtain es1 where 2: "settle_run S1 rs = (es1, S')" "es = (source, e) # es1"
    using Cons.prems(2) r 1 by (auto simp: Let_def split: prod.splits)
  show ?case
    using Cons.IH [OF _ 2(1)] settle_inv_step [OF Cons.prems(1) 1] 2(2) by fastforce
qed simp

lemma events_of_append [simp]: "events_of s (a @ b) = events_of s a @ events_of s b"
  by (induction s a rule: events_of.induct) auto

lemma events_of_rev [simp]: "events_of s (rev a) = rev (events_of s a)"
  by (induction s a rule: events_of.induct) auto

lemma fast_ok_append: "fast_ok cfg (a @ b) \<Longrightarrow> fast_ok cfg b"
  by (induction cfg a rule: fast_ok.induct) auto

end
