(* ===== verification/Relay.thy ===== *)
theory Relay
  imports Kafka_Service Settle Hot_Matcher
begin

text \<open>
  The transactional relay (\<open>deblob-kafka/src/relay.rs\<close>): it consumes raw topics, classifies each
  record, produces the tagged, quarantined and discovery records of a batch in one transaction
  and commits the consumer's offsets with it.

  The environment of a run is the record \<open>relay_env\<close>: the digests, the cache crate, the JSON
  encoder of a discovery message, the Kafka client, and what the registry and the clock answer;
  these two may change between records, so they take the number of records processed so far.
\<close>

section \<open>Configuration, records and state\<close>

datatype fault_point = AfterDiscoveryProduce | AfterProduceBeforeCommit

record relay_cfg =
  rc_brokers :: bytes
  rc_group_id :: bytes
  rc_raw_topic :: bytes
  rc_raw_topics :: "bytes list"
  rc_tagged_topic :: bytes
  rc_discovery_topic :: bytes
  rc_quarantine_topic :: bytes
  rc_transactional_id :: bytes
  rc_limits :: limits
  rc_max_batch_records :: nat
  rc_max_batch_linger_ms :: nat
  rc_max_batch_bytes :: nat
  rc_max_message_bytes :: nat
  rc_fault :: "fault_point option"
  rc_stream :: bool
  rc_settle :: settle_cfg

datatype relay_error = KafkaError | SerializeError | NoGroupMetadata

record pending_record =
  p_cursor :: source_cursor
  p_key :: "bytes option"
  p_payload :: "bytes option"
  p_headers :: headers

datatype process_outcome = Committed | Aborted | FaultInjected

datatype transaction_body = Produced | Fault

text \<open>The events of the live stream: no payload, only what the record was found to be.\<close>

datatype stream_outcome = Tagged | NewCandidate | MatchedCandidate | Quarantined

record stream_event =
  ev_ts_ms :: int
  ev_lane :: bytes
  ev_origin :: source_cursor
  ev_outcome :: stream_outcome
  ev_schema_ref :: bytes
  ev_family_id :: "bytes option"
  ev_reason :: "bytes option"
  ev_fields_count :: u32
  ev_source :: "bytes option"

record ('c, 'b) relay_env =
  e_digests :: digests
  e_lru :: "'c lru"
  e_resolve :: "nat \<Rightarrow> bytes \<Rightarrow> schema_id \<Rightarrow> core_error + schema_id option"
  e_serialize :: "discovery_msg \<Rightarrow> bytes option"
  e_now :: "nat \<Rightarrow> int"
  e_kafka :: "'b kafka"

record ('c, 'b) relay =
  r_matcher :: "'c matcher"
  r_settle :: settle_state
  r_broker :: 'b
  r_transaction_open :: bool
  r_stream :: "stream_event list"
  r_tick :: nat

definition relay_produce_margin :: nat where
  "relay_produce_margin = 16 * 1024"

definition produce_cap :: "relay_cfg \<Rightarrow> nat" where
  "produce_cap cfg = rc_max_message_bytes cfg - relay_produce_margin"

section \<open>One record\<close>

text \<open>\<open>produce\<close>: enqueue a record; an enqueue error is a Kafka error.\<close>

definition produce ::
  "('c, 'b) relay_env \<Rightarrow> out_record \<Rightarrow> ('c, 'b) relay \<Rightarrow> (relay_error + nat) \<times> ('c, 'b) relay" where
  "produce E out r =
     (let (d, b) = k_send (e_kafka E) out (r_broker r)
      in (ok_or KafkaError d, r\<lparr> r_broker := b \<rparr>))"

definition emit_stream_event ::
  "('c, 'b) relay_env \<Rightarrow> relay_cfg \<Rightarrow> source_cursor \<Rightarrow> stream_outcome \<Rightarrow> bytes \<Rightarrow> bytes option \<Rightarrow>
     u32 \<Rightarrow> ('c, 'b) relay \<Rightarrow> ('c, 'b) relay" where
  "emit_stream_event E cfg cursor outcome sref reason n r =
     (if \<not> rc_stream cfg then r
      else r\<lparr> r_stream := r_stream r @
        [\<lparr> ev_ts_ms = e_now E (r_tick r), ev_lane = ''hot'', ev_origin = cursor,
           ev_outcome = outcome, ev_schema_ref = sref, ev_family_id = None,
           ev_reason = reason, ev_fields_count = n, ev_source = Some (topic cursor) \<rparr>] \<rparr>)"

fun stream_outcome_of :: "schema_ref \<Rightarrow> stream_outcome" where
  "stream_outcome_of Malformed = Quarantined"
| "stream_outcome_of (Provisional _) = NewCandidate"
| "stream_outcome_of (Known _) = Tagged"
| "stream_outcome_of Unresolved = Tagged"
| "stream_outcome_of Tombstone = Tagged"

text \<open>A record that takes no classification: produce it, then tell the stream.\<close>

definition produce_only ::
  "('c, 'b) relay_env \<Rightarrow> relay_cfg \<Rightarrow> source_cursor \<Rightarrow> out_record \<Rightarrow> stream_outcome \<Rightarrow> bytes \<Rightarrow>
     bytes option \<Rightarrow> ('c, 'b) relay \<Rightarrow>
     (relay_error + transaction_body \<times> nat list) \<times> ('c, 'b) relay" where
  "produce_only E cfg cursor out outcome sref reason r =
     (case produce E out r of
        (Inl e, r1) \<Rightarrow> (Inl e, r1)
      | (Inr d, r1) \<Rightarrow>
          (Inr (Produced, [d]), emit_stream_event E cfg cursor outcome sref reason 0 r1))"

text \<open>
  The discovery evidence of a provisional record: skipped when it does not fit, otherwise
  produced under the candidate's id; then the fault point.
\<close>

definition produce_discovery ::
  "('c, 'b) relay_env \<Rightarrow> relay_cfg \<Rightarrow> source_cursor \<Rightarrow> bytes \<Rightarrow> schema_ref \<Rightarrow> ('c, 'b) relay \<Rightarrow>
     (relay_error + transaction_body \<times> nat list) \<times> ('c, 'b) relay" where
  "produce_discovery E cfg cursor payload sref r =
     (case sref of
        Provisional cand \<Rightarrow>
          (case e_serialize E \<lparr> dm_cand_id = candidate_str cand, dm_payload = payload,
                                dm_source = topic cursor, dm_cursor = cursor \<rparr> of
             None \<Rightarrow> (Inl SerializeError, r)
           | Some discovery_bytes \<Rightarrow>
               if produce_cap cfg < length discovery_bytes then (Inr (Produced, []), r)
               else
                 (case produce E \<lparr> o_topic = rc_discovery_topic cfg, o_partition = None,
                                   o_key = Some (candidate_str cand),
                                   o_payload = Some discovery_bytes, o_headers = [] \<rparr> r of
                    (Inl e, r1) \<Rightarrow> (Inl e, r1)
                  | (Inr d, r1) \<Rightarrow>
                      (Inr (if rc_fault cfg = Some AfterDiscoveryProduce then Fault else Produced, [d]), r1)))
      | _ \<Rightarrow> (Inr (Produced, []), r))"

text \<open>
  The record that carries the payload on: tagged, or quarantined with the reason. A malformed
  classification always has a reason (\<open>classify_malformed_reason\<close>), which the code unwraps.
\<close>

definition classified_output ::
  "relay_cfg \<Rightarrow> pending_record \<Rightarrow> bytes \<Rightarrow> schema_ref \<Rightarrow> quarantine_reason option \<Rightarrow> out_record" where
  "classified_output cfg p payload sref quarantine =
     (let (target_topic, out_headers) =
        (case sref of
           Malformed \<Rightarrow>
             (rc_quarantine_topic cfg,
              (let h = with_tag (p_headers p) sref (p_cursor p)
               in case quarantine of Some reason \<Rightarrow> with_quarantine_reason h reason | None \<Rightarrow> h))
         | _ \<Rightarrow> (rc_tagged_topic cfg, with_tag (p_headers p) sref (p_cursor p)))
      in \<lparr> o_topic = target_topic, o_partition = Some (partition (p_cursor p)), o_key = p_key p,
           o_payload = Some payload, o_headers = out_headers \<rparr>)"

text \<open>A record to be classified: classify, feed the verdict back, tell the stream, produce.\<close>

definition classify_and_produce ::
  "('c, 'b) relay_env \<Rightarrow> relay_cfg \<Rightarrow> pending_record \<Rightarrow> bytes \<Rightarrow> bool \<Rightarrow> ('c, 'b) relay \<Rightarrow>
     (relay_error + transaction_body \<times> nat list) \<times> ('c, 'b) relay" where
  "classify_and_produce E cfg p payload drift r =
     (let cursor = p_cursor p;
          (c, m) = classify (e_digests E) (e_lru E) (e_resolve E (r_tick r)) (topic cursor) payload
                     (rc_limits cfg) (r_matcher r);
          settle = settle_after_record (r_settle r) (topic cursor)
                     (case c_schema_ref c of Known i \<Rightarrow> Some i | _ \<Rightarrow> None) drift;
          r1 = emit_stream_event E cfg cursor (stream_outcome_of (c_schema_ref c))
                 (header_value (c_schema_ref c)) (map_option quarantine_reason_value (c_quarantine c))
                 (c_fields_count c) (r\<lparr> r_matcher := m, r_settle := settle \<rparr>)
      in case produce_discovery E cfg cursor payload (c_schema_ref c) r1 of
           (Inl e, r2) \<Rightarrow> (Inl e, r2)
         | (Inr (Fault, ds), r2) \<Rightarrow> (Inr (Fault, ds), r2)
         | (Inr (Produced, ds), r2) \<Rightarrow>
             (case produce E (classified_output cfg p payload (c_schema_ref c) (c_quarantine c)) r2 of
                (Inl e, r3) \<Rightarrow> (Inl e, r3)
              | (Inr d, r3) \<Rightarrow> (Inr (Produced, ds @ [d]), r3)))"

definition run_transaction_body ::
  "('c, 'b) relay_env \<Rightarrow> relay_cfg \<Rightarrow> pending_record \<Rightarrow> ('c, 'b) relay \<Rightarrow>
     (relay_error + transaction_body \<times> nat list) \<times> ('c, 'b) relay" where
  "run_transaction_body E cfg p r =
     (let cursor = p_cursor p;
          out = (\<lambda>t h v. \<lparr> o_topic = t, o_partition = Some (partition cursor), o_key = p_key p,
                           o_payload = v, o_headers = h \<rparr>)
      in case p_payload p of
           None \<Rightarrow>
             produce_only E cfg cursor
               (out (rc_tagged_topic cfg) (with_tag (p_headers p) Tombstone cursor) None)
               Tagged (header_value Tombstone) None r
         | Some payload \<Rightarrow>
             if produce_cap cfg < length payload then
               produce_only E cfg cursor
                 (out (rc_quarantine_topic cfg)
                    (with_quarantine_reason (with_tag (p_headers p) Malformed cursor) SizeExceeded) None)
                 Quarantined (header_value Malformed) (Some (quarantine_reason_value SizeExceeded)) r
             else
               (case settle_before (r_settle r) (topic cursor) of
                  (FastPath i, settle) \<Rightarrow>
                    produce_only E cfg cursor
                      (out (rc_tagged_topic cfg) (with_tag (p_headers p) (Known i) cursor) (Some payload))
                      Tagged (header_value (Known i)) None (r\<lparr> r_settle := settle \<rparr>)
                | (Classify drift, settle) \<Rightarrow>
                    classify_and_produce E cfg p payload drift (r\<lparr> r_settle := settle \<rparr>)))"

section \<open>One batch\<close>

text \<open>The largest offset of each partition in the batch.\<close>

fun bump_offset :: "bytes \<times> int \<Rightarrow> int \<Rightarrow> ((bytes \<times> int) \<times> int) list \<Rightarrow> ((bytes \<times> int) \<times> int) list" where
  "bump_offset k n [] = [(k, n)]"
| "bump_offset k n ((k', m) # l) =
     (if k = k' then (k', max m n) # l else (k', m) # bump_offset k n l)"

text \<open>
  Enqueue every record of the batch in order: stop at the first error or at the fault point.
  The result has the offsets to commit and the deliveries to await.
\<close>

fun enqueue_batch ::
  "('c, 'b) relay_env \<Rightarrow> relay_cfg \<Rightarrow> pending_record list \<Rightarrow> ((bytes \<times> int) \<times> int) list \<Rightarrow> nat list \<Rightarrow>
     ('c, 'b) relay \<Rightarrow>
     (relay_error + transaction_body \<times> ((bytes \<times> int) \<times> int) list \<times> nat list) \<times> ('c, 'b) relay" where
  "enqueue_batch E cfg [] offs ds r = (Inr (Produced, offs, ds), r)"
| "enqueue_batch E cfg (p # ps) offs ds r =
     (let offs1 = bump_offset (topic (p_cursor p), partition (p_cursor p)) (offset (p_cursor p)) offs
      in case run_transaction_body E cfg p r of
           (Inl e, r1) \<Rightarrow> (Inl e, r1)
         | (Inr (Fault, _), r1) \<Rightarrow> (Inr (Fault, offs1, ds), r1)
         | (Inr (Produced, ds1), r1) \<Rightarrow>
             enqueue_batch E cfg ps offs1 (ds @ ds1) (r1\<lparr> r_tick := Suc (r_tick r1) \<rparr>))"

text \<open>Await the deliveries: stop at the first that failed or was cancelled.\<close>

fun await_all :: "'b kafka \<Rightarrow> nat list \<Rightarrow> 'b \<Rightarrow> bool \<times> 'b" where
  "await_all K [] b = (True, b)"
| "await_all K (d # ds) b =
     (case k_await K d b of (True, b1) \<Rightarrow> await_all K ds b1 | (False, b1) \<Rightarrow> (False, b1))"

text \<open>Abort the open transaction; when the abort itself fails, so does the relay.\<close>

definition abort_batch ::
  "('c, 'b) relay_env \<Rightarrow> ('c, 'b) relay \<Rightarrow> (relay_error + process_outcome) \<times> ('c, 'b) relay" where
  "abort_batch E r =
     (case k_abort (e_kafka E) (r_broker r) of
        (False, b) \<Rightarrow> (Inl KafkaError, r\<lparr> r_broker := b \<rparr>)
      | (True, b) \<Rightarrow> (Inr Aborted, r\<lparr> r_broker := b, r_transaction_open := False \<rparr>))"

text \<open>The offset committed is the next one to read.\<close>

definition commit_batch ::
  "('c, 'b) relay_env \<Rightarrow> ((bytes \<times> int) \<times> int) list \<Rightarrow> ('c, 'b) relay \<Rightarrow>
     (relay_error + process_outcome) \<times> ('c, 'b) relay" where
  "commit_batch E max_offsets r =
     (if \<not> k_group_metadata (e_kafka E) (r_broker r) then (Inl NoGroupMetadata, r)
      else
        (let l = map (\<lambda>(k, m). (k, m + 1)) max_offsets
         in case k_send_offsets (e_kafka E) l (r_broker r) of
              (True, b) \<Rightarrow>
                (case k_commit (e_kafka E) b of
                   (True, b1) \<Rightarrow> (Inr Committed, r\<lparr> r_broker := b1, r_transaction_open := False \<rparr>)
                 | (False, b1) \<Rightarrow> (Inl KafkaError, r\<lparr> r_broker := b1 \<rparr>))
            | (False, b) \<Rightarrow> abort_batch E (r\<lparr> r_broker := b \<rparr>)))"

definition process_batch ::
  "('c, 'b) relay_env \<Rightarrow> relay_cfg \<Rightarrow> pending_record list \<Rightarrow> ('c, 'b) relay \<Rightarrow>
     (relay_error + process_outcome) \<times> ('c, 'b) relay" where
  "process_batch E cfg batch r =
     (case k_begin (e_kafka E) (r_broker r) of
        (False, b) \<Rightarrow> (Inl KafkaError, r\<lparr> r_broker := b \<rparr>)
      | (True, b) \<Rightarrow>
          (case enqueue_batch E cfg batch [] [] (r\<lparr> r_broker := b, r_transaction_open := True \<rparr>) of
             (Inl e, r1) \<Rightarrow> abort_batch E r1
           | (Inr (Fault, _), r1) \<Rightarrow> (Inr FaultInjected, r1)
           | (Inr (Produced, offs, ds), r1) \<Rightarrow>
               (case await_all (e_kafka E) ds (r_broker r1) of
                  (False, b1) \<Rightarrow> abort_batch E (r1\<lparr> r_broker := b1 \<rparr>)
                | (True, b1) \<Rightarrow>
                    if rc_fault cfg = Some AfterProduceBeforeCommit
                    then (Inr FaultInjected, r1\<lparr> r_broker := b1 \<rparr>)
                    else commit_batch E offs (r1\<lparr> r_broker := b1 \<rparr>))))"

text \<open>The rebalance callback: on revocation, abort the transaction if one is open.\<close>

datatype rebalance = Assign | Revoke | RebalanceError

definition pre_rebalance :: "('c, 'b) relay_env \<Rightarrow> rebalance \<Rightarrow> ('c, 'b) relay \<Rightarrow> ('c, 'b) relay" where
  "pre_rebalance E rb r =
     (if rb \<noteq> Revoke then r
      else if \<not> r_transaction_open r then r
      else r\<lparr> r_transaction_open := False, r_broker := snd (k_abort (e_kafka E) (r_broker r)) \<rparr>)"

section \<open>The loop\<close>

text \<open>
  What \<open>tokio::select!\<close> hands the loop, in the order in which it does: a message or an error of
  the consumer, the linger deadline of the batch, the shutdown signal. The deadline exists only
  while the batch is not empty.
\<close>

record raw_message =
  raw_cursor :: source_cursor
  raw_key :: "bytes option"
  raw_payload :: "bytes option"
  raw_headers :: "headers option"

datatype select_event = Message raw_message | RecvError | Linger | Shutdown

definition pending_of :: "raw_message \<Rightarrow> pending_record" where
  "pending_of m =
     \<lparr> p_cursor = raw_cursor m, p_key = raw_key m, p_payload = raw_payload m,
       p_headers = strip_reserved (raw_headers m) \<rparr>"

definition rec_bytes :: "raw_message \<Rightarrow> nat" where
  "rec_bytes m =
     (case raw_payload m of Some p \<Rightarrow> length p | None \<Rightarrow> 0) +
     (case raw_key m of Some k \<Rightarrow> length k | None \<Rightarrow> 0)"

definition count_metric :: "(metrics \<Rightarrow> metrics) \<Rightarrow> ('c, 'b) relay \<Rightarrow> ('c, 'b) relay" where
  "count_metric f r = r\<lparr> r_matcher := (r_matcher r)\<lparr> m_metrics := f (m_metrics (r_matcher r)) \<rparr> \<rparr>"

text \<open>
  Process a batch and count its outcome: \<open>Inl\<close> when the loop ends here (an error, or \<open>None\<close> for
  an injected fault), \<open>Inr\<close> when it goes on.
\<close>

definition flush_batch ::
  "('c, 'b) relay_env \<Rightarrow> relay_cfg \<Rightarrow> pending_record list \<Rightarrow> ('c, 'b) relay \<Rightarrow>
     (relay_error option + unit) \<times> ('c, 'b) relay" where
  "flush_batch E cfg batch r =
     (case process_batch E cfg batch r of
        (Inl e, r1) \<Rightarrow> (Inl (Some e), r1)
      | (Inr Committed, r1) \<Rightarrow> (Inr (), count_metric (record_relay_transaction ''committed'') r1)
      | (Inr Aborted, r1) \<Rightarrow> (Inr (), count_metric (record_relay_transaction ''aborted'') r1)
      | (Inr FaultInjected, r1) \<Rightarrow> (Inl None, r1))"

text \<open>
  The loop from a batch in the making and its size: it has returned, with an error or without,
  or it is waiting for the next event.
\<close>

datatype run_result = Returned "relay_error option" | Waiting "pending_record list"

fun run_loop ::
  "('c, 'b) relay_env \<Rightarrow> relay_cfg \<Rightarrow> select_event list \<Rightarrow> pending_record list \<Rightarrow> nat \<Rightarrow>
     ('c, 'b) relay \<Rightarrow> run_result \<times> ('c, 'b) relay" where
  "run_loop E cfg [] batch batch_bytes r = (Waiting batch, r)"
| "run_loop E cfg (Shutdown # evs) batch batch_bytes r =
     (if batch = [] then (Returned None, r)
      else (case flush_batch E cfg batch r of
          (Inl e, r1) \<Rightarrow> (Returned e, r1)
        | (Inr _, r1) \<Rightarrow> (Returned None, r1)))"
| "run_loop E cfg (Linger # evs) batch batch_bytes r =
     (if batch = [] then run_loop E cfg evs batch batch_bytes r
      else (case flush_batch E cfg batch r of
          (Inl e, r1) \<Rightarrow> (Returned e, r1)
        | (Inr _, r1) \<Rightarrow> run_loop E cfg evs [] 0 r1))"
| "run_loop E cfg (RecvError # evs) batch batch_bytes r = (Returned (Some KafkaError), r)"
| "run_loop E cfg (Message m # evs) batch batch_bytes r =
     (let r1 = count_metric inc_relay_records r;
          batch1 = batch @ [pending_of m];
          bytes1 = batch_bytes + rec_bytes m
      in if max 1 (rc_max_batch_bytes cfg) \<le> bytes1 \<or> max 1 (rc_max_batch_records cfg) \<le> length batch1
         then (case flush_batch E cfg batch1 r1 of
             (Inl e, r2) \<Rightarrow> (Returned e, r2)
           | (Inr _, r2) \<Rightarrow> run_loop E cfg evs [] 0 r2)
         else run_loop E cfg evs batch1 bytes1 r1)"

definition subscribe_topics :: "relay_cfg \<Rightarrow> bytes list" where
  "subscribe_topics cfg = (if rc_raw_topics cfg = [] then [rc_raw_topic cfg] else rc_raw_topics cfg)"

definition run_relay ::
  "('c, 'b) relay_env \<Rightarrow> relay_cfg \<Rightarrow> select_event list \<Rightarrow> 'c matcher \<Rightarrow> 'b \<Rightarrow> run_result \<times> ('c, 'b) relay" where
  "run_relay E cfg evs m b =
     run_loop E cfg evs [] 0
       \<lparr> r_matcher = m, r_settle = settle_new (rc_settle cfg), r_broker = b,
         r_transaction_open = False, r_stream = [], r_tick = 0 \<rparr>"

end
