(* ===== verification/Relay_Facts.thy ===== *)
theory Relay_Facts
  imports Relay
begin

text \<open>
  What a batch writes: one record to the tagged or the quarantine topic for each record read, in
  order, with the discovery evidence of a new shape before it, committed with the offsets of the
  batch or not at all.
\<close>

section \<open>What one record writes\<close>

text \<open>The verdict on a record: what it was found to be, with the reason when it is quarantined.\<close>

type_synonym verdict = "schema_ref \<times> quarantine_reason option"

definition too_large :: "relay_cfg \<Rightarrow> pending_record \<Rightarrow> bool" where
  "too_large cfg p \<longleftrightarrow> (case p_payload p of None \<Rightarrow> False | Some b \<Rightarrow> produce_cap cfg < length b)"

definition main_output :: "relay_cfg \<Rightarrow> pending_record \<Rightarrow> verdict \<Rightarrow> out_record" where
  "main_output cfg p v =
     (let h = with_tag (p_headers p) (fst v) (p_cursor p)
      in \<lparr> o_topic = (if snd v = None then rc_tagged_topic cfg else rc_quarantine_topic cfg),
           o_partition = Some (partition (p_cursor p)), o_key = p_key p,
           o_payload = (if too_large cfg p then None else p_payload p),
           o_headers = (case snd v of None \<Rightarrow> h | Some q \<Rightarrow> with_quarantine_reason h q) \<rparr>)"

definition evidence_of :: "('c, 'b) relay_env \<Rightarrow> pending_record \<Rightarrow> candidate_id \<Rightarrow> bytes option" where
  "evidence_of E p cand =
     e_serialize E \<lparr> dm_cand_id = candidate_str cand, dm_payload = the (p_payload p),
       dm_source = topic (p_cursor p), dm_cursor = p_cursor p \<rparr>"

definition discovery_outputs :: "('c, 'b) relay_env \<Rightarrow> relay_cfg \<Rightarrow> pending_record \<Rightarrow> verdict \<Rightarrow> out_record list" where
  "discovery_outputs E cfg p v =
     (case fst v of
        Provisional cand \<Rightarrow>
          (case evidence_of E p cand of
             None \<Rightarrow> []
           | Some b \<Rightarrow> if produce_cap cfg < length b then []
               else [\<lparr> o_topic = rc_discovery_topic cfg, o_partition = None,
                       o_key = Some (candidate_str cand), o_payload = Some b, o_headers = [] \<rparr>])
      | _ \<Rightarrow> [])"

definition record_outputs :: "('c, 'b) relay_env \<Rightarrow> relay_cfg \<Rightarrow> pending_record \<Rightarrow> verdict \<Rightarrow> out_record list" where
  "record_outputs E cfg p v = discovery_outputs E cfg p v @ [main_output cfg p v]"

text \<open>The verdict a record gets in a state of the relay.\<close>

definition classify_verdict :: "('c, 'b) relay_env \<Rightarrow> relay_cfg \<Rightarrow> pending_record \<Rightarrow> bytes \<Rightarrow> ('c, 'b) relay \<Rightarrow> verdict" where
  "classify_verdict E cfg p b r =
     (let c = fst (classify (e_digests E) (e_lru E) (e_resolve E (r_tick r)) (topic (p_cursor p)) b
                (rc_limits cfg) (r_matcher r))
      in (c_schema_ref c, c_quarantine c))"

definition body_verdict :: "('c, 'b) relay_env \<Rightarrow> relay_cfg \<Rightarrow> pending_record \<Rightarrow> ('c, 'b) relay \<Rightarrow> verdict" where
  "body_verdict E cfg p r =
     (case p_payload p of
        None \<Rightarrow> (Tombstone, None)
      | Some b \<Rightarrow>
          if produce_cap cfg < length b then (Malformed, Some SizeExceeded)
          else (case fst (settle_before (r_settle r) (topic (p_cursor p))) of
              FastPath i \<Rightarrow> (Known i, None)
            | Classify _ \<Rightarrow> classify_verdict E cfg p b r))"

text \<open>The verdicts that are right for a record, whatever the registry and the settle state say.\<close>

definition verdict_ok :: "relay_cfg \<Rightarrow> pending_record \<Rightarrow> verdict \<Rightarrow> bool" where
  "verdict_ok cfg p v \<longleftrightarrow>
     (fst v = Malformed \<longleftrightarrow> snd v \<noteq> None) \<and>
     (case p_payload p of
        None \<Rightarrow> v = (Tombstone, None)
      | Some b \<Rightarrow>
          fst v \<noteq> Tombstone \<and>
          (if produce_cap cfg < length b then v = (Malformed, Some SizeExceeded)
           else \<forall>q. snd v = Some q \<longrightarrow> parse_bounded b (rc_limits cfg) = Inl q))"

lemma classify_malformed_reason:
  assumes "classify D C resolve source b L M = (c, M')"
  shows "c_schema_ref c \<noteq> Tombstone \<and> (c_schema_ref c = Malformed \<longleftrightarrow> c_quarantine c \<noteq> None) \<and>
    (\<forall>q. c_quarantine c = Some q \<longleftrightarrow> parse_bounded b L = Inl q)"
proof (cases "parse_bounded b L")
  case (Inr nd)
  then show ?thesis
    using assms classify_shape_fields [of D C resolve source "shape_of nd" M c M']
    by (simp add: classify_def)
qed (use assms in \<open>auto simp: classify_def\<close>)

lemma classified_output_main:
  assumes "p_payload p = Some b" "\<not> too_large cfg p" "sref = Malformed \<longleftrightarrow> q \<noteq> None"
  shows "classified_output cfg p b sref q = main_output cfg p (sref, q)"
  using assms
  by (cases sref) (auto simp: classified_output_def main_output_def Let_def split: option.split)

section \<open>The broker under one record\<close>

lemma emit_broker [simp]:
  "r_broker (emit_stream_event E cfg c x s q n r) = r_broker r"
  "r_settle (emit_stream_event E cfg c x s q n r) = r_settle r"
  "r_matcher (emit_stream_event E cfg c x s q n r) = r_matcher r"
  "r_transaction_open (emit_stream_event E cfg c x s q n r) = r_transaction_open r"
  "r_tick (emit_stream_event E cfg c x s q n r) = r_tick r"
  by (simp_all add: emit_stream_event_def)

text \<open>
  \<open>wrote seen outs r r'\<close>: from \<open>r\<close> to \<open>r'\<close> the open transaction has grown by \<open>outs\<close> and nothing
  became durable.
\<close>

definition wrote :: "('b \<Rightarrow> broker_view) \<Rightarrow> out_record list \<Rightarrow> ('c, 'b) relay \<Rightarrow> ('c, 'b) relay \<Rightarrow> bool" where
  "wrote seen outs r r' \<longleftrightarrow>
     durable (seen (r_broker r')) = durable (seen (r_broker r)) \<and>
     (\<forall>rs os. txn (seen (r_broker r)) = Some (rs, os) \<longrightarrow>
        txn (seen (r_broker r')) = Some (rs @ outs, os))"

lemma wrote_trans: "wrote seen a r1 r2 \<Longrightarrow> wrote seen b r2 r3 \<Longrightarrow> wrote seen (a @ b) r1 r3"
  unfolding wrote_def by auto

lemma wrote_cong: "r_broker r1 = r_broker r2 \<Longrightarrow> r_broker r1' = r_broker r2' \<Longrightarrow>
    wrote seen a r1 r1' = wrote seen a r2 r2'"
  by (simp add: wrote_def)

lemma wrote_refl: "r_broker r1 = r_broker r2 \<Longrightarrow> wrote seen [] r1 r2"
  by (simp add: wrote_def)

lemma wrote_durable: "wrote seen a r r' \<Longrightarrow> durable (seen (r_broker r')) = durable (seen (r_broker r))"
  by (simp add: wrote_def)

text \<open>\<open>unharmed seen r r'\<close>: an error left what was durable alone.\<close>

definition unharmed :: "('b \<Rightarrow> broker_view) \<Rightarrow> ('c, 'b) relay \<Rightarrow> ('c, 'b) relay \<Rightarrow> bool" where
  "unharmed seen r r' \<longleftrightarrow> durable (seen (r_broker r')) = durable (seen (r_broker r))"

lemma unharmed_cong: "r_broker r1 = r_broker r2 \<Longrightarrow> r_broker r1' = r_broker r2' \<Longrightarrow>
    unharmed seen r1 r1' = unharmed seen r2 r2'"
  by (simp add: unharmed_def)

lemma unharmed_trans: "unharmed seen r1 r2 \<Longrightarrow> unharmed seen r2 r3 \<Longrightarrow> unharmed seen r1 r3"
  by (simp add: unharmed_def)

lemma wrote_unharmed: "wrote seen a r r' \<Longrightarrow> unharmed seen r r'"
  by (simp add: wrote_def unharmed_def)

context kafka_service
begin

lemma produce_ok:
  assumes "e_kafka E = K" "produce E out r = (Inr d, r')"
  shows "wrote seen [out] r r' \<and> r_settle r' = r_settle r \<and> r_matcher r' = r_matcher r"
proof -
  obtain t b where s: "k_send K out (r_broker r) = (t, b)" by force
  with assms have t: "t = Some d" "r' = r\<lparr> r_broker := b \<rparr>"
    by (auto simp: produce_def ok_or_def split: option.splits)
  have "txn (seen b) = Some (rs @ [out], os)" if "txn (seen (r_broker r)) = Some (rs, os)" for rs os
    using send_ok [OF s [unfolded t] that] by simp
  then show ?thesis using send_durable [OF s] t by (simp add: wrote_def)
qed

lemma produce_err:
  assumes "e_kafka E = K" "produce E out r = (Inl e, r')"
  shows "unharmed seen r r'"
proof -
  obtain t b where s: "k_send K out (r_broker r) = (t, b)" by force
  with assms send_durable [OF s] show ?thesis
    by (auto simp: produce_def unharmed_def)
qed

lemma produce_only_result:
  assumes "e_kafka E = K" "produce_only E cfg c out oc sref reason r = (res, r')"
  shows "case res of
      Inl _ \<Rightarrow> unharmed seen r r'
    | Inr (x, ds) \<Rightarrow> x = Produced \<and> wrote seen [out] r r'"
proof -
  obtain res1 r1 where p: "produce E out r = (res1, r1)" by force
  show ?thesis
  proof (cases res1)
    case (Inl e)
    with p assms produce_err [OF assms(1) p [unfolded Inl]] show ?thesis
      by (auto simp: produce_only_def)
  next
    case (Inr d)
    with p assms produce_ok [OF assms(1) p [unfolded Inr]] show ?thesis
      by (auto simp: produce_only_def wrote_def)
  qed
qed

lemma produce_discovery_result:
  assumes E: "e_kafka E = K" and b: "p_payload p = Some b"
    and run: "produce_discovery E cfg (p_cursor p) b sref r = (res, r')"
  shows "case res of
      Inl _ \<Rightarrow> unharmed seen r r'
    | Inr (x, ds) \<Rightarrow> wrote seen (discovery_outputs E cfg p (sref, q)) r r'"
proof (cases sref)
  case (Provisional cand)
  show ?thesis
  proof (cases "evidence_of E p cand")
    case None
    then show ?thesis
      using run b Provisional by (auto simp: produce_discovery_def evidence_of_def unharmed_def)
  next
    case (Some d)
    define out where "out = \<lparr> o_topic = rc_discovery_topic cfg, o_partition = None,
      o_key = Some (candidate_str cand), o_payload = Some d, o_headers = [] \<rparr>"
    obtain res1 r1 where p: "produce E out r = (res1, r1)" by force
    show ?thesis
      using run b Provisional Some p produce_ok [OF E] produce_err [OF E]
      by (auto simp: produce_discovery_def evidence_of_def discovery_outputs_def wrote_refl
          out_def [symmetric] split: if_splits sum.splits)
  qed
qed (use run in \<open>auto simp: produce_discovery_def discovery_outputs_def wrote_refl\<close>)

lemma classify_and_produce_result:
  assumes E: "e_kafka E = K" and b: "p_payload p = Some b" and fits: "\<not> too_large cfg p"
    and run: "classify_and_produce E cfg p b drift r = (res, r')"
  shows "verdict_ok cfg p (classify_verdict E cfg p b r) \<and> (case res of
      Inl _ \<Rightarrow> unharmed seen r r'
    | Inr (Fault, _) \<Rightarrow> unharmed seen r r'
    | Inr (Produced, _) \<Rightarrow> wrote seen (record_outputs E cfg p (classify_verdict E cfg p b r)) r r')"
proof -
  obtain c m where c: "classify (e_digests E) (e_lru E) (e_resolve E (r_tick r)) (topic (p_cursor p)) b
      (rc_limits cfg) (r_matcher r) = (c, m)" by force
  define v where "v = (c_schema_ref c, c_quarantine c)"
  have v: "classify_verdict E cfg p b r = v" by (simp add: classify_verdict_def c v_def)
  note facts = classify_malformed_reason [OF c]
  have ok: "verdict_ok cfg p v"
    using facts b fits by (auto simp: verdict_ok_def v_def too_large_def)
  have main: "classified_output cfg p b (c_schema_ref c) (c_quarantine c) = main_output cfg p v"
    unfolding v_def using facts by (intro classified_output_main b fits) blast
  define settle where "settle = settle_after_record (r_settle r) (topic (p_cursor p))
    (case c_schema_ref c of Known i \<Rightarrow> Some i | _ \<Rightarrow> None) drift"
  define r1 where "r1 = emit_stream_event E cfg (p_cursor p) (stream_outcome_of (c_schema_ref c))
    (header_value (c_schema_ref c)) (map_option quarantine_reason_value (c_quarantine c))
    (c_fields_count c) (r\<lparr> r_matcher := m, r_settle := settle \<rparr>)"
  have r1: "r_broker r1 = r_broker r" by (simp add: r1_def)
  obtain res2 r2 where d: "produce_discovery E cfg (p_cursor p) b (c_schema_ref c) r1 = (res2, r2)"
    by force
  note dis = produce_discovery_result [OF E b d, of "c_quarantine c", folded v_def]
  obtain res3 r3 where pr: "produce E (main_output cfg p v) r2 = (res3, r3)" by force
  have run': "(res, r') = (case (res2, r2) of
           (Inl e, r2) \<Rightarrow> (Inl e, r2)
         | (Inr (Fault, ds), r2) \<Rightarrow> (Inr (Fault, ds), r2)
         | (Inr (Produced, ds), r2) \<Rightarrow>
             (case produce E (main_output cfg p v) r2 of
                (Inl e, r3) \<Rightarrow> (Inl e, r3)
              | (Inr d, r3) \<Rightarrow> (Inr (Produced, ds @ [d]), r3)))"
    using run by (simp add: classify_and_produce_def c settle_def [symmetric] r1_def [symmetric] d main
        eq_commute [of "(res, r')"] cong: sum.case_cong prod.case_cong transaction_body.case_cong)
  have "case res of
      Inl _ \<Rightarrow> unharmed seen r r'
    | Inr (Fault, _) \<Rightarrow> unharmed seen r r'
    | Inr (Produced, _) \<Rightarrow> wrote seen (record_outputs E cfg p v) r r'"
  proof (cases res2)
    case (Inl e)
    then show ?thesis using run' dis r1 by (auto simp: unharmed_def)
  next
    case (Inr x)
    obtain body ds where x: "x = (body, ds)" by force
    have w: "wrote seen (discovery_outputs E cfg p v) r r2"
      using dis Inr x r1 by (simp add: wrote_def)
    show ?thesis
    proof (cases body)
      case Fault
      then show ?thesis using run' Inr x wrote_unharmed [OF w] by simp
    next
      case Produced
      show ?thesis
      proof (cases res3)
        case (Inl e)
        then show ?thesis
          using run' Inr x Produced pr produce_err [OF E pr [unfolded Inl]]
            unharmed_trans [OF wrote_unharmed [OF w]] by simp
      next
        case (Inr t)
        have "wrote seen (record_outputs E cfg p v) r r3"
          unfolding record_outputs_def
          using wrote_trans [OF w] produce_ok [OF E pr [unfolded Inr]] by blast
        then show ?thesis using run' \<open>res2 = Inr x\<close> x Produced pr Inr by simp
      qed
    qed
  qed
  with ok show ?thesis unfolding v by blast
qed

end

end
