(* ===== verification/Relay_Batch.thy ===== *)
theory Relay_Batch
  imports Relay_Facts
begin

text \<open>
  A batch as one atomic step on what is durable: the outputs of all its records and the offsets
  past them, or nothing. The runs of the relay are sequences of such steps.
\<close>

section \<open>Offsets\<close>

text \<open>The offset to resume a partition at, after a batch: one past the largest in the batch.\<close>

definition partition_key :: "pending_record \<Rightarrow> bytes \<times> int" where
  "partition_key p = (topic (p_cursor p), partition (p_cursor p))"

definition offsets_of :: "pending_record list \<Rightarrow> bytes \<times> int \<Rightarrow> int list" where
  "offsets_of ps k = map (\<lambda>p. offset (p_cursor p)) (filter (\<lambda>p. partition_key p = k) ps)"

definition resume_at :: "pending_record list \<Rightarrow> offsets" where
  "resume_at ps k = (if offsets_of ps k = [] then None else Some (Max (set (offsets_of ps k)) + 1))"

definition bump :: "pending_record \<Rightarrow> ((bytes \<times> int) \<times> int) list \<Rightarrow> ((bytes \<times> int) \<times> int) list" where
  "bump p l = bump_offset (topic (p_cursor p), partition (p_cursor p)) (offset (p_cursor p)) l"

lemma map_of_bump_offset:
  "map_of (bump_offset k n l) =
     (map_of l)(k \<mapsto> (case map_of l k of None \<Rightarrow> n | Some m \<Rightarrow> max m n))"
  by (induction k n l rule: bump_offset.induct) (auto simp: fun_eq_iff)

text \<open>\<open>covers l ps\<close>: the list has the largest offset of each partition of the records.\<close>

definition covers :: "((bytes \<times> int) \<times> int) list \<Rightarrow> pending_record list \<Rightarrow> bool" where
  "covers l ps \<longleftrightarrow> (\<forall>k. map_of l k =
     (if offsets_of ps k = [] then None else Some (Max (set (offsets_of ps k)))))"

lemma covers_at: "covers l ps \<Longrightarrow> map_of l k =
    (if offsets_of ps k = [] then None else Some (Max (set (offsets_of ps k))))"
  unfolding covers_def by blast

lemma covers_Nil: "covers [] []"
  by (simp add: covers_def offsets_of_def)

lemma offsets_of_snoc:
  "offsets_of (ps @ [p]) k = offsets_of ps k @ (if partition_key p = k then [offset (p_cursor p)] else [])"
  by (simp add: offsets_of_def)

lemma covers_bump: "covers l ps \<Longrightarrow> covers (bump p l) (ps @ [p])"
proof -
  assume c: "covers l ps"
  have "map_of (bump p l) k = (if offsets_of (ps @ [p]) k = [] then None
      else Some (Max (set (offsets_of (ps @ [p]) k))))" for k
  proof (cases "offsets_of ps k = []")
    case True
    with covers_at [OF c, of k] have "map_of l k = None" by simp
    with True show ?thesis
      using covers_at [OF c, of k] by (auto simp: bump_def map_of_bump_offset offsets_of_snoc partition_key_def)
  next
    case False
    with covers_at [OF c, of k] have "map_of l k = Some (Max (set (offsets_of ps k)))" by simp
    with False show ?thesis
      by (auto simp: bump_def map_of_bump_offset offsets_of_snoc partition_key_def max.commute)
  qed
  then show ?thesis by (simp add: covers_def)
qed

lemma map_of_next: "map_of (map (\<lambda>(k, m). (k, m + 1)) l) k = map_option (\<lambda>m. m + 1) (map_of l k)"
  for l :: "('a \<times> int) list"
  by (induction l) auto

lemma covers_resume: "covers l ps \<Longrightarrow> map_of (map (\<lambda>(k, m). (k, m + 1)) l) = resume_at ps"
  by (simp add: fun_eq_iff map_of_next covers_def resume_at_def)

section \<open>Batches\<close>

definition batch_outputs :: "('c, 'b) relay_env \<Rightarrow> relay_cfg \<Rightarrow> pending_record list \<Rightarrow> verdict list \<Rightarrow> out_record list" where
  "batch_outputs E cfg ps vs = concat (map2 (record_outputs E cfg) ps vs)"

lemma batch_outputs_simps [simp]:
  "batch_outputs E cfg [] vs = []"
  "batch_outputs E cfg (p # ps) (v # vs) = record_outputs E cfg p v @ batch_outputs E cfg ps vs"
  by (simp_all add: batch_outputs_def)

text \<open>The step a committed batch makes on what is durable.\<close>

definition batch_step ::
  "('c, 'b) relay_env \<Rightarrow> relay_cfg \<Rightarrow> pending_record list \<Rightarrow> verdict list \<Rightarrow>
     out_record list \<times> offsets \<Rightarrow> out_record list \<times> offsets" where
  "batch_step E cfg ps vs d = (fst d @ batch_outputs E cfg ps vs, snd d ++ resume_at ps)"

lemma abort_batch_tick [simp]: "abort_batch E r = (res, r') \<Longrightarrow> r_tick r' = r_tick r"
  by (auto simp: abort_batch_def split: prod.splits bool.splits)

text \<open>
  An invariant of the matcher's cache and the settle state that every record keeps, and what it
  gives for the verdicts.
\<close>

type_synonym 'c relay_inv = "'c \<Rightarrow> settle_state \<Rightarrow> bool"

definition holds :: "'c relay_inv \<Rightarrow> ('c, 'b) relay \<Rightarrow> bool" where
  "holds I r \<longleftrightarrow> I (m_lru (r_matcher r)) (r_settle r)"

definition body_keeps :: "('c, 'b) relay_env \<Rightarrow> relay_cfg \<Rightarrow> 'c relay_inv \<Rightarrow> (verdict \<Rightarrow> bool) \<Rightarrow> bool" where
  "body_keeps E cfg I Q \<longleftrightarrow>
     (\<forall>p r res r'. holds I r \<longrightarrow> run_transaction_body E cfg p r = (res, r') \<longrightarrow>
        holds I r' \<and> Q (body_verdict E cfg p r))"

lemma body_keepsD:
  "body_keeps E cfg I Q \<Longrightarrow> holds I r \<Longrightarrow> run_transaction_body E cfg p r = (res, r') \<Longrightarrow>
     holds I r' \<and> Q (body_verdict E cfg p r)"
  unfolding body_keeps_def by blast

lemma body_keeps_trivial: "body_keeps E cfg (\<lambda>_ _. True) (\<lambda>_. True)"
  by (simp add: body_keeps_def holds_def)

lemma holds_trivial [simp]: "holds (\<lambda>_ _. True) r"
  by (simp add: holds_def)

lemma holds_updates [simp]:
  "holds I (r\<lparr> r_broker := b \<rparr>) = holds I r" "holds I (r\<lparr> r_tick := n \<rparr>) = holds I r"
  "holds I (r\<lparr> r_transaction_open := x \<rparr>) = holds I r"
  by (simp_all add: holds_def)

lemma abort_batch_holds [simp]: "holds I (snd (abort_batch E r)) = holds I r"
  by (simp add: abort_batch_def split: prod.split bool.split)

lemma commit_batch_holds [simp]: "holds I (snd (commit_batch E offs r)) = holds I r"
  by (simp add: commit_batch_def Let_def split: prod.split bool.split)

definition verdicts_ok :: "relay_cfg \<Rightarrow> (verdict \<Rightarrow> bool) \<Rightarrow> pending_record list \<Rightarrow> verdict list \<Rightarrow> bool" where
  "verdicts_ok cfg Q ps vs \<longleftrightarrow> list_all2 (verdict_ok cfg) ps vs \<and> list_all Q vs"

lemma verdicts_ok_simps [simp]:
  "verdicts_ok cfg Q [] vs \<longleftrightarrow> vs = []"
  "verdicts_ok cfg Q (p # ps) (v # vs) \<longleftrightarrow> verdict_ok cfg p v \<and> Q v \<and> verdicts_ok cfg Q ps vs"
  by (auto simp: verdicts_ok_def)

lemma enqueue_batch_holds:
  assumes "body_keeps E cfg I Q"
  shows "enqueue_batch E cfg ps offs ds r = (res, r') \<Longrightarrow> holds I r \<Longrightarrow> holds I r'"
proof (induction ps arbitrary: offs ds r)
  case (Cons p ps)
  obtain res1 r1 where b: "run_transaction_body E cfg p r = (res1, r1)" by force
  have "holds I r1" using body_keepsD [OF assms Cons.prems(2) b] by simp
  with Cons b show ?case
    by (auto simp: Let_def split: sum.splits transaction_body.splits)
qed simp

lemma process_batch_holds:
  assumes "body_keeps E cfg I Q" "holds I r"
  shows "holds I (snd (process_batch E cfg ps r))"
proof (cases "k_begin (e_kafka E) (r_broker r)")
  case (Pair ok b)
  obtain x r1 where q: "enqueue_batch E cfg ps [] [] (r\<lparr> r_broker := b, r_transaction_open := True \<rparr>) = (x, r1)"
    by force
  have "holds I r1" by (rule enqueue_batch_holds [OF assms(1) q]) (simp add: assms(2))
  then show ?thesis
    using Pair q assms(2)
    by (simp add: process_batch_def split: prod.split bool.split sum.split transaction_body.split)
qed

context kafka_service
begin

lemma body_result:
  assumes E: "e_kafka E = K" and run: "run_transaction_body E cfg p r = (res, r')"
  shows "verdict_ok cfg p (body_verdict E cfg p r) \<and> (case res of
      Inl _ \<Rightarrow> unharmed seen r r'
    | Inr (Fault, _) \<Rightarrow> unharmed seen r r'
    | Inr (Produced, _) \<Rightarrow> wrote seen (record_outputs E cfg p (body_verdict E cfg p r)) r r')"
proof -
  have only: "case res of
      Inl _ \<Rightarrow> unharmed seen r r'
    | Inr (Fault, _) \<Rightarrow> unharmed seen r r'
    | Inr (Produced, _) \<Rightarrow> wrote seen (record_outputs E cfg p v) r r'"
    if "produce_only E cfg (p_cursor p) (main_output cfg p v) oc sref reason start = (res, r')"
      "r_broker start = r_broker r" "discovery_outputs E cfg p v = []" for v oc sref reason start
    using produce_only_result [OF E that(1)] that(2,3)
    by (auto simp: record_outputs_def wrote_def unharmed_def split: sum.splits)
  show ?thesis
  proof (cases "p_payload p")
    case None
    then have bv: "body_verdict E cfg p r = (Tombstone, None)" by (simp add: body_verdict_def)
    show ?thesis
      unfolding bv using None run only [of "(Tombstone, None)"]
      by (auto simp: run_transaction_body_def Let_def verdict_ok_def main_output_def too_large_def
          discovery_outputs_def)
  next
    case (Some b)
    show ?thesis
    proof (cases "produce_cap cfg < length b")
      case True
      with Some have bv: "body_verdict E cfg p r = (Malformed, Some SizeExceeded)"
        by (simp add: body_verdict_def)
      show ?thesis
        unfolding bv using True Some run only [of "(Malformed, Some SizeExceeded)"]
        by (auto simp: run_transaction_body_def Let_def verdict_ok_def main_output_def too_large_def
            discovery_outputs_def)
    next
      case False
      obtain d settle where s: "settle_before (r_settle r) (topic (p_cursor p)) = (d, settle)" by force
      let ?r1 = "r\<lparr> r_settle := settle \<rparr>"
      show ?thesis
      proof (cases d)
        case (FastPath i)
        with Some False s have bv: "body_verdict E cfg p r = (Known i, None)"
          by (simp add: body_verdict_def)
        show ?thesis
          unfolding bv using FastPath Some False run s only [of "(Known i, None)" _ _ _ ?r1]
          by (auto simp: run_transaction_body_def Let_def verdict_ok_def main_output_def too_large_def
              discovery_outputs_def)
      next
        case (Classify drift)
        then have "classify_and_produce E cfg p b drift ?r1 = (res, r')"
          using run Some False s by (simp add: run_transaction_body_def Let_def)
        from classify_and_produce_result [OF E Some _ this] False Some
        have "verdict_ok cfg p (classify_verdict E cfg p b ?r1) \<and> (case res of
            Inl _ \<Rightarrow> unharmed seen ?r1 r'
          | Inr (Fault, _) \<Rightarrow> unharmed seen ?r1 r'
          | Inr (Produced, _) \<Rightarrow> wrote seen (record_outputs E cfg p (classify_verdict E cfg p b ?r1)) ?r1 r')"
          by (simp add: too_large_def)
        moreover have bv: "body_verdict E cfg p r = classify_verdict E cfg p b ?r1"
          using Some False s Classify by (simp add: body_verdict_def classify_verdict_def)
        ultimately show ?thesis
          unfolding bv by (auto simp: wrote_def unharmed_def split: sum.splits transaction_body.splits)
      qed
    qed
  qed
qed

lemma enqueue_batch_result:
  assumes E: "e_kafka E = K" and keeps: "body_keeps E cfg I Q"
  shows "enqueue_batch E cfg ps offs ds r = (res, r') \<Longrightarrow> covers offs prev \<Longrightarrow> holds I r \<Longrightarrow>
    (case res of
       Inl _ \<Rightarrow> unharmed seen r r'
     | Inr (Fault, _) \<Rightarrow> unharmed seen r r'
     | Inr (Produced, offs', _) \<Rightarrow> covers offs' (prev @ ps) \<and>
         (\<exists>vs. verdicts_ok cfg Q ps vs \<and> wrote seen (batch_outputs E cfg ps vs) r r'))"
proof (induction ps arbitrary: offs ds r prev)
  case Nil
  then show ?case by (auto simp: wrote_refl)
next
  case (Cons p ps)
  obtain res1 r1 where b: "run_transaction_body E cfg p r = (res1, r1)" by force
  define v where "v = body_verdict E cfg p r"
  have v: "verdict_ok cfg p v" "case res1 of
      Inl _ \<Rightarrow> unharmed seen r r1
    | Inr (Fault, _) \<Rightarrow> unharmed seen r r1
    | Inr (Produced, _) \<Rightarrow> wrote seen (record_outputs E cfg p v) r r1"
    using body_result [OF E b] unfolding v_def by auto
  have q: "Q v" "holds I r1"
    using body_keepsD [OF keeps Cons.prems(3) b] by (simp_all add: v_def)
  consider (stop) "\<exists>x. res = x \<and> (\<forall>z. x \<noteq> Inr (Produced, z))" "unharmed seen r r'"
    | (go) ds1 where "res1 = Inr (Produced, ds1)"
  proof (cases res1)
    case (Inl e)
    with Cons.prems(1) b v(2) show ?thesis by (intro that(1)) (auto simp: Let_def)
  next
    case (Inr x)
    then show ?thesis using Cons.prems(1) b v(2) that
      by (cases x; cases "fst x") (auto simp: Let_def)
  qed
  then show ?case
  proof cases
    case stop
    then show ?thesis by (auto split: sum.split prod.split transaction_body.split)
  next
    case (go ds1)
    let ?r2 = "r1\<lparr> r_tick := Suc (r_tick r1) \<rparr>"
    have rest: "enqueue_batch E cfg ps (bump p offs) (ds @ ds1) ?r2 = (res, r')"
      using Cons.prems(1) b go by (simp add: Let_def bump_def)
    have w: "wrote seen (record_outputs E cfg p v) r ?r2"
      using v(2) go by (simp add: wrote_def)
    note IH = Cons.IH [OF rest covers_bump [OF Cons.prems(2), of p], simplified, OF q(2)]
    show ?thesis
    proof (cases res)
      case (Inl e)
      with IH unharmed_trans [OF wrote_unharmed [OF w]] show ?thesis by simp
    next
      case (Inr x)
      obtain body offs' ds' where x: "x = (body, offs', ds')" by (cases x) auto
      show ?thesis
      proof (cases body)
        case Fault
        with Inr x IH unharmed_trans [OF wrote_unharmed [OF w]] show ?thesis by simp
      next
        case Produced
        with Inr x IH obtain vs where "verdicts_ok cfg Q ps vs"
          "wrote seen (batch_outputs E cfg ps vs) ?r2 r'" "covers offs' (prev @ p # ps)" by auto
        then have "verdicts_ok cfg Q (p # ps) (v # vs)"
          "wrote seen (batch_outputs E cfg (p # ps) (v # vs)) r r'" "covers offs' (prev @ p # ps)"
          using v(1) q(1) wrote_trans [OF w] by auto
        then show ?thesis using Inr x Produced by (auto intro!: exI [of _ "v # vs"])
      qed
    qed
  qed
qed

lemma await_all_result:
  "await_all K ds b = (ok, b') \<Longrightarrow>
     durable (seen b') = durable (seen b) \<and> (ok \<longrightarrow> seen b' = seen b)"
proof (induction ds arbitrary: b)
  case (Cons d ds)
  obtain ok1 b1 where 1: "k_await K d b = (ok1, b1)" by force
  show ?case
  proof (cases ok1)
    case True
    with Cons 1 await_ok show ?thesis by fastforce
  next
    case False
    with Cons.prems 1 await_durable [OF 1] show ?thesis by auto
  qed
qed simp

lemma abort_batch_result:
  assumes "e_kafka E = K" "abort_batch E r = (res, r')"
  shows "unharmed seen r r' \<and> res \<in> {Inl KafkaError, Inr Aborted}"
  using assms abort_durable
  by (auto simp: abort_batch_def unharmed_def split: prod.splits bool.splits)

lemma commit_batch_result:
  assumes E: "e_kafka E = K" and cov: "covers offs ps"
    and t: "txn (seen (r_broker r)) = Some (outs, Map.empty)"
    and run: "commit_batch E offs r = (res, r')"
  shows "(case res of
       Inr Committed \<Rightarrow> durable (seen (r_broker r')) =
         (committed (seen (r_broker r)) @ outs, group_offsets (seen (r_broker r)) ++ resume_at ps)
     | Inl e \<Rightarrow> unharmed seen r r' \<or> e = KafkaError \<and> durable (seen (r_broker r')) =
         (committed (seen (r_broker r)) @ outs, group_offsets (seen (r_broker r)) ++ resume_at ps)
     | _ \<Rightarrow> unharmed seen r r') \<and> res \<noteq> Inr FaultInjected"
proof (cases "k_group_metadata K (r_broker r)")
  case False
  then show ?thesis using run E by (auto simp: commit_batch_def unharmed_def)
next
  case True
  let ?l = "map (\<lambda>(k, m). (k, m + 1)) offs"
  obtain ok b where o: "k_send_offsets K ?l (r_broker r) = (ok, b)" by force
  show ?thesis
  proof (cases ok)
    case False
    then have "abort_batch E (r\<lparr> r_broker := b \<rparr>) = (res, r')"
      using run E True o by (simp add: commit_batch_def Let_def)
    from abort_batch_result [OF E this] offsets_durable [OF o]
    show ?thesis by (auto simp: unharmed_def)
  next
    case ok: True
    have o': "k_send_offsets K ?l (r_broker r) = (True, b)" using o ok by simp
    have b: "seen b = (seen (r_broker r))\<lparr> txn := Some (outs, resume_at ps) \<rparr>"
      using offsets_ok [OF o' t] covers_resume [OF cov] by simp
    have app: "durable (applied (seen b)) =
        (committed (seen (r_broker r)) @ outs, group_offsets (seen (r_broker r)) ++ resume_at ps)"
      by (simp add: b applied_def durable_def)
    obtain ok2 b2 where c: "k_commit K b = (ok2, b2)" by force
    show ?thesis
    proof (cases ok2)
      case True
      then have "res = Inr Committed" "r_broker r' = b2"
        using run E \<open>k_group_metadata K (r_broker r)\<close> o ok c
        by (auto simp: commit_batch_def Let_def)
      then show ?thesis using commit_ok [of b b2] c True app by simp
    next
      case False
      then have "res = Inl KafkaError" "r_broker r' = b2"
        using run E \<open>k_group_metadata K (r_broker r)\<close> o ok c
        by (auto simp: commit_batch_def Let_def)
      then show ?thesis using commit_fails [of b b2] c False app b
        by (auto simp: unharmed_def)
    qed
  qed
qed

text \<open>The atomicity of a batch.\<close>

lemma process_batch_result:
  assumes E: "e_kafka E = K" and keeps: "body_keeps E cfg I Q" and inv: "holds I r"
    and run: "process_batch E cfg batch r = (res, r')"
  shows "(res \<noteq> Inr Committed \<and> unharmed seen r r') \<or>
    ((res = Inr Committed \<or> res = Inl KafkaError) \<and>
     (\<exists>vs. verdicts_ok cfg Q batch vs \<and>
        durable (seen (r_broker r')) = batch_step E cfg batch vs (durable (seen (r_broker r)))))"
proof -
  obtain ok b where bg: "k_begin K (r_broker r) = (ok, b)" by force
  show ?thesis
  proof (cases ok)
    case False
    with bg begin_fails [of "r_broker r" b] run E show ?thesis
      by (auto simp: process_batch_def unharmed_def)
  next
    case True
    let ?r0 = "r\<lparr> r_broker := b, r_transaction_open := True \<rparr>"
    have b: "seen b = (seen (r_broker r))\<lparr> txn := Some ([], Map.empty) \<rparr>"
      using bg True begin_ok by simp
    have harm: "unharmed seen r r2 \<longleftrightarrow> unharmed seen ?r0 r2" for r2
      by (simp add: unharmed_def b)
    obtain res1 r1 where q: "enqueue_batch E cfg batch [] [] ?r0 = (res1, r1)" by force
    note en = enqueue_batch_result [OF E keeps q covers_Nil, simplified, OF inv]
    have abort: ?thesis if "abort_batch E r2 = (res, r')" "unharmed seen ?r0 r2" for r2
      using abort_batch_result [OF E that(1)] unharmed_trans [OF that(2)] harm by auto
    consider (err) e where "res1 = Inl e" | (fault) z where "res1 = Inr (Fault, z)"
      | (ok) offs ds where "res1 = Inr (Produced, offs, ds)"
    proof (cases res1)
      case (Inr x)
      then show ?thesis using that by (cases x; cases "fst x") auto
    qed (use that in blast)
    then show ?thesis
    proof cases
      case (err e)
      then show ?thesis using run E bg True q en abort by (simp add: process_batch_def)
    next
      case (fault z)
      then show ?thesis using run E bg True q en harm by (auto simp: process_batch_def)
    next
      case (ok offs ds)
      obtain vs where vs: "verdicts_ok cfg Q batch vs" and cov: "covers offs batch"
        and w: "wrote seen (batch_outputs E cfg batch vs) ?r0 r1"
        using en ok by auto
      obtain ok2 b2 where aw: "await_all K ds (r_broker r1) = (ok2, b2)" by force
      note aw' = await_all_result [OF aw]
      let ?r2 = "r1\<lparr> r_broker := b2 \<rparr>"
      have u2: "unharmed seen ?r0 ?r2" using wrote_unharmed [OF w] aw' by (simp add: unharmed_def)
      consider (failed) "\<not> ok2" | (fault2) "ok2" "rc_fault cfg = Some AfterProduceBeforeCommit"
        | (commit) "ok2" "rc_fault cfg \<noteq> Some AfterProduceBeforeCommit" by blast
      then show ?thesis
      proof cases
        case failed
        then show ?thesis
          using run E bg True q ok aw abort [OF _ u2] by (simp add: process_batch_def)
      next
        case fault2
        then show ?thesis
          using run E bg True q ok aw u2 harm by (auto simp: process_batch_def)
      next
        case commit
        have t: "txn (seen (r_broker ?r2)) = Some (batch_outputs E cfg batch vs, Map.empty)"
          using w b aw' commit(1) by (simp add: wrote_def)
        have d: "durable (seen (r_broker ?r2)) = durable (seen (r_broker r))"
          using harm [of ?r2] u2 unfolding unharmed_def by blast
        have "commit_batch E offs ?r2 = (res, r')"
          using run E bg True q ok aw commit by (simp add: process_batch_def)
        note cb = commit_batch_result [OF E cov t this]
        have "unharmed seen ?r2 r' \<longleftrightarrow> unharmed seen r r'"
          unfolding unharmed_def d by (rule refl)
        moreover have "(committed (seen (r_broker ?r2)) @ batch_outputs E cfg batch vs,
            group_offsets (seen (r_broker ?r2)) ++ resume_at batch) =
            batch_step E cfg batch vs (durable (seen (r_broker r)))"
          using d by (simp add: batch_step_def durable_def)
        ultimately show ?thesis using cb vs
          by (auto split: sum.splits process_outcome.splits)
      qed
    qed
  qed
qed

end

end
