(* ===== verification/Relay_Run.thy ===== *)
theory Relay_Run
  imports Relay_Batch
begin

text \<open>
  Runs of the relay. \<open>batch_log\<close> is the abstract relay: a log of batches, each of which makes one
  atomic step on what is durable or none at all. Every run of the loop is such a log over the
  records it read, in the order it read them; when no call fails, every batch is committed.
\<close>

section \<open>The abstract relay\<close>

type_synonym batch_entry = "pending_record list \<times> verdict list option"

inductive batch_log ::
  "('c, 'b) relay_env \<Rightarrow> relay_cfg \<Rightarrow> (verdict \<Rightarrow> bool) \<Rightarrow> out_record list \<times> offsets \<Rightarrow> batch_entry list \<Rightarrow>
     out_record list \<times> offsets \<Rightarrow> bool"
  for E cfg Q
where
  log_empty: "batch_log E cfg Q d [] d"
| log_committed: "batch_log E cfg Q (batch_step E cfg ps vs d) h d' \<Longrightarrow> ps \<noteq> [] \<Longrightarrow>
    verdicts_ok cfg Q ps vs \<Longrightarrow> batch_log E cfg Q d ((ps, Some vs) # h) d'"
| log_skipped: "batch_log E cfg Q d h d' \<Longrightarrow> ps \<noteq> [] \<Longrightarrow> batch_log E cfg Q d ((ps, None) # h) d'"

inductive_simps batch_log_simps [simp]:
  "batch_log E cfg Q d [] d'"
  "batch_log E cfg Q d ((ps, Some vs) # h) d'"
  "batch_log E cfg Q d ((ps, None) # h) d'"

definition batches :: "batch_entry list \<Rightarrow> pending_record list" where
  "batches h = concat (map fst h)"

lemma batches_simps [simp]: "batches [] = []" "batches (e # h) = fst e @ batches h"
  by (simp_all add: batches_def)

text \<open>What a log leaves durable: the outputs of its committed batches, in order.\<close>

fun log_outputs :: "('c, 'b) relay_env \<Rightarrow> relay_cfg \<Rightarrow> batch_entry list \<Rightarrow> out_record list" where
  "log_outputs E cfg [] = []"
| "log_outputs E cfg ((ps, Some vs) # h) = batch_outputs E cfg ps vs @ log_outputs E cfg h"
| "log_outputs E cfg ((ps, None) # h) = log_outputs E cfg h"

lemma batch_log_outputs: "batch_log E cfg Q d h d' \<Longrightarrow> fst d' = fst d @ log_outputs E cfg h"
  by (induction rule: batch_log.induct) (auto simp: batch_step_def)

fun messages :: "select_event list \<Rightarrow> raw_message list" where
  "messages [] = []"
| "messages (Message m # evs) = m # messages evs"
| "messages (_ # evs) = messages evs"

lemma count_metric_broker [simp]:
  "r_broker (count_metric f r) = r_broker r" "holds I (count_metric f r) = holds I r"
  by (simp_all add: count_metric_def holds_def)

lemma flush_batch_holds:
  assumes "body_keeps E cfg I Q" "holds I r" "flush_batch E cfg ps r = (res, r')"
  shows "holds I r'"
  using process_batch_holds [OF assms(1,2), of ps] assms(3)
  by (auto simp: flush_batch_def split: prod.splits sum.splits process_outcome.splits)

section \<open>Runs refine the abstract relay\<close>

context kafka_service
begin

lemma flush_batch_result:
  assumes E: "e_kafka E = K" and keeps: "body_keeps E cfg I Q" and inv: "holds I r"
    and run: "flush_batch E cfg ps r = (res, r')" and ne: "ps \<noteq> []"
  obtains (committed) vs where "verdicts_ok cfg Q ps vs"
      "durable (seen (r_broker r')) = batch_step E cfg ps vs (durable (seen (r_broker r)))"
  | (skipped) "durable (seen (r_broker r')) = durable (seen (r_broker r))"
proof -
  obtain res1 r1 where p: "process_batch E cfg ps r = (res1, r1)" by force
  have b: "r_broker r' = r_broker r1"
    using run p by (auto simp: flush_batch_def split: sum.splits process_outcome.splits)
  show ?thesis
    using process_batch_result [OF E keeps inv p] that b by (auto simp: unharmed_def)
qed

text \<open>A flush extends the log by one batch.\<close>

lemma flush_batch_log:
  assumes E: "e_kafka E = K" and keeps: "body_keeps E cfg I Q" and inv: "holds I r"
    and run: "flush_batch E cfg ps r = (res, r')" and ne: "ps \<noteq> []"
  obtains v where "\<And>h d. batch_log E cfg Q (durable (seen (r_broker r'))) h d \<Longrightarrow>
      batch_log E cfg Q (durable (seen (r_broker r))) ((ps, v) # h) d"
proof (cases rule: flush_batch_result [OF E keeps inv run ne])
  case (1 vs)
  then show ?thesis using that [of "Some vs"] ne by auto
next
  case 2
  then show ?thesis using that [of None] ne by auto
qed

lemma run_loop_log:
  assumes E: "e_kafka E = K" and keeps: "body_keeps E cfg I Q"
  shows "run_loop E cfg evs batch n r = (res, r') \<Longrightarrow> holds I r \<Longrightarrow>
    \<exists>h rest. batch_log E cfg Q (durable (seen (r_broker r))) h (durable (seen (r_broker r'))) \<and>
      batch @ map pending_of (messages evs) = batches h @ rest \<and>
      (\<forall>b. res = Waiting b \<longrightarrow> rest = b)"
proof (induction evs arbitrary: batch n r)
  case Nil
  then show ?case by (intro exI [of _ "[]"] exI [of _ batch]) auto
next
  case (Cons ev evs)
  have flush: ?case
    if ne: "ps \<noteq> []" and f: "flush_batch E cfg ps r0 = (x, r1)"
      and r0: "r_broker r0 = r_broker r" "holds I r0"
      and parts: "batch @ map pending_of (messages (ev # evs)) = ps @ later"
      and go: "run_loop E cfg evs [] 0 r1 = (res, r') \<and> later = map pending_of (messages evs) \<or>
        (\<exists>e. res = Returned e) \<and> r' = r1" for ps x r0 r1 later
  proof -
    obtain v where v: "\<And>h d. batch_log E cfg Q (durable (seen (r_broker r1))) h d \<Longrightarrow>
        batch_log E cfg Q (durable (seen (r_broker r))) ((ps, v) # h) d"
      using flush_batch_log [OF E keeps r0(2) f ne] r0(1) by metis
    have r1: "holds I r1" by (rule flush_batch_holds [OF keeps r0(2) f])
    from go show ?thesis
    proof
      assume "run_loop E cfg evs [] 0 r1 = (res, r') \<and> later = map pending_of (messages evs)"
      then obtain h rest where "batch_log E cfg Q (durable (seen (r_broker r1))) h (durable (seen (r_broker r')))"
        "later = batches h @ rest" "\<forall>b. res = Waiting b \<longrightarrow> rest = b"
        using Cons.IH [of "[]" 0 r1] r1 by auto
      then show ?thesis using v parts by (intro exI [of _ "(ps, v) # h"] exI [of _ rest]) auto
    next
      assume "(\<exists>e. res = Returned e) \<and> r' = r1"
      then show ?thesis
        using v [OF log_empty] parts by (intro exI [of _ "[(ps, v)]"] exI [of _ later]) auto
    qed
  qed
  show ?case
  proof (cases ev)
    case Shutdown
    show ?thesis
    proof (cases "batch = []")
      case True
      with Cons.prems Shutdown show ?thesis
        by (intro exI [of _ "[]"] exI [of _ "map pending_of (messages evs)"]) auto
    next
      case False
      obtain x r1 where f: "flush_batch E cfg batch r = (x, r1)" by force
      with Cons.prems Shutdown False show ?thesis
        by (intro flush [OF False f]) (auto split: sum.splits)
    qed
  next
    case Linger
    show ?thesis
    proof (cases "batch = []")
      case True
      with Cons.prems Linger Cons.IH [of batch n r] show ?thesis by simp
    next
      case False
      obtain x r1 where f: "flush_batch E cfg batch r = (x, r1)" by force
      with Cons.prems Linger False show ?thesis
        by (intro flush [OF False f]) (auto split: sum.splits)
    qed
  next
    case RecvError
    with Cons.prems show ?thesis
      by (intro exI [of _ "[]"] exI [of _ "batch @ map pending_of (messages evs)"]) auto
  next
    case (Message m)
    let ?r1 = "count_metric inc_relay_records r"
    obtain x r2 where f: "flush_batch E cfg (batch @ [pending_of m]) ?r1 = (x, r2)" by force
    show ?thesis
    proof (cases "max 1 (rc_max_batch_bytes cfg) \<le> n + rec_bytes m \<or>
        max 1 (rc_max_batch_records cfg) \<le> length (batch @ [pending_of m])")
      case True
      with Cons.prems Message f show ?thesis
        by (intro flush [OF _ f]) (auto simp: Let_def split: sum.splits)
    next
      case False
      then have "run_loop E cfg evs (batch @ [pending_of m]) (n + rec_bytes m) ?r1 = (res, r')"
        using Cons.prems Message by (auto simp: Let_def split: if_splits)
      from Cons.IH [OF this] Message Cons.prems(2) show ?thesis by simp
    qed
  qed
qed

end

section \<open>When no call fails\<close>

definition reliable :: "'b kafka \<Rightarrow> bool" where
  "reliable K \<longleftrightarrow>
     (\<forall>b. fst (k_begin K b) \<and> k_group_metadata K b \<and> fst (k_commit K b)) \<and>
     (\<forall>r b. fst (k_send K r b) \<noteq> None) \<and> (\<forall>d b. fst (k_await K d b)) \<and>
     (\<forall>l b. fst (k_send_offsets K l b))"

definition smooth :: "('c, 'b) relay_env \<Rightarrow> relay_cfg \<Rightarrow> bool" where
  "smooth E cfg \<longleftrightarrow> reliable (e_kafka E) \<and> (\<forall>m. e_serialize E m \<noteq> None) \<and> rc_fault cfg = None"

lemma fst_True: "fst p \<Longrightarrow> \<exists>b. p = (True, b)"
  by (cases p) simp

lemma reliable_calls:
  assumes "reliable K"
  shows "\<exists>b'. k_begin K b = (True, b')" "\<exists>b'. k_commit K b = (True, b')"
    "\<exists>b'. k_await K d b = (True, b')" "\<exists>b'. k_send_offsets K l b = (True, b')"
    "\<exists>t b'. k_send K x b = (Some t, b')"
proof -
  show "\<exists>t b'. k_send K x b = (Some t, b')"
    using assms unfolding reliable_def by (metis not_Some_eq prod.exhaust_sel)
qed (rule fst_True, use assms in \<open>simp add: reliable_def\<close>)+

lemma smooth_produce:
  assumes "smooth E cfg"
  shows "\<exists>d r'. produce E out r = (Inr d, r')"
proof -
  obtain t b where "k_send (e_kafka E) out (r_broker r) = (Some t, b)"
    using reliable_calls(5) [of "e_kafka E" out "r_broker r"] assms unfolding smooth_def by blast
  then show ?thesis by (simp add: produce_def)
qed

lemma smooth_produce_only: "smooth E cfg \<Longrightarrow> \<exists>ds r'. produce_only E cfg c out oc s q r = (Inr (Produced, ds), r')"
  using smooth_produce [of E cfg out r] by (auto simp: produce_only_def)

lemma smooth_discovery: "smooth E cfg \<Longrightarrow> \<exists>ds r'. produce_discovery E cfg c b s r = (Inr (Produced, ds), r')"
proof (cases s)
  case (Provisional cand)
  assume sm: "smooth E cfg"
  obtain d where "e_serialize E \<lparr> dm_cand_id = candidate_str cand, dm_payload = b,
      dm_source = topic c, dm_cursor = c \<rparr> = Some d"
    using sm by (auto simp: smooth_def)
  then show ?thesis
    using Provisional sm smooth_produce [OF sm, of "\<lparr> o_topic = rc_discovery_topic cfg, o_partition = None,
        o_key = Some (candidate_str cand), o_payload = Some d, o_headers = [] \<rparr>" r]
    by (auto simp: produce_discovery_def smooth_def)
qed (auto simp: produce_discovery_def)

lemma smooth_classify:
  assumes "smooth E cfg"
  shows "\<exists>ds r'. classify_and_produce E cfg p b drift r = (Inr (Produced, ds), r')"
proof -
  obtain c m where c: "classify (e_digests E) (e_lru E) (e_resolve E (r_tick r)) (topic (p_cursor p)) b
      (rc_limits cfg) (r_matcher r) = (c, m)" by force
  define r1 where "r1 = emit_stream_event E cfg (p_cursor p) (stream_outcome_of (c_schema_ref c))
    (header_value (c_schema_ref c)) (map_option quarantine_reason_value (c_quarantine c))
    (c_fields_count c) (r\<lparr> r_matcher := m, r_settle := settle_after_record (r_settle r)
      (topic (p_cursor p)) (case c_schema_ref c of Known i \<Rightarrow> Some i | _ \<Rightarrow> None) drift \<rparr>)"
  obtain ds r2 where d: "produce_discovery E cfg (p_cursor p) b (c_schema_ref c) r1 = (Inr (Produced, ds), r2)"
    using smooth_discovery [OF assms] by blast
  obtain t r3 where "produce E (classified_output cfg p b (c_schema_ref c) (c_quarantine c)) r2 = (Inr t, r3)"
    using smooth_produce [OF assms] by blast
  with d show ?thesis by (simp add: classify_and_produce_def Let_def c r1_def)
qed

lemma smooth_body:
  assumes "smooth E cfg"
  shows "\<exists>ds r'. run_transaction_body E cfg p r = (Inr (Produced, ds), r')"
proof -
  obtain d s where "settle_before (r_settle r) (topic (p_cursor p)) = (d, s)" by force
  then show ?thesis
    using smooth_produce_only [OF assms] smooth_classify [OF assms]
    by (cases "p_payload p"; cases d) (auto simp: run_transaction_body_def Let_def)
qed

lemma smooth_enqueue:
  "smooth E cfg \<Longrightarrow> \<exists>o' ds' r'. enqueue_batch E cfg ps offs ds r = (Inr (Produced, o', ds'), r')"
proof (induction ps arbitrary: offs ds r)
  case (Cons p ps)
  obtain ds1 r1 where "run_transaction_body E cfg p r = (Inr (Produced, ds1), r1)"
    using smooth_body [OF Cons.prems] by blast
  then show ?case using Cons by (simp add: Let_def)
qed simp

lemma smooth_await: "reliable K \<Longrightarrow> \<exists>b'. await_all K ds b = (True, b')"
proof (induction ds arbitrary: b)
  case (Cons d ds)
  then obtain b1 where "k_await K d b = (True, b1)"
    using reliable_calls(3) [of K d b] by blast
  then show ?case using Cons by simp
qed simp

lemma smooth_commit:
  assumes "smooth E cfg"
  shows "\<exists>r'. commit_batch E offs r = (Inr Committed, r')"
proof -
  let ?l = "map (\<lambda>(k, m). (k, m + 1)) offs"
  have r: "reliable (e_kafka E)" using assms by (simp add: smooth_def)
  then obtain b where b: "k_send_offsets (e_kafka E) ?l (r_broker r) = (True, b)"
    using reliable_calls(4) [of "e_kafka E" ?l "r_broker r"] by blast
  from r obtain b1 where "k_commit (e_kafka E) b = (True, b1)"
    using reliable_calls(2) [of "e_kafka E" b] by blast
  with b r show ?thesis by (simp add: commit_batch_def Let_def reliable_def)
qed

lemma smooth_batch:
  assumes "smooth E cfg"
  shows "\<exists>r'. process_batch E cfg ps r = (Inr Committed, r')"
proof -
  have rel: "reliable (e_kafka E)" "rc_fault cfg = None" using assms by (simp_all add: smooth_def)
  then obtain b where b: "k_begin (e_kafka E) (r_broker r) = (True, b)"
    using reliable_calls(1) [of "e_kafka E" "r_broker r"] by blast
  obtain offs ds r1 where q: "enqueue_batch E cfg ps [] [] (r\<lparr> r_broker := b, r_transaction_open := True \<rparr>)
      = (Inr (Produced, offs, ds), r1)" using smooth_enqueue [OF assms] by blast
  obtain b1 where "await_all (e_kafka E) ds (r_broker r1) = (True, b1)"
    using smooth_await [OF rel(1), of ds "r_broker r1"] by blast
  with b q rel smooth_commit [OF assms] show ?thesis by (simp add: process_batch_def)
qed

lemma smooth_flush:
  assumes "smooth E cfg"
  shows "\<exists>r'. flush_batch E cfg ps r = (Inr (), r')"
  using smooth_batch [OF assms, of ps r] by (auto simp: flush_batch_def)

context kafka_service
begin

lemma smooth_flush_commits:
  assumes E: "e_kafka E = K" and keeps: "body_keeps E cfg I Q" and inv: "holds I r" and sm: "smooth E cfg"
  obtains vs r' where "flush_batch E cfg ps r = (Inr (), r')" "verdicts_ok cfg Q ps vs"
    "durable (seen (r_broker r')) = batch_step E cfg ps vs (durable (seen (r_broker r)))" "holds I r'"
proof -
  obtain r1 where p: "process_batch E cfg ps r = (Inr Committed, r1)" using smooth_batch [OF sm] by blast
  then have "flush_batch E cfg ps r = (Inr (), count_metric (record_relay_transaction ''committed'') r1)"
    by (simp add: flush_batch_def)
  then show ?thesis
    using process_batch_result [OF E keeps inv p] process_batch_holds [OF keeps inv, of ps] p that
    by auto
qed

text \<open>
  Liveness: a run over any messages that ends with the shutdown signal commits a batch log of
  exactly those messages, and returns.
\<close>

lemma smooth_run:
  assumes E: "e_kafka E = K" and keeps: "body_keeps E cfg I Q" and sm: "smooth E cfg"
  shows "set evs \<subseteq> {Linger} \<union> range Message \<Longrightarrow> holds I r \<Longrightarrow>
    \<exists>h r'. run_loop E cfg (evs @ [Shutdown]) batch n r = (Returned None, r') \<and>
      batch_log E cfg Q (durable (seen (r_broker r))) h (durable (seen (r_broker r'))) \<and>
      None \<notin> snd ` set h \<and> batches h = batch @ map pending_of (messages evs)"
proof (induction evs arbitrary: batch n r)
  case Nil
  show ?case
  proof (cases "batch = []")
    case True
    then show ?thesis by (intro exI [of _ "[]"]) auto
  next
    case False
    obtain vs r' where "flush_batch E cfg batch r = (Inr (), r')" "verdicts_ok cfg Q batch vs"
      "durable (seen (r_broker r')) = batch_step E cfg batch vs (durable (seen (r_broker r)))"
      using smooth_flush_commits [OF E keeps Nil.prems(2) sm] by blast
    with False show ?thesis by (intro exI [of _ "[(batch, Some vs)]"]) auto
  qed
next
  case (Cons ev evs)
  note IH = Cons.IH
  have flush: ?case if ne: "ps \<noteq> []" and r0: "r_broker r0 = r_broker r" "holds I r0"
    and parts: "batch @ map pending_of (messages (ev # evs)) = ps @ map pending_of (messages evs)"
    and go: "\<And>r1. flush_batch E cfg ps r0 = (Inr (), r1) \<Longrightarrow>
      run_loop E cfg ((ev # evs) @ [Shutdown]) batch n r = run_loop E cfg (evs @ [Shutdown]) [] 0 r1" for ps r0
  proof -
    obtain vs r1 where f: "flush_batch E cfg ps r0 = (Inr (), r1)" "verdicts_ok cfg Q ps vs"
      "durable (seen (r_broker r1)) = batch_step E cfg ps vs (durable (seen (r_broker r)))" "holds I r1"
      using smooth_flush_commits [OF E keeps r0(2) sm] r0(1) by metis
    obtain h r' where "run_loop E cfg (evs @ [Shutdown]) [] 0 r1 = (Returned None, r')"
      "batch_log E cfg Q (durable (seen (r_broker r1))) h (durable (seen (r_broker r')))"
      "None \<notin> snd ` set h" "batches h = map pending_of (messages evs)"
      using IH [where batch = "[]" and n = 0 and r = r1] Cons.prems f(4) by auto
    with f go [OF f(1)] ne parts show ?thesis
      by (intro exI [of _ "(ps, Some vs) # h"] exI [of _ r']) auto
  qed
  consider (linger) "ev = Linger" | (msg) m where "ev = Message m" using Cons.prems by auto
  then show ?case
  proof cases
    case linger
    show ?thesis
    proof (cases "batch = []")
      case True
      with linger IH [where batch = "[]" and n = n and r = r] Cons.prems show ?thesis by simp
    next
      case False
      show ?thesis by (rule flush [OF False, of r]) (use linger False Cons.prems(2) in auto)
    qed
  next
    case (msg m)
    let ?r1 = "count_metric inc_relay_records r"
    show ?thesis
    proof (cases "max 1 (rc_max_batch_bytes cfg) \<le> n + rec_bytes m \<or>
        max 1 (rc_max_batch_records cfg) \<le> length (batch @ [pending_of m])")
      case True
      show ?thesis
        by (rule flush [of "batch @ [pending_of m]" ?r1]) (use msg True Cons.prems(2) in \<open>auto simp: Let_def\<close>)
    next
      case False
      with msg have "run_loop E cfg ((ev # evs) @ [Shutdown]) batch n r =
          run_loop E cfg (evs @ [Shutdown]) (batch @ [pending_of m]) (n + rec_bytes m) ?r1"
        by (auto simp: Let_def)
      with msg IH [where batch = "batch @ [pending_of m]" and n = "n + rec_bytes m" and r = ?r1] Cons.prems show ?thesis by simp
    qed
  qed
qed

end

end
