(* ===== verification/Relay_Trust.thy ===== *)
theory Relay_Trust
  imports Relay_Run Settle
begin

text \<open>
  Where the schema ids of the relay's tags come from: only the registry. A property of schema
  ids that every answer of the registry has is kept by the matcher's cache and by the settle
  state, and so by every verdict of a run.
\<close>

definition settle_ids :: "(schema_id \<Rightarrow> bool) \<Rightarrow> settle_state \<Rightarrow> bool" where
  "settle_ids P Z \<longleftrightarrow> (\<forall>s e i. per_source Z s = Some e \<longrightarrow> known e = Some i \<longrightarrow> P i)"

definition ids_from :: "('c \<Rightarrow> bytes \<Rightarrow> schema_id option) \<Rightarrow> (schema_id \<Rightarrow> bool) \<Rightarrow> 'c relay_inv" where
  "ids_from entries P c Z \<longleftrightarrow> (\<forall>k i. entries c k = Some i \<longrightarrow> P i) \<and> settle_ids P Z"

definition known_ok :: "(schema_id \<Rightarrow> bool) \<Rightarrow> verdict \<Rightarrow> bool" where
  "known_ok P v \<longleftrightarrow> (\<forall>i. fst v = Known i \<longrightarrow> P i)"

lemma settle_ids_entry: "settle_ids P Z \<Longrightarrow> known (entry_or_default Z s) = Some i \<Longrightarrow> P i"
  by (auto simp: settle_ids_def entry_or_default_def source_settle_default_def split: option.splits)

lemma settle_ids_put:
  "settle_ids P Z \<Longrightarrow> (\<And>i. known e = Some i \<Longrightarrow> P i) \<Longrightarrow> settle_ids P (put_source s e Z)"
  by (auto simp: settle_ids_def put_source_def split: if_splits)

lemma settle_before_ids:
  assumes Z: "settle_ids P Z" and b: "settle_before Z s = (d, Z')"
  shows "settle_ids P Z' \<and> (\<forall>i. d = FastPath i \<longrightarrow> P i)"
proof -
  note e = settle_ids_entry [OF Z, of s]
  have put: "settle_ids P (put_source s x Z)" if "known x = known (entry_or_default Z s)" for x
    by (rule settle_ids_put [OF Z]) (use that e in simp)
  show ?thesis
    using b Z e by (auto simp: settle_before_def Let_def intro!: put split: if_splits option.splits)
qed

lemma settle_after_ids:
  assumes Z: "settle_ids P Z" and k: "\<And>i. k = Some i \<Longrightarrow> P i"
  shows "settle_ids P (settle_after_record Z s k drift)"
proof -
  define e where "e = entry_or_default Z s"
  have e: "P i" if "known e = Some i" for i
    using settle_ids_entry [OF Z] that by (simp add: e_def)
  have n: "P i" if "known (settle_note (st_cfg Z) k drift e) = Some i" for i
    using that e k by (auto simp: settle_note_def Let_def split: option.splits if_splits)
  show ?thesis
    unfolding settle_after_record_def e_def [symmetric]
    using Z settle_ids_put [OF Z n] by simp
qed

lemma produce_only_holds: "produce_only E cfg c out oc s q r = (res, r') \<Longrightarrow> holds I r' = holds I r"
  by (auto simp: produce_only_def produce_def holds_def split: prod.splits sum.splits)

lemma produce_holds [simp]: "holds I (snd (produce E out r)) = holds I r"
  by (simp add: produce_def holds_def split: prod.split)

lemma produce_discovery_holds [simp]: "holds I (snd (produce_discovery E cfg c b s r)) = holds I r"
proof -
  have "holds I r1 = holds I r" if "produce E out r = (x, r1)" for out x r1
    using produce_holds [of I E out r] that by simp
  then show ?thesis
    by (auto simp: produce_discovery_def split: schema_ref.split option.split prod.split sum.split)
qed

lemma classify_and_produce_holds:
  assumes "classify_and_produce E cfg p b drift r = (res, r')"
    and "classify (e_digests E) (e_lru E) (e_resolve E (r_tick r)) (topic (p_cursor p)) b
      (rc_limits cfg) (r_matcher r) = (c, m)"
  shows "holds I r' \<longleftrightarrow> I (m_lru m) (settle_after_record (r_settle r) (topic (p_cursor p))
    (case c_schema_ref c of Known i \<Rightarrow> Some i | _ \<Rightarrow> None) drift)"
proof -
  define r1 where "r1 = emit_stream_event E cfg (p_cursor p) (stream_outcome_of (c_schema_ref c))
    (header_value (c_schema_ref c)) (map_option quarantine_reason_value (c_quarantine c))
    (c_fields_count c) (r\<lparr> r_matcher := m, r_settle := settle_after_record (r_settle r)
      (topic (p_cursor p)) (case c_schema_ref c of Known i \<Rightarrow> Some i | _ \<Rightarrow> None) drift \<rparr>)"
  obtain x r2 where d: "produce_discovery E cfg (p_cursor p) b (c_schema_ref c) r1 = (x, r2)" by force
  have r2: "holds I r2 = holds I r1" using produce_discovery_holds [of I E cfg _ _ _ r1] d by (metis snd_conv)
  have r3: "holds I r3 = holds I r2" if "produce E out r2 = (y, r3)" for out y r3
    using produce_holds [of I E out r2] that by simp
  have "(res, r') = (case (x, r2) of
           (Inl e, r2) \<Rightarrow> (Inl e, r2)
         | (Inr (Fault, ds), r2) \<Rightarrow> (Inr (Fault, ds), r2)
         | (Inr (Produced, ds), r2) \<Rightarrow>
             (case produce E (classified_output cfg p b (c_schema_ref c) (c_quarantine c)) r2 of
                (Inl e, r3) \<Rightarrow> (Inl e, r3)
              | (Inr d, r3) \<Rightarrow> (Inr (Produced, ds @ [d]), r3)))"
    using assms(1) unfolding classify_and_produce_def Let_def assms(2) prod.case
    unfolding r1_def [symmetric] d by simp
  then have "holds I r' = holds I r1"
    using r2 r3 by (auto split: sum.splits prod.splits transaction_body.splits)
  then show ?thesis by (simp add: r1_def holds_def)
qed

context lru_cache
begin

lemma ids_body_keeps:
  assumes C: "e_lru E = C"
    and reg: "\<And>n sm d i. e_resolve E n (bucket_key (d_sha256 (e_digests E)) (d_hex (e_digests E)) sm)
      (schema_id_from_digest (d_base32 (e_digests E)) d) = Inr (Some i) \<Longrightarrow> P i"
  shows "body_keeps E cfg (ids_from entries P) (known_ok P)"
  unfolding body_keeps_def
proof (intro allI impI)
  fix p r res r'
  assume inv: "holds (ids_from entries P) r" and run: "run_transaction_body E cfg p r = (res, r')"
  have Z: "settle_ids P (r_settle r)" and L: "\<And>k i. entries (m_lru (r_matcher r)) k = Some i \<Longrightarrow> P i"
    using inv by (auto simp: holds_def ids_from_def)
  obtain d settle where s: "settle_before (r_settle r) (topic (p_cursor p)) = (d, settle)" by force
  note sb = settle_before_ids [OF Z s]
  have rs: "holds (ids_from entries P) (r\<lparr> r_settle := settle \<rparr>)"
    using sb L by (simp add: holds_def ids_from_def)
  have cls: "holds (ids_from entries P) r' \<and> known_ok P (classify_verdict E cfg p b r)"
    if "classify_and_produce E cfg p b drift (r\<lparr> r_settle := settle \<rparr>) = (res, r')" for b drift
  proof -
    obtain c m where c: "classify (e_digests E) (e_lru E) (e_resolve E (r_tick r)) (topic (p_cursor p)) b
      (rc_limits cfg) (r_matcher r) = (c, m)" by force
    have k: "(\<forall>i. c_schema_ref c = Known i \<longrightarrow> P i) \<and> (\<forall>k i. entries (m_lru m) k = Some i \<longrightarrow> P i)"
      using c unfolding C by (rule classify_known) (use L reg in auto)
    have sa: "settle_ids P (settle_after_record settle (topic (p_cursor p))
        (case c_schema_ref c of Known i \<Rightarrow> Some i | _ \<Rightarrow> None) drift)"
      by (rule settle_after_ids) (use sb k in \<open>auto split: schema_ref.splits\<close>)
    have "holds (ids_from entries P) r'"
      using classify_and_produce_holds [OF that, of c m "ids_from entries P"] c sa k
      by (simp add: ids_from_def)
    moreover have "known_ok P (classify_verdict E cfg p b r)"
      using k by (simp add: known_ok_def classify_verdict_def c)
    ultimately show ?thesis by blast
  qed
  show "holds (ids_from entries P) r' \<and> known_ok P (body_verdict E cfg p r)"
  proof (cases "p_payload p")
    case None
    then show ?thesis
      using run inv by (auto simp: run_transaction_body_def Let_def body_verdict_def known_ok_def
          dest: produce_only_holds)
  next
    case (Some b)
    show ?thesis
    proof (cases "produce_cap cfg < length b")
      case True
      then show ?thesis
        using Some run inv by (auto simp: run_transaction_body_def Let_def body_verdict_def known_ok_def
            dest: produce_only_holds)
    next
      case False
      show ?thesis
      proof (cases d)
        case (FastPath i)
        then show ?thesis
          using Some False s run rs sb
          by (auto simp: run_transaction_body_def Let_def body_verdict_def known_ok_def
              dest: produce_only_holds)
      next
        case (Classify drift)
        then show ?thesis
          using Some False s run cls by (simp add: run_transaction_body_def Let_def body_verdict_def)
      qed
    qed
  qed
qed

text \<open>A new matcher and a new settle state hold no ids.\<close>

lemma ids_from_new: "ids_from entries P (m_lru (matcher_new C n m)) (settle_new cfg)"
  by (simp add: ids_from_def matcher_new_def new settle_ids_def settle_new_def)

end

end
