(* ===== verification/Relay_Properties.thy ===== *)
theory Relay_Properties
  imports Relay_Trust Vault_Contract Vault_Demo Fingerprint_Properties
begin

text \<open>
  A small deployment of the relay at which its theorems are instantiated: digests that send every
  shape to one identifier, the list cache, and two brokers in memory, one whose calls always
  succeed and one that follows a plan.
\<close>

section \<open>A broker that never fails\<close>

definition steady_kafka :: "broker_view kafka" where
  "steady_kafka =
     \<lparr> k_begin = (\<lambda>v. (True, v\<lparr> txn := Some ([], Map.empty) \<rparr>)),
       k_send = (\<lambda>r v. (Some 0, add_pending r v)),
       k_await = (\<lambda>_ v. (True, v)),
       k_group_metadata = (\<lambda>_. True),
       k_send_offsets = (\<lambda>l v. (True, add_offsets l v)),
       k_commit = (\<lambda>v. (True, applied v)),
       k_abort = (\<lambda>v. (True, v\<lparr> txn := None \<rparr>)) \<rparr>"

interpretation steady: kafka_service steady_kafka id
  by unfold_locales (auto simp: steady_kafka_def add_pending_def add_offsets_def split: option.split)

lemma steady_reliable: "reliable steady_kafka"
  by (simp add: reliable_def steady_kafka_def)

definition no_records :: broker_view where
  "no_records = \<lparr> committed = [], group_offsets = Map.empty, txn = None \<rparr>"

section \<open>Configuration and environment\<close>

definition demo_digests :: digests where
  "demo_digests = \<lparr> d_sha256 = (\<lambda>_. ''d''), d_hex = (\<lambda>_. ''aa''), d_base32 = (\<lambda>_. ''q'') \<rparr>"

definition demo_cfg :: relay_cfg where
  "demo_cfg =
     \<lparr> rc_brokers = ''b'', rc_group_id = ''g'', rc_raw_topic = ''raw'', rc_raw_topics = [],
       rc_tagged_topic = ''tagged'', rc_discovery_topic = ''disc'', rc_quarantine_topic = ''quar'',
       rc_transactional_id = ''t'', rc_limits = small_limits, rc_max_batch_records = 1,
       rc_max_batch_linger_ms = 5, rc_max_batch_bytes = 100, rc_max_message_bytes = 20000,
       rc_fault = None, rc_stream = False, rc_settle = default_settle_cfg \<rparr>"

definition demo_env :: "'b kafka \<Rightarrow> (list_cache, 'b) relay_env" where
  "demo_env K =
     \<lparr> e_digests = demo_digests, e_lru = list_lru,
       e_resolve = (\<lambda>_. store_resolve mem_redis demo_dec demo_vault),
       e_serialize = (\<lambda>m. Some (dm_cand_id m)), e_now = int, e_kafka = K \<rparr>"

definition demo_cursor :: "int \<Rightarrow> source_cursor" where
  "demo_cursor n = \<lparr> topic = ''raw'', partition = 0, offset = n \<rparr>"

text \<open>A deletion marker, and a document sent with a forged schema id.\<close>

definition demo_tombstone :: "int \<Rightarrow> raw_message" where
  "demo_tombstone n =
     \<lparr> raw_cursor = demo_cursor n, raw_key = Some ''k'', raw_payload = None, raw_headers = None \<rparr>"

definition demo_document :: raw_message where
  "demo_document =
     \<lparr> raw_cursor = demo_cursor 0, raw_key = Some ''k'', raw_payload = Some ''[1]'',
       raw_headers = Some [(''Deblob-Schema-Id'', Some ''forged''), (''trace'', Some ''7'')] \<rparr>"


lemma demo_id_text: "id_text demo_digests"
  by (simp add: id_text_def demo_digests_def to_ascii_lowercase_def to_ascii_lower_def id_char_def
      byte_val_def)

lemma demo_env_simps [simp]:
  "e_digests (demo_env K) = demo_digests" "e_lru (demo_env K) = list_lru"
  "e_resolve (demo_env K) n = store_resolve mem_redis demo_dec demo_vault"
  "e_kafka (demo_env K) = K" "e_serialize (demo_env K) m = Some (dm_cand_id m)"
  by (simp_all add: demo_env_def)

lemma demo_smooth: "smooth (demo_env steady_kafka) demo_cfg"
  by (simp add: smooth_def steady_reliable demo_cfg_def)

lemma demo_resolve_stored:
  "e_resolve (demo_env K) n (bucket_key s h sm) (schema_id_from_digest (d_base32 demo_digests) d) = Inr (Some i) \<Longrightarrow>
     stored (mem_view demo_vault) i"
  using memory.store_resolve_stored [OF demo_vault_ok [unfolded demo_def, simplified] demo_id_text] by simp

section \<open>One record\<close>



section \<open>A broker that follows a plan\<close>



text \<open>
  What the relay guarantees to its consumers, over every Kafka client that satisfies the
  documented behaviour of transactions (\<open>kafka_service\<close>) and every cache that satisfies that of
  the \<open>lru\<close> crate (\<open>lru_cache\<close>).
\<close>

section \<open>One record\<close>





section \<open>Runs\<close>

text \<open>C17: every run of the relay refines the abstract one: the records it read, in order, are cut
  into batches, each of which made one atomic step on what a committed reader sees (the outputs
  of all its records with the offsets past them) or no step at all; what is not in a batch yet
  is still pending.\<close>

theorem relay_refines_log:
  assumes "kafka_service (e_kafka E) seen" "run_relay E cfg evs m b = (res, r')"
  shows "\<exists>h rest. batch_log E cfg (\<lambda>_. True) (durable (seen b)) h (durable (seen (r_broker r'))) \<and>
    map pending_of (messages evs) = batches h @ rest \<and> (\<forall>ps. res = Waiting ps \<longrightarrow> rest = ps)"
  using kafka_service.run_loop_log [OF assms(1) refl body_keeps_trivial assms(2) [unfolded run_relay_def]]
  by simp

theorem relay_refines_log_witness:
  "\<exists>h rest res r'. run_relay (demo_env mem_kafka) demo_cfg [Message (demo_tombstone 0), Message demo_document]
       (matcher_new list_lru 4 metrics_new) (mem_kafka_empty [True, False]) = (res, r') \<and>
     batch_log (demo_env mem_kafka) demo_cfg (\<lambda>_. True) ([], Map.empty) h (durable (mk_view (r_broker r'))) \<and>
     [pending_of (demo_tombstone 0), pending_of demo_document] = batches h @ rest"
proof -
  obtain res r' where run: "run_relay (demo_env mem_kafka) demo_cfg
      [Message (demo_tombstone 0), Message demo_document] (matcher_new list_lru 4 metrics_new)
      (mem_kafka_empty [True, False]) = (res, r')" by force
  show ?thesis
    using relay_refines_log [OF _ run, of mk_view] mem_kafka.kafka_service_axioms run
    by (fastforce simp: mem_kafka_empty_def durable_def)
qed

text \<open>C18: when the broker accepts its calls, every message handed to the relay before it is shut
  down is committed, in order and once, and the relay returns without an error.\<close>

theorem relay_delivers_all:
  assumes "kafka_service (e_kafka E) seen" "smooth E cfg" "set evs \<subseteq> {Linger} \<union> range Message"
  shows "\<exists>h r'. run_relay E cfg (evs @ [Shutdown]) m b = (Returned None, r') \<and>
    batch_log E cfg (\<lambda>_. True) (durable (seen b)) h (durable (seen (r_broker r'))) \<and>
    None \<notin> snd ` set h \<and> batches h = map pending_of (messages evs)"
  using kafka_service.smooth_run [OF assms(1) refl body_keeps_trivial assms(2,3), of _ "[]" 0]
  unfolding run_relay_def by fastforce

theorem relay_delivers_all_witness:
  "\<exists>h r'. run_relay (demo_env steady_kafka) demo_cfg
       [Message (demo_tombstone 0), Linger, Message demo_document, Shutdown]
       (matcher_new list_lru 4 metrics_new) no_records = (Returned None, r') \<and>
     batches h = [pending_of (demo_tombstone 0), pending_of demo_document]"
  using relay_delivers_all [OF _ demo_smooth, of id
      "[Message (demo_tombstone 0), Linger, Message demo_document]" "matcher_new list_lru 4 metrics_new" no_records]
    steady.kafka_service_axioms
  by fastforce

text \<open>C20: a schema id in a tag is never invented: every record the relay tags as known, on the
  fast path, from the cache or by lookup, carries the id of a schema that the vault held at some
  time during the run.\<close>

theorem relay_known_stored:
  assumes "kafka_service (e_kafka E) seen" "lru_cache (e_lru E) entries" "redis_service R view"
    and "id_text (e_digests E)" "codec_ok (strings_codec D)" "vault_ok D (view (vault 0))"
    and "\<forall>n. vault_run R view D (vault n) (vault (Suc n))"
    and "\<forall>n. e_resolve E n = store_resolve R (base32_dec D) (vault n)"
    and "run_relay E cfg evs (matcher_new (e_lru E) cap ms) b = (res, r')"
  shows "\<exists>h. batch_log E cfg (\<lambda>v. \<forall>i. fst v = Known i \<longrightarrow> (\<exists>n. stored (view (vault n)) i))
    (durable (seen b)) h (durable (seen (r_broker r')))"
proof -
  let ?P = "\<lambda>i. \<exists>n. stored (view (vault n)) i"
  have ok: "vault_ok D (view (vault n))" for n
  proof (induction n)
    case (Suc n)
    from redis_service.vault_run_keeps [OF assms(3) spec [OF assms(7)] assms(5) Suc] show ?case by blast
  qed (rule assms(6))
  have "?P i" if "e_resolve E n (bucket_key (d_sha256 (e_digests E)) (d_hex (e_digests E)) sm)
      (schema_id_from_digest (d_base32 (e_digests E)) d) = Inr (Some i)" for n sm d i
    using redis_service.store_resolve_stored [OF assms(3) ok assms(4)] that assms(8) by metis
  note keeps = lru_cache.ids_body_keeps [OF assms(2) refl this]
  have start: "holds (ids_from entries ?P)
      \<lparr> r_matcher = matcher_new (e_lru E) cap ms, r_settle = settle_new (rc_settle cfg), r_broker = b,
        r_transaction_open = False, r_stream = [], r_tick = 0 \<rparr>"
    unfolding holds_def using lru_cache.ids_from_new [OF assms(2)] by simp
  show ?thesis
    using kafka_service.run_loop_log [OF assms(1) refl keeps assms(9) [unfolded run_relay_def] start]
    unfolding known_ok_def by fastforce
qed

theorem relay_known_stored_witness:
  "\<exists>h res r'. run_relay (demo_env steady_kafka) demo_cfg [Message demo_document]
       (matcher_new list_lru 4 metrics_new) no_records = (res, r') \<and>
     batch_log (demo_env steady_kafka) demo_cfg (known_ok (stored (mem_view demo_vault)))
       (durable no_records) h (durable (r_broker r'))"
proof -
  let ?E = "demo_env steady_kafka"
  obtain res r' where run: "run_relay ?E demo_cfg [Message demo_document]
      (matcher_new (e_lru ?E) 4 metrics_new) no_records = (res, r')" by force
  have k: "kafka_service (e_kafka ?E) id" and l: "lru_cache (e_lru ?E) list_entries"
    and i: "id_text (e_digests ?E)" and c: "codec_ok (strings_codec demo)"
    and v: "\<forall>n::nat. vault_run mem_redis mem_view demo demo_vault demo_vault"
    and e: "\<forall>n. e_resolve ?E n = store_resolve mem_redis (base32_dec demo) demo_vault"
    using steady.kafka_service_axioms list_cache.lru_cache_axioms demo_id_text
    by (simp_all add: demo_def lines_codec_ok vault_run_def)
  have "known_ok (stored (mem_view demo_vault)) =
      (\<lambda>v. \<forall>i. fst v = Known i \<longrightarrow> (\<exists>n::nat. stored (mem_view demo_vault) i))"
    by (simp add: known_ok_def fun_eq_iff)
  then show ?thesis
    using relay_known_stored [OF k l memory.redis_service_axioms i c demo_vault_ok v e run] run by auto
qed

section \<open>The hot path\<close>

text \<open>C21: the fast path repeats an earned verdict: when a record of a source is tagged without
  classification, the latest \<open>settle_after\<close> classified records of that source (at least two) all
  resolved to the schema it is tagged with, and fewer than \<open>sample_rate\<close> records of the source
  went by since the last classified one.\<close>

theorem fast_path_earned:
  assumes "settle_run (settle_new cfg) rs = (es, Z)" "events_of source es = before @ TookFast i # rest"
  shows "agreed (max 2 (unat (settle_after cfg))) i (rev before) \<and>
    Suc (length (takeWhile took_fast (rev before))) < unat (sample_rate cfg)"
proof -
  have "fast_ok (st_cfg Z) (events_of source (rev es @ []))" "st_cfg Z = cfg"
    using settle_inv_run [OF settle_inv_new assms(1)]
    by (auto simp: settle_inv_def settle_new_def)
  then have "fast_ok cfg (rev rest @ TookFast i # rev before)" using assms(2) by simp
  from fast_ok_append [OF this] show ?thesis by simp
qed

definition brisk_cfg :: settle_cfg where
  "brisk_cfg = \<lparr> enabled = True, settle_after = 2, sample_rate = 3, settle_sources = [''a''] \<rparr>"

lemma brisk_run:
  "fst (settle_run (settle_new brisk_cfg) [(''a'', Some i), (''a'', Some i), (''a'', Some i)]) =
     [(''a'', Verdict (Some i)), (''a'', Verdict (Some i)), (''a'', TookFast i)]"
  by (simp add: settle_step_def settle_before_def settle_after_record_def settle_note_def
      settle_active_def settle_new_def brisk_cfg_def source_settle_default_def entry_or_default_def
      put_source_def Let_def word_le_nat_alt word_less_nat_alt split: prod.split)

theorem fast_path_earned_witness:
  "agreed 2 (SchemaId ''sch_q'') [Verdict (Some (SchemaId ''sch_q'')), Verdict (Some (SchemaId ''sch_q''))] \<and>
     unat (sample_rate brisk_cfg) = 3"
proof -
  let ?i = "SchemaId ''sch_q''"
  obtain Z where run: "settle_run (settle_new brisk_cfg) [(''a'', Some ?i), (''a'', Some ?i), (''a'', Some ?i)] =
      ([(''a'', Verdict (Some ?i)), (''a'', Verdict (Some ?i)), (''a'', TookFast ?i)], Z)"
    using brisk_run [of ?i] by (metis prod.collapse)
  have "max 2 (unat (settle_after brisk_cfg)) = 2" "unat (sample_rate brisk_cfg) = 3"
    by (simp_all add: brisk_cfg_def)
  then show ?thesis
    using fast_path_earned [OF run, of "''a''" "[Verdict (Some ?i), Verdict (Some ?i)]" ?i "[]"] by simp
qed

text \<open>A published schema is recognised: after a publication succeeds, a payload whose shape it
  indexed, as the record's own or as a variant, is classified as a known, stored schema, whatever
  its source; and the same payload is then recognised without asking the registry.\<close>

theorem published_recognised:
  assumes "redis_service R view" "lru_cache C entries" "id_text D"
    and "codec_ok (strings_codec G)" "vault_ok G (view st)" "publish_ok (base32_dec G) rec bkey vs"
    and "publish R (schema_codec G) (strings_codec G) health rec al bkey vs ac re now st = (Inr v, st')"
    and "parse_bounded payload L = Inr nd" "sh = shape_of nd"
    and "entries (m_lru M) (fingerprint (d_sha256 D) sh) = None"
    and "(bucket_key (d_sha256 D) (d_hex D) (summarize sh),
        id_body (schema_id_from_digest (d_base32 D) (fingerprint (d_sha256 D) sh))) \<in>
      insert (bkey, id_body (rec_schema_id rec)) (set vs)"
    and "classify D C (store_resolve R (base32_dec G) st') source payload L M = (c, M')"
    and "classify D C resolve2 source2 payload L M' = (c2, M2)"
  shows "\<exists>t. c_schema_ref c = Known t \<and> stored (view st') t \<and> c2 = c"
proof -
  have inv': "vault_ok G (view st')"
    using redis_service.vault_step_keeps [OF assms(1) step_publish [OF assms(6,7)] assms(4,5)] by blast
  obtain t where t: "store_resolve R (base32_dec G) st' (bucket_key (d_sha256 D) (d_hex D) (summarize sh))
      (schema_id_from_digest (d_base32 D) (fingerprint (d_sha256 D) sh)) = Inr (Some t)"
    "stored (view st') t"
    using redis_service.publish_then_resolve [OF assms(1,5) inv' assms(3,7) refl refl assms(11)] by blast
  have run: "classify_shape D C (store_resolve R (base32_dec G) st') source sh M = (c, M')"
    using assms(8,9,12) by (simp add: classify_def)
  obtain hit c1 where g: "lru_get C (fingerprint (d_sha256 D) sh) (m_lru M) = (hit, c1)" by force
  have miss: "hit = None" using lru_cache.get [OF assms(2) g] assms(10) by simp
  have k: "c_schema_ref c = Known t"
    by (cases rule: classify_shape_cases [OF run g]) (use miss t in auto)
  then show ?thesis
    using t lru_cache.classify_again [OF assms(2,12) k assms(13)] by blast
qed

definition demo_shape :: shape where
  "demo_shape = shape_of (NodeArray [NodeNumber ''1''] False)"

definition demo_key :: bytes where
  "demo_key = bucket_key (d_sha256 demo_digests) (d_hex demo_digests) (summarize demo_shape)"

lemma demo_fp: "id_body (schema_id_from_digest (d_base32 demo_digests) d) = ''q''"
  by (simp add: id_body_from_digest demo_digests_def to_ascii_lowercase_def to_ascii_lower_def
      byte_val_def)

lemma demo_key_ok: "variants_ok [(demo_key, ''q'')]"
  using bucket_key_index_key [of "d_hex demo_digests" "d_sha256 demo_digests" "summarize demo_shape"]
  by (simp add: variants_ok_def demo_key_def demo_digests_def)

theorem published_recognised_witness:
  "\<exists>t m c. demo_publish (CHR ''q'') [(demo_key, ''q'')] mem_empty = (Inr 1, m) \<and>
     fst (classify demo_digests list_lru (store_resolve mem_redis demo_dec m) ''src'' ''[1]'' small_limits
       (matcher_new list_lru 4 metrics_new)) = c \<and> c_schema_ref c = Known t \<and> stored (mem_view m) t"
proof -
  let ?vs = "[(demo_key, ''q'')]" and ?M = "matcher_new list_lru 4 metrics_new"
  obtain m where pub: "demo_publish (CHR ''q'') ?vs mem_empty = (Inr 1, m)"
    using demo_published by blast
  obtain c M' where run: "classify demo_digests list_lru (store_resolve mem_redis demo_dec m) ''src'' ''[1]''
      small_limits ?M = (c, M')" by force
  obtain c2 M2 where run2: "classify demo_digests list_lru (\<lambda>_ _. Inr None) ''src'' ''[1]''
      small_limits M' = (c2, M2)" by force
  have "\<exists>t. c_schema_ref c = Known t \<and> stored (mem_view m) t \<and> c2 = c"
  proof (rule published_recognised [OF memory.redis_service_axioms list_cache.lru_cache_axioms demo_id_text,
        where G = demo and rec = "demo_record (CHR ''q'')" and vs = ?vs and st = mem_empty and st' = m
          and payload = "''[1]''" and L = small_limits and M = ?M and sh = demo_shape])
    show "codec_ok (strings_codec demo)" by (simp add: demo_def lines_codec_ok)
    show "vault_ok demo (mem_view mem_empty)" using demo_empty_ok by (simp add: demo_def)
    show "publish_ok (base32_dec demo) (demo_record (CHR ''q'')) demo_bucket ?vs"
      using demo_publish_ok [OF demo_key_ok] by (simp add: demo_def)
    show "publish mem_redis (schema_codec demo) (strings_codec demo) None (demo_record (CHR ''q'')) demo_alias
        demo_bucket ?vs ''me'' ''why'' 5 mem_empty = (Inr 1, m)"
      using pub by (simp add: demo_publish_def demo_def)
    show "parse_bounded ''[1]'' small_limits = Inr (NodeArray [NodeNumber ''1''] False)"
      by (rule small_documents)
    show "demo_shape = shape_of (NodeArray [NodeNumber ''1''] False)" by (rule demo_shape_def)
    show "list_entries (m_lru ?M) (fingerprint (d_sha256 demo_digests) demo_shape) = None"
      by (simp add: matcher_new_def list_lru_def list_entries_def)
    show "(bucket_key (d_sha256 demo_digests) (d_hex demo_digests) (summarize demo_shape),
        id_body (schema_id_from_digest (d_base32 demo_digests) (fingerprint (d_sha256 demo_digests) demo_shape)))
        \<in> insert (demo_bucket, id_body (rec_schema_id (demo_record (CHR ''q'')))) (set ?vs)"
      by (simp add: demo_fp demo_key_def)
    show "classify demo_digests list_lru (store_resolve mem_redis (base32_dec demo) m) ''src'' ''[1]''
        small_limits ?M = (c, M')" using run by (simp add: demo_def)
    show "classify demo_digests list_lru (\<lambda>_ _. Inr None) ''src'' ''[1]'' small_limits M' = (c2, M2)"
      by (rule run2)
  qed
  with pub run show ?thesis by auto
qed

section \<open>An aborted batch is not read again\<close>


end
