(* ===== verification/Evidence_Port.thy ===== *)
theory Evidence_Port
  imports Evidence_Facts "HOL-Library.Countable"
begin

text \<open>
  The trait \<open>EvidenceStore\<close> of \<open>deblob-core/src/ports.rs\<close>, through which the cold lane and the
  promoter reach the candidates: its operations as a record over an abstract state, what its
  clients rely on as the locale \<open>evidence_contract\<close>, and the store in Redis as its provider.
\<close>

section \<open>The trait\<close>

record 'st evidence_store =
  ev_upsert_candidate :: "candidate_record \<Rightarrow> 'st \<Rightarrow> (core_error + unit) \<times> 'st"
  ev_get_candidate :: "candidate_id \<Rightarrow> 'st \<Rightarrow> core_error + candidate_record option"
  ev_append_evidence :: "candidate_id \<Rightarrow> json \<Rightarrow> 'st \<Rightarrow> (core_error + unit) \<times> 'st"
  ev_set_state :: "candidate_id \<Rightarrow> candidate_state \<Rightarrow> 'st \<Rightarrow> (core_error + unit) \<times> 'st"
  ev_get_cluster :: "bytes \<Rightarrow> 'st \<Rightarrow> core_error + candidate_id option"
  ev_set_cluster :: "bytes \<Rightarrow> candidate_id \<Rightarrow> 'st \<Rightarrow> (core_error + unit) \<times> 'st"
  ev_add_variant :: "candidate_id \<Rightarrow> bytes \<Rightarrow> bytes \<Rightarrow> 'st \<Rightarrow> (core_error + unit) \<times> 'st"
  ev_get_variants :: "candidate_id \<Rightarrow> 'st \<Rightarrow> core_error + (bytes \<times> bytes) list"

text \<open>What may expire: a candidate, the name of a cluster, the variants of a candidate.\<close>

datatype expiry = CandidateKey candidate_id | ClusterKey bytes | VariantsKey candidate_id

text \<open>
  The contract, on three views of the state: the candidates, the clusters and the variants of a
  candidate. Any call may fail. One that writes is then executed or not, and one that reports
  success was executed; a read answers with the view or an error. \<open>changes\<close> are the steps
  that are not calls: the store drops an entry by itself, or others write elsewhere. \<open>valid\<close> candidate ids are those that the store can read back,
  and \<open>steady\<close> says that no call fails for reasons of its own.
\<close>

locale evidence_contract =
  fixes S :: "'st evidence_store"
    and valid :: "candidate_id \<Rightarrow> bool"
    and intact :: "'st \<Rightarrow> bool"
    and cand :: "'st \<Rightarrow> candidate_id \<Rightarrow> candidate_record option"
    and cluster :: "'st \<Rightarrow> bytes \<Rightarrow> candidate_id option"
    and variants :: "'st \<Rightarrow> candidate_id \<Rightarrow> (bytes \<times> bytes) set"
    and changes :: "expiry option \<Rightarrow> 'st \<Rightarrow> 'st \<Rightarrow> bool"
    and steady :: bool
  assumes get_candidate: "intact st \<Longrightarrow> ev_get_candidate S i st = Inr x \<Longrightarrow> x = cand st i"
    and get_cluster: "intact st \<Longrightarrow> ev_get_cluster S g st = Inr y \<Longrightarrow> y = cluster st g"
    and cluster_valid: "intact st \<Longrightarrow> cluster st g = Some i \<Longrightarrow> valid i"
    and get_variants: "ev_get_variants S i st = Inr l \<Longrightarrow> set l = variants st i"
    and upsert_candidate: "intact st \<Longrightarrow> ev_upsert_candidate S rec st = (res, st') \<Longrightarrow> intact st' \<and>
      (st' = st \<and> res \<noteq> Inr () \<or> cand st' = (cand st)(cand_id rec \<mapsto> rec) \<and>
       cluster st' = cluster st \<and> variants st' = variants st)"
    and set_cluster: "intact st \<Longrightarrow> valid i \<Longrightarrow> ev_set_cluster S g i st = (res, st') \<Longrightarrow> intact st' \<and>
      (st' = st \<and> res \<noteq> Inr () \<or> cand st' = cand st \<and>
       cluster st' = (cluster st)(g \<mapsto> i) \<and> variants st' = variants st)"
    and add_variant: "intact st \<Longrightarrow> CHR ''='' \<notin> set b \<Longrightarrow> ev_add_variant S i b f st = (res, st') \<Longrightarrow> intact st' \<and>
      (st' = st \<and> res \<noteq> Inr () \<or> cand st' = cand st \<and> cluster st' = cluster st \<and>
       variants st' = (variants st)(i := insert (b, f) (variants st i)))"
    and append_evidence: "intact st \<Longrightarrow> ev_append_evidence S i v st = (res, st') \<Longrightarrow>
      intact st' \<and> cand st' = cand st \<and> cluster st' = cluster st \<and> variants st' = variants st"
    and set_state: "intact st \<Longrightarrow> cand st i = Some rec \<Longrightarrow> cand_state rec \<noteq> RejectedState \<Longrightarrow>
      ev_set_state S i s st = (res, st') \<Longrightarrow> intact st' \<and>
      (st' = st \<and> res \<noteq> Inr () \<or> cand st' = (cand st)(i \<mapsto> rec\<lparr> cand_state := s \<rparr>) \<and>
       cluster st' = cluster st \<and> variants st' = variants st)"
    and changed: "intact st \<Longrightarrow> changes t st st' \<Longrightarrow> intact st' \<and>
      cand st' = (case t of Some (CandidateKey i) \<Rightarrow> (cand st)(i := None) | _ \<Rightarrow> cand st) \<and>
      cluster st' = (case t of Some (ClusterKey g) \<Rightarrow> (cluster st)(g := None) | _ \<Rightarrow> cluster st) \<and>
      variants st' = (case t of Some (VariantsKey i) \<Rightarrow> (variants st)(i := {}) | _ \<Rightarrow> variants st)"
    and steady_reads: "steady \<Longrightarrow> intact st \<Longrightarrow> \<exists>x. ev_get_candidate S i st = Inr x"
      "steady \<Longrightarrow> intact st \<Longrightarrow> \<exists>y. ev_get_cluster S g st = Inr y"
      "steady \<Longrightarrow> intact st \<Longrightarrow> \<exists>l. ev_get_variants S i st = Inr l"
    and steady_writes: "steady \<Longrightarrow> intact st \<Longrightarrow> fst (ev_upsert_candidate S rec st) = Inr ()"
      "steady \<Longrightarrow> intact st \<Longrightarrow> fst (ev_set_cluster S g i st) = Inr ()"
      "steady \<Longrightarrow> intact st \<Longrightarrow> fst (ev_add_variant S i b f st) = Inr ()"
      "steady \<Longrightarrow> intact st \<Longrightarrow> fst (ev_append_evidence S i v st) = Inr ()"
      "steady \<Longrightarrow> intact st \<Longrightarrow> cand st i = Some rec \<Longrightarrow> cand_state rec \<noteq> RejectedState \<Longrightarrow>
        fst (ev_set_state S i s st) = Inr ()"

section \<open>The store in Redis\<close>

text \<open>Each operation is a round trip, which may fail; \<open>set_state\<close> contains its two.\<close>

definition redis_evidence ::
  "'st redis \<Rightarrow> candidate_record codec \<Rightarrow> audit_stub codec \<Rightarrow> json codec \<Rightarrow> (bytes \<Rightarrow> bytes option) \<Rightarrow>
     nat \<Rightarrow> 'st evidence_store" where
  "redis_evidence R C A J b32 secs =
     \<lparr> ev_upsert_candidate = (\<lambda>rec. round_trip R RegistryUnavailable ''candidate_upsert''
         (\<lambda>st. (Inr (), upsert_candidate R C A secs rec st))),
       ev_get_candidate = (\<lambda>i st. read_trip R RegistryUnavailable ''candidate_get'' (get_candidate R C i st) st),
       ev_append_evidence = (\<lambda>i v. round_trip R RegistryUnavailable ''evidence_append''
         (\<lambda>st. (Inr (), append_evidence R J i v st))),
       ev_set_state = set_state R,
       ev_get_cluster = (\<lambda>g st. read_trip R RegistryUnavailable ''cluster_get'' (get_cluster R b32 g st) st),
       ev_set_cluster = (\<lambda>g i. round_trip R RegistryUnavailable ''cluster_set''
         (\<lambda>st. (Inr (), set_cluster R secs g i st))),
       ev_add_variant = (\<lambda>i b f. round_trip R RegistryUnavailable ''variant_add''
         (\<lambda>st. (Inr (), add_variant R secs i b f st))),
       ev_get_variants = (\<lambda>i st. read_trip R RegistryUnavailable ''variants_get'' (Inr (get_variants R i st)) st) \<rparr>"

text \<open>
  A key with a time to live is removed when the time is over. The model has no clock: the removal
  is a step that may happen at any moment between operations.
\<close>

definition expiry_key :: "expiry \<Rightarrow> bytes" where
  "expiry_key x = (case x of CandidateKey i \<Rightarrow> candidate_key i | ClusterKey g \<Rightarrow> cluster_key g | VariantsKey i \<Rightarrow> variant_key i)"

definition key_expires :: "('st \<Rightarrow> keyspace) \<Rightarrow> expiry \<Rightarrow> 'st \<Rightarrow> 'st \<Rightarrow> bool" where
  "key_expires view x st st' \<longleftrightarrow> ttl (view st) (expiry_key x) \<noteq> None \<and>
     view st' = view st\<lparr> strs := (strs (view st))(expiry_key x := None),
       hashes := (hashes (view st))(expiry_key x := \<lambda>_. None), sets := (sets (view st))(expiry_key x := {}),
       streams := (streams (view st))(expiry_key x := []), ttl := (ttl (view st))(expiry_key x := None) \<rparr>"

text \<open>What a write elsewhere leaves alone: the keys of the evidence store.\<close>

definition same_evidence :: "keyspace \<Rightarrow> keyspace \<Rightarrow> bool" where
  "same_evidence ks ks' \<longleftrightarrow> (\<forall>x. strs ks' (''deblob:c'' @ x) = strs ks (''deblob:c'' @ x) \<and>
     hashes ks' (''deblob:c'' @ x) = hashes ks (''deblob:c'' @ x) \<and>
     sets ks' (''deblob:c'' @ x) = sets ks (''deblob:c'' @ x))"

lemma same_evidence_refl [simp]: "same_evidence ks ks"
  by (simp add: same_evidence_def)

lemma same_evidence_trans: "same_evidence a b \<Longrightarrow> same_evidence b c \<Longrightarrow> same_evidence a c"
  by (simp add: same_evidence_def)

lemma evidence_keys:
  "\<exists>x. candidate_key i = ''deblob:c'' @ x" "\<exists>x. cluster_key g = ''deblob:c'' @ x"
  "\<exists>x. variant_key i = ''deblob:c'' @ x"
  by (simp_all add: candidate_key_def cluster_key_def variant_key_def)

text \<open>What may happen between operations: the expiry of a key, or, for \<open>None\<close>, a write elsewhere.\<close>

definition outside :: "('st \<Rightarrow> keyspace) \<Rightarrow> expiry option \<Rightarrow> 'st \<Rightarrow> 'st \<Rightarrow> bool" where
  "outside view t st st' \<longleftrightarrow>
     (case t of Some x \<Rightarrow> key_expires view x st st' | None \<Rightarrow> same_evidence (view st) (view st'))"

definition stored_candidate :: "'st redis \<Rightarrow> candidate_record codec \<Rightarrow> 'st \<Rightarrow> candidate_id \<Rightarrow> candidate_record option" where
  "stored_candidate R C st i = (case get_candidate R C i st of Inr r \<Rightarrow> r | Inl _ \<Rightarrow> None)"

definition stored_cluster :: "'st redis \<Rightarrow> (bytes \<Rightarrow> bytes option) \<Rightarrow> 'st \<Rightarrow> bytes \<Rightarrow> candidate_id option" where
  "stored_cluster R b32 st g = (case get_cluster R b32 g st of Inr r \<Rightarrow> r | Inl _ \<Rightarrow> None)"

definition stored_variants :: "'st redis \<Rightarrow> 'st \<Rightarrow> candidate_id \<Rightarrow> (bytes \<times> bytes) set" where
  "stored_variants R st i = set (get_variants R i st)"

definition candidate_valid :: "(bytes \<Rightarrow> bytes option) \<Rightarrow> candidate_id \<Rightarrow> bool" where
  "candidate_valid b32 i \<longleftrightarrow> candidate_id_parse b32 (candidate_str i) = Inr i"

definition evidence_intact :: "'st redis \<Rightarrow> candidate_record codec \<Rightarrow> (bytes \<Rightarrow> bytes option) \<Rightarrow> 'st \<Rightarrow> bool" where
  "evidence_intact R C b32 st \<longleftrightarrow>
     (\<forall>i. get_candidate R C i st = Inr (stored_candidate R C st i)) \<and>
     (\<forall>g. get_cluster R b32 g st = Inr (stored_cluster R b32 st g))"

lemma evidence_intactI:
  "(\<And>i. \<exists>x. get_candidate R C i st = Inr x) \<Longrightarrow> (\<And>g. \<exists>x. get_cluster R b32 g st = Inr x) \<Longrightarrow>
     evidence_intact R C b32 st"
  unfolding evidence_intact_def stored_candidate_def stored_cluster_def by (metis sum.case(2))

lemma map_sum_Inr_iff: "map_sum f g x = Inr y \<longleftrightarrow> (\<exists>z. x = Inr z \<and> y = g z)"
  by (cases x) auto

lemma digest_parse_text: "digest_parse b32 p s = Inr r \<Longrightarrow> r = s"
  by (auto simp: digest_parse_def result_bind_Inr_iff split: if_splits)

lemma candidate_id_parse_text: "candidate_id_parse b32 s = Inr i \<Longrightarrow> candidate_str i = s"
  by (cases "digest_parse b32 ''cand_'' s") (auto simp: candidate_id_parse_def dest: digest_parse_text)

locale redis_evidence_service = redis_service R view
  for R :: "'st redis" and view :: "'st \<Rightarrow> keyspace" +
  fixes C :: "candidate_record codec" and A :: "audit_stub codec" and J :: "json codec"
    and b32 :: "bytes \<Rightarrow> bytes option" and secs :: nat
  assumes records: "codec_ok C"
begin

text \<open>What the three views depend on.\<close>

lemma get_candidate_cong:
  "(\<And>f. hashes (view st') (candidate_key i) f = hashes (view st) (candidate_key i) f) \<Longrightarrow>
     get_candidate R C i st' = get_candidate R C i st"
  by (simp add: get_candidate_def hget split: option.split)

lemma get_cluster_cong:
  "strs (view st') (cluster_key g) = strs (view st) (cluster_key g) \<Longrightarrow>
     get_cluster R b32 g st' = get_cluster R b32 g st"
  by (simp add: get_cluster_def get)

lemma stored_variants_eq:
  "stored_variants R st i = {x. \<exists>m\<in>sets (view st) (variant_key i). split_once (CHR ''='') m = Some x}"
  by (auto simp: stored_variants_def get_variants_def smembers List.map_filter_def image_iff
      split: option.splits) (metis option.sel)

lemma other_spaces:
  "cluster_key g \<noteq> candidate_audit_key i" "variant_key i \<noteq> candidate_state_index_key s"
  "cluster_key g = cluster_key h \<longleftrightarrow> g = h" "variant_key i = variant_key j \<longleftrightarrow> i = j"
  by (auto simp: cluster_key_def candidate_audit_key_def variant_key_def candidate_state_index_key_def
      intro: candidate_id.expand)

text \<open>The store satisfies the contract.\<close>

lemma upsert_contract:
  assumes i: "evidence_intact R C b32 st" and st': "st' = upsert_candidate R C A secs rec st"
  shows "evidence_intact R C b32 st' \<and>
    stored_candidate R C st' = (stored_candidate R C st)(cand_id rec \<mapsto> rec) \<and>
    stored_cluster R b32 st' = stored_cluster R b32 st \<and> stored_variants R st' = stored_variants R st"
proof -
  have c: "get_candidate R C j st' = (if j = cand_id rec then Inr (Some rec) else get_candidate R C j st)" for j
  proof (cases "j = cand_id rec")
    case True
    then show ?thesis using get_after_upsert [OF records, of rec A secs st] st' by simp
  next
    case False
    have "hashes (view st') (candidate_key j) f = hashes (view st) (candidate_key j) f" for f
      using False by (simp add: upsert_effect [OF st'])
    from get_candidate_cong [OF this] False show ?thesis by simp
  qed
  have g: "get_cluster R b32 x st' = get_cluster R b32 x st" for x
    by (rule get_cluster_cong) (simp add: upsert_effect [OF st'] other_spaces)
  have "evidence_intact R C b32 st'"
    by (rule evidence_intactI) (use i in \<open>auto simp: c g evidence_intact_def\<close>)
  moreover have "stored_variants R st' = stored_variants R st"
    by (simp add: fun_eq_iff stored_variants_eq upsert_effect [OF st'] other_spaces)
  ultimately show ?thesis
    by (auto simp: fun_eq_iff stored_candidate_def stored_cluster_def c g)
qed

lemma frame_contract:
  assumes i: "evidence_intact R C b32 st"
    and h: "\<And>j f. hashes (view st') (candidate_key j) f = hashes (view st) (candidate_key j) f"
  shows "(\<forall>g. \<exists>x. get_cluster R b32 g st' = Inr x) \<Longrightarrow> evidence_intact R C b32 st'"
    and "stored_candidate R C st' = stored_candidate R C st"
proof -
  have c: "get_candidate R C j st' = get_candidate R C j st" for j by (rule get_candidate_cong [OF h])
  have "\<exists>x. get_candidate R C j st' = Inr x" for j
    using i unfolding c evidence_intact_def by blast
  then show "(\<forall>g. \<exists>x. get_cluster R b32 g st' = Inr x) \<Longrightarrow> evidence_intact R C b32 st'"
    by (intro evidence_intactI) blast+
  show "stored_candidate R C st' = stored_candidate R C st"
    by (simp add: fun_eq_iff stored_candidate_def c)
qed

lemma set_cluster_contract:
  assumes i: "evidence_intact R C b32 st" and v: "candidate_valid b32 c"
    and st': "st' = set_cluster R secs g c st"
  shows "evidence_intact R C b32 st' \<and> stored_candidate R C st' = stored_candidate R C st \<and>
    stored_cluster R b32 st' = (stored_cluster R b32 st)(g \<mapsto> c) \<and>
    stored_variants R st' = stored_variants R st"
proof -
  define s1 where "s1 = r_set R (cluster_key g) (candidate_str c) st"
  have "key_exists (view s1) (cluster_key g)" by (simp add: s1_def set key_exists_def)
  then have v': "view st' = view s1 \<lparr> ttl := (ttl (view s1))(cluster_key g \<mapsto> secs) \<rparr>"
    by (simp add: st' set_cluster_def s1_def expire)
  have c: "get_cluster R b32 x st' = (if x = g then Inr (Some c) else get_cluster R b32 x st)" for x
    using v by (simp add: get_cluster_def get v' s1_def set other_spaces transpose_parse_def candidate_valid_def)
  have h: "hashes (view st') = hashes (view st)" "sets (view st') = sets (view st)"
    by (simp_all add: v' s1_def set)
  have "\<forall>x. \<exists>y. get_cluster R b32 x st' = Inr y" using i by (simp add: c evidence_intact_def)
  with frame_contract [OF i, of st'] h show ?thesis
    by (simp add: fun_eq_iff stored_cluster_def c stored_variants_eq h)
qed

lemma add_variant_contract:
  assumes i: "evidence_intact R C b32 st" and b: "CHR ''='' \<notin> List.set b"
    and st': "st' = add_variant R secs c b f st"
  shows "evidence_intact R C b32 st' \<and> stored_candidate R C st' = stored_candidate R C st \<and>
    stored_cluster R b32 st' = stored_cluster R b32 st \<and>
    stored_variants R st' = (stored_variants R st)(c := insert (b, f) (stored_variants R st c))"
proof -
  define s1 where "s1 = r_sadd R (variant_key c) (b @ ''='' @ f) st"
  have "key_exists (view s1) (variant_key c)" by (auto simp: s1_def sadd key_exists_def)
  then have v': "view st' = view s1 \<lparr> ttl := (ttl (view s1))(variant_key c \<mapsto> secs) \<rparr>"
    by (simp add: st' add_variant_def s1_def expire)
  have h: "hashes (view st') = hashes (view st)" "strs (view st') = strs (view st)"
    "sets (view st') = (sets (view st))(variant_key c := insert (b @ ''='' @ f) (sets (view st) (variant_key c)))"
    by (simp_all add: v' s1_def sadd)
  have g: "get_cluster R b32 x st' = get_cluster R b32 x st" for x
    by (rule get_cluster_cong) (simp add: h)
  have "stored_variants R st' = (stored_variants R st)(c := insert (b, f) (stored_variants R st c))"
    using b by (auto simp: fun_eq_iff stored_variants_eq h other_spaces)
  moreover have "\<forall>x. \<exists>y. get_cluster R b32 x st' = Inr y" using i by (simp add: g evidence_intact_def)
  ultimately show ?thesis
    using frame_contract [OF i, of st'] h by (simp add: fun_eq_iff stored_cluster_def g)
qed

lemma append_contract:
  assumes i: "evidence_intact R C b32 st" and st': "st' = append_evidence R J c v st"
  shows "evidence_intact R C b32 st' \<and> stored_candidate R C st' = stored_candidate R C st \<and>
    stored_cluster R b32 st' = stored_cluster R b32 st \<and> stored_variants R st' = stored_variants R st"
proof -
  obtain d where v': "view st' = view st \<lparr> streams := (streams (view st))(evidence_key c :=
      drop d (streams (view st) (evidence_key c) @ [[(''data'', enc J v)]])) \<rparr>"
    using xadd_maxlen [of "evidence_key c" evidence_stream_maxlen "[(''data'', enc J v)]" st] st'
    unfolding append_evidence_def by blast
  have g: "get_cluster R b32 x st' = get_cluster R b32 x st" for x
    by (rule get_cluster_cong) (simp add: v')
  have "\<forall>x. \<exists>y. get_cluster R b32 x st' = Inr y" using i by (simp add: g evidence_intact_def)
  then show ?thesis
    using frame_contract [OF i, of st'] v' by (simp add: fun_eq_iff stored_cluster_def g stored_variants_eq)
qed

lemma stored_hash:
  assumes "evidence_intact R C b32 st" "stored_candidate R C st c = Some rec"
  obtains js where "hashes (view st) (candidate_key c) ''record'' = Some js"
    "candidate_from_hash C js (hashes (view st) (candidate_key c) ''state'') = Inr rec"
    "key_exists (view st) (candidate_key c)"
    "hashes (view st) (candidate_key c) ''state'' = Some ''rejected'' \<Longrightarrow> cand_state rec = RejectedState"
proof -
  have "get_candidate R C c st = Inr (Some rec)"
    using assms by (simp add: evidence_intact_def)
  then obtain js where js: "hashes (view st) (candidate_key c) ''record'' = Some js"
    "candidate_from_hash C js (hashes (view st) (candidate_key c) ''state'') = Inr rec"
    by (auto simp: get_candidate_def hget map_sum_Inr_iff split: option.splits)
  show thesis
  proof (rule that [OF js])
    show "key_exists (view st) (candidate_key c)" using js(1) unfolding key_exists_def by blast
    show "cand_state rec = RejectedState" if "hashes (view st) (candidate_key c) ''state'' = Some ''rejected''"
      using js(2) that by (auto simp: candidate_from_hash_def result_bind_Inr_iff parse_state_def ok_or_def
        split: option.splits)
  qed
qed

lemma set_state_contract:
  assumes i: "evidence_intact R C b32 st" and c: "stored_candidate R C st c = Some rec"
    and live: "cand_state rec \<noteq> RejectedState" and run: "set_state R c s st = (res, st')"
  shows "evidence_intact R C b32 st' \<and> (st' = st \<and> res \<noteq> Inr () \<or>
    stored_candidate R C st' = (stored_candidate R C st)(c \<mapsto> rec\<lparr> cand_state := s \<rparr>) \<and>
    stored_cluster R b32 st' = stored_cluster R b32 st \<and> stored_variants R st' = stored_variants R st) \<and>
    (res = Inr () \<or> (\<exists>m. res = Inl (RegistryUnavailable m) \<and> link_fails R m))"
proof -
  obtain js where js: "hashes (view st) (candidate_key c) ''record'' = Some js"
    "candidate_from_hash C js (hashes (view st) (candidate_key c) ''state'') = Inr rec"
    "key_exists (view st) (candidate_key c)"
    "hashes (view st) (candidate_key c) ''state'' \<noteq> Some ''rejected''"
    using stored_hash [OF i c] live by metis
  from run show ?thesis
  proof (cases rule: set_state_cases)
    case (kept e)
    then show ?thesis using js(3,4) i by auto
  next
    case moved
    have gs: "get_candidate R C j st' = (if j = c then Inr (Some (rec\<lparr> cand_state := s \<rparr>)) else get_candidate R C j st)" for j
    proof (cases "j = c")
      case True
      show ?thesis
        using js True by (auto simp: get_candidate_def hget moved(3) candidate_from_hash_def result_bind_Inr_iff
            split: option.splits)
    next
      case False
      have "hashes (view st') (candidate_key j) f = hashes (view st) (candidate_key j) f" for f
        using False by (simp add: moved(3))
      from get_candidate_cong [OF this] False show ?thesis by simp
    qed
    have g: "get_cluster R b32 x st' = get_cluster R b32 x st" for x
      by (rule get_cluster_cong) (simp add: moved(4))
    have vs: "sets (view st') (variant_key x) = sets (view st) (variant_key x)" for x
      using moved(7) other_spaces(2) by (auto simp: moved_listings_def)
    have "evidence_intact R C b32 st'"
      by (rule evidence_intactI) (use i in \<open>auto simp: gs g evidence_intact_def\<close>)
    moreover have "stored_variants R st' = stored_variants R st"
      by (auto simp: fun_eq_iff stored_variants_eq vs)
    ultimately show ?thesis
      using moved(7) by (auto simp: fun_eq_iff stored_candidate_def stored_cluster_def gs g)
  qed
qed

lemma expiry_contract:
  assumes i: "evidence_intact R C b32 st" and x: "key_expires view x st st'"
  shows "evidence_intact R C b32 st' \<and>
    stored_candidate R C st' = (case x of CandidateKey i \<Rightarrow> (stored_candidate R C st)(i := None) | _ \<Rightarrow> stored_candidate R C st) \<and>
    stored_cluster R b32 st' = (case x of ClusterKey g \<Rightarrow> (stored_cluster R b32 st)(g := None) | _ \<Rightarrow> stored_cluster R b32 st) \<and>
    stored_variants R st' = (case x of VariantsKey i \<Rightarrow> (stored_variants R st)(i := {}) | _ \<Rightarrow> stored_variants R st)"
proof -
  have ne: "candidate_key j \<noteq> cluster_key g" "candidate_key j \<noteq> variant_key k" "cluster_key g \<noteq> variant_key k"
    for j g k by (auto simp: candidate_key_def cluster_key_def variant_key_def)
  have v: "strs (view st') k = (if k = expiry_key x then None else strs (view st) k)"
    "hashes (view st') k = (if k = expiry_key x then \<lambda>_. None else hashes (view st) k)"
    "sets (view st') k = (if k = expiry_key x then {} else sets (view st) k)" for k
    using x by (simp_all add: key_expires_def)
  have c: "get_candidate R C j st' = (if x = CandidateKey j then Inr None else get_candidate R C j st)" for j
  proof (cases "x = CandidateKey j")
    case True
    then show ?thesis by (simp add: get_candidate_def hget v expiry_key_def)
  next
    case False
    then have "candidate_key j \<noteq> expiry_key x" using ne by (cases x) (auto simp: expiry_key_def)
    then have "get_candidate R C j st' = get_candidate R C j st" by (intro get_candidate_cong) (simp add: v)
    then show ?thesis using False by simp
  qed
  have g: "get_cluster R b32 y st' = (if x = ClusterKey y then Inr None else get_cluster R b32 y st)" for y
  proof (cases "x = ClusterKey y")
    case True
    then show ?thesis by (simp add: get_cluster_def get v expiry_key_def transpose_parse_def)
  next
    case False
    then have "cluster_key y \<noteq> expiry_key x" using ne [THEN not_sym] ne(3) other_spaces(3) by (cases x) (auto simp: expiry_key_def)
    then show ?thesis using False by (simp add: get_cluster_def get v)
  qed
  have w: "stored_variants R st' j = (if x = VariantsKey j then {} else stored_variants R st j)" for j
  proof (cases "x = VariantsKey j")
    case True
    then show ?thesis by (simp add: stored_variants_eq v expiry_key_def)
  next
    case False
    then have "variant_key j \<noteq> expiry_key x" using ne [THEN not_sym] other_spaces(4) by (cases x) (auto simp: expiry_key_def)
    then show ?thesis using False by (simp add: stored_variants_eq v)
  qed
  have "evidence_intact R C b32 st'"
    by (rule evidence_intactI) (use i in \<open>auto simp: c g evidence_intact_def\<close>)
  then show ?thesis
    by (cases x) (auto simp: fun_eq_iff stored_candidate_def stored_cluster_def c g w)
qed

lemma same_evidence_views:
  assumes same: "same_evidence (view st) (view st')" and ok: "evidence_intact R C b32 st"
  shows "evidence_intact R C b32 st' \<and> stored_candidate R C st' = stored_candidate R C st \<and>
    stored_cluster R b32 st' = stored_cluster R b32 st \<and> stored_variants R st' = stored_variants R st"
proof -
  have "hashes (view st') (candidate_key i) = hashes (view st) (candidate_key i)" for i
    using same evidence_keys(1) [of i] unfolding same_evidence_def by force
  then have c: "get_candidate R C i st' = get_candidate R C i st" for i by (intro get_candidate_cong) simp
  have "strs (view st') (cluster_key g) = strs (view st) (cluster_key g)" for g
    using same evidence_keys(2) [of g] unfolding same_evidence_def by force
  then have g: "get_cluster R b32 x st' = get_cluster R b32 x st" for x by (intro get_cluster_cong)
  have "sets (view st') (variant_key i) = sets (view st) (variant_key i)" for i
    using same evidence_keys(3) [of i] unfolding same_evidence_def by force
  then have "stored_variants R st' = stored_variants R st" by (simp add: fun_eq_iff stored_variants_eq)
  moreover have "evidence_intact R C b32 st'"
    by (rule evidence_intactI) (use ok in \<open>auto simp: c g evidence_intact_def\<close>)
  ultimately show ?thesis by (simp add: fun_eq_iff stored_candidate_def stored_cluster_def c g)
qed

lemma expiry_same_vault: "key_expires view x st st' \<Longrightarrow> same_vault (view st) (view st')"
proof -
  assume x: "key_expires view x st st'"
  have "\<not> vault_key (expiry_key x)" by (cases x) (simp_all add: expiry_key_def evidence_not_vault)
  then have "k \<noteq> expiry_key x" if "vault_key k" for k using that by blast
  then show ?thesis using x by (simp add: key_expires_def same_vault_def)
qed

end

sublocale redis_evidence_service \<subseteq> store: evidence_contract "redis_evidence R C A J b32 secs"
    "candidate_valid b32" "evidence_intact R C b32" "stored_candidate R C" "stored_cluster R b32"
    "stored_variants R" "outside view" "always_answers R"
proof
  let ?S = "redis_evidence R C A J b32 secs"
  fix st st' :: 'st and g b f :: bytes and i c and rec :: candidate_record and res v s x y l t
  show "x = stored_candidate R C st i" if "evidence_intact R C b32 st" "ev_get_candidate ?S i st = Inr x"
    using that by (auto simp: redis_evidence_def evidence_intact_def dest: read_trip_Inr)
  show "y = stored_cluster R b32 st g" if "evidence_intact R C b32 st" "ev_get_cluster ?S g st = Inr y"
    using that by (auto simp: redis_evidence_def evidence_intact_def dest: read_trip_Inr)
  show "candidate_valid b32 i" if "evidence_intact R C b32 st" "stored_cluster R b32 st g = Some i"
  proof -
    have "get_cluster R b32 g st = Inr (Some i)" using that by (simp add: evidence_intact_def)
    then show ?thesis
      by (auto simp: get_cluster_def transpose_parse_def candidate_valid_def map_sum_Inr_iff
          split: option.splits dest: candidate_id_parse_text)
  qed
  show "List.set l = stored_variants R st i" if "ev_get_variants ?S i st = Inr l"
    using that by (auto simp: redis_evidence_def stored_variants_def dest: read_trip_Inr)
  show "evidence_intact R C b32 st' \<and>
      (st' = st \<and> res \<noteq> Inr () \<or> stored_candidate R C st' = (stored_candidate R C st)(cand_id rec \<mapsto> rec) \<and>
       stored_cluster R b32 st' = stored_cluster R b32 st \<and> stored_variants R st' = stored_variants R st)"
    if "evidence_intact R C b32 st" "ev_upsert_candidate ?S rec st = (res, st')"
    using round_trip_outcome [of R RegistryUnavailable "''candidate_upsert''" "\<lambda>st. (Inr (), upsert_candidate R C A secs rec st)" st res st']
      that upsert_contract [OF that(1)] by (auto simp: redis_evidence_def)
  show "evidence_intact R C b32 st' \<and>
      (st' = st \<and> res \<noteq> Inr () \<or> stored_candidate R C st' = stored_candidate R C st \<and>
       stored_cluster R b32 st' = (stored_cluster R b32 st)(g \<mapsto> i) \<and> stored_variants R st' = stored_variants R st)"
    if "evidence_intact R C b32 st" "candidate_valid b32 i" "ev_set_cluster ?S g i st = (res, st')"
    using round_trip_outcome [of R RegistryUnavailable "''cluster_set''" "\<lambda>st. (Inr (), set_cluster R secs g i st)" st res st']
      that set_cluster_contract [OF that(1,2)] by (auto simp: redis_evidence_def)
  show "evidence_intact R C b32 st' \<and>
      (st' = st \<and> res \<noteq> Inr () \<or> stored_candidate R C st' = stored_candidate R C st \<and>
       stored_cluster R b32 st' = stored_cluster R b32 st \<and>
       stored_variants R st' = (stored_variants R st)(i := insert (b, f) (stored_variants R st i)))"
    if "evidence_intact R C b32 st" "CHR ''='' \<notin> List.set b" "ev_add_variant ?S i b f st = (res, st')"
    using round_trip_outcome [of R RegistryUnavailable "''variant_add''" "\<lambda>st. (Inr (), add_variant R secs i b f st)" st res st']
      that add_variant_contract [OF that(1,2)] by (auto simp: redis_evidence_def)
  show "evidence_intact R C b32 st' \<and> stored_candidate R C st' = stored_candidate R C st \<and>
      stored_cluster R b32 st' = stored_cluster R b32 st \<and> stored_variants R st' = stored_variants R st"
    if "evidence_intact R C b32 st" "ev_append_evidence ?S i v st = (res, st')"
    using round_trip_outcome [of R RegistryUnavailable "''evidence_append''" "\<lambda>st. (Inr (), append_evidence R J i v st)" st res st']
      that append_contract [OF that(1)] by (auto simp: redis_evidence_def)
  show "evidence_intact R C b32 st' \<and>
      (st' = st \<and> res \<noteq> Inr () \<or>
       stored_candidate R C st' = (stored_candidate R C st)(i \<mapsto> rec\<lparr> cand_state := s \<rparr>) \<and>
       stored_cluster R b32 st' = stored_cluster R b32 st \<and> stored_variants R st' = stored_variants R st)"
    if "evidence_intact R C b32 st" "stored_candidate R C st i = Some rec" "cand_state rec \<noteq> RejectedState"
      "ev_set_state ?S i s st = (res, st')"
    using set_state_contract [OF that(1-3), of s res st'] that(4) by (simp add: redis_evidence_def)
  show "fst (ev_set_state ?S i s st) = Inr ()"
    if "always_answers R" "evidence_intact R C b32 st" "stored_candidate R C st i = Some rec" "cand_state rec \<noteq> RejectedState"
    using set_state_contract [OF that(2-4) surjective_pairing, of s] that(1) by (auto simp: redis_evidence_def)
  show "evidence_intact R C b32 st' \<and>
      stored_candidate R C st' = (case t of Some (CandidateKey i) \<Rightarrow> (stored_candidate R C st)(i := None) | _ \<Rightarrow> stored_candidate R C st) \<and>
      stored_cluster R b32 st' = (case t of Some (ClusterKey g) \<Rightarrow> (stored_cluster R b32 st)(g := None) | _ \<Rightarrow> stored_cluster R b32 st) \<and>
      stored_variants R st' = (case t of Some (VariantsKey i) \<Rightarrow> (stored_variants R st)(i := {}) | _ \<Rightarrow> stored_variants R st)"
    if "evidence_intact R C b32 st" "outside view t st st'"
  proof (cases t)
    case None
    then have "same_evidence (view st) (view st')" using that(2) by (simp add: outside_def)
    from same_evidence_views [OF this that(1)] None show ?thesis by simp
  next
    case (Some x)
    then have "key_expires view x st st'" using that(2) by (simp add: outside_def)
    from expiry_contract [OF that(1) this] Some show ?thesis by (cases x) simp_all
  qed
qed (auto simp: redis_evidence_def evidence_intact_def)

section \<open>Countable records\<close>

text \<open>
  Serialization by numbering: a codec that is right on every value of a countable type. It is what
  the witnesses use in place of \<open>serde\<close>.
\<close>

instance json :: countable by countable_datatype
instance candidate_id :: countable by countable_datatype
instance candidate_state :: countable by countable_datatype

instance candidate_record_ext :: (countable) countable
  by (rule countable_classI [of "\<lambda>r. to_nat (cand_id r, cand_profile r, sample_count r, first_seen_ms r,
        last_seen_ms r, cand_state r, cand_source r, candidate_record.more r)"]) simp

definition numbered :: "'a::countable codec" where
  "numbered = \<lparr> enc = (\<lambda>x. nat_dec (to_nat x)), dec = (\<lambda>s. map_option from_nat (dec_nat s)) \<rparr>"

lemma numbered_ok: "codec_ok numbered"
  by (simp add: codec_ok_def numbered_def)

interpretation mem_evidence: redis_evidence_service mem_redis mem_view numbered A J b32 secs
  for A J b32 secs
  by unfold_locales (rule numbered_ok)

end
