(* ===== verification/Cold_Lane.thy ===== *)
theory Cold_Lane
  imports Evidence_Port Profile_Facts Hot_Matcher
begin

text \<open>
  The cold lane (\<open>deblob/src/coldlane.rs\<close>): a document whose shape is new is folded into
  the profile of a candidate, its own or, when the generalized form agrees up to one field, one
  of the same source that exists already. The evidence store is the trait object of
  \<open>Evidence_Port\<close>; the keyed rate limiter of the \<open>governor\<close> crate, the JSON form of a profile
  and the clock are arguments.
\<close>

section \<open>Names and variants\<close>

definition scoped_gen_fp :: "bytes \<Rightarrow> bytes \<Rightarrow> bytes" where
  "scoped_gen_fp source gen_fp_hex = source @ '':'' @ gen_fp_hex"

definition without_child :: "bytes \<Rightarrow> field_node \<Rightarrow> field_node" where
  "without_child key n =
     FieldNode (present n) (explicit_null n) (types n) (bt_remove key (children n)) (array_elem n)
       (array_empty_seen n) (array_partial_seen n) (int_only n) (neg_zero_seen n) (num_buckets n)"

text \<open>The generalized fingerprint, then one with each top-level field left out in turn.\<close>

definition reduced_generalized_fps :: "(bytes \<Rightarrow> bytes) \<Rightarrow> profile \<Rightarrow> bytes list" where
  "reduced_generalized_fps sha256 p =
     generalized_fingerprint sha256 p #
     (if 2 \<le> length (children (root p)) then
        map (\<lambda>key. generalized_fingerprint sha256
          \<lparr> count = count p, root = without_child key (root p) \<rparr>) (map fst (children (root p)))
      else [])"

definition concrete_variant :: "digests \<Rightarrow> node \<Rightarrow> bytes \<times> bytes" where
  "concrete_variant D nd =
     (let sh = shape_of nd;
          raw_fp = fingerprint (d_sha256 D) sh;
          bucket = bucket_key (d_sha256 D) (d_hex D) (summarize sh);
          fp_b32 = to_ascii_lowercase (d_base32 D raw_fp)
      in (bucket, fp_b32))"

section \<open>Ingestion\<close>

record sample_meta =
  sm_source :: bytes
  sm_cursor :: "source_cursor option"

datatype ingest_outcome =
    Ingested (target: candidate_id) (is_new: bool)
  | RateLimited

text \<open>\<open>le_limit\<close> is \<open>check_key\<close>: whether a new candidate of the source is admitted.\<close>

record ('st, 'l) lane_env =
  le_digests :: digests
  le_store :: "'st evidence_store"
  le_limit :: "bytes \<Rightarrow> 'l \<Rightarrow> bool \<times> 'l"
  le_to_value :: "profile \<Rightarrow> json option"
  le_from_value :: "json \<Rightarrow> profile option"

record ('st, 'l) lane =
  l_store :: 'st
  l_limiter :: 'l
  l_metrics :: "metrics option"

definition default_new_candidates_per_min :: nat where
  "default_new_candidates_per_min = 10"

definition with_rate_limit :: "(nat \<Rightarrow> 'l) \<Rightarrow> 'st \<Rightarrow> nat \<Rightarrow> ('st, 'l) lane" where
  "with_rate_limit keyed st per_minute =
     \<lparr> l_store = st, l_limiter = keyed (if per_minute = 0 then 1 else per_minute), l_metrics = None \<rparr>"

definition lane_new :: "(nat \<Rightarrow> 'l) \<Rightarrow> 'st \<Rightarrow> ('st, 'l) lane" where
  "lane_new keyed st = with_rate_limit keyed st default_new_candidates_per_min"

definition with_rate_limit_and_metrics :: "(nat \<Rightarrow> 'l) \<Rightarrow> 'st \<Rightarrow> nat \<Rightarrow> metrics \<Rightarrow> ('st, 'l) lane" where
  "with_rate_limit_and_metrics keyed st per_minute m =
     (with_rate_limit keyed st per_minute)\<lparr> l_metrics := Some m \<rparr>"

definition with_metrics :: "(nat \<Rightarrow> 'l) \<Rightarrow> 'st \<Rightarrow> metrics \<Rightarrow> ('st, 'l) lane" where
  "with_metrics keyed st m = with_rate_limit_and_metrics keyed st default_new_candidates_per_min m"

text \<open>The cluster of the first fingerprint that has one.\<close>

fun find_cluster ::
  "'st evidence_store \<Rightarrow> digests \<Rightarrow> bytes \<Rightarrow> bytes list \<Rightarrow> 'st \<Rightarrow> core_error + candidate_id option" where
  "find_cluster ES D source [] st = Inr None"
| "find_cluster ES D source (fp # fps) st =
     (case ev_get_cluster ES (scoped_gen_fp source (d_hex D fp)) st of
        Inl e \<Rightarrow> Inl e
      | Inr (Some existing) \<Rightarrow> Inr (Some existing)
      | Inr None \<Rightarrow> find_cluster ES D source fps st)"

fun set_clusters ::
  "'st evidence_store \<Rightarrow> digests \<Rightarrow> bytes \<Rightarrow> candidate_id \<Rightarrow> bytes list \<Rightarrow> 'st \<Rightarrow> (core_error + unit) \<times> 'st" where
  "set_clusters ES D source i [] st = (Inr (), st)"
| "set_clusters ES D source i (fp # fps) st =
     (case ev_set_cluster ES (scoped_gen_fp source (d_hex D fp)) i st of
        (Inl e, st1) \<Rightarrow> (Inl e, st1)
      | (Inr _, st1) \<Rightarrow> set_clusters ES D source i fps st1)"

definition merged_with ::
  "('st, 'l) lane_env \<Rightarrow> candidate_record option \<Rightarrow> profile \<Rightarrow> core_error + profile" where
  "merged_with E existing observation =
     (case existing of
        None \<Rightarrow> Inr observation
      | Some rec \<Rightarrow>
          map_sum id (\<lambda>stored. profile_merge stored observation)
            (ok_or (RegistryUnavailable ''corrupt stored profile'') (le_from_value E (cand_profile rec))))"

definition candidate_after ::
  "candidate_record option \<Rightarrow> candidate_id \<Rightarrow> json \<Rightarrow> bytes \<Rightarrow> int \<Rightarrow> candidate_record" where
  "candidate_after existing i v source now =
     \<lparr> cand_id = i, cand_profile = v,
       sample_count = (case existing of None \<Rightarrow> 0 | Some r \<Rightarrow> sample_count r) + 1,
       first_seen_ms = (case existing of None \<Rightarrow> now | Some r \<Rightarrow> first_seen_ms r),
       last_seen_ms = now,
       cand_state = (case existing of None \<Rightarrow> ProvisionalState | Some r \<Rightarrow> cand_state r),
       cand_source = Some source \<rparr>"

text \<open>What follows the \<open>upsert\<close>: clusters, the concrete variant, the evidence stream.\<close>

definition record_evidence ::
  "('st, 'l) lane_env \<Rightarrow> candidate_id \<Rightarrow> node \<Rightarrow> bytes \<Rightarrow> bytes list \<Rightarrow> profile \<Rightarrow> 'st \<Rightarrow> (core_error + unit) \<times> 'st" where
  "record_evidence E i nd source fps observation st =
     (case set_clusters (le_store E) (le_digests E) source i fps st of
        (Inl e, st1) \<Rightarrow> (Inl e, st1)
      | (Inr _, st1) \<Rightarrow>
          (let (bucket, fp_b32) = concrete_variant (le_digests E) nd
           in case ev_add_variant (le_store E) i bucket fp_b32 st1 of
                (Inl e, st2) \<Rightarrow> (Inl e, st2)
              | (Inr _, st2) \<Rightarrow>
                  (case le_to_value E observation of
                     None \<Rightarrow> (Inl (RegistryUnavailable ''serialize evidence stats''), st2)
                   | Some stats \<Rightarrow> ev_append_evidence (le_store E) i stats st2)))"

text \<open>The new record, once the limiter has admitted it.\<close>

definition store_observation ::
  "('st, 'l) lane_env \<Rightarrow> candidate_id \<Rightarrow> candidate_record option \<Rightarrow> profile \<Rightarrow> node \<Rightarrow> bytes \<Rightarrow>
     bytes list \<Rightarrow> int \<Rightarrow> ('st, 'l) lane \<Rightarrow> (core_error + ingest_outcome) \<times> ('st, 'l) lane" where
  "store_observation E i existing observation nd source fps now L =
     (case merged_with E existing observation of
        Inl e \<Rightarrow> (Inl e, L)
      | Inr merged \<Rightarrow>
          (case le_to_value E merged of
             None \<Rightarrow> (Inl (RegistryUnavailable ''serialize profile''), L)
           | Some v \<Rightarrow>
               (case ev_upsert_candidate (le_store E) (candidate_after existing i v source now) (l_store L) of
                  (Inl e, st1) \<Rightarrow> (Inl e, L\<lparr> l_store := st1 \<rparr>)
                | (Inr _, st1) \<Rightarrow>
                    (let metrics1 = (if existing = None then map_option inc_candidates_active (l_metrics L)
                           else l_metrics L)
                     in case record_evidence E i nd source fps observation st1 of
                          (Inl e, st2) \<Rightarrow> (Inl e, L\<lparr> l_store := st2, l_metrics := metrics1 \<rparr>)
                        | (Inr _, st2) \<Rightarrow>
                            (Inr (Ingested i (existing = None)), L\<lparr> l_store := st2, l_metrics := metrics1 \<rparr>)))))"

definition ingest ::
  "('st, 'l) lane_env \<Rightarrow> candidate_id \<Rightarrow> node \<Rightarrow> sample_meta \<Rightarrow> int \<Rightarrow> ('st, 'l) lane \<Rightarrow>
     (core_error + ingest_outcome) \<times> ('st, 'l) lane" where
  "ingest E cid nd meta now L =
     (let observation = profile_from_node nd;
          source = sm_source meta;
          fps = reduced_generalized_fps (d_sha256 (le_digests E)) observation
      in case find_cluster (le_store E) (le_digests E) source fps (l_store L) of
           Inl e \<Rightarrow> (Inl e, L)
         | Inr clustered \<Rightarrow>
             (let i = (case clustered of Some c \<Rightarrow> c | None \<Rightarrow> cid)
              in case ev_get_candidate (le_store E) i (l_store L) of
                   Inl e \<Rightarrow> (Inl e, L)
                 | Inr existing \<Rightarrow>
                     (let (admitted, limiter) =
                            (if existing = None then le_limit E source (l_limiter L) else (True, l_limiter L));
                          L1 = L\<lparr> l_limiter := limiter \<rparr>
                      in if admitted then store_observation E i existing observation nd source fps now L1
                         else (Inr RateLimited, L1))))"

end
