(* ===== verification/Value_Profile.thy ===== *)
theory Value_Profile
  imports Profile_Facts Records
begin

text \<open>
  Two digests of a profile that promotion attaches to a schema: the value profile
  (\<open>deblob/src/value_profile.rs\<close>), a list of the leaves with their counters, and the structural
  sketch (\<open>deblob-monoid/src/simhash.rs\<close>), a 64 bit SimHash of the generalized form. SHA-256,
  base32 and the reader and writer of JSON are arguments.
\<close>

unbundle bit_operations_syntax

section \<open>Value profiles\<close>

definition value_profile_version :: u32 where "value_profile_version = 1"

definition bucket_boundaries_version :: u32 where "bucket_boundaries_version = 1"

definition bucket_negative :: "8 word" where "bucket_negative = push_bit 0 1"
definition bucket_zero :: "8 word" where "bucket_zero = push_bit 1 1"
definition bucket_small_positive :: "8 word" where "bucket_small_positive = push_bit 2 1"
definition bucket_medium_positive :: "8 word" where "bucket_medium_positive = push_bit 3 1"
definition bucket_large_positive :: "8 word" where "bucket_large_positive = push_bit 4 1"

definition mask_of :: "numeric_buckets \<Rightarrow> 8 word" where
  "mask_of b =
     (let m0 = 0;
          m1 = (if negative b then m0 OR bucket_negative else m0);
          m2 = (if zero b then m1 OR bucket_zero else m1);
          m3 = (if small_positive b then m2 OR bucket_small_positive else m2);
          m4 = (if medium_positive b then m3 OR bucket_medium_positive else m3)
      in if large_positive b then m4 OR bucket_large_positive else m4)"

definition counts_of :: "type_counts \<Rightarrow> leaf_type_counts" where
  "counts_of t =
     \<lparr> l_null = n_null t, l_bool = n_bool t, l_number = n_number t, l_string = n_string t,
       l_array = n_array t, l_object = n_object t \<rparr>"

definition child_path :: "bytes \<Rightarrow> bytes \<Rightarrow> bytes" where
  "child_path p k = (if p = [] then k else p @ ''.'' @ k)"

fun walk_leaves :: "field_node \<Rightarrow> bytes \<Rightarrow> leaf_value_profile list" where
  "walk_leaves (FieldNode present_f explicit_null_f types_f children_f array_elem_f ae ap io nz nb) p =
     (if children_f \<noteq> [] then concat (map (\<lambda>(k, c). walk_leaves c (child_path p k)) children_f)
      else if p = [] then []
      else [\<lparr> leaf_path = p, present_count = present_f, explicit_null_count = explicit_null_f,
        leaf_types = counts_of types_f, numeric_bucket_mask = mask_of nb, leaf_int_only = io,
        leaf_neg_zero_seen = nz \<rparr>])"

definition hex_lower :: "bytes \<Rightarrow> bytes" where
  "hex_lower bs = concat (map (\<lambda>b. [hex_digit (byte_val b div 16), hex_digit (byte_val b mod 16)]) bs)"

definition sha256_hex :: "(bytes \<Rightarrow> bytes) \<Rightarrow> bytes \<Rightarrow> bytes" where
  "sha256_hex sha256 bs = hex_lower (sha256 bs)"

definition build_snapshot ::
  "(bytes \<Rightarrow> bytes) \<Rightarrow> (bytes \<Rightarrow> bytes) \<Rightarrow> (profile \<Rightarrow> bytes option) \<Rightarrow> schema_id \<Rightarrow> bytes \<Rightarrow> candidate_id \<Rightarrow>
     profile \<Rightarrow> int \<Rightarrow> value_profile_snapshot" where
  "build_snapshot sha256 base32 to_vec i canonical cid p captured_at_ms =
     (let leaves = walk_leaves (root p) [];
          schema_canonical_digest = sha256_hex sha256 canonical;
          candidate_profile_digest = (case to_vec p of Some v \<Rightarrow> sha256_hex sha256 v | None \<Rightarrow> []);
          id_digest = sha256 (''deblob-value-profile-v1'' @ [CHR 0x00] @ schema_str i @ [CHR 0x00] @
            schema_canonical_digest @ [CHR 0x00] @ candidate_str cid @ [CHR 0x00] @ candidate_profile_digest)
      in \<lparr> vp_profile_id = ValueProfileId (digest_from base32 ''vp_'' id_digest),
           vp_profile_version = value_profile_version,
           vp_bucket_boundaries_version = bucket_boundaries_version,
           vp_canonicalizer = generalizer,
           vp_schema_canonical_digest = schema_canonical_digest,
           vp_candidate_id = cid,
           vp_candidate_profile_digest = candidate_profile_digest,
           vp_observation_count = count p,
           vp_captured_at_ms = captured_at_ms,
           vp_leaves = leaves \<rparr>)"

section \<open>The structural sketch\<close>

definition structural_simhash_version :: bytes where
  "structural_simhash_version = ''deblob-simhash-v1''"

definition near_duplicate_hamming_max :: nat where
  "near_duplicate_hamming_max = 8"

definition json_field :: "bytes \<Rightarrow> json \<Rightarrow> json list" where
  "json_field k v = (case json_get k v of Some x \<Rightarrow> [x] | None \<Rightarrow> [])"

lemma json_field_size: "x \<in> set (json_field k v) \<Longrightarrow> size x < size v"
proof -
  assume x: "x \<in> set (json_field k v)"
  then obtain m where m: "v = JObject m" "map_of m k = Some x"
    by (cases v) (auto simp: json_field_def json_get_def split: option.splits)
  then have "(k, x) \<in> set m" by (simp add: map_of_SomeD)
  then have "size_prod (\<lambda>_. 0) size (k, x) \<le> size_list (size_prod (\<lambda>_. 0) size) m"
    by (rule size_list_estimation') simp
  then show ?thesis by (simp add: m(1))
qed

lemma json_member_size: "as_object v = Some m \<Longrightarrow> (k, c) \<in> set m \<Longrightarrow> size c < size v"
proof -
  assume "as_object v = Some m" and kc: "(k, c) \<in> set m"
  then have "v = JObject m" by (cases v) auto
  moreover have "size_prod (\<lambda>_. 0) size (k, c) \<le> size_list (size_prod (\<lambda>_. 0) size) m"
    using kc by (rule size_list_estimation') simp
  ultimately show ?thesis by simp
qed

definition type_tokens :: "bytes \<Rightarrow> json \<Rightarrow> bytes list" where
  "type_tokens label v =
     (case Option.bind (json_get ''types'' v) as_array of
        None \<Rightarrow> []
      | Some ts \<Rightarrow> map (\<lambda>t. label @ '':'' @ t) (List.map_filter as_str ts))"

definition child_objects :: "json \<Rightarrow> (bytes \<times> json) list" where
  "child_objects v = (case Option.bind (json_get ''children'' v) as_object of None \<Rightarrow> [] | Some m \<Rightarrow> m)"

lemma child_objects_size: "(k, c) \<in> set (child_objects v) \<Longrightarrow> size c < size v"
proof -
  assume kc: "(k, c) \<in> set (child_objects v)"
  then obtain w m where w: "json_get ''children'' v = Some w" "as_object w = Some m" "(k, c) \<in> set m"
    by (cases "json_get ''children'' v"; cases "Option.bind (json_get ''children'' v) as_object")
      (auto simp: child_objects_def)
  have "size w < size v" using w(1) json_field_size [of w "''children''" v] by (simp add: json_field_def)
  with json_member_size [OF w(2,3)] show ?thesis by simp
qed

text \<open>One token per position and type: the root is \<open>$\<close>, an array's elements are \<open>path[]\<close>.\<close>

function collect_tokens :: "json \<Rightarrow> bytes \<Rightarrow> bytes list" where
  "collect_tokens v p =
     (if as_object v = None then []
      else
        (let label = (if p = [] then ''$'' else p)
         in type_tokens label v @
            concat (map (\<lambda>(k, c). collect_tokens c (child_path p k)) (child_objects v)) @
            concat (map (\<lambda>e. collect_tokens e (p @ ''[]'')) (json_field ''elem'' v))))"
  by pat_completeness auto
termination
  by (relation "measure (size \<circ> fst)") (auto dest: child_objects_size json_field_size)

declare collect_tokens.simps [simp del]

text \<open>\<open>u64::from_be_bytes\<close> of the first eight bytes of a digest.\<close>

definition be_bytes :: "bytes \<Rightarrow> u64" where
  "be_bytes bs = foldl (\<lambda>acc b. push_bit 8 acc OR of_nat (byte_val b)) 0 bs"

definition token_hash :: "(bytes \<Rightarrow> bytes) \<Rightarrow> bytes \<Rightarrow> u64" where
  "token_hash sha256 token = be_bytes (take 8 (sha256 (structural_simhash_version @ [CHR 0x00] @ token)))"

text \<open>
  The 64 counters \<open>acc\<close>, as integers (an \<open>i64\<close> would need \<open>2^63\<close> tokens to overflow), and the
  sketch: bit \<open>b\<close> is set when counter \<open>b\<close> is positive.
\<close>

definition add_token :: "u64 \<Rightarrow> int list \<Rightarrow> int list" where
  "add_token h acc = map (\<lambda>(b, slot). slot + (if (drop_bit b h) AND 1 = 1 then 1 else -1)) (enumerate 0 acc)"

definition simhash64 :: "(bytes \<Rightarrow> bytes) \<Rightarrow> bytes list \<Rightarrow> u64" where
  "simhash64 sha256 tokens =
     (let acc = foldl (\<lambda>acc t. add_token (token_hash sha256 t) acc) (replicate 64 0) tokens
      in foldl (\<lambda>out (b, slot). if 0 < slot then out OR push_bit b 1 else out) 0 (enumerate 0 acc))"

definition structural_simhash ::
  "(bytes \<Rightarrow> bytes) \<Rightarrow> (bytes \<Rightarrow> json option) \<Rightarrow> bytes \<Rightarrow> u64 option" where
  "structural_simhash sha256 from_str canonical =
     (case from_str canonical of
        None \<Rightarrow> None
      | Some v \<Rightarrow>
          (let tokens = collect_tokens v []
           in if tokens = [] then None else Some (simhash64 sha256 tokens)))"

definition structural_hamming :: "u64 \<Rightarrow> u64 \<Rightarrow> nat" where
  "structural_hamming a b = length (filter (\<lambda>i. bit (a XOR b) i) [0..<64])"

section \<open>Facts\<close>

text \<open>The sketch does not depend on the order of the tokens.\<close>

lemma add_token_commute: "add_token h (add_token g acc) = add_token g (add_token h acc)"
  by (rule nth_equalityI) (simp_all add: add_token_def nth_enumerate_eq)

lemma simhash64_mset: "mset ts = mset us \<Longrightarrow> simhash64 sha256 ts = simhash64 sha256 us"
proof -
  assume m: "mset ts = mset us"
  have "foldl (\<lambda>acc t. add_token (token_hash sha256 t) acc) acc ts =
      fold (\<lambda>t. add_token (token_hash sha256 t)) ts acc" for acc ts
    by (simp add: foldl_conv_fold)
  moreover have "fold (\<lambda>t. add_token (token_hash sha256 t)) ts = fold (\<lambda>t. add_token (token_hash sha256 t)) us"
    by (rule fold_multiset_equiv [OF _ m]) (simp add: fun_eq_iff add_token_commute)
  ultimately show ?thesis by (simp add: simhash64_def)
qed

end
