(* ===== verification/Promotion.thy ===== *)
theory Promotion
  imports Cold_Lane Value_Profile
begin

text \<open>
  The promotion of a candidate to a published schema (\<open>deblob/src/policy.rs\<close>, the request of
  \<open>deblob/src/promote.rs\<close>). The registry, the evidence store and the store of value profiles are
  trait objects over one state; clocks, the fresh family id and the JSON forms are arguments.
  Ages are integers: the subtraction of two \<open>i64\<close> clock readings does not overflow.
\<close>

section \<open>Policies\<close>

record promotion_policy =
  pp_min_samples :: u64
  pp_min_age_ms :: int

definition default_min_samples :: u64 where "default_min_samples = 10"

definition default_min_age_ms :: int where "default_min_age_ms = 5 * 60 * 1000"

definition default_promotion_policy :: promotion_policy where
  "default_promotion_policy = \<lparr> pp_min_samples = default_min_samples, pp_min_age_ms = default_min_age_ms \<rparr>"

definition policy_check :: "promotion_policy \<Rightarrow> candidate_record \<Rightarrow> int \<Rightarrow> bytes + unit" where
  "policy_check P cand now_ms =
     (if sample_count cand < pp_min_samples P then
        Inl (''candidate has '' @ nat_dec (unat (sample_count cand)) @ '' sample(s), below the minimum of '' @
          nat_dec (unat (pp_min_samples P)))
      else
        (let age_ms = now_ms - first_seen_ms cand
         in if age_ms < pp_min_age_ms P then
              Inl (''candidate first seen '' @ int_dec age_ms @ ''ms ago, below the minimum age of '' @
                int_dec (pp_min_age_ms P) @ ''ms'')
            else Inr ()))"

text \<open>Required and total leaves, counted into two accumulators.\<close>

fun count_leaves :: "field_node \<Rightarrow> u64 \<Rightarrow> nat \<times> nat \<Rightarrow> nat \<times> nat" where
  "count_leaves (FieldNode present_f explicit_null_f types_f children_f array_elem_f ae ap io nz nb) denom (required, leaves) =
     (if children_f = [] \<and> array_elem_f = None then
        (if 0 < denom \<and> present_f = denom then required + 1 else required, leaves + 1)
      else
        (let acc = foldl (\<lambda>acc (k, c). count_leaves c (n_object types_f) acc) (required, leaves) children_f
         in case array_elem_f of
              None \<Rightarrow> acc
            | Some elem \<Rightarrow> count_leaves elem (n_array types_f) acc))"

text \<open>
  The ratio of the automatic policy is a \<open>f64\<close>; here it is the exact quotient, compared with
  the same tolerance. (The double quotient of two counts differs from the exact one by less than
  \<open>2^-52\<close>, seven orders of magnitude below the tolerance.)
\<close>

record auto_promote_policy =
  ap_min_samples :: u64
  ap_min_age_ms :: int
  ap_min_required_fields :: nat
  ap_min_required_ratio :: rat

definition default_auto_min_samples :: u64 where "default_auto_min_samples = 50"

definition default_auto_min_age_ms :: int where "default_auto_min_age_ms = 10 * 60 * 1000"

definition default_auto_min_required_fields :: nat where "default_auto_min_required_fields = 2"

definition default_auto_min_required_ratio :: rat where "default_auto_min_required_ratio = 1 / 2"

definition default_auto_promote_policy :: auto_promote_policy where
  "default_auto_promote_policy =
     \<lparr> ap_min_samples = default_auto_min_samples, ap_min_age_ms = default_auto_min_age_ms,
       ap_min_required_fields = default_auto_min_required_fields,
       ap_min_required_ratio = default_auto_min_required_ratio \<rparr>"

text \<open>The format \<open>{:.0}\<close> of a percentage: rounding to even on a tie.\<close>

definition percent :: "rat \<Rightarrow> bytes" where
  "percent r =
     (let x = r * 100; f = \<lfloor>x\<rfloor>; d = x - of_int f
      in int_dec (if 2 * d < 1 then f else if 1 < 2 * d then f + 1 else if even f then f else f + 1))"

definition em_dash :: bytes where
  "em_dash = [CHR 0xE2, CHR 0x80, CHR 0x94]"

definition eligible :: "(json \<Rightarrow> profile option) \<Rightarrow> auto_promote_policy \<Rightarrow> candidate_record \<Rightarrow> int \<Rightarrow> bytes + unit" where
  "eligible from_value P cand now_ms =
     (case policy_check \<lparr> pp_min_samples = ap_min_samples P, pp_min_age_ms = ap_min_age_ms P \<rparr> cand now_ms of
        Inl e \<Rightarrow> Inl e
      | Inr _ \<Rightarrow>
          (case from_value (cand_profile cand) of
             None \<Rightarrow> Inl ''corrupt candidate profile''
           | Some p \<Rightarrow>
               if count p = 0 then Inl ''candidate profile has zero observations''
               else
                 (let (required, leaves) = count_leaves (root p) (count p) (0, 0);
                      ratio = of_nat required / of_nat leaves :: rat
                  in if leaves = 0 then Inl (''shape has no leaf fields '' @ em_dash @ '' not settled'')
                     else if required < ap_min_required_fields P then
                       Inl (''shape has '' @ nat_dec required @ '' required leaf field(s), below the minimum of '' @
                         nat_dec (ap_min_required_fields P))
                     else if ratio < ap_min_required_ratio P - 1 / 10 ^ 9 then
                       Inl (''shape is '' @ percent ratio @ ''% required leaf fields, below the minimum '' @
                         percent (ap_min_required_ratio P) @ ''% '' @ em_dash @ '' not settled'')
                     else Inr ())))"

section \<open>The promoter\<close>

datatype family_choice = NewFamily | ExistingFamily family_id

record promote_request =
  pq_family :: family_choice
  pq_name :: "bytes option"
  pq_reason :: bytes

record 'st promoter =
  pe_digests :: digests
  pe_evidence :: "'st evidence_store"
  pe_publish :: "schema_record \<Rightarrow> candidate_id \<Rightarrow> bytes \<Rightarrow> (bytes \<times> bytes) list \<Rightarrow> bytes \<Rightarrow> bytes \<Rightarrow> 'st \<Rightarrow>
    (core_error + family_version) \<times> 'st"
  pe_policy :: promotion_policy
  pe_value_profiles :: "(value_profile_snapshot \<Rightarrow> 'st \<Rightarrow> (core_error + unit) \<times> 'st) option"
  pe_from_value :: "json \<Rightarrow> profile option"
  pe_from_str :: "bytes \<Rightarrow> json option"
  pe_to_vec :: "profile \<Rightarrow> bytes option"

definition with_value_profiles ::
  "(value_profile_snapshot \<Rightarrow> 'st \<Rightarrow> (core_error + unit) \<times> 'st) \<Rightarrow> 'st promoter \<Rightarrow> 'st promoter" where
  "with_value_profiles store E = E\<lparr> pe_value_profiles := Some store \<rparr>"

fun field_depth :: "field_node \<Rightarrow> nat" where
  "field_depth (FieldNode present_f explicit_null_f types_f children_f array_elem_f ae ap io nz nb) =
     (let m = foldl (\<lambda>m (k, c). max m (field_depth c)) 0 children_f
      in 1 + (case array_elem_f of None \<Rightarrow> m | Some elem \<Rightarrow> max m (field_depth elem)))"

definition generalized_shape_summary :: "profile \<Rightarrow> shape_summary" where
  "generalized_shape_summary p =
     \<lparr> top_level_fields = length (children (root p)), depth = field_depth (root p),
       top_keys_sorted = map fst (children (root p)) \<rparr>"

definition json_string_option :: "bytes option \<Rightarrow> json" where
  "json_string_option s = (case s of None \<Rightarrow> JNull | Some t \<Rightarrow> JString t)"

text \<open>The object in key order, as \<open>serde_json\<close> keeps it.\<close>

definition promotion_provenance :: "candidate_id \<Rightarrow> candidate_record \<Rightarrow> promote_request \<Rightarrow> bytes \<Rightarrow> json" where
  "promotion_provenance cid rec req actor =
     JObject
       [(''candidate_id'', JString (candidate_str cid)),
        (''first_seen_ms'', JNumber (int_dec (first_seen_ms rec))),
        (''last_seen_ms'', JNumber (int_dec (last_seen_ms rec))),
        (''name'', json_string_option (pq_name req)),
        (''promoted_by'', JString actor),
        (''sample_count'', JNumber (nat_dec (unat (sample_count rec)))),
        (''source'', json_string_option (cand_source rec))]"

definition state_debug :: "candidate_state \<Rightarrow> bytes" where
  "state_debug s = (case s of ProvisionalState \<Rightarrow> ''Provisional'' | StagedState \<Rightarrow> ''Staged'' | RejectedState \<Rightarrow> ''Rejected'')"

definition chosen_family :: "family_choice \<Rightarrow> bytes \<Rightarrow> family_id" where
  "chosen_family choice uuid = (case choice of NewFamily \<Rightarrow> family_id_new uuid | ExistingFamily i \<Rightarrow> i)"

definition promoted_id :: "digests \<Rightarrow> profile \<Rightarrow> schema_id" where
  "promoted_id D p = schema_id_from_digest (d_base32 D) (generalized_fingerprint (d_sha256 D) p)"

text \<open>The snapshot is stored first; what the schema then refers to is its id and summary.\<close>

definition capture_value_profile ::
  "'st promoter \<Rightarrow> int \<Rightarrow> candidate_id \<Rightarrow> profile \<Rightarrow> 'st \<Rightarrow>
     (core_error + (value_profile_id \<times> value_profile_summary) option) \<times> 'st" where
  "capture_value_profile E now cid p st =
     (case pe_value_profiles E of
        None \<Rightarrow> (Inr None, st)
      | Some store \<Rightarrow>
          (let snapshot = build_snapshot (d_sha256 (pe_digests E)) (d_base32 (pe_digests E)) (pe_to_vec E)
                 (promoted_id (pe_digests E) p) (generalized_canonical_json p) cid p now
           in case store snapshot st of
                (Inl e, st1) \<Rightarrow> (Inl e, st1)
              | (Inr _, st1) \<Rightarrow> (Inr (Some (vp_profile_id snapshot, snapshot_summary snapshot)), st1)))"

definition schema_draft ::
  "'st promoter \<Rightarrow> bytes \<Rightarrow> candidate_id \<Rightarrow> candidate_record \<Rightarrow> profile \<Rightarrow> promote_request \<Rightarrow> bytes \<Rightarrow>
     (value_profile_id \<times> value_profile_summary) option \<Rightarrow> schema_record" where
  "schema_draft E uuid cid rec p req actor vp =
     (let canonical = generalized_canonical_json p
      in \<lparr> rec_schema_id = promoted_id (pe_digests E) p,
           rec_family_id = chosen_family (pq_family req) uuid,
           rec_version = 0,
           rec_canonical = canonical,
           rec_canonicalizer = generalizer,
           rec_provenance = promotion_provenance cid rec req actor,
           rec_semantic = None,
           rec_semantic_fingerprint = None,
           rec_privacy_class = None,
           rec_value_profile_ref = map_option fst vp,
           rec_value_profile_summary = map_option snd vp,
           rec_structural_simhash = structural_simhash (d_sha256 (pe_digests E)) (pe_from_str E) canonical \<rparr>)"

text \<open>Publication, and the state transition whose failure is only logged.\<close>

definition publish_candidate ::
  "'st promoter \<Rightarrow> candidate_id \<Rightarrow> profile \<Rightarrow> schema_record \<Rightarrow> bytes \<Rightarrow> bytes \<Rightarrow> 'st \<Rightarrow>
     (core_error + schema_record) \<times> 'st" where
  "publish_candidate E cid p draft actor reason st =
     (let bucket = bucket_key (d_sha256 (pe_digests E)) (d_hex (pe_digests E)) (generalized_shape_summary p)
      in case ev_get_variants (pe_evidence E) cid st of
           Inl e \<Rightarrow> (Inl e, st)
         | Inr variants \<Rightarrow>
             (case pe_publish E draft cid bucket variants actor reason st of
                (Inl e, st1) \<Rightarrow> (Inl e, st1)
              | (Inr version, st1) \<Rightarrow>
                  (Inr (draft\<lparr> rec_version := version \<rparr>), snd (ev_set_state (pe_evidence E) cid StagedState st1))))"

definition promote ::
  "'st promoter \<Rightarrow> bytes \<Rightarrow> int \<Rightarrow> int \<Rightarrow> candidate_id \<Rightarrow> promote_request \<Rightarrow> bytes \<Rightarrow> 'st \<Rightarrow>
     (core_error + schema_record) \<times> 'st" where
  "promote E uuid now now' cid req actor st =
     (case ev_get_candidate (pe_evidence E) cid st of
        Inl e \<Rightarrow> (Inl e, st)
      | Inr None \<Rightarrow> (Inl NotFound, st)
      | Inr (Some rec) \<Rightarrow>
          if cand_state rec \<noteq> ProvisionalState then
            (Inl (PolicyRejected (''candidate is '' @ state_debug (cand_state rec) @
              ''; only Provisional candidates can be promoted'')), st)
          else
            (case policy_check (pe_policy E) rec now of
               Inl reason \<Rightarrow> (Inl (PolicyRejected reason), st)
             | Inr _ \<Rightarrow>
                 (case pe_from_value E (cand_profile rec) of
                    None \<Rightarrow> (Inl (RegistryUnavailable ''corrupt candidate profile''), st)
                  | Some p \<Rightarrow>
                      (case capture_value_profile E now' cid p st of
                         (Inl e, st1) \<Rightarrow> (Inl e, st1)
                       | (Inr vp, st1) \<Rightarrow>
                           publish_candidate E cid p (schema_draft E uuid cid rec p req actor vp) actor
                             (pq_reason req) st1))))"

end
