(* ===== verification/Cold_Lane_Facts.thy ===== *)
theory Cold_Lane_Facts
  imports Cold_Lane Vault_Contract
begin

text \<open>
  What ingestion does, proved once over any store that satisfies the contract of
  \<open>Evidence_Port\<close>: the lookup and the registration of cluster names, the effect of one
  ingestion, and the invariant of a run, that a candidate is the merge of its documents.
\<close>

section \<open>Cluster names\<close>

definition cluster_names :: "digests \<Rightarrow> bytes \<Rightarrow> node \<Rightarrow> bytes list" where
  "cluster_names D source nd =
     map (\<lambda>fp. scoped_gen_fp source (d_hex D fp))
       (reduced_generalized_fps (d_sha256 D) (profile_from_node nd))"

fun first_hit :: "('a \<Rightarrow> 'b option) \<Rightarrow> 'a list \<Rightarrow> 'b option" where
  "first_hit f [] = None"
| "first_hit f (x # xs) = (case f x of Some y \<Rightarrow> Some y | None \<Rightarrow> first_hit f xs)"

lemma first_hit_Some: "first_hit f xs = Some y \<Longrightarrow> \<exists>x\<in>set xs. f x = Some y"
  by (induction xs) (auto split: option.splits)

lemma first_hit_None: "first_hit f xs = None \<longleftrightarrow> (\<forall>x\<in>set xs. f x = None)"
  by (induction xs) (auto split: option.split)

lemma first_hit_cong: "(\<And>x. x \<in> set xs \<Longrightarrow> f x = g x) \<Longrightarrow> first_hit f xs = first_hit g xs"
  by (induction xs) (auto split: option.split)

lemma first_hit_hd: "xs \<noteq> [] \<Longrightarrow> f (hd xs) = Some y \<Longrightarrow> first_hit f xs = Some y"
  by (cases xs) auto

lemma cluster_names_ne [simp]: "cluster_names D source nd \<noteq> []"
  by (simp add: cluster_names_def reduced_generalized_fps_def)

section \<open>Profiles of growing lists of documents\<close>

lemma profile_of_single: "profile_of [nd] = profile_from_node nd"
  unfolding profile_of_def by (simp add: pm.mrg_unit)

lemma profile_of_snoc: "profile_of (ds @ [nd]) = profile_merge (profile_of ds) (profile_from_node nd)"
  by (simp add: profile_of_append profile_of_single)

section \<open>Ingestion over a store that keeps its contract\<close>

definition target_candidate :: "(bytes \<Rightarrow> candidate_id option) \<Rightarrow> bytes list \<Rightarrow> candidate_id \<Rightarrow> candidate_id" where
  "target_candidate cl names cid = (case first_hit cl names of Some c \<Rightarrow> c | None \<Rightarrow> cid)"

text \<open>The candidate an ingestion is about: the clustered one that the lane finds, or the given one.\<close>

definition ingest_target ::
  "('st, 'l) lane_env \<Rightarrow> candidate_id \<Rightarrow> node \<Rightarrow> bytes \<Rightarrow> 'st \<Rightarrow> candidate_id" where
  "ingest_target E cid nd source st =
     (case find_cluster (le_store E) (le_digests E) source
         (reduced_generalized_fps (d_sha256 (le_digests E)) (profile_from_node nd)) st of
        Inr (Some c) \<Rightarrow> c
      | _ \<Rightarrow> cid)"

text \<open>Some cluster names set to a candidate.\<close>

definition point_at :: "bytes set \<Rightarrow> candidate_id \<Rightarrow> (bytes \<Rightarrow> candidate_id option) \<Rightarrow> bytes \<Rightarrow> candidate_id option" where
  "point_at gs i cl g = (if g \<in> gs then Some i else cl g)"

lemma point_at_empty [simp]: "point_at {} i cl = cl"
  by (simp add: point_at_def fun_eq_iff)

locale cold_lane = evidence_contract "le_store E" valid intact cand cluster variants changes steady
  for E :: "('st, 'l) lane_env" and valid intact cand cluster variants changes steady +
  assumes serde: "profile_wf p \<Longrightarrow> \<exists>v. le_to_value E p = Some v \<and> le_from_value E v = Some p"
    and hex_plain: "CHR ''='' \<notin> set (d_hex (le_digests E) x)"
begin

abbreviation "DG \<equiv> le_digests E"

lemma find_cluster_contract:
  assumes "intact st"
  shows "find_cluster (le_store E) DG source fps st = Inr c \<Longrightarrow>
      c = first_hit (cluster st) (map (\<lambda>fp. scoped_gen_fp source (d_hex DG fp)) fps)"
    and "steady \<Longrightarrow> \<exists>c. find_cluster (le_store E) DG source fps st = Inr c"
proof -
  show "find_cluster (le_store E) DG source fps st = Inr c \<Longrightarrow>
      c = first_hit (cluster st) (map (\<lambda>fp. scoped_gen_fp source (d_hex DG fp)) fps)"
  proof (induction fps)
    case (Cons fp fps)
    then obtain y where y: "ev_get_cluster (le_store E) (scoped_gen_fp source (d_hex DG fp)) st = Inr y"
      by (auto split: sum.splits)
    with Cons get_cluster [OF assms y] show ?case by (auto split: option.splits)
  qed simp
  assume steady
  then show "\<exists>c. find_cluster (le_store E) DG source fps st = Inr c"
  proof (induction fps)
    case (Cons fp fps)
    obtain y where y: "ev_get_cluster (le_store E) (scoped_gen_fp source (d_hex DG fp)) st = Inr y"
      using steady_reads(2) [OF Cons.prems assms] by blast
    with Cons show ?case by (cases y) auto
  qed simp
qed

lemma set_clusters_contract:
  assumes "intact st" "valid i" "set_clusters (le_store E) DG source i fps st = (res, st')"
    and "names = (\<lambda>fp. scoped_gen_fp source (d_hex DG fp)) ` set fps"
  shows "intact st' \<and> cand st' = cand st \<and> variants st' = variants st \<and>
    (\<exists>gs\<subseteq>names. cluster st' = point_at gs i (cluster st) \<and> (res = Inr () \<longrightarrow> gs = names)) \<and>
    (steady \<longrightarrow> res = Inr ())"
  using assms
proof (induction fps arbitrary: st names)
  case Nil
  then show ?case by (auto simp: fun_eq_iff point_at_def)
next
  case (Cons fp fps)
  let ?g = "scoped_gen_fp source (d_hex DG fp)"
  let ?rest = "(\<lambda>fp. scoped_gen_fp source (d_hex DG fp)) ` set fps"
  obtain r st1 where r: "ev_set_cluster (le_store E) ?g i st = (r, st1)" by fastforce
  note s1 = set_cluster [OF Cons.prems(1,2) r]
  have cl1: "\<exists>gs\<subseteq>{?g}. cluster st1 = point_at gs i (cluster st) \<and> (r = Inr () \<longrightarrow> gs = {?g})"
  proof (cases "st1 = st \<and> r \<noteq> Inr ()")
    case True
    then show ?thesis by (intro exI [of _ "{}"]) (auto simp: point_at_def fun_eq_iff)
  next
    case False
    then show ?thesis using s1 by (intro exI [of _ "{?g}"]) (auto simp: point_at_def fun_eq_iff)
  qed
  have same: "cand st1 = cand st" "variants st1 = variants st" using s1 by auto
  have st: "steady \<longrightarrow> r = Inr ()" using steady_writes(2) [of st ?g i] Cons.prems(1) r by simp
  show ?case
  proof (cases r)
    case (Inl e)
    then have "res = Inl e" "st' = st1" using Cons.prems(3) r by simp_all
    then show ?thesis using s1 cl1 same st Inl Cons.prems(4) by auto
  next
    case (Inr u)
    then have run: "set_clusters (le_store E) DG source i fps st1 = (res, st')" using Cons.prems(3) r by simp
    note ih = Cons.IH [OF _ Cons.prems(2) this refl]
    have c1: "cluster st1 = point_at {?g} i (cluster st)" using cl1 Inr by auto
    obtain gs where gs: "gs \<subseteq> ?rest" "cluster st' = point_at gs i (cluster st1)" "res = Inr () \<longrightarrow> gs = ?rest"
      using ih s1 by blast
    have "cluster st' = point_at (insert ?g gs) i (cluster st)"
      by (auto simp: gs(2) c1 point_at_def fun_eq_iff)
    then show ?thesis using ih s1 same gs Cons.prems(4)
      by (intro conjI exI [of _ "insert ?g gs"]) auto
  qed
qed

lemma concrete_bucket_plain: "CHR ''='' \<notin> set (fst (concrete_variant DG nd))"
  using bucket_key_index_key [OF hex_plain] by (simp add: concrete_variant_def Let_def index_key_def)

lemma record_evidence_contract:
  assumes "intact st" "valid i" "profile_wf p"
    and run: "record_evidence E i nd source fps p st = (res, st')"
    and names: "names = (\<lambda>fp. scoped_gen_fp source (d_hex DG fp)) ` set fps"
  shows "intact st' \<and> cand st' = cand st \<and>
    (\<exists>gs\<subseteq>names. cluster st' = point_at gs i (cluster st) \<and> (res = Inr () \<longrightarrow> gs = names)) \<and>
    (variants st' = (variants st)(i := insert (concrete_variant DG nd) (variants st i)) \<or>
     variants st' = variants st \<and> res \<noteq> Inr ()) \<and>
    (steady \<longrightarrow> res = Inr ())"
proof -
  obtain r1 st1 where r1: "set_clusters (le_store E) DG source i fps st = (r1, st1)" by fastforce
  note s1 = set_clusters_contract [OF assms(1,2) r1 names]
  obtain b f where bf: "concrete_variant DG nd = (b, f)" by fastforce
  obtain r2 st2 where r2: "ev_add_variant (le_store E) i b f st1 = (r2, st2)" by fastforce
  have s2: "intact st2 \<and> (st2 = st1 \<and> r2 \<noteq> Inr () \<or> cand st2 = cand st1 \<and> cluster st2 = cluster st1 \<and>
      variants st2 = (variants st1)(i := insert (b, f) (variants st1 i)))"
    using add_variant [OF _ _ r2] s1 concrete_bucket_plain [of nd] bf by simp
  have t2: "steady \<longrightarrow> r2 = Inr ()" using steady_writes(3) [of st1 i b f] s1 r2 by simp
  obtain v where v: "le_to_value E p = Some v" using serde [OF assms(3)] by blast
  obtain r3 st3 where r3: "ev_append_evidence (le_store E) i v st2 = (r3, st3)" by fastforce
  have s3: "intact st3 \<and> cand st3 = cand st2 \<and> cluster st3 = cluster st2 \<and> variants st3 = variants st2"
    using append_evidence [OF _ r3] s2 by blast
  have t3: "steady \<longrightarrow> r3 = Inr ()" using steady_writes(4) [of st2 i v] s2 r3 by simp
  show ?thesis
  proof (cases r1)
    case (Inl e)
    then have "res = Inl e" "st' = st1" using run r1 by (simp_all add: record_evidence_def)
    then show ?thesis using s1 Inl by auto
  next
    case r1': (Inr u)
    then obtain c1: "cluster st1 = point_at names i (cluster st)" using s1 by auto
    show ?thesis
    proof (cases r2)
      case (Inl e)
      then have "res = Inl e" "st' = st2" using run r1 r1' r2 bf by (simp_all add: record_evidence_def)
      then show ?thesis using s1 s2 t2 Inl c1 bf by auto
    next
      case (Inr w)
      then have "res = r3" "st' = st3" using run r1 r1' r2 bf v r3 by (simp_all add: record_evidence_def)
      then show ?thesis using s1 s2 s3 t3 Inr c1 bf by auto
    qed
  qed
qed

text \<open>
  One ingestion: it leaves the store as it is, refused by the rate limiter or failed, or it counts
  the document; when it fails after that, some cluster names and the variant may be missing.
\<close>

lemma ingest_contract:
  assumes ok: "intact (l_store L)" and cid: "valid cid"
    and profile: "\<And>rec. cand (l_store L) (target_candidate (cluster (l_store L)) (cluster_names DG (sm_source meta) nd) cid) = Some rec \<Longrightarrow>
      \<exists>p. le_from_value E (cand_profile rec) = Some p \<and> profile_wf p"
    and run: "ingest E cid nd meta now L = (res, L')"
  defines "names \<equiv> cluster_names DG (sm_source meta) nd" and "st \<equiv> l_store L" and "st' \<equiv> l_store L'"
  defines "i \<equiv> target_candidate (cluster st) names cid"
  shows "intact st' \<and> valid i \<and> (steady \<longrightarrow> (\<exists>outcome. res = Inr outcome)) \<and>
    (st' = st \<and> ((\<exists>e. res = Inl e) \<or> res = Inr RateLimited \<and> cand st i = None \<and> \<not> fst (le_limit E (sm_source meta) (l_limiter L))) \<or>
     (\<exists>p v gs. ingest_target E cid nd (sm_source meta) st = i \<and>
        (cand st i = None \<longrightarrow> fst (le_limit E (sm_source meta) (l_limiter L))) \<and>
        p = (case cand st i of None \<Rightarrow> profile_from_node nd
             | Some rec \<Rightarrow> profile_merge (the (le_from_value E (cand_profile rec))) (profile_from_node nd)) \<and>
        le_from_value E v = Some p \<and>
        cand st' = (cand st)(i \<mapsto> candidate_after (cand st i) i v (sm_source meta) now) \<and>
        gs \<subseteq> set names \<and> cluster st' = point_at gs i (cluster st) \<and>
        (variants st' = variants st \<or>
         variants st' = (variants st)(i := insert (concrete_variant DG nd) (variants st i))) \<and>
        ((\<exists>e. res = Inl e) \<or> res = Inr (Ingested i (cand st i = None)) \<and> gs = set names \<and>
         variants st' = (variants st)(i := insert (concrete_variant DG nd) (variants st i)))))"
    (is "intact st' \<and> valid i \<and> ?steady \<and> (?kept \<or> ?counted)")
proof -
  define source where "source = sm_source meta"
  define obs where "obs = profile_from_node nd"
  define fps where "fps = reduced_generalized_fps (d_sha256 DG) obs"
  have names: "map (\<lambda>fp. scoped_gen_fp source (d_hex DG fp)) fps = names"
    by (simp add: names_def cluster_names_def fps_def obs_def source_def)
  have nm: "set names = (\<lambda>fp. scoped_gen_fp source (d_hex DG fp)) ` set fps" by (simp add: names [symmetric])
  have it: "intact st" using ok by (simp add: st_def)
  have v: "valid i"
    using cid cluster_valid [OF it] first_hit_Some [of "cluster st" names]
    by (auto simp: i_def target_candidate_def split: option.split)
  have run0: "(res, L') = (case find_cluster (le_store E) DG source fps st of
      Inl e \<Rightarrow> (Inl e, L)
    | Inr clustered \<Rightarrow>
       (let j = (case clustered of Some c \<Rightarrow> c | None \<Rightarrow> cid)
        in case ev_get_candidate (le_store E) j st of
             Inl e \<Rightarrow> (Inl e, L)
           | Inr existing \<Rightarrow>
             (let (admitted, limiter) = (if existing = None then le_limit E source (l_limiter L) else (True, l_limiter L));
                  L1 = L\<lparr> l_limiter := limiter \<rparr>
              in if admitted then store_observation E j existing obs nd source fps now L1 else (Inr RateLimited, L1))))"
    unfolding fps_def obs_def source_def st_def using run [symmetric] by (simp only: ingest_def Let_def)
  show ?thesis
  proof (cases "find_cluster (le_store E) DG source fps st")
    case (Inl e)
    then have "res = Inl e" "st' = st" using run0 by (simp_all add: st_def st'_def)
    moreover have "\<not> steady" using find_cluster_contract(2) [OF it, of source fps] Inl by auto
    ultimately show ?thesis using it v by simp
  next
    case c: (Inr clustered)
    have cl: "clustered = first_hit (cluster st) names"
      using find_cluster_contract(1) [OF it c] by (simp add: names)
    have j: "(case clustered of Some c \<Rightarrow> c | None \<Rightarrow> cid) = i" by (simp add: i_def target_candidate_def cl)
    have tgt: "ingest_target E cid nd (sm_source meta) st = i"
      using c j by (simp add: ingest_target_def source_def fps_def obs_def split: option.split)
    show ?thesis
    proof (cases "ev_get_candidate (le_store E) i st")
      case (Inl e)
      then have "res = Inl e" "st' = st" using run0 c j by (simp_all add: st_def st'_def Let_def)
      moreover have "\<not> steady" using steady_reads(1) [OF _ it, of i] Inl by auto
      ultimately show ?thesis using it v by simp
    next
      case (Inr x)
      have x: "x = cand st i" by (rule get_candidate [OF it Inr])
      obtain adm lim where al: "(if cand st i = None then le_limit E source (l_limiter L) else (True, l_limiter L)) = (adm, lim)"
        by fastforce
      have run1: "(res, L') = (if adm then store_observation E i (cand st i) obs nd source fps now (L\<lparr> l_limiter := lim \<rparr>)
           else (Inr RateLimited, L\<lparr> l_limiter := lim \<rparr>))"
        using run0 c j Inr x al by (simp add: Let_def del: if_split)
      show ?thesis
      proof (cases adm)
        case False
        then have "cand st i = None \<and> le_limit E source (l_limiter L) = (False, lim)"
          using al by (simp split: if_splits)
        moreover have "res = Inr RateLimited" "st' = st" using run1 False by (simp_all add: st_def st'_def)
        ultimately show ?thesis using it v by (simp add: source_def)
      next
        case True
        then have lim: "cand st i = None \<longrightarrow> fst (le_limit E source (l_limiter L))"
          using al by (auto split: if_splits)
        define p where "p = (case cand st i of None \<Rightarrow> obs
                   | Some rec \<Rightarrow> profile_merge (the (le_from_value E (cand_profile rec))) obs)"
        have m: "merged_with E (cand st i) obs = Inr p \<and> profile_wf p"
        proof (cases "cand st i")
          case None
          then show ?thesis by (simp add: merged_with_def p_def obs_def)
        next
          case (Some rec)
          with profile [of rec] obtain q where "le_from_value E (cand_profile rec) = Some q" "profile_wf q"
            by (auto simp: st_def i_def names_def)
          then show ?thesis using Some
            by (simp add: merged_with_def p_def ok_or_def obs_def pm.ok_mrg)
        qed
        obtain w where w: "le_to_value E p = Some w" "le_from_value E w = Some p" using serde m by blast
        define rec where "rec = candidate_after (cand st i) i w source now"
        have p': "p = (case cand st i of None \<Rightarrow> profile_from_node nd
             | Some rec \<Rightarrow> profile_merge (the (le_from_value E (cand_profile rec))) (profile_from_node nd))"
          by (simp only: p_def obs_def)
        have rec': "rec = candidate_after (cand st i) i w (sm_source meta) now" by (simp only: rec_def source_def)
        have rid: "cand_id rec = i" by (simp add: rec_def candidate_after_def)
        obtain r1 st1 where r1: "ev_upsert_candidate (le_store E) rec st = (r1, st1)" by fastforce
        note u = upsert_candidate [OF it r1, unfolded rid]
        have t1: "steady \<longrightarrow> r1 = Inr ()" using steady_writes(1) [of st rec] it r1 by simp
        show ?thesis
        proof (cases r1)
          case (Inl e)
          then have fin: "res = Inl e" "st' = st1"
            using run1 True m w(1) r1 [unfolded rec_def]
            by (simp_all add: store_observation_def st_def st'_def)
          show ?thesis
          proof (cases "st1 = st")
            case True
            then show ?thesis using fin it v t1 Inl by auto
          next
            case False
            then have "?counted"
              using u fin lim w(2) tgt p' rec' point_at_empty
              by (intro exI [of _ p] exI [of _ w] exI [of _ "{}"]) (simp add: source_def)
            then show ?thesis using fin u v t1 Inl by auto
          qed
        next
          case up: (Inr un)
          have u1: "cand st1 = (cand st)(i \<mapsto> rec)" "cluster st1 = cluster st" "variants st1 = variants st" "intact st1"
            using u up by auto
          obtain r2 st2 where r2: "record_evidence E i nd source fps obs st1 = (r2, st2)" by fastforce
          note e = record_evidence_contract [OF u1(4) v _ r2 nm]
          have wf: "profile_wf obs" by (simp add: obs_def)
          obtain gs where gs: "gs \<subseteq> set names" "cluster st2 = point_at gs i (cluster st1)" "r2 = Inr () \<longrightarrow> gs = set names"
            using e [OF wf] by blast
          have fin: "st' = st2" "res = (case r2 of Inl e \<Rightarrow> Inl e | Inr _ \<Rightarrow> Inr (Ingested i (cand st i = None)))"
            using run1 True m w(1) r1 [unfolded rec_def] r2 up
            by (auto simp: store_observation_def Let_def st_def st'_def split: sum.splits)
          have "?counted"
            by (rule exI [of _ p], rule exI [of _ w], rule exI [of _ gs])
              (use e [OF wf] gs fin u1 lim w(2) tgt p' rec' in \<open>auto simp: source_def split: sum.splits\<close>)
          then show ?thesis using e [OF wf] fin v by auto
        qed
      qed
    qed
  qed
qed

end

end
