(* ===== verification/Promotion_Frames.thy ===== *)
theory Promotion_Frames
  imports Promotion Cold_Lane_Facts
begin

text \<open>
  The store of value profiles (\<open>deblob-redis/src/value_profile.rs\<close>), and which keys the stores
  that share one server leave to each other: a publish and a value profile do not touch what the
  evidence store keeps, a value profile does not touch the vault.
\<close>

section \<open>Value profiles in Redis\<close>

definition profile_key :: "value_profile_id \<Rightarrow> bytes" where
  "profile_key i = ''deblob:value-profile:'' @ value_profile_str i"

definition put_value_profile ::
  "'st redis \<Rightarrow> value_profile_snapshot codec \<Rightarrow> value_profile_snapshot \<Rightarrow> 'st \<Rightarrow> (core_error + unit) \<times> 'st" where
  "put_value_profile R C snapshot =
     round_trip R RegistryUnavailable ''value_profile''
       (\<lambda>st. (Inr (), r_set R (profile_key (vp_profile_id snapshot)) (enc C snapshot) st))"

definition get_value_profile ::
  "'st redis \<Rightarrow> value_profile_snapshot codec \<Rightarrow> value_profile_id \<Rightarrow> 'st \<Rightarrow>
     core_error + value_profile_snapshot option" where
  "get_value_profile R C i st =
     result_bind (read_trip R RegistryUnavailable ''value_profile_get'' (Inr (r_get R (profile_key i) st)) st) (\<lambda>json.
       case json of
         Some j \<Rightarrow> map_sum id Some (ok_or (RegistryUnavailable ''corrupt value profile'') (dec C j))
       | None \<Rightarrow> Inr None)"

section \<open>Keys of other stores\<close>

lemma other_stores:
  "''deblob:c'' @ x \<noteq> schema_key s" "''deblob:c'' @ x \<noteq> family_key f" "''deblob:c'' @ x \<noteq> alias_key a"
  "''deblob:c'' @ x \<noteq> published_key s" "''deblob:c'' @ x \<noteq> schema_index_key" "''deblob:c'' @ x \<noteq> audit_key"
  "''deblob:c'' @ x \<noteq> profile_key i" "index_key k \<Longrightarrow> ''deblob:c'' @ x \<noteq> k" "\<not> vault_key (profile_key i)"
  by (auto simp: schema_key_def family_key_def alias_key_def published_key_def schema_index_key_def
      audit_key_def profile_key_def index_key_def vault_key_def)

context redis_service
begin

lemma put_value_profile_frames:
  assumes "put_value_profile R C sn st = (res, st')"
  shows "res = Inr () \<or> (\<exists>m. res = Inl (RegistryUnavailable m) \<and> link_fails R m)"
    "same_vault (view st) (view st')" "same_evidence (view st) (view st')"
proof -
  define k where "k = profile_key (vp_profile_id sn)"
  let ?f = "\<lambda>st. (Inr (), r_set R k (enc C sn) st) :: (core_error + unit) \<times> 'st"
  have o: "res = Inr () \<or> (\<exists>m. res = Inl (RegistryUnavailable m) \<and> link_fails R m)"
    "st' = st \<or> st' = r_set R k (enc C sn) st"
    using round_trip_outcome [OF assms [unfolded put_value_profile_def k_def [symmetric]]] by auto
  show "res = Inr () \<or> (\<exists>m. res = Inl (RegistryUnavailable m) \<and> link_fails R m)" by (rule o(1))
  have nv: "\<not> vault_key k" unfolding k_def by (rule other_stores(9))
  show "same_vault (view st) (view st')"
    using o(2) same_vault_writes(5) [OF nv] same_vault_refl by auto
  have "''deblob:c'' @ x \<noteq> k" for x unfolding k_def by (rule other_stores(7))
  then show "same_evidence (view st) (view st')"
    using o(2) by (auto simp: same_evidence_def set simp del: append.simps)
qed

text \<open>A key that a publish does not name is left alone.\<close>

lemma publish_version_frame:
  assumes "publish_version R c st = Some (v, st1)" "k \<noteq> k_family c" "k \<noteq> k_published c"
  shows "strs (view st1) k = strs (view st) k" "hashes (view st1) k = hashes (view st) k"
    "sets (view st1) k = sets (view st) k"
proof -
  have "strs (view st1) k = strs (view st) k \<and> hashes (view st1) k = hashes (view st) k \<and>
    sets (view st1) k = sets (view st) k"
  proof (cases "strs (view st) (k_published c)")
    case (Some p)
    then show ?thesis using publish_version_published [OF Some] assms by simp
  next
    case None
    show ?thesis
    proof (cases "incremented (hashes (view st) (k_family c) ''next_version'') 1")
      case (Some i)
      obtain st2 where st2: "publish_version R c st = Some (Some i, st2)"
        "\<And>k f. hashes (view st2) k f =
          (if k = k_family c \<and> f = ''next_version'' then Some (int_dec i)
           else if k = k_family c \<and> f = ''v:'' @ int_dec i then Some (a_schema_id c)
           else if k = k_family c \<and> f = ''family_id'' then Some (a_family_id c)
           else hashes (view st) k f)"
        "strs (view st2) = (strs (view st))(k_published c \<mapsto> int_dec i)" "sets (view st2) = sets (view st)"
        by (rule publish_version_fresh [OF None Some], rule that)
      have "hashes (view st2) k = hashes (view st) k" using assms(2) by (intro ext) (simp add: st2(2))
      moreover have "strs (view st2) k = strs (view st) k" using assms(3) by (simp add: st2(3))
      moreover have "st1 = st2" using st2(1) assms(1) by simp
      ultimately show ?thesis by (simp add: st2(4))
    qed (use publish_version_overflow [OF None] assms in simp)
  qed
  then show "strs (view st1) k = strs (view st) k" "hashes (view st1) k = hashes (view st) k"
    "sets (view st1) k = sets (view st) k" by blast+
qed

lemma publish_script_frame:
  assumes run: "publish_script R c st = (r, st')"
    and k: "k \<notin> {k_schema c, k_family c, k_alias c, k_published c, k_index c, k_schema_index c}"
    "\<And>m. (k, m) \<notin> set (zip (k_variants c) (a_variant_members c))"
  shows "strs (view st') k = strs (view st) k \<and> hashes (view st') k = hashes (view st) k \<and>
    sets (view st') k = sets (view st) k"
proof (cases "publish_guard R c st")
  case None
  show ?thesis
  proof (cases "publish_version R c st")
    case (Some v)
    obtain w st1 where v: "v = (w, st1)" by fastforce
    note s1 = publish_version_frame [OF Some [unfolded v], of k]
    show ?thesis
      by (rule publish_script_effect [OF None Some [unfolded v]]) (use s1 k run in \<open>auto simp: fun_eq_iff\<close>)
  qed (use None publish_script_aborted run in simp)
qed (use publish_script_rejected run in simp)

lemma publish_same_evidence:
  assumes ok: "publish_ok b32 rec bkey vs"
    and run: "publish R C V health rec al bkey vs ac re now st = (res, st')"
  shows "same_evidence (view st) (view st')"
proof -
  let ?c = "publish_call_of C V rec al bkey vs ac re now"
  obtain r st1 where r: "publish_script R ?c st = (r, st1)" by fastforce
  have idx: "''deblob:c'' @ x \<noteq> bkey" "(''deblob:c'' @ x, fp) \<notin> set vs" for x fp
    using ok other_stores(8) by (fastforce simp: publish_ok_def variants_ok_def)+
  have si: "k_schema_index ?c = schema_index_key" by (simp add: publish_call_of_def)
  have "same_evidence (view st) (view st1)"
    unfolding same_evidence_def
  proof
    fix x
    have "''deblob:c'' @ x \<notin> {k_schema ?c, k_family ?c, k_alias ?c, k_published ?c, k_index ?c, k_schema_index ?c}"
      unfolding publish_call_sel si using other_stores(1-5) idx(1) by blast
    moreover have "(''deblob:c'' @ x, m) \<notin> set (zip (k_variants ?c) (a_variant_members ?c))" for m
      unfolding publish_call_variants using idx(2) [of x] by (auto simp del: append.simps)
    ultimately show "strs (view st1) (''deblob:c'' @ x) = strs (view st) (''deblob:c'' @ x) \<and>
        hashes (view st1) (''deblob:c'' @ x) = hashes (view st) (''deblob:c'' @ x) \<and>
        sets (view st1) (''deblob:c'' @ x) = sets (view st) (''deblob:c'' @ x)"
      by (rule publish_script_frame [OF r])
  qed
  then show ?thesis using r same_evidence_refl by (cases rule: publish_cases [OF run]) auto
qed

lemma publish_keeps_inv:
  assumes "vault_inv b32 C V (view st)" "publish_ok b32 rec bkey vs"
    and run: "publish R C V health rec al bkey vs ac re now st = (res, st')"
  shows "vault_inv b32 C V (view st')"
proof -
  show ?thesis
    by (cases rule: publish_cases [OF run]) (use assms(1) publish_script_inv [OF assms(1,2)] in auto)
qed

lemma publish_keeps_vault:
  assumes "vault_inv b32 C V (view st)" and run: "publish R C V health rec al bkey vs ac re now st = (res, st')"
  shows "vault_keeps (view st) (view st')"
  by (cases rule: publish_cases [OF run]) (use vault_keeps_refl publish_script_keeps [OF assms(1)] in auto)

end

end
