(* ===== verification/Lane_Run.thy ===== *)
theory Lane_Run
  imports Cold_Lane_Facts
begin

text \<open>
  A run of the cold lane: documents that the hot path found new are ingested under the id it
  gave them, one after the other, while others move candidates between states, keys expire and
  other stores are written. Any call may fail. The log of a run is what the lane has counted and
  what was lost since; the invariant says what the store holds of it.
\<close>

section \<open>Runs\<close>

text \<open>The id under which \<open>HotMatcher::classify\<close> hands a new shape on.\<close>

definition observed_id :: "digests \<Rightarrow> bytes \<Rightarrow> node \<Rightarrow> candidate_id" where
  "observed_id D source nd =
     candidate_id_from_source_and_digest (d_sha256 D) (d_base32 D) source (fingerprint (d_sha256 D) (shape_of nd))"

text \<open>
  \<open>Counted\<close> is an ingestion that changed the store; its flag says that it reported success, so that
  cluster names and variant were written too. \<open>Elsewhere\<close> is a write to other keys.
\<close>

datatype lane_event =
    Counted candidate_id bytes node bool
  | Moved candidate_id candidate_state
  | Expired expiry
  | Elsewhere

type_synonym lane_log = "lane_event list"

definition counted_by ::
  "('st, 'l) lane_env \<Rightarrow> candidate_id \<Rightarrow> bytes \<Rightarrow> node \<Rightarrow> ('st, 'l) lane \<Rightarrow>
     (core_error + ingest_outcome) \<times> ('st, 'l) lane \<Rightarrow> lane_log" where
  "counted_by E cid source nd L out =
     (if l_store (snd out) = l_store L then []
      else [Counted (ingest_target E cid nd source (l_store L)) source nd (\<not> isl (fst out))])"

definition outside_event :: "expiry option \<Rightarrow> lane_event" where
  "outside_event t = (case t of Some x \<Rightarrow> Expired x | None \<Rightarrow> Elsewhere)"

text \<open>\<open>X\<close> says what may happen outside.\<close>

inductive lane_step ::
  "('st, 'l) lane_env \<Rightarrow> (expiry option \<Rightarrow> 'st \<Rightarrow> 'st \<Rightarrow> bool) \<Rightarrow>
     ('st, 'l) lane \<times> lane_log \<Rightarrow> ('st, 'l) lane \<times> lane_log \<Rightarrow> bool"
  for E :: "('st, 'l) lane_env" and X where
  lane_ingest: "ingest E (observed_id (le_digests E) (sm_source meta) nd) nd meta now L = (res, L') \<Longrightarrow>
     lane_step E X (L, hist)
       (L', hist @ counted_by E (observed_id (le_digests E) (sm_source meta) nd) (sm_source meta) nd L (res, L'))"
| lane_move: "ev_get_candidate (le_store E) i (l_store L) = Inr (Some rec) \<Longrightarrow>
     cand_state rec \<noteq> RejectedState \<Longrightarrow>
     ev_set_state (le_store E) i s (l_store L) = (res, st') \<Longrightarrow>
     lane_step E X (L, hist) (L\<lparr> l_store := st' \<rparr>, hist @ [Moved i s])"
| lane_outside: "X t (l_store L) st' \<Longrightarrow>
     lane_step E X (L, hist) (L\<lparr> l_store := st' \<rparr>, hist @ [outside_event t])"

definition lane_run ::
  "('st, 'l) lane_env \<Rightarrow> (expiry option \<Rightarrow> 'st \<Rightarrow> 'st \<Rightarrow> bool) \<Rightarrow>
     ('st, 'l) lane \<times> lane_log \<Rightarrow> ('st, 'l) lane \<times> lane_log \<Rightarrow> bool" where
  "lane_run E X = (lane_step E X)\<^sup>*\<^sup>*"

lemma lane_run_refl [simp]: "lane_run E X x x"
  by (simp add: lane_run_def)

lemma lane_run_trans: "lane_run E X x y \<Longrightarrow> lane_run E X y z \<Longrightarrow> lane_run E X x z"
  unfolding lane_run_def by (rule rtranclp_trans)

lemma lane_run_step: "lane_step E X x y \<Longrightarrow> lane_run E X x y"
  unfolding lane_run_def by (rule r_into_rtranclp)

lemma lane_run_mono:
  assumes "lane_run E X x y" "\<And>t st st'. X t st st' \<Longrightarrow> Y t st st'"
  shows "lane_run E Y x y"
proof -
  have "lane_step E Y a b" if "lane_step E X a b" for a b
    using that by cases (auto intro: lane_step.intros assms(2))
  then have "lane_step E X \<le> lane_step E Y" by blast
  then show ?thesis using assms(1) rtranclp_mono unfolding lane_run_def by blast
qed

section \<open>Reading a log\<close>

text \<open>What was picked since the last event that clears.\<close>

definition since :: "(lane_event \<Rightarrow> 'a list) \<Rightarrow> lane_event \<Rightarrow> lane_log \<Rightarrow> 'a list" where
  "since pick clear hist = foldl (\<lambda>xs ev. if ev = clear then [] else xs @ pick ev) [] hist"

definition counted_in :: "candidate_id \<Rightarrow> lane_event \<Rightarrow> node list" where
  "counted_in i ev = (case ev of Counted j s nd c \<Rightarrow> if j = i then [nd] else [] | _ \<Rightarrow> [])"

definition completed_in :: "candidate_id \<Rightarrow> lane_event \<Rightarrow> node list" where
  "completed_in i ev = (case ev of Counted j s nd c \<Rightarrow> if j = i \<and> c then [nd] else [] | _ \<Rightarrow> [])"

definition named_in :: "digests \<Rightarrow> bytes \<Rightarrow> lane_event \<Rightarrow> candidate_id list" where
  "named_in D g ev = (case ev of Counted j s nd c \<Rightarrow> if c \<and> g \<in> set (cluster_names D s nd) then [j] else [] | _ \<Rightarrow> [])"

text \<open>
  The documents counted into a candidate since it last expired; those whose variants were surely,
  and at most, recorded since the variants expired; the candidates a cluster name was given to.
\<close>

definition docs_of :: "candidate_id \<Rightarrow> lane_log \<Rightarrow> node list" where
  "docs_of i = since (counted_in i) (Expired (CandidateKey i))"

definition kept_docs :: "candidate_id \<Rightarrow> lane_log \<Rightarrow> node list" where
  "kept_docs i = since (completed_in i) (Expired (VariantsKey i))"

definition seen_docs :: "candidate_id \<Rightarrow> lane_log \<Rightarrow> node list" where
  "seen_docs i = since (counted_in i) (Expired (VariantsKey i))"

definition named :: "digests \<Rightarrow> bytes \<Rightarrow> lane_log \<Rightarrow> candidate_id list" where
  "named D g = since (named_in D g) (Expired (ClusterKey g))"

lemma since_Nil [simp]: "since pick clear [] = []"
  by (simp add: since_def)

lemma since_snoc: "since pick clear (hist @ [ev]) = (if ev = clear then [] else since pick clear hist @ pick ev)"
  by (simp add: since_def)

lemma since_uncleared: "clear \<notin> set hist \<Longrightarrow> since pick clear hist = concat (map pick hist)"
  by (induction hist rule: rev_induct) (auto simp: since_snoc)

lemma docs_of_simps [simp]:
  "docs_of i [] = []"
  "docs_of i (hist @ [Counted j s nd c]) = docs_of i hist @ (if j = i then [nd] else [])"
  "docs_of i (hist @ [Moved j st]) = docs_of i hist"
  "docs_of i (hist @ [Expired x]) = (if x = CandidateKey i then [] else docs_of i hist)"
  "docs_of i (hist @ [Elsewhere]) = docs_of i hist"
  by (simp_all add: docs_of_def since_snoc counted_in_def)

lemma kept_docs_simps [simp]:
  "kept_docs i [] = []"
  "kept_docs i (hist @ [Counted j s nd c]) = kept_docs i hist @ (if j = i \<and> c then [nd] else [])"
  "kept_docs i (hist @ [Moved j st]) = kept_docs i hist"
  "kept_docs i (hist @ [Expired x]) = (if x = VariantsKey i then [] else kept_docs i hist)"
  "kept_docs i (hist @ [Elsewhere]) = kept_docs i hist"
  by (simp_all add: kept_docs_def since_snoc completed_in_def)

lemma seen_docs_simps [simp]:
  "seen_docs i [] = []"
  "seen_docs i (hist @ [Counted j s nd c]) = seen_docs i hist @ (if j = i then [nd] else [])"
  "seen_docs i (hist @ [Moved j st]) = seen_docs i hist"
  "seen_docs i (hist @ [Expired x]) = (if x = VariantsKey i then [] else seen_docs i hist)"
  "seen_docs i (hist @ [Elsewhere]) = seen_docs i hist"
  by (simp_all add: seen_docs_def since_snoc counted_in_def)

lemma named_simps [simp]:
  "named D g [] = []"
  "named D g (hist @ [Counted j s nd c]) = named D g hist @ (if c \<and> g \<in> set (cluster_names D s nd) then [j] else [])"
  "named D g (hist @ [Moved j st]) = named D g hist"
  "named D g (hist @ [Expired x]) = (if x = ClusterKey g then [] else named D g hist)"
  "named D g (hist @ [Elsewhere]) = named D g hist"
  by (simp_all add: named_def since_snoc named_in_def)

text \<open>While nothing expires, every counted document stays.\<close>

definition unexpired :: "lane_log \<Rightarrow> bool" where
  "unexpired hist \<longleftrightarrow> (\<forall>i. Expired (CandidateKey i) \<notin> set hist) \<and> (\<forall>g. Expired (ClusterKey g) \<notin> set hist)"

lemma unexpired_docs:
  assumes "unexpired hist" "Counted i s nd c \<in> set hist"
  shows "nd \<in> set (docs_of i hist)"
proof -
  have "docs_of i hist = concat (map (counted_in i) hist)"
    using assms(1) by (simp add: docs_of_def unexpired_def since_uncleared)
  moreover have "nd \<in> set (counted_in i (Counted i s nd c))" by (simp add: counted_in_def)
  ultimately show ?thesis using assms(2) by auto
qed

lemma unexpired_named:
  assumes "unexpired hist" "Counted i s nd True \<in> set hist" "g \<in> set (cluster_names D s nd)"
  shows "i \<in> set (named D g hist)"
proof -
  have "named D g hist = concat (map (named_in D g) hist)"
    using assms(1) by (simp add: named_def unexpired_def since_uncleared)
  moreover have "i \<in> set (named_in D g (Counted i s nd True))" using assms(3) by (simp add: named_in_def)
  ultimately show ?thesis using assms(2) by auto
qed

section \<open>What the store holds of a log\<close>

text \<open>A candidate's record and its documents.\<close>

definition tracks :: "(json \<Rightarrow> profile option) \<Rightarrow> candidate_id \<Rightarrow> node list \<Rightarrow> candidate_record \<Rightarrow> bool" where
  "tracks from_value i ds rec \<longleftrightarrow>
     cand_id rec = i \<and> from_value (cand_profile rec) = Some (profile_of ds) \<and>
     sample_count rec = of_nat (length ds)"

definition lane_candidates ::
  "('st, 'l) lane_env \<Rightarrow> (candidate_id \<Rightarrow> candidate_record option) \<Rightarrow> lane_log \<Rightarrow> bool" where
  "lane_candidates E cs hist \<longleftrightarrow>
     (\<forall>i. if docs_of i hist = [] then cs i = None
          else \<exists>rec. cs i = Some rec \<and> tracks (le_from_value E) i (docs_of i hist) rec)"

definition lane_variants :: "digests \<Rightarrow> (candidate_id \<Rightarrow> (bytes \<times> bytes) set) \<Rightarrow> lane_log \<Rightarrow> bool" where
  "lane_variants D vs hist \<longleftrightarrow>
     (\<forall>i. concrete_variant D ` set (kept_docs i hist) \<subseteq> vs i \<and> vs i \<subseteq> concrete_variant D ` set (seen_docs i hist))"

text \<open>Cluster names point at candidates of the log that have them, and stay until they expire.\<close>

definition lane_clusters ::
  "('st, 'l) lane_env \<Rightarrow> (bytes \<Rightarrow> candidate_id option) \<Rightarrow> lane_log \<Rightarrow> bool" where
  "lane_clusters E cl hist \<longleftrightarrow>
     (\<forall>g i. cl g = Some i \<longrightarrow> (\<exists>s nd c. Counted i s nd c \<in> set hist \<and> g \<in> set (cluster_names (le_digests E) s nd))) \<and>
     (\<forall>g. named (le_digests E) g hist \<noteq> [] \<longrightarrow> cl g \<noteq> None)"

text \<open>The id of a candidate is that of a document of its source.\<close>

definition lane_scoped :: "digests \<Rightarrow> lane_log \<Rightarrow> bool" where
  "lane_scoped D hist \<longleftrightarrow>
     (\<forall>i s nd c. Counted i s nd c \<in> set hist \<longrightarrow> (\<exists>d c'. Counted i s d c' \<in> set hist \<and> i = observed_id D s d))"

definition lane_inv ::
  "('st, 'l) lane_env \<Rightarrow> ('st \<Rightarrow> candidate_id \<Rightarrow> candidate_record option) \<Rightarrow> ('st \<Rightarrow> bytes \<Rightarrow> candidate_id option) \<Rightarrow>
     ('st \<Rightarrow> candidate_id \<Rightarrow> (bytes \<times> bytes) set) \<Rightarrow> 'st \<Rightarrow> lane_log \<Rightarrow> bool" where
  "lane_inv E cs cl vs st hist \<longleftrightarrow> lane_candidates E (cs st) hist \<and> lane_variants (le_digests E) (vs st) hist \<and>
     lane_clusters E (cl st) hist \<and> lane_scoped (le_digests E) hist"

text \<open>The hash does not collide on the (source, digest) pairs of the log.\<close>

definition collision_free :: "digests \<Rightarrow> lane_log \<Rightarrow> bool" where
  "collision_free D hist \<longleftrightarrow>
     inj_on (d_sha256 D) {candidate_preimage s (fingerprint (d_sha256 D) (shape_of nd)) | i s nd c. Counted i s nd c \<in> set hist}"

lemma lane_candidates_cong:
  "(\<And>i. docs_of i hist' = docs_of i hist) \<Longrightarrow> lane_candidates E cs hist \<Longrightarrow> lane_candidates E cs hist'"
  by (simp add: lane_candidates_def)

lemma lane_candidates_move:
  assumes "lane_candidates E cs hist" "cs i = Some rec"
  shows "lane_candidates E (cs(i \<mapsto> rec\<lparr> cand_state := s \<rparr>)) hist"
  unfolding lane_candidates_def
proof
  fix j
  have "if docs_of j hist = [] then cs j = None
     else \<exists>rec. cs j = Some rec \<and> tracks (le_from_value E) j (docs_of j hist) rec"
    using assms(1) unfolding lane_candidates_def by blast
  then show "if docs_of j hist = [] then (cs(i \<mapsto> rec\<lparr> cand_state := s \<rparr>)) j = None
     else \<exists>rec'. (cs(i \<mapsto> rec\<lparr> cand_state := s \<rparr>)) j = Some rec' \<and> tracks (le_from_value E) j (docs_of j hist) rec'"
    using assms(2) by (auto simp: tracks_def split: if_splits)
qed

lemma lane_candidates_expire:
  "lane_candidates E cs hist \<Longrightarrow>
     lane_candidates E (case x of CandidateKey i \<Rightarrow> cs(i := None) | _ \<Rightarrow> cs) (hist @ [Expired x])"
  by (cases x) (auto simp: lane_candidates_def)

lemma profile_of_first [simp]: "profile_merge (profile_of []) (profile_from_node nd) = profile_from_node nd"
  using profile_of_snoc [of "[]" nd] by (simp add: profile_of_single)

lemma lane_candidates_add:
  assumes "lane_candidates E cs hist"
    and p: "p = (case cs i of None \<Rightarrow> profile_from_node nd
      | Some rec \<Rightarrow> profile_merge (the (le_from_value E (cand_profile rec))) (profile_from_node nd))"
    and v: "le_from_value E v = Some p"
  shows "lane_candidates E (cs(i \<mapsto> candidate_after (cs i) i v source now)) (hist @ [Counted i source nd c])"
  unfolding lane_candidates_def
proof
  fix j
  have j: "if docs_of j hist = [] then cs j = None
     else \<exists>rec. cs j = Some rec \<and> tracks (le_from_value E) j (docs_of j hist) rec" for j
    using assms(1) unfolding lane_candidates_def by blast
  have "le_from_value E v = Some (profile_of (docs_of i hist @ [nd]))"
    using j [of i] v p by (auto simp: tracks_def profile_of_snoc profile_of_single split: if_splits)
  moreover have "sample_count (candidate_after (cs i) i v source now) = of_nat (length (docs_of i hist @ [nd]))"
    using j [of i] by (auto simp: tracks_def candidate_after_def split: if_splits)
  moreover have "cand_profile (candidate_after (cs i) i v source now) = v"
    "cand_id (candidate_after (cs i) i v source now) = i" by (simp_all add: candidate_after_def)
  ultimately show "if docs_of j (hist @ [Counted i source nd c]) = []
     then (cs(i \<mapsto> candidate_after (cs i) i v source now)) j = None
     else \<exists>rec. (cs(i \<mapsto> candidate_after (cs i) i v source now)) j = Some rec \<and>
       tracks (le_from_value E) j (docs_of j (hist @ [Counted i source nd c])) rec"
    using j [of j] by (auto simp: tracks_def)
qed

lemma candidate_after_new: "cs i \<noteq> Some (candidate_after (cs i) i v source now)"
  by (cases "cs i") (auto simp: candidate_after_def dest!: arg_cong [where f = sample_count])

lemma lane_variants_add:
  assumes "lane_variants D vs hist"
    and "vs' = vs \<and> \<not> c \<or> vs' = vs(i := insert (concrete_variant D nd) (vs i))"
  shows "lane_variants D vs' (hist @ [Counted i source nd c])"
  unfolding lane_variants_def
proof
  fix j
  have j: "concrete_variant D ` set (kept_docs j hist) \<subseteq> vs j" "vs j \<subseteq> concrete_variant D ` set (seen_docs j hist)"
    using assms(1) unfolding lane_variants_def by blast+
  show "concrete_variant D ` set (kept_docs j (hist @ [Counted i source nd c])) \<subseteq> vs' j \<and>
      vs' j \<subseteq> concrete_variant D ` set (seen_docs j (hist @ [Counted i source nd c]))"
    using assms(2) j by (cases "j = i") auto
qed

lemma lane_variants_expire:
  "lane_variants D vs hist \<Longrightarrow>
     lane_variants D (case x of VariantsKey i \<Rightarrow> vs(i := {}) | _ \<Rightarrow> vs) (hist @ [Expired x])"
  by (cases x) (auto simp: lane_variants_def)

lemma lane_clusters_add:
  assumes cl: "lane_clusters E cl hist" and gs: "gs \<subseteq> set (cluster_names (le_digests E) source nd)"
    and c: "c \<Longrightarrow> gs = set (cluster_names (le_digests E) source nd)"
  shows "lane_clusters E (point_at gs i cl) (hist @ [Counted i source nd c])"
  unfolding lane_clusters_def
proof (intro conjI allI impI)
  fix g j assume p: "point_at gs i cl g = Some j"
  show "\<exists>s nd' c'. Counted j s nd' c' \<in> set (hist @ [Counted i source nd c]) \<and> g \<in> set (cluster_names (le_digests E) s nd')"
  proof (cases "g \<in> gs")
    case True
    then have "Counted j source nd c \<in> set (hist @ [Counted i source nd c])" using p by (simp add: point_at_def)
    then show ?thesis using True gs by blast
  next
    case False
    then have "cl g = Some j" using p by (simp add: point_at_def)
    then obtain s nd' c' where "Counted j s nd' c' \<in> set hist" "g \<in> set (cluster_names (le_digests E) s nd')"
      using cl unfolding lane_clusters_def by blast
    then show ?thesis by (intro exI [of _ s] exI [of _ nd'] exI [of _ c']) simp
  qed
next
  fix g assume "named (le_digests E) g (hist @ [Counted i source nd c]) \<noteq> []"
  then show "point_at gs i cl g \<noteq> None"
    using cl c by (auto simp: lane_clusters_def point_at_def split: if_splits)
qed

lemma lane_clusters_more:
  "lane_clusters E cl hist \<Longrightarrow> (\<And>g. named (le_digests E) g (hist @ [ev]) = named (le_digests E) g hist) \<Longrightarrow>
     lane_clusters E cl (hist @ [ev])"
  unfolding lane_clusters_def by (simp only: set_append Un_iff) blast

lemma lane_clusters_expire:
  assumes "lane_clusters E cl hist"
  shows "lane_clusters E (case x of ClusterKey g \<Rightarrow> cl(g := None) | _ \<Rightarrow> cl) (hist @ [Expired x])"
proof (cases x)
  case (ClusterKey g)
  then show ?thesis using assms by (auto simp: lane_clusters_def)
qed (use assms in \<open>simp_all add: lane_clusters_more\<close>)

lemma lane_scoped_more:
  "lane_scoped D hist \<Longrightarrow> (\<And>i s nd c. ev \<noteq> Counted i s nd c) \<Longrightarrow> lane_scoped D (hist @ [ev])"
  unfolding lane_scoped_def by (simp only: set_append Un_iff list.set) blast

section \<open>Neighbouring documents\<close>

text \<open>A document and the same without one of its at least two top-level fields share a name.\<close>

definition drops_field :: "node \<Rightarrow> node \<Rightarrow> bool" where
  "drops_field nd nd' \<longleftrightarrow> (\<exists>flds k. nd = NodeObject flds \<and> nd' = NodeObject (filter (\<lambda>e. fst e \<noteq> k) flds) \<and>
     k \<in> fst ` set flds \<and> 2 \<le> card (fst ` set flds))"

lemma bt_remove_collect: "bt_remove k (bt_collect kvs) = bt_collect (filter (\<lambda>e. fst e \<noteq> k) kvs)"
proof (rule bt_extensional)
  have "map_of (filter (\<lambda>e. fst e \<noteq> k) xs) = (map_of xs)(k := None)" for xs :: "('a \<times> 'b) list"
    using map_of_bt_remove [of k xs] by (simp add: bt_remove_def)
  then show "map_of (bt_remove k (bt_collect kvs)) = map_of (bt_collect (filter (\<lambda>e. fst e \<noteq> k) kvs))"
    by (simp add: map_of_bt_remove map_of_bt_collect rev_filter)
qed (auto intro: bt_ok_remove)

lemma profile_without_child:
  "\<lparr> count = count (profile_from_node (NodeObject flds)),
     root = without_child k (root (profile_from_node (NodeObject flds))) \<rparr> =
   profile_from_node (NodeObject (filter (\<lambda>e. fst e \<noteq> k) flds))"
proof -
  have "filter (\<lambda>e. fst e \<noteq> k) (map (\<lambda>(k, v). (k, field_from_node v)) flds) =
      map (\<lambda>(k, v). (k, field_from_node v)) (filter (\<lambda>e. fst e \<noteq> k) flds)"
    by (induction flds) auto
  then show ?thesis
    by (simp add: profile_from_node_def without_child_def observed_def bt_remove_collect)
qed

lemma cluster_names_own:
  "scoped_gen_fp s (d_hex D (generalized_fingerprint (d_sha256 D) (profile_from_node nd))) \<in> set (cluster_names D s nd)"
  by (simp add: cluster_names_def reduced_generalized_fps_def)

lemma drops_field_shares:
  assumes "drops_field nd nd'"
  shows "\<exists>g. g \<in> set (cluster_names D s nd) \<and> g \<in> set (cluster_names D s nd')"
proof -
  obtain flds k where f: "nd = NodeObject flds" "nd' = NodeObject (filter (\<lambda>e. fst e \<noteq> k) flds)"
    "k \<in> fst ` set flds" "2 \<le> card (fst ` set flds)" using assms unfolding drops_field_def by blast
  let ?ch = "children (root (profile_from_node nd))"
  have keys: "fst ` set ?ch = fst ` set flds"
    by (simp add: f(1) profile_from_node_def observed_def keys_bt_collect image_image split_beta)
  then have "2 \<le> card (set (map fst ?ch))" using f(4) by simp
  then have "2 \<le> length ?ch" using card_length [of "map fst ?ch"] by simp
  moreover have "k \<in> set (map fst ?ch)" using keys f(3) by simp
  ultimately have "generalized_fingerprint (d_sha256 D)
      \<lparr> count = count (profile_from_node nd), root = without_child k (root (profile_from_node nd)) \<rparr>
      \<in> set (reduced_generalized_fps (d_sha256 D) (profile_from_node nd))"
    by (auto simp: reduced_generalized_fps_def)
  then have "scoped_gen_fp s (d_hex D (generalized_fingerprint (d_sha256 D) (profile_from_node nd'))) \<in> set (cluster_names D s nd)"
    unfolding f(1,2) profile_without_child by (simp add: cluster_names_def)
  then show ?thesis using cluster_names_own by blast
qed

section \<open>The invariant of a run\<close>

locale scoped_lane = cold_lane E valid intact cand cluster variants changes steady
  for E :: "('st, 'l) lane_env" and valid intact cand cluster variants changes steady +
  fixes b32 :: "bytes \<Rightarrow> bytes option"
  assumes observed_valid: "valid (observed_id (le_digests E) s nd)"
    and digest_length: "length (d_sha256 (le_digests E) x) = 32"
    and hex_scoped: "CHR '':'' \<notin> set (d_hex (le_digests E) x)"
    and base32: "base32_ok (d_base32 (le_digests E)) b32"
begin

lemma scoped_gen_fp_inj:
  assumes "scoped_gen_fp s (d_hex DG a) = scoped_gen_fp t (d_hex DG b)"
  shows "s = t"
proof -
  have *: "takeWhile (\<lambda>c. c \<noteq> CHR '':'') (rev (scoped_gen_fp r (d_hex DG x))) = rev (d_hex DG x)" for r x
  proof -
    have "rev (scoped_gen_fp r (d_hex DG x)) = rev (d_hex DG x) @ CHR '':'' # rev r"
      by (simp add: scoped_gen_fp_def)
    moreover have "takeWhile (\<lambda>c. c \<noteq> CHR '':'') (rev (d_hex DG x) @ CHR '':'' # rev r) = rev (d_hex DG x)"
      by (subst takeWhile_append2) (use hex_scoped [of x] in auto)
    ultimately show ?thesis by simp
  qed
  have "rev (d_hex DG a) = rev (d_hex DG b)" using * [of s a] * [of t b] assms by metis
  then show ?thesis using assms by (simp add: scoped_gen_fp_def)
qed

lemma cluster_names_scoped:
  "g \<in> set (cluster_names DG s nd) \<Longrightarrow> g \<in> set (cluster_names DG t nd') \<Longrightarrow> s = t"
  by (auto simp: cluster_names_def dest: scoped_gen_fp_inj)

lemma observed_id_scoped:
  assumes "collision_free DG hist" "Counted i s nd c \<in> set hist" "Counted j t nd' c' \<in> set hist"
    and "observed_id DG s nd = observed_id DG t nd'"
  shows "s = t"
proof -
  let ?f = "\<lambda>nd. fingerprint (d_sha256 DG) (shape_of nd)"
  have "d_sha256 DG (candidate_preimage s (?f nd)) = d_sha256 DG (candidate_preimage t (?f nd'))"
    using assms(4) by (simp add: observed_id_def candidate_id_from_source_and_digest_def
        candidate_id_from_digest_def digest_from_inj [OF base32])
  moreover have "candidate_preimage s (?f nd) \<in> {candidate_preimage s (?f nd) | i s nd c. Counted i s nd c \<in> set hist}"
    "candidate_preimage t (?f nd') \<in> {candidate_preimage s (?f nd) | i s nd c. Counted i s nd c \<in> set hist}"
    using assms(2,3) by blast+
  ultimately have "candidate_preimage s (?f nd) = candidate_preimage t (?f nd')"
    using assms(1) unfolding collision_free_def by (meson inj_onD)
  moreover have "length (?f x) = 32" for x by (simp add: fingerprint_def digest_length)
  ultimately show ?thesis using candidate_preimage_inj by blast
qed

text \<open>No candidate mixes sources.\<close>

lemma single_source:
  assumes "lane_scoped DG hist" "collision_free DG hist" "Counted i s nd c \<in> set hist" "Counted i t nd' c' \<in> set hist"
  shows "s = t"
proof -
  obtain d k where "Counted i s d k \<in> set hist" "i = observed_id DG s d"
    using assms(1,3) unfolding lane_scoped_def by blast
  moreover obtain e k' where "Counted i t e k' \<in> set hist" "i = observed_id DG t e"
    using assms(1,4) unfolding lane_scoped_def by blast
  ultimately show ?thesis using observed_id_scoped [OF assms(2)] by blast
qed

lemma lane_scoped_add:
  assumes sc: "lane_scoped DG hist" and cl: "lane_clusters E cl hist"
    and i: "i = target_candidate cl (cluster_names DG s nd) (observed_id DG s nd)"
  shows "lane_scoped DG (hist @ [Counted i s nd c])"
proof -
  have new: "\<exists>d c'. Counted i s d c' \<in> set (hist @ [Counted i s nd c]) \<and> i = observed_id DG s d"
  proof (cases "first_hit cl (cluster_names DG s nd)")
    case None
    then have "i = observed_id DG s nd" by (simp add: i target_candidate_def)
    then show ?thesis by auto
  next
    case (Some j)
    then obtain g where g: "g \<in> set (cluster_names DG s nd)" "cl g = Some i"
      using first_hit_Some by (force simp: i target_candidate_def)
    then obtain t d k where td: "Counted i t d k \<in> set hist" "g \<in> set (cluster_names DG t d)"
      using cl unfolding lane_clusters_def by blast
    then have "Counted i s d k \<in> set hist" using g(1) cluster_names_scoped by blast
    then obtain e k' where "Counted i s e k' \<in> set hist" "i = observed_id DG s e"
      using sc unfolding lane_scoped_def by blast
    then show ?thesis by (intro exI [of _ e] exI [of _ k']) simp
  qed
  show ?thesis
    unfolding lane_scoped_def
  proof (intro allI impI)
    fix j t d k assume "Counted j t d k \<in> set (hist @ [Counted i s nd c])"
    then consider "Counted j t d k \<in> set hist" | "j = i" "t = s" by auto
    then show "\<exists>d c'. Counted j t d c' \<in> set (hist @ [Counted i s nd c]) \<and> j = observed_id DG t d"
    proof cases
      case 1
      then show ?thesis using sc unfolding lane_scoped_def by (simp only: set_append Un_iff) blast
    qed (use new in simp)
  qed
qed

definition run_ok :: "('st, 'l) lane \<times> lane_log \<Rightarrow> bool" where
  "run_ok x \<longleftrightarrow> intact (l_store (fst x)) \<and> lane_inv E cand cluster variants (l_store (fst x)) (snd x)"

lemma run_okD:
  assumes "run_ok (L, hist)"
  shows "intact (l_store L)" "lane_candidates E (cand (l_store L)) hist" "lane_variants DG (variants (l_store L)) hist"
    "lane_clusters E (cluster (l_store L)) hist" "lane_scoped DG hist"
  using assms by (simp_all add: run_ok_def lane_inv_def)

lemma tracked_profile:
  assumes "lane_candidates E (cand st) hist" "cand st i = Some rec"
  shows "\<exists>p. le_from_value E (cand_profile rec) = Some p \<and> profile_wf p"
proof -
  have "\<exists>rec. cand st i = Some rec \<and> tracks (le_from_value E) i (docs_of i hist) rec"
    using assms unfolding lane_candidates_def by (metis option.distinct(1))
  then show ?thesis using assms(2) profile_of_wf by (auto simp: tracks_def)
qed

text \<open>An ingestion in a run: nothing changes, or the document is counted, completely when it succeeds.\<close>

lemma run_ingest_cases:
  assumes ok: "run_ok (L, hist)" and cid: "valid cid" and run: "ingest E cid nd meta now L = (res, L')"
  obtains (kept) "l_store L' = l_store L" "counted_by E cid (sm_source meta) nd L (res, L') = []"
      "(\<exists>e. res = Inl e) \<or> res = Inr RateLimited \<and>
         cand (l_store L) (target_candidate (cluster (l_store L)) (cluster_names DG (sm_source meta) nd) cid) = None"
    | (counted) i p v gs where
      "i = target_candidate (cluster (l_store L)) (cluster_names DG (sm_source meta) nd) cid"
      "counted_by E cid (sm_source meta) nd L (res, L') = [Counted i (sm_source meta) nd (\<not> isl res)]"
      "p = (case cand (l_store L) i of None \<Rightarrow> profile_from_node nd
           | Some rec \<Rightarrow> profile_merge (the (le_from_value E (cand_profile rec))) (profile_from_node nd))"
      "le_from_value E v = Some p" "intact (l_store L')"
      "cand (l_store L') = (cand (l_store L))(i \<mapsto> candidate_after (cand (l_store L) i) i v (sm_source meta) now)"
      "gs \<subseteq> set (cluster_names DG (sm_source meta) nd)" "cluster (l_store L') = point_at gs i (cluster (l_store L))"
      "\<not> isl res \<Longrightarrow> gs = set (cluster_names DG (sm_source meta) nd)"
      "variants (l_store L') = variants (l_store L) \<and> isl res \<or>
       variants (l_store L') = (variants (l_store L))(i := insert (concrete_variant DG nd) (variants (l_store L) i))"
      "(\<exists>e. res = Inl e) \<or> res = Inr (Ingested i (cand (l_store L) i = None))"
proof -
  note o = run_okD [OF ok]
  let ?i = "target_candidate (cluster (l_store L)) (cluster_names DG (sm_source meta) nd) cid"
  have prof: "\<exists>p. le_from_value E (cand_profile rec) = Some p \<and> profile_wf p"
    if "cand (l_store L) ?i = Some rec" for rec using tracked_profile [OF o(2) that] .
  note c = ingest_contract [OF o(1) cid prof run]
  show thesis
  proof (cases "l_store L' = l_store L")
    case True
    have no: False if "cand (l_store L') = (cand (l_store L))(?i \<mapsto> candidate_after (cand (l_store L) ?i) ?i v s n)" for v s n
      using that True candidate_after_new by (metis fun_upd_same)
    from c no have "(\<exists>e. res = Inl e) \<or> res = Inr RateLimited \<and> cand (l_store L) ?i = None" by blast
    then show thesis using True by (intro kept) (simp_all add: counted_by_def)
  next
    case False
    with c obtain p v gs where *: "ingest_target E cid nd (sm_source meta) (l_store L) = ?i"
        "p = (case cand (l_store L) ?i of None \<Rightarrow> profile_from_node nd
             | Some rec \<Rightarrow> profile_merge (the (le_from_value E (cand_profile rec))) (profile_from_node nd))"
        "le_from_value E v = Some p"
        "cand (l_store L') = (cand (l_store L))(?i \<mapsto> candidate_after (cand (l_store L) ?i) ?i v (sm_source meta) now)"
        "gs \<subseteq> set (cluster_names DG (sm_source meta) nd)" "cluster (l_store L') = point_at gs ?i (cluster (l_store L))"
        "variants (l_store L') = variants (l_store L) \<or>
         variants (l_store L') = (variants (l_store L))(?i := insert (concrete_variant DG nd) (variants (l_store L) ?i))"
        "(\<exists>e. res = Inl e) \<or> res = Inr (Ingested ?i (cand (l_store L) ?i = None)) \<and>
          gs = set (cluster_names DG (sm_source meta) nd) \<and>
          variants (l_store L') = (variants (l_store L))(?i := insert (concrete_variant DG nd) (variants (l_store L) ?i))"
      by blast
    have "intact (l_store L')" using c by blast
    then show thesis
      using * False by (intro counted [OF refl _ *(2-3) _ *(4-6)]) (auto simp: counted_by_def)
  qed
qed

lemma step_ok:
  assumes "run_ok x" "lane_step E X x y" "\<And>t st st'. X t st st' \<Longrightarrow> changes t st st'"
  shows "run_ok y"
  using assms(2,1)
proof cases
  case (lane_ingest meta nd now L res L' hist)
  let ?cid = "observed_id DG (sm_source meta) nd"
  have ok: "run_ok (L, hist)" using assms(1) lane_ingest by simp
  note o = run_okD [OF ok]
  from ok observed_valid lane_ingest(3) show ?thesis
  proof (cases rule: run_ingest_cases)
    case kept
    then show ?thesis using ok by (simp add: lane_ingest run_ok_def lane_inv_def)
  next
    case (counted i p v gs)
    have "lane_variants DG (variants (l_store L')) (hist @ [Counted i (sm_source meta) nd (\<not> isl res)])"
      by (rule lane_variants_add [OF o(3)]) (use counted(10) in auto)
    moreover have "lane_clusters E (cluster (l_store L')) (hist @ [Counted i (sm_source meta) nd (\<not> isl res)])"
      unfolding counted(8) by (rule lane_clusters_add [OF o(4) counted(7) counted(9)])
    ultimately show ?thesis
      using lane_candidates_add [OF o(2) counted(3,4)] counted(2,5,6) lane_scoped_add [OF o(5,4) counted(1)]
      by (simp add: run_ok_def lane_inv_def lane_ingest(2))
  qed
next
  case (lane_move i L rec s res st' hist)
  have ok: "run_ok (L, hist)" using assms(1) lane_move by simp
  note o = run_okD [OF ok]
  have c: "cand (l_store L) i = Some rec" using get_candidate [OF o(1) lane_move(3)] by simp
  note m = set_state [OF o(1) c lane_move(4,5)]
  have "lane_candidates E (cand st') hist"
    using m o(2) lane_candidates_move [OF o(2) c] by auto
  then have "lane_candidates E (cand st') (hist @ [Moved i s])" by (rule lane_candidates_cong [rotated]) simp
  moreover have "lane_variants DG (variants st') (hist @ [Moved i s])"
  proof -
    have "variants st' = variants (l_store L)" using m by auto
    then show ?thesis using o(3) by (simp add: lane_variants_def)
  qed
  moreover have "lane_clusters E (cluster st') (hist @ [Moved i s])"
    using m o(4) by (intro lane_clusters_more) auto
  moreover have "lane_scoped DG (hist @ [Moved i s])" by (rule lane_scoped_more [OF o(5)]) simp
  ultimately show ?thesis using m by (simp add: run_ok_def lane_inv_def lane_move(2))
next
  case (lane_outside t L st' hist)
  have ok: "run_ok (L, hist)" using assms(1) lane_outside by simp
  note o = run_okD [OF ok]
  note m = changed [OF o(1) assms(3) [OF lane_outside(3)]]
  show ?thesis
  proof (cases t)
    case None
    have "lane_candidates E (cand st') (hist @ [Elsewhere])"
      by (rule lane_candidates_cong [of _ hist]) (use m None o(2) in simp_all)
    then show ?thesis
      using m None o lane_clusters_more [OF o(4), of Elsewhere] lane_scoped_more [OF o(5), of Elsewhere]
      by (simp add: run_ok_def lane_inv_def lane_outside(2) outside_event_def lane_variants_def)
  next
    case (Some x)
    have c: "cand st' = (case x of CandidateKey i \<Rightarrow> (cand (l_store L))(i := None) | _ \<Rightarrow> cand (l_store L))"
      "cluster st' = (case x of ClusterKey g \<Rightarrow> (cluster (l_store L))(g := None) | _ \<Rightarrow> cluster (l_store L))"
      "variants st' = (case x of VariantsKey i \<Rightarrow> (variants (l_store L))(i := {}) | _ \<Rightarrow> variants (l_store L))"
      "intact st'"
      using m Some by (cases x; simp)+
    show ?thesis
      using lane_candidates_expire [OF o(2), of x] lane_variants_expire [OF o(3), of x] lane_clusters_expire [OF o(4), of x]
        lane_scoped_more [OF o(5), of "Expired x"] c
      by (simp add: run_ok_def lane_inv_def lane_outside(2) outside_event_def Some)
  qed
qed

lemma run_ok_run:
  assumes "lane_run E X x y" "run_ok x" "\<And>t st st'. X t st st' \<Longrightarrow> changes t st st'"
  shows "run_ok y"
  using assms(1,2) unfolding lane_run_def
  by (induction rule: rtranclp_induct) (auto intro: step_ok [OF _ _ assms(3)])

text \<open>A document that shares a name with a completely ingested one joins a candidate of the log.\<close>

lemma converges:
  assumes ok: "run_ok (L, hist)" and h: "Counted i s nd True \<in> set hist" and un: "unexpired hist"
    and g: "g \<in> set (cluster_names DG s nd)" "g \<in> set (cluster_names DG (sm_source meta) nd')"
    and cid: "valid cid" and run: "ingest E cid nd' meta now L = (res, L')"
  shows "(\<exists>e. res = Inl e) \<or> (\<exists>j. res = Inr (Ingested j False) \<and> docs_of j hist \<noteq> [])"
    and "steady \<Longrightarrow> \<exists>outcome. res = Inr outcome"
proof -
  let ?n = "cluster_names DG (sm_source meta) nd'" and ?st = "l_store L"
  note o = run_okD [OF ok]
  have "named DG g hist \<noteq> []" using unexpired_named [OF un h g(1)] by auto
  then have "cluster ?st g \<noteq> None" using o(4) unfolding lane_clusters_def by blast
  moreover have "first_hit (cluster ?st) ?n = None \<Longrightarrow> cluster ?st g = None"
    using g(2) by (simp add: first_hit_None)
  ultimately obtain j where j: "first_hit (cluster ?st) ?n = Some j"
    by (cases "first_hit (cluster ?st) ?n") simp_all
  then obtain s' d c where "Counted j s' d c \<in> set hist"
    using first_hit_Some [OF j] o(4) unfolding lane_clusters_def by blast
  then have ne: "docs_of j hist \<noteq> []" using unexpired_docs [OF un] by fastforce
  then have c: "cand ?st j \<noteq> None" using o(2) unfolding lane_candidates_def by (metis option.distinct(1))
  have t: "target_candidate (cluster ?st) ?n cid = j" by (simp add: target_candidate_def j)
  from ok cid run show "(\<exists>e. res = Inl e) \<or> (\<exists>j. res = Inr (Ingested j False) \<and> docs_of j hist \<noteq> [])"
    by (cases rule: run_ingest_cases) (use c t ne in auto)
  have prof: "\<exists>p. le_from_value E (cand_profile rec) = Some p \<and> profile_wf p"
    if "cand ?st (target_candidate (cluster ?st) ?n cid) = Some rec" for rec using tracked_profile [OF o(2) that] .
  show "\<exists>outcome. res = Inr outcome" if steady
    using ingest_contract [OF o(1) cid prof run] that by blast
qed

text \<open>A candidate that has left the provisional state stays out of it until it is moved back or expires.\<close>

lemma settled_step:
  assumes ok: "run_ok (L, hist)" and step: "lane_step E X (L, hist) (L', hist')"
    and X: "\<And>t st st'. X t st st' \<Longrightarrow> changes t st st'"
    and c: "cand (l_store L) i = Some rec" "cand_state rec \<noteq> ProvisionalState"
    and no: "hist' = hist @ evs" "Moved i ProvisionalState \<notin> set evs" "Expired (CandidateKey i) \<notin> set evs"
  shows "\<exists>rec'. cand (l_store L') i = Some rec' \<and> cand_state rec' \<noteq> ProvisionalState"
  using step
proof cases
  case (lane_ingest meta nd now res)
  from ok observed_valid lane_ingest(2) show ?thesis
  proof (cases rule: run_ingest_cases)
    case kept
    then show ?thesis using c by simp
  next
    case (counted j p v gs)
    then show ?thesis using c by (auto simp: candidate_after_def)
  qed
next
  case (lane_move j r s res st')
  note o = run_okD [OF ok]
  have r: "cand (l_store L) j = Some r" using get_candidate [OF o(1) lane_move(3)] by simp
  have "Moved j s \<in> set evs" using lane_move(2) no(1) by simp
  then have "j = i \<Longrightarrow> s \<noteq> ProvisionalState" using no(2) by auto
  then show ?thesis using set_state [OF o(1) r lane_move(4,5)] c lane_move(1) by auto
next
  case (lane_outside t st')
  note o = run_okD [OF ok]
  have "t = Some x \<Longrightarrow> Expired x \<in> set evs" for x using lane_outside(2) no(1) by (simp add: outside_event_def)
  then have "t \<noteq> Some (CandidateKey i)" using no(3) by blast
  then show ?thesis using changed [OF o(1) X [OF lane_outside(3)]] c lane_outside(1)
    by (auto split: option.splits expiry.splits)
qed

lemma settled_run:
  assumes "lane_run E X x y" "run_ok x" "\<And>t st st'. X t st st' \<Longrightarrow> changes t st st'"
    and "cand (l_store (fst x)) i = Some rec" "cand_state rec \<noteq> ProvisionalState"
  shows "\<exists>evs. snd y = snd x @ evs \<and>
    (Moved i ProvisionalState \<notin> set evs \<longrightarrow> Expired (CandidateKey i) \<notin> set evs \<longrightarrow>
       (\<exists>rec'. cand (l_store (fst y)) i = Some rec' \<and> cand_state rec' \<noteq> ProvisionalState))"
  using assms(1) unfolding lane_run_def
proof (induction rule: rtranclp_induct)
  case base
  then show ?case using assms(4,5) by auto
next
  case (step y z)
  then obtain evs where e: "snd y = snd x @ evs" "Moved i ProvisionalState \<notin> set evs \<longrightarrow> Expired (CandidateKey i) \<notin> set evs \<longrightarrow>
       (\<exists>rec'. cand (l_store (fst y)) i = Some rec' \<and> cand_state rec' \<noteq> ProvisionalState)" by blast
  have ok: "run_ok y" using run_ok_run [OF _ assms(2,3)] step(1) unfolding lane_run_def by blast
  obtain evs' where e': "snd z = snd y @ evs'" using step(2) by cases auto
  have "\<exists>rec'. cand (l_store (fst z)) i = Some rec' \<and> cand_state rec' \<noteq> ProvisionalState"
    if no: "Moved i ProvisionalState \<notin> set (evs @ evs')" "Expired (CandidateKey i) \<notin> set (evs @ evs')"
  proof -
    obtain r where r: "cand (l_store (fst y)) i = Some r" "cand_state r \<noteq> ProvisionalState" using e(2) no by auto
    show ?thesis
      using settled_step [of "fst y" "snd y" X "fst z" "snd z" i r evs', OF _ _ assms(3) r e'] ok step(2) no by simp
  qed
  then show ?case using e(1) e' by (intro exI [of _ "evs @ evs'"]) simp
qed

end

end
