(* ===== verification/Promotion_Facts.thy ===== *)
theory Promotion_Facts
  imports Promotion_Frames Lane_Run
begin

text \<open>
  The cold lane and the promoter over one Redis server: which contract the lane's store satisfies
  there, and what a promotion does to the vault and to the candidate.
\<close>

section \<open>The deployment\<close>

definition redis_promoter ::
  "'st redis \<Rightarrow> codecs \<Rightarrow> candidate_record codec \<Rightarrow> audit_stub codec \<Rightarrow> nat \<Rightarrow>
     value_profile_snapshot codec option \<Rightarrow> bool option \<Rightarrow> nat \<Rightarrow> digests \<Rightarrow> (json \<Rightarrow> profile option) \<Rightarrow>
     (bytes \<Rightarrow> json option) \<Rightarrow> (profile \<Rightarrow> bytes option) \<Rightarrow> promotion_policy \<Rightarrow> 'st promoter" where
  "redis_promoter R K C A secs vc health clock D from_value from_str to_vec P =
     \<lparr> pe_digests = D, pe_evidence = redis_evidence R C A (json_codec K) (base32_dec K) secs,
       pe_publish = (\<lambda>rec cid b vs actor reason.
         publish R (schema_codec K) (strings_codec K) health rec cid b vs actor reason clock),
       pe_policy = P, pe_value_profiles = map_option (put_value_profile R) vc,
       pe_from_value = from_value, pe_from_str = from_str, pe_to_vec = to_vec \<rparr>"

locale redis_lane = redis_evidence_service R view C A "json_codec K" "base32_dec K" secs
  for R :: "'st redis" and view C A and K :: codecs and secs +
  fixes E :: "('st, 'l) lane_env"
  assumes lane_store: "le_store E = redis_evidence R C A (json_codec K) (base32_dec K) secs"
    and lane_serde: "profile_wf p \<Longrightarrow> \<exists>v. le_to_value E p = Some v \<and> le_from_value E v = Some p"
    and hex_text: "set (d_hex (le_digests E) x) \<inter> {CHR ''='', CHR '':''} = {}"
    and sha_length: "length (d_sha256 (le_digests E) x) = 32"
    and base32_codec: "base32_ok (d_base32 (le_digests E)) (base32_dec K)"
    and base32_text: "id_text (le_digests E)"

lemma observed_id_valid:
  assumes "base32_ok (d_base32 D) b32" "\<And>x. length (d_sha256 D x) = 32"
  shows "candidate_valid b32 (observed_id D s nd)"
  using digest_from_parse [OF assms(1) assms(2)]
  by (simp add: candidate_valid_def observed_id_def candidate_id_from_source_and_digest_def
      candidate_id_from_digest_def candidate_id_parse_def)

sublocale redis_lane \<subseteq> lane: scoped_lane E "candidate_valid (base32_dec K)" "evidence_intact R C (base32_dec K)"
    "stored_candidate R C" "stored_cluster R (base32_dec K)" "stored_variants R" "outside view" "always_answers R"
    "base32_dec K"
proof (intro scoped_lane.intro cold_lane.intro scoped_lane_axioms.intro cold_lane_axioms.intro)
  show "evidence_contract (le_store E) (candidate_valid (base32_dec K)) (evidence_intact R C (base32_dec K))
      (stored_candidate R C) (stored_cluster R (base32_dec K)) (stored_variants R) (outside view) (always_answers R)"
    using store.evidence_contract_axioms by (simp add: lane_store)
  show "candidate_valid (base32_dec K) (observed_id (le_digests E) s nd)" for s nd
    by (rule observed_id_valid [OF base32_codec sha_length])
qed (use lane_serde hex_text sha_length base32_codec in auto)

section \<open>One promotion\<close>

definition variant_ok :: "bytes \<times> bytes \<Rightarrow> bool" where
  "variant_ok v \<longleftrightarrow> index_key (fst v) \<and> CHR ''='' \<notin> set (snd v)"

lemma variants_ok_iff: "variants_ok vs \<longleftrightarrow> (\<forall>v\<in>set vs. variant_ok v)"
  by (auto simp: variants_ok_def variant_ok_def)

text \<open>Why the registry refuses a publication.\<close>

definition publish_blocked :: "bool option \<Rightarrow> keyspace \<Rightarrow> schema_id \<Rightarrow> bytes \<Rightarrow> candidate_id \<Rightarrow> family_id \<Rightarrow> bool" where
  "publish_blocked health ks sid canonical cid fam \<longleftrightarrow>
     health = Some False \<or>
     (\<exists>x y. schema_field ks sid ''canonical'' = Some x \<and> schema_field ks sid ''canonicalizer'' = Some y \<and>
        (x, y) \<noteq> (canonical, generalizer)) \<or>
     (\<exists>x. strs ks (alias_key cid) = Some x \<and> x \<noteq> schema_str sid) \<or>
     counter ks fam = 2 ^ 63 - 1 \<and> \<not> stored ks sid"

lemma publish_blocked_same:
  "same_vault ks ks' \<Longrightarrow> publish_blocked health ks' = publish_blocked health ks"
  by (simp add: fun_eq_iff publish_blocked_def same_vaultD)

text \<open>A call failed because a round trip did.\<close>

definition unreachable :: "'st redis \<Rightarrow> core_error \<Rightarrow> bool" where
  "unreachable R e \<longleftrightarrow> (\<exists>m. e = RegistryUnavailable m \<and> link_fails R m)"

text \<open>What a publication leaves in the vault.\<close>

definition publication :: "keyspace \<Rightarrow> schema_id \<Rightarrow> bytes \<Rightarrow> candidate_id \<Rightarrow> (bytes \<times> bytes) set \<Rightarrow> int \<Rightarrow> bool" where
  "publication ks sid canonical cid vs i \<longleftrightarrow>
     stored ks sid \<and> published_at ks sid = Some (int_dec i) \<and> schema_field ks sid ''canonical'' = Some canonical \<and>
     strs ks (alias_key cid) = Some (schema_str sid) \<and> (\<forall>(b, f)\<in>vs. variant_member f sid \<in> sets ks b)"

lemma publication_same:
  assumes "same_vault ks ks'" "\<forall>v\<in>vs. variant_ok v" "publication ks sid canonical cid vs i"
  shows "publication ks' sid canonical cid vs i"
proof -
  have "sets ks' b = sets ks b" if "(b, f) \<in> vs" for b f
  proof -
    have "index_key b" using assms(2) that by (force simp: variant_ok_def)
    then have "vault_key b" using vault_key_index by (auto simp: index_key_def simp del: append.simps)
    then show ?thesis using assms(1) by (simp add: same_vault_def)
  qed
  then show ?thesis using assms(1,3) by (auto simp: publication_def same_vaultD stored_def)
qed

text \<open>Why a promotion is refused.\<close>

definition promotion_refused ::
  "digests \<Rightarrow> (json \<Rightarrow> profile option) \<Rightarrow> promotion_policy \<Rightarrow> bool option \<Rightarrow> keyspace \<Rightarrow> bytes \<Rightarrow>
     promote_request \<Rightarrow> int \<Rightarrow> candidate_id \<Rightarrow> candidate_record option \<Rightarrow> core_error \<Rightarrow> bool" where
  "promotion_refused D from_value P health ks uuid req now cid cand e \<longleftrightarrow>
     (case cand of
        None \<Rightarrow> e = NotFound
      | Some rec \<Rightarrow>
          if cand_state rec \<noteq> ProvisionalState then (\<exists>m. e = PolicyRejected m)
          else
            (case policy_check P rec now of
               Inl m \<Rightarrow> e = PolicyRejected m
             | Inr _ \<Rightarrow>
                 (case from_value (cand_profile rec) of
                    None \<Rightarrow> e = RegistryUnavailable ''corrupt candidate profile''
                  | Some p \<Rightarrow> publish_blocked health ks (promoted_id D p) (generalized_canonical_json p) cid
                      (chosen_family (pq_family req) uuid))))"

text \<open>A store into which nothing was ever ingested.\<close>

definition lane_fresh :: "'st redis \<Rightarrow> candidate_record codec \<Rightarrow> (bytes \<Rightarrow> bytes option) \<Rightarrow> 'st \<Rightarrow> bool" where
  "lane_fresh R C b32 st \<longleftrightarrow> evidence_intact R C b32 st \<and> stored_candidate R C st = Map.empty \<and>
     stored_cluster R b32 st = Map.empty \<and> stored_variants R st = (\<lambda>_. {})"

text \<open>
  What may happen to the store beside the lane: keys of the lane expire, and other stores write
  their keys, the vault in the way that its own operations do (\<open>vault_immutable\<close>).
\<close>

definition surroundings :: "('st \<Rightarrow> keyspace) \<Rightarrow> codecs \<Rightarrow> expiry option \<Rightarrow> 'st \<Rightarrow> 'st \<Rightarrow> bool" where
  "surroundings view K t st st' \<longleftrightarrow> outside view t st st' \<and>
     (vault_ok K (view st) \<longrightarrow> vault_ok K (view st') \<and> vault_keeps (view st) (view st'))"

lemma surroundings_outside: "surroundings view K t st st' \<Longrightarrow> outside view t st st'"
  by (simp add: surroundings_def)

context redis_service
begin

text \<open>A publication is refused without effect, or takes place; its reply may be lost either way.\<close>

lemma publish_outcome:
  assumes inv: "vault_inv b32 C V (view st)"
    and run: "publish R C V health rec cid bkey vs ac re now st = (res, st')"
  shows "(st' = st \<and> (\<exists>e. res = Inl e \<and> (rec_canonicalizer rec = generalizer \<longrightarrow>
        unreachable R e \<or> publish_blocked health (view st) (rec_schema_id rec) (rec_canonical rec) cid (rec_family_id rec)))) \<or>
    (\<exists>i. publication (view st') (rec_schema_id rec) (rec_canonical rec) cid (List.set vs) i \<and>
       (res = Inr (of_int i) \<or> (\<exists>e. res = Inl e \<and> unreachable R e)))"
proof (cases res)
  case (Inl e)
  from publish_failure [OF inv run [unfolded Inl]] show ?thesis
  proof (elim disjE exE conjE)
    fix m v assume m: "r_link R ''schema_publish'' st = LosesReply m" "e = RegistryUnavailable m"
      and a: "publish (answering R) C V health rec cid bkey vs ac re now st = (v, st')"
    have u: "unreachable R e" using m by (auto simp: unreachable_def)
    have svc: "redis_service (answering R) view"
      unfolding answering_def by (rule redis_service_link) (rule redis_service_axioms)
    show ?thesis
    proof (cases v)
      case (Inl e')
      have "st' = st" using redis_service.publish_failure [OF svc inv a [unfolded Inl]] by auto
      then show ?thesis using \<open>res = Inl e\<close> u by simp
    next
      case (Inr n)
      obtain i where "published_at (view st') (rec_schema_id rec) = Some (int_dec i)"
        "strs (view st') (alias_key cid) = Some (schema_str (rec_schema_id rec))"
        "\<forall>(b, fp)\<in>List.set vs. variant_member fp (rec_schema_id rec) \<in> sets (view st') b"
        "schema_field (view st') (rec_schema_id rec) ''canonical'' = Some (rec_canonical rec)"
        by (rule redis_service.publish_success [OF svc inv a [unfolded Inr]]) blast
      then have "publication (view st') (rec_schema_id rec) (rec_canonical rec) cid (List.set vs) i"
        by (simp add: publication_def stored_def)
      then show ?thesis using \<open>res = Inl e\<close> u by blast
    qed
  qed (use Inl in \<open>auto simp: publish_blocked_def unreachable_def\<close>)
next
  case (Inr n)
  obtain i where "n = of_int i" "published_at (view st') (rec_schema_id rec) = Some (int_dec i)"
    "strs (view st') (alias_key cid) = Some (schema_str (rec_schema_id rec))"
    "\<forall>(b, fp)\<in>List.set vs. variant_member fp (rec_schema_id rec) \<in> sets (view st') b"
    "schema_field (view st') (rec_schema_id rec) ''canonical'' = Some (rec_canonical rec)"
    by (rule publish_success [OF inv run [unfolded Inr]]) blast
  then show ?thesis using Inr by (auto simp: publication_def stored_def)
qed

end

context redis_lane
begin

lemma concrete_variant_ok: "variant_ok (concrete_variant (le_digests E) nd)"
proof -
  have "CHR ''='' \<notin> set (d_hex (le_digests E) x)" for x using hex_text [of x] by auto
  then have "index_key (bucket_key (d_sha256 (le_digests E)) (d_hex (le_digests E)) sm)" for sm
    by (rule bucket_key_index_key)
  moreover have "CHR ''='' \<notin> set (to_ascii_lowercase (d_base32 (le_digests E) d))" for d
    using fp_text(1) [OF base32_text, of d] by (simp add: id_body_from_digest)
  ultimately show ?thesis by (simp add: variant_ok_def concrete_variant_def Let_def)
qed

lemma draft_publish_ok:
  assumes "rec_schema_id draft = promoted_id (le_digests E) p" "\<forall>v\<in>set vs. variant_ok v"
  shows "publish_ok (base32_dec K) draft
    (bucket_key (d_sha256 (le_digests E)) (d_hex (le_digests E)) (generalized_shape_summary p)) vs"
proof -
  have "CHR ''='' \<notin> set (d_hex (le_digests E) x)" for x using hex_text [of x] by auto
  moreover have "length (generalized_fingerprint (d_sha256 (le_digests E)) p) = 32"
    by (simp add: generalized_fingerprint_def sha_length)
  then have "schema_id_ok (base32_dec K) (promoted_id (le_digests E) p)"
    using digest_from_parse [OF base32_codec] fp_text(1) [OF base32_text]
    by (simp add: schema_id_ok_def promoted_id_def schema_id_parse_def)
      (simp add: schema_id_from_digest_def)
  ultimately show ?thesis
    using assms bucket_key_index_key by (simp add: publish_ok_def variants_ok_iff)
qed

lemma capture_frames:
  assumes "capture_value_profile
    (redis_promoter R K C A secs vc health clock D fv fs tv P) now cid p st = (res, st')"
  shows "(\<exists>vp. res = Inr vp) \<or> (\<exists>e. res = Inl e \<and> unreachable R e)"
    "same_vault (view st) (view st')" "same_evidence (view st) (view st')"
proof -
  have "((\<exists>vp. res = Inr vp) \<or> (\<exists>e. res = Inl e \<and> unreachable R e)) \<and>
      same_vault (view st) (view st') \<and> same_evidence (view st) (view st')"
  proof (cases vc)
    case None
    then show ?thesis using assms by (auto simp: capture_value_profile_def redis_promoter_def same_vault_refl)
  next
    case (Some c)
    define sn where "sn = build_snapshot (d_sha256 D) (d_base32 D) tv (promoted_id D p)
      (generalized_canonical_json p) cid p now"
    obtain r st1 where r: "put_value_profile R c sn st = (r, st1)" by fastforce
    note f = put_value_profile_frames [OF r]
    have "(res, st') = (case r of Inl e \<Rightarrow> Inl e | Inr _ \<Rightarrow> Inr (Some (vp_profile_id sn, snapshot_summary sn)), st1)"
      using assms r by (auto simp: capture_value_profile_def redis_promoter_def Some sn_def Let_def split: sum.splits)
    then show ?thesis using f by (auto simp: unreachable_def)
  qed
  then show "(\<exists>vp. res = Inr vp) \<or> (\<exists>e. res = Inl e \<and> unreachable R e)"
    "same_vault (view st) (view st')" "same_evidence (view st) (view st')"
    by blast+
qed

text \<open>
  A promotion that is refused, or whose connection fails before the publication, leaves vault and
  candidates alone. Otherwise the schema is published; when the reply of that is lost the promotion
  fails and the candidate stays as it is, and when it succeeds the candidate is staged, unless the
  connection fails then.
\<close>

lemma promote_contract:
  assumes ok: "evidence_intact R C (base32_dec K) st" and inv: "vault_ok K (view st)"
    and vs: "\<forall>v\<in>stored_variants R st cid. variant_ok v"
    and run: "promote (redis_promoter R K C A secs vc health clock (le_digests E) (le_from_value E) fs tv P)
      uuid now now' cid req actor st = (res, st')"
  shows "(\<exists>e. res = Inl e \<and> same_vault (view st) (view st') \<and> same_evidence (view st) (view st') \<and>
       (unreachable R e \<or>
        promotion_refused (le_digests E) (le_from_value E) P health (view st) uuid req now cid (stored_candidate R C st cid) e)) \<or>
    (\<exists>rec p i. stored_candidate R C st cid = Some rec \<and>
       cand_state rec = ProvisionalState \<and> policy_check P rec now = Inr () \<and>
       le_from_value E (cand_profile rec) = Some p \<and>
       vault_ok K (view st') \<and> vault_keeps (view st) (view st') \<and> evidence_intact R C (base32_dec K) st' \<and>
       stored_variants R st' = stored_variants R st \<and> stored_cluster R (base32_dec K) st' = stored_cluster R (base32_dec K) st \<and>
       publication (view st') (promoted_id (le_digests E) p) (generalized_canonical_json p) cid (stored_variants R st cid) i \<and>
       ((\<exists>e. res = Inl e \<and> unreachable R e) \<and> stored_candidate R C st' = stored_candidate R C st \<or>
        (\<exists>draft. res = Inr draft \<and> rec_schema_id draft = promoted_id (le_digests E) p \<and>
           rec_canonical draft = generalized_canonical_json p \<and> rec_version draft = of_int i) \<and>
        (stored_candidate R C st' = (stored_candidate R C st)(cid \<mapsto> rec\<lparr> cand_state := StagedState \<rparr>) \<or>
         stored_candidate R C st' = stored_candidate R C st \<and> \<not> always_answers R)))"
    (is "?unchanged \<or> ?published")
proof -
  let ?E = "redis_promoter R K C A secs vc health clock (le_digests E) (le_from_value E) fs tv P"
    and ?S = "redis_evidence R C A (json_codec K) (base32_dec K) secs"
  have sel: "pe_evidence ?E = ?S" "pe_policy ?E = P"
    "pe_from_value ?E = le_from_value E" "pe_digests ?E = le_digests E"
    "pe_publish ?E = (\<lambda>rec cid b vs actor reason.
         publish R (schema_codec K) (strings_codec K) health rec cid b vs actor reason clock)"
    by (simp_all add: redis_promoter_def)
  have refl: "same_vault (view st) (view st) \<and> same_evidence (view st) (view st)" by (simp add: same_vault_refl)
  have reads: "ev_get_candidate ?S cid st = Inr (stored_candidate R C st cid) \<or> (\<exists>e. ev_get_candidate ?S cid st = Inl e \<and> unreachable R e)"
    using read_trip_outcome [of R RegistryUnavailable "''candidate_get''" "get_candidate R C cid st" st] ok
    by (auto simp: redis_evidence_def evidence_intact_def unreachable_def)
  show ?thesis
  proof (cases "ev_get_candidate ?S cid st")
    case (Inl e)
    then have "res = Inl e" "st' = st" using run by (simp_all add: promote_def sel)
    then show ?thesis using refl reads Inl by auto
  next
    case get: (Inr c)
    then have c: "c = stored_candidate R C st cid" using reads by auto
    show ?thesis
    proof (cases c)
      case None
      then show ?thesis using run refl get c
        by (auto simp: promote_def sel promotion_refused_def)
    next
      case (Some rec)
      show ?thesis
      proof (cases "cand_state rec = ProvisionalState \<and> policy_check P rec now = Inr () \<and>
          le_from_value E (cand_profile rec) \<noteq> None")
        case False
        then show ?thesis using run refl get Some c [symmetric]
          by (auto simp: promote_def sel promotion_refused_def split: if_splits sum.splits option.splits)
      next
        case True
        then obtain p where p: "cand_state rec = ProvisionalState" "policy_check P rec now = Inr ()"
          "le_from_value E (cand_profile rec) = Some p" by blast
        obtain r1 st1 where c1: "capture_value_profile ?E now' cid p st = (r1, st1)" by fastforce
        note f1 = capture_frames(2,3) [OF c1]
        note v1 = same_evidence_views [OF f1(2) ok]
        show ?thesis
        proof (cases r1)
          case (Inl e)
          then have "res = Inl e" "st' = st1"
            using run get Some p c1 by (simp_all add: promote_def sel)
          then show ?thesis using f1 capture_frames(1) [OF c1] Inl by auto
        next
          case vp: (Inr vp)
          define draft where "draft = schema_draft ?E uuid cid rec p req actor vp"
          define b where "b = bucket_key (d_sha256 (le_digests E)) (d_hex (le_digests E)) (generalized_shape_summary p)"
          have dr: "rec_schema_id draft = promoted_id (le_digests E) p" "rec_canonical draft = generalized_canonical_json p"
            "rec_canonicalizer draft = generalizer" "rec_family_id draft = chosen_family (pq_family req) uuid"
            by (simp_all add: draft_def schema_draft_def sel Let_def)
          have run1: "(res, st') = publish_candidate ?E cid p draft actor (pq_reason req) st1"
            using run get Some p c1 vp by (simp add: promote_def sel draft_def)
          show ?thesis
          proof (cases "ev_get_variants ?S cid st1")
            case (Inl e)
            then have "res = Inl e" "st' = st1" using run1 by (simp_all add: publish_candidate_def sel Let_def)
            moreover have "unreachable R e"
              using Inl read_trip_outcome [of R RegistryUnavailable "''variants_get''" "Inr (get_variants R cid st1)" st1]
              by (auto simp: redis_evidence_def unreachable_def)
            ultimately show ?thesis using f1 by auto
          next
            case vl: (Inr vl)
            have vls: "List.set vl = stored_variants R st cid" using store.get_variants [OF vl] v1 by simp
            have pok: "publish_ok (base32_dec K) draft b vl"
              unfolding b_def by (rule draft_publish_ok [OF dr(1)]) (use vls vs in blast)
            obtain r2 st2 where c2: "publish R (schema_codec K) (strings_codec K) health draft cid b vl actor
                (pq_reason req) clock st1 = (r2, st2)" by fastforce
            have inv1: "vault_ok K (view st1)" by (rule vault_ok_same [OF f1(1) inv])
            have run2: "(res, st') = (case r2 of Inl e \<Rightarrow> (Inl e, st2)
               | Inr version \<Rightarrow> (Inr (draft\<lparr> rec_version := version \<rparr>), snd (set_state R cid StagedState st2)))"
              using run1 vl c2 by (simp add: publish_candidate_def sel Let_def b_def redis_evidence_def split: sum.splits)
            note inv2 = publish_keeps_inv [OF inv1 pok c2]
            have keep2: "vault_keeps (view st) (view st2)"
              by (rule vault_keeps_trans [OF vault_keeps_same [OF f1(1)] publish_keeps_vault [OF inv1 c2]])
            note v2 = same_evidence_views [OF publish_same_evidence [OF pok c2] conjunct1 [OF v1]]
            from publish_outcome [OF inv1 c2] show ?thesis
            proof (elim disjE conjE exE)
              fix e assume e: "st2 = st1" "r2 = Inl e" "rec_canonicalizer draft = generalizer \<longrightarrow>
                unreachable R e \<or> publish_blocked health (view st1) (rec_schema_id draft) (rec_canonical draft) cid (rec_family_id draft)"
              then have "res = Inl e" "st' = st1" using run2 by simp_all
              then show ?thesis using e(3) f1 p Some c
                by (auto simp: dr publish_blocked_same [OF f1(1)] promotion_refused_def)
            next
              fix i e assume e: "publication (view st2) (rec_schema_id draft) (rec_canonical draft) cid (List.set vl) i"
                "r2 = Inl e" "unreachable R e"
              then have "res = Inl e" "st' = st2" using run2 by simp_all
              then have ?published
                using e Some c p v1 v2 inv2 keep2 by (intro exI [of _ rec] exI [of _ p] exI [of _ i]) (simp add: dr vls)
              then show ?thesis ..
            next
              fix i assume e: "publication (view st2) (rec_schema_id draft) (rec_canonical draft) cid (List.set vl) i"
                "r2 = Inr (of_int i)"
              obtain r3 st3 where c3: "set_state R cid StagedState st2 = (r3, st3)" by fastforce
              have fin: "res = Inr (draft\<lparr> rec_version := of_int i \<rparr>)" "st' = st3" using run2 e(2) c3 by simp_all
              have "stored_candidate R C st2 cid = Some rec" using v1 v2 Some c by simp
              from set_state_contract [OF conjunct1 [OF v2] this _ c3] p(1)
              have s3: "evidence_intact R C (base32_dec K) st3"
                "stored_candidate R C st3 = (stored_candidate R C st2)(cid \<mapsto> rec\<lparr> cand_state := StagedState \<rparr>) \<or>
                 stored_candidate R C st3 = stored_candidate R C st2 \<and> \<not> always_answers R"
                "stored_variants R st3 = stored_variants R st2"
                "stored_cluster R (base32_dec K) st3 = stored_cluster R (base32_dec K) st2"
                by auto
              note sv = set_state_same_vault [OF c3]
              have "publication (view st3) (rec_schema_id draft) (rec_canonical draft) cid (List.set vl) i"
                by (rule publication_same [OF sv _ e(1)]) (use vs vls in simp)
              then have ?published
                using fin s3 Some c p v1 v2 vault_ok_same [OF sv inv2] vault_keeps_trans [OF keep2 vault_keeps_same [OF sv]]
                by (intro exI [of _ rec] exI [of _ p] exI [of _ i]) (simp add: dr vls)
              then show ?thesis ..
            qed
          qed
        qed
      qed
    qed
  qed
qed

text \<open>Ingestion does not write to the vault.\<close>

lemma evidence_writes_same_vault:
  "same_vault (view st) (view (set_cluster R n g i st))"
  "same_vault (view st) (view (add_variant R n i b f st))"
  "same_vault (view st) (view (append_evidence R J i v st))"
  unfolding set_cluster_def add_variant_def append_evidence_def
  by (rule same_vault_trans [OF same_vault_writes(5) same_vault_writes(7)], rule evidence_not_vault, rule evidence_not_vault)
    (rule same_vault_trans [OF same_vault_writes(3) same_vault_writes(7)] same_vault_writes(8), (rule evidence_not_vault)+)+

lemma round_trip_same_vault:
  assumes "round_trip R err q f st = (res, st')" "same_vault (view st) (view (snd (f st)))"
  shows "same_vault (view st) (view st')"
  using round_trip_outcome [OF assms(1)] assms(2) same_vault_refl by auto

lemma lane_same_vault:
  "ev_upsert_candidate (le_store E) rec st = (res, st') \<Longrightarrow> same_vault (view st) (view st')"
  "ev_set_cluster (le_store E) g i st = (res, st') \<Longrightarrow> same_vault (view st) (view st')"
  "ev_add_variant (le_store E) i b f st = (res, st') \<Longrightarrow> same_vault (view st) (view st')"
  "ev_append_evidence (le_store E) i v st = (res, st') \<Longrightarrow> same_vault (view st) (view st')"
  "ev_set_state (le_store E) i s st = (res, st') \<Longrightarrow> same_vault (view st) (view st')"
  by (auto simp: lane_store redis_evidence_def upsert_same_vault evidence_writes_same_vault
      intro: set_state_same_vault elim!: round_trip_same_vault)

lemma set_clusters_same_vault:
  "set_clusters (le_store E) D s i fps st = (res, st') \<Longrightarrow> same_vault (view st) (view st')"
proof (induction fps arbitrary: st)
  case (Cons fp fps)
  obtain r st1 where r: "ev_set_cluster (le_store E) (scoped_gen_fp s (d_hex D fp)) i st = (r, st1)" by fastforce
  with Cons lane_same_vault(2) [OF r] show ?case
    by (cases r) (auto intro: same_vault_trans)
qed (simp add: same_vault_refl)

lemma record_evidence_same_vault:
  assumes "record_evidence E i nd s fps p st = (res, st')"
  shows "same_vault (view st) (view st')"
proof -
  obtain r1 st1 where r1: "set_clusters (le_store E) (le_digests E) s i fps st = (r1, st1)" by fastforce
  obtain b f where bf: "concrete_variant (le_digests E) nd = (b, f)" by fastforce
  obtain r2 st2 where r2: "ev_add_variant (le_store E) i b f st1 = (r2, st2)" by fastforce
  note s1 = set_clusters_same_vault [OF r1] and s2 = lane_same_vault(3) [OF r2]
  have s3: "same_vault (view st) (view st3)" if "ev_append_evidence (le_store E) i v st2 = (r, st3)" for v r st3
    using same_vault_trans [OF same_vault_trans [OF s1 s2] lane_same_vault(4) [OF that]] .
  show ?thesis
    using assms r1 bf r2 s1 same_vault_trans [OF s1 s2]
    by (cases r1; cases r2) (auto simp: record_evidence_def split: option.splits intro: s3)
qed

lemma ingest_same_vault:
  assumes "ingest E cid nd meta now L = (res, L')"
  shows "same_vault (view (l_store L)) (view (l_store L'))"
proof -
  have "same_vault (view (l_store M)) (view (l_store M'))"
    if "store_observation E i ex p nd s fps now M = (r, M')" for i ex p s fps M r M'
  proof -
    have 1: "same_vault (view st) (view st1)" if "ev_upsert_candidate (le_store E) c st = (x, st1)" for c st x st1
      using lane_same_vault(1) [OF that] .
    show ?thesis
      using that by (auto simp: store_observation_def Let_def same_vault_refl
          split: sum.splits option.splits prod.splits
          dest!: 1 record_evidence_same_vault intro: same_vault_trans)
  qed
  then show ?thesis
    using assms by (auto simp: ingest_def Let_def same_vault_refl split: sum.splits prod.splits if_splits) fastforce+
qed

lemma lane_step_vault:
  assumes "lane_step E (surroundings view K) x y" "vault_ok K (view (l_store (fst x)))"
  shows "vault_ok K (view (l_store (fst y))) \<and> vault_keeps (view (l_store (fst x))) (view (l_store (fst y)))"
  using assms(1)
proof cases
  case (lane_ingest meta nd now L res L' hist)
  then show ?thesis using ingest_same_vault [OF lane_ingest(3)] assms(2) vault_ok_same vault_keeps_same by simp
next
  case (lane_move i L rec s res st' hist)
  then show ?thesis using lane_same_vault(5) [OF lane_move(5)] assms(2) vault_ok_same vault_keeps_same by simp
next
  case (lane_outside t L st' hist)
  then show ?thesis using assms(2) by (simp add: surroundings_def)
qed

lemma lane_run_vault:
  assumes "lane_run E (surroundings view K) x y" "vault_ok K (view (l_store (fst x)))"
  shows "vault_ok K (view (l_store (fst y))) \<and> vault_keeps (view (l_store (fst x))) (view (l_store (fst y)))"
  using assms unfolding lane_run_def
proof (induction rule: rtranclp_induct)
  case (step y z)
  then show ?case using lane_step_vault [OF step(2)] vault_keeps_trans by blast
qed (simp add: vault_keeps_refl)

lemma lane_run_vault_ok:
  "lane_run E (surroundings view K) (L, h) (L', h') \<Longrightarrow> vault_ok K (view (l_store L)) \<Longrightarrow> vault_ok K (view (l_store L'))"
  using lane_run_vault [of "(L, h)" "(L', h')"] by simp

lemma axioms_of_lane:
  "scoped_lane E (candidate_valid (base32_dec K)) (evidence_intact R C (base32_dec K))
     (stored_candidate R C) (stored_cluster R (base32_dec K)) (stored_variants R) (outside view) (always_answers R)
     (base32_dec K)"
  by (rule lane.scoped_lane_axioms)

lemma run_from_fresh:
  assumes "lane_fresh R C (base32_dec K) (l_store L)" "lane_run E (surroundings view K) (L, []) (L', hist)"
  shows "lane.run_ok (L', hist)" "evidence_intact R C (base32_dec K) (l_store L')"
    "lane_candidates E (stored_candidate R C (l_store L')) hist"
    "lane_variants (le_digests E) (stored_variants R (l_store L')) hist" "lane_scoped (le_digests E) hist"
proof -
  have "lane.run_ok (L, [])"
    using assms(1) by (simp add: lane_fresh_def lane.run_ok_def lane_inv_def lane_candidates_def
        lane_variants_def lane_clusters_def lane_scoped_def)
  then show ok: "lane.run_ok (L', hist)" by (rule lane.run_ok_run [OF assms(2)]) (rule surroundings_outside)
  from lane.run_okD [OF ok] show "evidence_intact R C (base32_dec K) (l_store L')"
    "lane_candidates E (stored_candidate R C (l_store L')) hist"
    "lane_variants (le_digests E) (stored_variants R (l_store L')) hist" "lane_scoped (le_digests E) hist"
    by blast+
qed

lemma candidate_documents:
  assumes "lane_fresh R C (base32_dec K) (l_store L)" "lane_run E (surroundings view K) (L, []) (L', hist)"
  shows "(if docs_of i hist = [] then get_candidate R C i (l_store L') = Inr None
    else \<exists>rec. get_candidate R C i (l_store L') = Inr (Some rec) \<and> cand_id rec = i \<and>
      le_from_value E (cand_profile rec) = Some (profile_of (docs_of i hist)) \<and>
      sample_count rec = of_nat (length (docs_of i hist))) \<and>
    concrete_variant (le_digests E) ` set (kept_docs i hist) \<subseteq> set (get_variants R i (l_store L')) \<and>
    set (get_variants R i (l_store L')) \<subseteq> concrete_variant (le_digests E) ` set (seen_docs i hist)"
proof -
  note r = run_from_fresh(2,3,4) [OF assms]
  have g: "get_candidate R C i (l_store L') = Inr (stored_candidate R C (l_store L') i)"
    using r(1) by (simp add: evidence_intact_def)
  have "if docs_of i hist = [] then stored_candidate R C (l_store L') i = None
     else \<exists>rec. stored_candidate R C (l_store L') i = Some rec \<and> tracks (le_from_value E) i (docs_of i hist) rec"
    using r(2) unfolding lane_candidates_def by blast
  moreover have "concrete_variant (le_digests E) ` set (kept_docs i hist) \<subseteq> stored_variants R (l_store L') i"
    "stored_variants R (l_store L') i \<subseteq> concrete_variant (le_digests E) ` set (seen_docs i hist)"
    using r(3) unfolding lane_variants_def by blast+
  ultimately show ?thesis by (auto simp: g tracks_def stored_variants_def)
qed

lemma run_variants_ok:
  assumes "lane_variants (le_digests E) vs hist"
  shows "\<forall>v\<in>vs i. variant_ok v"
proof
  fix v assume "v \<in> vs i"
  then have "v \<in> concrete_variant (le_digests E) ` set (seen_docs i hist)"
    using assms unfolding lane_variants_def by blast
  then show "variant_ok v" using concrete_variant_ok by blast
qed

lemma tracked_merge:
  assumes "lane_candidates E cs hist" "cs i = Some rec" "le_from_value E (cand_profile rec) = Some p"
  shows "p = profile_of (docs_of i hist)"
  using assms unfolding lane_candidates_def tracks_def by (metis option.distinct(1) option.inject)

text \<open>Every shape of a promoted candidate's documents resolves to a stored schema.\<close>

lemma promoted_resolves:
  assumes "lane_fresh R C (base32_dec K) (l_store L)" "lane_run E (surroundings view K) (L, []) (L', hist)"
    and "vault_ok K (view (l_store L'))"
    and "promote (redis_promoter R K C A secs vc health clock (le_digests E) (le_from_value E) fs tv P)
      uuid now now' i req actor (l_store L') = (Inr draft, st')"
    and "nd \<in> set (kept_docs i hist)"
  shows "\<exists>t. store_resolve R (base32_dec K) st'
      (bucket_key (d_sha256 (le_digests E)) (d_hex (le_digests E)) (summarize (shape_of nd)))
      (schema_id_from_digest (d_base32 (le_digests E)) (fingerprint (d_sha256 (le_digests E)) (shape_of nd))) = Inr (Some t) \<and>
    stored (view st') t"
proof -
  let ?D = "le_digests E"
  let ?fp = "schema_id_from_digest (d_base32 ?D) (fingerprint (d_sha256 ?D) (shape_of nd))"
    and ?b = "bucket_key (d_sha256 ?D) (d_hex ?D) (summarize (shape_of nd))"
  note r = run_from_fresh(2,4) [OF assms(1,2)]
  have "concrete_variant ?D nd \<in> stored_variants R (l_store L') i"
    using r(2) assms(5) unfolding lane_variants_def by blast
  moreover have "concrete_variant ?D nd = (?b, id_body ?fp)"
    by (simp add: concrete_variant_def Let_def id_body_from_digest)
  ultimately have m: "(?b, id_body ?fp) \<in> stored_variants R (l_store L') i" by simp
  obtain rec p j where pub: "publication (view st') (promoted_id ?D p) (generalized_canonical_json p) i (stored_variants R (l_store L') i) j"
    and inv': "vault_ok K (view st')"
    using promote_contract [OF r(1) assms(3) run_variants_ok [OF r(2)] assms(4)] by blast
  have mem: "variant_member (id_body ?fp) (promoted_id ?D p) \<in> sets (view st') ?b" and st: "stored (view st') (promoted_id ?D p)"
    using pub m by (auto simp: publication_def)
  obtain x where x: "?b = ''deblob:index:'' @ x" using bucket_key_prefix by blast
  show ?thesis
    using resolve_result [OF inv' fp_text [OF base32_text] x] mem st by (auto simp: store_resolve_def)
qed

text \<open>While an alias stands, every publication for the candidate is of the schema it points at.\<close>

lemma promote_alias:
  assumes "evidence_intact R C (base32_dec K) st" "vault_ok K (view st)"
    and "\<forall>v\<in>stored_variants R st cid. variant_ok v"
    and "promote (redis_promoter R K C A secs vc health clock (le_digests E) (le_from_value E) fs tv P)
      uuid now now' cid req actor st = (Inr draft, st')"
    and "strs (view st) (alias_key cid) = Some (schema_str sid)"
  shows "rec_schema_id draft = sid"
proof -
  obtain p i where "publication (view st') (promoted_id (le_digests E) p) (generalized_canonical_json p) cid (stored_variants R st cid) i"
    "rec_schema_id draft = promoted_id (le_digests E) p" "vault_keeps (view st) (view st')"
    using promote_contract [OF assms(1-4)] by auto
  moreover have "strs (view st') (alias_key cid) = Some (schema_str sid)"
    using assms(5) calculation(3) unfolding vault_keeps_def by blast
  ultimately show ?thesis by (auto simp: publication_def intro: schema_id.expand)
qed

text \<open>A promotion changes a candidate at most by staging it, so the lane's invariant survives it.\<close>

lemma promoted_run_ok:
  assumes ok: "lane.run_ok (L, hist)" and inv: "vault_ok K (view (l_store L))"
    and run: "promote (redis_promoter R K C A secs vc health clock (le_digests E) (le_from_value E) fs tv P)
      uuid now now' i req actor (l_store L) = (res, st')"
  shows "lane.run_ok (L\<lparr> l_store := st' \<rparr>, hist) \<and> vault_ok K (view st') \<and> vault_keeps (view (l_store L)) (view st')"
proof -
  note o = lane.run_okD [OF ok]
  have kept: ?thesis if e: "same_vault (view (l_store L)) (view st')" "same_evidence (view (l_store L)) (view st')"
  proof -
    note v = same_evidence_views [OF e(2) o(1)]
    show ?thesis using v o vault_ok_same [OF e(1) inv] vault_keeps_same [OF e(1)]
      by (simp add: lane.run_ok_def lane_inv_def)
  qed
  from promote_contract [OF o(1) inv run_variants_ok [OF o(3)] run] show ?thesis
  proof (elim disjE exE conjE)
    fix rec p j draft
    assume "stored_candidate R C (l_store L) i = Some rec" "vault_ok K (view st')" "vault_keeps (view (l_store L)) (view st')"
      "evidence_intact R C (base32_dec K) st'" "stored_variants R st' = stored_variants R (l_store L)"
      "stored_cluster R (base32_dec K) st' = stored_cluster R (base32_dec K) (l_store L)"
      "stored_candidate R C st' = (stored_candidate R C (l_store L))(i \<mapsto> rec\<lparr> cand_state := StagedState \<rparr>)"
    then show ?thesis using o lane_candidates_move [OF o(2)] by (simp add: lane.run_ok_def lane_inv_def)
  qed (use o kept in \<open>simp_all add: lane.run_ok_def lane_inv_def\<close>)
qed

end

end
