(* ===== verification/Lane_Demo.thy ===== *)
theory Lane_Demo
  imports Promotion_Facts Vault_Demo
begin

text \<open>
  A deployment of the cold lane and the promoter in memory, at which their theorems are
  instantiated: profiles are serialized by numbering, digests are constant.
\<close>

instance word :: (len) countable
  by (rule countable_classI [of unat]) (erule unsigned_word_eqI)

instance type_counts_ext :: (countable) countable
  by (rule countable_classI [of "\<lambda>r. to_nat (n_null r, n_bool r, n_number r,
        n_string r, n_array r, n_object r, type_counts.more r)"]) simp

instance numeric_buckets_ext :: (countable) countable
  by (rule countable_classI [of "\<lambda>r. to_nat (zero r, small_positive r, medium_positive r,
        large_positive r, negative r, numeric_buckets.more r)"]) simp

instance field_node :: countable by countable_datatype

instance profile_ext :: (countable) countable
  by (rule countable_classI [of "\<lambda>r. to_nat (count r, root r, profile.more r)"]) simp

definition lane_digests :: digests where
  "lane_digests = \<lparr> d_sha256 = (\<lambda>_. replicate 32 (CHR 0x00)), d_hex = (\<lambda>_. ''aa''), d_base32 = letter_enc \<rparr>"

definition lane_codecs :: codecs where
  "lane_codecs = \<lparr> schema_codec = demo_codec, strings_codec = lines_codec, json_codec = numbered,
     base32_dec = letter_dec \<rparr>"

definition lane_stubs :: "audit_stub codec" where
  "lane_stubs = \<lparr> enc = (\<lambda>_. []), dec = (\<lambda>_. None) \<rparr>"

definition profile_value :: "profile \<Rightarrow> json option" where
  "profile_value p = Some (JString (nat_dec (to_nat p)))"

definition value_profile_of :: "json \<Rightarrow> profile option" where
  "value_profile_of v = Option.bind (as_str v) (\<lambda>s. map_option from_nat (dec_nat s))"

text \<open>The limiter admits a number of new candidates.\<close>

definition lane_limit :: "bytes \<Rightarrow> nat \<Rightarrow> bool \<times> nat" where
  "lane_limit source n = (0 < n, n - 1)"

definition demo_lane_env :: "(mem, nat) lane_env" where
  "demo_lane_env = \<lparr> le_digests = lane_digests,
     le_store = redis_evidence mem_redis numbered lane_stubs numbered letter_dec 60,
     le_limit = lane_limit, le_to_value = profile_value, le_from_value = value_profile_of \<rparr>"

lemma lane_id_text: "id_text lane_digests"
proof -
  have half: "id_char (to_ascii_lower (char_of (65 + n)))" if "n < 16" for n :: nat
  proof -
    have "byte_val (char_of (65 + n)) = 65 + n" using that by (simp add: byte_val_char_of)
    then have "byte_val (to_ascii_lower (char_of (65 + n))) = 97 + n"
      using that by (simp add: to_ascii_lower_def byte_val_char_of)
    then show ?thesis using that by (simp add: id_char_def)
  qed
  have "byte_val b div 16 < 16" "byte_val b mod 16 < 16" for b
    using byte_val_less [of b] by simp_all
  with half have "list_all id_char (to_ascii_lowercase (letter_enc d))" for d
    by (induction d) (auto simp: letter_enc_def to_ascii_lowercase_def)
  then show ?thesis by (simp add: id_text_def lane_digests_def)
qed

interpretation demo_lane: redis_lane mem_redis mem_view numbered lane_stubs lane_codecs 60 demo_lane_env
proof (intro redis_lane.intro redis_lane_axioms.intro)
  show "redis_evidence_service mem_redis mem_view numbered"
    by (rule mem_evidence.redis_evidence_service_axioms)
  show "le_store demo_lane_env = redis_evidence mem_redis numbered lane_stubs (json_codec lane_codecs) (base32_dec lane_codecs) 60"
    by (simp add: demo_lane_env_def lane_codecs_def)
  show "\<exists>v. le_to_value demo_lane_env p = Some v \<and> le_from_value demo_lane_env v = Some p" for p
    by (simp add: demo_lane_env_def profile_value_def value_profile_of_def)
  show "base32_ok (d_base32 (le_digests demo_lane_env)) (base32_dec lane_codecs)"
    using letter_codec_ok by (simp add: demo_lane_env_def lane_digests_def lane_codecs_def)
qed (use lane_id_text in \<open>auto simp: demo_lane_env_def lane_digests_def\<close>)

section \<open>A run of one document\<close>

definition demo_lane :: "(mem, nat) lane" where
  "demo_lane = with_rate_limit id mem_empty 5"

definition demo_meta :: sample_meta where
  "demo_meta = \<lparr> sm_source = ''s'', sm_cursor = None \<rparr>"

definition demo_new_id :: candidate_id where
  "demo_new_id = observed_id lane_digests ''s'' NodeNull"

definition demo_ingested :: "(mem, nat) lane" where
  "demo_ingested = snd (ingest demo_lane_env demo_new_id NodeNull demo_meta 7 demo_lane)"

lemma demo_lane_fresh: "lane_fresh mem_redis numbered (base32_dec lane_codecs) (l_store demo_lane)"
proof -
  have "get_candidate mem_redis numbered i mem_empty = Inr None" for i
    by (simp add: get_candidate_def memory.hget)
  moreover have "get_cluster mem_redis b g mem_empty = Inr None" for b g
    by (simp add: get_cluster_def memory.get transpose_parse_def)
  moreover have "stored_variants mem_redis mem_empty i = {}" for i
    by (simp add: mem_evidence.stored_variants_eq)
  ultimately show ?thesis
    by (simp add: lane_fresh_def demo_lane_def with_rate_limit_def evidence_intact_def stored_candidate_def
        stored_cluster_def fun_eq_iff)
qed

lemma demo_ingest_effect:
  "ingest demo_lane_env demo_new_id NodeNull demo_meta 7 demo_lane = (Inr (Ingested demo_new_id True), demo_ingested)"
  "\<exists>v. value_profile_of v = Some (profile_from_node NodeNull) \<and>
     stored_candidate mem_redis numbered (l_store demo_ingested) demo_new_id = Some (candidate_after None demo_new_id v ''s'' 7)"
proof -
  obtain res L' where r: "ingest demo_lane_env demo_new_id NodeNull demo_meta 7 demo_lane = (res, L')" by fastforce
  then have L': "demo_ingested = L'" by (simp add: demo_ingested_def)
  note f = demo_lane_fresh [unfolded lane_fresh_def]
  have adm: "fst (le_limit demo_lane_env (sm_source demo_meta) (l_limiter demo_lane))"
    by (simp add: demo_lane_env_def lane_limit_def demo_lane_def with_rate_limit_def)
  have none: "first_hit (\<lambda>_. None) xs = None" for xs :: "'a list" by (induction xs) auto
  have v: "candidate_valid (base32_dec lane_codecs) demo_new_id"
    unfolding demo_new_id_def using demo_lane.lane.observed_valid [of "''s''" NodeNull]
    by (simp add: demo_lane_env_def)
  have sel: "le_from_value demo_lane_env = value_profile_of" "sm_source demo_meta = ''s''"
    by (simp_all add: demo_lane_env_def demo_meta_def)
  note c = demo_lane.lane.ingest_contract [OF _ v _ r]
  from c f adm obtain w where "res = Inr (Ingested demo_new_id True)"
    "value_profile_of w = Some (profile_from_node NodeNull)"
    "stored_candidate mem_redis numbered (l_store L') demo_new_id = Some (candidate_after None demo_new_id w ''s'' 7)"
    by (auto simp: target_candidate_def none Let_def sel)
  then show "ingest demo_lane_env demo_new_id NodeNull demo_meta 7 demo_lane = (Inr (Ingested demo_new_id True), demo_ingested)"
    "\<exists>v. value_profile_of v = Some (profile_from_node NodeNull) \<and>
     stored_candidate mem_redis numbered (l_store demo_ingested) demo_new_id = Some (candidate_after None demo_new_id v ''s'' 7)"
    using r L' by auto
qed

definition demo_hist :: lane_log where
  "demo_hist = [Counted demo_new_id ''s'' NodeNull True]"

lemma demo_ingest_target: "ingest_target demo_lane_env demo_new_id NodeNull ''s'' mem_empty = demo_new_id"
proof -
  have "find_cluster (le_store demo_lane_env) D source fps mem_empty = Inr None" for D source fps
    by (induction fps) (simp_all add: demo_lane_env_def redis_evidence_def get_cluster_def memory.get transpose_parse_def)
  then show ?thesis by (simp add: ingest_target_def)
qed

lemma demo_lane_run: "lane_run demo_lane_env X (demo_lane, []) (demo_ingested, demo_hist)"
proof -
  have id: "observed_id (le_digests demo_lane_env) (sm_source demo_meta) NodeNull = demo_new_id"
    by (simp add: demo_lane_env_def demo_meta_def demo_new_id_def)
  obtain v where "stored_candidate mem_redis numbered (l_store demo_ingested) demo_new_id = Some v"
    using demo_ingest_effect(2) by blast
  then have ne: "l_store demo_ingested \<noteq> l_store demo_lane"
    using demo_lane_fresh by (auto simp: lane_fresh_def)
  have st: "l_store demo_lane = mem_empty" by (simp add: demo_lane_def with_rate_limit_def)
  have "counted_by demo_lane_env demo_new_id (sm_source demo_meta) NodeNull demo_lane
      (Inr (Ingested demo_new_id True), demo_ingested) = demo_hist"
    using ne demo_ingest_target by (simp add: counted_by_def demo_hist_def demo_meta_def st)
  with lane_ingest [of demo_lane_env demo_meta NodeNull 7 demo_lane, unfolded id, OF demo_ingest_effect(1), of X "[]"]
  show ?thesis by (intro lane_run_step) simp
qed

section \<open>Its promotion\<close>

definition demo_policy :: promotion_policy where
  "demo_policy = \<lparr> pp_min_samples = 1, pp_min_age_ms = 0 \<rparr>"

definition demo_promoter :: "mem promoter" where
  "demo_promoter = redis_promoter mem_redis lane_codecs numbered lane_stubs 60 None None 5
     (le_digests demo_lane_env) (le_from_value demo_lane_env) (\<lambda>_. None) (\<lambda>_. None) demo_policy"

definition demo_request :: promote_request where
  "demo_request = \<lparr> pq_family = NewFamily, pq_name = None, pq_reason = ''r'' \<rparr>"

definition demo_promotion :: "(core_error + schema_record) \<times> mem" where
  "demo_promotion = promote demo_promoter ''u'' 7 7 demo_new_id demo_request ''me'' (l_store demo_ingested)"

lemma demo_lane_vault_ok: "vault_ok lane_codecs (mem_view (l_store demo_lane))"
  by (simp add: demo_lane_def with_rate_limit_def lane_codecs_def)
    (rule vault_ok_empty, simp add: vault_empty_def key_exists_mem mem_keys_def mem_empty_def)

lemma demo_promotes: "\<exists>draft st'. demo_promotion = (Inr draft, st')"
proof -
  obtain res st' where p: "demo_promotion = (res, st')" by fastforce
  note r = demo_lane.run_from_fresh(2,4) [OF demo_lane_fresh demo_lane_run]
  have sv: "same_vault (mem_view (l_store demo_lane)) (mem_view (l_store demo_ingested))"
    by (rule demo_lane.ingest_same_vault [OF demo_ingest_effect(1)])
  have ok: "vault_ok lane_codecs (mem_view (l_store demo_ingested))" by (rule vault_ok_same [OF sv demo_lane_vault_ok])
  obtain v where v: "value_profile_of v = Some (profile_from_node NodeNull)"
    "stored_candidate mem_redis numbered (l_store demo_ingested) demo_new_id = Some (candidate_after None demo_new_id v ''s'' 7)"
    using demo_ingest_effect(2) by blast
  have fv: "le_from_value demo_lane_env = value_profile_of" by (simp add: demo_lane_env_def)
  have "\<not> publish_blocked None (mem_view (l_store demo_lane)) sid can cid fam" for sid can cid fam
    by (simp add: publish_blocked_def demo_lane_def with_rate_limit_def schema_field_def counter_def)
  then have "\<not> publish_blocked None (mem_view (l_store demo_ingested)) sid can cid fam" for sid can cid fam
    using publish_blocked_same [OF sv] by simp
  then have "\<not> promotion_refused (le_digests demo_lane_env) (le_from_value demo_lane_env) demo_policy None
      (mem_view (l_store demo_ingested)) ''u'' demo_request 7 demo_new_id
      (stored_candidate mem_redis numbered (l_store demo_ingested) demo_new_id) e" for e
    by (simp add: promotion_refused_def v fv candidate_after_def policy_check_def demo_policy_def)
  moreover have "\<not> unreachable mem_redis e" for e by (simp add: unreachable_def)
  ultimately show ?thesis
    using demo_lane.promote_contract [OF r(1) ok demo_lane.run_variants_ok [OF r(2)]
        p [unfolded demo_promotion_def demo_promoter_def]] p by blast
qed

lemma demo_staged:
  assumes p: "demo_promotion = (Inr draft, st')"
  shows "\<exists>rec. get_candidate mem_redis numbered demo_new_id st' = Inr (Some rec) \<and> cand_state rec = StagedState"
proof -
  note r = demo_lane.run_from_fresh(2,4) [OF demo_lane_fresh demo_lane_run]
  have ok: "vault_ok lane_codecs (mem_view (l_store demo_ingested))"
    by (rule vault_ok_same [OF demo_lane.ingest_same_vault [OF demo_ingest_effect(1)] demo_lane_vault_ok])
  from demo_lane.promote_contract [OF r(1) ok demo_lane.run_variants_ok [OF r(2)]
        p [unfolded demo_promotion_def demo_promoter_def]]
  obtain rec where "evidence_intact mem_redis numbered (base32_dec lane_codecs) st'"
    "stored_candidate mem_redis numbered st' demo_new_id = Some (rec\<lparr> cand_state := StagedState \<rparr>)" by auto
  then show ?thesis by (simp add: evidence_intact_def)
qed

end
