(* ===== verification/Auto_Promote.thy ===== *)
theory Auto_Promote
  imports Promotion_Facts
begin

text \<open>
  The automatic promotion of candidates (\<open>deblob/src/auto_promote.rs\<close>): a sweep walks the listing of
  provisional candidates page by page and promotes the eligible ones of trusted sources, up to a
  cap. What a sweep reads of its surroundings, per page whether shutdown was requested and the
  clock, is a list; where the list ends the sweep is still running.
\<close>

section \<open>The sweep\<close>

definition auto_promote_actor :: bytes where "auto_promote_actor = ''deblob-auto-promote''"

definition sweep_page_size :: nat where "sweep_page_size = 128"

definition auto_source_allowed :: "bytes option \<Rightarrow> bytes list \<Rightarrow> bool" where
  "auto_source_allowed source allowed =
     (case source of Some s \<Rightarrow> list_ex (\<lambda>a. a = s) allowed | None \<Rightarrow> False)"

definition auto_promote_request :: "candidate_record \<Rightarrow> int \<Rightarrow> promote_request" where
  "auto_promote_request cand now_ms =
     (let age_ms = now_ms - first_seen_ms cand
      in \<lparr> pq_family = NewFamily, pq_name = None,
           pq_reason = ''auto-promoted: '' @ nat_dec (unat (sample_count cand)) @ '' samples over '' @
             int_dec age_ms @ ''ms, shape settled'' \<rparr>)"

text \<open>The promoter and the listing are trait objects over one state.\<close>

record 'st sweeper =
  as_promote :: "candidate_id \<Rightarrow> promote_request \<Rightarrow> bytes \<Rightarrow> 'st \<Rightarrow> (core_error + schema_record) \<times> 'st"
  as_list :: "candidate_state \<Rightarrow> bytes option \<Rightarrow> nat \<Rightarrow> 'st \<Rightarrow>
    (core_error + candidate_record list \<times> bytes option) \<times> 'st"
  as_from_value :: "json \<Rightarrow> profile option"
  as_policy :: auto_promote_policy
  as_allowed :: "bytes list"
  as_max_per_tick :: nat

text \<open>The records of a page: the number promoted, and whether the cap ended the sweep.\<close>

fun sweep_records ::
  "'st sweeper \<Rightarrow> int \<Rightarrow> candidate_record list \<Rightarrow> nat \<Rightarrow> 'st \<Rightarrow> (nat \<times> bool) \<times> 'st" where
  "sweep_records W now_ms [] promoted st = ((promoted, False), st)"
| "sweep_records W now_ms (rec # records) promoted st =
     (if \<not> auto_source_allowed (cand_source rec) (as_allowed W) then sweep_records W now_ms records promoted st
      else
        (case eligible (as_from_value W) (as_policy W) rec now_ms of
           Inl reason \<Rightarrow> sweep_records W now_ms records promoted st
         | Inr _ \<Rightarrow>
             (case as_promote W (cand_id rec) (auto_promote_request rec now_ms) auto_promote_actor st of
                (Inr schema, st1) \<Rightarrow>
                  if as_max_per_tick W \<le> promoted + 1 then ((promoted + 1, True), st1)
                  else sweep_records W now_ms records (promoted + 1) st1
              | (Inl e, st1) \<Rightarrow> sweep_records W now_ms records promoted st1)))"

fun sweep_pages ::
  "'st sweeper \<Rightarrow> (bool \<times> int) list \<Rightarrow> bytes option \<Rightarrow> nat \<Rightarrow> 'st \<Rightarrow> bool \<times> 'st" where
  "sweep_pages W [] cursor promoted st = (False, st)"
| "sweep_pages W ((cancelled, now_ms) # reads) cursor promoted st =
     (if cancelled then (True, st)
      else
        (case as_list W ProvisionalState cursor sweep_page_size st of
           (Inl e, st1) \<Rightarrow> (True, st1)
         | (Inr (records, next_cursor), st1) \<Rightarrow>
             (case sweep_records W now_ms records promoted st1 of
                ((promoted1, True), st2) \<Rightarrow> (True, st2)
              | ((promoted1, False), st2) \<Rightarrow>
                  (case next_cursor of
                     Some c \<Rightarrow> sweep_pages W reads (Some c) promoted1 st2
                   | None \<Rightarrow> (True, st2)))))"

definition sweep_once :: "'st sweeper \<Rightarrow> (bool \<times> int) list \<Rightarrow> 'st \<Rightarrow> bool \<times> 'st" where
  "sweep_once W reads st = sweep_pages W reads None 0 st"

text \<open>The ticker: one sweep per tick until shutdown; \<open>None\<close> is the cancellation.\<close>

fun run_auto_promote_sweep :: "'st sweeper \<Rightarrow> (bool \<times> int) list option list \<Rightarrow> 'st \<Rightarrow> 'st" where
  "run_auto_promote_sweep W [] st = st"
| "run_auto_promote_sweep W (None # ticks) st = st"
| "run_auto_promote_sweep W (Some reads # ticks) st =
     (case sweep_once W reads st of
        (True, st1) \<Rightarrow> run_auto_promote_sweep W ticks st1
      | (False, st1) \<Rightarrow> st1)"

section \<open>Over the store in Redis\<close>

text \<open>\<open>list_candidates\<close> with the page that its \<open>SSCAN\<close> call returns.\<close>

definition redis_lister ::
  "'st redis \<Rightarrow> candidate_record codec \<Rightarrow> (candidate_state \<Rightarrow> bytes option \<Rightarrow> nat \<Rightarrow> 'st \<Rightarrow> bytes \<times> bytes list) \<Rightarrow>
     candidate_state \<Rightarrow> bytes option \<Rightarrow> nat \<Rightarrow> 'st \<Rightarrow> (core_error + candidate_record list \<times> bytes option) \<times> 'st" where
  "redis_lister R C sscan state cursor limit st = list_candidates R C state (sscan state cursor limit st) st"

lemma promoted_count:
  assumes "sweep_records W now_ms records promoted st = ((promoted', full), st')"
    and "promoted = 0 \<or> promoted < as_max_per_tick W"
  shows "promoted \<le> promoted' \<and> promoted' \<le> max 1 (as_max_per_tick W) \<and>
    (full \<or> promoted' = 0 \<or> promoted' < as_max_per_tick W)"
  using assms
  by (induction W now_ms records promoted st rule: sweep_records.induct)
    (fastforce split: if_splits sum.splits prod.splits)+

text \<open>A candidate after the sweep, against before: as it was, or staged when it was eligible.\<close>

definition swept :: "'st sweeper \<Rightarrow> int set \<Rightarrow> candidate_record option \<Rightarrow> candidate_record option \<Rightarrow> bool" where
  "swept W nows before after \<longleftrightarrow> after = before \<or>
     (\<exists>rec now. before = Some rec \<and> after = Some (rec\<lparr> cand_state := StagedState \<rparr>) \<and>
        cand_state rec = ProvisionalState \<and> auto_source_allowed (cand_source rec) (as_allowed W) \<and>
        now \<in> nows \<and> eligible (as_from_value W) (as_policy W) rec now = Inr ())"

text \<open>A call of the promoter is \<open>promote\<close> with a fresh family id at some time.\<close>

definition sweeps_with :: "'st promoter \<Rightarrow> 'st sweeper \<Rightarrow> bool" where
  "sweeps_with Pr W \<longleftrightarrow>
     (\<forall>i req actor st. \<exists>uuid now now'. as_promote W i req actor st = promote Pr uuid now now' i req actor st)"

context redis_lane
begin

abbreviation "cands \<equiv> stored_candidate R C"

definition sweep_inv :: "'st sweeper \<Rightarrow> int set \<Rightarrow> 'st \<Rightarrow> nat \<Rightarrow> 'st \<Rightarrow> bool" where
  "sweep_inv W nows st0 n st \<longleftrightarrow>
     evidence_intact R C (base32_dec K) st \<and> vault_ok K (view st) \<and>
     (\<forall>i. \<forall>v\<in>stored_variants R st i. variant_ok v) \<and>
     (\<forall>i rec. cands st i = Some rec \<longrightarrow> cand_id rec = i) \<and>
     (\<forall>i. swept W nows (cands st0 i) (cands st i)) \<and>
     (\<exists>xs. length xs \<le> n \<and> {i. cands st i \<noteq> cands st0 i} \<subseteq> set xs)"

text \<open>A listed record is the stored one, or its candidate has been promoted since.\<close>

definition listed :: "'st \<Rightarrow> candidate_record \<Rightarrow> bool" where
  "listed st r \<longleftrightarrow> (\<exists>rec. cands st (cand_id r) = Some rec \<and> (rec = r \<or> cand_state rec \<noteq> ProvisionalState))"

lemma list_page_records:
  assumes "list_page R C index ids acc st = (Inr records, st')"
    and "\<forall>r\<in>set acc. \<exists>i. cands st i = Some r"
  shows "\<forall>r\<in>set records. \<exists>i. cands st i = Some r"
  using assms
proof (induction ids arbitrary: acc st)
  case (Cons x ids)
  let ?i = "CandidateId x" and ?st = "r_srem R index x st"
  have "get_candidate R C i ?st = get_candidate R C i st" for i by (rule get_candidate_cong) (simp add: srem)
  then have same: "cands ?st = cands st" by (simp add: fun_eq_iff stored_candidate_def)
  from Cons.prems(1) show ?case
  proof (cases rule: list_page_cases)
    case pruned
    from Cons.IH [OF pruned(2)] Cons.prems(2) show ?thesis by (simp add: same)
  next
    case (listed js rec)
    have "candidate_key ?i = ''deblob:candidate:'' @ x" by (simp add: candidate_key_def)
    then have "cands st ?i = Some rec"
      using listed(1,2) by (simp add: stored_candidate_def get_candidate_def del: append.simps)
    then show ?thesis using Cons.IH [OF listed(3)] Cons.prems(2) by auto
  qed simp
qed auto

lemma redis_lister_effect:
  assumes run: "redis_lister R C sscan s cursor n st = (res, st')" and ok: "evidence_intact R C (base32_dec K) st"
  shows "cands st' = cands st" "evidence_intact R C (base32_dec K) st'" "same_vault (view st) (view st')"
    "stored_variants R st' i \<subseteq> stored_variants R st i"
    "res = Inr (records, next) \<Longrightarrow> \<forall>r\<in>set records. \<exists>i. cands st i = Some r"
proof -
  have "cands st' = cands st \<and> evidence_intact R C (base32_dec K) st' \<and> same_vault (view st) (view st') \<and>
    stored_variants R st' i \<subseteq> stored_variants R st i \<and>
    (res = Inr (records, next) \<longrightarrow> (\<forall>r\<in>set records. \<exists>i. cands st i = Some r))"
    using run [unfolded redis_lister_def]
  proof (cases rule: list_candidates_cases)
    case (failed e)
    then show ?thesis using ok by (simp add: same_vault_refl)
  next
    case (listed r)
    note eff = list_page_effect [OF listed(1)]
    have g: "get_candidate R C i st' = get_candidate R C i st" for i by (rule get_candidate_cong) (simp add: eff)
    have cl: "get_cluster R (base32_dec K) x st' = get_cluster R (base32_dec K) x st" for x
      by (rule get_cluster_cong) (simp add: eff)
    have "evidence_intact R C (base32_dec K) st'"
      by (rule evidence_intactI) (use ok in \<open>auto simp: g cl evidence_intact_def\<close>)
    moreover have "stored_variants R st' i \<subseteq> stored_variants R st i" using eff by (auto simp: stored_variants_eq)
    moreover have "\<forall>r\<in>set records. \<exists>i. cands st i = Some r" if "res = Inr (records, next)"
    proof (rule list_page_records)
      show "list_page R C (candidate_state_index_key s) (snd (sscan s cursor n st)) [] st = (Inr records, st')"
        using listed that by (cases r) auto
    qed simp
    ultimately show ?thesis using list_page_same_vault [OF listed(1)]
      by (simp add: fun_eq_iff stored_candidate_def g)
  qed
  then show "cands st' = cands st" "evidence_intact R C (base32_dec K) st'" "same_vault (view st) (view st')"
    "stored_variants R st' i \<subseteq> stored_variants R st i"
    "res = Inr (records, next) \<Longrightarrow> \<forall>r\<in>set records. \<exists>i. cands st i = Some r" by blast+
qed

lemma sweep_inv_listing:
  assumes "sweep_inv W nows st0 n st" "redis_lister R C sscan s cursor m st = (res, st')"
  shows "sweep_inv W nows st0 n st'" "res = Inr (records, next) \<Longrightarrow> \<forall>r\<in>set records. listed st' r"
proof -
  have ok: "evidence_intact R C (base32_dec K) st" using assms(1) by (simp add: sweep_inv_def)
  note e = redis_lister_effect [OF assms(2) ok]
  show "sweep_inv W nows st0 n st'"
    using assms(1) e(1,2) vault_ok_same [OF e(3)] e(4) unfolding sweep_inv_def by (simp only:) blast
  show "\<forall>r\<in>set records. listed st' r" if res: "res = Inr (records, next)"
  proof
    fix r assume "r \<in> set records"
    then obtain i where i: "cands st i = Some r" using e(5) [OF res] by blast
    then have "cand_id r = i" using assms(1) by (auto simp: sweep_inv_def)
    then show "listed st' r" using i e(1) by (simp add: listed_def)
  qed
qed

lemma sweep_inv_mono: "sweep_inv W nows st0 n st \<Longrightarrow> n \<le> m \<Longrightarrow> sweep_inv W nows st0 m st"
  unfolding sweep_inv_def by (meson le_trans)

text \<open>A call of the promoter leaves the candidates as they are, or succeeds and stages its one.\<close>

lemma promote_cases:
  assumes "evidence_intact R C (base32_dec K) st" "vault_ok K (view st)" "\<forall>v\<in>stored_variants R st cid. variant_ok v"
    and "promote (redis_promoter R K C A secs vc health clock (le_digests E) (le_from_value E) fs tv P)
      uuid now now' cid req actor st = (res, st')"
  obtains (unchanged) "vault_ok K (view st')" "evidence_intact R C (base32_dec K) st'"
        "cands st' = cands st" "stored_variants R st' = stored_variants R st"
    | (staged) rec draft where "res = Inr draft" "cands st cid = Some rec" "cand_state rec = ProvisionalState"
        "vault_ok K (view st')" "evidence_intact R C (base32_dec K) st'"
        "cands st' = (cands st)(cid \<mapsto> rec\<lparr> cand_state := StagedState \<rparr>)"
        "stored_variants R st' = stored_variants R st"
proof -
  have kept: thesis if e: "same_vault (view st) (view st')" "same_evidence (view st) (view st')"
    using same_evidence_views [OF e(2) assms(1)] vault_ok_same [OF e(1) assms(2)] unchanged by blast
  from promote_contract [OF assms] show thesis
    by (elim disjE exE conjE) (use kept unchanged staged in blast)+
qed

lemma sweep_inv_promotion:
  assumes inv: "sweep_inv W nows st0 n st" and r: "listed st r"
    and el: "auto_source_allowed (cand_source r) (as_allowed W)" "eligible (as_from_value W) (as_policy W) r now_ms = Inr ()"
      "now_ms \<in> nows"
    and W: "sweeps_with (redis_promoter R K C A secs vc health clock (le_digests E) (le_from_value E) fs tv P) W"
    and run: "as_promote W (cand_id r) req actor st = (res, st')"
  shows "sweep_inv W nows st0 (case res of Inl e \<Rightarrow> n | Inr draft \<Rightarrow> n + 1) st' \<and> (\<forall>q. listed st q \<longrightarrow> listed st' q)"
proof -
  have ok: "evidence_intact R C (base32_dec K) st" "vault_ok K (view st)"
    "\<forall>v\<in>stored_variants R st (cand_id r). variant_ok v"
    using inv by (simp_all add: sweep_inv_def)
  obtain uuid now now' where p: "promote (redis_promoter R K C A secs vc health clock (le_digests E) (le_from_value E) fs tv P)
      uuid now now' (cand_id r) req actor st = (res, st')"
    using W run unfolding sweeps_with_def by metis
  show ?thesis
  proof (rule promote_cases [OF ok p])
    assume v: "vault_ok K (view st')" "evidence_intact R C (base32_dec K) st'"
      "cands st' = cands st" "stored_variants R st' = stored_variants R st"
    have "sweep_inv W nows st0 n st'" using inv v unfolding sweep_inv_def by simp
    then show ?thesis using v(3) sweep_inv_mono [of W nows st0 n st' "n + 1"]
      by (auto simp: listed_def split: sum.split)
  next
    fix rec draft
    assume d: "res = Inr draft" "cands st (cand_id r) = Some rec" "cand_state rec = ProvisionalState"
      "vault_ok K (view st')" "evidence_intact R C (base32_dec K) st'"
      "cands st' = (cands st)(cand_id r \<mapsto> rec\<lparr> cand_state := StagedState \<rparr>)"
      "stored_variants R st' = stored_variants R st"
    have rec: "rec = r" using r d(2,3) by (auto simp: listed_def)
    have before: "cands st0 (cand_id r) = Some r"
    proof -
      have "\<forall>i. swept W nows (cands st0 i) (cands st i)" using inv by (simp add: sweep_inv_def)
      then have "swept W nows (cands st0 (cand_id r)) (Some r)" using d(2) rec by metis
      then show ?thesis using d(3) rec by (auto simp: swept_def)
    qed
    have sw: "swept W nows (cands st0 i) (cands st' i)" for i
    proof (cases "i = cand_id r")
      case True
      then show ?thesis using before d(3,6) rec el by (auto simp: swept_def)
    next
      case False
      then show ?thesis using inv d(6) by (simp add: sweep_inv_def)
    qed
    obtain xs where "length xs \<le> n" "{i. cands st i \<noteq> cands st0 i} \<subseteq> set xs"
      using inv unfolding sweep_inv_def by blast
    then have "length (cand_id r # xs) \<le> n + 1 \<and> {i. cands st' i \<noteq> cands st0 i} \<subseteq> set (cand_id r # xs)"
      using d(6) by (auto split: if_splits)
    then have ch: "\<exists>xs. length xs \<le> n + 1 \<and> {i. cands st' i \<noteq> cands st0 i} \<subseteq> set xs" by blast
    have ids: "cand_id q = i" if "cands st' i = Some q" for i q
      using inv that d(2,6) by (auto simp: sweep_inv_def split: if_splits)
    have vs: "variant_ok v" if "v \<in> stored_variants R st' i" for v i
      using inv that d(7) by (simp add: sweep_inv_def)
    have "sweep_inv W nows st0 (n + 1) st'"
      unfolding sweep_inv_def using d(4,5) sw ids vs ch by simp
    moreover have "listed st' q" if "listed st q" for q
      using that d(2,3,6) by (auto simp: listed_def)
    ultimately show ?thesis using d(1) by simp
  qed
qed

lemma sweep_records_inv:
  assumes "sweep_inv W nows st0 n st" "\<forall>r\<in>set records. listed st r" "now_ms \<in> nows"
    and "sweeps_with (redis_promoter R K C A secs vc health clock (le_digests E) (le_from_value E) fs tv P) W"
    and "sweep_records W now_ms records n st = ((n', full), st')"
  shows "sweep_inv W nows st0 n' st'"
  using assms
proof (induction records arbitrary: n st)
  case (Cons r records)
  show ?case
  proof (cases "auto_source_allowed (cand_source r) (as_allowed W) \<and>
      eligible (as_from_value W) (as_policy W) r now_ms = Inr ()")
    case False
    then have "sweep_records W now_ms records n st = ((n', full), st')"
      using Cons.prems(5) by (auto split: if_splits sum.splits)
    with Cons show ?thesis by simp
  next
    case True
    obtain res st1 where p: "as_promote W (cand_id r) (auto_promote_request r now_ms) auto_promote_actor st = (res, st1)"
      by fastforce
    have l: "listed st r" using Cons.prems(2) by simp
    note inv1 = sweep_inv_promotion [OF Cons.prems(1) l conjunct1 [OF True] conjunct2 [OF True] Cons.prems(3,4) p]
    then have ls: "\<forall>q\<in>set records. listed st1 q" using Cons.prems(2) by simp
    show ?thesis
    proof (cases res)
      case (Inl e)
      then have "sweep_records W now_ms records n st1 = ((n', full), st')"
        using Cons.prems(5) True p by simp
      from Cons.IH [OF _ ls Cons.prems(3,4) this] inv1 Inl show ?thesis by simp
    next
      case (Inr draft)
      have i1: "sweep_inv W nows st0 (n + 1) st1" using inv1 Inr by simp
      show ?thesis
      proof (cases "as_max_per_tick W \<le> n + 1")
        case full: True
        then show ?thesis using Cons.prems(5) True p Inr i1 by simp
      next
        case False
        then have "sweep_records W now_ms records (n + 1) st1 = ((n', full), st')"
          using Cons.prems(5) True p Inr by simp
        from Cons.IH [OF i1 ls Cons.prems(3,4) this] show ?thesis .
      qed
    qed
  qed
qed simp

lemma sweep_pages_inv:
  assumes "sweep_inv W nows st0 n st" "n = 0 \<or> n < as_max_per_tick W" "snd ` set reads \<subseteq> nows"
    and "as_list W = redis_lister R C sscan"
    and "sweeps_with (redis_promoter R K C A secs vc health clock (le_digests E) (le_from_value E) fs tv P) W"
    and "sweep_pages W reads cursor n st = (fin, st')"
  shows "sweep_inv W nows st0 (max 1 (as_max_per_tick W)) st'"
  using assms
proof (induction reads arbitrary: cursor n st)
  case Nil
  then show ?case by (auto elim: sweep_inv_mono)
next
  case (Cons rd reads)
  obtain cancelled now_ms where rd: "rd = (cancelled, now_ms)" by fastforce
  have keep: "sweep_inv W nows st0 (max 1 (as_max_per_tick W)) st2" if "sweep_inv W nows st0 m st2" "m \<le> max 1 (as_max_per_tick W)" for m st2
    using sweep_inv_mono that by blast
  show ?case
  proof (cases cancelled)
    case True
    then show ?thesis using Cons.prems rd keep [of n st] by auto
  next
    case False
    obtain res st1 where l: "redis_lister R C sscan ProvisionalState cursor sweep_page_size st = (res, st1)" by fastforce
    note i1 = sweep_inv_listing [OF Cons.prems(1) l]
    show ?thesis
    proof (cases res)
      case (Inl e)
      then show ?thesis using Cons.prems(2,4,6) rd False l i1(1) keep [of n st1] by auto
    next
      case (Inr page)
      obtain records next_cursor where page: "page = (records, next_cursor)" by fastforce
      obtain n1 full st2 where s: "sweep_records W now_ms records n st1 = ((n1, full), st2)" by (metis surj_pair)
      have ls: "\<forall>r\<in>set records. listed st1 r" by (rule i1(2)) (simp add: Inr page)
      have "now_ms \<in> nows" using Cons.prems(3) rd by auto
      note i2 = sweep_records_inv [OF i1(1) ls this Cons.prems(5) s]
      note n1 = promoted_count [OF s Cons.prems(2)]
      show ?thesis
      proof (cases "full \<or> next_cursor = None")
        case True
        then have "st' = st2" using Cons.prems(4,6) rd False l Inr page s by (auto split: bool.splits)
        then show ?thesis using i2 n1 keep by blast
      next
        case more: False
        then obtain c where c: "next_cursor = Some c" "\<not> full" by auto
        then have run: "sweep_pages W reads (Some c) n1 st2 = (fin, st')"
          using Cons.prems(4,6) rd False l Inr page s by simp
        have "snd ` set reads \<subseteq> nows" using Cons.prems(3) by simp
        from Cons.IH [OF i2 _ this Cons.prems(4,5) run] n1 c show ?thesis by blast
      qed
    qed
  qed
qed

end

end
