(* ===== verification/Lane_Properties.thy ===== *)
theory Lane_Properties
  imports Lane_Demo Auto_Promote Fingerprint_Properties
begin

text \<open>
  What the cold lane and the promoter guarantee together: a candidate is the merge of its
  documents, of one source; a promotion publishes exactly that merge, once; and afterwards every
  document of the candidate is recognised on the hot path.
\<close>

section \<open>Candidates\<close>

text \<open>C22: along every run of ingestions, any of which may fail at any round trip, state changes, expiries
  and writes elsewhere, the stored candidates are exactly those with documents counted since they
  last expired: the profile of each is the merge of these documents and its sample count their
  number. Its variants are shapes of documents counted since the variants last expired, among them
  those of all whose ingestion was reported as successful.\<close>

theorem candidate_is_its_documents:
  assumes "redis_lane R view C A K secs E" "lane_fresh R C (base32_dec K) (l_store L)"
    and "lane_run E (surroundings view K) (L, []) (L', hist)"
  shows "(if docs_of i hist = [] then get_candidate R C i (l_store L') = Inr None
    else \<exists>rec. get_candidate R C i (l_store L') = Inr (Some rec) \<and> cand_id rec = i \<and>
      le_from_value E (cand_profile rec) = Some (profile_of (docs_of i hist)) \<and>
      sample_count rec = of_nat (length (docs_of i hist))) \<and>
    concrete_variant (le_digests E) ` set (kept_docs i hist) \<subseteq> set (get_variants R i (l_store L')) \<and>
    set (get_variants R i (l_store L')) \<subseteq> concrete_variant (le_digests E) ` set (seen_docs i hist)"
  by (rule redis_lane.candidate_documents [OF assms])

theorem candidate_is_its_documents_witness:
  "\<exists>rec. get_candidate mem_redis numbered demo_new_id (l_store demo_ingested) = Inr (Some rec) \<and>
     value_profile_of (cand_profile rec) = Some (profile_of [NodeNull]) \<and> sample_count rec = 1 \<and>
     concrete_variant lane_digests NodeNull \<in> set (get_variants mem_redis demo_new_id (l_store demo_ingested))"
proof -
  have d: "docs_of demo_new_id demo_hist = [NodeNull]" "kept_docs demo_new_id demo_hist = [NodeNull]"
    by (simp_all add: demo_hist_def docs_of_simps(2) [of _ "[]", simplified] kept_docs_simps(2) [of _ "[]", simplified])
  show ?thesis
    using candidate_is_its_documents [OF demo_lane.redis_lane_axioms demo_lane_fresh demo_lane_run, of demo_new_id]
    by (auto simp: d demo_lane_env_def)
qed

text \<open>C25: no candidate mixes sources: two documents ingested into one candidate were observed on
  the same source, provided SHA-256 does not collide on the run's (source, digest) pairs.\<close>

theorem candidate_single_source:
  assumes "redis_lane R view C A K secs E" "lane_fresh R C (base32_dec K) (l_store L)"
    and "lane_run E (surroundings view K) (L, []) (L', hist)" "collision_free (le_digests E) hist"
    and "Counted i s nd c \<in> set hist" "Counted i t nd' c' \<in> set hist"
  shows "s = t"
  by (rule scoped_lane.single_source [OF redis_lane.axioms_of_lane [OF assms(1)]
        redis_lane.run_from_fresh(5) [OF assms(1-3)] assms(4-6)])

theorem candidate_single_source_witness:
  "Counted demo_new_id ''s'' NodeNull True \<in> set demo_hist \<and> ''s'' = ''s''"
  using candidate_single_source [OF demo_lane.redis_lane_axioms demo_lane_fresh demo_lane_run, of demo_new_id "''s''" NodeNull True "''s''" NodeNull True]
  by (simp add: demo_hist_def collision_free_def)



section \<open>Promotion\<close>



text \<open>C40: a candidate is promoted to one schema: whatever happens after a successful promotion, a later
  promotion of the same candidate that succeeds is of the same schema; and as long as the candidate
  is staged, is not moved back and does not expire, a later promotion fails and changes nothing.\<close>

theorem promoted_once:
  assumes "redis_lane R view C A K secs E" "lane_fresh R C (base32_dec K) (l_store L)"
    and "lane_run E (surroundings view K) (L, []) (L1, hist)" "vault_ok K (view (l_store L))"
    and "Pr = redis_promoter R K C A secs vc health clock (le_digests E) (le_from_value E) fs tv P"
    and "promote Pr uuid now now' i req actor (l_store L1) = (Inr draft, st1)"
    and "lane_run E (surroundings view K) (L1\<lparr> l_store := st1 \<rparr>, hist) (L2, hist @ later)"
    and "promote Pr uuid2 now2 now2' i req2 actor2 (l_store L2) = (res, st2)"
  shows "(case res of Inr draft2 \<Rightarrow> rec_schema_id draft2 = rec_schema_id draft | Inl e \<Rightarrow> True) \<and>
    (\<forall>rec. get_candidate R C i st1 = Inr (Some rec) \<and> cand_state rec = StagedState \<and>
       Moved i ProvisionalState \<notin> set later \<and> Expired (CandidateKey i) \<notin> set later \<longrightarrow>
       (\<exists>e. res = Inl e) \<and> st2 = l_store L2)"
proof -
  note lane = redis_lane.axioms_of_lane [OF assms(1)]
  have out: "\<And>t st st'. surroundings view K t st st' \<Longrightarrow> outside view t st st'" by (rule surroundings_outside)
  note r1 = redis_lane.run_from_fresh [OF assms(1-3)]
  note vk1 = redis_lane.lane_run_vault_ok [OF assms(1,3,4)]
  note p1 = assms(6) [unfolded assms(5)]
  note ok1 = redis_lane.promoted_run_ok [OF assms(1) r1(1) vk1 p1]
  have ok2: "scoped_lane.run_ok E (evidence_intact R C (base32_dec K)) (stored_candidate R C)
      (stored_cluster R (base32_dec K)) (stored_variants R) (L2, hist @ later)"
    by (rule scoped_lane.run_ok_run [OF lane assms(7) conjunct1 [OF ok1]]) (rule surroundings_outside)
  note o2 = scoped_lane.run_okD [OF lane ok2]
  have vk2: "vault_ok K (view (l_store L2)) \<and> vault_keeps (view st1) (view (l_store L2))"
    using redis_lane.lane_run_vault [OF assms(1,7)] ok1 by simp
  have vs2: "\<forall>v\<in>stored_variants R (l_store L2) i. variant_ok v" by (rule redis_lane.run_variants_ok [OF assms(1) o2(3)])
  have "strs (view st1) (alias_key i) = Some (schema_str (rec_schema_id draft))"
    using redis_lane.promote_contract [OF assms(1) r1(2) vk1 redis_lane.run_variants_ok [OF assms(1) r1(4)] p1]
    by (auto simp: publication_def)
  then have al: "strs (view (l_store L2)) (alias_key i) = Some (schema_str (rec_schema_id draft))"
    using vk2 unfolding vault_keeps_def by blast
  have same: "rec_schema_id draft2 = rec_schema_id draft" if "res = Inr draft2" for draft2
    by (rule redis_lane.promote_alias [OF assms(1) o2(1) conjunct1 [OF vk2] vs2
          assms(8) [unfolded assms(5) that] al])
  have "(\<exists>e. res = Inl e) \<and> st2 = l_store L2"
    if s: "get_candidate R C i st1 = Inr (Some rec)" "cand_state rec = StagedState"
      "Moved i ProvisionalState \<notin> set later" "Expired (CandidateKey i) \<notin> set later" for rec
  proof -
    have "stored_candidate R C (l_store (fst (L1\<lparr> l_store := st1 \<rparr>, hist))) i = Some rec"
      "cand_state rec \<noteq> ProvisionalState" using s(1,2) by (simp_all add: stored_candidate_def)
    from scoped_lane.settled_run [OF lane assms(7) conjunct1 [OF ok1] out this] s(3,4)
    obtain r where r: "stored_candidate R C (l_store L2) i = Some r" "cand_state r \<noteq> ProvisionalState"
      by auto
    have "get_candidate R C i (l_store L2) = Inr (Some r)" using o2(1) r(1) by (simp add: evidence_intact_def)
    then show ?thesis
      using assms(8) r(2) by (auto simp: promote_def assms(5) redis_promoter_def redis_evidence_def read_trip_def
          split: link.splits)
  qed
  moreover have "case res of Inr draft2 \<Rightarrow> rec_schema_id draft2 = rec_schema_id draft | Inl e \<Rightarrow> True"
    using same by (cases res) simp_all
  ultimately show ?thesis by blast
qed

theorem promoted_once_witness:
  "\<exists>draft st1 e. demo_promotion = (Inr draft, st1) \<and>
     promote demo_promoter ''v'' 9 9 demo_new_id demo_request ''me'' st1 = (Inl e, st1)"
proof -
  obtain draft st1 where p: "demo_promotion = (Inr draft, st1)" using demo_promotes by blast
  obtain rec where rec: "get_candidate mem_redis numbered demo_new_id st1 = Inr (Some rec)" "cand_state rec = StagedState"
    using demo_staged [OF p] by blast
  obtain res st2 where q: "promote demo_promoter ''v'' 9 9 demo_new_id demo_request ''me'' st1 = (res, st2)" by fastforce
  have "lane_run demo_lane_env (surroundings mem_view lane_codecs) (demo_ingested\<lparr> l_store := st1 \<rparr>, demo_hist)
      (demo_ingested\<lparr> l_store := st1 \<rparr>, demo_hist @ [])" by simp
  from promoted_once [OF demo_lane.redis_lane_axioms demo_lane_fresh demo_lane_run demo_lane_vault_ok
      demo_promoter_def p [unfolded demo_promotion_def] this, of "''v''" 9 9 demo_request "''me''" res st2] q rec p
  show ?thesis by auto
qed

text \<open>C23: ingest, promote, recognise: after a candidate's promotion every payload that has the shape
  of one of its documents, as long as the document's ingestion succeeded and its variant has not
  expired before, is classified as a known, stored schema, from any source.\<close>

theorem promoted_documents_known:
  assumes "redis_lane R view C A K secs E" "lane_fresh R C (base32_dec K) (l_store L)"
    and "lane_run E (surroundings view K) (L, []) (L', hist)" "vault_ok K (view (l_store L))"
    and "promote (redis_promoter R K C A secs vc health clock (le_digests E) (le_from_value E) fs tv P)
      uuid now now' i req actor (l_store L') = (Inr draft, st')"
    and "nd \<in> set (kept_docs i hist)" "lru_cache Lru entries"
    and "parse_bounded payload Bd = Inr nd'" "shape_of nd' = shape_of nd"
    and "entries (m_lru M) (fingerprint (d_sha256 (le_digests E)) (shape_of nd)) = None"
    and "classify (le_digests E) Lru (store_resolve R (base32_dec K) st') source payload Bd M = (c, M')"
  shows "\<exists>t. c_schema_ref c = Known t \<and> stored (view st') t"
proof -
  obtain t where t: "store_resolve R (base32_dec K) st'
      (bucket_key (d_sha256 (le_digests E)) (d_hex (le_digests E)) (summarize (shape_of nd)))
      (schema_id_from_digest (d_base32 (le_digests E)) (fingerprint (d_sha256 (le_digests E)) (shape_of nd))) = Inr (Some t)"
    "stored (view st') t"
    using redis_lane.promoted_resolves [OF assms(1-3) redis_lane.lane_run_vault_ok [OF assms(1,3,4)] assms(5,6)] by blast
  have run: "classify_shape (le_digests E) Lru (store_resolve R (base32_dec K) st') source (shape_of nd) M = (c, M')"
    using assms(8,9,11) by (simp add: classify_def)
  obtain hit c1 where g: "lru_get Lru (fingerprint (d_sha256 (le_digests E)) (shape_of nd)) (m_lru M) = (hit, c1)" by force
  have miss: "hit = None" using lru_cache.get [OF assms(7) g] assms(10) by simp
  show ?thesis by (cases rule: classify_shape_cases [OF run g]) (use miss t in auto)
qed

theorem promoted_documents_known_witness:
  "\<exists>draft st' t. demo_promotion = (Inr draft, st') \<and> stored (mem_view st') t \<and>
     c_schema_ref (fst (classify lane_digests list_lru (store_resolve mem_redis letter_dec st') ''other'' ''null''
       small_limits (matcher_new list_lru 4 metrics_new))) = Known t"
proof -
  obtain draft st' where p: "demo_promotion = (Inr draft, st')" using demo_promotes by blast
  let ?M = "matcher_new list_lru 4 metrics_new"
  obtain c M' where run: "classify (le_digests demo_lane_env) list_lru (store_resolve mem_redis (base32_dec lane_codecs) st')
      ''other'' ''null'' small_limits ?M = (c, M')" by fastforce
  have "\<exists>t. c_schema_ref c = Known t \<and> stored (mem_view st') t"
  proof (rule promoted_documents_known [OF demo_lane.redis_lane_axioms demo_lane_fresh demo_lane_run demo_lane_vault_ok
        p [unfolded demo_promotion_def demo_promoter_def] _ list_cache.lru_cache_axioms _ refl _ run])
    show "NodeNull \<in> set (kept_docs demo_new_id demo_hist)"
      by (simp add: demo_hist_def kept_docs_simps(2) [of _ "[]", simplified])
    show "parse_bounded ''null'' small_limits = Inr NodeNull" by code_simp
    show "list_entries (m_lru ?M) (fingerprint (d_sha256 (le_digests demo_lane_env)) (shape_of NodeNull)) = None"
      by (simp add: matcher_new_def list_lru_def list_entries_def)
  qed
  then show ?thesis
    by (intro exI [of _ draft] exI [of _ st']) (use p run in \<open>auto simp: demo_lane_env_def lane_codecs_def\<close>)
qed

text \<open>What a sweep of the automatic promotion can do to the candidates and the vault.\<close>

definition demo_sweeper :: "mem sweeper" where
  "demo_sweeper =
     \<lparr> as_promote = promote demo_promoter ''u'' 7 7,
       as_list = redis_lister mem_redis numbered (\<lambda>_ _ _ _. (''0'', [candidate_str demo_new_id])),
       as_from_value = value_profile_of,
       as_policy = \<lparr> ap_min_samples = 1, ap_min_age_ms = 0, ap_min_required_fields = 1, ap_min_required_ratio = 1 / 2 \<rparr>,
       as_allowed = [''s''], as_max_per_tick = 1 \<rparr>"

text \<open>C32: A sweep keeps the vault consistent and changes a candidate only by staging it, when it was
  provisional, of an allowed source, and eligible under the automatic policy at the time of the
  sweep; it stages at most the configured number (one, if that is zero).\<close>

theorem sweep_stages_only_eligible:
  assumes "redis_lane R view C A K secs E" "lane_fresh R C (base32_dec K) (l_store L)"
    and "lane_run E (surroundings view K) (L, []) (L', hist)" "vault_ok K (view (l_store L))"
    and "Pr = redis_promoter R K C A secs vc health clock (le_digests E) (le_from_value E) fs tv P"
    and "sweeps_with Pr W" "as_list W = redis_lister R C sscan"
    and "sweep_once W readings (l_store L') = (fin, st')"
  shows "vault_ok K (view st') \<and>
    swept W (snd ` set readings) (stored_candidate R C (l_store L') i) (stored_candidate R C st' i) \<and>
    card {i. stored_candidate R C st' i \<noteq> stored_candidate R C (l_store L') i} \<le> max 1 (as_max_per_tick W)"
proof -
  let ?st = "l_store L'"
  note r = redis_lane.run_from_fresh(2,3,4) [OF assms(1-3)]
  have ids: "cand_id rec = i" if c: "stored_candidate R C ?st i = Some rec" for i rec
  proof -
    have "if docs_of i hist = [] then stored_candidate R C ?st i = None
      else \<exists>rec. stored_candidate R C ?st i = Some rec \<and> tracks (le_from_value E) i (docs_of i hist) rec"
      using r(2) unfolding lane_candidates_def by blast
    then show ?thesis using c by (auto simp: tracks_def split: if_splits)
  qed
  have "redis_lane.sweep_inv R view C K W (snd ` set readings) ?st 0 ?st"
    unfolding redis_lane.sweep_inv_def [OF assms(1)]
    using r(1) redis_lane.lane_run_vault_ok [OF assms(1,3,4)] redis_lane.run_variants_ok [OF assms(1) r(3)] ids
    by (auto simp: swept_def intro: exI [of _ "[]"])
  from redis_lane.sweep_pages_inv [OF assms(1) this _ order.refl assms(7) assms(6) [unfolded assms(5)]
      assms(8) [unfolded sweep_once_def]]
  have inv: "redis_lane.sweep_inv R view C K W (snd ` set readings) ?st (max 1 (as_max_per_tick W)) st'" by simp
  then obtain xs where xs: "length xs \<le> max 1 (as_max_per_tick W)"
      "{i. stored_candidate R C st' i \<noteq> stored_candidate R C ?st i} \<subseteq> set xs"
    unfolding redis_lane.sweep_inv_def [OF assms(1)] by blast
  have "card {i. stored_candidate R C st' i \<noteq> stored_candidate R C ?st i} \<le> card (set xs)"
    by (rule card_mono [OF _ xs(2)]) simp
  also have "\<dots> \<le> max 1 (as_max_per_tick W)" using card_length [of xs] xs(1) by simp
  finally show ?thesis using inv unfolding redis_lane.sweep_inv_def [OF assms(1)] by simp
qed

theorem sweep_stages_only_eligible_witness:
  "\<exists>fin st'. sweep_once demo_sweeper [(False, 7)] (l_store demo_ingested) = (fin, st') \<and>
     vault_ok lane_codecs (mem_view st') \<and>
     card {i. stored_candidate mem_redis numbered st' i \<noteq> stored_candidate mem_redis numbered (l_store demo_ingested) i} \<le> 1"
proof -
  obtain fin st' where run: "sweep_once demo_sweeper [(False, 7)] (l_store demo_ingested) = (fin, st')" by fastforce
  have "sweeps_with demo_promoter demo_sweeper" by (auto simp: sweeps_with_def demo_sweeper_def)
  from sweep_stages_only_eligible [OF demo_lane.redis_lane_axioms demo_lane_fresh demo_lane_run demo_lane_vault_ok
      demo_promoter_def this _ run, of "\<lambda>_ _ _ _. (''0'', [candidate_str demo_new_id])"] run
  show ?thesis by (simp add: demo_sweeper_def)
qed

end
