(* ===== verification/Redaction.thy ===== *)
theory Redaction
  imports Records BTree
begin

text \<open>
  Redaction of samples before they are stored (\<open>deblob-dlp/src/lib.rs\<close>, \<open>detectors.rs\<close>). The
  matcher of the \<open>regex\<close> crate, the Unicode normalization of field names and nothing else are
  arguments. The entropy of a run, a sum of \<open>f64\<close> logarithms in the code, is compared exactly:
  \<open>entropy_at_least\<close> is the comparison without logarithms.
\<close>

section \<open>Detectors\<close>

datatype scalar_class = ScSecret | ScPii | ScClean

record detectors =
  dt_normalize :: "bytes \<Rightarrow> bytes"
  dt_is_match :: "bytes \<Rightarrow> bytes \<Rightarrow> bool"

definition sensitive_name_substrings :: "bytes list" where
  "sensitive_name_substrings =
    [
      ''password'', ''passwd'', ''passphrase'', ''apikey'', ''apitoken'', ''accesstoken'',
      ''refreshtoken'', ''idtoken'', ''clientsecret'', ''privatekey'', ''signingkey'',
      ''encryptionkey'', ''secretkey'', ''connectionstring'', ''webhooksecret'',
      ''sessionid'', ''sessiontoken'', ''setcookie'', ''cookie'', ''credential'',
      ''mnemonic'', ''recoverycode'', ''passport'', ''taxid'', ''bankaccount'',
      ''routingnumber'', ''sortcode'', ''cvv'', ''iban'', ''pesel'', ''ssn'',
      ''oauthtoken'', ''bearertoken'', ''authtoken'', ''clientsecret'', ''pwd'',
      ''secret''
    ]"

fun contains_text :: "bytes \<Rightarrow> bytes \<Rightarrow> bool" where
  "contains_text p [] \<longleftrightarrow> p = []"
| "contains_text p (c # s) \<longleftrightarrow> take (length p) (c # s) = p \<or> contains_text p s"

definition sensitive_field_name :: "detectors \<Rightarrow> bytes \<Rightarrow> bool" where
  "sensitive_field_name D name =
     (let norm = dt_normalize D name
      in if norm = [] then False else list_ex (\<lambda>s. contains_text s norm) sensitive_name_substrings)"

definition backslash :: bytes where "backslash = [CHR 0x5C]"

definition secret_patterns :: "bytes list" where
  "secret_patterns =
     [backslash @ ''beyJ[A-Za-z0-9_-]{5,}'' @ backslash @ ''.[A-Za-z0-9_-]{5,}'' @ backslash @ ''.[A-Za-z0-9_-]{5,}'',
      ''-----BEGIN [A-Z0-9 ]*PRIVATE KEY-----'',
      backslash @ ''bssh-(rsa|ed25519|dss|ecdsa)'' @ backslash @ ''s+[A-Za-z0-9+/]{20,}'',
      ''(?i)'' @ backslash @ ''b(bearer|basic)'' @ backslash @ ''s+[A-Za-z0-9+/._~=-]{8,}'',
      backslash @ ''bAKIA[0-9A-Z]{16}'' @ backslash @ ''b'',
      backslash @ ''bgh[pousr]_[A-Za-z0-9]{30,}'' @ backslash @ ''b'',
      backslash @ ''b(sk|pk|rk)_(live|test)_[A-Za-z0-9]{16,}'' @ backslash @ ''b'',
      backslash @ ''bAIza[0-9A-Za-z_-]{35}'' @ backslash @ ''b'',
      backslash @ ''bxox[baprs]-[A-Za-z0-9-]{10,}'' @ backslash @ ''b'',
      ''[a-z][a-z0-9+.-]*://[^/'' @ backslash @ ''s:@]+:[^/'' @ backslash @ ''s:@]+@'']"

definition email_pattern :: bytes where
  "email_pattern = backslash @ ''b[A-Za-z0-9._%+-]+@[A-Za-z0-9.-]+'' @ backslash @ ''.[A-Za-z]{2,}'' @ backslash @ ''b''"

text \<open>
  Shannon's entropy of the bytes of \<open>s\<close> is at least \<open>k/2\<close>: with \<open>n\<close> bytes of which \<open>c\<^sub>b\<close> are \<open>b\<close>,
  \<open>n\<^sup>2\<^sup>n \<ge> 2\<^sup>k\<^sup>n \<Prod> c\<^sub>b\<^sup>2\<^sup>c\<close>.
\<close>

definition entropy_at_least :: "nat \<Rightarrow> bytes \<Rightarrow> bool" where
  "entropy_at_least k s \<longleftrightarrow>
     s \<noteq> [] \<and> 2 ^ (k * length s) * prod_list (map (\<lambda>b. count_list s b ^ (2 * count_list s b)) (remdups s))
       \<le> length s ^ (2 * length s)"

fun luhn_sum :: "nat list \<Rightarrow> bool \<Rightarrow> nat" where
  "luhn_sum [] alt = 0"
| "luhn_sum (d # ds) alt =
     (let x = (if alt then (if 9 < d * 2 then d * 2 - 9 else d * 2) else d) in x + luhn_sum ds (\<not> alt))"

definition luhn_ok :: "nat list \<Rightarrow> bool" where
  "luhn_ok digits \<longleftrightarrow> luhn_sum (rev digits) False mod 10 = 0"

definition is_hexdigit :: "u8 \<Rightarrow> bool" where
  "is_hexdigit c \<longleftrightarrow> is_ascii_digit c \<or> (97 \<le> byte_val c \<and> byte_val c \<le> 102) \<or> (65 \<le> byte_val c \<and> byte_val c \<le> 70)"

definition is_base64_char :: "u8 \<Rightarrow> bool" where
  "is_base64_char c \<longleftrightarrow> is_ascii_digit c \<or> (97 \<le> byte_val c \<and> byte_val c \<le> 122) \<or>
     (65 \<le> byte_val c \<and> byte_val c \<le> 90) \<or> c = CHR ''+'' \<or> c = CHR ''/''"

definition blob_hit :: "nat \<Rightarrow> nat \<Rightarrow> bytes \<Rightarrow> bool" where
  "blob_hit minimum k r \<longleftrightarrow> minimum \<le> length r \<and> entropy_at_least k r"

fun blob_scan :: "(u8 \<Rightarrow> bool) \<Rightarrow> nat \<Rightarrow> nat \<Rightarrow> bytes \<Rightarrow> bytes \<Rightarrow> bool" where
  "blob_scan pred minimum k r [] = blob_hit minimum k r"
| "blob_scan pred minimum k r (c # cs) =
     (if pred c then blob_scan pred minimum k (r @ [c]) cs
      else if blob_hit minimum k r then True else blob_scan pred minimum k [] cs)"

definition has_high_entropy_blob :: "bytes \<Rightarrow> bool" where
  "has_high_entropy_blob s \<longleftrightarrow> blob_scan is_hexdigit 32 5 [] s \<or> blob_scan is_base64_char 40 7 [] s"

text \<open>A run of digits, single spaces and dashes between two of them skipped; and what follows it.\<close>

fun digit_run :: "bytes \<Rightarrow> nat list \<times> bytes" where
  "digit_run [] = ([], [])"
| "digit_run (b # bs) =
     (if is_ascii_digit b then (let (ds, rest) = digit_run bs in (digit_val b # ds, rest))
      else if (b = CHR '' '' \<or> b = CHR ''-'') \<and> bs \<noteq> [] \<and> is_ascii_digit (hd bs) then digit_run bs
      else ([], b # bs))"

lemma digit_run_length: "length (snd (digit_run bs)) \<le> length bs"
proof (induction bs)
  case (Cons b bs)
  then show ?case by (auto simp: case_prod_beta intro: le_SucI)
qed simp

function has_payment_card :: "bytes \<Rightarrow> bool" where
  "has_payment_card [] = False"
| "has_payment_card (b # bs) =
     (if \<not> is_ascii_digit b then has_payment_card bs
      else
        (let (digits, rest) = digit_run (b # bs)
         in if 13 \<le> length digits \<and> length digits \<le> 19 \<and> luhn_ok digits then True else has_payment_card rest))"
  by pat_completeness auto
termination
proof (relation "measure length")
  fix b bs x digits rest
  assume "\<not> \<not> is_ascii_digit b" "x = digit_run (b # bs)" "(digits, rest) = x"
  then have "rest = snd (digit_run bs)" by (auto split: prod.splits)
  then show "(rest, b # bs) \<in> measure length" using digit_run_length [of bs] by simp
qed auto

definition classify_scalar :: "detectors \<Rightarrow> bytes \<Rightarrow> scalar_class" where
  "classify_scalar D s =
     (if list_ex (\<lambda>re. dt_is_match D re s) secret_patterns \<or> has_high_entropy_blob s \<or> has_payment_card s
      then ScSecret
      else if dt_is_match D email_pattern s then ScPii
      else ScClean)"

definition is_sensitive_key_data :: "detectors \<Rightarrow> bytes \<Rightarrow> bool" where
  "is_sensitive_key_data D key \<longleftrightarrow> classify_scalar D key \<noteq> ScClean"

section \<open>Redaction\<close>

definition dlp_version :: bytes where "dlp_version = ''deblob-dlp-v1''"

text \<open>The marks are framed by U+2588.\<close>

definition full_block :: bytes where "full_block = [CHR 0xE2, CHR 0x96, CHR 0x88]"

definition mark_sensitive_name :: bytes where
  "mark_sensitive_name = full_block @ '' REDACTED (sensitive field name) '' @ full_block"

definition mark_secret :: bytes where
  "mark_secret = full_block @ '' REDACTED (secret) '' @ full_block"

definition mark_pii :: bytes where
  "mark_pii = full_block @ '' REDACTED (pii) '' @ full_block"

record dlp_config =
  max_findings :: u32
  dlp_max_depth :: u32

definition default_dlp_config :: dlp_config where
  "default_dlp_config = \<lparr> max_findings = 40, dlp_max_depth = 32 \<rparr>"

datatype drop_reason = ExcessiveFindings | DocumentTooDeep

record redaction_counts =
  sensitive_key :: u32
  secret_pattern :: u32
  pii_pattern :: u32
  redacted_dynamic_key :: u32

definition no_redactions :: redaction_counts where
  "no_redactions = \<lparr> sensitive_key = 0, secret_pattern = 0, pii_pattern = 0, redacted_dynamic_key = 0 \<rparr>"

definition counts_total :: "redaction_counts \<Rightarrow> u32" where
  "counts_total c = sensitive_key c + secret_pattern c + pii_pattern c + redacted_dynamic_key c"

record redaction_outcome =
  ro_document :: json
  ro_counts :: redaction_counts
  ro_dropped :: "drop_reason option"

record redaction_ctx =
  x_counts :: redaction_counts
  dynamic_key_seq :: u32
  x_dropped :: "drop_reason option"

definition check_budget :: "dlp_config \<Rightarrow> redaction_ctx \<Rightarrow> redaction_ctx" where
  "check_budget cfg x =
     (if x_dropped x = None \<and> max_findings cfg < counts_total (x_counts x)
      then x\<lparr> x_dropped := Some ExcessiveFindings \<rparr> else x)"

definition key_placeholder :: "u32 \<Rightarrow> bytes" where
  "key_placeholder n = ''[REDACTED_KEY_'' @ nat_dec (unat n) @ '']''"

definition next_key_placeholder :: "redaction_ctx \<Rightarrow> bytes \<times> redaction_ctx" where
  "next_key_placeholder x =
     (let n = dynamic_key_seq x + 1 in (key_placeholder n, x\<lparr> dynamic_key_seq := n \<rparr>))"

definition found_key :: "dlp_config \<Rightarrow> redaction_ctx \<Rightarrow> redaction_ctx" where
  "found_key cfg x = check_budget cfg (x\<lparr> x_counts := (x_counts x)\<lparr> sensitive_key := sensitive_key (x_counts x) + 1 \<rparr> \<rparr>)"

definition found_secret :: "dlp_config \<Rightarrow> redaction_ctx \<Rightarrow> redaction_ctx" where
  "found_secret cfg x = check_budget cfg (x\<lparr> x_counts := (x_counts x)\<lparr> secret_pattern := secret_pattern (x_counts x) + 1 \<rparr> \<rparr>)"

definition found_pii :: "dlp_config \<Rightarrow> redaction_ctx \<Rightarrow> redaction_ctx" where
  "found_pii cfg x = check_budget cfg (x\<lparr> x_counts := (x_counts x)\<lparr> pii_pattern := pii_pattern (x_counts x) + 1 \<rparr> \<rparr>)"

definition found_dynamic_key :: "dlp_config \<Rightarrow> redaction_ctx \<Rightarrow> redaction_ctx" where
  "found_dynamic_key cfg x =
     check_budget cfg (x\<lparr> x_counts := (x_counts x)\<lparr> redacted_dynamic_key := redacted_dynamic_key (x_counts x) + 1 \<rparr> \<rparr>)"

definition redact_scalar :: "detectors \<Rightarrow> dlp_config \<Rightarrow> json \<Rightarrow> redaction_ctx \<Rightarrow> json \<times> redaction_ctx" where
  "redact_scalar D cfg v x =
     (case v of
        JString s \<Rightarrow>
          (case classify_scalar D s of
             ScSecret \<Rightarrow> (JString mark_secret, found_secret cfg x)
           | ScPii \<Rightarrow> (JString mark_pii, found_pii cfg x)
           | ScClean \<Rightarrow> (JString s, x))
      | JNumber n \<Rightarrow>
          if classify_scalar D n = ScSecret then (JString mark_secret, found_secret cfg x) else (v, x)
      | _ \<Rightarrow> (v, x))"

function (sequential) redact_value ::
    "detectors \<Rightarrow> dlp_config \<Rightarrow> json \<Rightarrow> redaction_ctx \<Rightarrow> nat \<Rightarrow> json \<times> redaction_ctx"
and redact_fields ::
    "detectors \<Rightarrow> dlp_config \<Rightarrow> (bytes \<times> json) list \<Rightarrow> (bytes \<times> json) list \<Rightarrow> redaction_ctx \<Rightarrow> nat \<Rightarrow>
       (bytes \<times> json) list \<times> redaction_ctx"
and redact_items ::
    "detectors \<Rightarrow> dlp_config \<Rightarrow> json list \<Rightarrow> redaction_ctx \<Rightarrow> nat \<Rightarrow> json list \<times> redaction_ctx" where
  "redact_value D cfg v x depth =
     (if unat (dlp_max_depth cfg) < depth then
        (JNull, if x_dropped x = None then x\<lparr> x_dropped := Some DocumentTooDeep \<rparr> else x)
      else
        (case v of
           JObject m \<Rightarrow> (let (out, x1) = redact_fields D cfg m [] x depth in (JObject out, x1))
         | JArray vs \<Rightarrow> (let (out, x1) = redact_items D cfg vs x depth in (JArray out, x1))
         | _ \<Rightarrow> redact_scalar D cfg v x))"
| "redact_fields D cfg [] out x depth = (out, x)"
| "redact_fields D cfg ((k, v) # m) out x depth =
     (if sensitive_field_name D k then
        redact_fields D cfg m (bt_insert k (JString mark_sensitive_name) out) (found_key cfg x) depth
      else
        (let (out_key, x1) =
               (if is_sensitive_key_data D k then next_key_placeholder (found_dynamic_key cfg x) else (k, x));
             (w, x2) = redact_value D cfg v x1 (depth + 1)
         in redact_fields D cfg m (bt_insert out_key w out) x2 depth))"
| "redact_items D cfg [] x depth = ([], x)"
| "redact_items D cfg (v # vs) x depth =
     (let (w, x1) = redact_value D cfg v x (depth + 1);
          (ws, x2) = redact_items D cfg vs x1 depth
      in (w # ws, x2))"
  by pat_completeness auto
termination
  by (relation "measure (\<lambda>a. case a of
        Inl (D, cfg, v, x, d) \<Rightarrow> 2 * size v
      | Inr (Inl (D, cfg, m, out, x, d)) \<Rightarrow> 2 * size_list (size_prod (\<lambda>_. 0) size) m + 1
      | Inr (Inr (D, cfg, vs, x, d)) \<Rightarrow> 2 * size_list size vs + 1)") auto

declare redact_value.simps [simp del]

definition redact :: "detectors \<Rightarrow> dlp_config \<Rightarrow> json \<Rightarrow> redaction_outcome" where
  "redact D cfg v =
     (let (document, x) = redact_value D cfg v
            \<lparr> x_counts = no_redactions, dynamic_key_seq = 0, x_dropped = None \<rparr> 0
      in \<lparr> ro_document = document, ro_counts = x_counts x, ro_dropped = x_dropped x \<rparr>)"

end
