(* ===== verification/Redaction_Facts.thy ===== *)
theory Redaction_Facts
  imports Complex_Main Redaction
begin

text \<open>
  What redaction guarantees: \<open>redacted_ok\<close> holds of every redacted document, and \<open>redaction_of\<close>
  relates a document that was not dropped to its redaction, field by field. The exact comparison
  of entropies is related to Shannon's formula.
\<close>

section \<open>Scanning for blobs and cards\<close>

definition shannon :: "bytes \<Rightarrow> real" where
  "shannon s =
     (if s = [] then 0
      else (\<Sum>b\<leftarrow>remdups s. - (real (count_list s b) / real (length s))
              * log 2 (real (count_list s b) / real (length s))))"

lemma sum_list_count: "(\<Sum>b\<leftarrow>remdups s. count_list s b) = length s"
proof -
  have "(\<Sum>b\<leftarrow>remdups s. count_list s b) = (\<Sum>b\<in>set s. count_list s b)"
    using sum_list_distinct_conv_sum_set [of "remdups s" "count_list s"] by simp
  also have "\<dots> = length s" by (rule sum_count_set) auto
  finally show ?thesis .
qed

lemma sum_list_real_mult: "(\<Sum>b\<leftarrow>bs. real (f b) * a) = real (\<Sum>b\<leftarrow>bs. f b) * a"
  by (induction bs) (simp_all add: ring_distribs)

lemma prod_list_pos: "\<forall>b \<in> set bs. (0::nat) < f b \<Longrightarrow> 0 < prod_list (map (\<lambda>b. f b ^ (2 * f b)) bs)"
  by (induction bs) auto

lemma log2_prod_list:
  assumes "\<forall>b \<in> set bs. 0 < f b"
  shows "log 2 (real (prod_list (map (\<lambda>b. f b ^ (2 * f b)) bs))) = 2 * (\<Sum>b\<leftarrow>bs. real (f b) * log 2 (real (f b)))"
  using assms
proof (induction bs)
  case (Cons b bs)
  have "0 < prod_list (map (\<lambda>b. f b ^ (2 * f b)) bs)" using Cons.prems by (intro prod_list_pos) simp
  then show ?case using Cons by (simp add: log_mult log_nat_power ring_distribs)
qed simp

lemma shannon_log:
  assumes "s \<noteq> []"
  shows "real (length s) * shannon s =
    real (length s) * log 2 (real (length s)) - (\<Sum>b\<leftarrow>remdups s. real (count_list s b) * log 2 (real (count_list s b)))"
proof -
  let ?n = "real (length s)" and ?c = "\<lambda>b. real (count_list s b)"
  have n: "0 < ?n" using assms by simp
  have "?n * (- (?c b / ?n) * log 2 (?c b / ?n)) = ?c b * log 2 ?n - ?c b * log 2 (?c b)"
    if "b \<in> set (remdups s)" for b
  proof -
    have "0 < ?c b" using that count_list_0_iff [of s b] by (cases "count_list s b") auto
    then show ?thesis using n by (simp add: log_divide field_simps)
  qed
  then have "(\<Sum>b\<leftarrow>remdups s. ?n * (- (?c b / ?n) * log 2 (?c b / ?n)))
      = (\<Sum>b\<leftarrow>remdups s. ?c b * log 2 ?n - ?c b * log 2 (?c b))"
    by (intro arg_cong [where f = sum_list] map_cong refl)
  then have "?n * shannon s = (\<Sum>b\<leftarrow>remdups s. ?c b * log 2 ?n) - (\<Sum>b\<leftarrow>remdups s. ?c b * log 2 (?c b))"
    using assms by (simp add: shannon_def sum_list_const_mult [symmetric] sum_list_subtractf)
  then show ?thesis by (simp add: sum_list_real_mult sum_list_count)
qed

lemma entropy_shannon:
  assumes k: "0 < k"
  shows "entropy_at_least k s \<longleftrightarrow> real k / 2 \<le> shannon s"
proof (cases "s = []")
  case True
  then show ?thesis using k by (simp add: entropy_at_least_def shannon_def)
next
  case False
  let ?n = "length s" and ?c = "count_list s"
  let ?P = "prod_list (map (\<lambda>b. ?c b ^ (2 * ?c b)) (remdups s))"
  have c: "0 < ?c b" if "b \<in> set (remdups s)" for b
    using that count_list_0_iff [of s b] by (cases "?c b") auto
  then have P: "0 < ?P" by (intro prod_list_pos) auto
  have n: "0 < ?n" using False by simp
  have "log 2 (real (2 ^ (k * ?n) * ?P)) = real k * real ?n + 2 * (\<Sum>b\<leftarrow>remdups s. real (?c b) * log 2 (real (?c b)))"
    using P c log2_prod_list [of "remdups s" ?c] by (simp add: log_mult log_nat_power)
  moreover have "log 2 (real (?n ^ (2 * ?n))) = 2 * real ?n * log 2 (real ?n)"
    by (simp add: log_nat_power)
  moreover have "entropy_at_least k s \<longleftrightarrow> log 2 (real (2 ^ (k * ?n) * ?P)) \<le> log 2 (real (?n ^ (2 * ?n)))"
    unfolding entropy_at_least_def using P n False
    by (subst log_le_cancel_iff) (simp_all only: of_nat_le_iff of_nat_0_less_iff zero_less_power, auto)
  ultimately have "entropy_at_least k s \<longleftrightarrow>
      real k * real ?n + 2 * (\<Sum>b\<leftarrow>remdups s. real (?c b) * log 2 (real (?c b))) \<le> 2 * (real ?n * log 2 (real ?n))"
    by (simp only: mult.assoc)
  also have "\<dots> \<longleftrightarrow> real k * real ?n \<le> 2 * (real ?n * shannon s)"
    unfolding shannon_log [OF False] by (simp add: right_diff_distrib le_diff_eq)
  also have "\<dots> \<longleftrightarrow> real ?n * (real k / 2) \<le> real ?n * shannon s"
    by (simp add: field_simps)
  finally have "entropy_at_least k s \<longleftrightarrow> real ?n * (real k / 2) \<le> real ?n * shannon s" .
  then show ?thesis using n by simp
qed


section \<open>The redacted document\<close>

definition placeholder_key :: "bytes \<Rightarrow> bool" where
  "placeholder_key k \<longleftrightarrow> (\<exists>n. k = key_placeholder n)"

definition redacted_field :: "detectors \<Rightarrow> bytes \<Rightarrow> json \<Rightarrow> bool" where
  "redacted_field D k w \<longleftrightarrow>
     placeholder_key k \<or>
     (if sensitive_field_name D k then w = JString mark_sensitive_name else \<not> is_sensitive_key_data D k)"

fun redacted_ok :: "detectors \<Rightarrow> json \<Rightarrow> bool" where
  "redacted_ok D (JString s) \<longleftrightarrow> s \<in> {mark_secret, mark_pii, mark_sensitive_name} \<or> classify_scalar D s = ScClean"
| "redacted_ok D (JNumber n) \<longleftrightarrow> classify_scalar D n \<noteq> ScSecret"
| "redacted_ok D (JArray vs) \<longleftrightarrow> list_all (redacted_ok D) vs"
| "redacted_ok D (JObject m) \<longleftrightarrow>
     list_all (\<lambda>(k, w). redacted_ok D w \<and> redacted_field D k w) m"
| "redacted_ok D _ \<longleftrightarrow> True"

lemma set_bt_insert: "set (bt_insert k v m) \<subseteq> insert (k, v) (set m)"
  by (induction k v m rule: bt_insert.induct) auto

lemma list_all_bt_insert: "list_all P m \<Longrightarrow> P (k, v) \<Longrightarrow> list_all P (bt_insert k v m)"
  using set_bt_insert [of k v m] by (auto simp: list_all_iff)

lemma next_key_placeholder_key: "next_key_placeholder x = (k, x') \<Longrightarrow> placeholder_key k"
  by (auto simp: next_key_placeholder_def placeholder_key_def Let_def)

lemma redact_ok_all:
  "redacted_ok D (fst (redact_value D cfg v x depth))"
  "redacted_ok D (JObject out) \<Longrightarrow> redacted_ok D (JObject (fst (redact_fields D cfg m out x depth)))"
  "redacted_ok D (JArray (fst (redact_items D cfg vs x depth)))"
proof (induction D cfg v x depth and D cfg m out x depth and D cfg vs x depth
    rule: redact_value_redact_fields_redact_items.induct)
  case (1 D cfg v x depth)
  then show ?case
    by (cases v) (auto simp: redact_value.simps redact_scalar_def split: prod.splits scalar_class.splits)
next
  case (3 D cfg k v m out x depth)
  show ?case
  proof (cases "sensitive_field_name D k")
    case True
    have "redacted_ok D (JObject (bt_insert k (JString mark_sensitive_name) out))"
      using 3(4) True by (simp add: list_all_bt_insert redacted_field_def)
    then show ?thesis using True 3(1) by simp
  next
    case False
    obtain k' x1 where a: "(if is_sensitive_key_data D k then next_key_placeholder (found_dynamic_key cfg x) else (k, x)) = (k', x1)"
      by fastforce
    obtain w x2 where b: "redact_value D cfg v x1 (depth + 1) = (w, x2)" by fastforce
    have "redacted_ok D w" using 3(2) [OF False a [symmetric] refl] b by simp
    moreover have "placeholder_key k' \<or> (k' = k \<and> \<not> is_sensitive_key_data D k)"
      using a by (auto split: if_splits dest: next_key_placeholder_key)
    then have "redacted_field D k' w" using False by (auto simp: redacted_field_def)
    ultimately have "redacted_ok D (JObject (bt_insert k' w out))"
      using 3(4) by (simp add: list_all_bt_insert)
    then show ?thesis using 3(3) [OF False a [symmetric] refl b [symmetric] refl] False a b by simp
  qed
qed (auto simp: split: prod.splits)


section \<open>A document and its redaction\<close>

definition redacted_text :: "detectors \<Rightarrow> bytes \<Rightarrow> bytes" where
  "redacted_text D s =
     (case classify_scalar D s of ScSecret \<Rightarrow> mark_secret | ScPii \<Rightarrow> mark_pii | ScClean \<Rightarrow> s)"

definition redacted_number :: "detectors \<Rightarrow> bytes \<Rightarrow> json" where
  "redacted_number D n = (if classify_scalar D n = ScSecret then JString mark_secret else JNumber n)"

text \<open>The field \<open>k\<close> of a document is found in its redaction: under its name, or under a placeholder.\<close>

definition field_redaction :: "detectors \<Rightarrow> (bytes \<times> json) list \<Rightarrow> bytes \<Rightarrow> (json \<Rightarrow> bool) \<Rightarrow> bool" where
  "field_redaction D m' k R \<longleftrightarrow>
     (if sensitive_field_name D k then map_of m' k = Some (JString mark_sensitive_name)
      else if is_sensitive_key_data D k then \<exists>n u. map_of m' (key_placeholder n) = Some u \<and> R u
      else \<exists>u. map_of m' k = Some u \<and> R u)"

fun redaction_of :: "detectors \<Rightarrow> json \<Rightarrow> json \<Rightarrow> bool" where
  "redaction_of D (JString s) w \<longleftrightarrow> w = JString (redacted_text D s)"
| "redaction_of D (JNumber n) w \<longleftrightarrow> w = redacted_number D n"
| "redaction_of D (JArray vs) w \<longleftrightarrow> (\<exists>ws. w = JArray ws \<and> list_all2 (\<lambda>v u. redaction_of D v u) vs ws)"
| "redaction_of D (JObject m) w \<longleftrightarrow>
     (\<exists>m'. w = JObject m' \<and> length m' = length m \<and>
        list_all (\<lambda>(k, v). field_redaction D m' k (\<lambda>u. redaction_of D v u)) m)"
| "redaction_of D JNull w \<longleftrightarrow> w = JNull"
| "redaction_of D (JBool b) w \<longleftrightarrow> w = JBool b"

text \<open>The keys of every object are distinct, and none reads like a placeholder.\<close>

fun plain_keys :: "json \<Rightarrow> bool" where
  "plain_keys (JArray vs) \<longleftrightarrow> list_all plain_keys vs"
| "plain_keys (JObject m) \<longleftrightarrow>
     distinct (map fst m) \<and> list_all (\<lambda>(k, v). \<not> placeholder_key k \<and> plain_keys v) m"
| "plain_keys _ \<longleftrightarrow> True"

definition findings :: "redaction_counts \<Rightarrow> nat" where
  "findings c = unat (sensitive_key c) + unat (secret_pattern c) + unat (pii_pattern c) + unat (redacted_dynamic_key c)"

definition ctx_ok :: "dlp_config \<Rightarrow> redaction_ctx \<Rightarrow> bool" where
  "ctx_ok cfg x \<longleftrightarrow> unat (max_findings cfg) < 2 ^ 32 - 1 \<and> dynamic_key_seq x = redacted_dynamic_key (x_counts x) \<and>
     (x_dropped x = None \<longrightarrow> findings (x_counts x) \<le> unat (max_findings cfg))"

definition ctx_step :: "dlp_config \<Rightarrow> redaction_ctx \<Rightarrow> redaction_ctx \<Rightarrow> bool" where
  "ctx_step cfg x x' \<longleftrightarrow> ctx_ok cfg x' \<and>
     (x_dropped x' = None \<longrightarrow> x_dropped x = None \<and> unat (dynamic_key_seq x) \<le> unat (dynamic_key_seq x'))"

lemma ctx_step_refl: "ctx_ok cfg x \<Longrightarrow> ctx_step cfg x x"
  by (simp add: ctx_step_def)

lemma ctx_step_trans: "ctx_step cfg x y \<Longrightarrow> ctx_step cfg y z \<Longrightarrow> ctx_step cfg x z"
  by (auto simp: ctx_step_def)

lemma ctx_step_ok: "ctx_step cfg x y \<Longrightarrow> ctx_ok cfg y"
  by (simp add: ctx_step_def)

lemma unat_succ_u32: "unat (a :: u32) < 2 ^ 32 - 1 \<Longrightarrow> unat (a + 1) = unat a + 1"
  by (simp add: unat_word_ariths(1))

lemma counts_total_findings: "findings c < 2 ^ 32 \<Longrightarrow> unat (counts_total c) = findings c"
  by (simp add: findings_def counts_total_def unat_word_ariths(1) mod_simps)

lemma check_budget_dropped: "x_dropped x = Some d \<Longrightarrow> check_budget cfg x = x"
  by (simp add: check_budget_def)

lemma check_budget_kept:
  assumes "findings (x_counts x) < 2 ^ 32" "x_dropped (check_budget cfg x) = None"
  shows "check_budget cfg x = x \<and> x_dropped x = None \<and> findings (x_counts x) \<le> unat (max_findings cfg)"
  using assms counts_total_findings [OF assms(1)]
  by (auto simp: check_budget_def word_less_nat_alt split: if_splits)

lemma check_budget_frame [simp]:
  "x_counts (check_budget cfg x) = x_counts x" "dynamic_key_seq (check_budget cfg x) = dynamic_key_seq x"
  by (simp_all add: check_budget_def)

lemmas found_defs = found_key_def found_secret_def found_pii_def found_dynamic_key_def

lemma found_step_dropped:
  assumes "ctx_ok cfg x" "x_dropped x = Some d"
  shows "ctx_step cfg x (found_key cfg x)" "ctx_step cfg x (found_secret cfg x)" "ctx_step cfg x (found_pii cfg x)"
  using assms by (simp_all add: ctx_step_def ctx_ok_def found_defs check_budget_dropped)

lemma found_step_live:
  assumes "ctx_ok cfg x" "x_dropped x = None"
  shows "ctx_step cfg x (found_key cfg x)" "ctx_step cfg x (found_secret cfg x)" "ctx_step cfg x (found_pii cfg x)"
  using assms
  by (auto simp: ctx_step_def ctx_ok_def found_defs findings_def unat_succ_u32 dest!: check_budget_kept [rotated])

lemma found_step:
  assumes "ctx_ok cfg x"
  shows "ctx_step cfg x (found_key cfg x)" "ctx_step cfg x (found_secret cfg x)" "ctx_step cfg x (found_pii cfg x)"
  using found_step_dropped [OF assms] found_step_live [OF assms] by (cases "x_dropped x"; blast)+

lemma dynamic_key_step:
  assumes x: "ctx_ok cfg x" and k: "next_key_placeholder (found_dynamic_key cfg x) = (k, x1)"
  shows "ctx_step cfg x x1" "k = key_placeholder (dynamic_key_seq x1)"
    "x_dropped x1 = None \<Longrightarrow> unat (dynamic_key_seq x1) = unat (dynamic_key_seq x) + 1"
proof -
  show "k = key_placeholder (dynamic_key_seq x1)"
    using k by (auto simp: next_key_placeholder_def Let_def)
  have e: "dynamic_key_seq x1 = dynamic_key_seq x + 1" "x_counts x1 = x_counts (found_dynamic_key cfg x)"
      "x_dropped x1 = x_dropped (found_dynamic_key cfg x)"
    using k by (auto simp: next_key_placeholder_def Let_def found_defs)
  have "ctx_step cfg x x1 \<and> (x_dropped x1 = None \<longrightarrow> unat (dynamic_key_seq x1) = unat (dynamic_key_seq x) + 1)"
  proof (cases "x_dropped x")
    case None
    with x e show ?thesis
      by (auto simp: ctx_step_def ctx_ok_def found_defs findings_def unat_succ_u32 dest!: check_budget_kept [rotated])
  next
    case (Some d)
    with x e show ?thesis by (simp add: ctx_step_def ctx_ok_def found_defs check_budget_dropped)
  qed
  then show "ctx_step cfg x x1" "x_dropped x1 = None \<Longrightarrow> unat (dynamic_key_seq x1) = unat (dynamic_key_seq x) + 1"
    by auto
qed


lemma key_placeholder_inj [simp]: "key_placeholder a = key_placeholder b \<longleftrightarrow> a = b"
  by (simp add: key_placeholder_def word_unat_eq_iff)

lemma length_bt_insert: "bt_ok m \<Longrightarrow> k \<notin> fst ` set m \<Longrightarrow> length (bt_insert k v m) = length m + 1"
  by (induction k v m rule: bt_insert.induct) auto

text \<open>The walk over the fields of an object: what is ahead of it, and what it has done.\<close>

definition fields_ahead :: "(bytes \<times> json) list \<Rightarrow> (bytes \<times> json) list \<Rightarrow> redaction_ctx \<Rightarrow> bool" where
  "fields_ahead m out x \<longleftrightarrow>
     bt_ok out \<and> plain_keys (JObject m) \<and> fst ` set m \<inter> fst ` set out = {} \<and>
     (\<forall>n. key_placeholder n \<in> fst ` set out \<longrightarrow> unat n \<le> unat (dynamic_key_seq x))"

definition fields_done :: "detectors \<Rightarrow> (bytes \<times> json) list \<Rightarrow> (bytes \<times> json) list \<Rightarrow> (bytes \<times> json) list \<Rightarrow> bool" where
  "fields_done D m out out' \<longleftrightarrow>
     length out' = length out + length m \<and>
     (\<forall>k u. map_of out k = Some u \<longrightarrow> map_of out' k = Some u) \<and>
     list_all (\<lambda>(k, v). field_redaction D out' k (redaction_of D v)) m"

lemma fields_done_Cons:
  assumes rest: "fields_done D m (bt_insert k' w out) out'" and "bt_ok out" "k' \<notin> fst ` set out"
    and k': "if sensitive_field_name D k then k' = k \<and> w = JString mark_sensitive_name
       else if is_sensitive_key_data D k then placeholder_key k' \<and> redaction_of D v w
       else k' = k \<and> redaction_of D v w"
  shows "fields_done D ((k, v) # m) out out'"
proof -
  have "map_of out' k' = Some w" using assms(1,2) by (auto simp: fields_done_def map_of_bt_insert)
  then have "field_redaction D out' k (redaction_of D v)"
    using k' by (auto simp: field_redaction_def placeholder_key_def split: if_splits)
  moreover have "map_of out' l = Some u" if "map_of out l = Some u" for l u
  proof -
    have "l \<noteq> k'" using that assms(3) by (metis map_of_SomeD image_eqI fst_conv)
    then show ?thesis using rest that assms(2) by (auto simp: fields_done_def map_of_bt_insert)
  qed
  ultimately show ?thesis
    using rest assms(2,3) by (auto simp: fields_done_def length_bt_insert)
qed

lemma redact_scalar_step:
  assumes "ctx_ok cfg x" "redact_scalar D cfg v x = (w, x')" "v \<notin> range JArray \<union> range JObject"
  shows "ctx_step cfg x x' \<and> redaction_of D v w"
  using assms found_step [OF assms(1)] ctx_step_refl [OF assms(1)]
  by (cases v) (auto simp: redact_scalar_def redacted_text_def redacted_number_def
      split: scalar_class.splits if_splits)


lemma fields_ahead_Cons:
  "fields_ahead ((k, v) # m) out x \<longleftrightarrow>
     bt_ok out \<and> k \<notin> fst ` set out \<and> k \<notin> fst ` set m \<and> \<not> placeholder_key k \<and> plain_keys v \<and> fields_ahead m out x"
  by (auto simp: fields_ahead_def)

lemma fields_ahead_later:
  "fields_ahead m out x \<Longrightarrow> unat (dynamic_key_seq x) \<le> unat (dynamic_key_seq x2) \<Longrightarrow> fields_ahead m out x2"
  by (auto simp: fields_ahead_def)

lemma fields_ahead_new:
  assumes "fields_ahead m out x" "k \<notin> fst ` set m" "\<And>n. k = key_placeholder n \<Longrightarrow> unat n \<le> unat (dynamic_key_seq x)"
  shows "fields_ahead m (bt_insert k w out) x"
  using assms unfolding fields_ahead_def keys_bt_insert by (simp add: bt_ok_insert)

lemma fields_ahead_insert:
  assumes "fields_ahead ((k, v) # m) out x" "unat (dynamic_key_seq x) \<le> unat (dynamic_key_seq x2)"
  shows "fields_ahead m (bt_insert k w out) x2"
  using assms fields_ahead_later [OF _ assms(2)]
  by (intro fields_ahead_new) (auto simp: fields_ahead_Cons placeholder_key_def)

lemma fields_ahead_placeholder:
  assumes a: "fields_ahead ((k, v) # m) out x" and n: "unat (dynamic_key_seq x) \<le> unat n" "unat n \<le> unat (dynamic_key_seq x2)"
  shows "fields_ahead m (bt_insert (key_placeholder n) w out) x2"
proof (rule fields_ahead_new)
  show "fields_ahead m out x2"
    using a n by (intro fields_ahead_later [of m out x x2]) (auto simp: fields_ahead_Cons)
  show "key_placeholder n \<notin> fst ` set m"
    using a by (fastforce simp: fields_ahead_def placeholder_key_def list_all_iff)
qed (use n in simp)

lemma redact_step:
  "ctx_ok cfg x \<Longrightarrow> redact_value D cfg v x depth = (w, x') \<Longrightarrow> ctx_step cfg x x'"
  "ctx_ok cfg x \<Longrightarrow> redact_fields D cfg m out x depth = (out', x') \<Longrightarrow> ctx_step cfg x x'"
  "ctx_ok cfg x \<Longrightarrow> redact_items D cfg vs x depth = (ws, x') \<Longrightarrow> ctx_step cfg x x'"
proof (induction D cfg v x depth and D cfg m out x depth and D cfg vs x depth
    arbitrary: w x' and out' x' and ws x' rule: redact_value_redact_fields_redact_items.induct)
  case (1 D cfg v x depth)
  show ?case
  proof (cases "unat (dlp_max_depth cfg) < depth")
    case True
    then show ?thesis using 1(3,4) by (auto simp: redact_value.simps ctx_step_def ctx_ok_def split: if_splits)
  next
    case False
    then show ?thesis
      using 1 redact_scalar_step [OF 1(3)] by (cases v) (auto simp: redact_value.simps split: prod.splits)
  qed
next
  case (3 D cfg k v m out x depth)
  show ?case
  proof (cases "sensitive_field_name D k")
    case True
    then show ?thesis
      using 3(1) [OF True ctx_step_ok] 3(5) found_step(1) [OF 3(4)] by (auto intro: ctx_step_trans)
  next
    case False
    obtain k' x1 where c: "(if is_sensitive_key_data D k then next_key_placeholder (found_dynamic_key cfg x) else (k, x)) = (k', x1)"
      by fastforce
    obtain w x2 where v: "redact_value D cfg v x1 (depth + 1) = (w, x2)" by fastforce
    have s: "ctx_step cfg x x1"
      using c 3(4) by (auto split: if_splits intro: ctx_step_refl dynamic_key_step)
    have v2: "ctx_step cfg x1 x2" by (rule 3(2) [OF False c [symmetric] refl ctx_step_ok [OF s] v])
    have "ctx_step cfg x2 x'"
      using 3(3) [OF False c [symmetric] refl v [symmetric] refl ctx_step_ok [OF v2]] 3(5) False c v by simp
    with s v2 show ?thesis by (blast intro: ctx_step_trans)
  qed
next
  case (5 D cfg v vs x depth)
  obtain w x1 where v: "redact_value D cfg v x (depth + 1) = (w, x1)" by fastforce
  obtain us x2 where vs: "redact_items D cfg vs x1 depth = (us, x2)" by fastforce
  have "ctx_step cfg x x1" by (rule 5(1) [OF 5(3) v])
  moreover from this have "ctx_step cfg x1 x2" using 5(2) [OF v [symmetric] refl _ vs] ctx_step_ok by blast
  ultimately show ?case using 5(4) v vs by (auto intro: ctx_step_trans)
qed (auto simp: ctx_step_refl)

lemma ctx_step_live: "ctx_step cfg x y \<Longrightarrow> x_dropped y = None \<Longrightarrow> x_dropped x = None"
  by (simp add: ctx_step_def)

lemma redact_all:
  "ctx_ok cfg x \<Longrightarrow> plain_keys v \<Longrightarrow> redact_value D cfg v x depth = (w, x') \<Longrightarrow> x_dropped x' = None \<Longrightarrow>
     redaction_of D v w"
  "ctx_ok cfg x \<Longrightarrow> fields_ahead m out x \<Longrightarrow> redact_fields D cfg m out x depth = (out', x') \<Longrightarrow>
     x_dropped x' = None \<Longrightarrow> fields_done D m out out'"
  "ctx_ok cfg x \<Longrightarrow> list_all plain_keys vs \<Longrightarrow> redact_items D cfg vs x depth = (ws, x') \<Longrightarrow>
     x_dropped x' = None \<Longrightarrow> list_all2 (redaction_of D) vs ws"
proof (induction D cfg v x depth and D cfg m out x depth and D cfg vs x depth
    arbitrary: w x' and out' x' and ws x' rule: redact_value_redact_fields_redact_items.induct)
  case (1 D cfg v x depth)
  have d: "\<not> unat (dlp_max_depth cfg) < depth"
    using 1(5,6) by (auto simp: redact_value.simps split: if_splits)
  show ?case
  proof (cases v)
    case (JObject m)
    obtain out x1 where o: "redact_fields D cfg m [] x depth = (out, x1)" by fastforce
    have "fields_ahead m [] x" using 1(4) JObject by (simp add: fields_ahead_def)
    from 1(2) [OF d JObject 1(3) this o] show ?thesis
      using 1(5,6) d o by (auto simp: redact_value.simps JObject fields_done_def)
  next
    case (JArray vs)
    obtain out x1 where o: "redact_items D cfg vs x depth = (out, x1)" by fastforce
    from 1(1) [OF d JArray 1(3) _ o] show ?thesis
      using 1(4-6) d o by (auto simp: redact_value.simps JArray)
  qed (use 1(3,5) d redact_scalar_step [OF 1(3), of D v w x'] in \<open>auto simp: redact_value.simps\<close>)
next
  case (2 D cfg out x depth)
  then show ?case by (simp add: fields_done_def)
next
  case (3 D cfg k v m out x depth)
  have b: "bt_ok out" "k \<notin> fst ` set out" "plain_keys v" "\<not> placeholder_key k"
    and l: "\<And>n. key_placeholder n \<in> fst ` set out \<Longrightarrow> unat n \<le> unat (dynamic_key_seq x)"
    using 3(5) by (auto simp: fields_ahead_def)
  show ?case
  proof (cases "sensitive_field_name D k")
    case True
    let ?x = "found_key cfg x"
    have e: "dynamic_key_seq ?x = dynamic_key_seq x" by (simp add: found_key_def)
    have a: "fields_ahead m (bt_insert k (JString mark_sensitive_name) out) ?x"
      by (rule fields_ahead_insert [OF 3(5)]) (simp_all add: e)
    have r: "redact_fields D cfg m (bt_insert k (JString mark_sensitive_name) out) ?x depth = (out', x')"
      using 3(6) True by simp
    from 3(1) [OF True ctx_step_ok [OF found_step(1) [OF 3(4)]] a r 3(7)] show ?thesis
      using fields_done_Cons [OF _ b(1,2)] True by auto
  next
    case False
    obtain k' x1 where c: "(if is_sensitive_key_data D k then next_key_placeholder (found_dynamic_key cfg x) else (k, x)) = (k', x1)"
      by fastforce
    obtain w x2 where v: "redact_value D cfg v x1 (depth + 1) = (w, x2)" by fastforce
    have r: "redact_fields D cfg m (bt_insert k' w out) x2 depth = (out', x')"
      using 3(6) False c v by simp
    have s: "ctx_step cfg x x1"
      using c 3(4) by (auto split: if_splits intro: ctx_step_refl dynamic_key_step)
    have s2: "ctx_step cfg x1 x2" by (rule redact_step(1) [OF ctx_step_ok [OF s] v])
    have s3: "ctx_step cfg x2 x'" by (rule redact_step(2) [OF ctx_step_ok [OF s2] r])
    note live = ctx_step_live [OF s3 3(7)] ctx_step_live [OF s2 ctx_step_live [OF s3 3(7)]]
    have w: "redaction_of D v w"
      by (rule 3(2) [OF False c [symmetric] refl ctx_step_ok [OF s] b(3) v live(1)])
    have k': "k' \<notin> fst ` set out \<and> fields_ahead m (bt_insert k' w out) x2 \<and>
        (if is_sensitive_key_data D k then placeholder_key k' else k' = k)"
    proof (cases "is_sensitive_key_data D k")
      case True
      note p = dynamic_key_step [OF 3(4), of k' x1]
      have "unat (dynamic_key_seq x) < unat (dynamic_key_seq x1)" "k' = key_placeholder (dynamic_key_seq x1)"
        using p c True live(2) by simp_all
      then show ?thesis
        using l [of "dynamic_key_seq x1"] fields_ahead_placeholder [OF 3(5)] s2 live(1) True
        by (auto simp: ctx_step_def placeholder_key_def)
    next
      case False
      then show ?thesis
        using c b fields_ahead_insert [OF 3(5), of x2 w] s2 live(1) by (auto simp: ctx_step_def)
    qed
    have "fields_done D m (bt_insert k' w out) out'"
      using 3(3) [OF False c [symmetric] refl v [symmetric] refl ctx_step_ok [OF s2] _ r 3(7)] k' by simp
    then show ?thesis using fields_done_Cons [OF _ b(1)] k' w False by auto
  qed
next
  case (4 D cfg x depth)
  then show ?case by simp
next
  case (5 D cfg v vs x depth)
  obtain w x1 where v: "redact_value D cfg v x (depth + 1) = (w, x1)" by fastforce
  obtain us x2 where vs: "redact_items D cfg vs x1 depth = (us, x2)" by fastforce
  have s: "ctx_step cfg x x1" by (rule redact_step(1) [OF 5(3) v])
  have s2: "ctx_step cfg x1 x2" by (rule redact_step(3) [OF ctx_step_ok [OF s] vs])
  have e: "x' = x2" "ws = w # us" using 5(5) v vs by auto
  have "x_dropped x2 = None" using 5(6) e by simp
  then show ?case
    using 5(1) [OF 5(3) _ v ctx_step_live [OF s2]] 5(2) [OF v [symmetric] refl ctx_step_ok [OF s] _ vs] 5(4) e by simp
qed

end
