(* ===== verification/Redaction_Properties.thy ===== *)
theory Redaction_Properties
  imports Redaction_Facts
begin

text \<open>
  The properties of redaction: what a redacted document can still contain, how it is related to
  its source, and which runs of characters count as secrets.
\<close>

section \<open>Runs of characters\<close>

definition is_run :: "(u8 \<Rightarrow> bool) \<Rightarrow> bytes \<Rightarrow> bytes \<Rightarrow> bool" where
  "is_run pred s r \<longleftrightarrow>
     (\<exists>p q. s = p @ r @ q \<and> list_all pred r \<and> (p = [] \<or> \<not> pred (last p)) \<and> (q = [] \<or> \<not> pred (hd q)))"

lemma is_run_all: "list_all pred s \<Longrightarrow> is_run pred s r \<Longrightarrow> r = s"
proof -
  assume s: "list_all pred s" and "is_run pred s r"
  then obtain p q where e: "s = p @ r @ q" "p = [] \<or> \<not> pred (last p)" "q = [] \<or> \<not> pred (hd q)"
    unfolding is_run_def by blast
  have "p = []" using e s last_in_set [of p] by (auto simp: list_all_iff)
  moreover have "q = []" using e s hd_in_set [of q] by (auto simp: list_all_iff)
  ultimately show "r = s" using e by simp
qed

lemma is_run_self: "list_all pred s \<Longrightarrow> is_run pred s s"
  unfolding is_run_def by (intro exI [of _ "[]"]) simp

lemma is_run_split:
  assumes r: "list_all pred r" and c: "\<not> pred c" and u: "u \<noteq> []"
  shows "is_run pred (r @ c # cs) u \<longleftrightarrow> u = r \<or> is_run pred cs u"
proof
  assume "is_run pred (r @ c # cs) u"
  then obtain p q where s: "r @ c # cs = p @ u @ q" and a: "list_all pred u"
      "p = [] \<or> \<not> pred (last p)" "q = [] \<or> \<not> pred (hd q)"
    unfolding is_run_def by blast
  show "u = r \<or> is_run pred cs u"
  proof (cases "p = []")
    case True
    have "takeWhile pred (r @ c # cs) = r" using r c by (simp add: list_all_iff takeWhile_append2)
    moreover have "takeWhile pred (u @ q) = u" using a by (cases q) (simp_all add: list_all_iff takeWhile_append2)
    ultimately show ?thesis using s True by simp
  next
    case False
    have n: "\<not> (\<exists>w. r = p @ w)" using False a(2) r last_in_set [of p] by (auto simp: list_all_iff)
    have "\<exists>w. p = r @ c # w \<and> cs = w @ u @ q"
    proof -
      obtain w where "r = p @ w \<and> w @ c # cs = u @ q \<or> r @ w = p \<and> c # cs = w @ u @ q"
        using s by (auto simp: append_eq_append_conv2)
      with n obtain w where w: "p = r @ w" "c # cs = w @ u @ q" by blast
      then show ?thesis using n by (cases w) auto
    qed
    then obtain w where w: "p = r @ c # w" "cs = w @ u @ q" by blast
    then have "w = [] \<or> \<not> pred (last w)" using a(2) by auto
    then have "is_run pred cs u" using w(2) a unfolding is_run_def by blast
    then show ?thesis ..
  qed
next
  assume "u = r \<or> is_run pred cs u"
  then show "is_run pred (r @ c # cs) u"
  proof
    assume "u = r"
    then show ?thesis using r c unfolding is_run_def by (intro exI [of _ "[]"] exI [of _ "c # cs"]) simp
  next
    assume "is_run pred cs u"
    then obtain p q where "cs = p @ u @ q" "list_all pred u" "p = [] \<or> \<not> pred (last p)" "q = [] \<or> \<not> pred (hd q)"
      unfolding is_run_def by blast
    then show ?thesis using c unfolding is_run_def by (intro exI [of _ "r @ c # p"] exI [of _ q]) auto
  qed
qed

lemma blob_hit_nonempty: "blob_hit minimum k r \<Longrightarrow> r \<noteq> []"
  by (simp add: blob_hit_def entropy_at_least_def)

lemma blob_scan_runs:
  "list_all pred r \<Longrightarrow> blob_scan pred minimum k r s \<longleftrightarrow> (\<exists>u. is_run pred (r @ s) u \<and> blob_hit minimum k u)"
proof (induction pred minimum k r s rule: blob_scan.induct)
  case (1 pred minimum k r)
  then show ?case using is_run_all [OF 1] is_run_self [OF 1] blob_hit_nonempty by fastforce
next
  case (2 pred minimum k r c cs)
  show ?case
  proof (cases "pred c")
    case True
    then show ?thesis using 2 by simp
  next
    case False
    have "blob_scan pred minimum k r (c # cs) \<longleftrightarrow>
        blob_hit minimum k r \<or> (\<exists>u. is_run pred cs u \<and> blob_hit minimum k u)"
      using False 2(2) by (cases "blob_hit minimum k r") simp_all
    then show ?thesis using is_run_split [OF 2(3) False] blob_hit_nonempty by blast
  qed
qed

lemma blob_scan_shannon:
  assumes "0 < k"
  shows "blob_scan pred minimum k [] s \<longleftrightarrow>
    (\<exists>r. is_run pred s r \<and> minimum \<le> length r \<and> real k / 2 \<le> shannon r)"
  by (simp add: blob_scan_runs blob_hit_def entropy_shannon [OF assms])

section \<open>Properties\<close>

text \<open>C29: Whatever a document contains, in its redaction every text is a mark or matches no detector,
  no number is a secret, every sensitive field holds the mark, and a key is a placeholder or
  matches no detector or names a sensitive field.\<close>

theorem redacted_clean: "redacted_ok D (ro_document (redact D cfg v))"
  by (simp add: redact_def case_prod_beta redact_ok_all Let_def)


definition at_sign_detectors :: detectors where
  "at_sign_detectors =
     \<lparr> dt_normalize = to_ascii_lowercase, dt_is_match = (\<lambda>re s. re = email_pattern \<and> CHR ''@'' \<in> set s) \<rparr>"






text \<open>A text holds a high-entropy blob exactly when one of its maximal runs of hexadecimal digits
  has at least 32 of them and Shannon entropy at least 2.5 bits, or one of base64 characters at
  least 40 and 3.5 bits.\<close>

theorem blob_iff_entropic_run:
  "has_high_entropy_blob s \<longleftrightarrow>
     (\<exists>r. is_run is_hexdigit s r \<and> 32 \<le> length r \<and> 5 / 2 \<le> shannon r) \<or>
     (\<exists>r. is_run is_base64_char s r \<and> 40 \<le> length r \<and> 7 / 2 \<le> shannon r)"
  using blob_scan_shannon [of 5 is_hexdigit 32 s] blob_scan_shannon [of 7 is_base64_char 40 s]
  by (simp add: has_high_entropy_blob_def)

section \<open>Where the detectors stop short\<close>

text \<open>A card number is missed when digits precede it, because they are read as one number.\<close>

theorem card_after_digits_missed:
  "has_payment_card ''pan 4111-1111-1111-1111'' \<and> \<not> has_payment_card ''1234 4111111111111111''"
  by code_simp

text \<open>A key that names a sensitive field is kept as it is, also when it is itself data.\<close>

theorem sensitive_key_kept:
  assumes "sensitive_field_name D k" "is_sensitive_key_data D k"
  shows "ro_document (redact D cfg (JObject [(k, v)])) = JObject [(k, JString mark_sensitive_name)]"
  using assms by (simp add: redact_def redact_value.simps)

theorem sensitive_key_kept_witness:
  "ro_document (redact at_sign_detectors default_dlp_config (JObject [(''cookie of a@b'', JNull)])) =
     JObject [(''cookie of a@b'', JString mark_sensitive_name)]"
  by (rule sensitive_key_kept) code_simp+

end
