(* ===== verification/Discovery.thy ===== *)
theory Discovery
  imports Cold_Lane Redaction Value_Profile
begin

text \<open>
  The consumer of the discovery topic (\<open>deblob/src/discovery_consumer.rs\<close>) with the capture of
  redacted samples (\<open>sample_capture.rs\<close>). The asynchronous loop is cut at the points where it
  waits: its state says what it waits for, and \<open>consumer_step\<close> is what it does on an event. The
  Kafka client's commit, the sample store, the JSON readers and writers and the clocks are
  arguments; \<open>pending_offsets\<close> is the list of the calls that filled it.
\<close>

section \<open>Sample capture\<close>

record sample_record =
  sr_sample_id :: bytes
  sr_source_id :: bytes
  sr_candidate_id :: candidate_id
  sr_captured_at_ms :: int
  sr_dlp_version :: bytes
  sr_redaction_counts :: json
  sr_truncated :: bool
  sr_document :: json

record sample_capture_cfg =
  sc_enabled :: bool
  capture_sources :: "bytes list"
  max_input_bytes :: nat
  max_sample_bytes :: nat
  sc_dlp :: dlp_config

definition source_allowed :: "sample_capture_cfg \<Rightarrow> bytes \<Rightarrow> bool" where
  "source_allowed cfg source \<longleftrightarrow> sc_enabled cfg \<and> list_ex (\<lambda>s. s = source) (capture_sources cfg)"

text \<open>Two's complement, least significant byte first.\<close>

definition to_le_bytes :: "nat \<Rightarrow> int \<Rightarrow> bytes" where
  "to_le_bytes n i = map (\<lambda>k. char_of (nat (i div 256 ^ k mod 256))) [0..<n]"

definition sample_id :: "(bytes \<Rightarrow> bytes) \<Rightarrow> source_id \<Rightarrow> bytes \<Rightarrow> int \<Rightarrow> int \<Rightarrow> bytes" where
  "sample_id sha256 sid t p off =
     (let d = sha256 (''deblob-sample-v1'' @ [CHR 0x00] @ source_str sid @ [CHR 0x00] @ t @ [CHR 0x00] @
            to_le_bytes 4 p @ to_le_bytes 8 off)
      in ''smp_'' @ hex_lower (take 16 d))"

text \<open>What capture is given: the detectors, \<open>serde_json::from_slice\<close> and \<open>to_vec\<close>.\<close>

record capture_env =
  cp_digests :: digests
  cp_detectors :: detectors
  cp_from_slice :: "bytes \<Rightarrow> json option"
  cp_to_vec :: "json \<Rightarrow> bytes option"

definition u32_json :: "u32 \<Rightarrow> json" where
  "u32_json n = JNumber (nat_dec (unat n))"

definition counts_json :: "redaction_counts \<Rightarrow> json" where
  "counts_json c =
     JObject [(''pii_pattern'', u32_json (pii_pattern c)), (''redacted_dynamic_key'', u32_json (redacted_dynamic_key c)),
       (''secret_pattern'', u32_json (secret_pattern c)), (''sensitive_key'', u32_json (sensitive_key c))]"

definition build_sample ::
  "capture_env \<Rightarrow> sample_capture_cfg \<Rightarrow> bytes \<Rightarrow> bytes \<Rightarrow> int \<Rightarrow> int \<Rightarrow> candidate_id \<Rightarrow> bytes \<Rightarrow> int \<Rightarrow>
     sample_record option" where
  "build_sample P cfg source t p off cid raw_payload captured_at_ms =
     (if \<not> source_allowed cfg source then None
      else if max_input_bytes cfg < length raw_payload then None
      else
        (case cp_from_slice P raw_payload of
           None \<Rightarrow> None
         | Some v \<Rightarrow>
             (let outcome = redact (cp_detectors P) (sc_dlp cfg) v
              in if ro_dropped outcome \<noteq> None then None
                 else
                   (case cp_to_vec P (ro_document outcome) of
                      None \<Rightarrow> None
                    | Some doc_bytes \<Rightarrow>
                        if max_sample_bytes cfg < length doc_bytes then None
                        else
                          (let sid = source_id_from_source (d_sha256 (cp_digests P)) (d_base32 (cp_digests P)) source
                           in Some \<lparr> sr_sample_id = sample_id (d_sha256 (cp_digests P)) sid t p off,
                                sr_source_id = source_str sid, sr_candidate_id = cid,
                                sr_captured_at_ms = captured_at_ms, sr_dlp_version = dlp_version,
                                sr_redaction_counts = counts_json (ro_counts outcome), sr_truncated = False,
                                sr_document = ro_document outcome \<rparr>)))))"

section \<open>One message\<close>

datatype handle_error = MalformedPayload | InvalidCandidateId | IngestFailed core_error

text \<open>
  The environment: the lane's, the reader of an envelope, the candidate id parser's base32, what
  capture needs, the sample store's \<open>put_sample\<close> when there is one, and the commit call.
\<close>

record ('st, 'l, 'sm, 'b) consumer_env =
  de_lane :: "('st, 'l) lane_env"
  de_limits :: limits
  de_message :: "bytes \<Rightarrow> discovery_msg option"
  de_base32_dec :: "bytes \<Rightarrow> bytes option"
  de_capture :: capture_env
  de_capture_cfg :: sample_capture_cfg
  de_put_sample :: "(sample_record \<Rightarrow> 'sm \<Rightarrow> (core_error + bool) \<times> 'sm) option"
  de_commit :: "((bytes \<times> int) \<times> int) list \<Rightarrow> 'b \<Rightarrow> bool \<times> 'b"

definition capture_sample ::
  "('st, 'l, 'sm, 'b) consumer_env \<Rightarrow> discovery_msg \<Rightarrow> ingest_outcome \<Rightarrow> int \<Rightarrow> 'sm \<Rightarrow> 'sm" where
  "capture_sample E msg outcome now_ms sm =
     (case (de_put_sample E, outcome) of
        (Some put_sample, Ingested i _) \<Rightarrow>
          (case build_sample (de_capture E) (de_capture_cfg E) (dm_source msg) (topic (dm_cursor msg))
              (partition (dm_cursor msg)) (offset (dm_cursor msg)) i (dm_payload msg) now_ms of
             None \<Rightarrow> sm
           | Some rec \<Rightarrow> snd (put_sample rec sm))
      | _ \<Rightarrow> sm)"

text \<open>The two clock readings are of \<open>ingest\<close> and of the capture.\<close>

definition handle_discovery_msg ::
  "('st, 'l, 'sm, 'b) consumer_env \<Rightarrow> discovery_msg \<Rightarrow> int \<times> int \<Rightarrow> ('st, 'l) lane \<times> 'sm \<Rightarrow>
     (handle_error + ingest_outcome) \<times> ('st, 'l) lane \<times> 'sm" where
  "handle_discovery_msg E msg clk x =
     (let (L, sm) = x
      in case parse_bounded (dm_payload msg) (de_limits E) of
           Inl _ \<Rightarrow> (Inl MalformedPayload, L, sm)
         | Inr nd \<Rightarrow>
             (case candidate_id_parse (de_base32_dec E) (dm_cand_id msg) of
                Inl _ \<Rightarrow> (Inl InvalidCandidateId, L, sm)
              | Inr cid \<Rightarrow>
                  (let meta = \<lparr> sm_source = dm_source msg, sm_cursor = Some (dm_cursor msg) \<rparr>
                   in case ingest (de_lane E) cid nd meta (fst clk) L of
                        (Inl e, L1) \<Rightarrow> (Inl (IngestFailed e), L1, sm)
                      | (Inr outcome, L1) \<Rightarrow> (Inr outcome, L1, capture_sample E msg outcome (snd clk) sm))))"

section \<open>The loop\<close>

record delivery =
  dl_topic :: bytes
  dl_partition :: int
  dl_offset :: int
  dl_payload :: "bytes option"

text \<open>
  The consumer waits for a message or for the end of a back-off, or it has returned. Between two
  events others may change the store: \<open>StoreChanged\<close>.
\<close>

datatype consumer_phase =
    Receiving
  | BackingOff delivery discovery_msg u32
  | Returned "unit + unit"

datatype 'st consumer_event =
    Delivered delivery "int \<times> int"
  | ReceiveFailed
  | Elapsed "int \<times> int"
  | Cancelled
  | StoreChanged 'st

record ('st, 'l, 'sm, 'b) consumer =
  c_phase :: consumer_phase
  c_work :: "('st, 'l) lane \<times> 'sm"
  c_broker :: 'b
  pending_offsets :: "((bytes \<times> int) \<times> int) list"
  since_commit :: u32

definition commit_every :: u32 where "commit_every = 50"

definition commit_offsets ::
  "('st, 'l, 'sm, 'b) consumer_env \<Rightarrow> ((bytes \<times> int) \<times> int) list \<Rightarrow> 'b \<Rightarrow> 'b" where
  "commit_offsets E offsets b = (if offsets = [] then b else snd (de_commit E offsets b))"

definition next_offset :: "delivery \<Rightarrow> (bytes \<times> int) \<times> int" where
  "next_offset d = ((dl_topic d, dl_partition d), dl_offset d + 1)"

definition advance_offset ::
  "('st, 'l, 'sm, 'b) consumer_env \<Rightarrow> delivery \<Rightarrow> ('st, 'l, 'sm, 'b) consumer \<Rightarrow> ('st, 'l, 'sm, 'b) consumer" where
  "advance_offset E d s =
     (let pending = pending_offsets s @ [next_offset d];
          since = since_commit s + 1
      in if commit_every \<le> since then
           s\<lparr> c_broker := commit_offsets E pending (c_broker s), pending_offsets := [], since_commit := 0 \<rparr>
         else s\<lparr> pending_offsets := pending, since_commit := since \<rparr>)"

text \<open>The time slept before the next attempt; events carry no durations, so it is not used below.\<close>

definition backoff_ms :: "u32 \<Rightarrow> nat" where
  "backoff_ms attempt = min (250 * 2 ^ min (unat attempt) 6) 10000"

definition attempt_message ::
  "('st, 'l, 'sm, 'b) consumer_env \<Rightarrow> delivery \<Rightarrow> discovery_msg \<Rightarrow> u32 \<Rightarrow> int \<times> int \<Rightarrow>
     ('st, 'l, 'sm, 'b) consumer \<Rightarrow> ('st, 'l, 'sm, 'b) consumer" where
  "attempt_message E d msg attempt clk s =
     (case handle_discovery_msg E msg clk (c_work s) of
        (Inl (IngestFailed e), w) \<Rightarrow> s\<lparr> c_work := w, c_phase := BackingOff d msg (attempt + 1) \<rparr>
      | (_, w) \<Rightarrow> advance_offset E d (s\<lparr> c_work := w, c_phase := Receiving \<rparr>))"

definition message_of :: "('st, 'l, 'sm, 'b) consumer_env \<Rightarrow> delivery \<Rightarrow> discovery_msg option" where
  "message_of E d = Option.bind (dl_payload d) (de_message E)"

definition consumer_step ::
  "('st, 'l, 'sm, 'b) consumer_env \<Rightarrow> 'st consumer_event \<Rightarrow> ('st, 'l, 'sm, 'b) consumer \<Rightarrow>
     ('st, 'l, 'sm, 'b) consumer" where
  "consumer_step E ev s =
     (case ev of
        StoreChanged st \<Rightarrow> s\<lparr> c_work := ((fst (c_work s))\<lparr> l_store := st \<rparr>, snd (c_work s)) \<rparr>
      | Cancelled \<Rightarrow>
          (case c_phase s of
             Returned r \<Rightarrow> s
           | _ \<Rightarrow> s\<lparr> c_broker := commit_offsets E (pending_offsets s) (c_broker s), c_phase := Returned (Inr ()) \<rparr>)
      | ReceiveFailed \<Rightarrow> (case c_phase s of Receiving \<Rightarrow> s\<lparr> c_phase := Returned (Inl ()) \<rparr> | _ \<Rightarrow> s)
      | Delivered d clk \<Rightarrow>
          (case c_phase s of
             Receiving \<Rightarrow>
               (case message_of E d of
                  None \<Rightarrow> advance_offset E d s
                | Some msg \<Rightarrow> attempt_message E d msg 0 clk s)
           | _ \<Rightarrow> s)
      | Elapsed clk \<Rightarrow>
          (case c_phase s of BackingOff d msg attempt \<Rightarrow> attempt_message E d msg attempt clk s | _ \<Rightarrow> s))"

definition run_consumer ::
  "('st, 'l, 'sm, 'b) consumer_env \<Rightarrow> 'st consumer_event list \<Rightarrow> ('st, 'l, 'sm, 'b) consumer \<Rightarrow>
     ('st, 'l, 'sm, 'b) consumer" where
  "run_consumer E evs s = fold (consumer_step E) evs s"

definition consumer_start :: "('st, 'l) lane \<Rightarrow> 'sm \<Rightarrow> 'b \<Rightarrow> ('st, 'l, 'sm, 'b) consumer" where
  "consumer_start L sm b =
     \<lparr> c_phase = Receiving, c_work = (L, sm), c_broker = b, pending_offsets = [], since_commit = 0 \<rparr>"

end
