(* ===== verification/Discovery_Facts.thy ===== *)
theory Discovery_Facts
  imports Discovery Promotion_Facts Redaction_Facts
begin

text \<open>
  Runs of the discovery consumer: which messages they handled, with what result, what was
  committed and captured; and over the store in Redis, that a run is one of the cold lane.
\<close>

section \<open>What a run handled\<close>

text \<open>Every attempt on a message, with its result; \<open>None\<close> for a body without a message.\<close>

type_synonym attempt = "delivery \<times> (handle_error + ingest_outcome) option"

definition attempt_of ::
  "('st, 'l, 'sm, 'b) consumer_env \<Rightarrow> 'st consumer_event \<Rightarrow> ('st, 'l, 'sm, 'b) consumer \<Rightarrow> attempt list" where
  "attempt_of E ev s =
     (case (ev, c_phase s) of
        (Delivered d clk, Receiving) \<Rightarrow>
          [(d, map_option (\<lambda>msg. fst (handle_discovery_msg E msg clk (c_work s))) (message_of E d))]
      | (Elapsed clk, BackingOff d msg n) \<Rightarrow> [(d, Some (fst (handle_discovery_msg E msg clk (c_work s))))]
      | _ \<Rightarrow> [])"

fun attempts ::
  "('st, 'l, 'sm, 'b) consumer_env \<Rightarrow> 'st consumer_event list \<Rightarrow> ('st, 'l, 'sm, 'b) consumer \<Rightarrow> attempt list" where
  "attempts E [] s = []"
| "attempts E (ev # evs) s = attempt_of E ev s @ attempts E evs (consumer_step E ev s)"

definition ingest_failed :: "attempt \<Rightarrow> bool" where
  "ingest_failed a \<longleftrightarrow> (\<exists>e. snd a = Some (Inl (IngestFailed e)))"

definition settled_deliveries :: "attempt list \<Rightarrow> delivery list" where
  "settled_deliveries as = map fst (filter (\<lambda>a. \<not> ingest_failed a) as)"

text \<open>The messages taken from the topic, and the one a back-off holds.\<close>

definition taken_of :: "'st consumer_event \<Rightarrow> ('st, 'l, 'sm, 'b) consumer \<Rightarrow> delivery list" where
  "taken_of ev s = (case (ev, c_phase s) of (Delivered d clk, Receiving) \<Rightarrow> [d] | _ \<Rightarrow> [])"

fun taken ::
  "('st, 'l, 'sm, 'b) consumer_env \<Rightarrow> 'st consumer_event list \<Rightarrow> ('st, 'l, 'sm, 'b) consumer \<Rightarrow> delivery list" where
  "taken E [] s = []"
| "taken E (ev # evs) s = taken_of ev s @ taken E evs (consumer_step E ev s)"

text \<open>A message is taken once and held until it is settled or the consumer returns.\<close>

definition taken_ok :: "delivery list \<Rightarrow> delivery list \<Rightarrow> ('st, 'l, 'sm, 'b) consumer \<Rightarrow> bool" where
  "taken_ok ts ds s \<longleftrightarrow>
     (case c_phase s of
        Receiving \<Rightarrow> ts = ds
      | BackingOff d msg n \<Rightarrow> ts = ds @ [d]
      | Returned r \<Rightarrow> ts = ds \<or> (\<exists>d. ts = ds @ [d]))"

definition held :: "('st, 'l, 'sm, 'b) consumer \<Rightarrow> delivery list" where
  "held s = (case c_phase s of BackingOff d msg n \<Rightarrow> [d] | _ \<Rightarrow> [])"

lemma run_consumer_simps [simp]:
  "run_consumer E [] s = s"
  "run_consumer E (ev # evs) s = run_consumer E evs (consumer_step E ev s)"
  by (simp_all add: run_consumer_def)

lemma settled_append [simp]: "settled_deliveries (as @ bs) = settled_deliveries as @ settled_deliveries bs"
  by (simp add: settled_deliveries_def)

section \<open>Offsets\<close>

text \<open>The commit calls of a run, in order, on the broker's state.\<close>

definition committing :: "('st, 'l, 'sm, 'b) consumer_env \<Rightarrow> ((bytes \<times> int) \<times> int) list list \<Rightarrow> 'b \<Rightarrow> 'b" where
  "committing E cs b = fold (\<lambda>c b. snd (de_commit E c b)) cs b"

definition offsets_kept ::
  "('st, 'l, 'sm, 'b) consumer_env \<Rightarrow> 'b \<Rightarrow> delivery list \<Rightarrow> ('st, 'l, 'sm, 'b) consumer \<Rightarrow> bool" where
  "offsets_kept E b ds s \<longleftrightarrow>
     since_commit s < commit_every \<and>
     (\<exists>cs. c_broker s = committing E cs b \<and>
       (if c_phase s = Returned (Inr ()) then concat cs = map next_offset ds
        else concat cs @ pending_offsets s = map next_offset ds))"

lemma committing_snoc: "committing E (cs @ [c]) b = snd (de_commit E c (committing E cs b))"
  by (simp add: committing_def)

lemma commit_offsets_kept:
  assumes "b' = committing E cs b" "concat cs @ pending = offsets"
  shows "\<exists>cs'. commit_offsets E pending b' = committing E cs' b \<and> concat cs' = offsets"
proof (cases "pending = []")
  case False
  then show ?thesis using assms by (intro exI [of _ "cs @ [pending]"]) (simp add: commit_offsets_def committing_snoc)
qed (use assms in \<open>auto simp: commit_offsets_def\<close>)

lemma advance_keeps:
  assumes "offsets_kept E b ds s" "c_phase s = Receiving"
  shows "offsets_kept E b (ds @ [d]) (advance_offset E d s) \<and> c_phase (advance_offset E d s) = Receiving"
proof -
  obtain cs where cs: "c_broker s = committing E cs b" "concat cs @ pending_offsets s = map next_offset ds"
    and n: "since_commit s < commit_every"
    using assms unfolding offsets_kept_def by auto
  have e: "concat cs @ (pending_offsets s @ [next_offset d]) = map next_offset (ds @ [d])" using cs(2) by simp
  show ?thesis
  proof (cases "commit_every \<le> since_commit s + 1")
    case True
    have "\<exists>cs'. commit_offsets E (pending_offsets s @ [next_offset d]) (c_broker s) = committing E cs' b \<and>
        concat cs' = map next_offset (ds @ [d])"
      by (rule commit_offsets_kept [OF cs(1) e])
    then show ?thesis using True assms(2)
      by (auto simp: offsets_kept_def advance_offset_def Let_def commit_every_def)
  next
    case False
    then show ?thesis using cs e assms(2)
      by (auto simp: offsets_kept_def advance_offset_def Let_def intro!: exI [of _ cs])
  qed
qed

lemma attempt_keeps:
  assumes "offsets_kept E b ds s" "c_phase s = Receiving \<or> (\<exists>m n. c_phase s = BackingOff d m n)"
    and "r = fst (handle_discovery_msg E msg clk (c_work s))" "s' = attempt_message E d msg n clk s"
  shows "offsets_kept E b (ds @ settled_deliveries [(d, Some r)]) s' \<and>
    (if ingest_failed (d, Some r) then \<exists>n. c_phase s' = BackingOff d msg n else c_phase s' = Receiving)"
proof -
  obtain w where h: "handle_discovery_msg E msg clk (c_work s) = (r, w)" using assms(3)
    by (cases "handle_discovery_msg E msg clk (c_work s)") simp
  show ?thesis
  proof (cases "ingest_failed (d, Some r)")
    case True
    then obtain e where e: "r = Inl (IngestFailed e)" by (auto simp: ingest_failed_def)
    then show ?thesis
      using assms(1,2,4) h by (auto simp: attempt_message_def offsets_kept_def settled_deliveries_def ingest_failed_def)
  next
    case False
    have "s' = advance_offset E d (s\<lparr> c_work := w, c_phase := Receiving \<rparr>)"
      using False assms(4) h by (auto simp: attempt_message_def ingest_failed_def split: sum.splits handle_error.splits)
    moreover have "offsets_kept E b ds (s\<lparr> c_work := w, c_phase := Receiving \<rparr>)"
      using assms(1,2) by (auto simp: offsets_kept_def)
    ultimately show ?thesis
      using advance_keeps [of E b ds "s\<lparr> c_work := w, c_phase := Receiving \<rparr>" d] False
      by (simp add: settled_deliveries_def)
  qed
qed

lemma settled_Nil [simp]: "settled_deliveries [] = []"
  by (simp add: settled_deliveries_def)

lemma settled_one: "settled_deliveries [a] = (if ingest_failed a then [] else [fst a])"
  by (simp add: settled_deliveries_def)

lemma step_keeps:
  assumes "offsets_kept E b ds s" "taken_ok ts ds s"
  shows "offsets_kept E b (ds @ settled_deliveries (attempt_of E ev s)) (consumer_step E ev s) \<and>
    taken_ok (ts @ taken_of ev s) (ds @ settled_deliveries (attempt_of E ev s)) (consumer_step E ev s)"
proof (cases ev)
  case (Delivered d clk)
  show ?thesis
  proof (cases "c_phase s = Receiving")
    case True
    show ?thesis
    proof (cases "message_of E d")
      case None
      have "\<not> ingest_failed (d, None)" by (simp add: ingest_failed_def)
      then show ?thesis using advance_keeps [OF assms(1) True, of d] assms(2) True None Delivered
        by (simp add: attempt_of_def taken_of_def consumer_step_def taken_ok_def settled_one)
    next
      case (Some msg)
      have e: "consumer_step E ev s = attempt_message E d msg 0 clk s"
        "attempt_of E ev s = [(d, Some (fst (handle_discovery_msg E msg clk (c_work s))))]" "taken_of ev s = [d]"
        using True Some Delivered by (simp_all add: consumer_step_def attempt_of_def taken_of_def)
      show ?thesis
        using attempt_keeps [OF assms(1), of d _ msg clk "consumer_step E ev s" 0] True assms(2) e
        by (auto simp: taken_ok_def settled_one split: if_splits)
    qed
  next
    case False
    then show ?thesis using assms Delivered
      by (cases "c_phase s") (simp_all add: attempt_of_def taken_of_def consumer_step_def)
  qed
next
  case (Elapsed clk)
  show ?thesis
  proof (cases "c_phase s")
    case (BackingOff d msg n)
    have e: "consumer_step E ev s = attempt_message E d msg n clk s"
      "attempt_of E ev s = [(d, Some (fst (handle_discovery_msg E msg clk (c_work s))))]" "taken_of ev s = []"
      using BackingOff Elapsed by (simp_all add: consumer_step_def attempt_of_def taken_of_def)
    show ?thesis
      using attempt_keeps [OF assms(1), of d _ msg clk "consumer_step E ev s" n] BackingOff assms(2) e
      by (auto simp: taken_ok_def settled_one split: if_splits)
  qed (use assms Elapsed in \<open>simp_all add: attempt_of_def taken_of_def consumer_step_def\<close>)
next
  case Cancelled
  have "offsets_kept E b ds (s\<lparr> c_broker := commit_offsets E (pending_offsets s) (c_broker s), c_phase := Returned (Inr ()) \<rparr>)"
    if r: "c_phase s \<noteq> Returned (Inr ())"
  proof -
    obtain cs where cs: "c_broker s = committing E cs b" "concat cs @ pending_offsets s = map next_offset ds"
      using assms(1) r unfolding offsets_kept_def by auto
    show ?thesis using commit_offsets_kept [OF cs] assms(1) by (simp add: offsets_kept_def)
  qed
  then show ?thesis using assms Cancelled
    by (cases "c_phase s") (auto simp: attempt_of_def taken_of_def consumer_step_def taken_ok_def)
next
  case ReceiveFailed
  then show ?thesis using assms
    by (cases "c_phase s") (auto simp: attempt_of_def taken_of_def consumer_step_def taken_ok_def offsets_kept_def)
next
  case (StoreChanged st)
  then show ?thesis using assms
    by (auto simp: attempt_of_def taken_of_def consumer_step_def taken_ok_def offsets_kept_def)
qed

lemma run_keeps:
  assumes "offsets_kept E b ds s" "taken_ok ts ds s"
  shows "offsets_kept E b (ds @ settled_deliveries (attempts E evs s)) (run_consumer E evs s) \<and>
    taken_ok (ts @ taken E evs s) (ds @ settled_deliveries (attempts E evs s)) (run_consumer E evs s)"
  using assms
proof (induction evs arbitrary: s ds ts)
  case (Cons ev evs)
  from step_keeps [OF Cons.prems, of ev] show ?case
    using Cons.IH [of "ds @ settled_deliveries (attempt_of E ev s)" "consumer_step E ev s" "ts @ taken_of ev s"] by simp
qed simp


section \<open>Samples\<close>

definition phase_ok :: "('st, 'l, 'sm, 'b) consumer_env \<Rightarrow> ('st, 'l, 'sm, 'b) consumer \<Rightarrow> bool" where
  "phase_ok E s \<longleftrightarrow> (\<forall>d msg n. c_phase s = BackingOff d msg n \<longrightarrow> message_of E d = Some msg)"

text \<open>The sample of an attempt: of an allowed source, redacted, of bounded size.\<close>

definition sample_of_attempt :: "('st, 'l, 'sm, 'b) consumer_env \<Rightarrow> attempt \<Rightarrow> sample_record \<Rightarrow> bool" where
  "sample_of_attempt E a rec \<longleftrightarrow>
     (\<exists>msg i new v bs. message_of E (fst a) = Some msg \<and> snd a = Some (Inr (Ingested i new)) \<and>
        source_allowed (de_capture_cfg E) (dm_source msg) \<and>
        length (dm_payload msg) \<le> max_input_bytes (de_capture_cfg E) \<and>
        cp_from_slice (de_capture E) (dm_payload msg) = Some v \<and>
        ro_dropped (redact (cp_detectors (de_capture E)) (sc_dlp (de_capture_cfg E)) v) = None \<and>
        sr_document rec = ro_document (redact (cp_detectors (de_capture E)) (sc_dlp (de_capture_cfg E)) v) \<and>
        sr_candidate_id rec = i \<and>
        cp_to_vec (de_capture E) (sr_document rec) = Some bs \<and> length bs \<le> max_sample_bytes (de_capture_cfg E))"

definition storing :: "('st, 'l, 'sm, 'b) consumer_env \<Rightarrow> sample_record list \<Rightarrow> 'sm \<Rightarrow> 'sm" where
  "storing E recs sm =
     (case de_put_sample E of None \<Rightarrow> sm | Some put_sample \<Rightarrow> fold (\<lambda>rec sm. snd (put_sample rec sm)) recs sm)"

lemma storing_append: "storing E (xs @ ys) sm = storing E ys (storing E xs sm)"
  by (simp add: storing_def split: option.split)

lemma storing_Nil [simp]: "storing E [] sm = sm"
  by (simp add: storing_def split: option.split)

lemma capture_stores:
  assumes "message_of E d = Some msg"
  shows "\<exists>recs. capture_sample E msg outcome now sm = storing E recs sm \<and>
    (\<forall>rec\<in>set recs. sample_of_attempt E (d, Some (Inr outcome)) rec)"
proof (cases outcome)
  case (Ingested i new)
  show ?thesis
  proof (cases "de_put_sample E")
    case (Some put_sample)
    show ?thesis
    proof (cases "build_sample (de_capture E) (de_capture_cfg E) (dm_source msg) (topic (dm_cursor msg))
          (partition (dm_cursor msg)) (offset (dm_cursor msg)) i (dm_payload msg) now")
      case (Some rec)
      then have "sample_of_attempt E (d, Some (Inr outcome)) rec"
        using assms Ingested
        by (auto simp: build_sample_def sample_of_attempt_def Let_def split: if_splits option.splits)
      moreover have "capture_sample E msg outcome now sm = storing E [rec] sm"
        using Some Ingested \<open>de_put_sample E = Some put_sample\<close> by (simp add: capture_sample_def storing_def)
      ultimately show ?thesis by (intro exI [of _ "[rec]"]) simp
    qed (use Ingested in \<open>auto simp: capture_sample_def intro!: exI [of _ "[]"] split: option.split\<close>)
  qed (use Ingested in \<open>auto simp: capture_sample_def intro!: exI [of _ "[]"]\<close>)
qed (auto simp: capture_sample_def intro!: exI [of _ "[]"] split: option.split)

lemma handle_stores:
  assumes "message_of E d = Some msg" "handle_discovery_msg E msg clk x = (r, w)"
  shows "\<exists>recs. snd w = storing E recs (snd x) \<and> (\<forall>rec\<in>set recs. sample_of_attempt E (d, Some r) rec)"
proof -
  have "\<exists>recs. snd x = storing E recs (snd x) \<and> (\<forall>rec\<in>set recs. sample_of_attempt E (d, Some r) rec)"
    by (intro exI [of _ "[]"]) simp
  then show ?thesis
    using assms(2) capture_stores [OF assms(1)]
    by (auto simp: handle_discovery_msg_def Let_def case_prod_beta split: sum.splits prod.splits)
qed

lemma advance_work [simp]: "c_work (advance_offset E d s) = c_work s"
  by (simp add: advance_offset_def Let_def)

lemma attempt_work [simp]: "c_work (attempt_message E d msg n clk s) = snd (handle_discovery_msg E msg clk (c_work s))"
  by (cases "handle_discovery_msg E msg clk (c_work s)")
    (auto simp: attempt_message_def split: sum.split handle_error.split)

lemma advance_phase [simp]: "c_phase (advance_offset E d s) = c_phase s"
  by (simp add: advance_offset_def Let_def)

lemma attempt_phase:
  "c_phase (attempt_message E d msg n clk s) \<in> {Receiving, BackingOff d msg (n + 1)}"
  by (cases "handle_discovery_msg E msg clk (c_work s)")
    (auto simp: attempt_message_def split: sum.split handle_error.split)

lemma step_phase_ok: "phase_ok E s \<Longrightarrow> phase_ok E (consumer_step E ev s)"
  using attempt_phase [of E _ _ _ _ s]
  by (cases ev; cases "c_phase s")
    (auto simp: phase_ok_def consumer_step_def split: option.split; metis consumer_phase.distinct(1) consumer_phase.inject(1))+

lemma step_stores:
  assumes "phase_ok E s"
  shows "\<exists>recs. snd (c_work (consumer_step E ev s)) = storing E recs (snd (c_work s)) \<and>
    (\<forall>rec\<in>set recs. \<exists>a\<in>set (attempt_of E ev s). sample_of_attempt E a rec)"
proof -
  have keep: "\<exists>recs. snd (c_work s) = storing E recs (snd (c_work s)) \<and> (\<forall>rec\<in>set recs. P rec)" for P
    by (intro exI [of _ "[]"]) simp
  have h: "\<exists>recs. snd (snd (handle_discovery_msg E msg clk (c_work s))) = storing E recs (snd (c_work s)) \<and>
      (\<forall>rec\<in>set recs. sample_of_attempt E (d, Some (fst (handle_discovery_msg E msg clk (c_work s)))) rec)"
    if "message_of E d = Some msg" for d msg clk
    using handle_stores [OF that, of clk "c_work s"] by (cases "handle_discovery_msg E msg clk (c_work s)") simp
  show ?thesis
    using assms h keep
    by (cases ev; cases "c_phase s") (auto simp: consumer_step_def attempt_of_def phase_ok_def split: option.split)
qed

lemma run_stores:
  assumes "phase_ok E s"
  shows "\<exists>recs. snd (c_work (run_consumer E evs s)) = storing E recs (snd (c_work s)) \<and>
    (\<forall>rec\<in>set recs. \<exists>a\<in>set (attempts E evs s). sample_of_attempt E a rec)"
  using assms
proof (induction evs arbitrary: s)
  case (Cons ev evs)
  obtain rs where rs: "snd (c_work (consumer_step E ev s)) = storing E rs (snd (c_work s))"
      "\<forall>rec\<in>set rs. \<exists>a\<in>set (attempt_of E ev s). sample_of_attempt E a rec"
    using step_stores [OF Cons.prems] by blast
  obtain rs' where rs': "snd (c_work (run_consumer E evs (consumer_step E ev s))) = storing E rs' (snd (c_work (consumer_step E ev s)))"
      "\<forall>rec\<in>set rs'. \<exists>a\<in>set (attempts E evs (consumer_step E ev s)). sample_of_attempt E a rec"
    using Cons.IH [OF step_phase_ok [OF Cons.prems]] by blast
  show ?case using rs rs' by (intro exI [of _ "rs @ rs'"]) (auto simp: storing_append)
qed (auto intro!: exI [of _ "[]"])


section \<open>Over the store in Redis\<close>

text \<open>What the attempts of a run reported as ingested, and the documents a log has as completed.\<close>

type_synonym ingested = "(candidate_id \<times> bytes \<times> node) list"

definition ingested_by :: "('st, 'l, 'sm, 'b) consumer_env \<Rightarrow> attempt \<Rightarrow> ingested" where
  "ingested_by E a =
     (case (message_of E (fst a), snd a) of
        (Some msg, Some (Inr (Ingested i new))) \<Rightarrow>
          (case parse_bounded (dm_payload msg) (de_limits E) of Inr nd \<Rightarrow> [(i, dm_source msg, nd)] | Inl _ \<Rightarrow> [])
      | _ \<Rightarrow> [])"

definition ingested_log :: "('st, 'l, 'sm, 'b) consumer_env \<Rightarrow> attempt list \<Rightarrow> ingested" where
  "ingested_log E as = concat (map (ingested_by E) as)"

definition completed :: "lane_log \<Rightarrow> ingested" where
  "completed hist = concat (map (\<lambda>ev. case ev of Counted i s nd c \<Rightarrow> if c then [(i, s, nd)] else [] | _ \<Rightarrow> []) hist)"

text \<open>The document an attempt is about.\<close>

definition reads_document :: "('st, 'l, 'sm, 'b) consumer_env \<Rightarrow> attempt \<Rightarrow> bytes \<Rightarrow> node \<Rightarrow> bool" where
  "reads_document E a s nd \<longleftrightarrow>
     (\<exists>msg. message_of E (fst a) = Some msg \<and> dm_source msg = s \<and> parse_bounded (dm_payload msg) (de_limits E) = Inr nd)"

text \<open>
  A log of the lane agrees with the attempts: its completed documents are those reported as
  ingested, in order, and one counted without success is of a failed attempt.
\<close>

definition log_agrees :: "('st, 'l, 'sm, 'b) consumer_env \<Rightarrow> lane_log \<Rightarrow> attempt list \<Rightarrow> bool" where
  "log_agrees E hist as \<longleftrightarrow> completed hist = ingested_log E as \<and>
     (\<forall>i s nd. Counted i s nd False \<in> set hist \<longrightarrow> (\<exists>a\<in>set as. ingest_failed a \<and> reads_document E a s nd))"

lemma log_agrees_append:
  "log_agrees E hist as \<Longrightarrow> log_agrees E hist' as' \<Longrightarrow> log_agrees E (hist @ hist') (as @ as')"
  unfolding log_agrees_def completed_def ingested_log_def by (simp add: bex_Un)

lemma log_agrees_Nil [simp]: "log_agrees E [] []"
  by (simp add: log_agrees_def completed_def ingested_log_def)

text \<open>A message as the relay emits it: its id is the one the matcher gives the shape.\<close>

definition relayed :: "('st, 'l, 'sm, 'b) consumer_env \<Rightarrow> discovery_msg \<Rightarrow> bool" where
  "relayed E msg \<longleftrightarrow>
     (\<forall>nd. parse_bounded (dm_payload msg) (de_limits E) = Inr nd \<longrightarrow>
        dm_cand_id msg = candidate_str (observed_id (le_digests (de_lane E)) (dm_source msg) nd))"

definition candidate_moved :: "'st evidence_store \<Rightarrow> 'st \<Rightarrow> 'st \<Rightarrow> bool" where
  "candidate_moved ES st st' \<longleftrightarrow>
     (\<exists>i rec s res. ev_get_candidate ES i st = Inr (Some rec) \<and> cand_state rec \<noteq> RejectedState \<and>
        ev_set_state ES i s st = (res, st'))"

text \<open>
  Messages come from the relay; meanwhile others move candidates between states, and what \<open>X\<close>
  allows happens outside.
\<close>

definition event_ok ::
  "('st, 'l, 'sm, 'b) consumer_env \<Rightarrow> (expiry option \<Rightarrow> 'st \<Rightarrow> 'st \<Rightarrow> bool) \<Rightarrow> 'st consumer_event \<Rightarrow>
     ('st, 'l, 'sm, 'b) consumer \<Rightarrow> bool" where
  "event_ok E X ev s \<longleftrightarrow>
     (case ev of
        Delivered d clk \<Rightarrow> (case message_of E d of None \<Rightarrow> True | Some msg \<Rightarrow> relayed E msg)
      | StoreChanged st \<Rightarrow> candidate_moved (le_store (de_lane E)) (l_store (fst (c_work s))) st \<or>
          (\<exists>t. X t (l_store (fst (c_work s))) st)
      | _ \<Rightarrow> True)"

fun events_ok ::
  "('st, 'l, 'sm, 'b) consumer_env \<Rightarrow> (expiry option \<Rightarrow> 'st \<Rightarrow> 'st \<Rightarrow> bool) \<Rightarrow> 'st consumer_event list \<Rightarrow>
     ('st, 'l, 'sm, 'b) consumer \<Rightarrow> bool" where
  "events_ok E X [] s \<longleftrightarrow> True"
| "events_ok E X (ev # evs) s \<longleftrightarrow> event_ok E X ev s \<and> events_ok E X evs (consumer_step E ev s)"

text \<open>The message that a back-off holds was delivered by the relay.\<close>

definition holds_relayed :: "('st, 'l, 'sm, 'b) consumer_env \<Rightarrow> ('st, 'l, 'sm, 'b) consumer \<Rightarrow> bool" where
  "holds_relayed E s \<longleftrightarrow>
     (\<forall>d msg n. c_phase s = BackingOff d msg n \<longrightarrow> message_of E d = Some msg \<and> relayed E msg)"

definition never_fails :: "attempt list \<Rightarrow> bool" where
  "never_fails as \<longleftrightarrow> list_all (\<lambda>a. \<not> ingest_failed a) as"

lemma taken_attempts: "held s = [] \<Longrightarrow> map fst (attempt_of E ev s) = taken_of ev s"
  by (cases ev; cases "c_phase s") (simp_all add: attempt_of_def taken_of_def held_def)

lemma never_fails_settled: "never_fails as \<Longrightarrow> settled_deliveries as = map fst as"
  by (simp add: never_fails_def settled_deliveries_def list_all_iff filter_id_conv)

context redis_lane
begin

abbreviation "meanwhile \<equiv> surroundings view K"

lemma relayed_ingest:
  assumes ok: "lane.run_ok (L, hist)" and Y: "de_lane Y = E" "de_base32_dec Y = base32_dec K"
    and msg: "message_of Y d = Some msg" "relayed Y msg"
    and h: "handle_discovery_msg Y msg clk (L, sm) = (r, L', sm')"
  shows "\<exists>new. lane_run E meanwhile (L, hist) (L', hist @ new) \<and> log_agrees Y new [(d, Some r)]"
    and "always_answers R \<Longrightarrow> \<not> ingest_failed (d, Some r)"
proof -
  have "(\<exists>new. lane_run E meanwhile (L, hist) (L', hist @ new) \<and> log_agrees Y new [(d, Some r)]) \<and>
      (always_answers R \<longrightarrow> \<not> ingest_failed (d, Some r))"
  proof (cases "parse_bounded (dm_payload msg) (de_limits Y)")
    case (Inl e)
    then show ?thesis
      using h msg by (auto simp: handle_discovery_msg_def ingest_failed_def log_agrees_def completed_def
          ingested_log_def ingested_by_def intro!: exI [of _ "[]"])
  next
    case parsed: (Inr nd)
    let ?i = "observed_id (le_digests E) (dm_source msg) nd"
    let ?meta = "\<lparr> sm_source = dm_source msg, sm_cursor = Some (dm_cursor msg) \<rparr>"
    have v: "candidate_valid (base32_dec K) ?i" by (rule lane.observed_valid)
    have p: "candidate_id_parse (de_base32_dec Y) (dm_cand_id msg) = Inr ?i"
      using msg(2) parsed v Y by (simp add: relayed_def candidate_valid_def)
    obtain res L1 where i: "ingest E ?i nd ?meta (fst clk) L = (res, L1)" by fastforce
    have r: "L' = L1" "r = (case res of Inl e \<Rightarrow> Inl (IngestFailed e) | Inr outcome \<Rightarrow> Inr outcome)"
      using h parsed p i Y by (auto simp: handle_discovery_msg_def split: sum.splits)
    define new where "new = counted_by E ?i (dm_source msg) nd L (res, L1)"
    have run: "lane_run E meanwhile (L, hist) (L', hist @ new)"
      using lane_ingest [of E ?meta nd "fst clk" L res L1 meanwhile hist] i
      by (intro lane_run_step) (simp add: r new_def)
    have rd: "reads_document Y (d, Some r) (dm_source msg) nd"
      using msg(1) parsed by (simp add: reads_document_def)
    have ing: "ingested_by Y (d, Some r) = (case res of Inr (Ingested j n) \<Rightarrow> [(j, dm_source msg, nd)] | _ \<Rightarrow> [])"
      using msg(1) parsed r(2) by (auto simp: ingested_by_def split: sum.split ingest_outcome.split)
    have agrees: "log_agrees Y new [(d, Some r)]"
      using ok v i
    proof (cases rule: lane.run_ingest_cases)
      case kept
      then show ?thesis using ing by (auto simp: log_agrees_def completed_def ingested_log_def new_def)
    next
      case (counted j q w gs)
      show ?thesis
      proof (cases res)
        case (Inl e)
        then show ?thesis using counted(2) rd ing r(2)
          by (auto simp: log_agrees_def completed_def ingested_log_def new_def ingest_failed_def)
      next
        case (Inr outcome)
        then show ?thesis using counted(2,11) ing
          by (auto simp: log_agrees_def completed_def ingested_log_def new_def)
      qed
    qed
    have "\<not> ingest_failed (d, Some r)" if "always_answers R"
    proof -
      note o = lane.run_okD [OF ok]
      have prof: "\<exists>p. le_from_value E (cand_profile rec) = Some p \<and> profile_wf p"
        if "stored_candidate R C (l_store L) (target_candidate (stored_cluster R (base32_dec K) (l_store L))
          (cluster_names (le_digests E) (sm_source ?meta) nd) ?i) = Some rec" for rec
        using lane.tracked_profile [OF o(2) that] .
      have "\<exists>outcome. res = Inr outcome" using lane.ingest_contract [OF o(1) v prof i] that by blast
      then show ?thesis using r(2) by (auto simp: ingest_failed_def)
    qed
    then show ?thesis using run agrees by blast
  qed
  then show "\<exists>new. lane_run E meanwhile (L, hist) (L', hist @ new) \<and> log_agrees Y new [(d, Some r)]"
    "always_answers R \<Longrightarrow> \<not> ingest_failed (d, Some r)" by blast+
qed

lemma relayed_attempt:
  assumes ok: "lane.run_ok (fst (c_work s), hist)" and Y: "de_lane Y = E" "de_base32_dec Y = base32_dec K"
    and msg: "message_of Y d = Some msg" "relayed Y msg"
    and a: "a = [(d, Some (fst (handle_discovery_msg Y msg clk (c_work s))))]"
  shows "(\<exists>new. lane_run E meanwhile (fst (c_work s), hist) (fst (c_work (attempt_message Y d msg n clk s)), hist @ new) \<and>
      log_agrees Y new a) \<and> holds_relayed Y (attempt_message Y d msg n clk s) \<and>
    (always_answers R \<longrightarrow> never_fails a \<and> held (attempt_message Y d msg n clk s) = [])"
proof -
  obtain L sm where w: "c_work s = (L, sm)" by fastforce
  obtain r L' sm' where h: "handle_discovery_msg Y msg clk (L, sm) = (r, L', sm')" by (metis prod_cases3)
  have ok': "lane.run_ok (L, hist)" using ok w by simp
  note c = relayed_ingest [OF ok' Y msg h]
  have "c_phase (attempt_message Y d msg n clk s) = Receiving" if "\<not> ingest_failed (d, Some r)"
    using that w h by (auto simp: attempt_message_def ingest_failed_def split: sum.splits handle_error.splits)
  moreover have "holds_relayed Y (attempt_message Y d msg n clk s)"
    using attempt_phase [of Y d msg n clk s] msg by (auto simp: holds_relayed_def)
  ultimately show ?thesis using c w h by (auto simp: a never_fails_def held_def)
qed

lemma relayed_step:
  assumes ok: "lane.run_ok (fst (c_work s), hist)" and Y: "de_lane Y = E" "de_base32_dec Y = base32_dec K"
    and hold: "holds_relayed Y s" and ev: "event_ok Y meanwhile ev s"
  shows "(\<exists>new. lane_run E meanwhile (fst (c_work s), hist) (fst (c_work (consumer_step Y ev s)), hist @ new) \<and>
      log_agrees Y new (attempt_of Y ev s)) \<and> holds_relayed Y (consumer_step Y ev s) \<and>
    (always_answers R \<longrightarrow> held s = [] \<longrightarrow> never_fails (attempt_of Y ev s) \<and> held (consumer_step Y ev s) = [])"
proof -
  have idle: ?thesis
    if "consumer_step Y ev s = s'" "attempt_of Y ev s = as" "c_work s' = c_work s" "log_agrees Y [] as"
      "never_fails as" "holds_relayed Y s'" "held s = [] \<longrightarrow> held s' = []" for s' as
    using that by (intro conjI exI [of _ "[]"]) simp_all
  have nf: "never_fails []" "never_fails [(d, None)]" "log_agrees Y [] [(d, None)]" for d
    by (simp_all add: never_fails_def ingest_failed_def log_agrees_def completed_def ingested_log_def ingested_by_def
        split: option.split)
  show ?thesis
  proof (cases ev)
    case (Delivered d clk)
    show ?thesis
    proof (cases "c_phase s = Receiving")
      case True
      show ?thesis
      proof (cases "message_of Y d")
        case None
        then show ?thesis
          by (intro idle [OF refl refl]) (use True Delivered nf in
            \<open>simp_all add: attempt_of_def consumer_step_def held_def holds_relayed_def\<close>)
      next
        case (Some msg)
        have rel: "relayed Y msg" using ev Delivered Some by (simp add: event_ok_def)
        have e: "consumer_step Y ev s = attempt_message Y d msg 0 clk s"
          "attempt_of Y ev s = [(d, Some (fst (handle_discovery_msg Y msg clk (c_work s))))]"
          using True Some Delivered by (simp_all add: consumer_step_def attempt_of_def)
        show ?thesis unfolding e(1) using relayed_attempt [OF ok Y Some rel e(2)] by blast
      qed
    next
      case False
      then show ?thesis
        by (intro idle [OF refl refl]; cases "c_phase s") (use Delivered nf hold in
          \<open>simp_all add: attempt_of_def consumer_step_def\<close>)
    qed
  next
    case (Elapsed clk)
    show ?thesis
    proof (cases "c_phase s")
      case (BackingOff d msg n)
      then have m: "message_of Y d = Some msg" "relayed Y msg" using hold by (simp_all add: holds_relayed_def)
      have e: "consumer_step Y ev s = attempt_message Y d msg n clk s"
        "attempt_of Y ev s = [(d, Some (fst (handle_discovery_msg Y msg clk (c_work s))))]"
        using BackingOff Elapsed by (simp_all add: consumer_step_def attempt_of_def)
      show ?thesis unfolding e(1) using relayed_attempt [OF ok Y m e(2)] by blast
    qed (intro idle [OF refl refl]; use Elapsed nf hold in \<open>simp_all add: attempt_of_def consumer_step_def\<close>)+
  next
    case (StoreChanged st)
    have at: "attempt_of Y ev s = []" "fst (c_work (consumer_step Y ev s)) = (fst (c_work s))\<lparr> l_store := st \<rparr>"
      "holds_relayed Y (consumer_step Y ev s)" "held (consumer_step Y ev s) = held s"
      using StoreChanged hold by (simp_all add: attempt_of_def consumer_step_def holds_relayed_def held_def)
    have "\<exists>new. lane_step E meanwhile (fst (c_work s), hist) ((fst (c_work s))\<lparr> l_store := st \<rparr>, hist @ [new]) \<and>
        (\<forall>i t nd c. new \<noteq> Counted i t nd c)"
    proof -
      from ev StoreChanged Y consider
          i rec m res where "ev_get_candidate (le_store E) i (l_store (fst (c_work s))) = Inr (Some rec)"
            "cand_state rec \<noteq> RejectedState" "ev_set_state (le_store E) i m (l_store (fst (c_work s))) = (res, st)"
        | t where "meanwhile t (l_store (fst (c_work s))) st"
        by (auto simp: event_ok_def candidate_moved_def)
      then show ?thesis
      proof cases
        case 1
        from lane_move [of E, OF this, of meanwhile hist] show ?thesis by blast
      next
        case 2
        have "outside_event t \<noteq> Counted i u nd c" for i u nd c by (cases t) (simp_all add: outside_event_def)
        then show ?thesis using lane_outside [of meanwhile t "fst (c_work s)" st E hist, OF 2] by blast
      qed
    qed
    then obtain new where n: "lane_step E meanwhile (fst (c_work s), hist) ((fst (c_work s))\<lparr> l_store := st \<rparr>, hist @ [new])"
      "\<forall>i t nd c. new \<noteq> Counted i t nd c" by blast
    have "log_agrees Y [new] []"
      using n(2) by (cases new) (auto simp: log_agrees_def completed_def ingested_log_def)
    then show ?thesis using at n(1) nf by (auto intro: lane_run_step)
  qed (intro idle [OF refl refl]; use hold nf in \<open>cases "c_phase s"; simp add: attempt_of_def consumer_step_def
        held_def holds_relayed_def\<close>)+
qed

lemma relayed_run:
  assumes "lane.run_ok (fst (c_work s), hist)" and Y: "de_lane Y = E" "de_base32_dec Y = base32_dec K"
    and "holds_relayed Y s" "events_ok Y meanwhile evs s"
  shows "(\<exists>new. lane_run E meanwhile (fst (c_work s), hist) (fst (c_work (run_consumer Y evs s)), hist @ new) \<and>
      log_agrees Y new (attempts Y evs s)) \<and>
    (always_answers R \<longrightarrow> held s = [] \<longrightarrow> never_fails (attempts Y evs s) \<and> map fst (attempts Y evs s) = taken Y evs s)"
  using assms(1,4,5)
proof (induction evs arbitrary: s hist)
  case Nil
  then show ?case by (auto simp: never_fails_def intro!: exI [of _ "[]"])
next
  case (Cons ev evs)
  let ?s = "consumer_step Y ev s"
  have ev: "event_ok Y meanwhile ev s" "events_ok Y meanwhile evs ?s" using Cons.prems(3) by simp_all
  note st = relayed_step [OF Cons.prems(1) Y Cons.prems(2) ev(1)]
  then obtain new where new: "lane_run E meanwhile (fst (c_work s), hist) (fst (c_work ?s), hist @ new)"
    "log_agrees Y new (attempt_of Y ev s)" by blast
  have ok: "lane.run_ok (fst (c_work ?s), hist @ new)"
    by (rule lane.run_ok_run [OF new(1) Cons.prems(1)]) (rule surroundings_outside)
  note ih = Cons.IH [OF ok _ ev(2)]
  obtain more where more: "lane_run E meanwhile (fst (c_work ?s), hist @ new) (fst (c_work (run_consumer Y evs ?s)), (hist @ new) @ more)"
    "log_agrees Y more (attempts Y evs ?s)" using ih st by blast
  have "lane_run E meanwhile (fst (c_work s), hist) (fst (c_work (run_consumer Y (ev # evs) s)), hist @ (new @ more))"
    using lane_run_trans [OF new(1) more(1)] by simp
  moreover have "log_agrees Y (new @ more) (attempts Y (ev # evs) s)"
    using log_agrees_append [OF new(2) more(2)] by simp
  moreover have "always_answers R \<longrightarrow> held s = [] \<longrightarrow> never_fails (attempts Y (ev # evs) s) \<and>
      map fst (attempts Y (ev # evs) s) = taken Y (ev # evs) s"
    using ih st taken_attempts [of s Y ev] by (auto simp: never_fails_def)
  ultimately show ?case by blast
qed

end

end
