(* ===== verification/Discovery_Properties.thy ===== *)
theory Discovery_Properties
  imports Discovery_Facts Lane_Demo Fingerprint_Properties
begin

text \<open>
  The properties of the discovery consumer: offsets move only past messages that were handled,
  samples are redacted, and with the store in Redis the candidates are the merges of the
  documents that were read from the topic.
\<close>

section \<open>A consumer in memory\<close>












section \<open>Properties\<close>

text \<open>C28: For any order of messages, failures, back-offs and cancellation, the offsets committed and
  pending are exactly those behind the messages that were settled, in their order, and each message
  taken is settled, with at most one still held by a back-off or given up on return; a return on
  cancellation has committed all settled ones.\<close>

theorem offsets_follow_handling:
  "let s = consumer_start L sm b; as = attempts E evs s; s' = run_consumer E evs s in
     since_commit s' < commit_every \<and>
     (\<exists>cs. c_broker s' = committing E cs b \<and>
       (if c_phase s' = Returned (Inr ()) then concat cs = map next_offset (settled_deliveries as)
        else concat cs @ pending_offsets s' = map next_offset (settled_deliveries as))) \<and>
     (case c_phase s' of
        Receiving \<Rightarrow> taken E evs s = settled_deliveries as
      | BackingOff d msg n \<Rightarrow> taken E evs s = settled_deliveries as @ [d]
      | Returned r \<Rightarrow> \<exists>held. length held \<le> 1 \<and> taken E evs s = settled_deliveries as @ held)"
proof -
  let ?s = "consumer_start L sm b"
  have "offsets_kept E b [] ?s" "taken_ok [] [] ?s"
    by (auto simp: offsets_kept_def consumer_start_def commit_every_def committing_def taken_ok_def
        intro!: exI [of _ "[]"])
  from run_keeps [OF this, of evs] show ?thesis
    unfolding Let_def offsets_kept_def taken_ok_def
    by (cases "c_phase (run_consumer E evs ?s)") (auto intro: exI [of _ "[]"] exI [of _ "[_]"])
qed

text \<open>C30: Every sample the consumer stores is of a message it ingested, from a source for which capture
  is enabled and of bounded size; its document is the redaction of the payload, which was not
  dropped, and is free of what the detectors find.\<close>

theorem captured_samples_redacted:
  "\<exists>recs. snd (c_work (run_consumer E evs (consumer_start L sm b))) = storing E recs sm \<and>
     list_all (\<lambda>rec. redacted_ok (cp_detectors (de_capture E)) (sr_document rec) \<and>
       list_ex (\<lambda>a. sample_of_attempt E a rec) (attempts E evs (consumer_start L sm b))) recs"
proof -
  let ?s = "consumer_start L sm b"
  have "phase_ok E ?s" by (simp add: phase_ok_def consumer_start_def)
  from run_stores [OF this, of evs] obtain recs where
    r: "snd (c_work (run_consumer E evs ?s)) = storing E recs sm"
    "\<forall>rec\<in>set recs. \<exists>a\<in>set (attempts E evs ?s). sample_of_attempt E a rec"
    by (auto simp: consumer_start_def)
  have "redacted_ok (cp_detectors (de_capture E)) (sr_document rec)" if "sample_of_attempt E a rec" for a rec
    using that by (auto simp: sample_of_attempt_def redact_def case_prod_beta Let_def redact_ok_all)
  then show ?thesis using r by (intro exI [of _ recs]) (auto simp: list_all_iff list_ex_iff)
qed



end
