(* ===== verification/Umbrella.thy ===== *)
theory Umbrella
  imports Complex_Main Records BTree "HOL-Library.Sublist"
begin

text \<open>
  Umbrella schemas (\<open>deblob-umbrella\<close>): the transform language (\<open>types.rs\<close>), paths (\<open>path.rs\<close>),
  unit conversions (\<open>units.rs\<close>), the executor (\<open>executor.rs\<close>) and the verifier (\<open>verify.rs\<close>).
  Floating point is the argument \<open>'f f64\<close>: reading a number's text, literals, product, sum, and
  \<open>Value::from\<close>. Messages are kept as the data they are formatted from.
\<close>

section \<open>Types\<close>

datatype scalar_type = TyBool | TyInteger | TyDecimal | TyString

definition widens_losslessly_to :: "scalar_type \<Rightarrow> scalar_type \<Rightarrow> bool" where
  "widens_losslessly_to from to \<longleftrightarrow> from = to \<or> from = TyInteger \<and> to = TyDecimal"

datatype field_type = FtScalar scalar_type | FtArray field_type

datatype cardinality = CardRequired | CardOptional

type_synonym json_path = "bytes list"

text \<open>\<open>str::split\<close> on one character.\<close>

fun split_on :: "u8 \<Rightarrow> bytes \<Rightarrow> bytes list" where
  "split_on sep [] = [[]]"
| "split_on sep (c # s) =
     (if c = sep then [] # split_on sep s
      else (case split_on sep s of [] \<Rightarrow> [[c]] | seg # segs \<Rightarrow> (c # seg) # segs))"

definition json_path_parse :: "bytes \<Rightarrow> bytes + json_path" where
  "json_path_parse s =
     (case strip_prefix ''$.'' s of
        None \<Rightarrow> Inl s
      | Some rest \<Rightarrow>
          if rest = [] then Inl s
          else (let segs = split_on (CHR ''.'') rest in if list_ex (\<lambda>k. k = []) segs then Inl s else Inr segs))"

definition json_path_text :: "json_path \<Rightarrow> bytes" where
  "json_path_text p = ''$'' @ concat (map (\<lambda>seg. CHR ''.'' # seg) p)"

record umbrella_field =
  uf_canonical_field_id :: bytes
  uf_path :: json_path
  uf_name :: bytes
  uf_ty :: field_type
  uf_unit :: "unit_code option"
  uf_cardinality :: cardinality

record umbrella_schema =
  um_umbrella_id :: bytes
  um_label :: bytes
  um_version :: u32
  um_fields :: "umbrella_field list"

definition umbrella_field_at :: "umbrella_schema \<Rightarrow> json_path \<Rightarrow> umbrella_field option" where
  "umbrella_field_at um p = List.find (\<lambda>f. uf_path f = p) (um_fields um)"

datatype op =
    OpCast scalar_type
  | OpUnitConvert unit_code unit_code bytes
  | OpDefault json bool
  | OpArrayMap "op list"

datatype on_missing = OmitMissing | RejectMissing | UseDefault

record binding =
  bd_source :: json_path
  bd_target :: json_path
  bd_ops :: "op list"
  bd_on_missing :: on_missing

record child_transform =
  ct_child_schema_id :: bytes
  ct_umbrella_id :: bytes
  ct_child_revision :: bytes
  ct_umbrella_revision :: bytes
  ct_bindings :: "binding list"
  ct_unmapped_source_paths :: "json_path list"

datatype relation =
    ExactEquivalent | SameQuantityDifferentUnit | NarrowerThan | BroaderThan | RelatedTo | DisjointFrom | UnknownRelation

definition auto_bindable :: "relation \<Rightarrow> bool" where
  "auto_bindable r \<longleftrightarrow> r \<in> {ExactEquivalent, SameQuantityDifferentUnit}"

section \<open>Paths\<close>

fun path_get :: "json \<Rightarrow> json_path \<Rightarrow> json option" where
  "path_get j [] = Some j"
| "path_get j (seg # p) =
     (case j of JObject m \<Rightarrow> (case map_of m seg of Some v \<Rightarrow> path_get v p | None \<Rightarrow> None) | _ \<Rightarrow> None)"

definition path_exists :: "json \<Rightarrow> json_path \<Rightarrow> bool" where
  "path_exists j p \<longleftrightarrow> path_get j p \<noteq> None"

definition is_object :: "json \<Rightarrow> bool" where
  "is_object v \<longleftrightarrow> as_object v \<noteq> None"

text \<open>The error is the segment that is no object.\<close>

fun path_set_in :: "json \<Rightarrow> json_path \<Rightarrow> json \<Rightarrow> bytes + json" where
  "path_set_in cur [] v = Inr cur"
| "path_set_in cur (seg # p) v =
     (case as_object cur of
        None \<Rightarrow> Inl seg
      | Some m \<Rightarrow>
          if p = [] then Inr (JObject (bt_insert seg v m))
          else
            (let next = (case map_of m seg of Some c \<Rightarrow> c | None \<Rightarrow> JObject [])
             in if \<not> is_object next then Inl seg
                else map_sum id (\<lambda>c. JObject (bt_insert seg c m)) (path_set_in next p v)))"

definition path_set :: "json \<Rightarrow> json_path \<Rightarrow> json \<Rightarrow> bytes + json" where
  "path_set j p v = path_set_in (if j = JNull then JObject [] else j) p v"

section \<open>Units\<close>

datatype dimension =
  Temperature | Pressure | Power | Energy | TimeDim | LengthDim | Dimensionless | Currency

record conversion_rule =
  rule_id :: bytes
  from_code :: bytes
  to_code :: bytes
  factor :: rat
  rule_offset :: rat

datatype unit_error =
    UnknownCode bytes
  | UnknownRule bytes
  | RuleMismatch bytes bytes bytes
  | DimensionMismatch bytes dimension bytes dimension
  | CurrencyNotConvertible bytes bytes

definition dimensions :: "(bytes \<times> dimension) list" where
  "dimensions =
     [(''Cel'', Temperature), (''K'', Temperature), (''[degF]'', Temperature),
      (''Pa'', Pressure), (''hPa'', Pressure), (''kPa'', Pressure), (''bar'', Pressure),
      (''W'', Power), (''kW'', Power), (''MW'', Power), (''GW'', Power),
      (''J'', Energy), (''kW.h'', Energy), (''MW.h'', Energy),
      (''s'', TimeDim), (''min'', TimeDim), (''h'', TimeDim),
      (''m'', LengthDim), (''km'', LengthDim),
      (''1'', Dimensionless), (''%'', Dimensionless)]"

definition conversion :: "bytes \<Rightarrow> bytes \<Rightarrow> bytes \<Rightarrow> rat \<Rightarrow> rat \<Rightarrow> conversion_rule" where
  "conversion i f t k d = \<lparr> rule_id = i, from_code = f, to_code = t, factor = k, rule_offset = d \<rparr>"

definition rules :: "conversion_rule list" where
  "rules =
     [conversion ''ucum:Cel->K'' ''Cel'' ''K'' 1 (27315 / 100),
      conversion ''ucum:K->Cel'' ''K'' ''Cel'' 1 (- 27315 / 100),
      conversion ''ucum:hPa->Pa'' ''hPa'' ''Pa'' 100 0,
      conversion ''ucum:Pa->hPa'' ''Pa'' ''hPa'' (1 / 100) 0,
      conversion ''ucum:kPa->Pa'' ''kPa'' ''Pa'' 1000 0,
      conversion ''ucum:kW->W'' ''kW'' ''W'' 1000 0,
      conversion ''ucum:MW->W'' ''MW'' ''W'' 1000000 0,
      conversion ''ucum:GW->W'' ''GW'' ''W'' 1000000000 0,
      conversion ''ucum:W->kW'' ''W'' ''kW'' (1 / 1000) 0,
      conversion ''ucum:W->MW'' ''W'' ''MW'' (1 / 1000000) 0,
      conversion ''ucum:km->m'' ''km'' ''m'' 1000 0,
      conversion ''ucum:m->km'' ''m'' ''km'' (1 / 1000) 0,
      conversion ''ucum:h->s'' ''h'' ''s'' 3600 0,
      conversion ''ucum:min->s'' ''min'' ''s'' 60 0]"

definition dimension_of :: "unit_code \<Rightarrow> dimension option" where
  "dimension_of u =
     (case system u of
        Iso4217 \<Rightarrow> Some Currency
      | _ \<Rightarrow> map_option snd (List.find (\<lambda>(c, _). c = code u) dimensions))"

definition same_dimension :: "unit_code \<Rightarrow> unit_code \<Rightarrow> bool" where
  "same_dimension from to \<longleftrightarrow>
     (case (dimension_of from, dimension_of to) of (Some a, Some b) \<Rightarrow> a = b | _ \<Rightarrow> False)"

definition rule_of :: "bytes \<Rightarrow> conversion_rule option" where
  "rule_of i = List.find (\<lambda>r. rule_id r = i) rules"

definition find_rule :: "unit_code \<Rightarrow> unit_code \<Rightarrow> conversion_rule option" where
  "find_rule from to = List.find (\<lambda>r. from_code r = code from \<and> to_code r = code to) rules"

definition verify_conversion :: "unit_code \<Rightarrow> unit_code \<Rightarrow> bytes \<Rightarrow> unit_error + unit" where
  "verify_conversion from to i =
     (if system from = Iso4217 \<or> system to = Iso4217 then
        (if from = to then Inr () else Inl (CurrencyNotConvertible (code from) (code to)))
      else
        result_bind (ok_or (UnknownCode (code from)) (dimension_of from)) (\<lambda>from_dim.
          result_bind (ok_or (UnknownCode (code to)) (dimension_of to)) (\<lambda>to_dim.
            if from_dim \<noteq> to_dim then Inl (DimensionMismatch (code from) from_dim (code to) to_dim)
            else
              result_bind (ok_or (UnknownRule i) (rule_of i)) (\<lambda>r.
                if from_code r \<noteq> code from \<or> to_code r \<noteq> code to then Inl (RuleMismatch i (code from) (code to))
                else Inr ()))))"

text \<open>The floating point operations of the executor; \<open>f_read\<close> is \<open>as_f64\<close>, \<open>f_value\<close> is \<open>Value::from\<close>.\<close>

record 'f f64 =
  f_read :: "bytes \<Rightarrow> 'f option"
  f_is_finite :: "'f \<Rightarrow> bool"
  f_lit :: "rat \<Rightarrow> 'f"
  f_times :: "'f \<Rightarrow> 'f \<Rightarrow> 'f"
  f_plus :: "'f \<Rightarrow> 'f \<Rightarrow> 'f"
  f_value :: "'f \<Rightarrow> json"

definition convert :: "'f f64 \<Rightarrow> 'f \<Rightarrow> bytes \<Rightarrow> unit_error + 'f" where
  "convert F x i =
     map_sum id (\<lambda>r. f_plus F (f_times F x (f_lit F (factor r))) (f_lit F (rule_offset r)))
       (ok_or (UnknownRule i) (rule_of i))"

section \<open>The executor\<close>

datatype exec_error =
    MissingSource bytes
  | NoDefault bytes
  | CastFailed scalar_type
  | UnitConvertNonNumber bytes
  | ArrayMapNonArray bytes
  | UnitFailed unit_error
  | SetFailed bytes
  | NonFiniteNumber bytes

text \<open>A number's text parses as \<open>i64\<close> or \<open>u64\<close>.\<close>

definition is_integer_text :: "bytes \<Rightarrow> bool" where
  "is_integer_text n \<longleftrightarrow> (case dec_int n of Some i \<Rightarrow> - (2 ^ 63) \<le> i \<and> i < 2 ^ 64 | None \<Rightarrow> False)"

definition value_scalar_type :: "json \<Rightarrow> scalar_type option" where
  "value_scalar_type v =
     (case v of
        JBool _ \<Rightarrow> Some TyBool
      | JString _ \<Rightarrow> Some TyString
      | JNumber n \<Rightarrow> Some (if is_integer_text n then TyInteger else TyDecimal)
      | _ \<Rightarrow> None)"

fun collect_results :: "('a \<Rightarrow> 'e + 'b) \<Rightarrow> 'a list \<Rightarrow> 'e + 'b list" where
  "collect_results f [] = Inr []"
| "collect_results f (x # xs) = result_bind (f x) (\<lambda>y. result_bind (collect_results f xs) (\<lambda>ys. Inr (y # ys)))"

definition as_f64 :: "'f f64 \<Rightarrow> json \<Rightarrow> 'f option" where
  "as_f64 F v = (case v of JNumber n \<Rightarrow> f_read F n | _ \<Rightarrow> None)"

definition apply_cast :: "scalar_type \<Rightarrow> json \<Rightarrow> exec_error + json" where
  "apply_cast to v =
     result_bind (ok_or (CastFailed to) (value_scalar_type v)) (\<lambda>vt.
       if widens_losslessly_to vt to then Inr v else Inl (CastFailed to))"

definition apply_unit_convert :: "'f f64 \<Rightarrow> bytes \<Rightarrow> bytes \<Rightarrow> json \<Rightarrow> exec_error + json" where
  "apply_unit_convert F i src_path v =
     result_bind (ok_or (UnitConvertNonNumber src_path) (as_f64 F v)) (\<lambda>n.
       if \<not> f_is_finite F n then Inl (NonFiniteNumber src_path)
       else map_sum UnitFailed (f_value F) (convert F n i))"

fun apply_ops :: "'f f64 \<Rightarrow> json \<Rightarrow> op list \<Rightarrow> bytes \<Rightarrow> exec_error + json" where
  "apply_ops F v [] src_path = Inr v"
| "apply_ops F v (OpCast to # ops) src_path =
     result_bind (apply_cast to v) (\<lambda>w. apply_ops F w ops src_path)"
| "apply_ops F v (OpUnitConvert from to i # ops) src_path =
     result_bind (apply_unit_convert F i src_path v) (\<lambda>w. apply_ops F w ops src_path)"
| "apply_ops F v (OpDefault d synthetic # ops) src_path = apply_ops F v ops src_path"
| "apply_ops F v (OpArrayMap element_ops # ops) src_path =
     result_bind (ok_or (ArrayMapNonArray src_path) (as_array v)) (\<lambda>arr.
       result_bind (collect_results (\<lambda>el. apply_ops F el element_ops src_path) arr) (\<lambda>mapped.
         apply_ops F (JArray mapped) ops src_path))"

definition default_value :: "binding \<Rightarrow> json option" where
  "default_value b =
     (case List.find (\<lambda>op. case op of OpDefault _ _ \<Rightarrow> True | _ \<Rightarrow> False) (bd_ops b) of
        Some (OpDefault v _) \<Rightarrow> Some v | _ \<Rightarrow> None)"

fun apply_bindings :: "'f f64 \<Rightarrow> json \<Rightarrow> binding list \<Rightarrow> json \<Rightarrow> exec_error + json" where
  "apply_bindings F event [] out = Inr out"
| "apply_bindings F event (b # bs) out =
     (let src_path = json_path_text (bd_source b)
      in case path_get event (bd_source b) of
           Some v \<Rightarrow>
             result_bind (apply_ops F v (bd_ops b) src_path) (\<lambda>mapped.
               result_bind (result_map_err SetFailed (path_set out (bd_target b) mapped)) (\<lambda>out1.
                 apply_bindings F event bs out1))
         | None \<Rightarrow>
             (case bd_on_missing b of
                OmitMissing \<Rightarrow> apply_bindings F event bs out
              | RejectMissing \<Rightarrow> Inl (MissingSource src_path)
              | UseDefault \<Rightarrow>
                  result_bind (ok_or (NoDefault src_path) (default_value b)) (\<lambda>d.
                    result_bind (result_map_err SetFailed (path_set out (bd_target b) d)) (\<lambda>out1.
                      apply_bindings F event bs out1))))"

definition apply_transform :: "'f f64 \<Rightarrow> child_transform \<Rightarrow> json \<Rightarrow> exec_error + json" where
  "apply_transform F transform event = apply_bindings F event (ct_bindings transform) (JObject [])"

end
