(* ===== verification/Umbrella_Verify.thy ===== *)
theory Umbrella_Verify
  imports Umbrella "HOL-Library.Product_Lexorder"
begin

text \<open>
  Verification and assembly of transforms (\<open>deblob-umbrella/src/verify.rs\<close>, \<open>adjudicate.rs\<close>) and the
  in-memory store of umbrellas (\<open>store.rs\<close>). An issue keeps the data of its message; the texts of a
  unit issue are the constructors of \<open>unit_reason\<close>.
\<close>

section \<open>Static verification\<close>

record child_field =
  cf_path :: json_path
  cf_ty :: scalar_type
  cf_unit :: "unit_code option"
  cf_is_array :: bool
  cf_canonical_field_id :: "bytes option"

datatype unit_reason =
    ChildUnitDiffers "unit_code option" unit_code
  | ConversionRefused unit_error
  | FinalUnitDiffers "unit_code option" "unit_code option"

datatype verify_issue =
    SourceMissing bytes
  | UnknownTarget bytes
  | DuplicateTarget bytes
  | RequiredNotTotal bytes
  | OmitOnRequired bytes
  | LossyCast bytes scalar_type scalar_type
  | TypeMismatch bytes scalar_type scalar_type
  | BadUnitOp bytes unit_reason
  | SyntheticSatisfiesRequired bytes

definition is_synthetic_only :: "binding \<Rightarrow> bool" where
  "is_synthetic_only b \<longleftrightarrow>
     bd_on_missing b = UseDefault \<and>
     list_ex (\<lambda>op. case op of OpDefault _ True \<Rightarrow> True | _ \<Rightarrow> False) (bd_ops b) \<and>
     list_all (\<lambda>op. case op of OpDefault _ _ \<Rightarrow> True | _ \<Rightarrow> False) (bd_ops b)"

definition umbrella_scalar :: "umbrella_field \<Rightarrow> scalar_type option" where
  "umbrella_scalar uf = (case uf_ty uf of FtScalar s \<Rightarrow> Some s | FtArray _ \<Rightarrow> None)"

definition is_array_type :: "field_type \<Rightarrow> bool" where
  "is_array_type ty = (case ty of FtArray _ \<Rightarrow> True | FtScalar _ \<Rightarrow> False)"

text \<open>The chain of operations: type and unit after it, with the issues found.\<close>

fun check_ops ::
  "bytes \<Rightarrow> op list \<Rightarrow> scalar_type \<Rightarrow> unit_code option \<Rightarrow> verify_issue list \<times> scalar_type \<times> unit_code option" where
  "check_ops tgt [] cur cur_unit = ([], cur, cur_unit)"
| "check_ops tgt (op # ops) cur cur_unit =
     (let (issues, cur1, unit1) =
        (case op of
           OpCast to \<Rightarrow> (if \<not> widens_losslessly_to cur to then [LossyCast tgt cur to] else [], to, cur_unit)
         | OpUnitConvert from to i \<Rightarrow>
             ((if cur_unit \<noteq> Some from then [BadUnitOp tgt (ChildUnitDiffers cur_unit from)] else []) @
              (case verify_conversion from to i of Inl e \<Rightarrow> [BadUnitOp tgt (ConversionRefused e)] | Inr _ \<Rightarrow> []),
              TyDecimal, Some to)
         | _ \<Rightarrow> ([], cur, cur_unit));
        (rest, final) = check_ops tgt ops cur1 unit1
      in (issues @ rest, final))"

definition check_op_chain :: "child_field \<Rightarrow> umbrella_field \<Rightarrow> binding \<Rightarrow> bytes \<Rightarrow> verify_issue list" where
  "check_op_chain child uf b tgt =
     (if is_synthetic_only b then
        (if uf_cardinality uf = CardRequired then [SyntheticSatisfiesRequired tgt] else [])
      else if cf_is_array child \<or> is_array_type (uf_ty uf) then
        (if \<not> (cf_is_array child \<and> is_array_type (uf_ty uf)) then
           [TypeMismatch tgt (cf_ty child) (case umbrella_scalar uf of Some s \<Rightarrow> s | None \<Rightarrow> cf_ty child)]
         else [])
      else
        (let (issues, cur, cur_unit) = check_ops tgt (bd_ops b) (cf_ty child) (cf_unit child)
         in issues @
            (case umbrella_scalar uf of
               Some want \<Rightarrow> if \<not> widens_losslessly_to cur want then [TypeMismatch tgt cur want] else []
             | None \<Rightarrow> []) @
            (if uf_unit uf \<noteq> None \<and> cur_unit \<noteq> uf_unit uf then [BadUnitOp tgt (FinalUnitDiffers cur_unit (uf_unit uf))]
             else [])))"

definition child_field_at :: "child_field list \<Rightarrow> json_path \<Rightarrow> child_field option" where
  "child_field_at cfs p = List.find (\<lambda>f. cf_path f = p) cfs"

fun check_bindings ::
  "umbrella_schema \<Rightarrow> child_field list \<Rightarrow> json_path list \<Rightarrow> binding list \<Rightarrow> verify_issue list" where
  "check_bindings um cfs targeted [] = []"
| "check_bindings um cfs targeted (b # bs) =
     (let tgt_str = json_path_text (bd_target b);
          child = child_field_at cfs (bd_source b);
          missing = (if child = None then [SourceMissing (json_path_text (bd_source b))] else [])
      in case umbrella_field_at um (bd_target b) of
           None \<Rightarrow> missing @ [UnknownTarget tgt_str] @ check_bindings um cfs targeted bs
         | Some uf \<Rightarrow>
             missing @
             (if bd_target b \<in> set targeted then [DuplicateTarget tgt_str] else []) @
             (if bd_on_missing b = OmitMissing \<and> uf_cardinality uf = CardRequired then [OmitOnRequired tgt_str] else []) @
             (case child of Some c \<Rightarrow> check_op_chain c uf b tgt_str | None \<Rightarrow> []) @
             check_bindings um cfs (bd_target b # targeted) bs)"

definition total_for :: "umbrella_field \<Rightarrow> binding \<Rightarrow> bool" where
  "total_for uf b \<longleftrightarrow> bd_target b = uf_path uf \<and> bd_on_missing b \<noteq> OmitMissing \<and> \<not> is_synthetic_only b"

definition not_total :: "binding list \<Rightarrow> umbrella_field \<Rightarrow> verify_issue list" where
  "not_total bs uf =
     (if uf_cardinality uf \<noteq> CardRequired \<or> list_ex (total_for uf) bs then []
      else [RequiredNotTotal (json_path_text (uf_path uf))])"

definition verify_static :: "child_transform \<Rightarrow> umbrella_schema \<Rightarrow> child_field list \<Rightarrow> verify_issue list" where
  "verify_static tr um cfs =
     check_bindings um cfs [] (ct_bindings tr) @ concat (map (not_total (ct_bindings tr)) (um_fields um))"

section \<open>Validation of results and replay\<close>

datatype gold_error = RequiredMissing bytes | WrongType bytes

fun value_matches :: "field_type \<Rightarrow> json \<Rightarrow> bool" where
  "value_matches (FtScalar want) v =
     (case value_scalar_type v of Some got \<Rightarrow> widens_losslessly_to got want | None \<Rightarrow> False)"
| "value_matches (FtArray el) v =
     (case as_array v of Some a \<Rightarrow> list_all (value_matches el) a | None \<Rightarrow> False)"

definition field_errors :: "json \<Rightarrow> umbrella_field \<Rightarrow> gold_error list" where
  "field_errors event uf =
     (case path_get event (uf_path uf) of
        None \<Rightarrow> if uf_cardinality uf = CardRequired then [RequiredMissing (json_path_text (uf_path uf))] else []
      | Some v \<Rightarrow> if \<not> value_matches (uf_ty uf) v then [WrongType (json_path_text (uf_path uf))] else [])"

definition validate_gold :: "umbrella_schema \<Rightarrow> json \<Rightarrow> gold_error list" where
  "validate_gold um event = concat (map (field_errors event) (um_fields um))"

datatype replay_failure = ExecFailed nat exec_error | InvalidGold nat "gold_error list" | NonDeterministic nat

fun replay_from ::
  "'f f64 \<Rightarrow> child_transform \<Rightarrow> umbrella_schema \<Rightarrow> nat \<Rightarrow> json list \<Rightarrow> replay_failure list" where
  "replay_from F tr um i [] = []"
| "replay_from F tr um i (sample # samples) =
     (case apply_transform F tr sample of
        Inl e \<Rightarrow> [ExecFailed i e]
      | Inr gold \<Rightarrow>
          (let errs = validate_gold um gold in if errs \<noteq> [] then [InvalidGold i errs] else []) @
          (if apply_transform F tr sample \<noteq> Inr gold then [NonDeterministic i] else [])) @
     replay_from F tr um (i + 1) samples"

definition replay :: "'f f64 \<Rightarrow> child_transform \<Rightarrow> umbrella_schema \<Rightarrow> json list \<Rightarrow> nat \<times> replay_failure list" where
  "replay F tr um samples = (length samples, replay_from F tr um 0 samples)"

section \<open>Assembly\<close>

datatype unit_link = NoUnits | SameUnit | Convertible bytes | IncompatibleUnits

record pair_evidence =
  canonical_id_match :: bool
  type_lossless :: bool
  pv_unit :: unit_link

record candidate_pair =
  cp_child :: child_field
  cp_umbrella_field :: umbrella_field
  cp_evidence :: pair_evidence

definition unit_relation :: "unit_code option \<Rightarrow> unit_code option \<Rightarrow> unit_link" where
  "unit_relation child umb =
     (case (child, umb) of
        (None, None) \<Rightarrow> NoUnits
      | (Some c, Some u) \<Rightarrow>
          if c = u then SameUnit
          else (case find_rule c u of Some r \<Rightarrow> Convertible (rule_id r) | None \<Rightarrow> IncompatibleUnits)
      | _ \<Rightarrow> IncompatibleUnits)"

definition pair_of :: "child_field \<Rightarrow> umbrella_field \<Rightarrow> candidate_pair" where
  "pair_of cf uf =
     \<lparr> cp_child = cf, cp_umbrella_field = uf,
       cp_evidence = \<lparr> canonical_id_match = True,
         type_lossless = (case umbrella_scalar uf of Some s \<Rightarrow> widens_losslessly_to (cf_ty cf) s | None \<Rightarrow> False),
         pv_unit = unit_relation (cf_unit cf) (uf_unit uf) \<rparr> \<rparr>"

definition enumerate_pairs :: "child_field list \<Rightarrow> umbrella_schema \<Rightarrow> candidate_pair list" where
  "enumerate_pairs cfs um =
     concat (map (\<lambda>cf. case cf_canonical_field_id cf of
        None \<Rightarrow> []
      | Some cfid \<Rightarrow> map (pair_of cf) (filter (\<lambda>uf. uf_canonical_field_id uf = cfid) (um_fields um))) cfs)"

definition deterministic_anchor :: "candidate_pair \<Rightarrow> relation" where
  "deterministic_anchor pair =
     (let e = cp_evidence pair
      in if \<not> canonical_id_match e then UnknownRelation
         else
           (case pv_unit e of
              NoUnits \<Rightarrow> if type_lossless e then ExactEquivalent else UnknownRelation
            | SameUnit \<Rightarrow> if type_lossless e then ExactEquivalent else UnknownRelation
            | Convertible _ \<Rightarrow> SameQuantityDifferentUnit
            | IncompatibleUnits \<Rightarrow> UnknownRelation))"

definition pair_ops :: "candidate_pair \<Rightarrow> op list" where
  "pair_ops pair =
     (let child = cp_child pair; uf = cp_umbrella_field pair
      in (case umbrella_scalar uf of
            Some want \<Rightarrow> if cf_ty child \<noteq> want \<and> widens_losslessly_to (cf_ty child) want then [OpCast want] else []
          | None \<Rightarrow> []) @
         (case pv_unit (cp_evidence pair) of
            Convertible i \<Rightarrow>
              (case (cf_unit child, uf_unit uf) of (Some from, Some to) \<Rightarrow> [OpUnitConvert from to i] | _ \<Rightarrow> [])
          | _ \<Rightarrow> []))"

definition pair_binding :: "candidate_pair \<Rightarrow> binding" where
  "pair_binding pair =
     \<lparr> bd_source = cf_path (cp_child pair), bd_target = uf_path (cp_umbrella_field pair), bd_ops = pair_ops pair,
       bd_on_missing = (if uf_cardinality (cp_umbrella_field pair) = CardRequired then RejectMissing else OmitMissing) \<rparr>"

fun assemble_bindings ::
  "(candidate_pair \<Rightarrow> relation) \<Rightarrow> candidate_pair list \<Rightarrow> binding list \<Rightarrow> json_path list \<Rightarrow> binding list \<times> json_path list" where
  "assemble_bindings adj [] bindings bound = (bindings, bound)"
| "assemble_bindings adj (pair # pairs) bindings bound =
     (if \<not> auto_bindable (adj pair) then assemble_bindings adj pairs bindings bound
      else if cf_path (cp_child pair) \<in> set bound then assemble_bindings adj pairs bindings bound
      else if list_ex (\<lambda>b. bd_target b = uf_path (cp_umbrella_field pair)) bindings then
        assemble_bindings adj pairs bindings bound
      else assemble_bindings adj pairs (bindings @ [pair_binding pair]) (cf_path (cp_child pair) # bound))"

definition assemble_transform ::
  "bytes \<Rightarrow> bytes \<Rightarrow> umbrella_schema \<Rightarrow> bytes \<Rightarrow> child_field list \<Rightarrow> (candidate_pair \<Rightarrow> relation) \<Rightarrow> child_transform" where
  "assemble_transform child_schema_id child_revision um umbrella_revision cfs adj =
     (let (bindings, bound) = assemble_bindings adj (enumerate_pairs cfs um) [] []
      in \<lparr> ct_child_schema_id = child_schema_id, ct_umbrella_id = um_umbrella_id um,
           ct_child_revision = child_revision, ct_umbrella_revision = umbrella_revision,
           ct_bindings = bindings,
           ct_unmapped_source_paths = map cf_path (filter (\<lambda>c. cf_path c \<notin> set bound) cfs) \<rparr>)"

section \<open>The store of umbrellas\<close>

datatype umbrella_state = UmProvisional | UmActive | UmRejected

record stored_umbrella =
  su_schema :: umbrella_schema
  su_state :: umbrella_state

record umbrella_bundle =
  ub_umbrella :: umbrella_schema
  ub_transforms :: "child_transform list"

record lineage_member =
  lm_child_schema_id :: bytes
  lm_child_revision :: bytes
  lm_transform_present :: bool

record lineage_assertion =
  la_umbrella_id :: bytes
  la_umbrella_version :: u32
  la_members :: "lineage_member list"
  la_approved_reason :: bytes

text \<open>A backend error's message is kept as its cause: a record or a state that cannot be read back.\<close>

datatype backend_cause = CorruptRecord bytes | BadState bytes

datatype store_error = UmbrellaNotFound bytes | BundleMismatch bytes bytes | StoreBackend backend_cause

record umbrella_store =
  us_umbrellas :: "(bytes \<times> stored_umbrella) list"
  us_transforms :: "((bytes \<times> bytes) \<times> child_transform) list"
  us_lineage :: "(bytes \<times> lineage_assertion) list"

definition put_umbrella :: "umbrella_schema \<Rightarrow> umbrella_state \<Rightarrow> umbrella_store \<Rightarrow> umbrella_store" where
  "put_umbrella um state s =
     s\<lparr> us_umbrellas := bt_insert (um_umbrella_id um) \<lparr> su_schema = um, su_state = state \<rparr> (us_umbrellas s) \<rparr>"

definition get_umbrella :: "bytes \<Rightarrow> umbrella_store \<Rightarrow> stored_umbrella option" where
  "get_umbrella i s = map_of (us_umbrellas s) i"

definition set_umbrella_state :: "bytes \<Rightarrow> umbrella_state \<Rightarrow> umbrella_store \<Rightarrow> (store_error + unit) \<times> umbrella_store" where
  "set_umbrella_state i state s =
     (case map_of (us_umbrellas s) i of
        None \<Rightarrow> (Inl (UmbrellaNotFound i), s)
      | Some u \<Rightarrow> (Inr (), s\<lparr> us_umbrellas := bt_insert i (u\<lparr> su_state := state \<rparr>) (us_umbrellas s) \<rparr>))"

definition list_umbrellas :: "umbrella_state \<Rightarrow> umbrella_store \<Rightarrow> stored_umbrella list" where
  "list_umbrellas state s = filter (\<lambda>u. su_state u = state) (map snd (us_umbrellas s))"

definition put_transform :: "child_transform \<Rightarrow> umbrella_store \<Rightarrow> umbrella_store" where
  "put_transform t s =
     s\<lparr> us_transforms := bt_insert (ct_umbrella_id t, ct_child_schema_id t) t (us_transforms s) \<rparr>"

definition get_transform :: "bytes \<Rightarrow> bytes \<Rightarrow> umbrella_store \<Rightarrow> child_transform option" where
  "get_transform umbrella_id child_id s = map_of (us_transforms s) (umbrella_id, child_id)"

definition list_transforms :: "bytes \<Rightarrow> umbrella_store \<Rightarrow> child_transform list" where
  "list_transforms umbrella_id s = map snd (filter (\<lambda>((u, _), _). u = umbrella_id) (us_transforms s))"

definition promote_bundle :: "umbrella_bundle \<Rightarrow> umbrella_store \<Rightarrow> (store_error + unit) \<times> umbrella_store" where
  "promote_bundle bundle s =
     (let i = um_umbrella_id (ub_umbrella bundle)
      in case List.find (\<lambda>t. ct_umbrella_id t \<noteq> i) (ub_transforms bundle) of
           Some t \<Rightarrow> (Inl (BundleMismatch i (ct_umbrella_id t)), s)
         | None \<Rightarrow> (Inr (), fold put_transform (ub_transforms bundle) (put_umbrella (ub_umbrella bundle) UmActive s)))"

definition put_lineage_assertion :: "lineage_assertion \<Rightarrow> umbrella_store \<Rightarrow> umbrella_store" where
  "put_lineage_assertion a s = s\<lparr> us_lineage := bt_insert (la_umbrella_id a) a (us_lineage s) \<rparr>"

definition get_lineage_assertion :: "bytes \<Rightarrow> umbrella_store \<Rightarrow> lineage_assertion option" where
  "get_lineage_assertion i s = map_of (us_lineage s) i"

end
