(* ===== verification/Umbrella_Facts.thy ===== *)
theory Umbrella_Facts
  imports Umbrella_Verify
begin

text \<open>
  Soundness of the verifier for the executor: setting independent paths, the types along a chain
  of operations, and the run over all bindings.
\<close>

section \<open>Paths\<close>

lemma map_of_insert: "map_of (bt_insert k v m) = (map_of m)(k \<mapsto> v)"
  by (induction k v m rule: bt_insert.induct) (auto simp: fun_eq_iff)

lemma map_sum_InrE: "map_sum f g x = Inr y \<Longrightarrow> (\<And>z. x = Inr z \<Longrightarrow> y = g z \<Longrightarrow> P) \<Longrightarrow> P"
  by (cases x) auto

lemma is_object_iff: "is_object v \<longleftrightarrow> (\<exists>m. v = JObject m)"
  by (cases v) (auto simp: is_object_def)

lemma path_get_JObject:
  "path_get (JObject m) (seg # p) = (case map_of m seg of Some v \<Rightarrow> path_get v p | None \<Rightarrow> None)"
  by simp

text \<open>A path can be set when every proper prefix of it is absent or an object.\<close>

definition settable :: "json \<Rightarrow> json_path \<Rightarrow> bool" where
  "settable cur p \<longleftrightarrow>
     p \<noteq> [] \<and> (\<forall>r x. strict_prefix r p \<longrightarrow> path_get cur r = Some x \<longrightarrow> is_object x)"

lemma settable_object: "settable cur p \<Longrightarrow> \<exists>m. cur = JObject m"
  unfolding settable_def is_object_iff by (metis path_get.simps(1) strict_prefix_simps(2) list.exhaust)

lemma settable_next:
  assumes "settable (JObject m) (seg # p)" "p \<noteq> []"
  defines "next \<equiv> (case map_of m seg of Some c \<Rightarrow> c | None \<Rightarrow> JObject [])"
  shows "settable next p" "is_object next"
proof -
  have s: "settable next p"
    unfolding settable_def
  proof (intro conjI allI impI)
    fix r x assume r: "strict_prefix r p" "path_get next r = Some x"
    show "is_object x"
    proof (cases "map_of m seg")
      case (Some c)
      then have "path_get (JObject m) (seg # r) = Some x" using r(2) by (simp add: next_def)
      moreover have "strict_prefix (seg # r) (seg # p)" using r(1) by simp
      ultimately show ?thesis using assms(1) unfolding settable_def by blast
    next
      case None
      then have "path_get (JObject []) r = Some x" using r(2) by (simp add: next_def)
      then show ?thesis by (cases r) (auto simp: is_object_iff)
    qed
  qed (rule assms(2))
  then show "settable next p" .
  from settable_object [OF s] show "is_object next" by (auto simp: is_object_iff)
qed

lemma path_set_in_ok: "settable cur p \<Longrightarrow> \<exists>out. path_set_in cur p v = Inr out"
proof (induction p arbitrary: cur)
  case (Cons seg p)
  obtain m where m: "cur = JObject m" using settable_object [OF Cons.prems] by blast
  show ?case
  proof (cases "p = []")
    case False
    note n = settable_next [OF Cons.prems [unfolded m] False]
    from Cons.IH [OF n(1)] n(2) show ?thesis using False by (auto simp: m Let_def)
  qed (simp add: m)
qed (simp add: settable_def)

lemma path_get_empty: "path_get (JObject []) r = Some x \<Longrightarrow> r = [] \<and> x = JObject []"
  by (cases r) auto

text \<open>What is found after setting: the value below the path, the old document beside it.\<close>

lemma path_get_set_same:
  "settable cur p \<Longrightarrow> path_set_in cur p v = Inr out \<Longrightarrow> path_get out (p @ r) = path_get v r"
proof (induction p arbitrary: cur out)
  case (Cons seg p)
  obtain m where m: "cur = JObject m" using settable_object [OF Cons.prems(1)] by blast
  show ?case
  proof (cases "p = []")
    case True
    then show ?thesis using Cons.prems m by (auto simp: map_of_insert)
  next
    case False
    note n = settable_next [OF Cons.prems(1) [unfolded m] False]
    obtain c where c: "path_set_in (case map_of m seg of Some c \<Rightarrow> c | None \<Rightarrow> JObject []) p v = Inr c"
      using path_set_in_ok [OF n(1)] by blast
    then have "out = JObject (bt_insert seg c m)" using Cons.prems(2) False n(2) by (simp add: m Let_def)
    then show ?thesis using Cons.IH [OF n(1) c] by (simp add: map_of_insert)
  qed
qed (simp add: settable_def)

lemma path_get_set_parallel:
  "settable cur p \<Longrightarrow> path_set_in cur p v = Inr out \<Longrightarrow> parallel p q \<Longrightarrow> path_get out q = path_get cur q"
proof (induction p arbitrary: cur out q)
  case (Cons seg p)
  obtain m where m: "cur = JObject m" using settable_object [OF Cons.prems(1)] by blast
  obtain seg' q' where q: "q = seg' # q'" using Cons.prems(3) by (cases q) auto
  show ?case
  proof (cases "p = []")
    case True
    then show ?thesis using Cons.prems m q by (auto simp: map_of_insert parallel_def)
  next
    case False
    note n = settable_next [OF Cons.prems(1) [unfolded m] False]
    obtain c where c: "path_set_in (case map_of m seg of Some c \<Rightarrow> c | None \<Rightarrow> JObject []) p v = Inr c"
      using path_set_in_ok [OF n(1)] by blast
    then have out: "out = JObject (bt_insert seg c m)" using Cons.prems(2) False n(2) by (simp add: m Let_def)
    show ?thesis
    proof (cases "seg' = seg")
      case True
      then have par: "parallel p q'" using Cons.prems(3) q by (auto simp: parallel_def)
      then have "q' \<noteq> []" by auto
      then have "path_get (JObject []) q' = None" by (cases q') auto
      then show ?thesis using Cons.IH [OF n(1) c par] True out m q by (simp add: map_of_insert split: option.split)
    next
      case False
      then show ?thesis using out m q by (simp add: map_of_insert)
    qed
  qed
qed (simp add: settable_def)

lemma path_set_in_object: "path_set_in cur p v = Inr out \<Longrightarrow> p \<noteq> [] \<Longrightarrow> is_object out"
  by (cases p) (auto simp: is_object_iff Let_def split: if_splits option.splits elim!: map_sum_InrE)

text \<open>Above the path there are objects.\<close>

lemma path_get_set_above:
  "settable cur p \<Longrightarrow> path_set_in cur p v = Inr out \<Longrightarrow> strict_prefix q p \<Longrightarrow> path_get out q = Some x \<Longrightarrow> is_object x"
proof (induction p arbitrary: cur out q)
  case (Cons seg p)
  obtain m where m: "cur = JObject m" using settable_object [OF Cons.prems(1)] by blast
  have obj: "is_object out"
    using path_set_in_object [OF Cons.prems(2)] by simp
  show ?case
  proof (cases q)
    case Nil
    then show ?thesis using Cons.prems(4) obj by simp
  next
    case (Cons seg' q')
    then have q: "seg' = seg" "strict_prefix q' p" using Cons.prems(3) by auto
    then have "p \<noteq> []" by auto
    note n = settable_next [OF Cons.prems(1) [unfolded m] this]
    obtain c where c: "path_set_in (case map_of m seg of Some c \<Rightarrow> c | None \<Rightarrow> JObject []) p v = Inr c"
      using path_set_in_ok [OF n(1)] by blast
    then have "out = JObject (bt_insert seg c m)" using Cons.prems(2) \<open>p \<noteq> []\<close> n(2) by (simp add: m Let_def)
    then show ?thesis using Cons.IH [OF n(1) c q(2)] Cons.prems(4) Cons q(1) by (simp add: map_of_insert)
  qed
qed (simp add: settable_def)


section \<open>Chains of operations\<close>

definition has_type :: "json \<Rightarrow> scalar_type \<Rightarrow> bool" where
  "has_type v t \<longleftrightarrow> (\<exists>got. value_scalar_type v = Some got \<and> widens_losslessly_to got t)"

lemma widens_trans: "widens_losslessly_to a b \<Longrightarrow> widens_losslessly_to b c \<Longrightarrow> widens_losslessly_to a c"
  by (auto simp: widens_losslessly_to_def)

text \<open>Every conversion of the chain reads a finite number and gives a number again.\<close>

fun numbers_ok :: "'f f64 \<Rightarrow> json \<Rightarrow> op list \<Rightarrow> bool" where
  "numbers_ok F v [] \<longleftrightarrow> True"
| "numbers_ok F v (OpUnitConvert from to i # ops) \<longleftrightarrow>
     (case as_f64 F v of
        None \<Rightarrow> \<not> has_type v TyDecimal
      | Some x \<Rightarrow> f_is_finite F x \<and>
          (case convert F x i of
             Inl _ \<Rightarrow> True
           | Inr y \<Rightarrow> has_type (f_value F y) TyDecimal \<and> numbers_ok F (f_value F y) ops))"
| "numbers_ok F v (_ # ops) \<longleftrightarrow> numbers_ok F v ops"

text \<open>What the verifier leaves unchecked: arrays, defaults, currencies, conversions of non-numbers.\<close>

fun plain_ops :: "scalar_type \<Rightarrow> op list \<Rightarrow> bool" where
  "plain_ops cur [] \<longleftrightarrow> True"
| "plain_ops cur (OpCast to # ops) \<longleftrightarrow> plain_ops to ops"
| "plain_ops cur (OpUnitConvert from to i # ops) \<longleftrightarrow>
     cur \<in> {TyInteger, TyDecimal} \<and> system from \<noteq> Iso4217 \<and> system to \<noteq> Iso4217 \<and> plain_ops TyDecimal ops"
| "plain_ops cur (OpDefault d synthetic # ops) \<longleftrightarrow> plain_ops cur ops"
| "plain_ops cur (OpArrayMap element_ops # ops) \<longleftrightarrow> False"

lemma verify_conversion_rule:
  "verify_conversion from to i = Inr () \<Longrightarrow> system from \<noteq> Iso4217 \<Longrightarrow> \<exists>r. rule_of i = Some r"
  by (auto simp: verify_conversion_def result_bind_Inr_iff ok_or_def split: if_splits option.splits)

lemma chain_runs:
  assumes "check_ops tgt ops cur cur_unit = ([], cur', unit')" "plain_ops cur ops" "has_type v cur" "numbers_ok F v ops"
  shows "\<exists>w. apply_ops F v ops src = Inr w \<and> has_type w cur'"
  using assms
proof (induction ops arbitrary: cur cur_unit v)
  case (Cons op ops)
  show ?case
  proof (cases op)
    case (OpCast to)
    have w: "widens_losslessly_to cur to" "check_ops tgt ops to cur_unit = ([], cur', unit')"
      using Cons.prems(1) OpCast by (auto split: if_splits prod.splits)
    then have "has_type v to" using Cons.prems(3) widens_trans by (auto simp: has_type_def)
    then have "apply_cast to v = Inr v" by (auto simp: apply_cast_def has_type_def)
    moreover have "plain_ops to ops" "numbers_ok F v ops" using Cons.prems(2,4) OpCast by auto
    ultimately show ?thesis using Cons.IH [OF w(2) _ \<open>has_type v to\<close>] OpCast by simp
  next
    case (OpUnitConvert fr to i)
    have w: "verify_conversion fr to i = Inr ()" "check_ops tgt ops TyDecimal (Some to) = ([], cur', unit')"
      using Cons.prems(1) OpUnitConvert by (auto split: if_splits prod.splits sum.splits)
    have p: "cur \<in> {TyInteger, TyDecimal}" "system fr \<noteq> Iso4217" "plain_ops TyDecimal ops"
      using Cons.prems(2) OpUnitConvert by auto
    obtain r where r: "rule_of i = Some r" using verify_conversion_rule [OF w(1) p(2)] by blast
    have "has_type v TyDecimal" using p(1) Cons.prems(3) by (auto simp: has_type_def widens_losslessly_to_def)
    then obtain x where x: "as_f64 F v = Some x" "f_is_finite F x"
      "has_type (f_value F (f_plus F (f_times F x (f_lit F (factor r))) (f_lit F (rule_offset r)))) TyDecimal"
      "numbers_ok F (f_value F (f_plus F (f_times F x (f_lit F (factor r))) (f_lit F (rule_offset r)))) ops"
      using Cons.prems(4) OpUnitConvert r by (auto simp: convert_def ok_or_def split: option.splits)
    then have "apply_unit_convert F i src v =
        Inr (f_value F (f_plus F (f_times F x (f_lit F (factor r))) (f_lit F (rule_offset r))))"
      using r by (simp add: apply_unit_convert_def convert_def)
    then show ?thesis using Cons.IH [OF w(2) p(3) x(3,4)] OpUnitConvert by simp
  next
    case (OpDefault d synthetic)
    then show ?thesis using Cons by (auto split: prod.splits)
  next
    case (OpArrayMap element_ops)
    then show ?thesis using Cons.prems(2) by simp
  qed
qed auto


section \<open>The run over the bindings\<close>

definition independent_paths :: "umbrella_schema \<Rightarrow> bool" where
  "independent_paths um \<longleftrightarrow>
     distinct (map uf_path (um_fields um)) \<and> [] \<notin> uf_path ` set (um_fields um) \<and>
     (\<forall>p\<in>uf_path ` set (um_fields um). \<forall>q\<in>uf_path ` set (um_fields um). p \<noteq> q \<longrightarrow> parallel p q)"

definition plain_binding :: "umbrella_schema \<Rightarrow> child_field list \<Rightarrow> binding \<Rightarrow> bool" where
  "plain_binding um cfs b \<longleftrightarrow>
     bd_on_missing b \<noteq> UseDefault \<and>
     (\<forall>c uf. child_field_at cfs (bd_source b) = Some c \<longrightarrow> umbrella_field_at um (bd_target b) = Some uf \<longrightarrow>
        \<not> cf_is_array c \<and> \<not> is_array_type (uf_ty uf) \<and> plain_ops (cf_ty c) (bd_ops b))"

definition event_fits :: "'f f64 \<Rightarrow> child_field list \<Rightarrow> json \<Rightarrow> binding \<Rightarrow> bool" where
  "event_fits F cfs event b \<longleftrightarrow>
     (\<forall>c v. child_field_at cfs (bd_source b) = Some c \<longrightarrow> path_get event (bd_source b) = Some v \<longrightarrow>
        has_type v (cf_ty c) \<and> numbers_ok F v (bd_ops b))"

lemma umbrella_field_at_Some: "umbrella_field_at um p = Some uf \<Longrightarrow> uf \<in> set (um_fields um) \<and> uf_path uf = p"
  unfolding umbrella_field_at_def by (auto simp: find_Some_iff)

lemma umbrella_field_at_self:
  assumes "distinct (map uf_path (um_fields um))" "uf \<in> set (um_fields um)"
  shows "umbrella_field_at um (uf_path uf) = Some uf"
proof (cases "umbrella_field_at um (uf_path uf)")
  case None
  then show ?thesis using assms(2) by (auto simp: umbrella_field_at_def find_None_iff)
next
  case (Some uf')
  then show ?thesis using umbrella_field_at_Some [OF Some] assms by (auto simp: distinct_map inj_on_def)
qed

text \<open>The fields whose paths were set hold a value of their type, the others are absent.\<close>

definition built :: "umbrella_schema \<Rightarrow> json_path set \<Rightarrow> json \<Rightarrow> bool" where
  "built um T out \<longleftrightarrow>
     is_object out \<and> T \<subseteq> uf_path ` set (um_fields um) \<and>
     (\<forall>r x. path_get out r = Some x \<longrightarrow> \<not> is_object x \<longrightarrow> (\<exists>p\<in>T. prefix p r)) \<and>
     (\<forall>uf\<in>set (um_fields um).
        if uf_path uf \<in> T then \<exists>x. path_get out (uf_path uf) = Some x \<and> value_matches (uf_ty uf) x
        else path_get out (uf_path uf) = None)"

lemma built_set:
  assumes b: "built um T out" and um: "independent_paths um" and uf: "uf \<in> set (um_fields um)" "uf_path uf \<notin> T"
    and v: "value_matches (uf_ty uf) v"
  shows "\<exists>out'. path_set out (uf_path uf) v = Inr out' \<and> built um (insert (uf_path uf) T) out'"
proof -
  let ?p = "uf_path uf"
  have out: "is_object out" "T \<subseteq> uf_path ` set (um_fields um)" using b unfolding built_def by blast+
  have leaf: "\<exists>p\<in>T. prefix p r" if "path_get out r = Some x" "\<not> is_object x" for r x
    using b that unfolding built_def by blast
  have fld: "if uf_path g \<in> T then \<exists>x. path_get out (uf_path g) = Some x \<and> value_matches (uf_ty g) x
      else path_get out (uf_path g) = None" if "g \<in> set (um_fields um)" for g
    using b that unfolding built_def by blast
  have par: "parallel ?p q" if "q \<in> uf_path ` set (um_fields um)" "q \<noteq> ?p" for q
    using um uf(1) that unfolding independent_paths_def by blast
  have s: "settable out ?p"
    unfolding settable_def
  proof (intro conjI allI impI)
    show "?p \<noteq> []" using um uf(1) unfolding independent_paths_def by fastforce
    fix r x assume r: "strict_prefix r ?p" "path_get out r = Some x"
    show "is_object x"
    proof (rule ccontr)
      assume "\<not> is_object x"
      then obtain q where q: "q \<in> T" "prefix q r" using leaf r(2) by blast
      then have "prefix q ?p" "q \<noteq> ?p" using r(1) uf(2) by (auto intro: prefix_order.trans)
      then show False using par q(1) out(2) by (auto simp: parallel_def)
    qed
  qed
  obtain out' where o: "path_set_in out ?p v = Inr out'" using path_set_in_ok [OF s] by blast
  have "out \<noteq> JNull" using out(1) by (auto simp: is_object_iff)
  then have set: "path_set out ?p v = Inr out'" using o by (simp add: path_set_def)
  have "built um (insert ?p T) out'"
    unfolding built_def
  proof (intro conjI allI impI ballI)
    show "is_object out'" by (rule path_set_in_object [OF o]) (use s in \<open>simp add: settable_def\<close>)
    show "insert ?p T \<subseteq> uf_path ` set (um_fields um)" using out(2) uf(1) by auto
  next
    fix r x assume r: "path_get out' r = Some x" "\<not> is_object x"
    show "\<exists>p\<in>insert ?p T. prefix p r"
    proof (cases "prefix ?p r")
      case False
      then have "strict_prefix r ?p \<or> parallel ?p r" by (auto simp: parallel_def strict_prefix_def)
      then have "parallel ?p r" using path_get_set_above [OF s o _ r(1)] r(2) by blast
      then have "path_get out r = Some x" using path_get_set_parallel [OF s o] r(1) by simp
      then show ?thesis using leaf r(2) by blast
    qed simp
  next
    fix g assume g: "g \<in> set (um_fields um)"
    show "if uf_path g \<in> insert ?p T then \<exists>x. path_get out' (uf_path g) = Some x \<and> value_matches (uf_ty g) x
        else path_get out' (uf_path g) = None"
    proof (cases "uf_path g = ?p")
      case True
      then have "g = uf" using um g uf(1) by (auto simp: independent_paths_def distinct_map inj_on_def)
      then show ?thesis using path_get_set_same [OF s o, of "[]"] v by simp
    next
      case False
      then have "path_get out' (uf_path g) = path_get out (uf_path g)"
        using path_get_set_parallel [OF s o par] g by blast
      then show ?thesis using fld [OF g] False by simp
    qed
  qed
  then show ?thesis using set by blast
qed

lemma apply_bindings_runs:
  assumes um: "independent_paths um"
    and "check_bindings um cfs targeted bs = []" "\<forall>b\<in>set bs. plain_binding um cfs b \<and> event_fits F cfs event b"
    and "built um T out" "T \<subseteq> set targeted"
  shows "case apply_bindings F event bs out of
      Inl e \<Rightarrow> \<exists>b\<in>set bs. bd_on_missing b = RejectMissing \<and> path_get event (bd_source b) = None \<and>
        e = MissingSource (json_path_text (bd_source b))
    | Inr gold \<Rightarrow> \<exists>T'. T \<subseteq> T' \<and> built um T' gold \<and> (\<forall>b\<in>set bs. bd_on_missing b = RejectMissing \<longrightarrow> bd_target b \<in> T')"
  using assms(2-)
proof (induction bs arbitrary: targeted T out)
  case (Cons b bs)
  obtain uf where uf: "umbrella_field_at um (bd_target b) = Some uf"
    using Cons.prems(1) by (auto simp: Let_def split: option.splits)
  obtain c where c: "child_field_at cfs (bd_source b) = Some c"
    using Cons.prems(1) uf by (auto simp: Let_def split: option.splits if_splits)
  have chk: "bd_target b \<notin> set targeted" "check_op_chain c uf b (json_path_text (bd_target b)) = []"
    "check_bindings um cfs (bd_target b # targeted) bs = []"
    using Cons.prems(1) uf c by (auto simp: Let_def split: if_splits)
  have pl: "bd_on_missing b \<noteq> UseDefault" "\<not> cf_is_array c" "\<not> is_array_type (uf_ty uf)" "plain_ops (cf_ty c) (bd_ops b)"
    using Cons.prems(2) uf c by (auto simp: plain_binding_def)
  note ufp = umbrella_field_at_Some [OF uf]
  show ?case
  proof (cases "path_get event (bd_source b)")
    case None
    then show ?thesis
    proof (cases "bd_on_missing b")
      case OmitMissing
      have "T \<subseteq> set (bd_target b # targeted)" using Cons.prems(4) by auto
      from Cons.IH [OF chk(3) _ Cons.prems(3) this] Cons.prems(2) None OmitMissing show ?thesis
        by (auto split: sum.splits)
    qed (use pl(1) in auto)
  next
    case (Some v)
    have v: "has_type v (cf_ty c)" "numbers_ok F v (bd_ops b)"
      using Cons.prems(2) c Some by (auto simp: event_fits_def)
    obtain want where want: "uf_ty uf = FtScalar want" using pl(3) by (cases "uf_ty uf") (auto simp: is_array_type_def)
    have nsyn: "\<not> is_synthetic_only b" using pl(1) by (simp add: is_synthetic_only_def)
    obtain cur unit1 where ch: "check_ops (json_path_text (bd_target b)) (bd_ops b) (cf_ty c) (cf_unit c) = ([], cur, unit1)"
        "widens_losslessly_to cur want"
      using chk(2) nsyn pl(2,3) want
      by (auto simp: check_op_chain_def umbrella_scalar_def split: prod.splits if_splits)
    obtain w where w: "apply_ops F v (bd_ops b) (json_path_text (bd_source b)) = Inr w" "has_type w cur"
      using chain_runs [OF ch(1) pl(4) v] by blast
    have "value_matches (uf_ty uf) w"
      using w(2) ch(2) widens_trans by (auto simp: want has_type_def split: option.split)
    from built_set [OF Cons.prems(3) um conjunct1 [OF ufp] _ this]
    obtain out' where o: "path_set out (bd_target b) w = Inr out'" "built um (insert (bd_target b) T) out'"
      using ufp chk(1) Cons.prems(4) by auto
    have "insert (bd_target b) T \<subseteq> set (bd_target b # targeted)" using Cons.prems(4) by auto
    from Cons.IH [OF chk(3) _ o(2) this] Cons.prems(2)
    have ih: "case apply_bindings F event bs out' of
        Inl e \<Rightarrow> \<exists>b\<in>set bs. bd_on_missing b = RejectMissing \<and> path_get event (bd_source b) = None \<and>
          e = MissingSource (json_path_text (bd_source b))
      | Inr gold \<Rightarrow> \<exists>T'. insert (bd_target b) T \<subseteq> T' \<and> built um T' gold \<and>
          (\<forall>b\<in>set bs. bd_on_missing b = RejectMissing \<longrightarrow> bd_target b \<in> T')" by simp
    have "apply_bindings F event (b # bs) out = apply_bindings F event bs out'"
      using Some w(1) o(1) by (simp add: Let_def)
    then show ?thesis using ih by (auto split: sum.splits)
  qed
qed auto

lemma built_empty: "independent_paths um \<Longrightarrow> built um {} (JObject [])"
  using path_get_empty by (fastforce simp: built_def is_object_iff independent_paths_def)

lemma built_valid:
  assumes "built um T gold"
    and "\<And>uf. uf \<in> set (um_fields um) \<Longrightarrow> uf_cardinality uf = CardRequired \<Longrightarrow> uf_path uf \<in> T"
  shows "validate_gold um gold = []"
proof -
  have "field_errors gold uf = []" if uf: "uf \<in> set (um_fields um)" for uf
  proof -
    have "if uf_path uf \<in> T then \<exists>x. path_get gold (uf_path uf) = Some x \<and> value_matches (uf_ty uf) x
        else path_get gold (uf_path uf) = None"
      using assms(1) uf unfolding built_def by blast
    then show ?thesis using assms(2) [OF uf] by (auto simp: field_errors_def split: if_splits)
  qed
  then show ?thesis by (simp add: validate_gold_def)
qed

end
