(* ===== verification/Umbrella_Properties.thy ===== *)
theory Umbrella_Properties
  imports Umbrella_Facts
begin

text \<open>
  What verification of a transform promises about its execution, and what assembly promises about
  verification.
\<close>

section \<open>Verified transforms run\<close>




text \<open>A device's readings: pressure in hPa becomes pressure in Pa, the identifier is kept.\<close>

definition ucum_unit :: "bytes \<Rightarrow> unit_code" where
  "ucum_unit c = \<lparr> system = Ucum, code = c \<rparr>"


definition demo_field :: "bytes \<Rightarrow> json_path \<Rightarrow> field_type \<Rightarrow> unit_code option \<Rightarrow> cardinality \<Rightarrow> umbrella_field" where
  "demo_field i p ty u cd =
     \<lparr> uf_canonical_field_id = i, uf_path = p, uf_name = i, uf_ty = ty, uf_unit = u, uf_cardinality = cd \<rparr>"














section \<open>Assembled transforms verify\<close>










text \<open>Only the pressure of the device is declared: the identifier stays unbound.\<close>

lemma demo_unit_relation: "unit_relation (Some (ucum_unit ''hPa'')) (Some (ucum_unit ''Pa'')) = Convertible ''ucum:hPa->Pa''"
  by (simp add: unit_relation_def ucum_unit_def find_rule_def rules_def conversion_def)


section \<open>What verification lets through\<close>

text \<open>Two transforms with no issue whose execution always fails: a conversion between equal currencies
  names no rule, a conversion reads no number from a text.\<close>

definition money :: unit_code where
  "money = \<lparr> system = Iso4217, code = ''EUR'' \<rparr>"

definition one_field_umbrella :: "unit_code \<Rightarrow> umbrella_schema" where
  "one_field_umbrella u = \<lparr> um_umbrella_id = ''umb_2'', um_label = ''x'', um_version = 1,
     um_fields = [demo_field ''cf_x'' [''x''] (FtScalar TyDecimal) (Some u) CardRequired] \<rparr>"

definition one_field_child :: "scalar_type \<Rightarrow> unit_code \<Rightarrow> child_field list" where
  "one_field_child ty u = [\<lparr> cf_path = [''y''], cf_ty = ty, cf_unit = Some u, cf_is_array = False,
     cf_canonical_field_id = Some ''cf_x'' \<rparr>]"

definition converting :: "unit_code \<Rightarrow> unit_code \<Rightarrow> bytes \<Rightarrow> child_transform" where
  "converting fr to i = \<lparr> ct_child_schema_id = ''sch_2'', ct_umbrella_id = ''umb_2'', ct_child_revision = ''r1'',
     ct_umbrella_revision = ''u1'', ct_bindings = [\<lparr> bd_source = [''y''], bd_target = [''x''],
       bd_ops = [OpUnitConvert fr to i], bd_on_missing = RejectMissing \<rparr>], ct_unmapped_source_paths = [] \<rparr>"

theorem currency_passthrough_fails:
  "verify_static (converting money money ''iso:EUR'') (one_field_umbrella money) (one_field_child TyDecimal money) = [] \<and>
   (\<forall>event e. apply_transform F (converting money money ''iso:EUR'') event \<noteq> Inr e)"
proof
  show "verify_static (converting money money ''iso:EUR'') (one_field_umbrella money) (one_field_child TyDecimal money) = []"
    by code_simp
  have "rule_of ''iso:EUR'' = None" by (simp add: rule_of_def rules_def conversion_def)
  then show "\<forall>event e. apply_transform F (converting money money ''iso:EUR'') event \<noteq> Inr e"
    by (auto simp: apply_transform_def converting_def Let_def apply_unit_convert_def convert_def result_bind_Inr_iff ok_or_def
        split: option.splits if_splits)
qed

theorem text_conversion_fails:
  "verify_static (converting (ucum_unit ''hPa'') (ucum_unit ''Pa'') ''ucum:hPa->Pa'') (one_field_umbrella (ucum_unit ''Pa''))
     (one_field_child TyString (ucum_unit ''hPa'')) = [] \<and>
   apply_transform F (converting (ucum_unit ''hPa'') (ucum_unit ''Pa'') ''ucum:hPa->Pa'') (JObject [(''y'', JString s)]) =
     Inl (UnitConvertNonNumber ''$.y'')"
proof
  show "verify_static (converting (ucum_unit ''hPa'') (ucum_unit ''Pa'') ''ucum:hPa->Pa'') (one_field_umbrella (ucum_unit ''Pa''))
     (one_field_child TyString (ucum_unit ''hPa'')) = []"
    by code_simp
qed (simp add: apply_transform_def converting_def Let_def apply_unit_convert_def as_f64_def json_path_text_def)

text \<open>An overflowing conversion writes null instead of rejecting the event.\<close>

theorem overflow_becomes_null:
  assumes "f_read F n = Some x" "f_is_finite F x" "convert F x i = Inr y" "f_value F y = JNull"
  shows "apply_ops F (JNumber n) [OpUnitConvert fr to i] src = Inr JNull"
  using assms by (simp add: apply_unit_convert_def as_f64_def)

section \<open>Promotion of a bundle\<close>

lemma get_transform_put:
  "get_transform u c (put_transform t s) =
     (if ct_umbrella_id t = u \<and> ct_child_schema_id t = c then Some t else get_transform u c s)"
  by (auto simp: get_transform_def put_transform_def map_of_insert)

lemma get_transform_put_umbrella [simp]: "get_transform u c (put_umbrella um state s) = get_transform u c s"
  by (simp add: get_transform_def put_umbrella_def)

lemma put_umbrella_lineage [simp]: "us_lineage (put_umbrella um state s) = us_lineage s"
  by (simp add: put_umbrella_def)

lemma get_umbrella_put:
  "get_umbrella i (put_umbrella um state s) =
     (if i = um_umbrella_id um then Some \<lparr> su_schema = um, su_state = state \<rparr> else get_umbrella i s)"
  by (simp add: get_umbrella_def put_umbrella_def map_of_insert)

lemma get_umbrella_fold [simp]: "get_umbrella i (fold put_transform ts s) = get_umbrella i s"
  by (induction ts arbitrary: s) (simp_all add: put_transform_def get_umbrella_def)

lemma put_transform_rest [simp]:
  "us_umbrellas (fold put_transform ts s) = us_umbrellas s" "us_lineage (fold put_transform ts s) = us_lineage s"
  by (induction ts arbitrary: s) (simp_all add: put_transform_def)

lemma get_transform_fold:
  "get_transform u c (fold put_transform ts s) =
     (case List.find (\<lambda>t. ct_umbrella_id t = u \<and> ct_child_schema_id t = c) (rev ts) of
        Some t \<Rightarrow> Some t | None \<Rightarrow> get_transform u c s)"
  by (induction ts rule: rev_induct) (simp_all add: get_transform_put)

text \<open>C0: Promotion of a bundle is all or nothing: a transform of another umbrella leaves the store as it was;
  otherwise the umbrella is active, the last transform of each child is stored under it, and every other
  umbrella, transform and lineage assertion is untouched.\<close>

theorem promote_bundle_atomic:
  "case promote_bundle bundle s of
     (Inl e, s') \<Rightarrow> s' = s \<and> (\<exists>t\<in>set (ub_transforms bundle). ct_umbrella_id t \<noteq> um_umbrella_id (ub_umbrella bundle) \<and>
       e = BundleMismatch (um_umbrella_id (ub_umbrella bundle)) (ct_umbrella_id t))
   | (Inr _, s') \<Rightarrow>
       (\<forall>i. get_umbrella i s' = (if i = um_umbrella_id (ub_umbrella bundle)
          then Some \<lparr> su_schema = ub_umbrella bundle, su_state = UmActive \<rparr> else get_umbrella i s)) \<and>
       (\<forall>u c. get_transform u c s' =
          (case List.find (\<lambda>t. ct_umbrella_id t = u \<and> ct_child_schema_id t = c) (rev (ub_transforms bundle)) of
             Some t \<Rightarrow> Some t | None \<Rightarrow> get_transform u c s)) \<and>
       (\<forall>t\<in>set (ub_transforms bundle). ct_umbrella_id t = um_umbrella_id (ub_umbrella bundle)) \<and>
       us_lineage s' = us_lineage s"
proof (cases "List.find (\<lambda>t. ct_umbrella_id t \<noteq> um_umbrella_id (ub_umbrella bundle)) (ub_transforms bundle)")
  case None
  then have e: "promote_bundle bundle s =
      (Inr (), fold put_transform (ub_transforms bundle) (put_umbrella (ub_umbrella bundle) UmActive s))"
    by (simp add: promote_bundle_def Let_def)
  have "\<forall>t\<in>set (ub_transforms bundle). ct_umbrella_id t = um_umbrella_id (ub_umbrella bundle)"
    using None by (auto simp: find_None_iff)
  then show ?thesis by (simp add: e get_umbrella_put get_transform_fold split: option.split)
next
  case (Some t)
  then have "t \<in> set (ub_transforms bundle)" "ct_umbrella_id t \<noteq> um_umbrella_id (ub_umbrella bundle)"
    by (auto simp: find_Some_iff)
  then show ?thesis using Some by (auto simp: promote_bundle_def Let_def)
qed

end
