(* ===== verification/Umbrella_Port.thy ===== *)
theory Umbrella_Port
  imports Umbrella_Properties Redis_Service Records
begin

text \<open>
  The trait \<open>UmbrellaStore\<close> of \<open>deblob-umbrella/src/store.rs\<close>: its operations as a record over an
  abstract state, what the controller and the API rely on as the locale \<open>umbrella_contract\<close>, and its
  two providers, the store in memory and the store in Redis (\<open>deblob-redis/src/umbrella.rs\<close>).
\<close>

section \<open>The trait\<close>

record 'st umbrella_port =
  up_put_umbrella :: "umbrella_schema \<Rightarrow> umbrella_state \<Rightarrow> 'st \<Rightarrow> (store_error + unit) \<times> 'st"
  up_get_umbrella :: "bytes \<Rightarrow> 'st \<Rightarrow> store_error + stored_umbrella option"
  up_set_state :: "bytes \<Rightarrow> umbrella_state \<Rightarrow> 'st \<Rightarrow> (store_error + unit) \<times> 'st"
  up_list_umbrellas :: "umbrella_state \<Rightarrow> 'st \<Rightarrow> store_error + stored_umbrella list"
  up_put_transform :: "child_transform \<Rightarrow> 'st \<Rightarrow> (store_error + unit) \<times> 'st"
  up_get_transform :: "bytes \<Rightarrow> bytes \<Rightarrow> 'st \<Rightarrow> store_error + child_transform option"
  up_list_transforms :: "bytes \<Rightarrow> 'st \<Rightarrow> store_error + child_transform list"
  up_promote_bundle :: "umbrella_bundle \<Rightarrow> 'st \<Rightarrow> (store_error + unit) \<times> 'st"
  up_put_lineage :: "lineage_assertion \<Rightarrow> 'st \<Rightarrow> (store_error + unit) \<times> 'st"
  up_get_lineage :: "bytes \<Rightarrow> 'st \<Rightarrow> store_error + lineage_assertion option"

text \<open>
  The contract, on three views of the state: the umbrellas, the transforms of an umbrella by child, and
  the lineage assertions. Only umbrellas with a \<open>plain\<close> id may have transforms.
\<close>

definition with_transforms ::
  "child_transform list \<Rightarrow> (bytes \<Rightarrow> bytes \<Rightarrow> child_transform option) \<Rightarrow> bytes \<Rightarrow> bytes \<Rightarrow> child_transform option" where
  "with_transforms ts f u c =
     (case List.find (\<lambda>t. ct_umbrella_id t = u \<and> ct_child_schema_id t = c) (rev ts) of Some t \<Rightarrow> Some t | None \<Rightarrow> f u c)"

locale umbrella_contract =
  fixes U :: "'st umbrella_port"
    and plain :: "bytes \<Rightarrow> bool"
    and intact :: "'st \<Rightarrow> bool"
    and umb :: "'st \<Rightarrow> bytes \<Rightarrow> stored_umbrella option"
    and trf :: "'st \<Rightarrow> bytes \<Rightarrow> bytes \<Rightarrow> child_transform option"
    and lin :: "'st \<Rightarrow> bytes \<Rightarrow> lineage_assertion option"
  assumes get_umbrella: "intact st \<Longrightarrow> up_get_umbrella U i st = Inr (umb st i)"
    and umbrella_own_id: "intact st \<Longrightarrow> umb st i = Some w \<Longrightarrow> um_umbrella_id (su_schema w) = i"
    and transform_own_id: "intact st \<Longrightarrow> plain u \<Longrightarrow> trf st u c = Some t \<Longrightarrow> ct_umbrella_id t = u \<and> ct_child_schema_id t = c"
    and get_transform: "intact st \<Longrightarrow> plain u \<Longrightarrow> up_get_transform U u c st = Inr (trf st u c)"
    and get_lineage: "intact st \<Longrightarrow> up_get_lineage U i st = Inr (lin st i)"
    and list_umbrellas: "intact st \<Longrightarrow>
      \<exists>l. up_list_umbrellas U s st = Inr l \<and> set l = {u. su_state u = s \<and> (\<exists>i. umb st i = Some u)}"
    and list_transforms: "intact st \<Longrightarrow> plain u \<Longrightarrow>
      \<exists>l. up_list_transforms U u st = Inr l \<and> set l = {t. \<exists>c. trf st u c = Some t}"
    and put_umbrella: "intact st \<Longrightarrow> up_put_umbrella U um s st = (res, st') \<Longrightarrow>
      res = Inr () \<and> intact st' \<and> umb st' = (umb st)(um_umbrella_id um \<mapsto> \<lparr> su_schema = um, su_state = s \<rparr>) \<and>
      trf st' = trf st \<and> lin st' = lin st"
    and set_state: "intact st \<Longrightarrow> up_set_state U i s st = (res, st') \<Longrightarrow>
      (case umb st i of
         None \<Rightarrow> res = Inl (UmbrellaNotFound i) \<and> st' = st
       | Some u \<Rightarrow> res = Inr () \<and> intact st' \<and> umb st' = (umb st)(i \<mapsto> u\<lparr> su_state := s \<rparr>) \<and>
           trf st' = trf st \<and> lin st' = lin st)"
    and put_transform: "intact st \<Longrightarrow> plain (ct_umbrella_id t) \<Longrightarrow> up_put_transform U t st = (res, st') \<Longrightarrow>
      res = Inr () \<and> intact st' \<and> umb st' = umb st \<and> trf st' = with_transforms [t] (trf st) \<and> lin st' = lin st"
    and promote_refused: "intact st \<Longrightarrow>
      List.find (\<lambda>t. ct_umbrella_id t \<noteq> um_umbrella_id (ub_umbrella b)) (ub_transforms b) = Some t \<Longrightarrow>
      up_promote_bundle U b st = (Inl (BundleMismatch (um_umbrella_id (ub_umbrella b)) (ct_umbrella_id t)), st)"
    and promote_bundle: "intact st \<Longrightarrow> plain (um_umbrella_id (ub_umbrella b)) \<Longrightarrow>
      \<forall>t\<in>set (ub_transforms b). ct_umbrella_id t = um_umbrella_id (ub_umbrella b) \<Longrightarrow>
      up_promote_bundle U b st = (res, st') \<Longrightarrow>
      res = Inr () \<and> intact st' \<and>
      umb st' = (umb st)(um_umbrella_id (ub_umbrella b) \<mapsto> \<lparr> su_schema = ub_umbrella b, su_state = UmActive \<rparr>) \<and>
      trf st' = with_transforms (ub_transforms b) (trf st) \<and> lin st' = lin st"
    and put_lineage: "intact st \<Longrightarrow> up_put_lineage U a st = (res, st') \<Longrightarrow>
      res = Inr () \<and> intact st' \<and> umb st' = umb st \<and> trf st' = trf st \<and> lin st' = (lin st)(la_umbrella_id a \<mapsto> a)"

section \<open>The store in memory\<close>

definition memory_umbrella :: "umbrella_store umbrella_port" where
  "memory_umbrella =
     \<lparr> up_put_umbrella = (\<lambda>um s st. (Inr (), put_umbrella um s st)),
       up_get_umbrella = (\<lambda>i st. Inr (get_umbrella i st)),
       up_set_state = set_umbrella_state,
       up_list_umbrellas = (\<lambda>s st. Inr (list_umbrellas s st)),
       up_put_transform = (\<lambda>t st. (Inr (), put_transform t st)),
       up_get_transform = (\<lambda>u c st. Inr (get_transform u c st)),
       up_list_transforms = (\<lambda>u st. Inr (list_transforms u st)),
       up_promote_bundle = promote_bundle,
       up_put_lineage = (\<lambda>a st. (Inr (), put_lineage_assertion a st)),
       up_get_lineage = (\<lambda>i st. Inr (get_lineage_assertion i st)) \<rparr>"

definition memory_intact :: "umbrella_store \<Rightarrow> bool" where
  "memory_intact s \<longleftrightarrow>
     bt_ok (us_umbrellas s) \<and> bt_ok (us_transforms s) \<and>
     (\<forall>i u. map_of (us_umbrellas s) i = Some u \<longrightarrow> um_umbrella_id (su_schema u) = i) \<and>
     (\<forall>u c t. map_of (us_transforms s) (u, c) = Some t \<longrightarrow> ct_umbrella_id t = u \<and> ct_child_schema_id t = c)"

lemma with_transforms_Nil [simp]: "with_transforms [] f = f"
  by (simp add: with_transforms_def fun_eq_iff)

lemma with_transforms_snoc: "with_transforms (ts @ [t]) f = with_transforms [t] (with_transforms ts f)"
  by (simp add: with_transforms_def fun_eq_iff)

lemma with_transforms_single:
  "with_transforms [t] f u c = (if ct_umbrella_id t = u \<and> ct_child_schema_id t = c then Some t else f u c)"
  by (simp add: with_transforms_def)

lemma with_transforms_other: "\<forall>t\<in>set ts. ct_umbrella_id t \<noteq> u \<Longrightarrow> with_transforms ts f u = f u"
  by (auto simp: with_transforms_def fun_eq_iff find_Some_iff in_set_conv_nth rev_nth split: option.split) fastforce

lemma memory_put_transform:
  "memory_intact s \<Longrightarrow> memory_intact (put_transform t s) \<and>
     (\<lambda>u c. get_transform u c (put_transform t s)) = with_transforms [t] (\<lambda>u c. get_transform u c s)"
  by (auto simp: memory_intact_def put_transform_def get_transform_def map_of_insert with_transforms_single fun_eq_iff)

lemma memory_put_transforms:
  "memory_intact s \<Longrightarrow> memory_intact (fold put_transform ts s) \<and>
     (\<lambda>u c. get_transform u c (fold put_transform ts s)) = with_transforms ts (\<lambda>u c. get_transform u c s)"
  by (induction ts rule: rev_induct) (simp_all add: memory_put_transform with_transforms_snoc)

lemma memory_put_umbrella: "memory_intact s \<Longrightarrow> memory_intact (put_umbrella um st s)"
  by (auto simp: memory_intact_def put_umbrella_def map_of_insert)

lemma memory_list_umbrellas:
  assumes "memory_intact s"
  shows "set (list_umbrellas st s) = {u. su_state u = st \<and> (\<exists>i. get_umbrella i s = Some u)}"
proof -
  have "snd ` set (us_umbrellas s) = ran (map_of (us_umbrellas s))"
    using assms by (simp add: memory_intact_def bt_ok_distinct ran_distinct)
  then show ?thesis by (auto simp: list_umbrellas_def get_umbrella_def ran_def)
qed

lemma memory_list_transforms:
  assumes "memory_intact s"
  shows "set (list_transforms u s) = {t. \<exists>c. get_transform u c s = Some t}"
proof -
  have "get_transform u c s = Some t \<longleftrightarrow> ((u, c), t) \<in> set (us_transforms s)" for c t
    using assms by (simp add: memory_intact_def get_transform_def bt_ok_distinct)
  moreover have "set (list_transforms u s) = {t. \<exists>c. ((u, c), t) \<in> set (us_transforms s)}"
    by (force simp: list_transforms_def)
  ultimately show ?thesis by simp
qed

interpretation memory_umbrella: umbrella_contract memory_umbrella "\<lambda>_. True" memory_intact
    "\<lambda>s i. get_umbrella i s" "\<lambda>s u c. get_transform u c s" "\<lambda>s i. get_lineage_assertion i s"
proof
  fix s s' :: umbrella_store and i u c st um t b a res
  show "memory_intact s \<Longrightarrow> \<exists>l. up_list_umbrellas memory_umbrella st s = Inr l \<and>
      set l = {u. su_state u = st \<and> (\<exists>i. get_umbrella i s = Some u)}"
    by (simp add: memory_umbrella_def memory_list_umbrellas)
  show "memory_intact s \<Longrightarrow> True \<Longrightarrow> \<exists>l. up_list_transforms memory_umbrella u s = Inr l \<and>
      set l = {t. \<exists>c. get_transform u c s = Some t}"
    by (simp add: memory_umbrella_def memory_list_transforms)
  show "memory_intact s \<Longrightarrow> up_put_umbrella memory_umbrella um st s = (res, s') \<Longrightarrow>
      res = Inr () \<and> memory_intact s' \<and>
      (\<lambda>i. get_umbrella i s') = (\<lambda>i. get_umbrella i s)(um_umbrella_id um \<mapsto> \<lparr> su_schema = um, su_state = st \<rparr>) \<and>
      (\<lambda>u c. get_transform u c s') = (\<lambda>u c. get_transform u c s) \<and>
      (\<lambda>i. get_lineage_assertion i s') = (\<lambda>i. get_lineage_assertion i s)"
    by (auto simp: memory_umbrella_def memory_put_umbrella get_umbrella_put get_lineage_assertion_def fun_eq_iff)
  show "memory_intact s \<Longrightarrow> up_set_state memory_umbrella i st s = (res, s') \<Longrightarrow>
      (case get_umbrella i s of
         None \<Rightarrow> res = Inl (UmbrellaNotFound i) \<and> s' = s
       | Some u \<Rightarrow> res = Inr () \<and> memory_intact s' \<and>
           (\<lambda>i. get_umbrella i s') = (\<lambda>i. get_umbrella i s)(i \<mapsto> u\<lparr> su_state := st \<rparr>) \<and>
           (\<lambda>u c. get_transform u c s') = (\<lambda>u c. get_transform u c s) \<and>
           (\<lambda>i. get_lineage_assertion i s') = (\<lambda>i. get_lineage_assertion i s))"
    by (auto simp: memory_umbrella_def set_umbrella_state_def get_umbrella_def get_transform_def
        get_lineage_assertion_def memory_intact_def map_of_insert fun_eq_iff split: option.splits if_splits)
  show "memory_intact s \<Longrightarrow> True \<Longrightarrow> up_put_transform memory_umbrella t s = (res, s') \<Longrightarrow>
      res = Inr () \<and> memory_intact s' \<and> (\<lambda>i. get_umbrella i s') = (\<lambda>i. get_umbrella i s) \<and>
      (\<lambda>u c. get_transform u c s') = with_transforms [t] (\<lambda>u c. get_transform u c s) \<and>
      (\<lambda>i. get_lineage_assertion i s') = (\<lambda>i. get_lineage_assertion i s)"
    using memory_put_transform [of s t]
    by (auto simp: memory_umbrella_def get_umbrella_def get_lineage_assertion_def put_transform_def)
  show "memory_intact s \<Longrightarrow> True \<Longrightarrow> \<forall>t\<in>set (ub_transforms b). ct_umbrella_id t = um_umbrella_id (ub_umbrella b) \<Longrightarrow>
      up_promote_bundle memory_umbrella b s = (res, s') \<Longrightarrow>
      res = Inr () \<and> memory_intact s' \<and>
      (\<lambda>i. get_umbrella i s') = (\<lambda>i. get_umbrella i s)
        (um_umbrella_id (ub_umbrella b) \<mapsto> \<lparr> su_schema = ub_umbrella b, su_state = UmActive \<rparr>) \<and>
      (\<lambda>u c. get_transform u c s') = with_transforms (ub_transforms b) (\<lambda>u c. get_transform u c s) \<and>
      (\<lambda>i. get_lineage_assertion i s') = (\<lambda>i. get_lineage_assertion i s)"
    using memory_put_transforms [OF memory_put_umbrella, of s "ub_transforms b" "ub_umbrella b" UmActive]
    by (auto simp: memory_umbrella_def promote_bundle_def Let_def get_umbrella_put get_lineage_assertion_def fun_eq_iff
        find_None_iff [THEN iffD2] split: option.splits dest: find_Some_iff [THEN iffD1])
qed (auto simp: memory_umbrella_def memory_intact_def get_umbrella_def get_transform_def promote_bundle_def
    put_lineage_assertion_def get_lineage_assertion_def map_of_insert fun_eq_iff)

end
