(* ===== verification/Umbrella_Service.thy ===== *)
theory Umbrella_Service
  imports Umbrella_Port Profile_Monoid
begin

text \<open>
  The proposal of umbrellas (\<open>deblob/src/umbrella_controller.rs\<close>, \<open>umbrella_guard.rs\<close>), the fields of a
  child schema and the human decisions (\<open>deblob/src/api/umbrellas.rs\<close>, \<open>api/semantic.rs\<close>), and the
  domains of sources (\<open>deblob-semantic/src/domain.rs\<close>). The other stores, \<open>serde_json::from_str\<close>, base32
  and the Unicode tables are fields of the record \<open>umbrella_env\<close>. Errors are kept as their cause.
\<close>

unbundle bit_operations_syntax

section \<open>Domains\<close>

datatype domain =
    Compute | Ai | RegistryDomain | Hardware | EnergyDomain | Carbon | Grid | GeoDomain | Weather | Env | Space | CivicDomain
  | KnowledgeGraph | TransitDomain | SocialDomain

datatype cluster = TechCluster | EnergyCluster | GeoCluster | CivicCluster | TransitCluster | SocialCluster

definition domain_cluster :: "domain \<Rightarrow> cluster" where
  "domain_cluster d =
     (if d \<in> {Compute, Ai, RegistryDomain, Hardware} then TechCluster
      else if d \<in> {EnergyDomain, Carbon, Grid} then EnergyCluster
      else if d \<in> {GeoDomain, Weather, Env, Space} then GeoCluster
      else if d \<in> {CivicDomain, KnowledgeGraph} then CivicCluster
      else if d = TransitDomain then TransitCluster else SocialCluster)"

definition namespaces :: "(bytes \<times> domain) list" where
  "namespaces =
     [(''compute'', Compute), (''ai'', Ai), (''registry'', RegistryDomain), (''hw'', Hardware), (''energy'', EnergyDomain),
      (''carbon'', Carbon), (''grid'', Grid), (''geo'', GeoDomain), (''weather'', Weather), (''env'', Env), (''space'', Space),
      (''civic'', CivicDomain), (''kg'', KnowledgeGraph), (''transit'', TransitDomain), (''firehose'', SocialDomain)]"

definition domain_of_source :: "bytes \<Rightarrow> domain option" where
  "domain_of_source source =
     (case strip_prefix ''events.'' source of
        None \<Rightarrow> None
      | Some rest \<Rightarrow> map_of namespaces (hd (split_on (CHR ''.'') rest)))"

datatype gate_verdict = Keep | VetoProvenDisjoint

definition is_veto :: "gate_verdict \<Rightarrow> bool" where
  "is_veto g \<longleftrightarrow> g = VetoProvenDisjoint"

definition domain_gate :: "domain option \<Rightarrow> domain option \<Rightarrow> gate_verdict" where
  "domain_gate a b =
     (case (a, b) of
        (Some x, Some y) \<Rightarrow> if domain_cluster x \<noteq> domain_cluster y then VetoProvenDisjoint else Keep
      | _ \<Rightarrow> Keep)"

definition domain_gate_sources :: "bytes \<Rightarrow> bytes \<Rightarrow> gate_verdict" where
  "domain_gate_sources a b = domain_gate (domain_of_source a) (domain_of_source b)"

definition provenance_source :: "json \<Rightarrow> bytes option" where
  "provenance_source p =
     (case Option.bind (json_get ''source'' p) as_str of
        Some s \<Rightarrow> Some s
      | None \<Rightarrow> Option.bind (Option.bind (json_get ''name_meta'' p) (json_get ''source'')) as_str)"

definition member_domain :: "schema_record \<Rightarrow> domain option" where
  "member_domain rec = Option.bind (provenance_source (rec_provenance rec)) domain_of_source"

section \<open>The fields of a child schema\<close>

definition leading_type :: "bytes list \<Rightarrow> bytes option" where
  "leading_type tys =
     (case List.find (\<lambda>t. t \<noteq> ''null'') tys of
        Some t \<Rightarrow> Some t
      | None \<Rightarrow> (case tys of [] \<Rightarrow> None | t # _ \<Rightarrow> Some t))"

definition scalar_type_of :: "bytes \<Rightarrow> scalar_type option" where
  "scalar_type_of tag =
     (if tag = ''bool'' then Some TyBool
      else if tag = ''number'' then Some TyDecimal
      else if tag = ''string'' then Some TyString
      else None)"

definition node_types :: "(bytes \<times> json) list \<Rightarrow> bytes list" where
  "node_types obj =
     (case Option.bind (map_of obj ''types'') as_array of Some a \<Rightarrow> List.map_filter as_str a | None \<Rightarrow> [])"

definition elem_type :: "(bytes \<times> json) list \<Rightarrow> scalar_type" where
  "elem_type obj =
     (case Option.bind (Option.bind (map_of obj ''elem'') as_object) (\<lambda>e.
             Option.bind (Option.bind (map_of e ''types'') as_array) (\<lambda>a.
               Option.bind (leading_type (List.map_filter as_str a)) scalar_type_of)) of
        Some t \<Rightarrow> t | None \<Rightarrow> TyString)"

definition leaf_type :: "(bytes \<times> json) list \<Rightarrow> scalar_type option" where
  "leaf_type obj =
     (if ''array'' \<in> set (node_types obj) then Some (elem_type obj)
      else Option.bind (leading_type (node_types obj)) scalar_type_of)"

definition joined_path :: "bytes list \<Rightarrow> bytes" where
  "joined_path segs = ''$.'' @ concat (case segs of [] \<Rightarrow> [] | s # ss \<Rightarrow> s # map (\<lambda>x. CHR ''.'' # x) ss)"

definition leaf_field ::
  "(bytes list \<Rightarrow> field_semantics option) \<Rightarrow> (bytes \<times> json) list \<Rightarrow> bytes list \<Rightarrow> child_field list" where
  "leaf_field sem obj p =
     (if p = [] then []
      else
        (case leaf_type obj of
           None \<Rightarrow> []
         | Some ty \<Rightarrow>
             (case json_path_parse (joined_path p) of
                Inl e \<Rightarrow> []
              | Inr jp \<Rightarrow>
                  [\<lparr> cf_path = jp, cf_ty = ty,
                     cf_unit = (case sem p of Some fs \<Rightarrow> field_unit fs | None \<Rightarrow> None),
                     cf_is_array = ''array'' \<in> set (node_types obj),
                     cf_canonical_field_id = (case sem p of Some fs \<Rightarrow> canonical_field_id fs | None \<Rightarrow> None) \<rparr>])))"

text \<open>The keys of an object are in order already, so sorting them changes nothing.\<close>

lemma map_of_smaller: "map_of m k = Some v \<Longrightarrow> size v < Suc (size_list (size_prod (\<lambda>_. 0) size) m)"
  by (induction m) (auto split: if_splits)

function (sequential) walk_canon_node ::
    "(bytes list \<Rightarrow> field_semantics option) \<Rightarrow> json \<Rightarrow> bytes list \<Rightarrow> child_field list"
and walk_children ::
    "(bytes list \<Rightarrow> field_semantics option) \<Rightarrow> (bytes \<times> json) list \<Rightarrow> bytes list \<Rightarrow> child_field list" where
  "walk_canon_node sem (JObject obj) p =
     (case map_of obj ''children'' of
        Some (JObject kids) \<Rightarrow>
          if ''object'' \<in> set (node_types obj) \<and> kids \<noteq> [] then walk_children sem kids p
          else leaf_field sem obj p
      | _ \<Rightarrow> leaf_field sem obj p)"
| "walk_canon_node sem _ p = []"
| "walk_children sem [] p = []"
| "walk_children sem ((k, v) # kids) p = walk_canon_node sem v (p @ [k]) @ walk_children sem kids p"
  by pat_completeness auto

termination
proof (relation "measure (\<lambda>a. case a of
        Inl (sem, v, p) \<Rightarrow> 2 * size v
      | Inr (sem, m, p) \<Rightarrow> 2 * size_list (size_prod (\<lambda>_. 0) size) m + 1)", goal_cases)
  case (2 sem obj p v kids)
  then show ?case using map_of_smaller [of obj "''children''" v] by simp
qed auto

fun key_path :: "path_segment list \<Rightarrow> bytes list option" where
  "key_path [] = Some []"
| "key_path (Key k # segs) = map_option (\<lambda>ks. k # ks) (key_path segs)"
| "key_path (Wildcard # segs) = None"

definition semantic_by_path :: "semantic_metadata option \<Rightarrow> bytes list \<Rightarrow> field_semantics option" where
  "semantic_by_path sem =
     (case sem of
        None \<Rightarrow> (\<lambda>_. None)
      | Some m \<Rightarrow> map_of (rev (List.map_filter (\<lambda>fe. map_option (\<lambda>p. (p, semantics fe)) (key_path (path fe))) (field_entries m))))"

definition child_fields_from_schema :: "(bytes \<Rightarrow> json option) \<Rightarrow> schema_record \<Rightarrow> semantic_metadata option \<Rightarrow> child_field list" where
  "child_fields_from_schema from_str rec sem =
     (if rec_canonicalizer rec \<noteq> generalizer then []
      else (case from_str (rec_canonical rec) of
              None \<Rightarrow> []
            | Some node \<Rightarrow> walk_canon_node (semantic_by_path sem) node []))"

text \<open>
  The value guard (\<open>deblob/src/umbrella_guard.rs\<close>), the proposal of umbrellas
  (\<open>umbrella_controller.rs\<close>) and the decisions of reviewers (\<open>api/umbrellas.rs\<close>). Every operation is a
  function of the environment and the state of the stores.
\<close>

record 'st umbrella_env =
  ue_umbrellas :: "'st umbrella_port"
  ue_schema_pages :: "'st \<Rightarrow> (core_error + schema_record list) list"
  ue_get_schema :: "schema_id \<Rightarrow> 'st \<Rightarrow> core_error + schema_record option"
  ue_active_semantic :: "schema_id \<Rightarrow> 'st \<Rightarrow> bytes + semantic_metadata option"
  ue_get_value_profile :: "value_profile_id \<Rightarrow> 'st \<Rightarrow> core_error + value_profile_snapshot option"
  ue_from_str :: "bytes \<Rightarrow> json option"
  ue_b32 :: "bytes \<Rightarrow> bytes option"
  ue_normalize :: "bytes \<Rightarrow> bytes"
  ue_trim :: "bytes \<Rightarrow> bytes"
  ue_min_support :: u64
  ue_gate_enforce :: bool
  ue_enforce_guard :: bool

text \<open>
  \<open>ue_schema_pages\<close> are the answers of \<open>list_schemas\<close> when the cursor is followed to the last page or to
  the first error; \<open>ue_normalize\<close> keeps the alphanumeric characters of a name in lower case.
\<close>

section \<open>The value guard\<close>

datatype value_outcome = ValuesCompatible | ValuesContradictory | ValuesUnknown | ValuesNotComparable

datatype cause_code =
    CfidExact | TypeCompatible | NameCorroborated | ValueProfileCompatible | ValueProfileUnknown
  | ValueProfileNotComparable | ValueProfileContradiction

record member_evidence =
  me_name :: bytes
  me_unit :: "bytes option"
  me_mask :: "8 word"
  me_numeric_count :: u64
  me_has_profile :: bool

record field_guard =
  fg_value_verdict :: value_outcome
  fg_name_corroborated :: bool
  fg_causes :: "cause_code list"

definition min_support :: u64 where
  "min_support = 30"

definition generic_names :: "bytes list" where
  "generic_names = [''id'', ''value'', ''val'', ''type'', ''status'', ''data'', ''name'', ''key'', ''code'', ''kind'']"

definition name_corroborated :: "(bytes \<Rightarrow> bytes) \<Rightarrow> bytes list \<Rightarrow> bool" where
  "name_corroborated norm_name names =
     (case map norm_name names of
        first # n # ns \<Rightarrow> first \<noteq> [] \<and> first \<notin> set generic_names \<and> list_all (\<lambda>x. x = first) (n # ns)
      | _ \<Rightarrow> False)"

definition units_comparable :: "member_evidence list \<Rightarrow> bool" where
  "units_comparable members = list_all (\<lambda>m. me_unit m = me_unit (hd members)) members"

fun disjoint_masks :: "8 word list \<Rightarrow> bool" where
  "disjoint_masks [] = False"
| "disjoint_masks (m # ms) = (list_ex (\<lambda>n. m AND n = 0) ms \<or> disjoint_masks ms)"

definition value_verdict :: "member_evidence list \<Rightarrow> u64 \<Rightarrow> value_outcome" where
  "value_verdict members support =
     (if length members < 2 then ValuesUnknown
      else if \<not> units_comparable members then ValuesNotComparable
      else
        (let numeric = filter (\<lambda>m. me_has_profile m \<and> me_mask m \<noteq> 0 \<and> support \<le> me_numeric_count m) members
         in if length numeric < 2 then ValuesUnknown
            else if disjoint_masks (map me_mask numeric) then ValuesContradictory
            else ValuesCompatible))"

definition evaluate_field :: "(bytes \<Rightarrow> bytes) \<Rightarrow> member_evidence list \<Rightarrow> u64 \<Rightarrow> field_guard" where
  "evaluate_field norm_name members support =
     (let verdict = value_verdict members support;
          corroborated = name_corroborated norm_name (map me_name members)
      in \<lparr> fg_value_verdict = verdict, fg_name_corroborated = corroborated,
           fg_causes = [CfidExact, TypeCompatible] @ (if corroborated then [NameCorroborated] else []) @
             [case verdict of ValuesCompatible \<Rightarrow> ValueProfileCompatible | ValuesContradictory \<Rightarrow> ValueProfileContradiction
                | ValuesUnknown \<Rightarrow> ValueProfileUnknown | ValuesNotComparable \<Rightarrow> ValueProfileNotComparable] \<rparr>)"

section \<open>Building a proposal\<close>

type_synonym field_sig = "bytes \<times> bytes"
type_synonym member = "schema_record \<times> child_field list"

definition scalar_debug :: "scalar_type \<Rightarrow> bytes" where
  "scalar_debug t = (case t of TyBool \<Rightarrow> ''Bool'' | TyInteger \<Rightarrow> ''Integer'' | TyDecimal \<Rightarrow> ''Decimal'' | TyString \<Rightarrow> ''String'')"

definition field_type_tag :: "child_field \<Rightarrow> bytes" where
  "field_type_tag f =
     (if cf_is_array f then ''array<'' @ scalar_debug (cf_ty f) @ ''>'' else scalar_debug (cf_ty f))"

definition hex16 :: "u64 \<Rightarrow> bytes" where
  "hex16 h = map (\<lambda>i. let d = unat (take_bit 4 (drop_bit (4 * i) h)) in char_of (if d < 10 then 48 + d else 87 + d)) (rev [0..<16])"

definition fnv_offset :: u64 where
  "fnv_offset = 0xcbf29ce484222325"

definition fnv_step :: "u64 \<Rightarrow> u8 \<Rightarrow> u64" where
  "fnv_step h b = (h XOR of_nat (byte_val b)) * 0x00000100000001b3"

fun join_sig :: "field_sig list \<Rightarrow> bytes" where
  "join_sig [] = []"
| "join_sig [(c, t)] = c @ ''='' @ t"
| "join_sig ((c, t) # s # sig) = c @ ''='' @ t @ [CHR 0x1F] @ join_sig (s # sig)"

definition umbrella_id_for :: "field_sig list \<Rightarrow> bytes" where
  "umbrella_id_for sig = ''umb_'' @ hex16 (foldl fnv_step fnv_offset (join_sig sig))"

definition umbrella_key_of :: "bytes \<Rightarrow> bytes" where
  "umbrella_key_of cfid =
     (case strip_prefix ''cfid_'' cfid of
        Some k \<Rightarrow> k
      | None \<Rightarrow> (case strip_prefix ''cfid.'' cfid of Some k \<Rightarrow> k | None \<Rightarrow> cfid))"

definition build_field :: "member list \<Rightarrow> nat \<Rightarrow> bytes \<Rightarrow> umbrella_field" where
  "build_field members i cfid =
     (let src = List.find (\<lambda>f. cf_canonical_field_id f = Some cfid) (concat (map snd members));
          key = umbrella_key_of cfid
      in \<lparr> uf_canonical_field_id = cfid,
           uf_path = (case json_path_parse (''$.'' @ key) of Inr p \<Rightarrow> p | Inl _ \<Rightarrow> [''f'' @ nat_dec i]),
           uf_name = key,
           uf_ty = (case src of Some f \<Rightarrow> FtScalar (cf_ty f) | None \<Rightarrow> FtScalar TyString),
           uf_unit = (case src of Some f \<Rightarrow> cf_unit f | None \<Rightarrow> None),
           uf_cardinality = CardRequired \<rparr>)"

definition build_umbrella :: "bytes \<Rightarrow> bytes list \<Rightarrow> member list \<Rightarrow> umbrella_schema" where
  "build_umbrella umbrella_id cfids members =
     \<lparr> um_umbrella_id = umbrella_id, um_label = ''consolidated-'' @ take 8 (drop 4 umbrella_id), um_version = 1,
       um_fields = map (\<lambda>(i, cfid). build_field members i cfid) (List.enumerate 0 cfids) \<rparr>"

definition child_fields :: "'st umbrella_env \<Rightarrow> 'st \<Rightarrow> schema_record \<Rightarrow> child_field list" where
  "child_fields E st rec =
     child_fields_from_schema (ue_from_str E) rec
       (case ue_active_semantic E (rec_schema_id rec) st of Inr m \<Rightarrow> m | Inl _ \<Rightarrow> None)"

definition annotated_schemas :: "'st umbrella_env \<Rightarrow> 'st \<Rightarrow> schema_record list \<Rightarrow> member list" where
  "annotated_schemas E st recs =
     filter (\<lambda>m. snd m \<noteq> [])
       (map (\<lambda>rec. (rec, filter (\<lambda>f. cf_canonical_field_id f \<noteq> None) (child_fields E st rec))) recs)"

definition signature_of :: "child_field list \<Rightarrow> field_sig list" where
  "signature_of cfs =
     remdups_adj (sort (List.map_filter (\<lambda>f. map_option (\<lambda>c. (c, field_type_tag f)) (cf_canonical_field_id f)) cfs))"

definition group_by_signature :: "member list \<Rightarrow> (field_sig list \<times> member list) list" where
  "group_by_signature members =
     foldl (\<lambda>groups m. bt_entry (\<lambda>ms. ms @ [m]) (signature_of (snd m)) [m] groups) [] members"

section \<open>The guard over a proposal\<close>

definition leaf_path_of :: "bytes \<Rightarrow> bytes" where
  "leaf_path_of p = (case strip_prefix ''$.'' p of Some q \<Rightarrow> q | None \<Rightarrow> p)"

definition leaf_name_of :: "bytes \<Rightarrow> bytes" where
  "leaf_name_of p = last (split_on (CHR ''.'') p)"

definition profile_leaves ::
  "'st umbrella_env \<Rightarrow> 'st \<Rightarrow> schema_record \<Rightarrow> bool \<times> (bytes \<Rightarrow> (8 word \<times> u64) option)" where
  "profile_leaves E st rec =
     (case rec_value_profile_ref rec of
        None \<Rightarrow> (False, \<lambda>_. None)
      | Some r \<Rightarrow>
          (case ue_get_value_profile E r st of
             Inr (Some snap) \<Rightarrow>
               (True, map_of (rev (map (\<lambda>l. (leaf_path l, (numeric_bucket_mask l, l_number (leaf_types l)))) (vp_leaves snap))))
           | _ \<Rightarrow> (False, \<lambda>_. None)))"

definition evidence_of :: "'st umbrella_env \<Rightarrow> 'st \<Rightarrow> bytes \<Rightarrow> member \<Rightarrow> member_evidence option" where
  "evidence_of E st cfid m =
     (case List.find (\<lambda>f. cf_canonical_field_id f = Some cfid) (snd m) of
        None \<Rightarrow> None
      | Some cf \<Rightarrow>
          (let p = leaf_path_of (json_path_text (cf_path cf));
               (has, leaves) = profile_leaves E st (fst m);
               (mask, count) = (case leaves p of Some mc \<Rightarrow> mc | None \<Rightarrow> (0, 0))
           in Some \<lparr> me_name = leaf_name_of p, me_unit = map_option code (cf_unit cf), me_mask = mask,
                     me_numeric_count = count, me_has_profile = has \<rparr>))"

definition shadow_evaluate_guard :: "'st umbrella_env \<Rightarrow> 'st \<Rightarrow> umbrella_schema \<Rightarrow> member list \<Rightarrow> bool" where
  "shadow_evaluate_guard E st um members =
     list_ex (\<lambda>uf. fg_value_verdict (evaluate_field (ue_normalize E)
       (List.map_filter (evidence_of E st (uf_canonical_field_id uf)) members) (ue_min_support E)) = ValuesContradictory)
       (um_fields um)"

section \<open>Proposals\<close>

definition member_clusters :: "member list \<Rightarrow> cluster list" where
  "member_clusters members = remdups (List.map_filter (\<lambda>m. map_option domain_cluster (member_domain (fst m))) members)"

definition member_transform :: "umbrella_schema \<Rightarrow> member \<Rightarrow> child_transform" where
  "member_transform um m =
     assemble_transform (schema_str (rec_schema_id (fst m))) (schema_str (rec_schema_id (fst m))) um
       (um_umbrella_id um @ ''@'' @ nat_dec (unat (um_version um))) (snd m) deterministic_anchor"

definition verified_transforms :: "umbrella_schema \<Rightarrow> member list \<Rightarrow> child_transform list" where
  "verified_transforms um members =
     map (member_transform um) (filter (\<lambda>m. verify_static (member_transform um m) um (snd m) = []) members)"

definition decide_group ::
  "'st umbrella_env \<Rightarrow> field_sig list \<times> member list \<Rightarrow> 'st \<Rightarrow> store_error + (umbrella_schema \<times> child_transform list) option" where
  "decide_group E grp st =
     (let (sig, members) = grp; umbrella_id = umbrella_id_for sig
      in if length members < 2 then Inr None
         else if 1 < length (member_clusters members) \<and> ue_gate_enforce E then Inr None
         else
           result_bind (up_get_umbrella (ue_umbrellas E) umbrella_id st) (\<lambda>existing.
             if (case existing of Some w \<Rightarrow> su_state w \<noteq> UmProvisional | None \<Rightarrow> False) then Inr None
             else
               (let um = build_umbrella umbrella_id (map fst sig) members;
                    transforms = verified_transforms um members
                in if length transforms < 2 then Inr None
                   else if ue_enforce_guard E \<and> shadow_evaluate_guard E st um members then Inr None
                   else Inr (Some (um, transforms)))))"

fun write_transforms :: "'st umbrella_port \<Rightarrow> child_transform list \<Rightarrow> 'st \<Rightarrow> (store_error + unit) \<times> 'st" where
  "write_transforms U [] st = (Inr (), st)"
| "write_transforms U (t # ts) st =
     (case up_put_transform U t st of
        (Inl e, st1) \<Rightarrow> (Inl e, st1)
      | (Inr _, st1) \<Rightarrow> write_transforms U ts st1)"

definition write_proposal ::
  "'st umbrella_port \<Rightarrow> umbrella_schema \<Rightarrow> child_transform list \<Rightarrow> 'st \<Rightarrow> (store_error + unit) \<times> 'st" where
  "write_proposal U um ts st =
     (case up_put_umbrella U um UmProvisional st of
        (Inl e, st1) \<Rightarrow> (Inl e, st1)
      | (Inr _, st1) \<Rightarrow> write_transforms U ts st1)"

datatype api_error =
    CoreFailed core_error
  | StoreFailed store_error
  | ReasonRequired
  | UmbrellaMissing
  | NotProvisional bytes umbrella_state
  | BadChildId bytes id_error
  | ChildGone bytes
  | FailedVerification bytes "(bytes \<times> verify_issue) list"

fun propose_groups ::
  "'st umbrella_env \<Rightarrow> (field_sig list \<times> member list) list \<Rightarrow> bytes list \<Rightarrow> 'st \<Rightarrow> (api_error + bytes list) \<times> 'st" where
  "propose_groups E [] created st = (Inr created, st)"
| "propose_groups E (g # groups) created st =
     (case decide_group E g st of
        Inl e \<Rightarrow> (Inl (StoreFailed e), st)
      | Inr None \<Rightarrow> propose_groups E groups created st
      | Inr (Some (um, ts)) \<Rightarrow>
          (case write_proposal (ue_umbrellas E) um ts st of
             (Inl e, st1) \<Rightarrow> (Inl (StoreFailed e), st1)
           | (Inr _, st1) \<Rightarrow> propose_groups E groups (created @ [um_umbrella_id um]) st1))"

definition propose_umbrellas :: "'st umbrella_env \<Rightarrow> 'st \<Rightarrow> (api_error + bytes list) \<times> 'st" where
  "propose_umbrellas E st =
     (case collect_results id (ue_schema_pages E st) of
        Inl e \<Rightarrow> (Inl (CoreFailed e), st)
      | Inr pages \<Rightarrow> propose_groups E (group_by_signature (annotated_schemas E st (concat pages))) [] st)"

section \<open>Decisions of reviewers\<close>

definition child_issues ::
  "'st umbrella_env \<Rightarrow> umbrella_schema \<Rightarrow> 'st \<Rightarrow> child_transform \<Rightarrow> api_error + (bytes \<times> verify_issue) list" where
  "child_issues E um st t =
     (case schema_id_parse (ue_b32 E) (ct_child_schema_id t) of
        Inl e \<Rightarrow> Inl (BadChildId (ct_child_schema_id t) e)
      | Inr cid \<Rightarrow>
          result_bind (result_map_err CoreFailed (ue_get_schema E cid st)) (\<lambda>found.
            case found of
              None \<Rightarrow> Inl (ChildGone (ct_child_schema_id t))
            | Some rec \<Rightarrow>
                Inr (map (\<lambda>issue. (ct_child_schema_id t, issue))
                  (verify_static t um (child_fields_from_schema (ue_from_str E) rec
                    (case ue_active_semantic E cid st of Inr m \<Rightarrow> m | Inl _ \<Rightarrow> None))))))"

definition lineage_of :: "umbrella_bundle \<Rightarrow> bytes \<Rightarrow> lineage_assertion" where
  "lineage_of bundle reason =
     \<lparr> la_umbrella_id = um_umbrella_id (ub_umbrella bundle), la_umbrella_version = um_version (ub_umbrella bundle),
       la_members = map (\<lambda>t. \<lparr> lm_child_schema_id = ct_child_schema_id t, lm_child_revision = ct_child_revision t,
         lm_transform_present = True \<rparr>) (ub_transforms bundle),
       la_approved_reason = reason \<rparr>"

definition promote_verified ::
  "'st umbrella_port \<Rightarrow> umbrella_bundle \<Rightarrow> bytes \<Rightarrow> 'st \<Rightarrow> (api_error + nat) \<times> 'st" where
  "promote_verified U bundle reason st =
     (case up_promote_bundle U bundle st of
        (Inl e, st1) \<Rightarrow> (Inl (StoreFailed e), st1)
      | (Inr _, st1) \<Rightarrow>
          (case up_put_lineage U (lineage_of bundle reason) st1 of
             (Inl e, st2) \<Rightarrow> (Inl (StoreFailed e), st2)
           | (Inr _, st2) \<Rightarrow> (Inr (length (ub_transforms bundle)), st2)))"

definition approve :: "'st umbrella_env \<Rightarrow> bytes \<Rightarrow> bytes \<Rightarrow> 'st \<Rightarrow> (api_error + nat) \<times> 'st" where
  "approve E umbrella_id reason st =
     (if ue_trim E reason = [] then (Inl ReasonRequired, st)
      else
        (case up_get_umbrella (ue_umbrellas E) umbrella_id st of
           Inl e \<Rightarrow> (Inl (StoreFailed e), st)
         | Inr None \<Rightarrow> (Inl UmbrellaMissing, st)
         | Inr (Some stored) \<Rightarrow>
             if su_state stored \<noteq> UmProvisional then (Inl (NotProvisional umbrella_id (su_state stored)), st)
             else
               (case up_list_transforms (ue_umbrellas E) umbrella_id st of
                  Inl e \<Rightarrow> (Inl (StoreFailed e), st)
                | Inr transforms \<Rightarrow>
                    (case collect_results (child_issues E (su_schema stored) st) transforms of
                       Inl e \<Rightarrow> (Inl e, st)
                     | Inr issues \<Rightarrow>
                         if concat issues \<noteq> [] then (Inl (FailedVerification umbrella_id (concat issues)), st)
                         else promote_verified (ue_umbrellas E)
                           \<lparr> ub_umbrella = su_schema stored, ub_transforms = transforms \<rparr> reason st))))"

definition reject :: "'st umbrella_env \<Rightarrow> bytes \<Rightarrow> 'st \<Rightarrow> (api_error + unit) \<times> 'st" where
  "reject E umbrella_id st =
     (case up_get_umbrella (ue_umbrellas E) umbrella_id st of
        Inl e \<Rightarrow> (Inl (StoreFailed e), st)
      | Inr None \<Rightarrow> (Inl UmbrellaMissing, st)
      | Inr (Some stored) \<Rightarrow>
          (case up_set_state (ue_umbrellas E) umbrella_id UmRejected st of
             (Inl e, st1) \<Rightarrow> (Inl (StoreFailed e), st1)
           | (Inr _, st1) \<Rightarrow> (Inr (), st1)))"

datatype umbrella_request = Propose | Approve bytes bytes | Reject bytes

fun serve_request :: "'st umbrella_env \<Rightarrow> umbrella_request \<Rightarrow> 'st \<Rightarrow> 'st" where
  "serve_request E Propose st = snd (propose_umbrellas E st)"
| "serve_request E (Approve i reason) st = snd (approve E i reason st)"
| "serve_request E (Reject i) st = snd (reject E i st)"

text \<open>A run serves requests one after the other; schemas and annotations may differ at each.\<close>

fun umbrella_run :: "('st umbrella_env \<times> umbrella_request) list \<Rightarrow> 'st \<Rightarrow> 'st" where
  "umbrella_run [] st = st"
| "umbrella_run ((E, r) # requests) st = umbrella_run requests (serve_request E r st)"

end
