(* ===== verification/Umbrella_Lifecycle.thy ===== *)
theory Umbrella_Lifecycle
  imports Umbrella_Service
begin

text \<open>
  The life of an umbrella, proved over any store that satisfies the contract of the trait: what a
  proposal writes, what an approval checks, and what no request may change any more.
\<close>

section \<open>Sets of transforms\<close>

lemma with_transforms_append: "with_transforms (xs @ ys) f = with_transforms ys (with_transforms xs f)"
  by (induction ys rule: rev_induct) (simp_all flip: append_assoc add: with_transforms_snoc)

lemma with_transforms_Cons: "with_transforms (t # ts) f = with_transforms ts (with_transforms [t] f)"
  using with_transforms_append [of "[t]" ts f] by simp

lemma find_SomeD: "List.find P xs = Some x \<Longrightarrow> x \<in> set xs \<and> P x"
  by (induction xs) (auto split: if_splits)

lemma with_transforms_Some:
  "with_transforms ts f u c = Some t \<Longrightarrow> t \<in> set ts \<and> ct_umbrella_id t = u \<and> ct_child_schema_id t = c \<or> f u c = Some t"
  by (auto simp: with_transforms_def split: option.splits dest: find_SomeD)

lemma with_transforms_cong: "f u = g u \<Longrightarrow> with_transforms ts f u = with_transforms ts g u"
  unfolding with_transforms_def by (rule ext) (simp split: option.split)

lemma with_transforms_same:
  assumes "\<forall>t\<in>set ts. f (ct_umbrella_id t) (ct_child_schema_id t) = Some t"
  shows "with_transforms ts f = f"
proof (intro ext)
  fix u c
  show "with_transforms ts f u c = f u c"
  proof (cases "List.find (\<lambda>t. ct_umbrella_id t = u \<and> ct_child_schema_id t = c) (rev ts)")
    case (Some t)
    from find_SomeD [OF this] have "t \<in> set ts" "ct_umbrella_id t = u" "ct_child_schema_id t = c" by auto
    then show ?thesis using assms Some by (auto simp: with_transforms_def)
  qed (simp add: with_transforms_def)
qed

section \<open>Identifiers\<close>

lemma hex16_plain: "CHR '':'' \<notin> set (hex16 h)"
proof -
  have "char_of (if d < 10 then 48 + d else 87 + d) \<noteq> CHR '':''" if "d < 16" for d :: nat
  proof
    assume "char_of (if d < 10 then 48 + d else 87 + d) = CHR '':''"
    then have "byte_val (char_of (if d < 10 then 48 + d else 87 + d)) = 58" by (simp add: byte_val_def)
    then show False using that by (simp add: byte_val_char_of split: if_splits)
  qed
  moreover have "unat (take_bit 4 (drop_bit (4 * i) h)) < 16" for i
    using take_bit_nat_less_exp [of 4 "unat (drop_bit (4 * i) h)"] by (simp add: unsigned_take_bit_eq)
  ultimately show ?thesis unfolding hex16_def Let_def set_map image_iff by metis
qed

lemma minted_plain: "CHR '':'' \<notin> set (umbrella_id_for sig)"
  using hex16_plain by (simp add: umbrella_id_for_def)

section \<open>Requests\<close>

text \<open>What is decided stays: a rejected umbrella for ever, an active one up to its rejection.\<close>

definition decided_kept ::
  "('st \<Rightarrow> bytes \<Rightarrow> stored_umbrella option) \<Rightarrow> ('st \<Rightarrow> bytes \<Rightarrow> bytes \<Rightarrow> child_transform option) \<Rightarrow>
     ('st \<Rightarrow> bytes \<Rightarrow> lineage_assertion option) \<Rightarrow> 'st \<Rightarrow> 'st \<Rightarrow> bool" where
  "decided_kept umb trf lin st st' \<longleftrightarrow>
     (\<forall>i w. umb st i = Some w \<longrightarrow> su_state w \<noteq> UmProvisional \<longrightarrow>
        (\<exists>s. umb st' i = Some (w\<lparr> su_state := s \<rparr>) \<and> (s = su_state w \<or> su_state w = UmActive \<and> s = UmRejected)) \<and>
        trf st' i = trf st i \<and> lin st' i = lin st i)"

lemma decided_kept_refl: "decided_kept umb trf lin st st"
  unfolding decided_kept_def by (metis stored_umbrella.surjective stored_umbrella.update_convs(2) old.unit.exhaust)

lemma decided_kept_trans:
  assumes "decided_kept umb trf lin st st'" "decided_kept umb trf lin st' st''"
  shows "decided_kept umb trf lin st st''"
  unfolding decided_kept_def
proof (intro allI impI)
  fix i w assume w: "umb st i = Some w" "su_state w \<noteq> UmProvisional"
  with assms(1) obtain s where s: "umb st' i = Some (w\<lparr>su_state := s\<rparr>)" "s = su_state w \<or> su_state w = UmActive \<and> s = UmRejected"
    "trf st' i = trf st i" "lin st' i = lin st i" unfolding decided_kept_def by blast
  then have "su_state (w\<lparr>su_state := s\<rparr>) \<noteq> UmProvisional" using w(2) by auto
  with assms(2) s(1) obtain s' where s': "umb st'' i = Some (w\<lparr>su_state := s, su_state := s'\<rparr>)"
    "s' = s \<or> s = UmActive \<and> s' = UmRejected" "trf st'' i = trf st' i" "lin st'' i = lin st' i"
    unfolding decided_kept_def by fastforce
  show "(\<exists>s. umb st'' i = Some (w\<lparr>su_state := s\<rparr>) \<and> (s = su_state w \<or> su_state w = UmActive \<and> s = UmRejected)) \<and>
      trf st'' i = trf st i \<and> lin st'' i = lin st i"
    using s s' by auto
qed

lemma moved_umbrella: "w\<lparr> su_state := s \<rparr> = \<lparr> su_schema = su_schema w, su_state = s \<rparr>" for w :: stored_umbrella
  by (cases w) simp

text \<open>A sound store whose umbrellas have plain ids.\<close>

definition umbrellas_good :: "(bytes \<Rightarrow> bool) \<Rightarrow> ('st \<Rightarrow> bool) \<Rightarrow> ('st \<Rightarrow> bytes \<Rightarrow> stored_umbrella option) \<Rightarrow> 'st \<Rightarrow> bool" where
  "umbrellas_good ok intact umb st \<longleftrightarrow> intact st \<and> (\<forall>i w. umb st i = Some w \<longrightarrow> ok i)"

text \<open>What a group must pass before it is written.\<close>

definition sound_proposal :: "'st umbrella_env \<Rightarrow> 'st \<Rightarrow> field_sig list \<times> member list \<Rightarrow> umbrella_schema \<Rightarrow> child_transform list \<Rightarrow> bool" where
  "sound_proposal E st g um ts \<longleftrightarrow>
     um = build_umbrella (umbrella_id_for (fst g)) (map fst (fst g)) (snd g) \<and> 2 \<le> length ts \<and>
     (\<forall>t\<in>set ts. \<exists>m\<in>set (snd g). t = member_transform um m \<and> verify_static t um (snd m) = []) \<and>
     (ue_gate_enforce E \<longrightarrow> length (member_clusters (snd g)) \<le> 1) \<and>
     (ue_enforce_guard E \<longrightarrow> \<not> shadow_evaluate_guard E st um (snd g))"

text \<open>What the groups leave behind: for a new id, the sound proposal of its group.\<close>

definition proposal ::
  "('st \<Rightarrow> bytes \<Rightarrow> stored_umbrella option) \<Rightarrow> ('st \<Rightarrow> bytes \<Rightarrow> bytes \<Rightarrow> child_transform option) \<Rightarrow> 'st umbrella_env \<Rightarrow>
     (field_sig list \<times> member list) list \<Rightarrow> 'st \<Rightarrow> 'st \<Rightarrow> bytes \<Rightarrow> bool" where
  "proposal umb trf E groups st st' i \<longleftrightarrow>
     (\<exists>g\<in>set groups. \<exists>um ts sti. sound_proposal E sti g um ts \<and> um_umbrella_id um = i \<and>
        umb st' i = Some \<lparr> su_schema = um, su_state = UmProvisional \<rparr> \<and> trf st' i = with_transforms ts (trf st) i)"

text \<open>What an approval that succeeds has checked and done.\<close>

definition approval ::
  "('st \<Rightarrow> bytes \<Rightarrow> stored_umbrella option) \<Rightarrow> ('st \<Rightarrow> bytes \<Rightarrow> bytes \<Rightarrow> child_transform option) \<Rightarrow>
     ('st \<Rightarrow> bytes \<Rightarrow> lineage_assertion option) \<Rightarrow> 'st umbrella_env \<Rightarrow> bytes \<Rightarrow> bytes \<Rightarrow> nat \<Rightarrow> 'st \<Rightarrow> 'st \<Rightarrow> bool" where
  "approval umb trf lin E i reason n st st' \<longleftrightarrow>
     ue_trim E reason \<noteq> [] \<and>
     (\<exists>w ts. umb st i = Some w \<and> su_state w = UmProvisional \<and> set ts = {t. \<exists>c. trf st i c = Some t} \<and> n = length ts \<and>
        (\<forall>t\<in>set ts. child_issues E (su_schema w) st t = Inr []) \<and>
        umb st' = (umb st)(i \<mapsto> w\<lparr> su_state := UmActive \<rparr>) \<and> trf st' = trf st \<and>
        lin st' = (lin st)(i \<mapsto> lineage_of \<lparr> ub_umbrella = su_schema w, ub_transforms = ts \<rparr> reason))"

locale umbrella_service = umbrella_contract U plain intact umb trf lin
  for U :: "'st umbrella_port" and plain intact umb trf lin +
  assumes minted: "plain (umbrella_id_for sig)"
begin

abbreviation good :: "'st \<Rightarrow> bool" where
  "good \<equiv> umbrellas_good plain intact umb"

abbreviation kept :: "'st \<Rightarrow> 'st \<Rightarrow> bool" where
  "kept \<equiv> decided_kept umb trf lin"

abbreviation proposed ::
  "'st umbrella_env \<Rightarrow> (field_sig list \<times> member list) list \<Rightarrow> 'st \<Rightarrow> 'st \<Rightarrow> bytes \<Rightarrow> bool" where
  "proposed \<equiv> proposal umb trf"

abbreviation approved :: "'st umbrella_env \<Rightarrow> bytes \<Rightarrow> bytes \<Rightarrow> nat \<Rightarrow> 'st \<Rightarrow> 'st \<Rightarrow> bool" where
  "approved \<equiv> approval umb trf lin"

lemma write_transforms_contract:
  assumes "intact st" "\<forall>t\<in>set ts. plain (ct_umbrella_id t)" "write_transforms U ts st = (res, st')"
  shows "res = Inr () \<and> intact st' \<and> umb st' = umb st \<and> trf st' = with_transforms ts (trf st) \<and> lin st' = lin st"
  using assms
proof (induction ts arbitrary: st)
  case (Cons t ts)
  obtain r st1 where r: "up_put_transform U t st = (r, st1)" by fastforce
  then have "r = Inr () \<and> intact st1 \<and> umb st1 = umb st \<and> trf st1 = with_transforms [t] (trf st) \<and> lin st1 = lin st"
    using put_transform [OF Cons.prems(1) _ r] Cons.prems(2) by simp
  moreover from this have "write_transforms U ts st1 = (res, st')" using Cons.prems(3) r by simp
  ultimately show ?case using Cons.IH [of st1] Cons.prems(2) with_transforms_Cons [of t ts] by simp
qed simp

lemma write_proposal_contract:
  assumes "intact st" "\<forall>t\<in>set ts. plain (ct_umbrella_id t)" "write_proposal U um ts st = (res, st')"
  shows "res = Inr () \<and> intact st' \<and> umb st' = (umb st)(um_umbrella_id um \<mapsto> \<lparr> su_schema = um, su_state = UmProvisional \<rparr>) \<and>
    trf st' = with_transforms ts (trf st) \<and> lin st' = lin st"
proof -
  obtain r st1 where r: "up_put_umbrella U um UmProvisional st = (r, st1)" by fastforce
  note p = put_umbrella [OF assms(1) r]
  then have "write_transforms U ts st1 = (res, st')" using assms(3) r by (simp add: write_proposal_def)
  from write_transforms_contract [OF _ assms(2) this] p show ?thesis by simp
qed

lemma member_transform_umbrella: "ct_umbrella_id (member_transform um m) = um_umbrella_id um"
  by (simp add: member_transform_def assemble_transform_def split: prod.split)

lemma decide_group_contract:
  assumes "intact st" "ue_umbrellas E = U"
  shows "\<exists>d. decide_group E g st = Inr d \<and>
    (\<forall>um ts. d = Some (um, ts) \<longrightarrow> sound_proposal E st g um ts \<and>
      (\<forall>w. umb st (um_umbrella_id um) = Some w \<longrightarrow> su_state w = UmProvisional))"
  using get_umbrella [OF assms(1), of "umbrella_id_for (fst g)"] assms(2)
  by (cases g)
    (auto simp: decide_group_def Let_def sound_proposal_def verified_transforms_def build_umbrella_def split: option.split)

lemma sound_own_id:
  assumes "sound_proposal E st g um ts" "t \<in> set ts"
  shows "ct_umbrella_id t = um_umbrella_id um" "um_umbrella_id um = umbrella_id_for (fst g)" "plain (ct_umbrella_id t)"
proof -
  show "ct_umbrella_id t = um_umbrella_id um"
    using assms by (auto simp: sound_proposal_def member_transform_umbrella)
  moreover show "um_umbrella_id um = umbrella_id_for (fst g)"
    using assms(1) by (simp add: sound_proposal_def build_umbrella_def)
  ultimately show "plain (ct_umbrella_id t)" using minted by simp
qed

lemma write_proposal_kept:
  assumes g: "good st" and s: "sound_proposal E (sti :: 'st) g um ts" and run: "write_proposal U um ts st = (res, st')"
    and undecided: "\<forall>w. umb st (um_umbrella_id um) = Some w \<longrightarrow> su_state w = UmProvisional"
  shows "res = Inr () \<and> good st' \<and> kept st st' \<and> lin st' = lin st \<and>
    umb st' = (umb st)(um_umbrella_id um \<mapsto> \<lparr> su_schema = um, su_state = UmProvisional \<rparr>) \<and> trf st' = with_transforms ts (trf st)"
proof -
  have own: "\<forall>t\<in>set ts. ct_umbrella_id t = um_umbrella_id um \<and> plain (ct_umbrella_id t)" using sound_own_id [OF s] by blast
  have i: "intact st" using g by (simp add: umbrellas_good_def)
  have w: "res = Inr ()" "intact st'" "umb st' = (umb st)(um_umbrella_id um \<mapsto> \<lparr> su_schema = um, su_state = UmProvisional \<rparr>)"
    "trf st' = with_transforms ts (trf st)" "lin st' = lin st"
    using write_proposal_contract [OF i _ run] own by blast+
  have "um_umbrella_id um = umbrella_id_for (fst g)" using s by (simp add: sound_proposal_def build_umbrella_def)
  then have "plain (um_umbrella_id um)" by (simp add: minted)
  then have "good st'" using g w(2,3) by (auto simp: umbrellas_good_def)
  moreover have "kept st st'"
    unfolding decided_kept_def
  proof (intro allI impI)
    fix j x assume j: "umb st j = Some x" "su_state x \<noteq> UmProvisional"
    then have "j \<noteq> um_umbrella_id um" using undecided by auto
    then have "with_transforms ts (trf st) j = trf st j" using own by (intro with_transforms_other) auto
    then show "(\<exists>s. umb st' j = Some (x\<lparr>su_state := s\<rparr>) \<and> (s = su_state x \<or> su_state x = UmActive \<and> s = UmRejected)) \<and>
        trf st' j = trf st j \<and> lin st' j = lin st j"
      using j(1) \<open>j \<noteq> um_umbrella_id um\<close> by (auto simp: w(3-5) intro: exI [of _ "su_state x"])
  qed
  ultimately show ?thesis using w by blast
qed

lemma propose_groups_contract:
  assumes "good st" "ue_umbrellas E = U" "propose_groups E groups created st = (res, st')"
  shows "\<exists>new. res = Inr (created @ new) \<and> good st' \<and> kept st st' \<and> lin st' = lin st \<and>
    set new \<subseteq> (umbrella_id_for \<circ> fst) ` set groups \<and>
    (\<forall>i. i \<notin> set new \<longrightarrow> umb st' i = umb st i \<and> trf st' i = trf st i) \<and>
    (distinct (map (umbrella_id_for \<circ> fst) groups) \<longrightarrow> (\<forall>i\<in>set new. proposed E groups st st' i))"
  using assms(1,3)
proof (induction groups arbitrary: created st)
  case Nil
  then show ?case by (auto simp: decided_kept_refl)
next
  case (Cons g groups)
  have "intact st" using Cons.prems(1) by (simp add: umbrellas_good_def)
  from decide_group_contract [OF this assms(2), of g] obtain d where d: "decide_group E g st = Inr d"
    "\<And>um ts. d = Some (um, ts) \<Longrightarrow> sound_proposal E st g um ts \<and>
      (\<forall>w. umb st (um_umbrella_id um) = Some w \<longrightarrow> su_state w = UmProvisional)" by blast
  show ?case
  proof (cases d)
    case None
    then have "propose_groups E groups created st = (res, st')" using Cons.prems(2) d(1) by simp
    from Cons.IH [OF Cons.prems(1) this] show ?thesis
      by (auto simp: proposal_def)
  next
    case (Some x)
    obtain um ts where x: "x = (um, ts)" by fastforce
    note sd = d(2) [of um ts, unfolded Some x, OF refl]
    obtain r st1 where r: "write_proposal U um ts st = (r, st1)" by fastforce
    from write_proposal_kept [OF Cons.prems(1) _ r] sd
    have w: "r = Inr ()" "good st1" "kept st st1" "lin st1 = lin st"
      "umb st1 = (umb st)(um_umbrella_id um \<mapsto> \<lparr> su_schema = um, su_state = UmProvisional \<rparr>)"
      "trf st1 = with_transforms ts (trf st)" by blast+
    have run: "propose_groups E groups (created @ [um_umbrella_id um]) st1 = (res, st')"
      using Cons.prems(2) d(1) Some x r w(1) assms(2) by simp
    from Cons.IH [OF w(2) run] obtain new where n: "res = Inr ((created @ [um_umbrella_id um]) @ new)" "good st'" "kept st1 st'"
      "lin st' = lin st1" "set new \<subseteq> (umbrella_id_for \<circ> fst) ` set groups"
      "\<forall>i. i \<notin> set new \<longrightarrow> umb st' i = umb st1 i \<and> trf st' i = trf st1 i"
      "distinct (map (umbrella_id_for \<circ> fst) groups) \<longrightarrow> (\<forall>i\<in>set new. proposed E groups st1 st' i)" by blast
    have id: "um_umbrella_id um = umbrella_id_for (fst g)" using sd by (simp add: sound_proposal_def build_umbrella_def)
    have own: "\<forall>t\<in>set ts. ct_umbrella_id t = um_umbrella_id um" using sound_own_id(1) [OF conjunct1 [OF sd]] by blast
    have other: "trf st1 i = trf st i" if "i \<noteq> um_umbrella_id um" for i
      unfolding w(6) by (rule with_transforms_other) (use own that in auto)
    have P: "proposed E (g # groups) st st' i"
      if dist: "distinct (map (umbrella_id_for \<circ> fst) (g # groups))" and i: "i \<in> set (um_umbrella_id um # new)" for i
    proof -
      have notin: "um_umbrella_id um \<notin> set new" using dist n(5) id by auto
      show ?thesis
      proof (cases "i = um_umbrella_id um")
        case True
        then show ?thesis using n(6) notin sd w(5,6) unfolding proposal_def by auto
      next
        case False
        then have "proposed E groups st1 st' i" using n(7) dist i by auto
        then show ?thesis
          using with_transforms_cong [of "trf st1" i "trf st"] other [OF False] unfolding proposal_def by (metis list.set_intros(2))
      qed
    qed
    show ?thesis
    proof (intro exI conjI impI allI ballI)
      show "res = Inr (created @ um_umbrella_id um # new)" using n(1) by simp
      show "good st'" "kept st st'" "lin st' = lin st" using n(2,3,4) w(3,4) decided_kept_trans by auto
      show "set (um_umbrella_id um # new) \<subseteq> (umbrella_id_for \<circ> fst) ` set (g # groups)" using n(5) id by auto
    next
      fix i assume "i \<notin> set (um_umbrella_id um # new)"
      then show "umb st' i = umb st i" "trf st' i = trf st i" using n(6) w(5) other by auto
    next
      fix i assume "distinct (map (umbrella_id_for \<circ> fst) (g # groups))" "i \<in> set (um_umbrella_id um # new)"
      then show "proposed E (g # groups) st st' i" by (rule P)
    qed
  qed
qed

lemma propose_groups_provisional:
  assumes "good st" "ue_umbrellas E = U" "propose_groups E groups created st = (res, st')"
  shows "umb st' i = umb st i \<or> (\<exists>w. umb st' i = Some w \<and> su_state w = UmProvisional)"
  using assms(1,3)
proof (induction groups arbitrary: created st)
  case (Cons g groups)
  have "intact st" using Cons.prems(1) by (simp add: umbrellas_good_def)
  from decide_group_contract [OF this assms(2), of g] obtain d where d: "decide_group E g st = Inr d"
    "\<And>um ts. d = Some (um, ts) \<Longrightarrow> sound_proposal E st g um ts \<and>
      (\<forall>w. umb st (um_umbrella_id um) = Some w \<longrightarrow> su_state w = UmProvisional)" by blast
  show ?case
  proof (cases d)
    case None
    then show ?thesis using Cons.IH [OF Cons.prems(1)] Cons.prems(2) d(1) by simp
  next
    case (Some x)
    obtain um ts r st1 where x: "x = (um, ts)" "write_proposal U um ts st = (r, st1)" by (metis surj_pair)
    with write_proposal_kept [OF Cons.prems(1) _ x(2)] d(2) Some
    have w: "r = Inr ()" "good st1" "umb st1 = (umb st)(um_umbrella_id um \<mapsto> \<lparr> su_schema = um, su_state = UmProvisional \<rparr>)"
      by blast+
    then show ?thesis using Cons.IH [OF w(2)] Cons.prems(2) d(1) Some x assms(2) by fastforce
  qed
qed simp

lemma propose_kept:
  assumes "good st" "ue_umbrellas E = U" "propose_umbrellas E st = (res, st')"
  shows "good st' \<and> kept st st' \<and> lin st' = lin st \<and>
    (\<forall>i. umb st' i = umb st i \<or> (\<exists>w. umb st' i = Some w \<and> su_state w = UmProvisional))"
proof (cases "collect_results id (ue_schema_pages E st)")
  case (Inl e)
  then show ?thesis using assms by (auto simp: propose_umbrellas_def decided_kept_refl)
next
  case (Inr pages)
  let ?gs = "group_by_signature (annotated_schemas E st (concat pages))"
  have run: "propose_groups E ?gs [] st = (res, st')" using assms(3) Inr by (simp add: propose_umbrellas_def)
  have "good st'" "kept st st'" "lin st' = lin st"
    using propose_groups_contract [OF assms(1,2) run] by blast+
  moreover have "umb st' i = umb st i \<or> (\<exists>w. umb st' i = Some w \<and> su_state w = UmProvisional)" for i
    using propose_groups_provisional [OF assms(1,2) run] by blast
  ultimately show ?thesis by blast
qed

lemma collect_results_Inr: "collect_results f xs = Inr ys \<Longrightarrow> list_all2 (\<lambda>x y. f x = Inr y) xs ys"
  by (induction xs arbitrary: ys) (auto simp: result_bind_Inr_iff)

lemma approve_contract:
  assumes g: "good st" and U: "ue_umbrellas E = U" and run: "approve E i reason st = (res, st')"
  shows "case res of Inl e \<Rightarrow> st' = st | Inr n \<Rightarrow> good st' \<and> approved E i reason n st st'"
proof (cases "\<exists>w. ue_trim E reason \<noteq> [] \<and> umb st i = Some w \<and> su_state w = UmProvisional")
  case False
  then show ?thesis using run get_umbrella [of st i] g
    by (auto simp: approve_def U umbrellas_good_def split: if_splits option.splits)
next
  case True
  have int: "intact st" using g by (simp add: umbrellas_good_def)
  from True obtain w where w: "ue_trim E reason \<noteq> []" "umb st i = Some w" "su_state w = UmProvisional" by blast
  then have pl: "plain i" and id: "um_umbrella_id (su_schema w) = i"
    using g umbrella_own_id [OF int] by (auto simp: umbrellas_good_def)
  obtain ts where ts: "up_list_transforms U i st = Inr ts" "set ts = {t. \<exists>c. trf st i c = Some t}"
    using list_transforms [OF int pl] by blast
  show ?thesis
  proof (cases "\<exists>is. collect_results (child_issues E (su_schema w) st) ts = Inr is \<and> concat is = []")
    case False
    then show ?thesis using run w ts(1) get_umbrella [OF int, of i]
      by (auto simp: approve_def U split: sum.splits if_splits)
  next
    case clean: True
    let ?b = "\<lparr> ub_umbrella = su_schema w, ub_transforms = ts \<rparr>"
    have pv: "promote_verified U ?b reason st = (res, st')"
      using run w ts(1) get_umbrella [OF int, of i] clean by (auto simp: approve_def U)
    have own: "\<forall>t\<in>set ts. ct_umbrella_id t = i \<and> trf st (ct_umbrella_id t) (ct_child_schema_id t) = Some t"
      using ts(2) transform_own_id [OF int pl] by force
    have same: "with_transforms ts (trf st) = trf st" by (rule with_transforms_same) (use own in blast)
    obtain r1 st1 where p: "up_promote_bundle U ?b st = (r1, st1)" by fastforce
    have 1: "r1 = Inr ()" "intact st1" "umb st1 = (umb st)(i \<mapsto> \<lparr> su_schema = su_schema w, su_state = UmActive \<rparr>)"
      "trf st1 = trf st" "lin st1 = lin st"
      using promote_bundle [OF int _ _ p] pl own id same by auto
    obtain r2 st2 where l: "up_put_lineage U (lineage_of ?b reason) st1 = (r2, st2)" by fastforce
    have 2: "r2 = Inr ()" "intact st2" "umb st2 = umb st1" "trf st2 = trf st1"
      "lin st2 = (lin st1)(i \<mapsto> lineage_of ?b reason)"
      using put_lineage [OF 1(2) l] id by (auto simp: lineage_of_def)
    have out: "res = Inr (length ts)" "st' = st2" using pv p l 1(1) 2(1) by (auto simp: promote_verified_def)
    have "\<forall>t\<in>set ts. child_issues E (su_schema w) st t = Inr []"
      using clean collect_results_Inr by (fastforce simp: list_all2_conv_all_nth in_set_conv_nth)
    then have "approved E i reason (length ts) st st'"
      unfolding approval_def using w ts(2) 1 2 out by (intro conjI exI [of _ w] exI [of _ ts]) (simp_all add: moved_umbrella)
    moreover have "good st'" using g 1(3) 2(2,3) out(2) pl by (auto simp: umbrellas_good_def)
    ultimately show ?thesis using out(1) by simp
  qed
qed

lemma collect_results_all: "\<forall>x\<in>set xs. f x = Inr [] \<Longrightarrow> collect_results f xs = Inr (map (\<lambda>_. []) xs)"
  by (induction xs) auto

lemma approve_succeeds:
  assumes g: "good st" and U: "ue_umbrellas E = U"
    and w: "ue_trim E reason \<noteq> []" "umb st i = Some w" "su_state w = UmProvisional"
    and clean: "\<And>c t. trf st i c = Some t \<Longrightarrow> child_issues E (su_schema w) st t = Inr []"
  shows "\<exists>n st'. approve E i reason st = (Inr n, st')"
proof -
  have int: "intact st" and pl: "plain i" using g w(2) by (auto simp: umbrellas_good_def)
  obtain ts where ts: "up_list_transforms U i st = Inr ts" "set ts = {t. \<exists>c. trf st i c = Some t}"
    using list_transforms [OF int pl] by blast
  let ?b = "\<lparr> ub_umbrella = su_schema w, ub_transforms = ts \<rparr>"
  have "\<forall>t\<in>set ts. child_issues E (su_schema w) st t = Inr []" using ts(2) clean by auto
  from collect_results_all [OF this] have run: "approve E i reason st = promote_verified U ?b reason st"
    using w ts(1) get_umbrella [OF int, of i] by (simp add: approve_def U o_def concat_eq_Nil_conv)
  have id: "um_umbrella_id (su_schema w) = i" using umbrella_own_id [OF int w(2)] .
  have own: "\<forall>t\<in>set ts. ct_umbrella_id t = i" using ts(2) transform_own_id [OF int pl] by force
  obtain r1 st1 where p: "up_promote_bundle U ?b st = (r1, st1)" by fastforce
  have 1: "r1 = Inr ()" "intact st1" using promote_bundle [OF int _ _ p] pl own id by auto
  obtain r2 st2 where l: "up_put_lineage U (lineage_of ?b reason) st1 = (r2, st2)" by fastforce
  then show ?thesis using put_lineage [OF 1(2) l] p 1(1) by (auto simp: run promote_verified_def)
qed

lemma approved_kept:
  assumes "approved E i reason n st st'"
  shows "kept st st'"
proof -
  from assms obtain w a where w: "umb st i = Some w" "su_state w = UmProvisional"
    "umb st' = (umb st)(i \<mapsto> w\<lparr> su_state := UmActive \<rparr>)" "trf st' = trf st" "lin st' = (lin st)(i \<mapsto> a)"
    unfolding approval_def by blast
  show ?thesis
    unfolding decided_kept_def
  proof (intro allI impI)
    fix j x assume "umb st j = Some x" "su_state x \<noteq> UmProvisional"
    moreover from this have "j \<noteq> i" using w by auto
    ultimately show "(\<exists>s. umb st' j = Some (x\<lparr>su_state := s\<rparr>) \<and> (s = su_state x \<or> su_state x = UmActive \<and> s = UmRejected)) \<and>
        trf st' j = trf st j \<and> lin st' j = lin st j"
      by (auto simp: w(3-5) intro: exI [of _ "su_state x"])
  qed
qed

lemma reject_contract:
  assumes g: "good st" and U: "ue_umbrellas E = U" and run: "reject E i st = (res, st')"
  shows "good st' \<and> kept st st' \<and>
    (case umb st i of
       None \<Rightarrow> res = Inl UmbrellaMissing \<and> st' = st
     | Some w \<Rightarrow> res = Inr () \<and> umb st' = (umb st)(i \<mapsto> w\<lparr> su_state := UmRejected \<rparr>) \<and> trf st' = trf st \<and> lin st' = lin st)"
proof (cases "umb st i")
  case None
  then show ?thesis using run get_umbrella [of st i] g by (auto simp: reject_def U umbrellas_good_def decided_kept_refl)
next
  case (Some w)
  have int: "intact st" using g by (simp add: umbrellas_good_def)
  obtain r st1 where r: "up_set_state U i UmRejected st = (r, st1)" by fastforce
  have s: "r = Inr ()" "intact st1" "umb st1 = (umb st)(i \<mapsto> w\<lparr> su_state := UmRejected \<rparr>)" "trf st1 = trf st" "lin st1 = lin st"
    using set_state [OF int r] Some by auto
  have out: "res = Inr ()" "st' = st1" using run r s(1) get_umbrella [OF int, of i] Some by (auto simp: reject_def U)
  have "kept st st'"
    unfolding decided_kept_def
  proof (intro allI impI)
    fix j x assume j: "umb st j = Some x" "su_state x \<noteq> UmProvisional"
    have st: "su_state x = UmActive \<or> su_state x = UmRejected" using j(2) by (cases "su_state x") auto
    show "(\<exists>s. umb st' j = Some (x\<lparr>su_state := s\<rparr>) \<and> (s = su_state x \<or> su_state x = UmActive \<and> s = UmRejected)) \<and>
        trf st' j = trf st j \<and> lin st' j = lin st j"
    proof (cases "j = i")
      case True
      then show ?thesis using j(1) Some st by (auto simp: out s intro: exI [of _ UmRejected])
    next
      case False
      then show ?thesis using j(1) by (auto simp: out s intro: exI [of _ "su_state x"])
    qed
  qed
  moreover have "good st'" using g s(2,3) out(2) Some by (auto simp: umbrellas_good_def)
  ultimately show ?thesis using Some s out by simp
qed

text \<open>An umbrella becomes active through an approval only.\<close>

lemma serve_request_contract:
  assumes g: "good st" and U: "ue_umbrellas E = U"
  shows "good (serve_request E r st) \<and> kept st (serve_request E r st) \<and>
    (\<forall>i w. umb (serve_request E r st) i = Some w \<longrightarrow> su_state w = UmActive \<longrightarrow>
       umb st i = Some w \<or> (\<exists>reason n. r = Approve i reason \<and> approved E i reason n st (serve_request E r st)))"
proof (cases r)
  case Propose
  obtain res st' where run: "propose_umbrellas E st = (res, st')" by fastforce
  from propose_kept [OF g U run] have "good st'" "kept st st'"
    "\<And>i. umb st' i = umb st i \<or> (\<exists>w. umb st' i = Some w \<and> su_state w = UmProvisional)" by blast+
  moreover have "serve_request E r st = st'" using Propose run by simp
  ultimately show ?thesis by (metis option.inject umbrella_state.distinct(1))
next
  case (Approve i reason)
  obtain res st' where run: "approve E i reason st = (res, st')" by fastforce
  have st': "serve_request E r st = st'" using Approve run by simp
  note c = approve_contract [OF g U run]
  show ?thesis
  proof (cases res)
    case (Inl e)
    then show ?thesis using c g by (simp add: st' decided_kept_refl)
  next
    case (Inr n)
    then have a: "good st'" "approved E i reason n st st'" using c by auto
    then obtain w where "umb st' = (umb st)(i \<mapsto> w\<lparr> su_state := UmActive \<rparr>)" unfolding approval_def by blast
    then have "\<forall>j x. umb st' j = Some x \<longrightarrow> umb st j = Some x \<or> j = i" by auto
    then show ?thesis using a approved_kept [OF a(2)] Approve unfolding st' by blast
  qed
next
  case (Reject i)
  obtain res st' where run: "reject E i st = (res, st')" by fastforce
  have st': "serve_request E r st = st'" using Reject run by simp
  show ?thesis using reject_contract [OF g U run] unfolding st' by (auto split: option.splits if_splits)
qed

lemma run_contract:
  assumes "good st" "\<forall>(E, r)\<in>set requests. ue_umbrellas E = U"
  shows "good (umbrella_run requests st) \<and> kept st (umbrella_run requests st) \<and>
    (\<forall>i w. umb (umbrella_run requests st) i = Some w \<longrightarrow> su_state w = UmActive \<longrightarrow> umb st i = Some w \<or>
       (\<exists>before E reason after n. requests = before @ (E, Approve i reason) # after \<and>
          approved E i reason n (umbrella_run before st) (umbrella_run (before @ [(E, Approve i reason)]) st)))"
  using assms
proof (induction requests rule: rev_induct)
  case Nil
  then show ?case by (simp add: decided_kept_refl)
next
  case (snoc x requests)
  obtain E r where x: "x = (E, r)" by fastforce
  have app: "umbrella_run (xs @ ys) s = umbrella_run ys (umbrella_run xs s)" for xs ys s
    by (induction xs arbitrary: s) auto
  let ?s = "umbrella_run requests st"
  have ih: "good ?s" "kept st ?s" "\<And>i w. umb ?s i = Some w \<Longrightarrow> su_state w = UmActive \<Longrightarrow> umb st i = Some w \<or>
       (\<exists>before E reason after n. requests = before @ (E, Approve i reason) # after \<and>
          approved E i reason n (umbrella_run before st) (umbrella_run (before @ [(E, Approve i reason)]) st))"
    using snoc by auto
  have U: "ue_umbrellas E = U" using snoc.prems(2) x by auto
  have s: "umbrella_run (requests @ [x]) st = serve_request E r ?s" by (simp add: app x)
  note step = serve_request_contract [OF ih(1) U, of r]
  show ?case
  proof (intro conjI allI impI)
    show "good (umbrella_run (requests @ [x]) st)" using step s by simp
    show "kept st (umbrella_run (requests @ [x]) st)" using step s ih(2) decided_kept_trans by metis
    fix i w assume w: "umb (umbrella_run (requests @ [x]) st) i = Some w" "su_state w = UmActive"
    then consider "umb ?s i = Some w" | reason n where "r = Approve i reason" "approved E i reason n ?s (serve_request E r ?s)"
      using step s by metis
    then show "umb st i = Some w \<or> (\<exists>before E reason after n. requests @ [x] = before @ (E, Approve i reason) # after \<and>
        approved E i reason n (umbrella_run before st) (umbrella_run (before @ [(E, Approve i reason)]) st))"
    proof cases
      case 1
      from ih(3) [OF this w(2)] show ?thesis by (metis append.assoc append_Cons)
    next
      case 2
      have "requests @ [x] = requests @ (E, Approve i reason) # []" using x 2(1) by simp
      moreover have "approved E i reason n (umbrella_run requests st) (umbrella_run (requests @ [(E, Approve i reason)]) st)"
        using 2 s x by simp
      ultimately show ?thesis by blast
    qed
  qed
qed

end

end
