(* ===== verification/Umbrella_Redis.thy ===== *)
theory Umbrella_Redis
  imports Umbrella_Port Vault_Facts Evidence_Port
begin

text \<open>
  The store of umbrellas in Redis (\<open>deblob-redis/src/umbrella.rs\<close>). Serialization is \<open>serde\<close>'s; a
  pipeline is the sequence of its commands. \<open>umbrella_rep\<close> relates a keyspace to the umbrellas,
  transforms and lineage it stands for: it holds along every operation, so the store satisfies the
  contract of the trait.
\<close>

section \<open>Keys and operations\<close>

record umbrella_codecs =
  uc_umbrella :: "umbrella_schema codec"
  uc_transform :: "child_transform codec"
  uc_lineage :: "lineage_assertion codec"

fun umbrella_state_str :: "umbrella_state \<Rightarrow> bytes" where
  "umbrella_state_str UmProvisional = ''provisional''"
| "umbrella_state_str UmActive = ''active''"
| "umbrella_state_str UmRejected = ''rejected''"

definition parse_umbrella_state :: "bytes \<Rightarrow> umbrella_state option" where
  "parse_umbrella_state s =
     (if s = ''provisional'' then Some UmProvisional
      else if s = ''active'' then Some UmActive
      else if s = ''rejected'' then Some UmRejected
      else None)"

definition umb_key :: "bytes \<Rightarrow> bytes" where
  "umb_key i = ''deblob:umbrella:'' @ i"

definition state_index :: "umbrella_state \<Rightarrow> bytes" where
  "state_index s = ''deblob:umbrellas:'' @ umbrella_state_str s"

definition transform_key :: "bytes \<Rightarrow> bytes \<Rightarrow> bytes" where
  "transform_key u c = ''deblob:umbrella-transform:'' @ u @ '':'' @ c"

definition transforms_index :: "bytes \<Rightarrow> bytes" where
  "transforms_index u = ''deblob:umbrella-transforms:'' @ u"

definition lineage_key :: "bytes \<Rightarrow> bytes" where
  "lineage_key u = ''deblob:umbrella-lineage:'' @ u"

definition all_umbrella_states :: "umbrella_state list" where
  "all_umbrella_states = [UmProvisional, UmActive, UmRejected]"

definition index_umbrella :: "'st redis \<Rightarrow> bytes \<Rightarrow> umbrella_state \<Rightarrow> 'st \<Rightarrow> 'st" where
  "index_umbrella R i state st =
     foldl (\<lambda>st s. if s = state then r_sadd R (state_index s) i st else r_srem R (state_index s) i st)
       st all_umbrella_states"

definition redis_put_umbrella :: "'st redis \<Rightarrow> umbrella_codecs \<Rightarrow> umbrella_schema \<Rightarrow> umbrella_state \<Rightarrow> 'st \<Rightarrow> 'st" where
  "redis_put_umbrella R C um state st =
     (let i = um_umbrella_id um
      in index_umbrella R i state
        (hset_all R (umb_key i) [(''record'', enc (uc_umbrella C) um), (''state'', umbrella_state_str state)] st))"

definition redis_get_umbrella :: "'st redis \<Rightarrow> umbrella_codecs \<Rightarrow> bytes \<Rightarrow> 'st \<Rightarrow> store_error + stored_umbrella option" where
  "redis_get_umbrella R C i st =
     (case (r_hget R (umb_key i) ''record'' st, r_hget R (umb_key i) ''state'' st) of
        (Some rec, Some state) \<Rightarrow>
          result_bind (ok_or (StoreBackend (CorruptRecord rec)) (dec (uc_umbrella C) rec)) (\<lambda>schema.
            result_bind (ok_or (StoreBackend (BadState state)) (parse_umbrella_state state)) (\<lambda>s.
              Inr (Some \<lparr> su_schema = schema, su_state = s \<rparr>)))
      | _ \<Rightarrow> Inr None)"

definition redis_set_umbrella_state :: "'st redis \<Rightarrow> bytes \<Rightarrow> umbrella_state \<Rightarrow> 'st \<Rightarrow> (store_error + unit) \<times> 'st" where
  "redis_set_umbrella_state R i state st =
     (if \<not> r_exists R (umb_key i) st then (Inl (UmbrellaNotFound i), st)
      else (Inr (), index_umbrella R i state (r_hset R (umb_key i) ''state'' (umbrella_state_str state) st)))"

fun gather :: "('a \<Rightarrow> 'e + 'b option) \<Rightarrow> 'a list \<Rightarrow> 'e + 'b list" where
  "gather f [] = Inr []"
| "gather f (x # xs) =
     result_bind (f x) (\<lambda>y. result_bind (gather f xs) (\<lambda>ys.
       Inr (case y of Some z \<Rightarrow> z # ys | None \<Rightarrow> ys)))"

definition redis_list_umbrellas ::
  "'st redis \<Rightarrow> umbrella_codecs \<Rightarrow> umbrella_state \<Rightarrow> 'st \<Rightarrow> store_error + stored_umbrella list" where
  "redis_list_umbrellas R C state st =
     gather (\<lambda>i. redis_get_umbrella R C i st) (r_smembers R (state_index state) st)"

definition write_transform :: "'st redis \<Rightarrow> umbrella_codecs \<Rightarrow> bytes \<Rightarrow> child_transform \<Rightarrow> 'st \<Rightarrow> 'st" where
  "write_transform R C u t st =
     r_sadd R (transforms_index u) (ct_child_schema_id t)
       (r_set R (transform_key u (ct_child_schema_id t)) (enc (uc_transform C) t) st)"

definition redis_put_transform :: "'st redis \<Rightarrow> umbrella_codecs \<Rightarrow> child_transform \<Rightarrow> 'st \<Rightarrow> 'st" where
  "redis_put_transform R C t st = write_transform R C (ct_umbrella_id t) t st"

definition redis_get_transform ::
  "'st redis \<Rightarrow> umbrella_codecs \<Rightarrow> bytes \<Rightarrow> bytes \<Rightarrow> 'st \<Rightarrow> store_error + child_transform option" where
  "redis_get_transform R C u c st =
     (case r_get R (transform_key u c) st of
        None \<Rightarrow> Inr None
      | Some j \<Rightarrow> map_sum id Some (ok_or (StoreBackend (CorruptRecord j)) (dec (uc_transform C) j)))"

definition redis_list_transforms :: "'st redis \<Rightarrow> umbrella_codecs \<Rightarrow> bytes \<Rightarrow> 'st \<Rightarrow> store_error + child_transform list" where
  "redis_list_transforms R C u st =
     gather (\<lambda>c. redis_get_transform R C u c st) (r_smembers R (transforms_index u) st)"

definition redis_promote_bundle ::
  "'st redis \<Rightarrow> umbrella_codecs \<Rightarrow> umbrella_bundle \<Rightarrow> 'st \<Rightarrow> (store_error + unit) \<times> 'st" where
  "redis_promote_bundle R C bundle st =
     (let i = um_umbrella_id (ub_umbrella bundle)
      in case List.find (\<lambda>t. ct_umbrella_id t \<noteq> i) (ub_transforms bundle) of
           Some t \<Rightarrow> (Inl (BundleMismatch i (ct_umbrella_id t)), st)
         | None \<Rightarrow>
             (let st1 = hset_all R (umb_key i)
                   [(''record'', enc (uc_umbrella C) (ub_umbrella bundle)), (''state'', ''active'')] st;
                  st2 = r_sadd R (state_index UmActive) i st1;
                  st3 = r_srem R (state_index UmProvisional) i st2;
                  st4 = r_srem R (state_index UmRejected) i st3
              in (Inr (), fold (write_transform R C i) (ub_transforms bundle) st4)))"

definition redis_put_lineage :: "'st redis \<Rightarrow> umbrella_codecs \<Rightarrow> lineage_assertion \<Rightarrow> 'st \<Rightarrow> 'st" where
  "redis_put_lineage R C a st = r_set R (lineage_key (la_umbrella_id a)) (enc (uc_lineage C) a) st"

definition redis_get_lineage :: "'st redis \<Rightarrow> umbrella_codecs \<Rightarrow> bytes \<Rightarrow> 'st \<Rightarrow> store_error + lineage_assertion option" where
  "redis_get_lineage R C i st =
     (case r_get R (lineage_key i) st of
        None \<Rightarrow> Inr None
      | Some j \<Rightarrow> map_sum id Some (ok_or (StoreBackend (CorruptRecord j)) (dec (uc_lineage C) j)))"

definition redis_umbrella :: "'st redis \<Rightarrow> umbrella_codecs \<Rightarrow> 'st umbrella_port" where
  "redis_umbrella R C =
     \<lparr> up_put_umbrella = (\<lambda>um s st. (Inr (), redis_put_umbrella R C um s st)),
       up_get_umbrella = redis_get_umbrella R C,
       up_set_state = redis_set_umbrella_state R,
       up_list_umbrellas = redis_list_umbrellas R C,
       up_put_transform = (\<lambda>t st. (Inr (), redis_put_transform R C t st)),
       up_get_transform = redis_get_transform R C,
       up_list_transforms = redis_list_transforms R C,
       up_promote_bundle = redis_promote_bundle R C,
       up_put_lineage = (\<lambda>a st. (Inr (), redis_put_lineage R C a st)),
       up_get_lineage = redis_get_lineage R C \<rparr>"

section \<open>Representation\<close>

definition plain_id :: "bytes \<Rightarrow> bool" where
  "plain_id u \<longleftrightarrow> CHR '':'' \<notin> set u"

definition umbrellas_rep :: "umbrella_codecs \<Rightarrow> keyspace \<Rightarrow> (bytes \<Rightarrow> stored_umbrella option) \<Rightarrow> bool" where
  "umbrellas_rep C ks umb \<longleftrightarrow>
     (\<forall>i. hashes ks (umb_key i) ''record'' = map_option (\<lambda>w. enc (uc_umbrella C) (su_schema w)) (umb i)) \<and>
     (\<forall>i. hashes ks (umb_key i) ''state'' = map_option (\<lambda>w. umbrella_state_str (su_state w)) (umb i)) \<and>
     (\<forall>i. key_exists ks (umb_key i) \<longleftrightarrow> umb i \<noteq> None) \<and>
     (\<forall>i w. umb i = Some w \<longrightarrow> um_umbrella_id (su_schema w) = i) \<and>
     (\<forall>s. sets ks (state_index s) = {i. \<exists>w. umb i = Some w \<and> su_state w = s})"

definition transforms_rep :: "umbrella_codecs \<Rightarrow> keyspace \<Rightarrow> (bytes \<Rightarrow> bytes \<Rightarrow> child_transform option) \<Rightarrow> bool" where
  "transforms_rep C ks trf \<longleftrightarrow>
     (\<forall>u c. plain_id u \<longrightarrow> strs ks (transform_key u c) = map_option (enc (uc_transform C)) (trf u c)) \<and>
     (\<forall>u. plain_id u \<longrightarrow> sets ks (transforms_index u) = {c. trf u c \<noteq> None}) \<and>
     (\<forall>u c t. trf u c = Some t \<longrightarrow> plain_id u \<and> ct_umbrella_id t = u \<and> ct_child_schema_id t = c)"

definition lineage_rep :: "umbrella_codecs \<Rightarrow> keyspace \<Rightarrow> (bytes \<Rightarrow> lineage_assertion option) \<Rightarrow> bool" where
  "lineage_rep C ks lin \<longleftrightarrow> (\<forall>i. strs ks (lineage_key i) = map_option (enc (uc_lineage C)) (lin i))"

definition umbrella_rep ::
  "umbrella_codecs \<Rightarrow> keyspace \<Rightarrow> (bytes \<Rightarrow> stored_umbrella option) \<Rightarrow> (bytes \<Rightarrow> bytes \<Rightarrow> child_transform option) \<Rightarrow>
     (bytes \<Rightarrow> lineage_assertion option) \<Rightarrow> bool" where
  "umbrella_rep C ks umb trf lin \<longleftrightarrow> umbrellas_rep C ks umb \<and> transforms_rep C ks trf \<and> lineage_rep C ks lin"

lemma umbrellas_rep_cong:
  assumes "\<And>i. hashes ks' (umb_key i) = hashes ks (umb_key i)" "\<And>i. strs ks' (umb_key i) = strs ks (umb_key i)"
    "\<And>i. sets ks' (umb_key i) = sets ks (umb_key i)" "streams ks' = streams ks"
    "\<And>s. sets ks' (state_index s) = sets ks (state_index s)"
  shows "umbrellas_rep C ks' umb = umbrellas_rep C ks umb"
  by (simp add: umbrellas_rep_def key_exists_def assms)

lemma transforms_rep_cong:
  assumes "\<And>u c. strs ks' (transform_key u c) = strs ks (transform_key u c)"
    "\<And>u. sets ks' (transforms_index u) = sets ks (transforms_index u)"
  shows "transforms_rep C ks' trf = transforms_rep C ks trf"
  by (simp add: transforms_rep_def assms)

lemma lineage_rep_cong:
  assumes "\<And>i. strs ks' (lineage_key i) = strs ks (lineage_key i)"
  shows "lineage_rep C ks' lin = lineage_rep C ks lin"
  by (simp add: lineage_rep_def assms)

lemma umbrella_keys:
  "umb_key i = umb_key j \<longleftrightarrow> i = j" "state_index s = state_index s' \<longleftrightarrow> s = s'"
  "transforms_index u = transforms_index v \<longleftrightarrow> u = v" "lineage_key i = lineage_key j \<longleftrightarrow> i = j"
  "umb_key i \<noteq> state_index s" "umb_key i \<noteq> transform_key u c" "umb_key i \<noteq> transforms_index u" "umb_key i \<noteq> lineage_key j"
  "state_index s \<noteq> umb_key i" "transform_key u c \<noteq> umb_key i" "transforms_index u \<noteq> umb_key i" "lineage_key j \<noteq> umb_key i"
  "state_index s \<noteq> transform_key u c" "state_index s \<noteq> transforms_index u" "state_index s \<noteq> lineage_key j"
  "transform_key u c \<noteq> state_index s" "transforms_index u \<noteq> state_index s" "lineage_key j \<noteq> state_index s"
  "transform_key u c \<noteq> transforms_index v" "transform_key u c \<noteq> lineage_key j" "transforms_index u \<noteq> lineage_key j"
  "transforms_index v \<noteq> transform_key u c" "lineage_key j \<noteq> transform_key u c" "lineage_key j \<noteq> transforms_index u"
  by (auto simp: umb_key_def state_index_def transform_key_def transforms_index_def lineage_key_def
      elim!: umbrella_state_str.elims)

lemma transform_key_iff:
  assumes "plain_id u" "plain_id v"
  shows "transform_key u c = transform_key v d \<longleftrightarrow> u = v \<and> c = d"
  using assms by (auto simp: transform_key_def plain_id_def append_eq_append_conv2 append_eq_Cons_conv Cons_eq_append_conv)

lemma not_state_index:
  "umb_key i \<notin> range state_index" "transform_key u c \<notin> range state_index" "transforms_index u \<notin> range state_index"
  "lineage_key i \<notin> range state_index"
  by (auto simp: umbrella_keys)

text \<open>Writing an umbrella and moving it to the index of its state.\<close>

lemma rep_umbrella_written:
  assumes rep: "umbrella_rep C ks umb trf lin" and id: "um_umbrella_id (su_schema w) = i"
    and h: "hashes ks' (umb_key i) ''record'' = Some (enc (uc_umbrella C) (su_schema w))"
      "hashes ks' (umb_key i) ''state'' = Some (umbrella_state_str (su_state w))"
    and others: "\<And>j. j \<noteq> i \<Longrightarrow> hashes ks' (umb_key j) = hashes ks (umb_key j)"
    and ix: "\<And>s. sets ks' (state_index s) =
      (if s = su_state w then insert i (sets ks (state_index s)) else sets ks (state_index s) - {i})"
    and rest: "\<And>k. k \<notin> range state_index \<Longrightarrow> sets ks' k = sets ks k" "strs ks' = strs ks" "streams ks' = streams ks"
  shows "umbrella_rep C ks' (umb(i \<mapsto> w)) trf lin"
proof -
  have u: "umbrellas_rep C ks umb" using rep by (simp add: umbrella_rep_def)
  have "key_exists ks' (umb_key i)" using h(1) unfolding key_exists_def by fastforce
  moreover have "key_exists ks' (umb_key j) = key_exists ks (umb_key j)" if "j \<noteq> i" for j
    using others [OF that] rest(1) [OF not_state_index(1)] rest(2,3) by (simp add: key_exists_def)
  moreover have "sets ks' (state_index s) = {j. \<exists>x. (umb(i \<mapsto> w)) j = Some x \<and> su_state x = s}" for s
    using u ix [of s] unfolding umbrellas_rep_def by auto
  ultimately have "umbrellas_rep C ks' (umb(i \<mapsto> w))"
    using u id h others unfolding umbrellas_rep_def by auto
  moreover have "transforms_rep C ks' trf" "lineage_rep C ks' lin"
    using rep rest(1) [OF not_state_index(3)] rest(2)
    by (simp_all add: umbrella_rep_def transforms_rep_def lineage_rep_def)
  ultimately show ?thesis by (simp add: umbrella_rep_def)
qed

locale redis_umbrella_service = redis_service R view
  for R :: "'st redis" and view :: "'st \<Rightarrow> keyspace" +
  fixes C :: umbrella_codecs
  assumes umbrella_codec: "codec_ok (uc_umbrella C)"
    and transform_codec: "codec_ok (uc_transform C)"
    and lineage_codec: "codec_ok (uc_lineage C)"
begin

lemma index_umbrella_frame:
  "strs (view (index_umbrella R i s st)) = strs (view st)" "hashes (view (index_umbrella R i s st)) = hashes (view st)"
  "streams (view (index_umbrella R i s st)) = streams (view st)"
  by (cases s; simp add: index_umbrella_def all_umbrella_states_def sadd srem)+

lemma index_umbrella_sets:
  "sets (view (index_umbrella R i s st)) (state_index s') =
     (if s' = s then insert i (sets (view st) (state_index s')) else sets (view st) (state_index s') - {i})"
  by (cases s; cases s'; simp add: index_umbrella_def all_umbrella_states_def sadd srem umbrella_keys)

lemma index_umbrella_other:
  assumes "k \<notin> range state_index"
  shows "sets (view (index_umbrella R i s st)) k = sets (view st) k"
proof -
  have "k \<noteq> state_index x" for x using assms by auto
  then show ?thesis by (cases s; simp add: index_umbrella_def all_umbrella_states_def sadd srem)
qed

lemmas index_umbrella_view = index_umbrella_frame index_umbrella_sets index_umbrella_other

lemma put_umbrella_rep:
  assumes "umbrella_rep C (view st) umb trf lin"
  shows "umbrella_rep C (view (redis_put_umbrella R C um s st)) (umb(um_umbrella_id um \<mapsto> \<lparr> su_schema = um, su_state = s \<rparr>)) trf lin"
  using assms
  by (rule rep_umbrella_written)
    (simp_all add: redis_put_umbrella_def Let_def index_umbrella_view hashes_hset_all hset_all_frame umbrella_keys fun_eq_iff)

lemma set_state_rep:
  assumes rep: "umbrella_rep C (view st) umb trf lin" and w: "umb i = Some w"
  shows "umbrella_rep C (view (index_umbrella R i s (r_hset R (umb_key i) ''state'' (umbrella_state_str s) st)))
    (umb(i \<mapsto> w\<lparr> su_state := s \<rparr>)) trf lin"
proof (rule rep_umbrella_written [OF rep])
  show "um_umbrella_id (su_schema (w\<lparr>su_state := s\<rparr>)) = i"
    using rep w by (simp add: umbrella_rep_def umbrellas_rep_def)
qed (use rep w in \<open>simp_all add: index_umbrella_view hset ks_hset_def umbrella_keys umbrella_rep_def umbrellas_rep_def fun_eq_iff\<close>)

lemma write_transform_rep:
  assumes rep: "umbrella_rep C (view st) umb trf lin" and t: "plain_id (ct_umbrella_id t)"
  shows "umbrella_rep C (view (write_transform R C (ct_umbrella_id t) t st)) umb (with_transforms [t] trf) lin"
proof -
  let ?k = "transform_key (ct_umbrella_id t) (ct_child_schema_id t)"
  let ?ks = "view (write_transform R C (ct_umbrella_id t) t st)"
  have ks: "strs ?ks = (strs (view st))(?k \<mapsto> enc (uc_transform C) t)" "hashes ?ks = hashes (view st)"
    "streams ?ks = streams (view st)"
    "sets ?ks = (sets (view st))(transforms_index (ct_umbrella_id t) :=
      insert (ct_child_schema_id t) (sets (view st) (transforms_index (ct_umbrella_id t))))"
    by (simp_all add: write_transform_def set sadd)
  have "umbrellas_rep C ?ks umb = umbrellas_rep C (view st) umb"
    by (rule umbrellas_rep_cong) (simp_all add: ks umbrella_keys)
  moreover have "lineage_rep C ?ks lin = lineage_rep C (view st) lin"
    by (rule lineage_rep_cong) (simp add: ks umbrella_keys)
  moreover have "transforms_rep C ?ks (with_transforms [t] trf)"
    unfolding transforms_rep_def
  proof (intro conjI allI impI)
    fix u c assume u: "plain_id u"
    show "strs ?ks (transform_key u c) = map_option (enc (uc_transform C)) (with_transforms [t] trf u c)"
      using rep u t by (simp add: ks transform_key_iff with_transforms_single umbrella_rep_def transforms_rep_def)
  next
    fix u assume u: "plain_id u"
    then have "sets (view st) (transforms_index u) = {c. trf u c \<noteq> None}"
      using rep by (simp add: umbrella_rep_def transforms_rep_def)
    then show "sets ?ks (transforms_index u) = {c. with_transforms [t] trf u c \<noteq> None}"
      by (auto simp: ks umbrella_keys with_transforms_single)
  qed (use rep t in \<open>auto simp: with_transforms_single umbrella_rep_def transforms_rep_def split: if_splits\<close>)
  ultimately show ?thesis using rep by (simp add: umbrella_rep_def)
qed

lemma write_transforms_rep:
  assumes "umbrella_rep C (view st) umb trf lin" "plain_id u" "\<forall>t\<in>List.set ts. ct_umbrella_id t = u"
  shows "umbrella_rep C (view (fold (write_transform R C u) ts st)) umb (with_transforms ts trf) lin"
  using assms(3)
proof (induction ts rule: rev_induct)
  case (snoc t ts)
  then show ?case using write_transform_rep [of _ umb _ lin t] assms(2) by (simp add: with_transforms_snoc [of ts])
qed (use assms(1) in simp)

lemma promote_bundle_rep:
  assumes rep: "umbrella_rep C (view st) umb trf lin" and b: "plain_id (um_umbrella_id (ub_umbrella b))"
    "\<forall>t\<in>List.set (ub_transforms b). ct_umbrella_id t = um_umbrella_id (ub_umbrella b)"
    and run: "redis_promote_bundle R C b st = (res, st')"
  shows "res = Inr () \<and> umbrella_rep C (view st')
    (umb(um_umbrella_id (ub_umbrella b) \<mapsto> \<lparr> su_schema = ub_umbrella b, su_state = UmActive \<rparr>)) (with_transforms (ub_transforms b) trf) lin"
proof -
  let ?i = "um_umbrella_id (ub_umbrella b)"
  define st4 where "st4 = r_srem R (state_index UmRejected) ?i (r_srem R (state_index UmProvisional) ?i
    (r_sadd R (state_index UmActive) ?i (hset_all R (umb_key ?i)
      [(''record'', enc (uc_umbrella C) (ub_umbrella b)), (''state'', ''active'')] st)))"
  have "List.find (\<lambda>t. ct_umbrella_id t \<noteq> ?i) (ub_transforms b) = None" using b(2) by (auto simp: find_None_iff)
  then have out: "res = Inr ()" "st' = fold (write_transform R C ?i) (ub_transforms b) st4"
    using run by (simp_all add: redis_promote_bundle_def Let_def st4_def)
  have ix: "sets (view st4) (state_index s) = (if s = UmActive then insert ?i (sets (view st) (state_index s))
      else sets (view st) (state_index s) - {?i})" for s
    by (cases s) (simp_all add: st4_def sadd srem umbrella_keys hset_all_frame)
  have other: "sets (view st4) k = sets (view st) k" if "k \<notin> range state_index" for k
  proof -
    have "k \<noteq> state_index x" for x using that by auto
    then show ?thesis by (simp add: st4_def sadd srem hset_all_frame)
  qed
  have "umbrella_rep C (view st4) (umb(?i \<mapsto> \<lparr> su_schema = ub_umbrella b, su_state = UmActive \<rparr>)) trf lin"
    by (rule rep_umbrella_written [OF rep])
      (simp_all add: ix other, simp_all add: st4_def sadd srem hashes_hset_all hset_all_frame umbrella_keys fun_eq_iff)
  from write_transforms_rep [OF this b] show ?thesis using out by simp
qed

lemma put_lineage_rep:
  assumes "umbrella_rep C (view st) umb trf lin"
  shows "umbrella_rep C (view (redis_put_lineage R C a st)) umb trf (lin(la_umbrella_id a \<mapsto> a))"
proof -
  let ?ks = "view (redis_put_lineage R C a st)"
  have "umbrellas_rep C ?ks umb = umbrellas_rep C (view st) umb"
    by (rule umbrellas_rep_cong) (simp_all add: redis_put_lineage_def set umbrella_keys)
  moreover have "transforms_rep C ?ks trf = transforms_rep C (view st) trf"
    by (rule transforms_rep_cong) (simp_all add: redis_put_lineage_def set umbrella_keys)
  ultimately show ?thesis using assms
    by (simp add: umbrella_rep_def lineage_rep_def redis_put_lineage_def set umbrella_keys)
qed

text \<open>Reading what a keyspace stands for.\<close>

lemma parse_umbrella_state_str [simp]: "parse_umbrella_state (umbrella_state_str s) = Some s"
  by (cases s) (simp_all add: parse_umbrella_state_def)

lemma rep_get_umbrella:
  assumes "umbrella_rep C (view st) umb trf lin"
  shows "redis_get_umbrella R C i st = Inr (umb i)"
  using assms umbrella_codec
  by (cases "umb i") (simp_all add: redis_get_umbrella_def hget umbrella_rep_def umbrellas_rep_def)

lemma rep_get_transform:
  assumes "umbrella_rep C (view st) umb trf lin" "plain_id u"
  shows "redis_get_transform R C u c st = Inr (trf u c)"
  using assms transform_codec
  by (cases "trf u c") (simp_all add: redis_get_transform_def get umbrella_rep_def transforms_rep_def)

lemma rep_get_lineage:
  assumes "umbrella_rep C (view st) umb trf lin"
  shows "redis_get_lineage R C i st = Inr (lin i)"
  using assms lineage_codec
  by (cases "lin i") (simp_all add: redis_get_lineage_def get umbrella_rep_def lineage_rep_def)

lemma gather_found: "(\<And>x. f x = Inr (g x)) \<Longrightarrow> gather f xs = Inr (List.map_filter g xs)"
  by (induction xs) (auto simp: List.map_filter_def split: option.split)

lemma set_found: "List.set (List.map_filter g xs) = {y. \<exists>x\<in>List.set xs. g x = Some y}"
  by (induction xs) (auto simp: List.map_filter_def split: option.split)

lemma rep_list_umbrellas:
  assumes rep: "umbrella_rep C (view st) umb trf lin"
  shows "\<exists>l. redis_list_umbrellas R C s st = Inr l \<and> List.set l = {u. su_state u = s \<and> (\<exists>i. umb i = Some u)}"
proof -
  have "List.set (r_smembers R (state_index s) st) = {i. \<exists>w. umb i = Some w \<and> su_state w = s}"
    using rep by (simp add: smembers umbrella_rep_def umbrellas_rep_def)
  moreover have "redis_list_umbrellas R C s st = Inr (List.map_filter umb (r_smembers R (state_index s) st))"
    unfolding redis_list_umbrellas_def by (rule gather_found) (rule rep_get_umbrella [OF rep])
  ultimately show ?thesis by (auto simp: set_found)
qed

lemma rep_list_transforms:
  assumes rep: "umbrella_rep C (view st) umb trf lin" and u: "plain_id u"
  shows "\<exists>l. redis_list_transforms R C u st = Inr l \<and> List.set l = {t. \<exists>c. trf u c = Some t}"
proof -
  have "List.set (r_smembers R (transforms_index u) st) = {c. trf u c \<noteq> None}"
    using rep u by (simp add: smembers umbrella_rep_def transforms_rep_def)
  moreover have "redis_list_transforms R C u st = Inr (List.map_filter (trf u) (r_smembers R (transforms_index u) st))"
    unfolding redis_list_transforms_def by (rule gather_found) (rule rep_get_transform [OF rep u])
  ultimately show ?thesis by (auto simp: set_found)
qed

end

section \<open>The contract\<close>

definition redis_umb :: "'st redis \<Rightarrow> umbrella_codecs \<Rightarrow> 'st \<Rightarrow> bytes \<Rightarrow> stored_umbrella option" where
  "redis_umb R C st i = (case redis_get_umbrella R C i st of Inr w \<Rightarrow> w | Inl _ \<Rightarrow> None)"

definition redis_trf :: "'st redis \<Rightarrow> umbrella_codecs \<Rightarrow> 'st \<Rightarrow> bytes \<Rightarrow> bytes \<Rightarrow> child_transform option" where
  "redis_trf R C st u c =
     (if plain_id u then (case redis_get_transform R C u c st of Inr t \<Rightarrow> t | Inl _ \<Rightarrow> None) else None)"

definition redis_lin :: "'st redis \<Rightarrow> umbrella_codecs \<Rightarrow> 'st \<Rightarrow> bytes \<Rightarrow> lineage_assertion option" where
  "redis_lin R C st i = (case redis_get_lineage R C i st of Inr a \<Rightarrow> a | Inl _ \<Rightarrow> None)"

definition umbrella_intact :: "'st redis \<Rightarrow> ('st \<Rightarrow> keyspace) \<Rightarrow> umbrella_codecs \<Rightarrow> 'st \<Rightarrow> bool" where
  "umbrella_intact R view C st \<longleftrightarrow>
     umbrella_rep C (view st) (redis_umb R C st) (redis_trf R C st) (redis_lin R C st)"

context redis_umbrella_service
begin

lemma rep_views:
  assumes rep: "umbrella_rep C (view st) umb trf lin"
  shows "umbrella_intact R view C st" "redis_umb R C st = umb" "redis_trf R C st = trf" "redis_lin R C st = lin"
proof -
  show u: "redis_umb R C st = umb" by (simp add: redis_umb_def rep_get_umbrella [OF rep] fun_eq_iff)
  have np: "trf v c = None" if "\<not> plain_id v" for v c
    using rep that by (cases "trf v c") (auto simp: umbrella_rep_def transforms_rep_def)
  show t: "redis_trf R C st = trf" by (intro ext) (simp add: redis_trf_def rep_get_transform [OF rep] np)
  show l: "redis_lin R C st = lin" by (simp add: redis_lin_def rep_get_lineage [OF rep] fun_eq_iff)
  show "umbrella_intact R view C st" using rep by (simp add: umbrella_intact_def u t l)
qed

lemma intact_rep: "umbrella_intact R view C st \<Longrightarrow> umbrella_rep C (view st) (redis_umb R C st) (redis_trf R C st) (redis_lin R C st)"
  by (simp add: umbrella_intact_def)

end

sublocale redis_umbrella_service \<subseteq> store: umbrella_contract "redis_umbrella R C" plain_id "umbrella_intact R view C"
    "redis_umb R C" "redis_trf R C" "redis_lin R C"
proof
  fix st st' :: 'st and i u c :: bytes and w s um t b a res
  assume "umbrella_intact R view C st"
  note rep = intact_rep [OF this]
  show "up_get_umbrella (redis_umbrella R C) i st = Inr (redis_umb R C st i)"
    by (simp add: redis_umbrella_def rep_get_umbrella [OF rep])
  show "redis_umb R C st i = Some w \<Longrightarrow> um_umbrella_id (su_schema w) = i"
    using rep by (simp add: umbrella_rep_def umbrellas_rep_def)
  show "plain_id u \<Longrightarrow> redis_trf R C st u c = Some t \<Longrightarrow> ct_umbrella_id t = u \<and> ct_child_schema_id t = c"
    using rep by (simp add: umbrella_rep_def transforms_rep_def)
  show "plain_id u \<Longrightarrow> up_get_transform (redis_umbrella R C) u c st = Inr (redis_trf R C st u c)"
    by (simp add: redis_umbrella_def rep_get_transform [OF rep])
  show "up_get_lineage (redis_umbrella R C) i st = Inr (redis_lin R C st i)"
    by (simp add: redis_umbrella_def rep_get_lineage [OF rep])
  show "\<exists>l. up_list_umbrellas (redis_umbrella R C) s st = Inr l \<and>
      List.set l = {u. su_state u = s \<and> (\<exists>i. redis_umb R C st i = Some u)}"
    using rep_list_umbrellas [OF rep] by (simp add: redis_umbrella_def)
  show "plain_id u \<Longrightarrow> \<exists>l. up_list_transforms (redis_umbrella R C) u st = Inr l \<and>
      List.set l = {t. \<exists>c. redis_trf R C st u c = Some t}"
    using rep_list_transforms [OF rep] by (simp add: redis_umbrella_def)
  show "up_put_umbrella (redis_umbrella R C) um s st = (res, st') \<Longrightarrow>
      res = Inr () \<and> umbrella_intact R view C st' \<and>
      redis_umb R C st' = (redis_umb R C st)(um_umbrella_id um \<mapsto> \<lparr> su_schema = um, su_state = s \<rparr>) \<and>
      redis_trf R C st' = redis_trf R C st \<and> redis_lin R C st' = redis_lin R C st"
    using rep_views [OF put_umbrella_rep [OF rep]] by (auto simp: redis_umbrella_def)
  show "up_set_state (redis_umbrella R C) i s st = (res, st') \<Longrightarrow>
      (case redis_umb R C st i of
         None \<Rightarrow> res = Inl (UmbrellaNotFound i) \<and> st' = st
       | Some u \<Rightarrow> res = Inr () \<and> umbrella_intact R view C st' \<and>
           redis_umb R C st' = (redis_umb R C st)(i \<mapsto> u\<lparr> su_state := s \<rparr>) \<and>
           redis_trf R C st' = redis_trf R C st \<and> redis_lin R C st' = redis_lin R C st)"
    using rep rep_views [OF set_state_rep [OF rep]]
    by (auto simp: redis_umbrella_def redis_set_umbrella_state_def exists umbrella_rep_def umbrellas_rep_def
        split: option.split if_splits)
  show "plain_id (ct_umbrella_id t) \<Longrightarrow> up_put_transform (redis_umbrella R C) t st = (res, st') \<Longrightarrow>
      res = Inr () \<and> umbrella_intact R view C st' \<and> redis_umb R C st' = redis_umb R C st \<and>
      redis_trf R C st' = with_transforms [t] (redis_trf R C st) \<and> redis_lin R C st' = redis_lin R C st"
    using rep_views [OF write_transform_rep [OF rep]] by (auto simp: redis_umbrella_def redis_put_transform_def)
  show "List.find (\<lambda>t. ct_umbrella_id t \<noteq> um_umbrella_id (ub_umbrella b)) (ub_transforms b) = Some t \<Longrightarrow>
      up_promote_bundle (redis_umbrella R C) b st = (Inl (BundleMismatch (um_umbrella_id (ub_umbrella b)) (ct_umbrella_id t)), st)"
    by (simp add: redis_umbrella_def redis_promote_bundle_def Let_def)
  show "plain_id (um_umbrella_id (ub_umbrella b)) \<Longrightarrow>
      \<forall>t\<in>List.set (ub_transforms b). ct_umbrella_id t = um_umbrella_id (ub_umbrella b) \<Longrightarrow>
      up_promote_bundle (redis_umbrella R C) b st = (res, st') \<Longrightarrow>
      res = Inr () \<and> umbrella_intact R view C st' \<and>
      redis_umb R C st' = (redis_umb R C st)(um_umbrella_id (ub_umbrella b) \<mapsto> \<lparr> su_schema = ub_umbrella b, su_state = UmActive \<rparr>) \<and>
      redis_trf R C st' = with_transforms (ub_transforms b) (redis_trf R C st) \<and> redis_lin R C st' = redis_lin R C st"
    using promote_bundle_rep [OF rep, of b res st'] rep_views by (simp add: redis_umbrella_def) metis
  show "up_put_lineage (redis_umbrella R C) a st = (res, st') \<Longrightarrow>
      res = Inr () \<and> umbrella_intact R view C st' \<and> redis_umb R C st' = redis_umb R C st \<and>
      redis_trf R C st' = redis_trf R C st \<and> redis_lin R C st' = (redis_lin R C st)(la_umbrella_id a \<mapsto> a)"
    using rep_views [OF put_lineage_rep [OF rep]] by (auto simp: redis_umbrella_def)
qed

context redis_umbrella_service
begin

lemmas store_facts = store.get_umbrella store.list_transforms

end

section \<open>A deployment in memory\<close>

instance scalar_type :: countable by countable_datatype
instance field_type :: countable by countable_datatype
instance cardinality :: countable by countable_datatype
instance unit_system :: countable by countable_datatype
instance on_missing :: countable by countable_datatype

instance unit_code_ext :: (countable) countable
  by (rule countable_classI [of "\<lambda>r. to_nat (system r, code r, unit_code.more r)"]) simp

instance op :: countable by countable_datatype

instance umbrella_field_ext :: (countable) countable
  by (rule countable_classI [of "\<lambda>r. to_nat (uf_canonical_field_id r, uf_path r, uf_name r, uf_ty r, uf_unit r,
        uf_cardinality r, umbrella_field.more r)"]) simp

instance umbrella_schema_ext :: (countable) countable
  by (rule countable_classI [of "\<lambda>r. to_nat (um_umbrella_id r, um_label r, um_version r, um_fields r,
        umbrella_schema.more r)"]) simp

instance binding_ext :: (countable) countable
  by (rule countable_classI [of "\<lambda>r. to_nat (bd_source r, bd_target r, bd_ops r, bd_on_missing r, binding.more r)"]) simp

instance child_transform_ext :: (countable) countable
  by (rule countable_classI [of "\<lambda>r. to_nat (ct_child_schema_id r, ct_umbrella_id r, ct_child_revision r,
        ct_umbrella_revision r, ct_bindings r, ct_unmapped_source_paths r, child_transform.more r)"]) simp

instance lineage_member_ext :: (countable) countable
  by (rule countable_classI [of "\<lambda>r. to_nat (lm_child_schema_id r, lm_child_revision r, lm_transform_present r,
        lineage_member.more r)"]) simp

instance lineage_assertion_ext :: (countable) countable
  by (rule countable_classI [of "\<lambda>r. to_nat (la_umbrella_id r, la_umbrella_version r, la_members r, la_approved_reason r,
        lineage_assertion.more r)"]) simp

definition numbered_codecs :: umbrella_codecs where
  "numbered_codecs = \<lparr> uc_umbrella = numbered, uc_transform = numbered, uc_lineage = numbered \<rparr>"

interpretation mem_umbrella: redis_umbrella_service mem_redis mem_view numbered_codecs
  by unfold_locales (simp_all add: numbered_codecs_def numbered_ok)

lemma mem_umbrella_empty:
  "umbrella_intact mem_redis mem_view numbered_codecs mem_empty"
  "redis_umb mem_redis numbered_codecs mem_empty = (\<lambda>_. None)"
  "redis_trf mem_redis numbered_codecs mem_empty = (\<lambda>_ _. None)"
  "redis_lin mem_redis numbered_codecs mem_empty = (\<lambda>_. None)"
proof -
  have "umbrella_rep numbered_codecs (mem_view mem_empty) (\<lambda>_. None) (\<lambda>_ _. None) (\<lambda>_. None)"
    by (simp add: umbrella_rep_def umbrellas_rep_def transforms_rep_def lineage_rep_def key_exists_def mem_empty_def
        lookup_list_def)
  from mem_umbrella.rep_views [OF this] show
    "umbrella_intact mem_redis mem_view numbered_codecs mem_empty"
    "redis_umb mem_redis numbered_codecs mem_empty = (\<lambda>_. None)"
    "redis_trf mem_redis numbered_codecs mem_empty = (\<lambda>_ _. None)"
    "redis_lin mem_redis numbered_codecs mem_empty = (\<lambda>_. None)" by blast+
qed

end
