(* ===== verification/Umbrella_View.thy ===== *)
theory Umbrella_View
  imports Umbrella_Redis Umbrella_Service Value_Profile
begin

text \<open>
  The read endpoints of \<open>deblob/src/api/umbrellas.rs\<close>: umbrellas, transforms, the lineage of an approval and
  the field lineage, which joins the stored transforms with the profiles and units of their children.
\<close>

unbundle bit_operations_syntax

section \<open>Stored values\<close>

datatype view_error =
    StateInvalid bytes
  | StateRequired
  | NoUmbrella
  | NoLineage
  | ViewStore store_error

definition umbrella_state_query :: "bytes option \<Rightarrow> view_error + umbrella_state" where
  "umbrella_state_query raw =
     (case raw of
        None \<Rightarrow> Inl StateRequired
      | Some s \<Rightarrow> ok_or (StateInvalid s) (parse_umbrella_state s))"

definition view_umbrellas :: "'st umbrella_env \<Rightarrow> bytes option \<Rightarrow> 'st \<Rightarrow> view_error + stored_umbrella list" where
  "view_umbrellas E raw st =
     result_bind (umbrella_state_query raw) (\<lambda>s.
       result_map_err ViewStore (up_list_umbrellas (ue_umbrellas E) s st))"

definition view_umbrella :: "'st umbrella_env \<Rightarrow> bytes \<Rightarrow> 'st \<Rightarrow> view_error + stored_umbrella" where
  "view_umbrella E i st =
     result_bind (result_map_err ViewStore (up_get_umbrella (ue_umbrellas E) i st)) (ok_or NoUmbrella)"

definition view_lineage :: "'st umbrella_env \<Rightarrow> bytes \<Rightarrow> 'st \<Rightarrow> view_error + lineage_assertion" where
  "view_lineage E i st =
     result_bind (result_map_err ViewStore (up_get_lineage (ue_umbrellas E) i st)) (ok_or NoLineage)"

definition view_transforms :: "'st umbrella_env \<Rightarrow> bytes \<Rightarrow> 'st \<Rightarrow> view_error + child_transform list" where
  "view_transforms E i st = result_map_err ViewStore (up_list_transforms (ue_umbrellas E) i st)"

section \<open>Field lineage\<close>

record child_facts =
  ci_has_value_profile :: bool
  ci_leaves :: "bytes \<Rightarrow> (8 word \<times> u64) option"
  ci_units :: "bytes \<Rightarrow> bytes option option"

record field_contributor =
  fc_child_schema_id :: bytes
  fc_child_revision :: bytes
  fc_source_path :: bytes
  fc_op_count :: nat
  fc_on_missing :: on_missing
  fc_source_name :: bytes
  fc_unit :: "bytes option"
  fc_value_buckets :: "bytes list"
  fc_numeric_count :: u64
  fc_has_value_profile :: bool

record field_lineage =
  fl_umbrella_path :: bytes
  fl_canonical_field_id :: bytes
  fl_contributors :: "field_contributor list"
  fl_guard :: field_guard

definition bucket_names :: "8 word \<Rightarrow> bytes list" where
  "bucket_names msk =
     map snd (filter (\<lambda>(b, _). msk AND b \<noteq> 0)
       [(bucket_negative, ''negative''), (bucket_zero, ''zero''), (bucket_small_positive, ''small''),
        (bucket_medium_positive, ''medium''), (bucket_large_positive, ''large'')])"

definition child_info :: "'st umbrella_env \<Rightarrow> bytes \<Rightarrow> 'st \<Rightarrow> child_facts" where
  "child_info E child st =
     (case schema_id_parse (ue_b32 E) child of
        Inl _ \<Rightarrow> \<lparr> ci_has_value_profile = False, ci_leaves = (\<lambda>_. None), ci_units = (\<lambda>_. None) \<rparr>
      | Inr i \<Rightarrow>
          (case ue_get_schema E i st of
             Inr (Some rec) \<Rightarrow>
               (let (has, leaves) = profile_leaves E st rec;
                    cfs = child_fields_from_schema (ue_from_str E) rec
                      (case ue_active_semantic E i st of Inr m \<Rightarrow> m | Inl _ \<Rightarrow> None)
                in \<lparr> ci_has_value_profile = has, ci_leaves = leaves,
                     ci_units = map_of (rev (map (\<lambda>cf. (leaf_path_of (json_path_text (cf_path cf)), map_option code (cf_unit cf))) cfs)) \<rparr>)
           | _ \<Rightarrow> \<lparr> ci_has_value_profile = False, ci_leaves = (\<lambda>_. None), ci_units = (\<lambda>_. None) \<rparr>))"

definition contribution :: "child_facts \<Rightarrow> child_transform \<Rightarrow> binding \<Rightarrow> member_evidence \<times> field_contributor" where
  "contribution info t b =
     (let source_path = json_path_text (bd_source b);
          p = leaf_path_of source_path;
          (msk, count) = (case ci_leaves info p of Some mc \<Rightarrow> mc | None \<Rightarrow> (0, 0));
          u = (case ci_units info p of Some u \<Rightarrow> u | None \<Rightarrow> None)
      in (\<lparr> me_name = leaf_name_of p, me_unit = u, me_mask = msk, me_numeric_count = count,
            me_has_profile = ci_has_value_profile info \<rparr>,
          \<lparr> fc_child_schema_id = ct_child_schema_id t, fc_child_revision = ct_child_revision t, fc_source_path = source_path,
            fc_op_count = length (bd_ops b), fc_on_missing = bd_on_missing b, fc_source_name = leaf_name_of p,
            fc_unit = u, fc_value_buckets = bucket_names msk, fc_numeric_count = count,
            fc_has_value_profile = ci_has_value_profile info \<rparr>))"

definition contributions ::
  "'st umbrella_env \<Rightarrow> 'st \<Rightarrow> child_transform list \<Rightarrow> umbrella_field \<Rightarrow> (member_evidence \<times> field_contributor) list" where
  "contributions E st ts uf =
     concat (map (\<lambda>t. map (contribution (child_info E (ct_child_schema_id t) st) t)
       (filter (\<lambda>b. bd_target b = uf_path uf) (ct_bindings t))) ts)"

definition lineage_of_field :: "'st umbrella_env \<Rightarrow> 'st \<Rightarrow> child_transform list \<Rightarrow> umbrella_field \<Rightarrow> field_lineage" where
  "lineage_of_field E st ts uf =
     (let cs = contributions E st ts uf
      in \<lparr> fl_umbrella_path = json_path_text (uf_path uf), fl_canonical_field_id = uf_canonical_field_id uf,
           fl_contributors = sort_key fc_child_schema_id (map snd cs),
           fl_guard = evaluate_field (ue_normalize E) (map fst cs) (ue_min_support E) \<rparr>)"

definition view_field_lineage :: "'st umbrella_env \<Rightarrow> bytes \<Rightarrow> 'st \<Rightarrow> view_error + field_lineage list" where
  "view_field_lineage E i st =
     result_bind (view_umbrella E i st) (\<lambda>stored.
       result_bind (view_transforms E i st) (\<lambda>ts.
         Inr (map (lineage_of_field E st ts) (um_fields (su_schema stored)))))"

text \<open>
  Over the store in Redis the view is complete: one entry per field of the umbrella, in order, whose
  contributors are the bindings of the stored transforms that reach the field, sorted by child.
\<close>

lemma contributions_origin:
  "set (map (\<lambda>c. (fc_child_schema_id (snd c), fc_source_path (snd c))) (contributions E st ts uf)) =
     {(ct_child_schema_id t, json_path_text (bd_source b)) | t b.
        t \<in> set ts \<and> b \<in> set (ct_bindings t) \<and> bd_target b = uf_path uf}"
  by (auto simp: contributions_def contribution_def Let_def image_iff split: prod.splits) metis+

lemma field_lineage_complete:
  assumes S: "redis_umbrella_service R view C" and ok: "umbrella_intact R view C st" "plain_id i"
    and E: "ue_umbrellas E = redis_umbrella R C" and w: "redis_umb R C st i = Some w"
  shows "\<exists>fls. view_field_lineage E i st = Inr fls \<and>
    list_all2 (\<lambda>fl uf. fl_umbrella_path fl = json_path_text (uf_path uf) \<and>
        fl_canonical_field_id fl = uf_canonical_field_id uf \<and> sorted (map fc_child_schema_id (fl_contributors fl)) \<and>
        (\<lambda>c. (fc_child_schema_id c, fc_source_path c)) ` set (fl_contributors fl) =
          {(ct_child_schema_id t, json_path_text (bd_source b)) | t b.
             (\<exists>c. redis_trf R C st i c = Some t) \<and> b \<in> set (ct_bindings t) \<and> bd_target b = uf_path uf})
      fls (um_fields (su_schema w))" (is "\<exists>fls. _ \<and> list_all2 ?entry fls _")
proof -
  note store = redis_umbrella_service.store_facts [OF S ok(1)]
  obtain ts where ts: "up_list_transforms (redis_umbrella R C) i st = Inr ts" "set ts = {t. \<exists>c. redis_trf R C st i c = Some t}"
    using store(2) [OF ok(2)] by blast
  have view: "view_field_lineage E i st = Inr (map (lineage_of_field E st ts) (um_fields (su_schema w)))"
    by (simp add: view_field_lineage_def view_umbrella_def view_transforms_def E store(1) w ts(1))
  have fl: "(\<lambda>c. (fc_child_schema_id c, fc_source_path c)) ` set (fl_contributors (lineage_of_field E st ts uf)) =
      {(ct_child_schema_id t, json_path_text (bd_source b)) | t b.
         (\<exists>c. redis_trf R C st i c = Some t) \<and> b \<in> set (ct_bindings t) \<and> bd_target b = uf_path uf}"
    "fl_umbrella_path (lineage_of_field E st ts uf) = json_path_text (uf_path uf)"
    "fl_canonical_field_id (lineage_of_field E st ts uf) = uf_canonical_field_id uf"
    "sorted (map fc_child_schema_id (fl_contributors (lineage_of_field E st ts uf)))" for uf
    using contributions_origin [of E st ts uf] ts(2) by (simp_all add: lineage_of_field_def Let_def image_image)
  show ?thesis unfolding view
  proof (intro exI conjI, rule refl, rule list_all2_all_nthI)
    fix n assume "n < length (map (lineage_of_field E st ts) (um_fields (su_schema w)))"
    then have nth: "map (lineage_of_field E st ts) (um_fields (su_schema w)) ! n =
        lineage_of_field E st ts (um_fields (su_schema w) ! n)" by simp
    show "?entry (map (lineage_of_field E st ts) (um_fields (su_schema w)) ! n) (um_fields (su_schema w) ! n)"
      unfolding nth by (intro conjI fl)
  qed simp
qed

end
