(* ===== verification/Umbrella_Governance.thy ===== *)
theory Umbrella_Governance
  imports Umbrella_Lifecycle Umbrella_View
begin

text \<open>
  The theorems on proposals and decisions over the store in Redis: its contract is what the life of an
  umbrella was proved over.
\<close>

sublocale redis_umbrella_service \<subseteq> service: umbrella_service "redis_umbrella R C" plain_id "umbrella_intact R view C"
    "redis_umb R C" "redis_trf R C" "redis_lin R C"
  by unfold_locales (simp add: plain_id_def minted_plain)

context redis_umbrella_service
begin

lemmas propose_groups_redis = service.propose_groups_contract
lemmas run_redis = service.run_contract
lemmas approve_redis = service.approve_contract
lemmas approve_succeeds_redis = service.approve_succeeds
lemmas write_proposal_redis = service.write_proposal_contract

end

section \<open>Groups\<close>



section \<open>Properties\<close>


text \<open>C34: A decision of a reviewer is final: along every run of proposals, approvals and rejections, whatever the
  schemas are meanwhile, a rejected umbrella stays as it is and an active one keeps its schema, its transforms
  and its lineage until it is rejected; and an umbrella is active only if it was, or if the run holds an
  approval of it that passed all checks.\<close>

theorem umbrella_lifecycle:
  assumes "redis_umbrella_service R view C" "umbrellas_good plain_id (umbrella_intact R view C) (redis_umb R C) st"
    and "\<forall>(E, r)\<in>set requests. ue_umbrellas E = redis_umbrella R C"
  shows "decided_kept (redis_umb R C) (redis_trf R C) (redis_lin R C) st (umbrella_run requests st) \<and>
    (\<forall>i w. redis_umb R C (umbrella_run requests st) i = Some w \<longrightarrow> su_state w = UmActive \<longrightarrow>
      redis_umb R C st i = Some w \<or>
      (\<exists>before E reason after n. requests = before @ (E, Approve i reason) # after \<and>
         approval (redis_umb R C) (redis_trf R C) (redis_lin R C) E i reason n (umbrella_run before st)
           (umbrella_run (before @ [(E, Approve i reason)]) st)))"
  using redis_umbrella_service.run_redis [OF assms] by blast



section \<open>A deployment\<close>

text \<open>Two sensors, each with one annotated temperature, and a reviewer who approves.\<close>

definition sensor_node :: "bytes \<Rightarrow> json" where
  "sensor_node k = JObject [(''children'', JObject [(k, JObject [(''types'', JArray [JString ''number''])])]),
     (''types'', JArray [JString ''object''])]"

definition sensor_record :: "bytes \<Rightarrow> bytes \<Rightarrow> schema_record" where
  "sensor_record i key =
     \<lparr> rec_schema_id = SchemaId i, rec_family_id = FamilyId ''f'', rec_version = 1, rec_canonical = key,
       rec_canonicalizer = generalizer, rec_provenance = JObject [(''source'', JString ''events.weather.x'')],
       rec_semantic = None, rec_semantic_fingerprint = None, rec_privacy_class = None, rec_value_profile_ref = None,
       rec_value_profile_summary = None, rec_structural_simhash = None \<rparr>"

definition sensors :: "schema_record list" where
  "sensors = [sensor_record ''sch_A'' ''temp'', sensor_record ''sch_B'' ''t'']"

definition sensor_semantics :: "bytes \<Rightarrow> semantic_metadata" where
  "sensor_semantics key =
     \<lparr> event_type = None, field_entries = [\<lparr> path = [Key key], semantics =
         \<lparr> canonical_field_id = Some ''cfid_celsius'', identifier_namespace = None, field_unit = Some (ucum_unit ''Cel''),
           numeric_scale = None, field_temporal = None, enum_semantics = None \<rparr> \<rparr>] \<rparr>"

definition sensor_key :: "schema_id \<Rightarrow> bytes" where
  "sensor_key i = (if i = SchemaId ''sch_A'' then ''temp'' else ''t'')"

definition sensor_env :: "mem umbrella_env" where
  "sensor_env =
     \<lparr> ue_umbrellas = redis_umbrella mem_redis numbered_codecs, ue_schema_pages = (\<lambda>_. [Inr sensors]),
       ue_get_schema = (\<lambda>i _. Inr (List.find (\<lambda>r. rec_schema_id r = i) sensors)),
       ue_active_semantic = (\<lambda>i _. Inr (Some (sensor_semantics (sensor_key i)))),
       ue_get_value_profile = (\<lambda>_ _. Inr None), ue_from_str = (\<lambda>s. Some (sensor_node s)),
       ue_b32 = (\<lambda>_. Some (replicate 32 CHR ''x'')), ue_normalize = id, ue_trim = id, ue_min_support = 30,
       ue_gate_enforce = True, ue_enforce_guard = True \<rparr>"

definition sensor_field :: "bytes \<Rightarrow> child_field" where
  "sensor_field k = \<lparr> cf_path = [k], cf_ty = TyDecimal, cf_unit = Some (ucum_unit ''Cel''), cf_is_array = False,
     cf_canonical_field_id = Some ''cfid_celsius'' \<rparr>"

definition sensor_sig :: "field_sig list" where
  "sensor_sig = [(''cfid_celsius'', ''Decimal'')]"

definition sensor_members :: "member list" where
  "sensor_members = [(sensor_record ''sch_A'' ''temp'', [sensor_field ''temp'']), (sensor_record ''sch_B'' ''t'', [sensor_field ''t''])]"

definition sensor_id :: bytes where
  "sensor_id = umbrella_id_for sensor_sig"

definition sensor_umbrella :: "bytes \<Rightarrow> umbrella_schema" where
  "sensor_umbrella i = build_umbrella i [''cfid_celsius''] sensor_members"


definition sensor_proposed :: mem where
  "sensor_proposed = snd (propose_umbrellas sensor_env mem_empty)"

definition sensor_active :: mem where
  "sensor_active = snd (approve sensor_env sensor_id ''checked'' sensor_proposed)"

lemma sensor_groups: "group_by_signature (annotated_schemas sensor_env st sensors) = [(sensor_sig, sensor_members)]"
proof -
  have "child_fields sensor_env st (sensor_record ''sch_A'' ''temp'') = [sensor_field ''temp'']"
    "child_fields sensor_env st (sensor_record ''sch_B'' ''t'') = [sensor_field ''t'']"
    by (simp_all add: child_fields_def sensor_env_def sensor_record_def child_fields_from_schema_def sensor_node_def
        sensor_key_def sensor_semantics_def semantic_by_path_def leaf_field_def leaf_type_def node_types_def
        leading_type_def scalar_type_of_def joined_path_def json_path_parse_def sensor_field_def
        List.map_filter_def)
  then have "annotated_schemas sensor_env st sensors = sensor_members"
    by (simp add: annotated_schemas_def sensors_def sensor_members_def sensor_field_def)
  moreover have "group_by_signature sensor_members = [(sensor_sig, sensor_members)]" by code_simp
  ultimately show ?thesis by simp
qed

lemma sensor_stores:
  "ue_umbrellas sensor_env = redis_umbrella mem_redis numbered_codecs"
  "collect_results id (ue_schema_pages sensor_env st) = Inr [sensors]"
  "ue_trim sensor_env ''checked'' = ''checked''"
  by (simp_all add: sensor_env_def)

text \<open>The checks of the proposal and of the approval, whatever the id is.\<close>

lemma sensor_checks:
  "member_clusters sensor_members = [GeoCluster]"
  "\<not> shadow_evaluate_guard sensor_env st (sensor_umbrella i) sensor_members"
  "independent_paths (sensor_umbrella i)"
  "um_umbrella_id (sensor_umbrella i) = i"
  "\<forall>m\<in>set sensor_members. verify_static (member_transform (sensor_umbrella i) m) (sensor_umbrella i) (snd m) = []"
  "\<forall>m\<in>set sensor_members. child_issues sensor_env (sensor_umbrella i) st (member_transform (sensor_umbrella i) m) = Inr []"
  "map (\<lambda>m. ct_child_schema_id (member_transform (sensor_umbrella i) m)) sensor_members = [''sch_A'', ''sch_B'']"
  unfolding sensor_umbrella_def by code_simp+

lemma sensor_decided:
  "decide_group sensor_env (sensor_sig, sensor_members) mem_empty =
     Inr (Some (sensor_umbrella sensor_id, map (member_transform (sensor_umbrella sensor_id)) sensor_members))"
proof -
  have "verified_transforms (sensor_umbrella sensor_id) sensor_members =
      map (member_transform (sensor_umbrella sensor_id)) sensor_members"
    using sensor_checks(5) by (simp add: verified_transforms_def)
  moreover have "up_get_umbrella (redis_umbrella mem_redis numbered_codecs) i mem_empty = Inr None" for i
    using mem_umbrella.store.get_umbrella [OF mem_umbrella_empty(1)] by (simp add: mem_umbrella_empty)
  moreover have "build_umbrella sensor_id (map fst sensor_sig) sensor_members = sensor_umbrella sensor_id"
    by (simp add: sensor_umbrella_def sensor_sig_def)
  moreover have "length sensor_members = 2" by (simp add: sensor_members_def)
  ultimately show ?thesis
    by (simp add: decide_group_def Let_def sensor_checks sensor_stores flip: sensor_id_def)
qed


lemma sensor_run:
  "propose_umbrellas sensor_env mem_empty = (Inr [sensor_id], sensor_proposed)"
  "umbrellas_good plain_id (umbrella_intact mem_redis mem_view numbered_codecs) (redis_umb mem_redis numbered_codecs) sensor_proposed"
  "redis_umb mem_redis numbered_codecs sensor_proposed =
     [sensor_id \<mapsto> \<lparr> su_schema = sensor_umbrella sensor_id, su_state = UmProvisional \<rparr>]"
  "redis_trf mem_redis numbered_codecs sensor_proposed =
     with_transforms (map (member_transform (sensor_umbrella sensor_id)) sensor_members) (\<lambda>_ _. None)"
proof -
  let ?ts = "map (member_transform (sensor_umbrella sensor_id)) sensor_members"
  have pl: "plain_id sensor_id" by (simp add: sensor_id_def plain_id_def minted_plain)
  obtain res st' where w: "write_proposal (redis_umbrella mem_redis numbered_codecs) (sensor_umbrella sensor_id) ?ts mem_empty = (res, st')"
    by fastforce
  have own: "\<forall>t\<in>set ?ts. plain_id (ct_umbrella_id t)" using pl by (simp add: mem_umbrella.service.member_transform_umbrella sensor_checks)
  note c = mem_umbrella.write_proposal_redis [OF mem_umbrella_empty(1) own w]
  then have run: "propose_umbrellas sensor_env mem_empty = (Inr [sensor_id], st')"
    using w by (simp add: propose_umbrellas_def sensor_stores sensor_groups sensor_decided sensor_checks)
  then have st: "sensor_proposed = st'" by (simp add: sensor_proposed_def)
  show "propose_umbrellas sensor_env mem_empty = (Inr [sensor_id], sensor_proposed)" using run st by simp
  show "redis_umb mem_redis numbered_codecs sensor_proposed =
      [sensor_id \<mapsto> \<lparr> su_schema = sensor_umbrella sensor_id, su_state = UmProvisional \<rparr>]"
    "redis_trf mem_redis numbered_codecs sensor_proposed = with_transforms ?ts (\<lambda>_ _. None)"
    "umbrellas_good plain_id (umbrella_intact mem_redis mem_view numbered_codecs) (redis_umb mem_redis numbered_codecs) sensor_proposed"
    using c pl by (simp_all add: st umbrellas_good_def sensor_checks mem_umbrella_empty)
qed

lemma sensor_clean:
  assumes "redis_trf mem_redis numbered_codecs sensor_proposed i c = Some t"
  shows "child_issues sensor_env (sensor_umbrella sensor_id) st t = Inr []"
  using assms sensor_checks(6) [of "sensor_id" st] by (auto simp: sensor_run dest!: with_transforms_Some)

lemma sensor_approved:
  "\<exists>n. approve sensor_env sensor_id ''checked'' sensor_proposed = (Inr n, sensor_active)"
  using mem_umbrella.approve_succeeds_redis [OF sensor_run(2) sensor_stores(1), of "''checked''" sensor_id]
  by (auto simp: sensor_stores sensor_run(3) sensor_clean sensor_active_def)



lemma sensor_activated:
  "umbrellas_good plain_id (umbrella_intact mem_redis mem_view numbered_codecs) (redis_umb mem_redis numbered_codecs) sensor_active"
  "redis_umb mem_redis numbered_codecs sensor_active sensor_id =
     Some \<lparr> su_schema = sensor_umbrella sensor_id, su_state = UmActive \<rparr>"
  "redis_trf mem_redis numbered_codecs sensor_active = redis_trf mem_redis numbered_codecs sensor_proposed"
proof -
  obtain n where n: "approve sensor_env sensor_id ''checked'' sensor_proposed = (Inr n, sensor_active)"
    using sensor_approved by blast
  note a = mem_umbrella.approve_redis [OF sensor_run(2) sensor_stores(1) n]
  then show
    "umbrellas_good plain_id (umbrella_intact mem_redis mem_view numbered_codecs) (redis_umb mem_redis numbered_codecs) sensor_active"
    "redis_umb mem_redis numbered_codecs sensor_active sensor_id =
      Some \<lparr> su_schema = sensor_umbrella sensor_id, su_state = UmActive \<rparr>"
    "redis_trf mem_redis numbered_codecs sensor_active = redis_trf mem_redis numbered_codecs sensor_proposed"
    by (auto simp: approval_def sensor_run(3))
qed

theorem umbrella_lifecycle_witness:
  "\<exists>s. redis_umb mem_redis numbered_codecs
      (umbrella_run [(sensor_env, Propose), (sensor_env, Approve sensor_id ''again''), (sensor_env, Reject sensor_id)] sensor_active)
      sensor_id = Some \<lparr> su_schema = sensor_umbrella sensor_id, su_state = s \<rparr> \<and> s \<noteq> UmProvisional"
proof -
  let ?rs = "[(sensor_env, Propose), (sensor_env, Approve sensor_id ''again''), (sensor_env, Reject sensor_id)]"
  have "decided_kept (redis_umb mem_redis numbered_codecs) (redis_trf mem_redis numbered_codecs)
      (redis_lin mem_redis numbered_codecs) sensor_active (umbrella_run ?rs sensor_active)"
    using umbrella_lifecycle [OF mem_umbrella.redis_umbrella_service_axioms sensor_activated(1), of ?rs]
    by (simp add: sensor_stores del: umbrella_run.simps)
  then show ?thesis using sensor_activated(2) unfolding decided_kept_def
    by (fastforce simp del: umbrella_run.simps)
qed






end
