(* ===== verification/Semantic_Canon.thy ===== *)
theory Semantic_Canon
  imports Records Umbrella Complex_Main
begin

text \<open>
  The canonical form of semantic metadata: \<open>deblob-semantic/src/canon.rs\<close>, \<open>digest.rs\<close> and the controlled
  vocabulary of \<open>vocab.rs\<close>. Unicode normalization (NFC) and SHA-256 are parameters; control characters are
  recognised on the UTF-8 bytes.
\<close>

unbundle bit_operations_syntax

section \<open>Errors and wire primitives\<close>

datatype canon_error =
    InvalidPathKey nat nat
  | DuplicatePath nat nat
  | DuplicateEnumKey nat
  | InvalidEnumNumber nat

fun to_be_bytes :: "nat \<Rightarrow> int \<Rightarrow> bytes" where
  "to_be_bytes 0 i = []"
| "to_be_bytes (Suc n) i = to_be_bytes n (i div 256) @ [char_of (nat (i mod 256))]"

definition push_u32 :: "nat \<Rightarrow> bytes" where
  "push_u32 v = to_be_bytes 4 (int v)"

definition push_i64 :: "int \<Rightarrow> bytes" where
  "push_i64 v = to_be_bytes 8 v"

definition push_lp_bytes :: "bytes \<Rightarrow> bytes" where
  "push_lp_bytes bs = push_u32 (length bs) @ bs"

section \<open>Paths\<close>

definition tag_path_key :: u8 where "tag_path_key = CHR 0x00"
definition tag_path_wildcard :: u8 where "tag_path_wildcard = CHR 0x01"

text \<open>Control characters are U+0000 to U+001F and U+007F to U+009F, the latter on two bytes.\<close>

fun has_control :: "bytes \<Rightarrow> bool" where
  "has_control [] = False"
| "has_control (c # s) =
     (byte_val c < 0x20 \<or> byte_val c = 0x7F \<or>
      byte_val c = 0xC2 \<and> (case s of d # _ \<Rightarrow> 0x80 \<le> byte_val d \<and> byte_val d \<le> 0x9F | [] \<Rightarrow> False) \<or> has_control s)"

definition encode_segment :: "(bytes \<Rightarrow> bytes) \<Rightarrow> nat \<Rightarrow> nat \<times> path_segment \<Rightarrow> canon_error + bytes" where
  "encode_segment nfc field_index s =
     (case s of
        (_, Wildcard) \<Rightarrow> Inr [tag_path_wildcard]
      | (segment_index, Key k) \<Rightarrow>
          if has_control k then Inl (InvalidPathKey field_index segment_index)
          else Inr (tag_path_key # push_lp_bytes (nfc k)))"

definition encode_path :: "(bytes \<Rightarrow> bytes) \<Rightarrow> nat \<Rightarrow> path_segment list \<Rightarrow> canon_error + bytes" where
  "encode_path nfc field_index p =
     result_bind (collect_results (encode_segment nfc field_index) (List.enumerate 0 p)) (\<lambda>segs.
       Inr (push_u32 (length p) @ concat segs))"

section \<open>Numbers\<close>

record decimal_form =
  dec_negative :: bool
  dec_digits :: bytes
  dec_exponent :: int

definition digits_of :: "bytes \<Rightarrow> bytes \<times> bytes" where
  "digits_of s = (takeWhile is_ascii_digit s, dropWhile is_ascii_digit s)"

definition scan_sign :: "bytes \<Rightarrow> bool \<times> bytes" where
  "scan_sign s = (case s of c # r \<Rightarrow> if c = CHR ''-'' then (True, r) else (False, s) | [] \<Rightarrow> (False, s))"

definition scan_int :: "bytes \<Rightarrow> (bytes \<times> bytes) option" where
  "scan_int s =
     (case s of
        [] \<Rightarrow> None
      | c # r \<Rightarrow> if c = CHR ''0'' then Some ([c], r) else if is_ascii_digit c then Some (digits_of s) else None)"

definition scan_frac :: "bytes \<Rightarrow> (bytes \<times> bytes) option" where
  "scan_frac s =
     (case s of
        c # r \<Rightarrow> if c = CHR ''.'' then (if fst (digits_of r) = [] then None else Some (digits_of r)) else Some ([], s)
      | [] \<Rightarrow> Some ([], s))"

definition scan_exp :: "bytes \<Rightarrow> (int \<times> bytes) option" where
  "scan_exp s =
     (case s of
        c # r \<Rightarrow>
          if c = CHR ''e'' \<or> c = CHR ''E'' then
            (let (exp_negative, r1) =
                   (case r of
                      d # r' \<Rightarrow> if d = CHR ''+'' then (False, r') else if d = CHR ''-'' then (True, r') else (False, r)
                    | [] \<Rightarrow> (False, r));
                 (ds, r2) = digits_of r1
             in if ds = [] then None
                else if 2 ^ 63 \<le> dec_val ds then None
                else Some (if exp_negative then - int (dec_val ds) else int (dec_val ds), r2))
          else Some (0, s)
      | [] \<Rightarrow> Some (0, s))"

definition reduce_decimal :: "bool \<Rightarrow> bytes \<Rightarrow> int \<Rightarrow> decimal_form option" where
  "reduce_decimal negative digits exponent =
     (let trimmed = dropWhile (\<lambda>c. c = CHR ''0'') digits
      in if trimmed = [] then Some \<lparr> dec_negative = False, dec_digits = ''0'', dec_exponent = 0 \<rparr>
         else
           (let zeros = takeWhile (\<lambda>c. c = CHR ''0'') (rev trimmed);
                e = exponent + int (length zeros)
            in if 2 ^ 63 \<le> e then None
               else Some \<lparr> dec_negative = negative, dec_digits = take (length trimmed - length zeros) trimmed,
                           dec_exponent = e \<rparr>))"

definition canonical_decimal :: "bytes \<Rightarrow> decimal_form option" where
  "canonical_decimal s =
     (let (negative, s1) = scan_sign s
      in Option.bind (scan_int s1) (\<lambda>(int_part, s2).
         Option.bind (scan_frac s2) (\<lambda>(frac_part, s3).
         Option.bind (scan_exp s3) (\<lambda>(exp_field, s4).
           if s4 \<noteq> [] then None
           else if exp_field - int (length frac_part) < - (2 ^ 63) then None
           else reduce_decimal negative (int_part @ frac_part) (exp_field - int (length frac_part))))))"

section \<open>Attributes\<close>

definition tag_kv_string :: u8 where "tag_kv_string = CHR 0x00"
definition tag_kv_number :: u8 where "tag_kv_number = CHR 0x01"
definition tag_kv_bool :: u8 where "tag_kv_bool = CHR 0x02"
definition tag_kv_null :: u8 where "tag_kv_null = CHR 0x03"

definition bool_byte :: "bool \<Rightarrow> u8" where
  "bool_byte b = (if b then CHR 0x01 else CHR 0x00)"

definition typed_value_bytes :: "nat \<Rightarrow> enum_value \<Rightarrow> canon_error + bytes" where
  "typed_value_bytes field_index v =
     (case v of
        EnumNull \<Rightarrow> Inr [tag_kv_null]
      | EnumBool b \<Rightarrow> Inr [tag_kv_bool, bool_byte b]
      | EnumNumber t \<Rightarrow>
          (case canonical_decimal t of
             None \<Rightarrow> Inl (InvalidEnumNumber field_index)
           | Some d \<Rightarrow> Inr (tag_kv_number # bool_byte (dec_negative d) # push_i64 (dec_exponent d) @ push_lp_bytes (dec_digits d)))
      | EnumString s \<Rightarrow> Inr (tag_kv_string # push_lp_bytes s))"

definition encode_meaning_code :: "meaning_code \<Rightarrow> bytes" where
  "encode_meaning_code mc = push_lp_bytes (vocabulary mc) @ push_lp_bytes (meaning mc)"

definition enum_entry :: "nat \<Rightarrow> enum_mapping \<Rightarrow> canon_error + (bytes \<times> meaning_code)" where
  "enum_entry field_index m =
     result_bind (typed_value_bytes field_index (mapped_value m)) (\<lambda>bs. Inr (bs, mapped_meaning m))"

definition encode_enum_semantics :: "nat \<Rightarrow> enum_mapping list \<Rightarrow> canon_error + bytes" where
  "encode_enum_semantics field_index mappings =
     result_bind (collect_results (enum_entry field_index) mappings) (\<lambda>es.
       let entries = sort_key fst es
       in if \<not> distinct_adj (map fst entries) then Inl (DuplicateEnumKey field_index)
          else Inr (push_u32 (length entries) @ concat (map (\<lambda>(bs, mc). bs @ encode_meaning_code mc) entries)))"

definition unit_tag :: "unit_system \<Rightarrow> u8" where
  "unit_tag s = (case s of Ucum \<Rightarrow> CHR 0x00 | Iso4217 \<Rightarrow> CHR 0x01 | Registered \<Rightarrow> CHR 0x02)"

definition encode_unit :: "unit_code \<Rightarrow> bytes" where
  "encode_unit u = unit_tag (system u) # push_lp_bytes (code u)"

definition encode_temporal_kind :: "temporal_kind \<Rightarrow> u8" where
  "encode_temporal_kind k =
     (case k of Instant \<Rightarrow> CHR 0x00 | LocalDatetime \<Rightarrow> CHR 0x01 | Date \<Rightarrow> CHR 0x02 | Duration \<Rightarrow> CHR 0x03)"

definition encode_temporal_resolution :: "temporal_resolution \<Rightarrow> u8" where
  "encode_temporal_resolution r =
     (case r of temporal_resolution.S \<Rightarrow> CHR 0x00 | Ms \<Rightarrow> CHR 0x01 | Us \<Rightarrow> CHR 0x02 | Ns \<Rightarrow> CHR 0x03)"

definition encode_epoch :: "epoch_base \<Rightarrow> bytes" where
  "encode_epoch e = (case e of Unix \<Rightarrow> [CHR 0x00] | RegisteredEpoch c \<Rightarrow> CHR 0x01 # push_lp_bytes c)"

text \<open>An optional part: its bit of the bitmap, and its bytes.\<close>

definition part :: "8 word \<Rightarrow> bytes option \<Rightarrow> 8 word \<times> bytes" where
  "part b x = (case x of None \<Rightarrow> (0, []) | Some bs \<Rightarrow> (b, bs))"

definition with_bitmap :: "(8 word \<times> bytes) list \<Rightarrow> bytes option" where
  "with_bitmap parts =
     (let bitmap = foldl (\<lambda>acc p. acc OR fst p) 0 parts
      in if bitmap = 0 then None else Some (char_of (unat bitmap) # concat (map snd parts)))"

definition encode_temporal :: "temporal \<Rightarrow> bytes option" where
  "encode_temporal t =
     with_bitmap
       [part 1 (map_option (\<lambda>k. [encode_temporal_kind k]) (temporal_kind t)),
        part 2 (map_option encode_epoch (epoch t)),
        part 4 (map_option (\<lambda>r. [encode_temporal_resolution r]) (resolution t))]"

definition encode_field_semantics :: "nat \<Rightarrow> field_semantics \<Rightarrow> canon_error + bytes option" where
  "encode_field_semantics field_index s =
     result_bind
       (case enum_semantics s of
          Some (m # ms) \<Rightarrow> result_bind (encode_enum_semantics field_index (m # ms)) (\<lambda>bs. Inr (Some bs))
        | _ \<Rightarrow> Inr None)
       (\<lambda>enums. Inr (with_bitmap
         [part 1 (map_option push_lp_bytes (canonical_field_id s)),
          part 2 (map_option push_lp_bytes (identifier_namespace s)),
          part 4 (map_option encode_unit (field_unit s)),
          part 8 (map_option push_i64 (numeric_scale s)),
          part 16 (Option.bind (field_temporal s) encode_temporal),
          part 32 enums]))"

section \<open>Normal form\<close>

record normalized =
  event_type_bytes :: "bytes option"
  norm_fields :: "(bytes \<times> bytes) list"

definition normalized_is_empty :: "normalized \<Rightarrow> bool" where
  "normalized_is_empty n \<longleftrightarrow> event_type_bytes n = None \<and> norm_fields n = []"

text \<open>The first pair of equal paths, in the order of the nested loops.\<close>

definition duplicate_path :: "bytes list \<Rightarrow> (nat \<times> nat) option" where
  "duplicate_path ps =
     List.find (\<lambda>(earlier, later). ps ! earlier = ps ! later)
       (concat (map (\<lambda>later. map (\<lambda>earlier. (earlier, later)) [0..<later]) [1..<length ps]))"

definition encode_entry :: "nat \<times> field_entry \<times> bytes \<Rightarrow> canon_error + (bytes \<times> bytes) option" where
  "encode_entry e =
     (case e of (field_index, field, path_bytes) \<Rightarrow>
        result_bind (encode_field_semantics field_index (semantics field)) (\<lambda>attr.
          Inr (map_option (\<lambda>bs. (path_bytes, bs)) attr)))"

definition normalize_metadata :: "(bytes \<Rightarrow> bytes) \<Rightarrow> semantic_metadata \<Rightarrow> canon_error + normalized" where
  "normalize_metadata nfc m =
     result_bind (collect_results (\<lambda>(i, f). encode_path nfc i (path f)) (List.enumerate 0 (field_entries m))) (\<lambda>paths.
       case duplicate_path paths of
         Some (a, b) \<Rightarrow> Inl (DuplicatePath a b)
       | None \<Rightarrow>
           result_bind (collect_results encode_entry (List.enumerate 0 (zip (field_entries m) paths))) (\<lambda>fields.
             Inr \<lparr> event_type_bytes = map_option push_lp_bytes (event_type m),
                   norm_fields = sort_key fst (List.map_filter id fields) \<rparr>))"

definition encode_normalized :: "normalized \<Rightarrow> bytes" where
  "encode_normalized n =
     (case event_type_bytes n of Some bs \<Rightarrow> CHR 0x01 # bs | None \<Rightarrow> [CHR 0x00]) @
     push_u32 (length (norm_fields n)) @ concat (map (\<lambda>(p, a). p @ a) (norm_fields n))"

definition canonical_semantic_bytes :: "(bytes \<Rightarrow> bytes) \<Rightarrow> semantic_metadata \<Rightarrow> canon_error + bytes" where
  "canonical_semantic_bytes nfc m = result_bind (normalize_metadata nfc m) (\<lambda>n. Inr (encode_normalized n))"

section \<open>Fingerprints\<close>

definition vocab_version :: bytes where
  "vocab_version = ''deblob-semantic-v1''"

definition semantic_fingerprint ::
  "(bytes \<Rightarrow> bytes) \<Rightarrow> (bytes \<Rightarrow> bytes) \<Rightarrow> (bytes \<Rightarrow> bytes) \<Rightarrow> semantic_metadata \<Rightarrow> canon_error + semantic_id option" where
  "semantic_fingerprint nfc sha b32 m =
     result_bind (normalize_metadata nfc m) (\<lambda>n.
       Inr (if normalized_is_empty n then None
            else Some (semantic_id_from_digest b32 (sha (vocab_version @ [CHR 0x00] @ encode_normalized n)))))"

end
