(* ===== verification/Semantic_Decimal.thy ===== *)
theory Semantic_Decimal
  imports Semantic_Canon
begin

text \<open>
  The numbers of enum mappings: \<open>canonical_decimal\<close> reads exactly the number literals of JSON (up to the
  range of its 64-bit exponent), its result denotes the literal's value, and two results are equal exactly
  when the values are.
\<close>

section \<open>Number literals and their values\<close>

inductive exponent_text :: "bytes \<Rightarrow> int \<Rightarrow> bool" where
  no_exponent: "exponent_text [] 0"
| positive_exponent: "c \<in> {CHR ''e'', CHR ''E''} \<Longrightarrow> sign \<in> {[], ''+''} \<Longrightarrow> ds \<noteq> [] \<Longrightarrow> list_all is_ascii_digit ds \<Longrightarrow>
    exponent_text (c # sign @ ds) (int (dec_val ds))"
| negative_exponent: "c \<in> {CHR ''e'', CHR ''E''} \<Longrightarrow> ds \<noteq> [] \<Longrightarrow> list_all is_ascii_digit ds \<Longrightarrow>
    exponent_text (c # ''-'' @ ds) (- int (dec_val ds))"

definition integer_part :: "bytes \<Rightarrow> bool" where
  "integer_part ds \<longleftrightarrow> ds = ''0'' \<or> ds \<noteq> [] \<and> list_all is_ascii_digit ds \<and> hd ds \<noteq> CHR ''0''"

definition literal_text :: "bool \<Rightarrow> bytes \<Rightarrow> bytes \<Rightarrow> bytes \<Rightarrow> bytes" where
  "literal_text negative ip fp ep =
     (if negative then ''-'' else []) @ ip @ (if fp = [] then [] else CHR ''.'' # fp) @ ep"

definition scaled :: "bool \<Rightarrow> nat \<Rightarrow> int \<Rightarrow> rat" where
  "scaled negative n e = (if negative then - 1 else 1) * of_nat n * 10 powi e"

inductive number_literal :: "bytes \<Rightarrow> rat \<Rightarrow> bool" where
  number_literal: "integer_part ip \<Longrightarrow> list_all is_ascii_digit fp \<Longrightarrow> exponent_text ep e \<Longrightarrow>
    number_literal (literal_text negative ip fp ep) (scaled negative (dec_val (ip @ fp)) (e - int (length fp)))"

definition decimal_value :: "decimal_form \<Rightarrow> rat" where
  "decimal_value d = scaled (dec_negative d) (dec_val (dec_digits d)) (dec_exponent d)"

text \<open>Reduced decimals: no leading and no trailing zero, except for zero itself.\<close>

definition reduced :: "decimal_form \<Rightarrow> bool" where
  "reduced d \<longleftrightarrow>
     d = \<lparr> dec_negative = False, dec_digits = ''0'', dec_exponent = 0 \<rparr> \<or>
     dec_digits d \<noteq> [] \<and> list_all is_ascii_digit (dec_digits d) \<and> hd (dec_digits d) \<noteq> CHR ''0'' \<and>
     last (dec_digits d) \<noteq> CHR ''0''"

section \<open>Digit strings\<close>

lemma dec_val_Nil [simp]: "dec_val [] = 0"
  by (simp add: dec_val_def)

lemma dec_val_snoc: "dec_val (ds @ [c]) = 10 * dec_val ds + digit_val c"
  by (simp add: dec_val_def)

lemma dec_val_append: "dec_val (xs @ ys) = dec_val xs * 10 ^ length ys + dec_val ys"
proof (induction ys rule: rev_induct)
  case (snoc c ys)
  then show ?case using dec_val_snoc [of "xs @ ys" c] dec_val_snoc [of ys c] by (simp add: algebra_simps)
qed simp

lemma digit_val_less: "is_ascii_digit c \<Longrightarrow> digit_val c < 10"
  unfolding is_ascii_digit_def digit_val_def by linarith

lemma digit_val_0: "is_ascii_digit c \<Longrightarrow> digit_val c = 0 \<longleftrightarrow> c = CHR ''0''"
  using byte_val_inj [of c "CHR ''0''"] by (auto simp: is_ascii_digit_def digit_val_def byte_val_def)

lemma digit_val_inj:
  assumes "is_ascii_digit c" "is_ascii_digit d"
  shows "digit_val c = digit_val d \<longleftrightarrow> c = d"
proof -
  have "byte_val c - 48 = byte_val d - 48 \<longleftrightarrow> byte_val c = byte_val d"
    using assms unfolding is_ascii_digit_def by linarith
  then show ?thesis unfolding digit_val_def by simp
qed

lemma dec_val_less: "list_all is_ascii_digit ds \<Longrightarrow> dec_val ds < 10 ^ length ds"
proof (induction ds rule: rev_induct)
  case (snoc c ds)
  then have "dec_val ds + 1 \<le> 10 ^ length ds" "digit_val c < 10" by (auto simp: digit_val_less)
  then show ?case by (simp add: dec_val_snoc)
qed simp

lemma dec_val_zeros: "\<forall>c\<in>set ds. c = CHR ''0'' \<Longrightarrow> dec_val ds = 0"
  by (induction ds rule: rev_induct) (simp_all add: dec_val_snoc digit_val_def byte_val_def)

lemma dec_val_drop_zeros: "dec_val (dropWhile (\<lambda>c. c = CHR ''0'') ds) = dec_val ds"
proof -
  have "dec_val ds = dec_val (takeWhile (\<lambda>c. c = CHR ''0'') ds @ dropWhile (\<lambda>c. c = CHR ''0'') ds)" by simp
  also have "\<dots> = dec_val (dropWhile (\<lambda>c. c = CHR ''0'') ds)"
    unfolding dec_val_append using dec_val_zeros [of "takeWhile (\<lambda>c. c = CHR ''0'') ds"] by (auto dest: set_takeWhileD)
  finally show ?thesis by simp
qed

lemma dec_val_pos:
  assumes "list_all is_ascii_digit ds" "ds \<noteq> []" "hd ds \<noteq> CHR ''0''"
  shows "10 ^ (length ds - 1) \<le> dec_val ds"
proof -
  obtain c r where ds: "ds = c # r" using assms(2) by (cases ds) auto
  have "1 \<le> digit_val c" using assms digit_val_0 [of c] by (simp add: ds)
  then have "1 * 10 ^ length r \<le> digit_val c * 10 ^ length r" by (rule mult_right_mono) simp
  moreover have "dec_val ds = digit_val c * 10 ^ length r + dec_val r"
    using dec_val_append [of "[c]" r] by (simp add: ds dec_val_def)
  ultimately have "10 ^ length r \<le> dec_val ds" by linarith
  then show ?thesis by (simp add: ds)
qed

lemma dec_val_inj:
  assumes "list_all is_ascii_digit xs" "list_all is_ascii_digit ys" "xs \<noteq> []" "ys \<noteq> []"
    and "hd xs \<noteq> CHR ''0''" "hd ys \<noteq> CHR ''0''" "dec_val xs = dec_val ys"
  shows "xs = ys"
proof -
  have "10 ^ (length xs - 1) < (10 :: nat) ^ length ys" "10 ^ (length ys - 1) < (10 :: nat) ^ length xs"
    using dec_val_pos [of xs] dec_val_less [of ys] dec_val_pos [of ys] dec_val_less [of xs] assms by linarith+
  then have "length xs - 1 < length ys" "length ys - 1 < length xs" by (simp_all add: power_strict_increasing_iff)
  then have len: "length xs = length ys" using assms(3,4) by (cases xs; cases ys) auto
  have "xs = ys" if "length xs = length ys" "list_all is_ascii_digit xs" "list_all is_ascii_digit ys" "dec_val xs = dec_val ys" for xs ys
    using that
  proof (induction xs arbitrary: ys rule: rev_induct)
    case (snoc c xs)
    then obtain d zs where ys: "ys = zs @ [d]" by (cases ys rule: rev_cases) auto
    have "10 * dec_val xs + digit_val c = 10 * dec_val zs + digit_val d" "digit_val c < 10" "digit_val d < 10"
      using snoc.prems by (auto simp: ys dec_val_snoc digit_val_less)
    then have "dec_val xs = dec_val zs \<and> digit_val c = digit_val d" by presburger
    then show ?case using snoc.IH [of zs] snoc.prems by (auto simp: ys digit_val_inj)
  qed simp
  then show ?thesis using len assms by blast
qed

section \<open>Reading a literal\<close>

lemma digits_of_append:
  "list_all is_ascii_digit ds \<Longrightarrow> (r = [] \<or> \<not> is_ascii_digit (hd r)) \<Longrightarrow> digits_of (ds @ r) = (ds, r)"
  by (induction ds) (auto simp: digits_of_def takeWhile_eq_Nil_iff dropWhile_eq_self_iff)

lemma digits_of_digits: "digits_of s = (ds, r) \<Longrightarrow> list_all is_ascii_digit ds \<and> s = ds @ r"
  unfolding digits_of_def by (auto simp: list_all_iff dest: set_takeWhileD)

lemma scan_sign_split: "scan_sign s = (negative, r) \<Longrightarrow> s = (if negative then ''-'' else []) @ r"
  by (auto simp: scan_sign_def split: list.splits if_splits)

lemma scan_int_split: "scan_int s = Some (ip, r) \<Longrightarrow> integer_part ip \<and> s = ip @ r"
  by (auto simp: scan_int_def integer_part_def digits_of_def list_all_iff split: list.splits if_splits dest: set_takeWhileD)

lemma scan_frac_split:
  "scan_frac s = Some (fp, r) \<Longrightarrow> list_all is_ascii_digit fp \<and> s = (if fp = [] then [] else CHR ''.'' # fp) @ r"
  by (auto simp: scan_frac_def digits_of_def list_all_iff split: list.splits if_splits dest: set_takeWhileD)

lemma scan_exp_split:
  assumes "scan_exp s = Some (e, r)"
  shows "\<exists>ep. exponent_text ep e \<and> s = ep @ r \<and> \<bar>e\<bar> < 2 ^ 63"
proof (cases "\<exists>c s'. s = c # s' \<and> (c = CHR ''e'' \<or> c = CHR ''E'')")
  case False
  then show ?thesis using assms no_exponent
    by (intro exI [of _ "[]"]) (auto simp: scan_exp_def split: list.splits if_splits)
next
  case True
  then obtain c s' where s: "s = c # s'" "c \<in> {CHR ''e'', CHR ''E''}" by auto
  obtain neg r1 where sg: "(case s' of d # r' \<Rightarrow> if d = CHR ''+'' then (False, r') else if d = CHR ''-'' then (True, r') else (False, s')
      | [] \<Rightarrow> (False, s')) = (neg, r1)" by fastforce
  then have sign: "\<exists>sg. s' = sg @ r1 \<and> (if neg then sg = ''-'' else sg \<in> {[], ''+''})"
    by (auto split: list.splits if_splits)
  obtain ds r2 where ds: "digits_of r1 = (ds, r2)" by fastforce
  note d = digits_of_digits [OF ds]
  have out: "ds \<noteq> []" "dec_val ds < 2 ^ 63" "e = (if neg then - int (dec_val ds) else int (dec_val ds))" "r = r2"
    using assms s sg ds by (auto simp: scan_exp_def Let_def not_le split: if_splits)
  obtain sgn where sgn: "s' = sgn @ r1" "if neg then sgn = ''-'' else sgn \<in> {[], ''+''}" using sign by blast
  have "exponent_text (c # sgn @ ds) e"
    using positive_exponent [OF s(2) _ out(1), of sgn] negative_exponent [OF s(2) out(1)] d sgn(2) out(3)
    by (cases neg) auto
  moreover have "\<bar>e\<bar> < 2 ^ 63" using out(2,3) by auto
  ultimately show ?thesis using s(1) sgn(1) d out(4) by (intro exI [of _ "c # sgn @ ds"]) auto
qed

section \<open>Reducing\<close>

lemma scaled_zero: "scaled negative 0 e = 0"
  by (simp add: scaled_def)

lemma reduce_decimal_ok:
  assumes "list_all is_ascii_digit ds" "reduce_decimal negative ds e = Some d"
  shows "reduced d \<and> decimal_value d = scaled negative (dec_val ds) e"
proof (cases "dropWhile (\<lambda>c. c = CHR ''0'') ds")
  case Nil
  then have "dec_val ds = 0" using dec_val_zeros [of ds] by simp
  moreover have "d = \<lparr> dec_negative = False, dec_digits = ''0'', dec_exponent = 0 \<rparr>"
    using assms(2) Nil by (simp add: reduce_decimal_def)
  moreover have "dec_val ''0'' = 0" by (simp add: dec_val_def digit_val_def byte_val_def)
  ultimately show ?thesis by (simp add: reduced_def decimal_value_def scaled_zero)
next
  case (Cons c0 r0)
  define tr where "tr = dropWhile (\<lambda>c. c = CHR ''0'') ds"
  obtain zs ms where zs: "zs = takeWhile (\<lambda>c. c = CHR ''0'') (rev tr)" and ms: "ms = rev (dropWhile (\<lambda>c. c = CHR ''0'') (rev tr))"
    by blast
  have tr_eq: "tr = ms @ rev zs" unfolding zs ms by (metis rev_append rev_rev_ident takeWhile_dropWhile_id)
  have zero: "\<forall>c\<in>set zs. c = CHR ''0''" by (auto simp: zs dest: set_takeWhileD)
  have cons: "tr = c0 # r0" using Cons by (simp add: tr_def)
  have dig: "list_all is_ascii_digit tr" using assms(1) by (auto simp: tr_def list_all_iff dest: set_dropWhileD)
  have nz: "c0 \<noteq> CHR ''0''" using hd_dropWhile [of "\<lambda>c. c = CHR ''0''" ds] Cons by simp
  have ne: "ms \<noteq> []"
  proof
    assume "ms = []"
    then have "tr = rev zs" using tr_eq by simp
    then have "c0 \<in> set zs" using cons by (metis list.set_intros(1) set_rev)
    then show False using zero nz by blast
  qed
  have hd: "hd ms = c0" using tr_eq ne cons by (metis hd_append2 list.sel(1))
  have last: "last ms \<noteq> CHR ''0''"
    using hd_dropWhile [of "\<lambda>c. c = CHR ''0''" "rev tr"] ne by (simp add: ms last_rev)
  have d: "d = \<lparr> dec_negative = negative, dec_digits = ms, dec_exponent = e + int (length zs) \<rparr>"
  proof -
    have "reduce_decimal negative ds e =
        (if tr = [] then Some \<lparr> dec_negative = False, dec_digits = ''0'', dec_exponent = 0 \<rparr>
         else if 2 ^ 63 \<le> e + int (length zs) then None
         else Some \<lparr> dec_negative = negative, dec_digits = take (length tr - length zs) tr, dec_exponent = e + int (length zs) \<rparr>)"
      by (simp only: reduce_decimal_def Let_def tr_def zs)
    moreover have "tr \<noteq> []" "take (length tr - length zs) tr = ms" using ne by (simp_all add: tr_eq)
    ultimately show ?thesis using assms(2) by (simp split: if_splits)
  qed
  have "dec_val ds = dec_val ms * 10 ^ length zs + dec_val (rev zs)"
    using dec_val_drop_zeros [of ds] dec_val_append [of ms "rev zs"] by (simp add: tr_eq flip: tr_def)
  moreover have "dec_val (rev zs) = 0" by (rule dec_val_zeros) (use zero in simp)
  ultimately have val: "dec_val ds = dec_val ms * 10 ^ length zs" by simp
  have "reduced d" using dig ne hd nz last by (simp add: reduced_def d tr_eq)
  moreover have "decimal_value d = scaled negative (dec_val ds) e"
    by (simp add: decimal_value_def d scaled_def val power_int_add)
  ultimately show ?thesis by blast
qed

lemma integer_part_digits: "integer_part ip \<Longrightarrow> list_all is_ascii_digit ip"
  by (auto simp: integer_part_def is_ascii_digit_def byte_val_def)

text \<open>What is read is the value of the literal, reduced.\<close>

lemma canonical_decimal_sound:
  assumes "canonical_decimal s = Some d"
  shows "number_literal s (decimal_value d) \<and> reduced d"
proof -
  obtain negative s1 where 1: "scan_sign s = (negative, s1)" by fastforce
  obtain ip s2 where 2: "scan_int s1 = Some (ip, s2)"
    using assms 1 by (cases "scan_int s1") (auto simp: canonical_decimal_def)
  obtain fp s3 where 3: "scan_frac s2 = Some (fp, s3)"
    using assms 1 2 by (cases "scan_frac s2") (auto simp: canonical_decimal_def)
  obtain e s4 where 4: "scan_exp s3 = Some (e, s4)"
    using assms 1 2 3 by (cases "scan_exp s3") (auto simp: canonical_decimal_def)
  have out: "s4 = []" "reduce_decimal negative (ip @ fp) (e - int (length fp)) = Some d"
    using assms 1 2 3 4 by (auto simp: canonical_decimal_def split: if_splits)
  obtain ep where ep: "exponent_text ep e" "s3 = ep @ s4" using scan_exp_split [OF 4] by blast
  note ip = scan_int_split [OF 2] and fp = scan_frac_split [OF 3]
  have "list_all is_ascii_digit (ip @ fp)" using ip fp integer_part_digits by simp
  note r = reduce_decimal_ok [OF this out(2)]
  have "s = literal_text negative ip fp ep"
    using scan_sign_split [OF 1] ip fp ep out(1) by (simp add: literal_text_def)
  then show ?thesis using number_literal.intros [of ip fp ep e negative] ip fp ep(1) r by simp
qed

text \<open>Every literal whose exponent stays in range is read.\<close>

lemma not_digit: "\<not> is_ascii_digit CHR ''.''" "\<not> is_ascii_digit CHR ''e''" "\<not> is_ascii_digit CHR ''E''"
  "\<not> is_ascii_digit CHR ''-''" "\<not> is_ascii_digit CHR ''+''"
  by (simp_all add: is_ascii_digit_def byte_val_def)

lemma exponent_text_hd: "exponent_text ep e \<Longrightarrow> ep = [] \<or> hd ep \<in> {CHR ''e'', CHR ''E''}"
  by (induction rule: exponent_text.induct) auto

lemma scan_int_append:
  assumes "integer_part ip" "r = [] \<or> \<not> is_ascii_digit (hd r)"
  shows "scan_int (ip @ r) = Some (ip, r)"
proof (cases "ip = ''0''")
  case False
  then obtain c cs where ip: "ip = c # cs" "is_ascii_digit c" "c \<noteq> CHR ''0''" "list_all is_ascii_digit ip"
    using assms(1) by (cases ip) (auto simp: integer_part_def)
  then show ?thesis using digits_of_append [OF ip(4) assms(2)] by (simp add: scan_int_def)
qed (simp add: scan_int_def)

lemma scan_exp_text:
  assumes "exponent_text ep e" "\<bar>e\<bar> < 2 ^ 63"
  shows "scan_exp ep = Some (e, [])"
  using assms
proof (induction rule: exponent_text.induct)
  case (positive_exponent c sign ds)
  obtain d ds' where ds: "ds = d # ds'" "is_ascii_digit d" using positive_exponent(3,4) by (cases ds) auto
  have nd: "d \<noteq> CHR ''+''" "d \<noteq> CHR ''-''" using ds(2) not_digit by auto
  have "dec_val ds < 2 ^ 63" using positive_exponent(5) by simp
  then show ?case using positive_exponent(1-4) digits_of_append [of ds "[]"] nd ds(1)
    by (auto simp: scan_exp_def Let_def)
next
  case (negative_exponent c ds)
  have "dec_val ds < 2 ^ 63" using negative_exponent(4) by simp
  then show ?case using negative_exponent(1-3) digits_of_append [of ds "[]"] by (auto simp: scan_exp_def Let_def)
qed (simp add: scan_exp_def)

lemma canonical_decimal_complete:
  assumes "integer_part ip" "list_all is_ascii_digit fp" "exponent_text ep e" "\<bar>e\<bar> < 2 ^ 63"
    and "- (2 ^ 63) \<le> e - int (length fp)" "e + int (length ip) < 2 ^ 63"
  shows "\<exists>d. canonical_decimal (literal_text negative ip fp ep) = Some d"
proof -
  let ?fr = "if fp = [] then [] else CHR ''.'' # fp"
  have hd_ep: "ep = [] \<or> \<not> is_ascii_digit (hd ep) \<and> hd ep \<noteq> CHR ''.''"
    using exponent_text_hd [OF assms(3)] not_digit by auto
  obtain c cs where ip: "ip = c # cs" "is_ascii_digit c" using assms(1) by (cases ip) (auto simp: integer_part_def not_digit is_ascii_digit_def byte_val_def)
  then have "scan_sign (literal_text negative ip fp ep) = (negative, ip @ ?fr @ ep)"
    using not_digit(4) by (auto simp: literal_text_def scan_sign_def)
  moreover have "scan_int (ip @ ?fr @ ep) = Some (ip, ?fr @ ep)"
    by (rule scan_int_append [OF assms(1)]) (use hd_ep not_digit(1) in auto)
  moreover have "scan_frac (?fr @ ep) = Some (fp, ep)"
    using digits_of_append [OF assms(2), of ep] hd_ep by (cases ep) (auto simp: scan_frac_def)
  moreover have "scan_exp ep = Some (e, [])" by (rule scan_exp_text [OF assms(3,4)])
  moreover have "\<exists>d. reduce_decimal negative (ip @ fp) (e - int (length fp)) = Some d"
  proof -
    let ?zs = "takeWhile (\<lambda>c. c = CHR ''0'') (rev (dropWhile (\<lambda>c. c = CHR ''0'') (ip @ fp)))"
    have "length ?zs \<le> length ip + length fp"
      by (rule order_trans [OF length_takeWhile_le]) (metis length_append length_dropWhile_le length_rev)
    then have "e - int (length fp) + int (length ?zs) < 2 ^ 63" using assms(6) by linarith
    then show ?thesis unfolding reduce_decimal_def Let_def not_le [symmetric] by (simp del: dropWhile_append)
  qed
  ultimately show ?thesis using assms(5) by (auto simp: canonical_decimal_def not_less)
qed

section \<open>Uniqueness\<close>

lemma last_digit_divides:
  assumes "ds \<noteq> []" "list_all is_ascii_digit ds" "10 dvd dec_val ds"
  shows "last ds = CHR ''0''"
proof -
  obtain xs c where ds: "ds = xs @ [c]" using assms(1) by (cases ds rule: rev_cases) auto
  have "digit_val c < 10" using assms(2) by (simp add: ds digit_val_less)
  moreover have "10 dvd digit_val c" using assms(3) by (simp add: ds dec_val_snoc dvd_add_right_iff)
  ultimately have "digit_val c = 0" by (auto dest: dvd_imp_le)
  then show ?thesis using assms(2) digit_val_0 by (simp add: ds)
qed

lemma reduced_value_zero: "reduced d \<Longrightarrow> decimal_value d = 0 \<longleftrightarrow> d = \<lparr> dec_negative = False, dec_digits = ''0'', dec_exponent = 0 \<rparr>"
proof -
  assume r: "reduced d"
  have "decimal_value d \<noteq> 0" if "d \<noteq> \<lparr> dec_negative = False, dec_digits = ''0'', dec_exponent = 0 \<rparr>"
  proof -
    have "10 ^ (length (dec_digits d) - 1) \<le> dec_val (dec_digits d)"
      using r that by (intro dec_val_pos) (auto simp: reduced_def)
    then have "dec_val (dec_digits d) \<noteq> 0" by (metis le_zero_eq power_not_zero zero_neq_numeral)
    then show ?thesis by (simp add: decimal_value_def scaled_def)
  qed
  moreover have "decimal_value \<lparr> dec_negative = False, dec_digits = ''0'', dec_exponent = 0 \<rparr> = 0"
    by (simp add: decimal_value_def scaled_def dec_val_def digit_val_def byte_val_def)
  ultimately show ?thesis by blast
qed

lemma same_scaled_exponent:
  assumes "of_nat n * 10 powi e = (of_nat m * 10 powi f :: rat)" "\<not> 10 dvd m" "\<not> 10 dvd n" 
  shows "e = f \<and> n = m"
proof -
  have le: "n' = m' * 10 ^ nat (f' - e')" if "of_nat n' * 10 powi e' = (of_nat m' * 10 powi f' :: rat)" "e' \<le> f'" for n' m' e' f'
  proof -
    have "f' = e' + int (nat (f' - e'))" using that(2) by simp
    then have "10 powi f' = (10 powi e' * 10 ^ nat (f' - e') :: rat)"
      by (metis power_int_add power_int_of_nat zero_neq_numeral)
    then have "of_nat n' = (of_nat m' * 10 ^ nat (f' - e') :: rat)" using that(1) by simp
    then have "of_nat n' = (of_nat (m' * 10 ^ nat (f' - e')) :: rat)" by simp
    then show ?thesis by (simp only: of_nat_eq_iff)
  qed
  consider "e < f" | "f < e" | "e = f" by linarith
  then show ?thesis
  proof cases
    case 1
    then have "n = m * 10 ^ nat (f - e)" using le [OF assms(1)] by simp
    moreover have "nat (f - e) = Suc (nat (f - e - 1))" using 1 by simp
    ultimately have "10 dvd n" by simp
    then show ?thesis using assms(3) by blast
  next
    case 2
    then have "m = n * 10 ^ nat (e - f)" using le [OF assms(1) [symmetric]] by simp
    moreover have "nat (e - f) = Suc (nat (e - f - 1))" using 2 by simp
    ultimately have "10 dvd m" by simp
    then show ?thesis using assms(2) by blast
  next
    case 3
    then show ?thesis using le [OF assms(1)] by simp
  qed
qed

lemma reduced_unique:
  assumes "reduced d" "reduced d'" "decimal_value d = decimal_value d'"
  shows "d = d'"
proof (cases "decimal_value d = 0")
  case True
  then have "decimal_value d' = 0" using assms(3) by simp
  then show ?thesis using True reduced_value_zero [OF assms(1)] reduced_value_zero [OF assms(2)] by simp
next
  case False
  then have nz: "decimal_value d \<noteq> 0" "decimal_value d' \<noteq> 0" using assms(3) by simp_all
  then have r: "dec_digits x \<noteq> []" "list_all is_ascii_digit (dec_digits x)" "hd (dec_digits x) \<noteq> CHR ''0''"
      "last (dec_digits x) \<noteq> CHR ''0''" if "x = d \<or> x = d'" for x
  proof -
    have x: "reduced x" "decimal_value x \<noteq> 0" using that assms(1,2) nz by auto
    then have "x \<noteq> \<lparr> dec_negative = False, dec_digits = ''0'', dec_exponent = 0 \<rparr>"
      using reduced_value_zero [OF x(1)] by blast
    then show "dec_digits x \<noteq> []" "list_all is_ascii_digit (dec_digits x)" "hd (dec_digits x) \<noteq> CHR ''0''"
      "last (dec_digits x) \<noteq> CHR ''0''" using x(1) by (simp_all add: reduced_def)
  qed
  have nd: "\<not> 10 dvd dec_val (dec_digits x)" if "x = d \<or> x = d'" for x
    using last_digit_divides [OF r(1,2) [OF that]] r(4) [OF that] by blast
  have pos: "0 < (of_nat (dec_val (dec_digits x)) * 10 powi dec_exponent x :: rat)" if "x = d \<or> x = d'" for x
    using nd [OF that] by (cases "dec_val (dec_digits x)") auto
  have sgn: "dec_negative d = dec_negative d'"
    using assms(3) pos [of d] pos [of d'] by (auto simp: decimal_value_def scaled_def split: if_splits)
  then have "of_nat (dec_val (dec_digits d)) * 10 powi dec_exponent d =
      (of_nat (dec_val (dec_digits d')) * 10 powi dec_exponent d' :: rat)"
    using assms(3) by (auto simp: decimal_value_def scaled_def split: if_splits)
  from same_scaled_exponent [OF this nd nd] have "dec_exponent d = dec_exponent d'"
    "dec_val (dec_digits d) = dec_val (dec_digits d')" by simp_all
  moreover have "dec_digits d = dec_digits d'"
    using dec_val_inj [OF r(2) r(2) r(1) r(1) r(3) r(3)] calculation(2) by blast
  ultimately show ?thesis using sgn by simp
qed

end
