(* ===== verification/Semantic_Facts.thy ===== *)
theory Semantic_Facts
  imports Semantic_Decimal Redis_Service
begin

text \<open>
  The wire format can be read back. An encoder is self-delimiting when its output can be told from what
  follows (locale \<open>self_delimiting\<close>); lists with a count and optional parts with a bitmap inherit this.
\<close>

section \<open>Fixed width and length prefixes\<close>

text \<open>Lengths are written on 32 bits.\<close>

definition short :: "'a list \<Rightarrow> bool" where
  "short xs \<longleftrightarrow> length xs < 2 ^ 32"

lemma length_to_be_bytes [simp]: "length (to_be_bytes n i) = n"
  by (induction n arbitrary: i) auto

lemma to_be_bytes_inj: "to_be_bytes n i = to_be_bytes n j \<longleftrightarrow> i mod 256 ^ n = j mod 256 ^ n"
proof (induction n arbitrary: i j)
  case (Suc n)
  have m: "k mod 256 ^ Suc n = 256 * (k div 256 mod 256 ^ n) + k mod 256" for k :: int
    using mod_mult2_eq' [of k 256 "256 ^ n"] by simp
  have "char_of (nat (i mod 256)) = (char_of (nat (j mod 256)) :: char) \<longleftrightarrow> i mod 256 = j mod 256"
  proof -
    have "0 \<le> k mod 256 \<and> k mod 256 < 256" for k :: int by simp
    then have "of_char (char_of (nat (k mod 256)) :: char) = nat (k mod 256)" for k :: int by simp
    then show ?thesis by (metis int_nat_eq pos_mod_sign zero_less_numeral)
  qed
  then have "to_be_bytes (Suc n) i = to_be_bytes (Suc n) j \<longleftrightarrow>
      i div 256 mod 256 ^ n = j div 256 mod 256 ^ n \<and> i mod 256 = j mod 256" using Suc by simp
  also have "\<dots> \<longleftrightarrow> i mod 256 ^ Suc n = j mod 256 ^ Suc n"
  proof -
    have "0 \<le> k mod 256 \<and> k mod 256 < 256" for k :: int by simp
    then show ?thesis unfolding m by (smt (verit))
  qed
  finally show ?case .
qed simp

lemma push_u32_inj: "a < 2 ^ 32 \<Longrightarrow> b < 2 ^ 32 \<Longrightarrow> push_u32 a = push_u32 b \<longleftrightarrow> a = b"
  by (simp add: push_u32_def to_be_bytes_inj)

lemma length_push [simp]: "length (push_u32 a) = 4" "length (push_i64 i) = 8"
  by (simp_all add: push_u32_def push_i64_def)

lemma push_u32_same: "push_u32 a @ r = push_u32 b @ s \<Longrightarrow> a < 2 ^ 32 \<Longrightarrow> b < 2 ^ 32 \<Longrightarrow> a = b \<and> r = s"
  by (simp add: push_u32_inj)

lemma push_i64_same: "push_i64 a @ r = push_i64 b @ s \<Longrightarrow> int64 a \<Longrightarrow> int64 b \<Longrightarrow> a = b \<and> r = s"
proof -
  assume *: "push_i64 a @ r = push_i64 b @ s" "int64 a" "int64 b"
  then have "a mod 2 ^ 64 = b mod 2 ^ 64" by (simp add: push_i64_def to_be_bytes_inj)
  moreover have "- (2 ^ 63) \<le> a" "a < 2 ^ 63" "- (2 ^ 63) \<le> b" "b < 2 ^ 63" using *(2,3) by (auto simp: int64_def)
  ultimately have "2 ^ 64 dvd a - b" "\<bar>a - b\<bar> < 2 ^ 64" by (auto simp: mod_eq_dvd_iff)
  then have "a = b" using dvd_imp_le_int [of "a - b" "2 ^ 64"] by linarith
  then show ?thesis using * by simp
qed

lemma push_lp_same:
  assumes "push_lp_bytes a @ r = push_lp_bytes b @ s" "short a" "short b"
  shows "a = b \<and> r = s"
proof -
  have "push_u32 (length a) @ (a @ r) = push_u32 (length b) @ (b @ s)" using assms(1) by (simp add: push_lp_bytes_def)
  from push_u32_same [OF this] show ?thesis using assms(2,3) by (auto simp: short_def)
qed

section \<open>Bitmaps\<close>

text \<open>The optional parts of a record: part \<open>i\<close> has bit \<open>i\<close>.\<close>

definition parts_of :: "bytes option list \<Rightarrow> (8 word \<times> bytes) list" where
  "parts_of xs = map (\<lambda>(i, x). part (2 ^ i) x) (List.enumerate 0 xs)"

definition opt_bytes :: "bytes option \<Rightarrow> bytes" where
  "opt_bytes x = (case x of None \<Rightarrow> [] | Some bs \<Rightarrow> bs)"

lemma parts_of_3: "[part 1 a, part 2 b, part 4 c] = parts_of [a, b, c]"
  by (simp add: parts_of_def)

lemma parts_of_6: "[part 1 a, part 2 b, part 4 c, part 8 d, part 16 e, part 32 f] = parts_of [a, b, c, d, e, f]"
  by (simp add: parts_of_def eval_nat_numeral)

definition bitmap_of :: "bytes option list \<Rightarrow> 8 word" where
  "bitmap_of xs = foldl (\<lambda>acc p. acc OR fst p) 0 (parts_of xs)"

lemma bit_foldl_or: "bit (foldl (\<lambda>acc p. acc OR fst p) a ps) n \<longleftrightarrow> bit a n \<or> (\<exists>p\<in>set ps. bit (fst p :: 8 word) n)"
  by (induction ps arbitrary: a) (auto simp: bit_or_iff)

lemma bit_bitmap:
  assumes "n < 8" "length xs \<le> 8"
  shows "bit (bitmap_of xs) n \<longleftrightarrow> n < length xs \<and> xs ! n \<noteq> None"
proof -
  have "bit (fst (part (2 ^ i) x) :: 8 word) n \<longleftrightarrow> i = n \<and> x \<noteq> None" for i x
    using assms(1) by (cases x) (auto simp: part_def bit_exp_iff)
  then have "bit (bitmap_of xs) n \<longleftrightarrow> (\<exists>p\<in>set (List.enumerate 0 xs). fst p = n \<and> snd p \<noteq> None)"
    by (simp add: bitmap_of_def bit_foldl_or parts_of_def split_beta)
  also have "\<dots> \<longleftrightarrow> n < length xs \<and> xs ! n \<noteq> None"
    by (auto simp: in_set_enumerate_eq intro!: bexI [of _ "(n, xs ! n)"])
  finally show ?thesis .
qed

lemma bitmap_zero:
  assumes "length xs \<le> 8"
  shows "bitmap_of xs = 0 \<longleftrightarrow> (\<forall>x\<in>set xs. x = None)"
proof -
  have "bitmap_of xs = 0 \<longleftrightarrow> (\<forall>n<8. \<not> bit (bitmap_of xs) n)"
  proof
    assume "\<forall>n<8. \<not> bit (bitmap_of xs) n"
    then show "bitmap_of xs = 0" by (intro bit_word_eqI) simp
  qed simp
  also have "\<dots> \<longleftrightarrow> (\<forall>n<length xs. xs ! n = None)" using assms by (auto simp: bit_bitmap)
  also have "\<dots> \<longleftrightarrow> (\<forall>x\<in>set xs. x = None)" by (simp add: all_set_conv_all_nth)
  finally show ?thesis .
qed

lemma concat_parts: "concat (map snd (parts_of xs)) = concat (map opt_bytes xs)"
  unfolding parts_of_def
proof (induction xs rule: rev_induct)
  case (snoc x xs)
  then show ?case by (simp add: enumerate_append_eq part_def opt_bytes_def split: option.split)
qed simp

lemma with_bitmap_parts:
  assumes "length xs \<le> 8"
  shows "with_bitmap (parts_of xs) =
    (if \<forall>x\<in>set xs. x = None then None else Some (char_of (unat (bitmap_of xs)) # concat (map opt_bytes xs)))"
  using bitmap_zero [OF assms] by (simp add: with_bitmap_def concat_parts flip: bitmap_of_def)

lemma with_bitmap_same:
  assumes "with_bitmap (parts_of xs) = Some bs" "with_bitmap (parts_of ys) = Some cs"
    and "bs @ r = cs @ s" "length xs = length ys" "length xs \<le> 8"
  shows "map (\<lambda>x. x = None) xs = map (\<lambda>x. x = None) ys \<and> concat (map opt_bytes xs) @ r = concat (map opt_bytes ys) @ s"
proof -
  have bs: "bs = char_of (unat (bitmap_of xs)) # concat (map opt_bytes xs)"
    "cs = char_of (unat (bitmap_of ys)) # concat (map opt_bytes ys)"
    using assms by (auto simp: with_bitmap_parts split: if_splits)
  then have "char_of (unat (bitmap_of xs)) = (char_of (unat (bitmap_of ys)) :: char)" using assms(3) by simp
  moreover have "of_char (char_of (unat w) :: char) = unat w" for w :: "8 word"
  proof -
    have "unat w < 2 ^ 8" using unsigned_less [of w, where ?'a = nat] by simp
    then show ?thesis by simp
  qed
  ultimately have "bitmap_of xs = bitmap_of ys" by (metis word_unat_eq_iff)
  then have "xs ! n = None \<longleftrightarrow> ys ! n = None" if "n < length xs" for n
    using that assms(4,5) bit_bitmap [of n xs] bit_bitmap [of n ys] by auto
  then have "map (\<lambda>x. x = None) xs = map (\<lambda>x. x = None) ys" using assms(4) by (simp add: list_eq_iff_nth_eq)
  then show ?thesis using bs assms(3) by simp
qed

section \<open>Self-delimiting encoders\<close>

locale self_delimiting =
  fixes fits :: "'a \<Rightarrow> bool"
    and wire :: "'a \<Rightarrow> bytes"
  assumes same: "fits x \<Longrightarrow> fits y \<Longrightarrow> wire x @ r = wire y @ s \<Longrightarrow> x = y \<and> r = s"
begin

lemma lists_same:
  assumes "length xs = length ys" "\<forall>x\<in>set xs. fits x" "\<forall>y\<in>set ys. fits y"
    and "concat (map wire xs) @ r = concat (map wire ys) @ s"
  shows "xs = ys \<and> r = s"
  using assms
proof (induction xs arbitrary: ys)
  case (Cons x xs)
  then obtain y ys' where ys: "ys = y # ys'" by (cases ys) auto
  have "wire x @ (concat (map wire xs) @ r) = wire y @ (concat (map wire ys') @ s)"
    using Cons.prems(4) by (simp add: ys)
  from same [OF _ _ this] show ?case using Cons.IH [of ys'] Cons.prems by (auto simp: ys)
qed simp

lemma counted_same:
  assumes "push_u32 (length xs) @ concat (map wire xs) @ r = push_u32 (length ys) @ concat (map wire ys) @ s"
    and "short xs" "short ys" "\<forall>x\<in>set xs. fits x" "\<forall>y\<in>set ys. fits y"
  shows "xs = ys \<and> r = s"
proof -
  have l: "length xs = length ys" "concat (map wire xs) @ r = concat (map wire ys) @ s"
    using push_u32_same [OF assms(1)] assms(2,3) by (auto simp: short_def)
  show ?thesis by (rule lists_same [OF l(1) assms(4,5) l(2)])
qed

lemma optional_same:
  assumes "opt_bytes (map_option wire x) @ r = opt_bytes (map_option wire y) @ s" "x = None \<longleftrightarrow> y = None"
    and "\<forall>v. x = Some v \<longrightarrow> fits v" "\<forall>v. y = Some v \<longrightarrow> fits v"
  shows "x = y \<and> r = s"
proof (cases x)
  case None
  then show ?thesis using assms(1,2) by (cases y) (simp_all add: opt_bytes_def)
next
  case (Some a)
  then obtain b where b: "y = Some b" using assms(2) by (cases y) auto
  with Some assms(1) have "wire a @ r = wire b @ s" by (simp add: opt_bytes_def)
  from same [OF _ _ this] show ?thesis using assms(3,4) Some b by simp
qed

end

interpretation text_wire: self_delimiting short push_lp_bytes
  by unfold_locales (rule push_lp_same)

interpretation integer_wire: self_delimiting int64 push_i64
  by unfold_locales (rule push_i64_same)

end
