(* ===== verification/Semantic_Meaning.thy ===== *)
theory Semantic_Meaning
  imports Semantic_Facts
begin

text \<open>
  What metadata means, as sets: the event type, and for each annotated path its attributes, with numbers by
  value and enum mappings in any order. Two metadata have the same canonical bytes exactly when they mean the
  same.
\<close>

section \<open>Meanings\<close>

datatype value_meaning = NullValue | BoolValue bool | NumberValue "rat option" | TextValue bytes

definition value_meaning :: "enum_value \<Rightarrow> value_meaning" where
  "value_meaning v =
     (case v of
        EnumNull \<Rightarrow> NullValue
      | EnumBool b \<Rightarrow> BoolValue b
      | EnumNumber t \<Rightarrow> NumberValue (map_option decimal_value (canonical_decimal t))
      | EnumString s \<Rightarrow> TextValue s)"

definition mapping_meaning :: "enum_mapping \<Rightarrow> value_meaning \<times> meaning_code" where
  "mapping_meaning m = (value_meaning (mapped_value m), mapped_meaning m)"

definition mappings :: "field_semantics \<Rightarrow> enum_mapping list" where
  "mappings s = (case enum_semantics s of Some ms \<Rightarrow> ms | None \<Rightarrow> [])"

definition temporal_meaning :: "temporal option \<Rightarrow> temporal option" where
  "temporal_meaning t =
     (case t of
        Some x \<Rightarrow> if temporal_kind x = None \<and> epoch x = None \<and> resolution x = None then None else Some x
      | None \<Rightarrow> None)"

record field_meaning =
  fm_field_id :: "bytes option"
  fm_namespace :: "bytes option"
  fm_unit :: "unit_code option"
  fm_scale :: "int option"
  fm_temporal :: "temporal option"
  fm_values :: "(value_meaning \<times> meaning_code) set"

definition field_meaning :: "field_semantics \<Rightarrow> field_meaning" where
  "field_meaning s =
     \<lparr> fm_field_id = canonical_field_id s, fm_namespace = identifier_namespace s, fm_unit = field_unit s,
       fm_scale = numeric_scale s, fm_temporal = temporal_meaning (field_temporal s),
       fm_values = mapping_meaning ` set (mappings s) \<rparr>"

definition no_meaning :: field_meaning where
  "no_meaning = \<lparr> fm_field_id = None, fm_namespace = None, fm_unit = None, fm_scale = None, fm_temporal = None, fm_values = {} \<rparr>"

definition path_meaning :: "(bytes \<Rightarrow> bytes) \<Rightarrow> path_segment list \<Rightarrow> path_segment list" where
  "path_meaning nfc p = map (\<lambda>s. case s of Key k \<Rightarrow> Key (nfc k) | Wildcard \<Rightarrow> Wildcard) p"

definition metadata_meaning ::
  "(bytes \<Rightarrow> bytes) \<Rightarrow> semantic_metadata \<Rightarrow> bytes option \<times> (path_segment list \<times> field_meaning) set" where
  "metadata_meaning nfc m =
     (event_type m,
      {(path_meaning nfc (path f), field_meaning (semantics f)) | f.
         f \<in> set (field_entries m) \<and> field_meaning (semantics f) \<noteq> no_meaning})"

section \<open>Sizes\<close>

text \<open>What fits the widths of the wire format.\<close>

definition mapping_sized :: "enum_mapping \<Rightarrow> bool" where
  "mapping_sized m \<longleftrightarrow>
     (case mapped_value m of EnumNumber t \<Rightarrow> short t | EnumString s \<Rightarrow> short s | _ \<Rightarrow> True) \<and>
     short (vocabulary (mapped_meaning m)) \<and> short (meaning (mapped_meaning m))"

definition semantics_sized :: "field_semantics \<Rightarrow> bool" where
  "semantics_sized s \<longleftrightarrow>
     (\<forall>x. canonical_field_id s = Some x \<longrightarrow> short x) \<and> (\<forall>x. identifier_namespace s = Some x \<longrightarrow> short x) \<and>
     (\<forall>u. field_unit s = Some u \<longrightarrow> short (code u)) \<and> (\<forall>i. numeric_scale s = Some i \<longrightarrow> int64 i) \<and>
     (\<forall>t c. field_temporal s = Some t \<longrightarrow> epoch t = Some (RegisteredEpoch c) \<longrightarrow> short c) \<and>
     short (mappings s) \<and> (\<forall>m\<in>set (mappings s). mapping_sized m)"

definition path_sized :: "(bytes \<Rightarrow> bytes) \<Rightarrow> path_segment list \<Rightarrow> bool" where
  "path_sized nfc p \<longleftrightarrow> short p \<and> (\<forall>k. Key k \<in> set p \<longrightarrow> short (nfc k))"

definition metadata_sized :: "(bytes \<Rightarrow> bytes) \<Rightarrow> semantic_metadata \<Rightarrow> bool" where
  "metadata_sized nfc m \<longleftrightarrow>
     (\<forall>e. event_type m = Some e \<longrightarrow> short e) \<and> short (field_entries m) \<and>
     (\<forall>f\<in>set (field_entries m). path_sized nfc (path f) \<and> semantics_sized (semantics f))"

section \<open>Values\<close>

lemma reduce_decimal_size:
  assumes "reduce_decimal negative ds e = Some d" "- (2 ^ 63) \<le> e"
  shows "int64 (dec_exponent d) \<and> length (dec_digits d) \<le> max 1 (length ds)"
proof -
  obtain tr where tr: "tr = dropWhile (\<lambda>c. c = CHR ''0'') ds" "length tr \<le> length ds" using length_dropWhile_le by blast
  have "reduce_decimal negative ds e =
      (if tr = [] then Some \<lparr> dec_negative = False, dec_digits = ''0'', dec_exponent = 0 \<rparr>
       else let zs = takeWhile (\<lambda>c. c = CHR ''0'') (rev tr)
            in if 2 ^ 63 \<le> e + int (length zs) then None
               else Some \<lparr> dec_negative = negative, dec_digits = take (length tr - length zs) tr, dec_exponent = e + int (length zs) \<rparr>)"
    by (simp only: reduce_decimal_def Let_def tr(1))
  then show ?thesis using assms tr(2) by (auto simp: Let_def int64_def not_le split: if_splits)
qed

lemma canonical_decimal_size:
  assumes "canonical_decimal s = Some d"
  shows "int64 (dec_exponent d) \<and> length (dec_digits d) \<le> max 1 (length s)"
proof -
  obtain negative s1 where 1: "scan_sign s = (negative, s1)" by fastforce
  obtain ip s2 where 2: "scan_int s1 = Some (ip, s2)"
    using assms 1 by (cases "scan_int s1") (auto simp: canonical_decimal_def)
  obtain fp s3 where 3: "scan_frac s2 = Some (fp, s3)"
    using assms 1 2 by (cases "scan_frac s2") (auto simp: canonical_decimal_def)
  obtain e s4 where 4: "scan_exp s3 = Some (e, s4)"
    using assms 1 2 3 by (cases "scan_exp s3") (auto simp: canonical_decimal_def)
  have "reduce_decimal negative (ip @ fp) (e - int (length fp)) = Some d" "- (2 ^ 63) \<le> e - int (length fp)"
    using assms 1 2 3 4 by (auto simp: canonical_decimal_def split: if_splits)
  note r = reduce_decimal_size [OF this]
  have "length ip + length fp \<le> length s"
    using scan_sign_split [OF 1] scan_int_split [OF 2] scan_frac_split [OF 3] by (auto split: if_splits)
  then have "max 1 (length (ip @ fp)) \<le> max 1 (length s)" by simp
  then show ?thesis using r by linarith
qed

lemma bool_byte_inj [simp]: "bool_byte a = bool_byte b \<longleftrightarrow> a = b"
  by (simp add: bool_byte_def)

lemmas value_tags = tag_kv_string_def tag_kv_number_def tag_kv_bool_def tag_kv_null_def

lemma typed_value_same:
  assumes "typed_value_bytes i (mapped_value m) = Inr a" "typed_value_bytes j (mapped_value n) = Inr b"
    and "mapping_sized m" "mapping_sized n" "a @ r = b @ s"
  shows "value_meaning (mapped_value m) = value_meaning (mapped_value n) \<and> a = b"
proof (cases "mapped_value m"; cases "mapped_value n")
  fix t u assume v: "mapped_value m = EnumNumber t" "mapped_value n = EnumNumber u"
  then obtain d d' where d: "canonical_decimal t = Some d" "canonical_decimal u = Some d'"
    using assms(1,2) by (auto simp: typed_value_bytes_def split: option.splits)
  have sz: "short (dec_digits d)" "short (dec_digits d')" "int64 (dec_exponent d)" "int64 (dec_exponent d')"
    using canonical_decimal_size [OF d(1)] canonical_decimal_size [OF d(2)] assms(3,4) v
    by (auto simp: mapping_sized_def short_def)
  have eq: "dec_negative d = dec_negative d'"
    "push_i64 (dec_exponent d) @ (push_lp_bytes (dec_digits d) @ r) = push_i64 (dec_exponent d') @ (push_lp_bytes (dec_digits d') @ s)"
    using assms(1,2,5) v d by (auto simp: typed_value_bytes_def)
  from push_i64_same [OF eq(2) sz(3,4)] have e: "dec_exponent d = dec_exponent d'"
    "push_lp_bytes (dec_digits d) @ r = push_lp_bytes (dec_digits d') @ s" by auto
  from push_lp_same [OF e(2) sz(1,2)] have "d = d'" using eq(1) e(1) by simp
  then show ?thesis using assms(1,2) v d by (auto simp: value_meaning_def typed_value_bytes_def)
next
  fix t u assume v: "mapped_value m = EnumString t" "mapped_value n = EnumString u"
  then have "push_lp_bytes t @ r = push_lp_bytes u @ s" using assms(1,2,5) by (auto simp: typed_value_bytes_def)
  from push_lp_same [OF this] show ?thesis
    using assms v by (auto simp: value_meaning_def typed_value_bytes_def mapping_sized_def short_def)
qed (use assms(1,2,5) in \<open>auto simp: typed_value_bytes_def value_meaning_def value_tags split: option.splits\<close>)

lemma typed_value_by_meaning:
  assumes "typed_value_bytes i v = Inr a" "typed_value_bytes j w = Inr b" "value_meaning v = value_meaning w"
  shows "a = b"
proof (cases v; cases w)
  fix t u assume v: "v = EnumNumber t" "w = EnumNumber u"
  then obtain d d' where d: "canonical_decimal t = Some d" "canonical_decimal u = Some d'"
    using assms(1,2) by (auto simp: typed_value_bytes_def split: option.splits)
  have "decimal_value d = decimal_value d'" using assms(3) v d by (simp add: value_meaning_def)
  then have "d = d'" using reduced_unique canonical_decimal_sound [OF d(1)] canonical_decimal_sound [OF d(2)] by blast
  then show ?thesis using assms(1,2) v d by (simp add: typed_value_bytes_def)
qed (use assms in \<open>auto simp: typed_value_bytes_def value_meaning_def\<close>)

section \<open>Paths\<close>

lemma segment_same:
  assumes "encode_segment nfc i (k, x) = Inr a" "encode_segment nfc j (l, y) = Inr b" "a @ r = b @ s"
    and "\<And>t. x = Key t \<Longrightarrow> short (nfc t)" "\<And>t. y = Key t \<Longrightarrow> short (nfc t)"
  shows "path_meaning nfc [x] = path_meaning nfc [y] \<and> a = b \<and> r = s"
proof (cases x; cases y)
  fix t u assume v: "x = Key t" "y = Key u"
  then have "push_lp_bytes (nfc t) @ r = push_lp_bytes (nfc u) @ s" "a = tag_path_key # push_lp_bytes (nfc t)"
    "b = tag_path_key # push_lp_bytes (nfc u)"
    using assms(1,2,3) by (auto simp: encode_segment_def split: if_splits)
  from push_lp_same [OF this(1)] this(2,3) show ?thesis using assms(4,5) v by (auto simp: path_meaning_def short_def)
qed (use assms(1,2,3) in \<open>auto simp: encode_segment_def path_meaning_def tag_path_key_def tag_path_wildcard_def split: if_splits\<close>)

lemma segments_same:
  assumes "collect_results (encode_segment nfc i) (List.enumerate k p) = Inr as"
    and "collect_results (encode_segment nfc j) (List.enumerate l q) = Inr bs"
    and "length p = length q" "concat as @ r = concat bs @ s"
    and "\<And>t. Key t \<in> set p \<Longrightarrow> short (nfc t)" "\<And>t. Key t \<in> set q \<Longrightarrow> short (nfc t)"
  shows "path_meaning nfc p = path_meaning nfc q \<and> concat as = concat bs \<and> r = s"
  using assms
proof (induction p arbitrary: q as bs k l)
  case (Cons x p)
  then obtain y q' where q: "q = y # q'" by (cases q) auto
  obtain a as' b bs' where a: "encode_segment nfc i (k, x) = Inr a" "as = a # as'"
      "collect_results (encode_segment nfc i) (List.enumerate (Suc k) p) = Inr as'"
    and b: "encode_segment nfc j (l, y) = Inr b" "bs = b # bs'"
      "collect_results (encode_segment nfc j) (List.enumerate (Suc l) q') = Inr bs'"
    using Cons.prems(1,2) by (auto simp: q result_bind_Inr_iff)
  have "a @ (concat as' @ r) = b @ (concat bs' @ s)" using Cons.prems(4) a(2) b(2) by simp
  from segment_same [OF a(1) b(1) this] have 1: "path_meaning nfc [x] = path_meaning nfc [y]" "a = b"
    "concat as' @ r = concat bs' @ s" using Cons.prems(5,6) by (auto simp: q)
  from Cons.IH [OF a(3) b(3) _ this(3)] have "path_meaning nfc p = path_meaning nfc q' \<and> concat as' = concat bs' \<and> r = s"
    using Cons.prems(3,5,6) by (auto simp: q)
  then show ?case using 1 a(2) b(2) by (auto simp: path_meaning_def q)
qed (auto simp: path_meaning_def)

lemma path_same:
  assumes "encode_path nfc i p = Inr a" "encode_path nfc j q = Inr b" "path_sized nfc p" "path_sized nfc q" "a @ r = b @ s"
  shows "path_meaning nfc p = path_meaning nfc q \<and> a = b \<and> r = s"
proof -
  obtain as bs where as: "collect_results (encode_segment nfc i) (List.enumerate 0 p) = Inr as" "a = push_u32 (length p) @ concat as"
    and bs: "collect_results (encode_segment nfc j) (List.enumerate 0 q) = Inr bs" "b = push_u32 (length q) @ concat bs"
    using assms(1,2) by (auto simp: encode_path_def result_bind_Inr_iff)
  have "push_u32 (length p) @ (concat as @ r) = push_u32 (length q) @ (concat bs @ s)" using assms(5) as(2) bs(2) by simp
  from push_u32_same [OF this] have l: "length p = length q" "concat as @ r = concat bs @ s"
    using assms(3,4) by (auto simp: path_sized_def short_def)
  from segments_same [OF as(1) bs(1) l] show ?thesis
    using assms(3,4) as(2) bs(2) l(1) by (auto simp: path_sized_def)
qed

lemma path_by_meaning:
  assumes "encode_path nfc i p = Inr a" "encode_path nfc j q = Inr b" "path_meaning nfc p = path_meaning nfc q"
  shows "a = b"
proof -
  have seg: "as = bs" if "collect_results (encode_segment nfc i) (List.enumerate k p) = Inr as"
    "collect_results (encode_segment nfc j) (List.enumerate l q) = Inr bs" "path_meaning nfc p = path_meaning nfc q" for as bs k l
    using that
  proof (induction p arbitrary: q as bs k l)
    case (Cons x p)
    then obtain y q' where "q = y # q'" by (cases q) (auto simp: path_meaning_def)
    then show ?case using Cons
      by (auto simp: result_bind_Inr_iff encode_segment_def path_meaning_def split: path_segment.splits if_splits)
  qed (auto simp: path_meaning_def)
  have "length p = length q" using assms(3) by (metis length_map path_meaning_def)
  then show ?thesis using assms seg by (auto simp: encode_path_def result_bind_Inr_iff)
qed

section \<open>Enum mappings\<close>

lemma sorted_distinct_adj: "sorted xs \<Longrightarrow> distinct_adj xs \<Longrightarrow> distinct (xs :: 'a::linorder list)"
proof -
  assume "sorted xs" "distinct_adj xs"
  then have "successively (<) xs"
    by (auto simp: distinct_adj_def successively_conv_nth sorted_iff_nth_Suc order.strict_iff_order)
  moreover have "transp ((<) :: 'a \<Rightarrow> _)" by (auto intro: transpI)
  ultimately have "sorted_wrt (<) xs" using successively_conv_sorted_wrt by blast
  then show "distinct xs" by (simp add: strict_sorted_iff)
qed

lemma sorted_by_key_unique:
  assumes "sorted (map f xs)" "sorted (map f ys)" "distinct (map f xs)" "distinct (map f ys)" "set xs = set ys"
  shows "xs = (ys :: 'a list)"
  using assms by (intro map_sorted_distinct_set_unique [of f]) (auto simp: distinct_map)

text \<open>Entries of an enum as they are written: a value and its code.\<close>

definition entry_bytes :: "bytes \<times> meaning_code \<Rightarrow> bytes" where
  "entry_bytes e = (case e of (bs, mc) \<Rightarrow> bs @ encode_meaning_code mc)"

definition written_entry :: "bytes \<times> meaning_code \<Rightarrow> bool" where
  "written_entry e \<longleftrightarrow> (\<exists>i m. enum_entry i m = Inr e \<and> mapping_sized m)"

lemma entry_same:
  assumes "written_entry e" "written_entry f" "entry_bytes e @ r = entry_bytes f @ s"
  shows "e = f \<and> r = s"
proof -
  obtain i m a where m: "typed_value_bytes i (mapped_value m) = Inr a" "e = (a, mapped_meaning m)" "mapping_sized m"
    using assms(1) by (auto simp: written_entry_def enum_entry_def result_bind_Inr_iff)
  obtain j n b where n: "typed_value_bytes j (mapped_value n) = Inr b" "f = (b, mapped_meaning n)" "mapping_sized n"
    using assms(2) by (auto simp: written_entry_def enum_entry_def result_bind_Inr_iff)
  have eq: "a @ (encode_meaning_code (mapped_meaning m) @ r) = b @ (encode_meaning_code (mapped_meaning n) @ s)"
    using assms(3) m(2) n(2) by (simp add: entry_bytes_def)
  have ab: "a = b" using typed_value_same [OF m(1) n(1) m(3) n(3) eq] by simp
  then have "push_lp_bytes (vocabulary (mapped_meaning m)) @ (push_lp_bytes (meaning (mapped_meaning m)) @ r) =
      push_lp_bytes (vocabulary (mapped_meaning n)) @ (push_lp_bytes (meaning (mapped_meaning n)) @ s)"
    using eq by (simp add: encode_meaning_code_def)
  from push_lp_same [OF this] have 1: "vocabulary (mapped_meaning m) = vocabulary (mapped_meaning n)"
    "push_lp_bytes (meaning (mapped_meaning m)) @ r = push_lp_bytes (meaning (mapped_meaning n)) @ s"
    using m(3) n(3) by (auto simp: mapping_sized_def short_def)
  from push_lp_same [OF this(2)] have "meaning (mapped_meaning m) = meaning (mapped_meaning n)" "r = s"
    using m(3) n(3) by (auto simp: mapping_sized_def short_def)
  then show ?thesis using ab 1 m(2) n(2) by simp
qed

interpretation entry_wire: self_delimiting written_entry entry_bytes
  by unfold_locales (rule entry_same)

lemma collect_results_set: "collect_results f xs = Inr ys \<Longrightarrow> set ys = {y. \<exists>x\<in>set xs. f x = Inr y} \<and> length ys = length xs"
  by (induction xs arbitrary: ys) (auto simp: result_bind_Inr_iff)

lemma collect_results_ok: "collect_results f xs = Inr ys \<Longrightarrow> x \<in> set xs \<Longrightarrow> \<exists>y\<in>set ys. f x = Inr y"
  by (induction xs arbitrary: ys) (auto simp: result_bind_Inr_iff)

lemma enum_entry_iff:
  "enum_entry i m = Inr e \<longleftrightarrow> (\<exists>bs. typed_value_bytes i (mapped_value m) = Inr bs \<and> e = (bs, mapped_meaning m))"
  by (auto simp: enum_entry_def result_bind_Inr_iff)

lemma entries_by_meaning:
  assumes "collect_results (enum_entry i) ms = Inr es" "collect_results (enum_entry j) ns = Inr fs"
    and "\<forall>m\<in>set ms. mapping_sized m" "\<forall>n\<in>set ns. mapping_sized n"
  shows "set es = set fs \<longleftrightarrow> mapping_meaning ` set ms = mapping_meaning ` set ns"
proof -
  have sub: "set es \<subseteq> set fs \<longleftrightarrow> mapping_meaning ` set ms \<subseteq> mapping_meaning ` set ns"
    if e: "collect_results (enum_entry i) ms = Inr es" "collect_results (enum_entry j) ns = Inr fs"
      "\<forall>m\<in>set ms. mapping_sized m" "\<forall>n\<in>set ns. mapping_sized n" for i j ms ns es fs
  proof
    assume sub: "set es \<subseteq> set fs"
    show "mapping_meaning ` set ms \<subseteq> mapping_meaning ` set ns"
    proof
      fix x assume "x \<in> mapping_meaning ` set ms"
      then obtain m where m: "m \<in> set ms" "x = mapping_meaning m" by blast
      obtain y where y: "y \<in> set es" "enum_entry i m = Inr y" using collect_results_ok [OF e(1) m(1)] by blast
      then obtain n where n: "n \<in> set ns" "enum_entry j n = Inr y" using sub collect_results_set [OF e(2)] by blast
      have "mapping_meaning m = mapping_meaning n"
        using y(2) n(2) typed_value_same [of i m _ j n _ "[]" "[]"] e(3,4) m(1) n(1)
        by (auto simp: enum_entry_iff mapping_meaning_def)
      then show "x \<in> mapping_meaning ` set ns" using m(2) n(1) by blast
    qed
  next
    assume sub: "mapping_meaning ` set ms \<subseteq> mapping_meaning ` set ns"
    show "set es \<subseteq> set fs"
    proof
      fix y assume "y \<in> set es"
      then obtain m where m: "m \<in> set ms" "enum_entry i m = Inr y" using collect_results_set [OF e(1)] by blast
      then obtain n where n: "n \<in> set ns" "mapping_meaning m = mapping_meaning n" using sub by blast
      obtain z where z: "z \<in> set fs" "enum_entry j n = Inr z" using collect_results_ok [OF e(2) n(1)] by blast
      have "y = z" using m(2) z(2) n(2) typed_value_by_meaning by (fastforce simp: enum_entry_iff mapping_meaning_def)
      then show "y \<in> set fs" using z(1) by simp
    qed
  qed
  show ?thesis using sub [OF assms] sub [OF assms(2,1,4,3)] by blast
qed

lemma encode_enum_iff:
  "encode_enum_semantics i ms = Inr a \<longleftrightarrow>
     (\<exists>es. collect_results (enum_entry i) ms = Inr es \<and> distinct (map fst es) \<and>
        a = push_u32 (length (sort_key fst es)) @ concat (map entry_bytes (sort_key fst es)))"
proof -
  have "distinct_adj (map fst (sort_key fst es)) \<longleftrightarrow> distinct (map fst es)" for es :: "(bytes \<times> meaning_code) list"
  proof
    assume "distinct_adj (map fst (sort_key fst es))"
    then have "distinct (map fst (sort_key fst es))" by (intro sorted_distinct_adj) simp_all
    then show "distinct (map fst es)" by (simp add: distinct_map)
  next
    assume "distinct (map fst es)"
    then have "distinct (map fst (sort_key fst es))" by (simp add: distinct_map)
    then show "distinct_adj (map fst (sort_key fst es))"
      by (metis distinct_adj_conv_nth lessI Suc_lessD nth_eq_iff_index_eq n_not_Suc_n)
  qed
  moreover have "(\<lambda>(bs, mc). bs @ encode_meaning_code mc) = entry_bytes" by (simp add: entry_bytes_def fun_eq_iff)
  ultimately show ?thesis by (auto simp: encode_enum_semantics_def result_bind_Inr_iff Let_def)
qed

lemma enum_same:
  assumes "encode_enum_semantics i ms = Inr a" "encode_enum_semantics j ns = Inr b"
    and "short ms" "short ns" "\<forall>m\<in>set ms. mapping_sized m" "\<forall>n\<in>set ns. mapping_sized n" "a @ r = b @ s"
  shows "mapping_meaning ` set ms = mapping_meaning ` set ns \<and> a = b \<and> r = s"
proof -
  obtain es where es: "collect_results (enum_entry i) ms = Inr es"
      "a = push_u32 (length (sort_key fst es)) @ concat (map entry_bytes (sort_key fst es))"
    using assms(1) by (auto simp: encode_enum_iff)
  obtain fs where fs: "collect_results (enum_entry j) ns = Inr fs"
      "b = push_u32 (length (sort_key fst fs)) @ concat (map entry_bytes (sort_key fst fs))"
    using assms(2) by (auto simp: encode_enum_iff)
  note se = collect_results_set [OF es(1)] and sf = collect_results_set [OF fs(1)]
  have "push_u32 (length (sort_key fst es)) @ concat (map entry_bytes (sort_key fst es)) @ r =
      push_u32 (length (sort_key fst fs)) @ concat (map entry_bytes (sort_key fst fs)) @ s"
    using assms(7) es(2) fs(2) by simp
  from entry_wire.counted_same [OF this] have "sort_key fst es = sort_key fst fs \<and> r = s"
    using se sf assms(3-6) by (auto simp: short_def written_entry_def)
  then have "set es = set fs" "a = b" "r = s" using es(2) fs(2) by (metis set_sort)+
  then show ?thesis using entries_by_meaning [OF es(1) fs(1) assms(5,6)] by simp
qed

lemma enum_by_meaning:
  assumes "encode_enum_semantics i ms = Inr a" "encode_enum_semantics j ns = Inr b"
    and "\<forall>m\<in>set ms. mapping_sized m" "\<forall>n\<in>set ns. mapping_sized n"
    and "mapping_meaning ` set ms = mapping_meaning ` set ns"
  shows "a = b"
proof -
  obtain es where es: "collect_results (enum_entry i) ms = Inr es" "distinct (map fst es)"
      "a = push_u32 (length (sort_key fst es)) @ concat (map entry_bytes (sort_key fst es))"
    using assms(1) by (auto simp: encode_enum_iff)
  obtain fs where fs: "collect_results (enum_entry j) ns = Inr fs" "distinct (map fst fs)"
      "b = push_u32 (length (sort_key fst fs)) @ concat (map entry_bytes (sort_key fst fs))"
    using assms(2) by (auto simp: encode_enum_iff)
  have "set es = set fs" using entries_by_meaning [OF es(1) fs(1) assms(3,4)] assms(5) by simp
  then have "sort_key fst es = sort_key fst fs"
    using es(2) fs(2) by (intro sorted_by_key_unique [of fst]) (simp_all add: distinct_map)
  then show ?thesis using es(3) fs(3) by simp
qed

section \<open>Attributes\<close>

lemma unit_same:
  assumes "encode_unit u @ r = encode_unit v @ s" "short (code u)" "short (code v)"
  shows "u = v \<and> r = s"
proof -
  have "unit_tag (system u) = unit_tag (system v)" "push_lp_bytes (code u) @ r = push_lp_bytes (code v) @ s"
    using assms(1) by (auto simp: encode_unit_def)
  moreover have "unit_tag x = unit_tag y \<longleftrightarrow> x = y" for x y by (cases x; cases y) (simp_all add: unit_tag_def)
  ultimately show ?thesis using push_lp_same [of "code u" r "code v" s] assms(2,3) by (simp add: short_def)
qed

interpretation unit_wire: self_delimiting "\<lambda>u. short (code u)" encode_unit
  by unfold_locales (rule unit_same)

lemma epoch_same:
  assumes "\<forall>c. u = RegisteredEpoch c \<longrightarrow> short c" "\<forall>c. v = RegisteredEpoch c \<longrightarrow> short c"
    and "encode_epoch u @ r = encode_epoch v @ s"
  shows "u = v \<and> r = s"
proof (cases u; cases v)
  fix c d assume e: "u = RegisteredEpoch c" "v = RegisteredEpoch d"
  then have "push_lp_bytes c @ r = push_lp_bytes d @ s" using assms(3) by (simp add: encode_epoch_def)
  from push_lp_same [OF this] show ?thesis using assms(1,2) e by simp
qed (use assms(3) in \<open>simp_all add: encode_epoch_def\<close>)

interpretation epoch_wire: self_delimiting "\<lambda>u. \<forall>c. u = RegisteredEpoch c \<longrightarrow> short c" encode_epoch
  by unfold_locales (rule epoch_same)

lemma kind_byte_inj: "encode_temporal_kind a = encode_temporal_kind b \<longleftrightarrow> a = b"
  by (cases a; cases b) (simp_all add: encode_temporal_kind_def)

interpretation kind_wire: self_delimiting "\<lambda>_. True" "\<lambda>k. [encode_temporal_kind k]"
  by unfold_locales (simp add: kind_byte_inj)

lemma resolution_byte_inj: "encode_temporal_resolution a = encode_temporal_resolution b \<longleftrightarrow> a = b"
  by (cases a; cases b) (simp_all add: encode_temporal_resolution_def)

interpretation resolution_wire: self_delimiting "\<lambda>_. True" "\<lambda>r. [encode_temporal_resolution r]"
  by unfold_locales (simp add: resolution_byte_inj)

definition temporal_parts :: "temporal \<Rightarrow> bytes option list" where
  "temporal_parts t =
     [map_option (\<lambda>k. [encode_temporal_kind k]) (temporal_kind t), map_option encode_epoch (epoch t),
      map_option (\<lambda>r. [encode_temporal_resolution r]) (resolution t)]"

lemma encode_temporal_parts: "encode_temporal t = with_bitmap (parts_of (temporal_parts t))"
  by (simp add: encode_temporal_def temporal_parts_def flip: parts_of_3)

definition temporal_sized :: "temporal \<Rightarrow> bool" where
  "temporal_sized t \<longleftrightarrow> (\<forall>c. epoch t = Some (RegisteredEpoch c) \<longrightarrow> short c)"

lemma temporal_same:
  assumes "encode_temporal t = Some a" "encode_temporal u = Some b" "a @ r = b @ s" "temporal_sized t" "temporal_sized u"
  shows "t = u \<and> r = s"
proof -
  have "map (\<lambda>x. x = None) (temporal_parts t) = map (\<lambda>x. x = None) (temporal_parts u) \<and>
      concat (map opt_bytes (temporal_parts t)) @ r = concat (map opt_bytes (temporal_parts u)) @ s"
    by (rule with_bitmap_same [OF _ _ assms(3)]) (use assms(1,2) in \<open>simp_all add: encode_temporal_parts temporal_parts_def\<close>)
  then have p: "temporal_kind t = None \<longleftrightarrow> temporal_kind u = None" "epoch t = None \<longleftrightarrow> epoch u = None"
      "resolution t = None \<longleftrightarrow> resolution u = None"
    and c: "opt_bytes (map_option (\<lambda>k. [encode_temporal_kind k]) (temporal_kind t)) @ (opt_bytes (map_option encode_epoch (epoch t)) @
        (opt_bytes (map_option (\<lambda>r. [encode_temporal_resolution r]) (resolution t)) @ r)) =
      opt_bytes (map_option (\<lambda>k. [encode_temporal_kind k]) (temporal_kind u)) @ (opt_bytes (map_option encode_epoch (epoch u)) @
        (opt_bytes (map_option (\<lambda>r. [encode_temporal_resolution r]) (resolution u)) @ s))"
    by (simp_all add: temporal_parts_def)
  note k = kind_wire.optional_same [OF c p(1)]
  then have e: "opt_bytes (map_option encode_epoch (epoch t)) @ (opt_bytes (map_option (\<lambda>r. [encode_temporal_resolution r]) (resolution t)) @ r) =
      opt_bytes (map_option encode_epoch (epoch u)) @ (opt_bytes (map_option (\<lambda>r. [encode_temporal_resolution r]) (resolution u)) @ s)"
    by simp
  note e2 = epoch_wire.optional_same [OF e p(2)]
  then have c2: "opt_bytes (map_option (\<lambda>r. [encode_temporal_resolution r]) (resolution t)) @ r =
      opt_bytes (map_option (\<lambda>r. [encode_temporal_resolution r]) (resolution u)) @ s"
    using assms(4,5) by (simp add: temporal_sized_def)
  show ?thesis using k e2 resolution_wire.optional_same [OF c2 p(3)] assms(4,5) by (simp add: temporal_sized_def)
qed

lemma temporal_none: "encode_temporal t = None \<longleftrightarrow> temporal_meaning (Some t) = None"
  by (auto simp: encode_temporal_parts with_bitmap_parts temporal_parts_def temporal_meaning_def)

lemma temporal_bytes:
  "Option.bind t encode_temporal = map_option (\<lambda>x. the (encode_temporal x)) (temporal_meaning t)"
  using temporal_none by (cases t) (auto simp: temporal_meaning_def split: if_splits)

definition semantic_parts :: "field_semantics \<Rightarrow> bytes option \<Rightarrow> bytes option list" where
  "semantic_parts s enums =
     [map_option push_lp_bytes (canonical_field_id s), map_option push_lp_bytes (identifier_namespace s),
      map_option encode_unit (field_unit s), map_option push_i64 (numeric_scale s),
      map_option (\<lambda>x. the (encode_temporal x)) (temporal_meaning (field_temporal s)), enums]"

definition enum_part :: "nat \<Rightarrow> field_semantics \<Rightarrow> canon_error + bytes option" where
  "enum_part i s =
     (if mappings s = [] then Inr None else result_bind (encode_enum_semantics i (mappings s)) (\<lambda>bs. Inr (Some bs)))"

lemma encode_field_parts:
  "encode_field_semantics i s = result_bind (enum_part i s) (\<lambda>e. Inr (with_bitmap (parts_of (semantic_parts s e))))"
proof -
  have "(case enum_semantics s of Some (m # ms) \<Rightarrow> result_bind (encode_enum_semantics i (m # ms)) (\<lambda>bs. Inr (Some bs)) | _ \<Rightarrow> Inr None) =
      enum_part i s"
    by (auto simp: enum_part_def mappings_def split: option.splits list.splits)
  then show ?thesis
    by (simp add: encode_field_semantics_def semantic_parts_def temporal_bytes flip: parts_of_6)
qed

lemma enum_part_same:
  assumes "enum_part i s = Inr x" "enum_part j t = Inr y" "semantics_sized s" "semantics_sized t"
    and "x = None \<longleftrightarrow> y = None" "opt_bytes x @ q = opt_bytes y @ r"
  shows "fm_values (field_meaning s) = fm_values (field_meaning t) \<and> x = y \<and> q = r"
proof (cases x)
  case None
  then show ?thesis using assms
    by (auto simp: enum_part_def field_meaning_def opt_bytes_def result_bind_Inr_iff split: if_splits)
next
  case (Some a)
  then obtain b where y: "y = Some b" using assms(5) by (cases y) auto
  have "encode_enum_semantics i (mappings s) = Inr a" "encode_enum_semantics j (mappings t) = Inr b"
    using assms(1,2) Some y by (auto simp: enum_part_def result_bind_Inr_iff split: if_splits)
  from enum_same [OF this] show ?thesis using assms(3,4,6) Some y
    by (simp add: semantics_sized_def field_meaning_def opt_bytes_def)
qed

interpretation temporal_wire: self_delimiting "\<lambda>t. temporal_sized t \<and> encode_temporal t \<noteq> None" "\<lambda>t. the (encode_temporal t)"
proof
  fix t u r s
  assume "temporal_sized t \<and> encode_temporal t \<noteq> None" "temporal_sized u \<and> encode_temporal u \<noteq> None"
    and eq: "the (encode_temporal t) @ r = the (encode_temporal u) @ s"
  then have t: "encode_temporal t = Some (the (encode_temporal t))" "encode_temporal u = Some (the (encode_temporal u))"
    "temporal_sized t" "temporal_sized u" by simp_all
  from temporal_same [OF t(1,2) eq t(3,4)] show "t = u \<and> r = s" .
qed

lemma attribute_same:
  assumes "encode_field_semantics i s = Inr (Some a)" "encode_field_semantics j t = Inr (Some b)"
    and "semantics_sized s" "semantics_sized t" "a @ q = b @ r"
  shows "field_meaning s = field_meaning t \<and> a = b \<and> q = r"
proof -
  obtain x where x: "enum_part i s = Inr x" "with_bitmap (parts_of (semantic_parts s x)) = Some a"
    using assms(1) by (auto simp: encode_field_parts result_bind_Inr_iff)
  obtain y where y: "enum_part j t = Inr y" "with_bitmap (parts_of (semantic_parts t y)) = Some b"
    using assms(2) by (auto simp: encode_field_parts result_bind_Inr_iff)
  have sc: "map (\<lambda>x. x = None) (semantic_parts s x) = map (\<lambda>x. x = None) (semantic_parts t y) \<and>
      concat (map opt_bytes (semantic_parts s x)) @ q = concat (map opt_bytes (semantic_parts t y)) @ r"
    by (rule with_bitmap_same [OF x(2) y(2) assms(5)]) (simp_all add: semantic_parts_def)
  then have p: "canonical_field_id s = None \<longleftrightarrow> canonical_field_id t = None"
      "identifier_namespace s = None \<longleftrightarrow> identifier_namespace t = None" "field_unit s = None \<longleftrightarrow> field_unit t = None"
      "numeric_scale s = None \<longleftrightarrow> numeric_scale t = None"
      "temporal_meaning (field_temporal s) = None \<longleftrightarrow> temporal_meaning (field_temporal t) = None" "x = None \<longleftrightarrow> y = None"
    by (simp_all add: semantic_parts_def)
  note z = assms(3,4) [unfolded semantics_sized_def]
  let ?te = "\<lambda>x. the (encode_temporal x)"
  have c0: "opt_bytes (map_option push_lp_bytes (canonical_field_id s)) @ (opt_bytes (map_option push_lp_bytes (identifier_namespace s)) @ (opt_bytes (map_option encode_unit (field_unit s)) @
        (opt_bytes (map_option push_i64 (numeric_scale s)) @ (opt_bytes (map_option ?te (temporal_meaning (field_temporal s))) @ (opt_bytes x @ q))))) =
      opt_bytes (map_option push_lp_bytes (canonical_field_id t)) @ (opt_bytes (map_option push_lp_bytes (identifier_namespace t)) @ (opt_bytes (map_option encode_unit (field_unit t)) @
        (opt_bytes (map_option push_i64 (numeric_scale t)) @ (opt_bytes (map_option ?te (temporal_meaning (field_temporal t))) @ (opt_bytes y @ r)))))"
    using conjunct2 [OF sc] by (simp add: semantic_parts_def)
  have s1: "canonical_field_id s = canonical_field_id t \<and>
      opt_bytes (map_option push_lp_bytes (identifier_namespace s)) @ (opt_bytes (map_option encode_unit (field_unit s)) @
        (opt_bytes (map_option push_i64 (numeric_scale s)) @ (opt_bytes (map_option ?te (temporal_meaning (field_temporal s))) @ (opt_bytes x @ q)))) =
      opt_bytes (map_option push_lp_bytes (identifier_namespace t)) @ (opt_bytes (map_option encode_unit (field_unit t)) @
        (opt_bytes (map_option push_i64 (numeric_scale t)) @ (opt_bytes (map_option ?te (temporal_meaning (field_temporal t))) @ (opt_bytes y @ r))))"
    by (rule text_wire.optional_same [OF c0]) (use p(1) z in blast)+
  have s2: "identifier_namespace s = identifier_namespace t \<and> opt_bytes (map_option encode_unit (field_unit s)) @
        (opt_bytes (map_option push_i64 (numeric_scale s)) @ (opt_bytes (map_option ?te (temporal_meaning (field_temporal s))) @ (opt_bytes x @ q))) =
      opt_bytes (map_option encode_unit (field_unit t)) @
        (opt_bytes (map_option push_i64 (numeric_scale t)) @ (opt_bytes (map_option ?te (temporal_meaning (field_temporal t))) @ (opt_bytes y @ r)))"
    by (rule text_wire.optional_same [OF conjunct2 [OF s1]]) (use p(2) z in blast)+
  have s3: "field_unit s = field_unit t \<and>
        opt_bytes (map_option push_i64 (numeric_scale s)) @ (opt_bytes (map_option ?te (temporal_meaning (field_temporal s))) @ (opt_bytes x @ q)) =
        opt_bytes (map_option push_i64 (numeric_scale t)) @ (opt_bytes (map_option ?te (temporal_meaning (field_temporal t))) @ (opt_bytes y @ r))"
    by (rule unit_wire.optional_same [OF conjunct2 [OF s2]]) (use p(3) z in blast)+
  have s4: "numeric_scale s = numeric_scale t \<and>
        opt_bytes (map_option ?te (temporal_meaning (field_temporal s))) @ (opt_bytes x @ q) =
        opt_bytes (map_option ?te (temporal_meaning (field_temporal t))) @ (opt_bytes y @ r)"
    by (rule integer_wire.optional_same [OF conjunct2 [OF s3]]) (use p(4) z in blast)+
  have s5: "temporal_meaning (field_temporal s) = temporal_meaning (field_temporal t) \<and> opt_bytes x @ q = opt_bytes y @ r"
  proof (rule temporal_wire.optional_same [OF conjunct2 [OF s4] p(5)])
    have "temporal_sized u \<and> encode_temporal u \<noteq> None"
      if "temporal_meaning (field_temporal x) = Some u" "semantics_sized x" for u x
      using that temporal_none [of u]
      by (auto simp: temporal_meaning_def semantics_sized_def temporal_sized_def split: option.splits if_splits)
    then show "\<forall>v. temporal_meaning (field_temporal s) = Some v \<longrightarrow> temporal_sized v \<and> encode_temporal v \<noteq> None"
      "\<forall>v. temporal_meaning (field_temporal t) = Some v \<longrightarrow> temporal_sized v \<and> encode_temporal v \<noteq> None"
      using assms(3,4) by blast+
  qed
  have s6: "fm_values (field_meaning s) = fm_values (field_meaning t) \<and> x = y \<and> q = r"
    by (rule enum_part_same [OF x(1) y(1) assms(3,4) p(6) conjunct2 [OF s5]])
  then have "field_meaning s = field_meaning t"
    using s1 s2 s3 s4 s5 by (simp add: field_meaning_def)
  moreover have "semantic_parts s x = semantic_parts t y" using s1 s2 s3 s4 s5 s6 by (simp add: semantic_parts_def)
  ultimately show ?thesis using s6 x(2) y(2) by simp
qed

lemma attribute_none:
  assumes "encode_field_semantics i s = Inr a"
  shows "a = None \<longleftrightarrow> field_meaning s = no_meaning"
proof -
  obtain x where x: "enum_part i s = Inr x" "a = with_bitmap (parts_of (semantic_parts s x))"
    using assms by (auto simp: encode_field_parts result_bind_Inr_iff)
  moreover have "x = None \<longleftrightarrow> mappings s = []" using x(1) by (auto simp: enum_part_def result_bind_Inr_iff split: if_splits)
  ultimately show ?thesis
    by (auto simp: with_bitmap_parts semantic_parts_def field_meaning_def no_meaning_def)
qed

lemma attribute_by_meaning:
  assumes "encode_field_semantics i s = Inr a" "encode_field_semantics j t = Inr b"
    and "semantics_sized s" "semantics_sized t" "field_meaning s = field_meaning t"
  shows "a = b"
proof -
  obtain x where x: "enum_part i s = Inr x" "a = with_bitmap (parts_of (semantic_parts s x))"
    using assms(1) by (auto simp: encode_field_parts result_bind_Inr_iff)
  obtain y where y: "enum_part j t = Inr y" "b = with_bitmap (parts_of (semantic_parts t y))"
    using assms(2) by (auto simp: encode_field_parts result_bind_Inr_iff)
  have img: "mapping_meaning ` set (mappings s) = mapping_meaning ` set (mappings t)"
    using assms(5) by (simp add: field_meaning_def)
  have "x = y"
  proof (cases "mappings s = []")
    case True
    then have "mappings t = []" using img by simp
    then show ?thesis using True x(1) y(1) by (simp add: enum_part_def)
  next
    case False
    then have "mappings t \<noteq> []" using img by auto
    then show ?thesis using False x(1) y(1) enum_by_meaning [OF _ _ _ _ img] assms(3,4)
      by (fastforce simp: enum_part_def result_bind_Inr_iff semantics_sized_def)
  qed
  then show ?thesis using x(2) y(2) assms(5) by (simp add: semantic_parts_def field_meaning_def)
qed

end
