(* ===== verification/Semantic_Properties.thy ===== *)
theory Semantic_Properties
  imports Semantic_Meaning
begin

text \<open>The theorems on the canonical form of semantic metadata and on its numbers.\<close>

section \<open>Normal forms\<close>

lemma duplicate_path_iff: "duplicate_path ps = None \<longleftrightarrow> distinct ps"
  unfolding duplicate_path_def find_None_iff distinct_conv_nth
  by (auto simp: image_iff) (metis linorder_neqE_nat less_nat_zero_code not_less_eq less_Suc0)+

lemma entry_paths:
  assumes "list_all2 (\<lambda>p x. case x of None \<Rightarrow> True | Some e \<Rightarrow> fst e = p) ps xs" "distinct ps"
  shows "distinct (map fst (List.map_filter id xs)) \<and> fst ` set (List.map_filter id xs) \<subseteq> set ps"
  using assms
proof (induction rule: list_all2_induct)
  case (Cons p ps x xs)
  then show ?case by (cases x) (auto simp: List.map_filter_simps)
qed (simp add: List.map_filter_simps)

text \<open>A field of the normal form: the bytes of a path and of its attributes.\<close>

definition written_field :: "(bytes \<Rightarrow> bytes) \<Rightarrow> field_entry \<Rightarrow> bytes \<times> bytes \<Rightarrow> bool" where
  "written_field nfc f e \<longleftrightarrow>
     (\<exists>i. encode_path nfc i (path f) = Inr (fst e) \<and> encode_field_semantics i (semantics f) = Inr (Some (snd e)))"

lemma collect_results_nth:
  "collect_results f xs = Inr ys \<Longrightarrow> length ys = length xs \<and> (\<forall>k<length xs. f (xs ! k) = Inr (ys ! k))"
proof (induction xs arbitrary: ys)
  case (Cons x xs)
  then obtain y ys' where "ys = y # ys'" "f x = Inr y" "collect_results f xs = Inr ys'" by (auto simp: result_bind_Inr_iff)
  then show ?case using Cons.IH [of ys'] by (auto simp: nth_Cons split: nat.split)
qed simp

text \<open>The index of a field only shows in errors.\<close>

lemma typed_value_index: "typed_value_bytes i v = Inr a \<Longrightarrow> typed_value_bytes j v = Inr b \<Longrightarrow> a = b"
  by (auto simp: typed_value_bytes_def split: enum_value.splits option.splits)

lemma enum_index:
  "collect_results (enum_entry i) ms = Inr es \<Longrightarrow> collect_results (enum_entry j) ms = Inr fs \<Longrightarrow> es = fs"
proof (induction ms arbitrary: es fs)
  case (Cons m ms)
  then show ?case using typed_value_index by (fastforce simp: result_bind_Inr_iff enum_entry_iff)
qed simp

lemma attribute_index:
  assumes "encode_field_semantics i s = Inr a" "encode_field_semantics j s = Inr b"
  shows "a = b"
proof -
  obtain x y where x: "enum_part i s = Inr x" "a = with_bitmap (parts_of (semantic_parts s x))"
    and y: "enum_part j s = Inr y" "b = with_bitmap (parts_of (semantic_parts s y))"
    using assms by (auto simp: encode_field_parts result_bind_Inr_iff)
  have "x = y"
  proof (cases "mappings s = []")
    case False
    then obtain u v where u: "encode_enum_semantics i (mappings s) = Inr u" "x = Some u"
      and v: "encode_enum_semantics j (mappings s) = Inr v" "y = Some v"
      using x(1) y(1) by (auto simp: enum_part_def result_bind_Inr_iff)
    obtain es fs where "collect_results (enum_entry i) (mappings s) = Inr es" "u = push_u32 (length (sort_key fst es)) @ concat (map entry_bytes (sort_key fst es))"
      "collect_results (enum_entry j) (mappings s) = Inr fs" "v = push_u32 (length (sort_key fst fs)) @ concat (map entry_bytes (sort_key fst fs))"
      using u(1) v(1) unfolding encode_enum_iff by blast
    then show ?thesis using u(2) v(2) enum_index by metis
  qed (use x(1) y(1) in \<open>simp add: enum_part_def\<close>)
  then show ?thesis using x(2) y(2) by simp
qed

lemma normalize_fields:
  assumes "normalize_metadata nfc m = Inr n"
  shows "set (norm_fields n) = {e. \<exists>f\<in>set (field_entries m). written_field nfc f e} \<and>
    distinct (map fst (norm_fields n)) \<and> sorted (map fst (norm_fields n)) \<and>
    length (norm_fields n) \<le> length (field_entries m) \<and>
    (\<forall>f\<in>set (field_entries m). \<exists>i p a. encode_path nfc i (path f) = Inr p \<and> encode_field_semantics i (semantics f) = Inr a) \<and>
    event_type_bytes n = map_option push_lp_bytes (event_type m)"
proof -
  let ?es = "field_entries m"
  obtain ps where ps: "collect_results (\<lambda>(i, f). encode_path nfc i (path f)) (List.enumerate 0 ?es) = Inr ps"
    using assms by (auto simp: normalize_metadata_def result_bind_Inr_iff)
  then obtain xs where d: "duplicate_path ps = None"
    and xs: "collect_results encode_entry (List.enumerate 0 (zip ?es ps)) = Inr xs"
    and n: "n = \<lparr> event_type_bytes = map_option push_lp_bytes (event_type m), norm_fields = sort_key fst (List.map_filter id xs) \<rparr>"
    using assms by (auto simp: normalize_metadata_def result_bind_Inr_iff split: option.splits)
  have ps_nth: "length ps = length ?es" "\<And>k. k < length ?es \<Longrightarrow> encode_path nfc k (path (?es ! k)) = Inr (ps ! k)"
    using collect_results_nth [OF ps] by (simp_all add: nth_enumerate_eq)
  have xs_nth: "length xs = length ?es"
    "\<And>k. k < length ?es \<Longrightarrow> encode_entry (k, ?es ! k, ps ! k) = Inr (xs ! k)"
    using collect_results_nth [OF xs] ps_nth(1) by (simp_all add: nth_enumerate_eq)
  then have attr: "\<exists>a. encode_field_semantics k (semantics (?es ! k)) = Inr a \<and> xs ! k = map_option (\<lambda>b. (ps ! k, b)) a"
    if "k < length ?es" for k using that by (fastforce simp: encode_entry_def result_bind_Inr_iff)
  have "list_all2 (\<lambda>p x. case x of None \<Rightarrow> True | Some e \<Rightarrow> fst e = p) ps xs"
    unfolding list_all2_conv_all_nth using attr ps_nth(1) xs_nth(1) by (fastforce split: option.splits)
  note e = entry_paths [OF this]
  have dist: "distinct (map fst (List.map_filter id xs))" using e d by (simp add: duplicate_path_iff)
  have "set (List.map_filter id xs) = {e. \<exists>f\<in>set ?es. written_field nfc f e}"
  proof (intro equalityI subsetI)
    fix e assume "e \<in> set (List.map_filter id xs)"
    then obtain k where k: "k < length ?es" "xs ! k = Some e"
      using xs_nth(1) by (auto simp: List.map_filter_def in_set_conv_nth)
    obtain a where "encode_field_semantics k (semantics (?es ! k)) = Inr a" "xs ! k = map_option (\<lambda>b. (ps ! k, b)) a"
      using attr [OF k(1)] by blast
    then have "written_field nfc (?es ! k) e" unfolding written_field_def
      using k(2) ps_nth(2) [OF k(1)] by (intro exI [of _ k]) (cases a, auto)
    then show "e \<in> {e. \<exists>f\<in>set ?es. written_field nfc f e}" using k(1) by auto
  next
    fix e assume "e \<in> {e. \<exists>f\<in>set ?es. written_field nfc f e}"
    then obtain k where k: "k < length ?es" "written_field nfc (?es ! k) e" by (auto simp: in_set_conv_nth)
    then obtain i where i: "encode_path nfc i (path (?es ! k)) = Inr (fst e)"
      "encode_field_semantics i (semantics (?es ! k)) = Inr (Some (snd e))" by (auto simp: written_field_def)
    obtain a where a: "encode_field_semantics k (semantics (?es ! k)) = Inr a" "xs ! k = map_option (\<lambda>b. (ps ! k, b)) a"
      using attr [OF k(1)] by blast
    have "a = Some (snd e)" using attribute_index [OF a(1) i(2)] by simp
    moreover have "ps ! k = fst e" using path_by_meaning [OF ps_nth(2) [OF k(1)] i(1)] by simp
    ultimately have "xs ! k = Some e" using a(2) by simp
    then show "e \<in> set (List.map_filter id xs)"
      using k(1) xs_nth(1) by (force simp: List.map_filter_def image_iff in_set_conv_nth)
  qed
  moreover have "length (List.map_filter id xs) \<le> length ?es"
    using length_filter_le [of "\<lambda>x. x \<noteq> None" xs] xs_nth(1) by (simp add: List.map_filter_def)
  moreover have "\<forall>f\<in>set ?es. \<exists>i p a. encode_path nfc i (path f) = Inr p \<and> encode_field_semantics i (semantics f) = Inr a"
    using ps_nth(2) attr by (metis in_set_conv_nth)
  ultimately show ?thesis using dist by (simp add: n distinct_map)
qed

section \<open>Canonical bytes\<close>

definition field_bytes :: "bytes \<times> bytes \<Rightarrow> bytes" where
  "field_bytes e = fst e @ snd e"

definition sized_field :: "(bytes \<Rightarrow> bytes) \<Rightarrow> bytes \<times> bytes \<Rightarrow> bool" where
  "sized_field nfc e \<longleftrightarrow> (\<exists>f. written_field nfc f e \<and> path_sized nfc (path f) \<and> semantics_sized (semantics f))"

lemma field_same:
  assumes "sized_field nfc x" "sized_field nfc y" "field_bytes x @ r = field_bytes y @ s"
  shows "x = y \<and> r = s"
proof -
  obtain f :: field_entry and i where f: "encode_path nfc i (path f) = Inr (fst x)" "encode_field_semantics i (semantics f) = Inr (Some (snd x))"
      "path_sized nfc (path f)" "semantics_sized (semantics f)"
    using assms(1) unfolding sized_field_def written_field_def by blast
  obtain g :: field_entry and j where g: "encode_path nfc j (path g) = Inr (fst y)" "encode_field_semantics j (semantics g) = Inr (Some (snd y))"
      "path_sized nfc (path g)" "semantics_sized (semantics g)"
    using assms(2) unfolding sized_field_def written_field_def by blast
  have "fst x @ (snd x @ r) = fst y @ (snd y @ s)" using assms(3) by (simp add: field_bytes_def)
  from path_same [OF f(1) g(1) f(3) g(3) this] have 1: "fst x = fst y" "snd x @ r = snd y @ s" by auto
  from attribute_same [OF f(2) g(2) f(4) g(4) 1(2)] 1(1) show ?thesis by (simp add: prod_eq_iff)
qed

interpretation field_wire: self_delimiting "sized_field nfc" field_bytes for nfc
  by unfold_locales (rule field_same)

text \<open>The fields of the normal form are those of the meaning.\<close>

lemma fields_by_meaning:
  assumes "normalize_metadata nfc m = Inr n" "normalize_metadata nfc m' = Inr n'" "metadata_sized nfc m" "metadata_sized nfc m'"
    and "snd (metadata_meaning nfc m) \<subseteq> snd (metadata_meaning nfc m')"
  shows "set (norm_fields n) \<subseteq> set (norm_fields n')"
proof
  fix e assume "e \<in> set (norm_fields n)"
  then obtain f i where f: "f \<in> set (field_entries m)" "encode_path nfc i (path f) = Inr (fst e)"
      "encode_field_semantics i (semantics f) = Inr (Some (snd e))"
    using normalize_fields [OF assms(1)] by (auto simp: written_field_def)
  then have "(path_meaning nfc (path f), field_meaning (semantics f)) \<in> snd (metadata_meaning nfc m)"
    using attribute_none [OF f(3)] by (auto simp: metadata_meaning_def)
  then obtain g where g: "g \<in> set (field_entries m')" "path_meaning nfc (path f) = path_meaning nfc (path g)"
      "field_meaning (semantics f) = field_meaning (semantics g)"
    using assms(5) by (auto simp: metadata_meaning_def)
  obtain j p a where j: "encode_path nfc j (path g) = Inr p" "encode_field_semantics j (semantics g) = Inr a"
    using normalize_fields [OF assms(2)] g(1) by blast
  have "p = fst e" using path_by_meaning [OF j(1) f(2)] g(2) by simp
  moreover have "a = Some (snd e)"
    using attribute_by_meaning [OF j(2) f(3)] g f(1) assms(3,4) by (simp add: metadata_sized_def)
  ultimately have "written_field nfc g e" using j by (auto simp: written_field_def)
  then show "e \<in> set (norm_fields n')" using normalize_fields [OF assms(2)] g(1) by blast
qed

lemma meaning_by_fields:
  assumes "normalize_metadata nfc m = Inr n" "normalize_metadata nfc m' = Inr n'" "metadata_sized nfc m" "metadata_sized nfc m'"
    and "set (norm_fields n) \<subseteq> set (norm_fields n')"
  shows "snd (metadata_meaning nfc m) \<subseteq> snd (metadata_meaning nfc m')"
proof
  fix x assume "x \<in> snd (metadata_meaning nfc m)"
  then obtain f where f: "f \<in> set (field_entries m)" "field_meaning (semantics f) \<noteq> no_meaning"
      "x = (path_meaning nfc (path f), field_meaning (semantics f))" by (auto simp: metadata_meaning_def)
  obtain i p a where i: "encode_path nfc i (path f) = Inr p" "encode_field_semantics i (semantics f) = Inr a"
    using normalize_fields [OF assms(1)] f(1) by blast
  obtain b where b: "a = Some b" using attribute_none [OF i(2)] f(2) by auto
  then have "(p, b) \<in> set (norm_fields n)"
    using normalize_fields [OF assms(1)] f(1) i by (auto simp: written_field_def)
  then obtain g j where g: "g \<in> set (field_entries m')" "encode_path nfc j (path g) = Inr p"
      "encode_field_semantics j (semantics g) = Inr (Some b)"
    using normalize_fields [OF assms(2)] assms(5) by (auto simp: written_field_def)
  have sz: "path_sized nfc (path f)" "path_sized nfc (path g)" "semantics_sized (semantics f)" "semantics_sized (semantics g)"
    using f(1) g(1) assms(3,4) by (simp_all add: metadata_sized_def)
  have "path_meaning nfc (path f) = path_meaning nfc (path g)"
    using path_same [OF i(1) g(2) sz(1,2), of "[]" "[]"] by simp
  moreover have "field_meaning (semantics f) = field_meaning (semantics g)"
    using attribute_same [of i _ b j _ b "[]" "[]"] i(2) b g(3) sz(3,4) by simp
  ultimately show "x \<in> snd (metadata_meaning nfc m')" using f(2,3) g(1) by (auto simp: metadata_meaning_def)
qed

lemma encode_normalized_same:
  assumes "normalize_metadata nfc m = Inr n" "normalize_metadata nfc m' = Inr n'" "metadata_sized nfc m" "metadata_sized nfc m'"
    and "encode_normalized n = encode_normalized n'"
  shows "event_type m = event_type m' \<and> norm_fields n = norm_fields n'"
proof -
  note f = normalize_fields [OF assms(1)] and f' = normalize_fields [OF assms(2)]
  have fb: "(\<lambda>(p, a). p @ a) = field_bytes" by (simp add: field_bytes_def fun_eq_iff)
  have tag: "event_type m = None \<longleftrightarrow> event_type m' = None"
    and eq: "opt_bytes (map_option push_lp_bytes (event_type m)) @ (push_u32 (length (norm_fields n)) @ concat (map field_bytes (norm_fields n))) =
      opt_bytes (map_option push_lp_bytes (event_type m')) @ (push_u32 (length (norm_fields n')) @ concat (map field_bytes (norm_fields n')))"
    using assms(5) f f' by (auto simp: encode_normalized_def opt_bytes_def fb split: option.splits)
  note e = text_wire.optional_same [OF eq tag]
  then have "push_u32 (length (norm_fields n)) @ concat (map field_bytes (norm_fields n)) @ [] =
      push_u32 (length (norm_fields n')) @ concat (map field_bytes (norm_fields n')) @ []"
    using assms(3,4) by (simp add: metadata_sized_def)
  moreover have "short (norm_fields x) \<and> (\<forall>e\<in>set (norm_fields x). sized_field nfc e)"
    if "normalize_metadata nfc y = Inr x" "metadata_sized nfc y" for x y
    using normalize_fields [OF that(1)] that(2) by (fastforce simp: short_def metadata_sized_def sized_field_def)
  ultimately have "norm_fields n = norm_fields n'"
    using field_wire.counted_same [of "norm_fields n" "[]" "norm_fields n'" "[]" nfc] assms(1-4) by blast
  then show ?thesis using e assms(3,4) by (simp add: metadata_sized_def)
qed

lemma normalized_iff_meaning:
  assumes "normalize_metadata nfc m = Inr n" "normalize_metadata nfc m' = Inr n'" "metadata_sized nfc m" "metadata_sized nfc m'"
  shows "encode_normalized n = encode_normalized n' \<longleftrightarrow> metadata_meaning nfc m = metadata_meaning nfc m'"
proof
  assume "encode_normalized n = encode_normalized n'"
  note s = encode_normalized_same [OF assms this]
  have "snd (metadata_meaning nfc m) = snd (metadata_meaning nfc m')"
    using meaning_by_fields [OF assms] meaning_by_fields [OF assms(2,1,4,3)] s by auto
  then show "metadata_meaning nfc m = metadata_meaning nfc m'" using s by (simp add: metadata_meaning_def)
next
  assume eq: "metadata_meaning nfc m = metadata_meaning nfc m'"
  then have "set (norm_fields n) = set (norm_fields n')"
    using fields_by_meaning [OF assms] fields_by_meaning [OF assms(2,1,4,3)] by auto
  then have "norm_fields n = norm_fields n'"
    using normalize_fields [OF assms(1)] normalize_fields [OF assms(2)] by (intro sorted_by_key_unique [of fst]) auto
  moreover have "event_type m = event_type m'" using eq by (simp add: metadata_meaning_def)
  ultimately show "encode_normalized n = encode_normalized n'"
    using normalize_fields [OF assms(1)] normalize_fields [OF assms(2)] by (simp add: encode_normalized_def)
qed

lemma empty_iff_no_meaning:
  assumes "normalize_metadata nfc m = Inr n"
  shows "normalized_is_empty n \<longleftrightarrow> metadata_meaning nfc m = (None, {})"
proof -
  note f = normalize_fields [OF assms]
  have "norm_fields n = [] \<longleftrightarrow> (\<forall>x\<in>set (field_entries m). \<forall>e. \<not> written_field nfc x e)"
  proof -
    have "norm_fields n = [] \<longleftrightarrow> set (norm_fields n) = {}" by simp
    also have "set (norm_fields n) = {e. \<exists>x\<in>set (field_entries m). written_field nfc x e}" using f by blast
    finally show ?thesis by blast
  qed
  moreover have "(\<exists>e. written_field nfc x e) \<longleftrightarrow> field_meaning (semantics x) \<noteq> no_meaning" if x: "x \<in> set (field_entries m)" for x :: field_entry
  proof -
    obtain i p a where i: "encode_path nfc i (path x) = Inr p" "encode_field_semantics i (semantics x) = Inr a"
      using f x by blast
    show ?thesis
    proof
      assume "\<exists>e. written_field nfc x e"
      then show "field_meaning (semantics x) \<noteq> no_meaning" using attribute_none by (fastforce simp: written_field_def)
    next
      assume "field_meaning (semantics x) \<noteq> no_meaning"
      then obtain b where "a = Some b" using attribute_none [OF i(2)] by auto
      then have "written_field nfc x (p, b)" using i by (auto simp: written_field_def)
      then show "\<exists>e. written_field nfc x e" by blast
    qed
  qed
  ultimately show ?thesis using f by (auto simp: normalized_is_empty_def metadata_meaning_def)
qed

section \<open>Properties\<close>

text \<open>C33: The canonical bytes of accepted metadata are equal exactly when the metadata mean the same, and
  barring a hash collision on the two preimages so are the fingerprints; there is no fingerprint exactly when
  the metadata say nothing.\<close>

theorem semantic_fingerprint_iff_same_meaning:
  assumes "canonical_semantic_bytes nfc m = Inr a" "canonical_semantic_bytes nfc m' = Inr b"
    and "metadata_sized nfc m" "metadata_sized nfc m'"
    and "base32_ok b32 b32_dec" "inj_on sha ((\<lambda>bs. vocab_version @ [CHR 0x00] @ bs) ` {a, b})"
  shows "(a = b \<longleftrightarrow> metadata_meaning nfc m = metadata_meaning nfc m') \<and>
    (semantic_fingerprint nfc sha b32 m = semantic_fingerprint nfc sha b32 m' \<longleftrightarrow>
      metadata_meaning nfc m = metadata_meaning nfc m') \<and>
    (semantic_fingerprint nfc sha b32 m = Inr None \<longleftrightarrow> metadata_meaning nfc m = (None, {}))"
proof -
  obtain n where n: "normalize_metadata nfc m = Inr n" "a = encode_normalized n"
    using assms(1) by (auto simp: canonical_semantic_bytes_def result_bind_Inr_iff)
  obtain n' where n': "normalize_metadata nfc m' = Inr n'" "b = encode_normalized n'"
    using assms(2) by (auto simp: canonical_semantic_bytes_def result_bind_Inr_iff)
  note iff = normalized_iff_meaning [OF n(1) n'(1) assms(3,4)]
  note empty = empty_iff_no_meaning [OF n(1)] empty_iff_no_meaning [OF n'(1)]
  have hash: "sha (vocab_version @ [CHR 0x00] @ a) = sha (vocab_version @ [CHR 0x00] @ b) \<longleftrightarrow> a = b"
    using inj_on_eq_iff [OF assms(6), of "vocab_version @ [CHR 0x00] @ a" "vocab_version @ [CHR 0x00] @ b"] by simp
  let ?fp = "\<lambda>n. if normalized_is_empty n then None
    else Some (semantic_id_from_digest b32 (sha (vocab_version @ [CHR 0x00] @ encode_normalized n)))"
  have fp: "semantic_fingerprint nfc sha b32 m = Inr (?fp n)" "semantic_fingerprint nfc sha b32 m' = Inr (?fp n')"
    using n(1) n'(1) by (simp_all add: semantic_fingerprint_def)
  have "?fp n = ?fp n' \<longleftrightarrow> metadata_meaning nfc m = metadata_meaning nfc m'"
  proof (cases "normalized_is_empty n \<or> normalized_is_empty n'")
    case True
    then show ?thesis using empty by auto
  next
    case False
    then have "?fp n = ?fp n' \<longleftrightarrow> sha (vocab_version @ [CHR 0x00] @ a) = sha (vocab_version @ [CHR 0x00] @ b)"
      using digest_from_inj [OF assms(5)] n(2) n'(2) by (simp add: semantic_id_from_digest_def)
    then show ?thesis using hash iff n(2) n'(2) by simp
  qed
  then have "semantic_fingerprint nfc sha b32 m = semantic_fingerprint nfc sha b32 m' \<longleftrightarrow>
      metadata_meaning nfc m = metadata_meaning nfc m'" by (simp add: fp)
  then show ?thesis using iff empty n n' by (simp add: semantic_fingerprint_def)
qed

text \<open>Two annotations of the same thing: numbers written differently, fields and mappings in another order.\<close>

definition priced :: "bytes \<Rightarrow> field_semantics" where
  "priced t =
     \<lparr> canonical_field_id = Some ''cfid_price'', identifier_namespace = None,
       field_unit = Some \<lparr> system = Iso4217, code = ''USD'' \<rparr>, numeric_scale = Some 2, field_temporal = None,
       enum_semantics = Some [EnumMapping (EnumNumber t) \<lparr> vocabulary = ''v'', meaning = ''m'' \<rparr>] \<rparr>"

definition silent :: field_semantics where
  "silent =
     \<lparr> canonical_field_id = None, identifier_namespace = None, field_unit = None, numeric_scale = None,
       field_temporal = Some \<lparr> temporal_kind = None, epoch = None, resolution = None \<rparr>, enum_semantics = Some [] \<rparr>"

definition price_list :: semantic_metadata where
  "price_list = \<lparr> event_type = Some ''sale'', field_entries = [\<lparr> path = [Key ''p'', Wildcard], semantics = priced ''10'' \<rparr>] \<rparr>"

definition price_list_again :: semantic_metadata where
  "price_list_again =
     \<lparr> event_type = Some ''sale'', field_entries = [\<lparr> path = [Key ''a''], semantics = silent \<rparr>,
         \<lparr> path = [Key ''p'', Wildcard], semantics = priced ''1.0e1'' \<rparr>] \<rparr>"

lemma price_decimals:
  "canonical_decimal ''10'' = Some \<lparr> dec_negative = False, dec_digits = ''1'', dec_exponent = 1 \<rparr>"
  "canonical_decimal ''1.0e1'' = Some \<lparr> dec_negative = False, dec_digits = ''1'', dec_exponent = 1 \<rparr>"
  by (simp_all add: canonical_decimal_def scan_sign_def scan_int_def scan_frac_def scan_exp_def digits_of_def
      reduce_decimal_def is_ascii_digit_def dec_val_def digit_val_def byte_val_def Let_def)

lemma price_lists:
  "metadata_sized id price_list" "metadata_sized id price_list_again"
  "canonical_semantic_bytes id price_list_again = canonical_semantic_bytes id price_list"
  "is_ok (canonical_semantic_bytes id price_list)"
proof -
  show "metadata_sized id price_list" "metadata_sized id price_list_again"
    by (simp_all add: metadata_sized_def price_list_def price_list_again_def path_sized_def semantics_sized_def priced_def
        silent_def short_def mappings_def mapping_sized_def int64_def)
  have p: "encode_path id i [Key ''p'', Wildcard] = Inr (push_u32 2 @ tag_path_key # push_lp_bytes ''p'' @ [tag_path_wildcard])"
    "encode_path id i [Key ''a''] = Inr (push_u32 1 @ tag_path_key # push_lp_bytes ''a'')" for i
    by (simp_all add: encode_path_def encode_segment_def byte_val_def numeral_2_eq_2)
  have ne: "push_u32 (Suc 0) \<noteq> push_u32 2" by (simp add: push_u32_inj)
  have s: "encode_field_semantics i (priced ''1.0e1'') = encode_field_semantics j (priced ''10'')"
    "is_ok (encode_field_semantics i (priced ''10''))" "encode_field_semantics i silent = Inr None"
    for i j
    by (simp_all add: encode_field_semantics_def priced_def silent_def encode_enum_semantics_def enum_entry_def
        typed_value_bytes_def price_decimals encode_temporal_def with_bitmap_def part_def Let_def)
  obtain a where a: "encode_field_semantics i (priced ''10'') = Inr a" for i using s(1,2) by (metis is_ok_iff)
  have a': "encode_field_semantics i (priced ''1.0e1'') = Inr a" for i using a s(1) by metis
  show "canonical_semantic_bytes id price_list_again = canonical_semantic_bytes id price_list"
    "is_ok (canonical_semantic_bytes id price_list)"
    by (simp_all add: canonical_semantic_bytes_def normalize_metadata_def price_list_def price_list_again_def p ne a a' s(3)
      duplicate_path_def encode_entry_def List.map_filter_def encode_normalized_def)
qed

theorem semantic_fingerprint_iff_same_meaning_witness:
  "metadata_meaning id price_list = metadata_meaning id price_list_again \<and>
   semantic_fingerprint id rev letter_enc price_list = semantic_fingerprint id rev letter_enc price_list_again"
proof -
  obtain a where a: "canonical_semantic_bytes id price_list = Inr a" "canonical_semantic_bytes id price_list_again = Inr a"
    using price_lists(3,4) by (auto simp: is_ok_iff)
  from semantic_fingerprint_iff_same_meaning [OF a price_lists(1,2) letter_codec_ok, of rev]
  show ?thesis by (auto simp: inj_on_def)
qed

end
