(* ===== verification/Spec2Isabelle.thy ===== *)
theory Spec2Isabelle
  imports Fingerprint_Properties Profile_Properties Vault_Properties Evidence_Properties
    Relay_Properties Lane_Properties Redaction_Properties Discovery_Properties Umbrella_Properties
    Umbrella_Governance Semantic_Properties
begin

text \<open>
  \<^bold>\<open>A verification development for deblob.\<close>

  deblob watches event streams, identifies the schema of each document and keeps a registry of
  the schemas it has seen. A document is parsed under limits, reduced to its shape, and
  fingerprinted; known fingerprints are resolved through an index in Redis, unknown ones become
  candidates whose evidence is collected until they are promoted to published schemas.

  \<^bold>\<open>Theories and the code they model\<close> (paths under \<open>src/crates/\<close>)

  \<^item> \<open>Prelude\<close>, \<open>Text_Bytes\<close>, \<open>BTree\<close>: results, orderings, byte strings, UTF-8, and Rust's ordered
    maps and sets as sorted association lists (locales \<open>ordered_map\<close>, \<open>ordered_set\<close>).
  \<^item> \<open>Ids\<close>: identifiers and errors (\<open>deblob-core/src/id.rs\<close>, \<open>error.rs\<close>, \<open>envelope.rs\<close>).
  \<^item> \<open>Json_Parse\<close>: the bounded parser (\<open>deblob-fingerprint/src/parse.rs\<close>, \<open>limits.rs\<close>), function by
    function; \<open>Json_Facts\<close>, \<open>Json_Total\<close>: every call consumes input, fuel \<open>3n+3\<close>
    suffices for \<open>n\<close> bytes and more does not change the result; \<open>Json_Valid\<close>: what an accepted
    document satisfies; \<open>Json_Print\<close>: every document within the limits is accepted.
  \<^item> \<open>Shape_Model\<close>, \<open>Canon\<close>: \<open>shape.rs\<close>, \<open>canon.rs\<close>, \<open>bucket.rs\<close>; the canonical encoding is uniquely
    readable and a shape is exactly a document up to structure.
  \<^item> \<open>Profile_Monoid\<close>, \<open>Profile_Facts\<close>: \<open>deblob-monoid/src/profile.rs\<close>, \<open>merge.rs\<close>; the
    locales \<open>merge_monoid\<close> and \<open>partial_merge\<close> are interpreted on each layer of a profile.
  \<^item> \<open>Records\<close>: the stored records (\<open>deblob-core/src/ports.rs\<close>, \<open>semantic.rs\<close>).
  \<^item> \<open>Redis_Service\<close>: the commands of the Redis server as a record, what their documentation
    promises as the locale \<open>redis_service\<close>, and an in-memory implementation of it.
  \<^item> \<open>Vault\<close> (\<open>deblob-redis/src/lua.rs\<close>, \<open>registry.rs\<close>, \<open>index.rs\<close>): scripts and registry;
    \<open>Vault_Facts\<close>, \<open>Vault_Inv\<close>, \<open>Vault_Rebuild\<close>, \<open>Vault_Theorems\<close>: effects, the invariant and its
    preservation by every step; \<open>Vault_Spec\<close>, \<open>Vault_Contract\<close>: what callers observe;
    \<open>Vault_Demo\<close>: a concrete deployment.
  \<^item> \<open>Evidence\<close>, \<open>Evidence_Facts\<close>: candidates (\<open>deblob-redis/src/evidence.rs\<close>).
  \<^item> \<open>Match_Metrics\<close>, \<open>Hot_Matcher\<close>: the hot path (\<open>deblob-match/src/matcher.rs\<close>, \<open>metrics.rs\<close>,
    \<open>discovery.rs\<close>), one payload's verdict with the verdict cache (locale \<open>lru_cache\<close>); \<open>Vault_Contract\<close>
    ends with the hot path over the registry in Redis.
  \<^item> \<open>Settle\<close>, \<open>Relay\<close>: the transactional relay (\<open>deblob-kafka/src/headers.rs\<close>,
    \<open>relay.rs\<close>, \<open>stream.rs\<close>) over the client calls of \<open>Kafka_Service\<close> (locale \<open>kafka_service\<close>);
    \<open>Relay_Batch\<close>, \<open>Relay_Run\<close>, \<open>Relay_Facts\<close>, \<open>Relay_Trust\<close>: a batch as an atomic step, runs
    as an abstract log of batches, what a batch writes, where schema ids come from.
  \<^item> \<open>Evidence_Port\<close>: the trait \<open>EvidenceStore\<close> as the locale \<open>evidence_contract\<close>, and the store in Redis
    as an instance; \<open>Cold_Lane\<close>, \<open>Cold_Lane_Facts\<close>, \<open>Lane_Run\<close>: ingestion (\<open>deblob/src/coldlane.rs\<close>), its
    effect proved over the contract (locale \<open>cold_lane\<close>), and runs with the log of what was ingested.
  \<^item> \<open>Value_Profile\<close>, \<open>Promotion\<close> (\<open>deblob/src/value_profile.rs\<close>, \<open>policy.rs\<close>, \<open>promote.rs\<close>,
    \<open>deblob-monoid/src/simhash.rs\<close>, \<open>deblob-redis/src/value_profile.rs\<close>); \<open>Promotion_Frames\<close>,
    \<open>Promotion_Facts\<close>: which keys the stores use, and lane and promoter over one server (locale
    \<open>redis_lane\<close>); \<open>Lane_Demo\<close>: a deployment in memory.
  \<^item> \<open>Redaction\<close>, \<open>Redaction_Facts\<close>: detectors and redaction (\<open>deblob-dlp/src\<close>).
  \<^item> \<open>Discovery\<close>, \<open>Discovery_Facts\<close>: the consumer of the discovery topic as a state machine with the
    capture of samples (\<open>deblob/src/discovery_consumer.rs\<close>, \<open>sample_capture.rs\<close>).
  \<^item> \<open>Auto_Promote\<close>: the sweep that promotes candidates (\<open>deblob/src/auto_promote.rs\<close>).
  \<^item> \<open>Umbrella\<close>, \<open>Umbrella_Verify\<close>, \<open>Umbrella_Facts\<close>: transforms of events into umbrella schemas
    (\<open>deblob-umbrella/src\<close>): executor, static verification, assembly, the in-memory store.
  \<^item> \<open>Umbrella_Port\<close>: the trait \<open>UmbrellaStore\<close> as the locale \<open>umbrella_contract\<close>, with the store in memory
    as an instance; \<open>Umbrella_Redis\<close>: the store in Redis (\<open>deblob-redis/src/umbrella.rs\<close>) as another.
    \<open>Umbrella_Service\<close>: domains of sources (\<open>deblob-semantic/src/domain.rs\<close>), the fields of
    child schemas, the value guard, proposals and decisions (\<open>deblob/src/umbrella_controller.rs\<close>,
    \<open>umbrella_guard.rs\<close>, \<open>api/umbrellas.rs\<close>); \<open>Umbrella_View\<close>: the read endpoints. \<open>Umbrella_Lifecycle\<close>: what each
    request does, over the contract (locale \<open>umbrella_service\<close>); \<open>Umbrella_Governance\<close>: its numbered theorems over
    the store in Redis.
  \<^item> \<open>Semantic_Canon\<close>: the canonical form and the fingerprint of semantic metadata
    (\<open>deblob-semantic/src/canon.rs\<close>, \<open>digest.rs\<close>); \<open>Semantic_Decimal\<close>: the decimal form of number literals against
    a grammar and rational values; \<open>Semantic_Facts\<close>, \<open>Semantic_Meaning\<close>: what metadata mean, and that each part of
    the encoding is self-delimiting (locale \<open>self_delimiting\<close>, interpreted on every encoder).
  \<^item> the theories named \<open>*_Properties\<close> hold the numbered theorems, each with a witness at concrete
    values when it has hypotheses.

  \<^bold>\<open>How the parts meet\<close>: the relay classifies with the hot path, which asks the vault's index; what is
  new goes to the discovery topic, whose consumer ingests it into candidates of the evidence store;
  a candidate is promoted, by hand or by the sweep, into the vault, and its documents are from then on
  known to the hot path. Published schemas whose fields carry the same meaning are proposed as umbrellas,
  which a reviewer approves or rejects; an approval verifies the transforms that the executor then runs. \<open>Lane_Properties\<close> and \<open>Discovery_Properties\<close> state
  this across the components, over one Redis server.

  \<^bold>\<open>Parameters\<close>: SHA-256, base32, hexadecimal, UUID syntax, serde codecs, the Redis server, the Kafka
  client, the LRU cache, the rate limiter, the regular expression engine, Unicode normalization, random
  identifiers, clocks, floating point and, for umbrellas, the answers of the registry's listing and of the
  semantic store are arguments; a theorem that relies on one of them states what
  it needs (no collision on the two encodings at hand, decoding inverts encoding, \<open>redis_service\<close>).

  \<^bold>\<open>Bounds\<close>: sizes and depths are natural numbers (\<open>usize\<close> never overflows on inputs that fit in
  memory), counters of profiles are 64-bit words and wrap, versions are the 64-bit integers of
  \<open>HINCRBY\<close> on the server and 32-bit words in the client, ages of candidates are integers. The
  ratio of the automatic promotion policy and the entropy test of the detectors are exact rather than
  rounded floating point. The loops of relay, consumer and sweep recurse over the list of what happens to
  them (messages, errors, cancellation), so they need no fuel; the parser's fuel is \<open>3n+3\<close>. Messages of
  errors that are only formatted for people are kept as the data they are formatted from.

  \<^bold>\<open>Not modelled\<close>: connections, retries and logging; concurrency inside the server (a script is
  atomic) and the exposition of metrics; signatures, vocabularies and revisions of semantic metadata, the language
  model, retrieval, retraining, shadow evaluation and drift, the HTTP service and configuration,
  the Redis stores of samples, sources, feedback and semantics, evaluation and benchmarks. Requests on
  umbrellas are served one after the other: the stores' calls of two requests are not interleaved.
\<close>

end
